(* ===== verification/Cobalt_Prelude.thy ===== *)
theory Cobalt_Prelude
  imports Main "HOL-Library.Code_Target_Numeral" "HOL-Library.Word" "HOL-Library.Multiset" "HOL-Library.Monad_Syntax"
begin

unbundle bit_operations_syntax

section \<open>Shared types and lemmas\<close>

text \<open>
  Types, constants and generic facts that the component theories share.

  \<^item> \<open>size_t\<close> values are natural numbers; where the C arithmetic can pass \<open>SIZE_MAX\<close> the
    reduction \<open>szt\<close> modulo \<open>2 ^ 64\<close> is written out.
  \<^item> A C string is the list of its bytes; the byte \<open>0\<close> or the end of the list is the terminator.
  \<^item> \<open>comparator\<close> is the contract of a \<open>compare_func_t\<close> callback, the one interface both the
    sorting algorithms and the tree map rely on; it is discharged for \<open>strcmp\<close>.
\<close>

named_theorems cobalt_defs \<open>definitions of small accessors and constants\<close>
named_theorems inv_intros \<open>invariant preservation\<close>

type_synonym u32 = "32 word"
type_synonym u64 = "64 word"

abbreviation (input) SIZE_MAX :: nat where
  "SIZE_MAX \<equiv> 18446744073709551615"

definition szt :: "nat \<Rightarrow> nat" where
  "szt n = n mod 18446744073709551616"

lemma szt_small [simp]: "n < 18446744073709551616 \<Longrightarrow> szt n = n"
  by (simp add: szt_def)

lemma szt_less [simp]: "szt n < 18446744073709551616"
  by (simp add: szt_def)

subsection \<open>Indices modulo a capacity\<close>

lemma and_mask_nat: "n AND (2 ^ k - 1) = n mod 2 ^ k" for n :: nat
proof -
  have "n AND (2 ^ k - 1) = take_bit k n"
    by (simp only: take_bit_eq_mask mask_eq_exp_minus_1)
  then show ?thesis by (simp only: take_bit_eq_mod)
qed

lemma mod_Suc_distinct:
  fixes i c :: nat
  assumes "1 < c" "i < c"
  shows "Suc i mod c \<noteq> i"
  using assms by (simp add: mod_Suc)

subsection \<open>C strings\<close>

abbreviation (input) NUL :: char where
  "NUL \<equiv> CHR 0x00"

definition cstr :: "string \<Rightarrow> string" where
  "cstr s = takeWhile (\<lambda>c. c \<noteq> NUL) s"

definition strlen :: "string \<Rightarrow> nat" where
  "strlen s = length (cstr s)"

fun strcmp :: "string \<Rightarrow> string \<Rightarrow> int" where
  "strcmp [] [] = 0"
| "strcmp [] (b # bs) = - of_char b"
| "strcmp (a # as) [] = of_char a"
| "strcmp (a # as) (b # bs) =
     (if a = b then (if a = NUL then 0 else strcmp as bs) else of_char a - of_char b)"

lemma of_char_NUL_iff [simp]: "(of_char c :: int) = 0 \<longleftrightarrow> c = NUL"
proof -
  have "(of_char c :: int) = of_char NUL \<longleftrightarrow> c = NUL"
    by (simp only: of_char_eq_iff)
  then show ?thesis by simp
qed

lemma of_char_nonneg [simp]: "(0 :: int) \<le> of_char c"
  by (simp add: of_char_def)

lemma of_char_pos: "c \<noteq> NUL \<Longrightarrow> (0 :: int) < of_char c"
  using of_char_NUL_iff [of c] of_char_nonneg [of c] by linarith

lemma of_char_pos_iff [simp]: "(0 :: int) < of_char c \<longleftrightarrow> c \<noteq> NUL"
  using of_char_pos by fastforce

lemma of_char_le_0_iff [simp]: "(of_char c :: int) \<le> 0 \<longleftrightarrow> c = NUL"
  using of_char_pos_iff [of c] by linarith

lemma strcmp_swap: "strcmp t s = - strcmp s t"
  by (induction s t rule: strcmp.induct) auto

lemma strcmp_trans: "strcmp s t \<le> 0 \<Longrightarrow> strcmp t u \<le> 0 \<Longrightarrow> strcmp s u \<le> 0"
proof (induction s t arbitrary: u rule: strcmp.induct)
  case 1
  then show ?case by (cases u) auto
next
  case (2 b bs)
  then show ?case by (cases u) auto
next
  case (3 a as)
  then show ?case by (cases u) auto
next
  case (4 a as b bs)
  show ?case
  proof (cases "a = b \<and> a \<noteq> NUL")
    case True
    then have ab: "strcmp as bs \<le> 0" using "4.prems" by (auto split: if_splits)
    show ?thesis
    proof (cases u)
      case Nil
      with True "4.prems" show ?thesis by simp
    next
      case (Cons c cs)
      have "strcmp as cs \<le> 0" if "strcmp bs cs \<le> 0"
        using "4.IH" True ab that by blast
      with True Cons "4.prems" show ?thesis by (cases "c = NUL") (auto split: if_splits)
    qed
  next
    case False
    with "4.prems" show ?thesis by (cases u) (auto split: if_splits)
  qed
qed

lemma cstr_simps [simp]:
  "cstr [] = []"
  "cstr (c # cs) = (if c = NUL then [] else c # cstr cs)"
  by (simp_all add: cstr_def)

lemma strcmp_eq_0_iff: "strcmp s t = 0 \<longleftrightarrow> cstr s = cstr t"
  by (induction s t rule: strcmp.induct) auto

lemma strcmp_cstr [simp]: "strcmp (cstr s) (cstr t) = strcmp s t"
  by (induction s t rule: strcmp.induct) auto

lemma cstr_idem [simp]: "cstr (cstr s) = cstr s"
  by (induction s) auto

subsection \<open>Comparison callbacks\<close>

text \<open>
  The contract of \<open>compare_func_t\<close> / \<open>cobalt_compare_func_t\<close>
  (\<open>include/cobalt/algorithm/sort.h\<close>): the sign of the result is a total preorder.
\<close>

locale comparator =
  fixes cmp :: "'a \<Rightarrow> 'a \<Rightarrow> int"
  assumes cmp_swap: "cmp a b < 0 \<longleftrightarrow> 0 < cmp b a"
    and cmp_trans: "cmp a b \<le> 0 \<Longrightarrow> cmp b c \<le> 0 \<Longrightarrow> cmp a c \<le> 0"
begin

lemma cmp_refl [simp]: "cmp a a = 0"
  using cmp_swap [of a a] by linarith

lemma cmp_le_total: "cmp a b \<le> 0 \<or> cmp b a \<le> 0"
  using cmp_swap [of a b] by linarith

lemma cmp_gt_le: "0 < cmp a b \<Longrightarrow> cmp b a \<le> 0"
  using cmp_swap [of b a] by linarith

lemma cmp_eq_sym: "cmp a b = 0 \<Longrightarrow> cmp b a = 0"
  using cmp_swap [of a b] cmp_swap [of b a] by linarith

lemma cmp_less_le_trans: "cmp a b < 0 \<Longrightarrow> cmp b c \<le> 0 \<Longrightarrow> cmp a c < 0"
  using cmp_trans [of b c a] cmp_swap [of a b] cmp_swap [of a c] by linarith

lemma cmp_le_less_trans: "cmp a b \<le> 0 \<Longrightarrow> cmp b c < 0 \<Longrightarrow> cmp a c < 0"
  using cmp_trans [of c a b] cmp_swap [of b c] cmp_swap [of a c] by linarith

lemma cmp_cong_left: "cmp a b = 0 \<Longrightarrow> sgn (cmp a c) = sgn (cmp b c)"
proof -
  assume ab: "cmp a b = 0"
  note ba = cmp_eq_sym [OF ab]
  have "cmp a c \<le> 0 \<longleftrightarrow> cmp b c \<le> 0"
    using cmp_trans [of a b c] cmp_trans [of b a c] ab ba by auto
  moreover have "cmp a c < 0 \<longleftrightarrow> cmp b c < 0"
    using cmp_le_less_trans [of a b c] cmp_le_less_trans [of b a c] ab ba by auto
  ultimately show ?thesis by (auto simp: sgn_if)
qed

lemma cmp_cong_right: "cmp a b = 0 \<Longrightarrow> sgn (cmp c a) = sgn (cmp c b)"
proof -
  assume ab: "cmp a b = 0"
  note ba = cmp_eq_sym [OF ab]
  have "cmp c a \<le> 0 \<longleftrightarrow> cmp c b \<le> 0"
    using cmp_trans [of c a b] cmp_trans [of c b a] ab ba by auto
  moreover have "cmp c a < 0 \<longleftrightarrow> cmp c b < 0"
    using cmp_less_le_trans [of c a b] cmp_less_le_trans [of c b a] ab ba by auto
  ultimately show ?thesis by (auto simp: sgn_if)
qed

end

interpretation strcmp: comparator strcmp
proof
  show "strcmp a b < 0 \<longleftrightarrow> 0 < strcmp b a" for a b
    using strcmp_swap [of a b] by linarith
  show "strcmp a b \<le> 0 \<Longrightarrow> strcmp b c \<le> 0 \<Longrightarrow> strcmp a c \<le> 0" for a b c
    by (rule strcmp_trans)
qed

end
