(* ===== verification/Cobalt_Runtime.thy ===== *)
theory Cobalt_Runtime
  imports Cobalt_Prelude
begin

section \<open>Runtime: error codes and the error stack\<close>

text \<open>
  \<open>src/runtime/error.c\<close> and \<open>src/runtime/error_stack.c\<close>. The thread-local
  \<open>last_error\<close> is an explicit argument and result. Container operations report a call of
  \<open>cobalt_error_set(NULL, e)\<close> as \<open>Some e\<close> in their result and as \<open>None\<close> when they leave
  \<open>last_error\<close> alone.
\<close>

datatype cobalt_error =
    COBALT_SUCCESS
  | COBALT_ERROR_GENERAL
  | COBALT_ERROR_INVALID_ARGUMENT
  | COBALT_ERROR_OUT_OF_MEMORY
  | COBALT_ERROR_NOT_FOUND
  | COBALT_ERROR_ALREADY_EXISTS
  | COBALT_ERROR_PERMISSION_DENIED
  | COBALT_ERROR_IO
  | COBALT_ERROR_TIMEOUT
  | COBALT_ERROR_OUT_OF_BOUNDS
  | COBALT_ERROR_EMPTY_CONTAINER
  | COBALT_ERROR_QUEUE_FULL

fun cobalt_error_get_message :: "cobalt_error \<Rightarrow> string" where
  "cobalt_error_get_message COBALT_SUCCESS = ''Success''"
| "cobalt_error_get_message COBALT_ERROR_GENERAL = ''General error''"
| "cobalt_error_get_message COBALT_ERROR_INVALID_ARGUMENT = ''Invalid argument''"
| "cobalt_error_get_message COBALT_ERROR_OUT_OF_MEMORY = ''Out of memory''"
| "cobalt_error_get_message COBALT_ERROR_NOT_FOUND = ''Not found''"
| "cobalt_error_get_message COBALT_ERROR_ALREADY_EXISTS = ''Already exists''"
| "cobalt_error_get_message COBALT_ERROR_PERMISSION_DENIED = ''Permission denied''"
| "cobalt_error_get_message COBALT_ERROR_IO = ''IO error''"
| "cobalt_error_get_message COBALT_ERROR_TIMEOUT = ''Timeout''"
| "cobalt_error_get_message COBALT_ERROR_OUT_OF_BOUNDS = ''Index out of bounds''"
| "cobalt_error_get_message COBALT_ERROR_EMPTY_CONTAINER = ''Container is empty''"
| "cobalt_error_get_message COBALT_ERROR_QUEUE_FULL = ''Queue is full''"

text \<open>
  The pointer argument of \<open>cobalt_error_set\<close> is optional; the model returns the value stored
  through it (if any) and the new thread-local error.
\<close>

definition cobalt_error_set ::
    "cobalt_error option \<Rightarrow> cobalt_error \<Rightarrow> cobalt_error \<Rightarrow> cobalt_error option \<times> cobalt_error" where
  "cobalt_error_set error_ptr code last_error = (map_option (\<lambda>_. code) error_ptr, code)"

definition cobalt_error_get_current :: "cobalt_error \<Rightarrow> cobalt_error" where
  "cobalt_error_get_current last_error = last_error"

abbreviation (input) COBALT_ERROR_STACK_MAX_DEPTH :: nat where
  "COBALT_ERROR_STACK_MAX_DEPTH \<equiv> 32"

record error_stack =
  es_entries :: "cobalt_error list"
  es_depth :: nat

definition cobalt_error_stack_push ::
    "error_stack option \<Rightarrow> cobalt_error \<Rightarrow> cobalt_error \<times> error_stack option" where
  "cobalt_error_stack_push stack last_error =
     (case stack of
        None \<Rightarrow> (COBALT_ERROR_INVALID_ARGUMENT, None)
      | Some st \<Rightarrow>
          if COBALT_ERROR_STACK_MAX_DEPTH \<le> es_depth st
          then (COBALT_ERROR_OUT_OF_MEMORY, Some st)
          else (COBALT_SUCCESS,
                Some (st\<lparr>es_entries := (es_entries st)[es_depth st := cobalt_error_get_current last_error],
                         es_depth := Suc (es_depth st)\<rparr>)))"

definition cobalt_error_stack_pop ::
    "error_stack option \<Rightarrow> cobalt_error \<Rightarrow> error_stack option \<times> cobalt_error" where
  "cobalt_error_stack_pop stack last_error =
     (case stack of
        None \<Rightarrow> (None, last_error)
      | Some st \<Rightarrow>
          if es_depth st = 0 then (Some st, last_error)
          else let d = es_depth st - 1
               in (Some (st\<lparr>es_depth := d\<rparr>),
                   snd (cobalt_error_set None (es_entries st ! d) last_error)))"

definition cobalt_error_stack_clear ::
    "error_stack option \<Rightarrow> cobalt_error \<Rightarrow> error_stack option \<times> cobalt_error" where
  "cobalt_error_stack_clear stack last_error =
     (case stack of
        None \<Rightarrow> (None, last_error)
      | Some st \<Rightarrow> (Some (st\<lparr>es_depth := 0\<rparr>),
                     snd (cobalt_error_set None COBALT_SUCCESS last_error)))"

definition cobalt_error_stack_depth :: "error_stack option \<Rightarrow> nat" where
  "cobalt_error_stack_depth stack = (case stack of None \<Rightarrow> 0 | Some st \<Rightarrow> es_depth st)"

definition cobalt_error_stack_is_full :: "error_stack option \<Rightarrow> bool" where
  "cobalt_error_stack_is_full stack =
     (case stack of None \<Rightarrow> True | Some st \<Rightarrow> COBALT_ERROR_STACK_MAX_DEPTH \<le> es_depth st)"

definition error_stack_inv :: "error_stack \<Rightarrow> bool" where
  "error_stack_inv st \<longleftrightarrow>
     length (es_entries st) = COBALT_ERROR_STACK_MAX_DEPTH \<and>
     es_depth st \<le> COBALT_ERROR_STACK_MAX_DEPTH"

definition error_stack_abs :: "error_stack \<Rightarrow> cobalt_error list" where
  "error_stack_abs st = rev (take (es_depth st) (es_entries st))"

lemma cobalt_error_get_message_inj:
  "cobalt_error_get_message a = cobalt_error_get_message b \<longleftrightarrow> a = b"
  by (cases a; cases b) simp_all

lemma error_stack_push_abs:
  assumes "error_stack_inv st" "es_depth st < COBALT_ERROR_STACK_MAX_DEPTH"
  obtains st' where "cobalt_error_stack_push (Some st) e = (COBALT_SUCCESS, Some st')"
    "error_stack_inv st'" "error_stack_abs st' = e # error_stack_abs st"
  using assms
  by (auto simp: cobalt_error_stack_push_def error_stack_inv_def error_stack_abs_def
      cobalt_error_get_current_def take_Suc_conv_app_nth)

lemma error_stack_pop_abs:
  assumes "error_stack_inv st" "error_stack_abs st = e # es"
  obtains st' where "cobalt_error_stack_pop (Some st) l = (Some st', e)"
    "error_stack_inv st'" "error_stack_abs st' = es"
proof -
  have "es_depth st \<noteq> 0"
    using assms(2) by (intro notI) (simp add: error_stack_abs_def)
  moreover have "es_depth st \<le> length (es_entries st)"
    using assms(1) by (simp add: error_stack_inv_def)
  ultimately obtain k where k: "es_depth st = Suc k" "k < length (es_entries st)"
    by (cases "es_depth st") auto
  with assms have "e = es_entries st ! k" "es = rev (take k (es_entries st))"
    by (auto simp: error_stack_abs_def take_Suc_conv_app_nth)
  with k assms(1) that [of "st\<lparr>es_depth := k\<rparr>"] show ?thesis
    by (auto simp: cobalt_error_stack_pop_def cobalt_error_set_def error_stack_inv_def
        error_stack_abs_def)
qed

end
