(* ===== verification/Cobalt_Map.thy ===== *)
theory Cobalt_Map
  imports Cobalt_Runtime
begin

section \<open>The map interface\<close>

text \<open>
  \<open>src/interface/map.c\<close> and \<open>include/cobalt/interface/map.h\<close>: the virtual table of a map and the
  convenience wrappers that dispatch through it. A map object is a pair of its table and its state;
  a NULL slot of the table is \<open>None\<close>. A slot of the table returns the C result, the error it sets
  (if any) and the new state; the outer \<open>None\<close> is a call that does not return normally (a loop that
  does not end, a NULL dereference).

  The contract every provider keeps is the locale \<open>map_object\<close>: a ghost abstraction function to a
  partial function from canonical keys to stored values, and one law per table slot. What a client
  can conclude is proved once inside it.
\<close>

type_synonym 's map_result = "(int \<times> cobalt_error option \<times> 's) option"

record ('s, 'v) cobalt_map =
  mv_get :: "('s \<Rightarrow> string option \<Rightarrow> nat \<Rightarrow> ('v option \<times> cobalt_error option) option) option"
  mv_put :: "('s \<Rightarrow> string option \<Rightarrow> nat \<Rightarrow> 'v option \<Rightarrow> 's map_result) option"
  mv_remove :: "('s \<Rightarrow> string option \<Rightarrow> nat \<Rightarrow> 's map_result) option"
  mv_contains :: "('s \<Rightarrow> string option \<Rightarrow> nat \<Rightarrow> bool option) option"
  mv_clear :: "('s \<Rightarrow> cobalt_error option \<times> 's) option"
  mv_size :: "('s \<Rightarrow> nat) option"
  mv_is_empty :: "('s \<Rightarrow> bool) option"

type_synonym ('s, 'v) map_obj = "(('s, 'v) cobalt_map \<times> 's) option"

definition cobalt_map_get ::
    "('s, 'v) map_obj \<Rightarrow> string option \<Rightarrow> nat \<Rightarrow> ('v option \<times> cobalt_error option) option" where
  "cobalt_map_get mp key key_len =
     (case mp of
        None \<Rightarrow> Some (None, None)
      | Some (vt, s) \<Rightarrow>
          (case mv_get vt of None \<Rightarrow> Some (None, None) | Some f \<Rightarrow> f s key key_len))"

definition cobalt_map_put ::
    "('s, 'v) map_obj \<Rightarrow> string option \<Rightarrow> nat \<Rightarrow> 'v option \<Rightarrow> ('s, 'v) map_obj map_result" where
  "cobalt_map_put mp key key_len value =
     (case mp of
        None \<Rightarrow> Some (-1, None, None)
      | Some (vt, s) \<Rightarrow>
          (case mv_put vt of
             None \<Rightarrow> Some (-1, None, mp)
           | Some f \<Rightarrow> f s key key_len value \<bind> (\<lambda>(r, e, s'). Some (r, e, Some (vt, s')))))"

definition cobalt_map_remove ::
    "('s, 'v) map_obj \<Rightarrow> string option \<Rightarrow> nat \<Rightarrow> ('s, 'v) map_obj map_result" where
  "cobalt_map_remove mp key key_len =
     (case mp of
        None \<Rightarrow> Some (-1, None, None)
      | Some (vt, s) \<Rightarrow>
          (case mv_remove vt of
             None \<Rightarrow> Some (-1, None, mp)
           | Some f \<Rightarrow> f s key key_len \<bind> (\<lambda>(r, e, s'). Some (r, e, Some (vt, s')))))"

definition cobalt_map_contains :: "('s, 'v) map_obj \<Rightarrow> string option \<Rightarrow> nat \<Rightarrow> bool option" where
  "cobalt_map_contains mp key key_len =
     (case mp of
        None \<Rightarrow> Some False
      | Some (vt, s) \<Rightarrow>
          (case mv_contains vt of None \<Rightarrow> Some False | Some f \<Rightarrow> f s key key_len))"

definition cobalt_map_clear :: "('s, 'v) map_obj \<Rightarrow> cobalt_error option \<times> ('s, 'v) map_obj" where
  "cobalt_map_clear mp =
     (case mp of
        None \<Rightarrow> (None, None)
      | Some (vt, s) \<Rightarrow>
          (case mv_clear vt of
             None \<Rightarrow> (None, mp)
           | Some f \<Rightarrow> (let (e, s') = f s in (e, Some (vt, s')))))"

definition cobalt_map_size :: "('s, 'v) map_obj \<Rightarrow> nat" where
  "cobalt_map_size mp =
     (case mp of
        None \<Rightarrow> 0
      | Some (vt, s) \<Rightarrow> (case mv_size vt of None \<Rightarrow> 0 | Some f \<Rightarrow> f s))"

definition cobalt_map_is_empty :: "('s, 'v) map_obj \<Rightarrow> bool" where
  "cobalt_map_is_empty mp =
     (case mp of
        None \<Rightarrow> True
      | Some (vt, s) \<Rightarrow> (case mv_is_empty vt of None \<Rightarrow> True | Some f \<Rightarrow> f s))"

subsection \<open>Map iterators\<close>

text \<open>
  \<open>cobalt_map_iterator_t\<close>: the two slots of the iterator table that compute, and the iterator's
  state. \<open>map_drain\<close> is the loop every client writes, \<open>while (has_next) next\<close>, cut after \<open>n\<close> rounds.
\<close>

type_synonym 'v map_pair = "string option \<times> 'v option"

record ('i, 'v) map_iterator_vtable =
  iv_has_next :: "'i \<Rightarrow> bool"
  iv_next :: "'i \<Rightarrow> 'v map_pair \<times> 'i"

type_synonym ('i, 'v) map_iter = "(('i, 'v) map_iterator_vtable \<times> 'i) option"

definition cobalt_map_iterator_has_next :: "('i, 'v) map_iter \<Rightarrow> bool" where
  "cobalt_map_iterator_has_next it =
     (case it of None \<Rightarrow> False | Some (vt, d) \<Rightarrow> iv_has_next vt d)"

definition cobalt_map_iterator_next :: "('i, 'v) map_iter \<Rightarrow> 'v map_pair \<times> ('i, 'v) map_iter" where
  "cobalt_map_iterator_next it =
     (case it of
        None \<Rightarrow> ((None, None), None)
      | Some (vt, d) \<Rightarrow> (let (p, d') = iv_next vt d in (p, Some (vt, d'))))"

fun map_drain :: "nat \<Rightarrow> ('i, 'v) map_iter \<Rightarrow> 'v map_pair list option" where
  "map_drain 0 it = (if cobalt_map_iterator_has_next it then None else Some [])"
| "map_drain (Suc n) it =
     (if cobalt_map_iterator_has_next it then
        (let (p, it') = cobalt_map_iterator_next it in map_drain n it' \<bind> (\<lambda>ps. Some (p # ps)))
      else Some [])"

subsection \<open>The contract of a map object\<close>

locale map_object =
  fixes vt :: "('s, 'v) cobalt_map"
    and inv :: "'s \<Rightarrow> bool" and limit :: nat
    and canon :: "string \<Rightarrow> string"
    and absf :: "'s \<Rightarrow> string \<Rightarrow> 'v option option"
  assumes get_law: "inv s \<Longrightarrow>
      \<exists>e. cobalt_map_get (Some (vt, s)) (Some k) l =
          Some (case absf s (canon k) of None \<Rightarrow> None | Some v \<Rightarrow> v, e)"
    and contains_law: "inv s \<Longrightarrow> absf s (canon k) \<noteq> Some None \<Longrightarrow>
      cobalt_map_contains (Some (vt, s)) (Some k) l = Some (absf s (canon k) \<noteq> None)"
    and put_law: "inv s \<Longrightarrow> cobalt_map_size (Some (vt, s)) < limit \<Longrightarrow>
      \<exists>e s'. cobalt_map_put (Some (vt, s)) (Some k) l v = Some (0, e, Some (vt, s')) \<and>
           inv s' \<and> absf s' = (absf s)(canon k := Some v)"
    and clear_law: "inv s \<Longrightarrow>
      \<exists>e s'. cobalt_map_clear (Some (vt, s)) = (e, Some (vt, s')) \<and> inv s' \<and> absf s' = (\<lambda>_. None)"
    and size_law: "inv s \<Longrightarrow> finite (dom (absf s)) \<and> cobalt_map_size (Some (vt, s)) = card (dom (absf s))"
    and is_empty_law: "cobalt_map_is_empty (Some (vt, s)) \<longleftrightarrow> cobalt_map_size (Some (vt, s)) = 0"
begin

lemma put_get:
  assumes "inv s" "cobalt_map_size (Some (vt, s)) < limit"
  obtains e s' where "cobalt_map_put (Some (vt, s)) (Some k) l v = Some (0, e, Some (vt, s'))" "inv s'"
    "\<And>k' l'. map_option fst (cobalt_map_get (Some (vt, s')) (Some k') l') =
       (if canon k' = canon k then Some v
        else map_option fst (cobalt_map_get (Some (vt, s)) (Some k') l'))"
proof -
  obtain e s' where p: "cobalt_map_put (Some (vt, s)) (Some k) l v = Some (0, e, Some (vt, s'))" "inv s'"
      "absf s' = (absf s)(canon k := Some v)"
    using put_law [OF assms] by blast
  have "map_option fst (cobalt_map_get (Some (vt, s')) (Some k') l') =
       (if canon k' = canon k then Some v
        else map_option fst (cobalt_map_get (Some (vt, s)) (Some k') l'))" for k' l'
    using get_law [OF assms(1), of k' l'] get_law [OF p(2), of k' l'] p(3) by auto
  with p that show ?thesis by blast
qed

lemma put_size:
  assumes "inv s" "cobalt_map_put (Some (vt, s)) (Some k) l v = Some (0, e, Some (vt, s'))"
    "cobalt_map_size (Some (vt, s)) < limit"
  shows "cobalt_map_size (Some (vt, s')) =
    (if absf s (canon k) = None then Suc (cobalt_map_size (Some (vt, s)))
     else cobalt_map_size (Some (vt, s)))"
proof -
  have p: "inv s'" "absf s' = (absf s)(canon k := Some v)"
    using put_law [OF assms(1,3), of k l v] assms(2) by auto
  have "dom (absf s') = insert (canon k) (dom (absf s))" using p(2) by auto
  with size_law [OF assms(1)] size_law [OF p(1)] show ?thesis
    by (auto simp: card_insert_if domIff)
qed

lemma is_empty_iff: "inv s \<Longrightarrow> cobalt_map_is_empty (Some (vt, s)) \<longleftrightarrow> absf s = (\<lambda>_. None)"
  using is_empty_law [of s] size_law [of s] by (auto simp: dom_def)

end

text \<open>
  A client program is a list of commands; \<open>map_exec\<close> runs it through the table, discarding the
  results, and \<open>map_spec\<close> is what it means on a partial function.
\<close>

datatype 'v map_op = Put string nat "'v option" | Remove string nat | Clear

fun map_step :: "('s, 'v) cobalt_map \<Rightarrow> 'v map_op \<Rightarrow> 's \<Rightarrow> 's option" where
  "map_step vt (Put k l v) s =
     cobalt_map_put (Some (vt, s)) (Some k) l v \<bind> (\<lambda>(r, e, mp). map_option snd mp)"
| "map_step vt (Remove k l) s =
     cobalt_map_remove (Some (vt, s)) (Some k) l \<bind> (\<lambda>(r, e, mp). map_option snd mp)"
| "map_step vt Clear s = map_option snd (snd (cobalt_map_clear (Some (vt, s))))"

fun map_exec :: "('s, 'v) cobalt_map \<Rightarrow> 'v map_op list \<Rightarrow> 's \<Rightarrow> 's option" where
  "map_exec vt [] s = Some s"
| "map_exec vt (c # cs) s = map_step vt c s \<bind> map_exec vt cs"

fun map_spec :: "(string \<Rightarrow> string) \<Rightarrow> 'v map_op list \<Rightarrow> (string \<Rightarrow> 'v option option) \<Rightarrow> string \<Rightarrow> 'v option option" where
  "map_spec canon [] M = M"
| "map_spec canon (Put k l v # cs) M = map_spec canon cs (M(canon k := Some v))"
| "map_spec canon (Remove k l # cs) M = map_spec canon cs (M(canon k := None))"
| "map_spec canon (Clear # cs) M = map_spec canon cs (\<lambda>_. None)"

locale map_remover = map_object +
  assumes remove_hit: "inv s \<Longrightarrow> absf s (canon k) \<noteq> None \<Longrightarrow>
      \<exists>e s'. cobalt_map_remove (Some (vt, s)) (Some k) l = Some (0, e, Some (vt, s')) \<and>
           inv s' \<and> absf s' = (absf s)(canon k := None)"
    and remove_miss: "inv s \<Longrightarrow> absf s (canon k) = None \<Longrightarrow>
      \<exists>e. cobalt_map_remove (Some (vt, s)) (Some k) l = Some (-1, e, Some (vt, s))"
begin

lemma put_remove:
  assumes "inv s" "cobalt_map_size (Some (vt, s)) < limit" "absf s (canon k) = None"
  obtains e s' e' s'' where "cobalt_map_put (Some (vt, s)) (Some k) l v = Some (0, e, Some (vt, s'))"
    "cobalt_map_remove (Some (vt, s')) (Some k) l' = Some (0, e', Some (vt, s''))"
    "inv s''" "absf s'' = absf s"
proof -
  obtain e s' where p: "cobalt_map_put (Some (vt, s)) (Some k) l v = Some (0, e, Some (vt, s'))" "inv s'"
      "absf s' = (absf s)(canon k := Some v)"
    using put_law [OF assms(1,2)] by blast
  obtain e' s'' where r: "cobalt_map_remove (Some (vt, s')) (Some k) l' = Some (0, e', Some (vt, s''))"
      "inv s''" "absf s'' = (absf s')(canon k := None)"
    using remove_hit [OF p(2), of k l'] p(3) by auto
  have "absf s'' = absf s" using r(3) p(3) assms(3) by auto
  with p r that show ?thesis by blast
qed

lemma step_refines:
  assumes "inv s" "cobalt_map_size (Some (vt, s)) < limit"
  obtains s' where "map_step vt c s = Some s'" "inv s'"
    "absf s' = map_spec canon [c] (absf s)"
    "cobalt_map_size (Some (vt, s')) \<le> Suc (cobalt_map_size (Some (vt, s)))"
proof -
  have "\<exists>s'. map_step vt c s = Some s' \<and> inv s' \<and> absf s' = map_spec canon [c] (absf s)"
  proof (cases c)
    case (Put k l v)
    then show ?thesis using put_law [OF assms, of k l v] by auto
  next
    case (Remove k l)
    then show ?thesis
    proof (cases "absf s (canon k)")
      case None
      then have "(absf s)(canon k := None) = absf s" by auto
      then show ?thesis using remove_miss [OF assms(1) None, of l] Remove assms(1) by auto
    next
      case Some
      then show ?thesis using remove_hit [OF assms(1), of k l] Remove by auto
    qed
  next
    case Clear
    then show ?thesis using clear_law [OF assms(1)] by auto
  qed
  then obtain s' where s': "map_step vt c s = Some s'" "inv s'" "absf s' = map_spec canon [c] (absf s)"
    by blast
  have fin: "finite (dom (absf s))" using size_law [OF assms(1)] by simp
  have "dom (absf s') \<subseteq> insert (case c of Put k l v \<Rightarrow> canon k | _ \<Rightarrow> []) (dom (absf s))"
    using s'(3) by (cases c) (auto split: if_splits)
  then have "card (dom (absf s')) \<le> card (insert (case c of Put k l v \<Rightarrow> canon k | _ \<Rightarrow> []) (dom (absf s)))"
    using fin by (intro card_mono) simp_all
  also have "\<dots> \<le> Suc (card (dom (absf s)))" using fin by (simp add: card_insert_if)
  finally have "card (dom (absf s')) \<le> Suc (card (dom (absf s)))" .
  then show ?thesis using that s' size_law [OF assms(1)] size_law [OF s'(2)] by simp
qed

lemma map_spec_Cons: "map_spec canon (c # cs) M = map_spec canon cs (map_spec canon [c] M)"
  by (cases c) simp_all

lemma exec_refines:
  assumes "inv s" "cobalt_map_size (Some (vt, s)) + length cs \<le> limit"
  shows "\<exists>s'. map_exec vt cs s = Some s' \<and> inv s' \<and> absf s' = map_spec canon cs (absf s)"
  using assms
proof (induction cs arbitrary: s)
  case Nil
  then show ?case by simp
next
  case (Cons c cs)
  have "cobalt_map_size (Some (vt, s)) < limit" using Cons.prems(2) by simp
  from step_refines [OF Cons.prems(1) this, of c]
  obtain s' where s': "map_step vt c s = Some s'" "inv s'" "absf s' = map_spec canon [c] (absf s)"
      "cobalt_map_size (Some (vt, s')) \<le> Suc (cobalt_map_size (Some (vt, s)))" by blast
  have "cobalt_map_size (Some (vt, s')) + length cs \<le> limit" using s'(4) Cons.prems(2) by simp
  from Cons.IH [OF s'(2) this] s' show ?case by (simp add: map_spec_Cons [of c cs])
qed

end

end
