(* ===== verification/Cobalt_HashMap.thy ===== *)
theory Cobalt_HashMap
  imports Cobalt_Map
begin

unbundle bit_operations_syntax

section \<open>HashMap: Robin Hood open addressing\<close>

text \<open>
  \<open>src/container/hashmap.c\<close>. The slot array is a list of records, an index is a natural
  number, \<open>hash\<close> and \<open>psl\<close> are 32-bit words. The probing loops have no bound in the source,
  so they are \<^theory_text>\<open>partial_function (option)\<close>: the value \<open>None\<close> is a loop that does not end.
  A NULL pointer is \<open>None\<close>. The boolean arguments \<open>alloc_\<dots>\<close> are the answers of the allocator
  at the allocation sites of an operation, so every out-of-memory branch is a branch of the model.
  A key is the bytes it points to; the release of owned key copies is not modelled.
\<close>

subsection \<open>Hashing\<close>

definition hashmap_next_pow2 :: "u64 \<Rightarrow> u64" where
  "hashmap_next_pow2 v =
     (let v = v - 1;
          v = v OR drop_bit 1 v;
          v = v OR drop_bit 2 v;
          v = v OR drop_bit 4 v;
          v = v OR drop_bit 8 v;
          v = v OR drop_bit 16 v;
          v = v OR drop_bit 32 v;
          v = v + 1
      in if v < 2 then 2 else v)"

abbreviation (input) COBALT_FNV1A_OFFSET_BASIS :: u32 where
  "COBALT_FNV1A_OFFSET_BASIS \<equiv> 2166136261"

abbreviation (input) COBALT_FNV1A_PRIME :: u32 where
  "COBALT_FNV1A_PRIME \<equiv> 16777619"

fun hash_string_loop :: "u32 \<Rightarrow> string \<Rightarrow> u32" where
  "hash_string_loop h [] = h"
| "hash_string_loop h (c # cs) =
     (if c = NUL then h
      else hash_string_loop ((h XOR of_nat (of_char c)) * COBALT_FNV1A_PRIME) cs)"

definition hash_string :: "string \<Rightarrow> u32" where
  "hash_string str = hash_string_loop COBALT_FNV1A_OFFSET_BASIS str"

subsection \<open>Slots and state\<close>

abbreviation (input) COBALT_HASHMAP_EMPTY_PSL :: u32 where
  "COBALT_HASHMAP_EMPTY_PSL \<equiv> 0xFFFFFFFF"

abbreviation (input) COBALT_HASHMAP_DEFAULT_BUCKETS :: nat where
  "COBALT_HASHMAP_DEFAULT_BUCKETS \<equiv> 16"

record 'v hashmap_slot =
  sl_key :: "string option"
  sl_value :: "'v option"
  sl_hash :: u32
  sl_psl :: u32
  sl_key_len :: nat
  sl_key_owned :: bool

record 'v hashmap =
  hm_slots :: "'v hashmap_slot list option"
  hm_capacity :: nat
  hm_mask :: nat
  hm_size :: nat
  hm_max_load :: nat
  hm_hash_func :: "(string \<Rightarrow> nat \<Rightarrow> u32) option"
  hm_equal_func :: "(string \<Rightarrow> string \<Rightarrow> nat \<Rightarrow> int) option"

definition slot_hash :: "'v hashmap \<Rightarrow> string \<Rightarrow> nat \<Rightarrow> u32" where
  "slot_hash impl key key_len =
     (case hm_hash_func impl of Some f \<Rightarrow> f key key_len | None \<Rightarrow> hash_string key)"

text \<open>A slot that is probed holds a key; the NULL case cannot be reached (\<open>hm_inv\<close> below).\<close>

definition slot_equal :: "'v hashmap \<Rightarrow> 'v hashmap_slot \<Rightarrow> string \<Rightarrow> nat \<Rightarrow> bool" where
  "slot_equal impl slot key key_len =
     (case sl_key slot of
        None \<Rightarrow> False
      | Some k \<Rightarrow> (case hm_equal_func impl of
                     Some f \<Rightarrow> f key k key_len \<noteq> 0
                   | None \<Rightarrow> strcmp key k = 0))"

definition empty_slot :: "'v hashmap_slot" where
  "empty_slot = \<lparr>sl_key = None, sl_value = None, sl_hash = 0, sl_psl = COBALT_HASHMAP_EMPTY_PSL,
                 sl_key_len = 0, sl_key_owned = False\<rparr>"

definition init_slots :: "nat \<Rightarrow> 'v hashmap_slot list" where
  "init_slots n = replicate n empty_slot"

subsection \<open>Probing loops\<close>

text \<open>\<open>(size_t)(hash & mask)\<close>: the 32-bit hash is widened to 64 bits before the conjunction.\<close>

definition hash_index :: "u32 \<Rightarrow> nat \<Rightarrow> nat" where
  "hash_index hash msk = unat ((ucast hash :: u64) AND of_nat msk)"

partial_function (option) find_slot_loop ::
    "'v hashmap \<Rightarrow> 'v hashmap_slot list \<Rightarrow> string \<Rightarrow> nat \<Rightarrow> u32 \<Rightarrow> nat \<Rightarrow> u32 \<Rightarrow> nat option option" where
  "find_slot_loop impl slots key key_len hash idx cur_psl =
     (let slot = slots ! idx in
      if sl_psl slot = COBALT_HASHMAP_EMPTY_PSL then Some None
      else if sl_psl slot < cur_psl then Some None
      else if sl_hash slot = hash \<and> slot_equal impl slot key key_len then Some (Some idx)
      else find_slot_loop impl slots key key_len hash ((idx + 1) AND hm_mask impl) (cur_psl + 1))"

definition find_slot :: "'v hashmap \<Rightarrow> string \<Rightarrow> nat \<Rightarrow> u32 \<Rightarrow> nat option option" where
  "find_slot impl key key_len hash =
     (case hm_slots impl of
        None \<Rightarrow> Some None
      | Some slots \<Rightarrow>
          if hm_capacity impl = 0 \<or> hm_size impl = 0 then Some None
          else find_slot_loop impl slots key key_len hash (hash_index hash (hm_mask impl)) 0)"

partial_function (option) robin_hood_loop ::
    "'v hashmap_slot list \<Rightarrow> nat \<Rightarrow> nat \<Rightarrow> 'v hashmap_slot \<Rightarrow> 'v hashmap_slot list option" where
  "robin_hood_loop slots msk idx cur =
     (let slot = slots ! idx in
      if sl_psl slot = COBALT_HASHMAP_EMPTY_PSL then Some (slots[idx := cur])
      else let (slots, cur) = (if sl_psl slot < sl_psl cur then (slots[idx := cur], slot)
                                else (slots, cur))
           in robin_hood_loop slots msk ((idx + 1) AND msk) (cur\<lparr>sl_psl := sl_psl cur + 1\<rparr>))"

definition robin_hood_insert_entry ::
    "'v hashmap_slot list \<Rightarrow> nat \<Rightarrow> 'v hashmap_slot \<Rightarrow> 'v hashmap_slot list option" where
  "robin_hood_insert_entry slots msk entry =
     robin_hood_loop slots msk (hash_index (sl_hash entry) msk) (entry\<lparr>sl_psl := 0\<rparr>)"

fun rehash_loop ::
    "'v hashmap_slot list \<Rightarrow> nat \<Rightarrow> 'v hashmap_slot list \<Rightarrow> 'v hashmap_slot list option" where
  "rehash_loop [] msk new_slots = Some new_slots"
| "rehash_loop (s # ss) msk new_slots =
     (if sl_psl s \<noteq> COBALT_HASHMAP_EMPTY_PSL
      then robin_hood_insert_entry new_slots msk s \<bind> rehash_loop ss msk
      else rehash_loop ss msk new_slots)"

text \<open>
  \<open>hashmap_ensure_capacity\<close> returns 0 or -1, the error it set and the new state.
\<close>

definition hashmap_ensure_capacity ::
    "bool \<Rightarrow> 'v hashmap \<Rightarrow> nat \<Rightarrow> (int \<times> cobalt_error option \<times> 'v hashmap) option" where
  "hashmap_ensure_capacity alloc_slots impl min_capacity =
     (let new_cap = unat (hashmap_next_pow2 (of_nat
            (if min_capacity < COBALT_HASHMAP_DEFAULT_BUCKETS then COBALT_HASHMAP_DEFAULT_BUCKETS
             else min_capacity)))
      in if new_cap \<le> hm_capacity impl \<and> hm_slots impl \<noteq> None then Some (0, None, impl)
         else if \<not> alloc_slots then Some (-1, Some COBALT_ERROR_OUT_OF_MEMORY, impl)
         else let new_mask = new_cap - 1 in
           (case hm_slots impl of
              Some slots \<Rightarrow> if 0 < hm_size impl then rehash_loop slots new_mask (init_slots new_cap)
                            else Some (init_slots new_cap)
            | None \<Rightarrow> Some (init_slots new_cap)) \<bind>
           (\<lambda>new_slots. Some (0, None,
              impl\<lparr>hm_slots := Some new_slots, hm_capacity := new_cap, hm_mask := new_mask,
                   hm_max_load := szt (new_cap * 3) div 4\<rparr>)))"

partial_function (option) backward_shift ::
    "'v hashmap_slot list \<Rightarrow> nat \<Rightarrow> nat \<Rightarrow> ('v hashmap_slot list \<times> nat) option" where
  "backward_shift slots msk cur =
     (let next = (cur + 1) AND msk; nslot = slots ! next in
      if sl_psl nslot = COBALT_HASHMAP_EMPTY_PSL \<or> sl_psl nslot = 0 then Some (slots, cur)
      else backward_shift (slots[cur := nslot\<lparr>sl_psl := sl_psl nslot - 1\<rparr>]) msk next)"

definition hashmap_remove_key ::
    "'v hashmap \<Rightarrow> string \<Rightarrow> nat \<Rightarrow> u32 \<Rightarrow> (int \<times> 'v hashmap) option" where
  "hashmap_remove_key impl key key_len hash =
     find_slot impl key key_len hash \<bind>
     (\<lambda>r. case r of
        None \<Rightarrow> Some (-1, impl)
      | Some idx \<Rightarrow>
          backward_shift (the (hm_slots impl)) (hm_mask impl) idx \<bind>
          (\<lambda>(slots, cur). Some (0,
             impl\<lparr>hm_slots := Some (slots[cur := empty_slot]), hm_size := hm_size impl - 1\<rparr>)))"

declare find_slot_loop.simps [code] robin_hood_loop.simps [code] backward_shift.simps [code]

subsection \<open>Public operations\<close>

definition cobalt_hashmap_create_with_allocator ::
    "bool \<Rightarrow> bool \<Rightarrow> nat \<Rightarrow> bool \<Rightarrow> cobalt_error option \<times> 'v hashmap option" where
  "cobalt_hashmap_create_with_allocator alloc_map alloc_slots initial_buckets alloc_null =
     (if alloc_null then (None, None)
      else if \<not> alloc_map then (Some COBALT_ERROR_OUT_OF_MEMORY, None)
      else if 0 < initial_buckets then
        let pow2_count = unat (hashmap_next_pow2 (of_nat initial_buckets)) in
        if \<not> alloc_slots then (Some COBALT_ERROR_OUT_OF_MEMORY, None)
        else (None, Some \<lparr>hm_slots = Some (init_slots pow2_count), hm_capacity = pow2_count,
                hm_mask = pow2_count - 1, hm_size = 0, hm_max_load = szt (pow2_count * 3) div 4,
                hm_hash_func = None, hm_equal_func = None\<rparr>)
      else (None, Some \<lparr>hm_slots = None, hm_capacity = 0, hm_mask = 0, hm_size = 0,
              hm_max_load = 0, hm_hash_func = None, hm_equal_func = None\<rparr>))"

definition cobalt_hashmap_create ::
    "bool \<Rightarrow> bool \<Rightarrow> nat \<Rightarrow> cobalt_error option \<times> 'v hashmap option" where
  "cobalt_hashmap_create alloc_map alloc_slots initial_buckets =
     cobalt_hashmap_create_with_allocator alloc_map alloc_slots initial_buckets False"

definition cobalt_hashmap_set_funcs ::
    "'v hashmap option \<Rightarrow> (string \<Rightarrow> nat \<Rightarrow> u32) option \<Rightarrow>
     (string \<Rightarrow> string \<Rightarrow> nat \<Rightarrow> int) option \<Rightarrow> int \<times> 'v hashmap option" where
  "cobalt_hashmap_set_funcs mp hash_func equal_func =
     (case mp of
        None \<Rightarrow> (-1, None)
      | Some m \<Rightarrow> (0, Some (m\<lparr>hm_hash_func := hash_func, hm_equal_func := equal_func\<rparr>)))"

definition cobalt_hashmap_create_ext ::
    "bool \<Rightarrow> bool \<Rightarrow> nat \<Rightarrow> (string \<Rightarrow> nat \<Rightarrow> u32) option \<Rightarrow>
     (string \<Rightarrow> string \<Rightarrow> nat \<Rightarrow> int) option \<Rightarrow> cobalt_error option \<times> 'v hashmap option" where
  "cobalt_hashmap_create_ext alloc_map alloc_slots initial_buckets hash_func equal_func =
     (case cobalt_hashmap_create alloc_map alloc_slots initial_buckets of
        (e, None) \<Rightarrow> (e, None)
      | (e, Some m) \<Rightarrow> (e, Some (m\<lparr>hm_hash_func := hash_func, hm_equal_func := equal_func\<rparr>)))"

text \<open>
  The two insertions return the C result (0 or -1), the error they set and the new map; the
  outer \<open>None\<close> is a probing loop that does not end.
\<close>

definition cobalt_hashmap_put ::
    "bool \<Rightarrow> bool \<Rightarrow> 'v hashmap option \<Rightarrow> string option \<Rightarrow> 'v option \<Rightarrow>
     (int \<times> cobalt_error option \<times> 'v hashmap option) option" where
  "cobalt_hashmap_put alloc_slots alloc_key mp key value =
     (case (mp, key) of
        (Some impl, Some key) \<Rightarrow>
          (let len = strlen key; hash = slot_hash impl key len in
           find_slot impl key len hash \<bind>
           (\<lambda>existing. case existing of
              Some i \<Rightarrow>
                let slots = the (hm_slots impl) in
                Some (0, None, Some (impl\<lparr>hm_slots := Some (slots[i := (slots ! i)\<lparr>sl_value := value\<rparr>])\<rparr>))
            | None \<Rightarrow>
                (if hm_capacity impl = 0 \<or> hm_max_load impl \<le> hm_size impl
                 then hashmap_ensure_capacity alloc_slots impl
                        (if hm_capacity impl = 0 then COBALT_HASHMAP_DEFAULT_BUCKETS
                         else szt (2 * hm_capacity impl))
                 else Some (0, None, impl)) \<bind>
                (\<lambda>(ret, err, impl).
                   if ret \<noteq> 0 then Some (-1, err, Some impl)
                   else if \<not> alloc_key then Some (-1, Some COBALT_ERROR_OUT_OF_MEMORY, Some impl)
                   else robin_hood_insert_entry (the (hm_slots impl)) (hm_mask impl)
                          \<lparr>sl_key = Some (cstr key), sl_value = value, sl_hash = hash, sl_psl = 0,
                           sl_key_len = len, sl_key_owned = True\<rparr> \<bind>
                        (\<lambda>slots. Some (0, None,
                           Some (impl\<lparr>hm_slots := Some slots, hm_size := szt (hm_size impl + 1)\<rparr>))))))
      | _ \<Rightarrow> Some (-1, Some COBALT_ERROR_INVALID_ARGUMENT, mp))"

definition cobalt_hashmap_put_ext ::
    "bool \<Rightarrow> 'v hashmap option \<Rightarrow> string option \<Rightarrow> nat \<Rightarrow> 'v option \<Rightarrow>
     (int \<times> cobalt_error option \<times> 'v hashmap option) option" where
  "cobalt_hashmap_put_ext alloc_slots mp key key_len value =
     (case (mp, key) of
        (Some impl, Some key) \<Rightarrow>
          (let hash = slot_hash impl key key_len in
           find_slot impl key key_len hash \<bind>
           (\<lambda>existing. case existing of
              Some i \<Rightarrow>
                let slots = the (hm_slots impl) in
                Some (0, None, Some (impl\<lparr>hm_slots := Some (slots[i := (slots ! i)\<lparr>sl_value := value\<rparr>])\<rparr>))
            | None \<Rightarrow>
                (if hm_capacity impl = 0 \<or> hm_max_load impl \<le> hm_size impl
                 then hashmap_ensure_capacity alloc_slots impl
                        (if hm_capacity impl = 0 then COBALT_HASHMAP_DEFAULT_BUCKETS
                         else szt (2 * hm_capacity impl))
                 else Some (0, None, impl)) \<bind>
                (\<lambda>(ret, err, impl).
                   if ret \<noteq> 0 then Some (-1, err, Some impl)
                   else robin_hood_insert_entry (the (hm_slots impl)) (hm_mask impl)
                          \<lparr>sl_key = Some key, sl_value = value, sl_hash = hash, sl_psl = 0,
                           sl_key_len = key_len, sl_key_owned = False\<rparr> \<bind>
                        (\<lambda>slots. Some (0, None,
                           Some (impl\<lparr>hm_slots := Some slots, hm_size := szt (hm_size impl + 1)\<rparr>))))))
      | _ \<Rightarrow> Some (-1, Some COBALT_ERROR_INVALID_ARGUMENT, mp))"

definition cobalt_hashmap_get ::
    "'v hashmap option \<Rightarrow> string option \<Rightarrow> ('v option \<times> cobalt_error option) option" where
  "cobalt_hashmap_get mp key =
     (case (mp, key) of
        (Some impl, Some key) \<Rightarrow>
          (let len = strlen key; hash = slot_hash impl key len in
           find_slot impl key len hash \<bind>
           (\<lambda>idx. case idx of
              None \<Rightarrow> Some (None, Some COBALT_ERROR_NOT_FOUND)
            | Some i \<Rightarrow> Some (sl_value (the (hm_slots impl) ! i), None)))
      | _ \<Rightarrow> Some (None, Some COBALT_ERROR_INVALID_ARGUMENT))"

definition cobalt_hashmap_get_ext ::
    "'v hashmap option \<Rightarrow> string option \<Rightarrow> nat \<Rightarrow> 'v option option" where
  "cobalt_hashmap_get_ext mp key key_len =
     (case (mp, key) of
        (Some impl, Some key) \<Rightarrow>
          (let hash = slot_hash impl key key_len in
           find_slot impl key key_len hash \<bind>
           (\<lambda>idx. case idx of
              None \<Rightarrow> Some None
            | Some i \<Rightarrow> Some (sl_value (the (hm_slots impl) ! i))))
      | _ \<Rightarrow> Some None)"

definition cobalt_hashmap_remove ::
    "'v hashmap option \<Rightarrow> string option \<Rightarrow> (int \<times> cobalt_error option \<times> 'v hashmap option) option" where
  "cobalt_hashmap_remove mp key =
     (case (mp, key) of
        (Some impl, Some key) \<Rightarrow>
          (let len = strlen key; hash = slot_hash impl key len in
           hashmap_remove_key impl key len hash \<bind>
           (\<lambda>(ret, impl'). if ret \<noteq> 0 then Some (-1, Some COBALT_ERROR_NOT_FOUND, Some impl')
                            else Some (0, None, Some impl')))
      | _ \<Rightarrow> Some (-1, Some COBALT_ERROR_INVALID_ARGUMENT, mp))"

definition cobalt_hashmap_remove_ext ::
    "'v hashmap option \<Rightarrow> string option \<Rightarrow> nat \<Rightarrow> (int \<times> 'v hashmap option) option" where
  "cobalt_hashmap_remove_ext mp key key_len =
     (case (mp, key) of
        (Some impl, Some key) \<Rightarrow>
          (let hash = slot_hash impl key key_len in
           hashmap_remove_key impl key key_len hash \<bind> (\<lambda>(ret, impl'). Some (ret, Some impl')))
      | _ \<Rightarrow> Some (-1, mp))"

definition hashmap_map_contains :: "'v hashmap option \<Rightarrow> string option \<Rightarrow> nat \<Rightarrow> bool option" where
  "hashmap_map_contains self key key_len =
     cobalt_hashmap_get_ext self key key_len \<bind> (\<lambda>v. Some (v \<noteq> None))"

definition hashmap_map_clear :: "'v hashmap option \<Rightarrow> 'v hashmap option" where
  "hashmap_map_clear self =
     (case self of
        None \<Rightarrow> None
      | Some impl \<Rightarrow>
          (case hm_slots impl of
             None \<Rightarrow> Some impl
           | Some _ \<Rightarrow> Some (impl\<lparr>hm_slots := Some (init_slots (hm_capacity impl)), hm_size := 0\<rparr>)))"

definition cobalt_hashmap_size :: "'v hashmap option \<Rightarrow> nat" where
  "cobalt_hashmap_size mp = (case mp of None \<Rightarrow> 0 | Some impl \<Rightarrow> hm_size impl)"

definition cobalt_hashmap_capacity :: "'v hashmap option \<Rightarrow> nat" where
  "cobalt_hashmap_capacity mp = (case mp of None \<Rightarrow> 0 | Some impl \<Rightarrow> hm_capacity impl)"

subsection \<open>Iterator\<close>

record 'v hashmap_map_iter =
  hi_impl :: "'v hashmap"
  hi_slot_idx :: nat

function hashmap_iter_advance :: "'v hashmap_map_iter \<Rightarrow> 'v hashmap_map_iter" where
  "hashmap_iter_advance iter =
     (if hi_slot_idx iter < hm_capacity (hi_impl iter) then
        if sl_psl (the (hm_slots (hi_impl iter)) ! hi_slot_idx iter) \<noteq> COBALT_HASHMAP_EMPTY_PSL then iter
        else hashmap_iter_advance (iter\<lparr>hi_slot_idx := hi_slot_idx iter + 1\<rparr>)
      else iter)"
  by pat_completeness auto
termination
  by (relation "measure (\<lambda>iter. hm_capacity (hi_impl iter) - hi_slot_idx iter)") auto

declare hashmap_iter_advance.simps [simp del]

definition hashmap_map_iter_has_next :: "'v hashmap_map_iter \<Rightarrow> bool" where
  "hashmap_map_iter_has_next iter \<longleftrightarrow>
     hm_slots (hi_impl iter) \<noteq> None \<and> hi_slot_idx iter < hm_capacity (hi_impl iter)"

definition hashmap_map_iter_next ::
    "'v hashmap_map_iter \<Rightarrow> 'v map_pair \<times> 'v hashmap_map_iter" where
  "hashmap_map_iter_next iter =
     (if \<not> hashmap_map_iter_has_next iter then ((None, None), iter)
      else
        let s = the (hm_slots (hi_impl iter)) ! hi_slot_idx iter in
        ((sl_key s, sl_value s), hashmap_iter_advance (iter\<lparr>hi_slot_idx := hi_slot_idx iter + 1\<rparr>)))"

definition hashmap_map_iter_vtable :: "('v hashmap_map_iter, 'v) map_iterator_vtable" where
  "hashmap_map_iter_vtable =
     \<lparr>iv_has_next = hashmap_map_iter_has_next, iv_next = hashmap_map_iter_next\<rparr>"

definition hashmap_map_iterator ::
    "bool \<Rightarrow> bool \<Rightarrow> 'v hashmap \<Rightarrow> ('v hashmap_map_iter, 'v) map_iter" where
  "hashmap_map_iterator alloc_state alloc_iter impl =
     (if \<not> alloc_state then None
      else
        let iter_state = hashmap_iter_advance \<lparr>hi_impl = impl, hi_slot_idx = 0\<rparr> in
        if \<not> alloc_iter then None else Some (hashmap_map_iter_vtable, iter_state))"

definition cobalt_hashmap_iterator_create ::
    "bool \<Rightarrow> bool \<Rightarrow> 'v hashmap option \<Rightarrow> ('v hashmap_map_iter, 'v) map_iter" where
  "cobalt_hashmap_iterator_create alloc_state alloc_iter mp =
     (case mp of None \<Rightarrow> None | Some impl \<Rightarrow> hashmap_map_iterator alloc_state alloc_iter impl)"

subsection \<open>The map interface of a hash map\<close>

definition hashmap_map_get ::
    "'v hashmap \<Rightarrow> string option \<Rightarrow> nat \<Rightarrow> ('v option \<times> cobalt_error option) option" where
  "hashmap_map_get self key key_len =
     cobalt_hashmap_get_ext (Some self) key key_len \<bind> (\<lambda>v. Some (v, None))"

definition hashmap_map_put ::
    "bool \<Rightarrow> 'v hashmap \<Rightarrow> string option \<Rightarrow> nat \<Rightarrow> 'v option \<Rightarrow> 'v hashmap map_result" where
  "hashmap_map_put alloc_slots self key key_len value =
     cobalt_hashmap_put_ext alloc_slots (Some self) key key_len value \<bind>
     (\<lambda>(r, e, m). Some (r, e, the m))"

definition hashmap_map_remove :: "'v hashmap \<Rightarrow> string option \<Rightarrow> nat \<Rightarrow> 'v hashmap map_result" where
  "hashmap_map_remove self key key_len =
     cobalt_hashmap_remove_ext (Some self) key key_len \<bind> (\<lambda>(r, m). Some (r, None, the m))"

definition hashmap_map_size :: "'v hashmap \<Rightarrow> nat" where
  "hashmap_map_size self = cobalt_hashmap_size (Some self)"

definition hashmap_map_is_empty :: "'v hashmap \<Rightarrow> bool" where
  "hashmap_map_is_empty self \<longleftrightarrow> cobalt_hashmap_size (Some self) = 0"

definition hashmap_map_vtable :: "bool \<Rightarrow> ('v hashmap, 'v) cobalt_map" where
  "hashmap_map_vtable alloc_slots =
     \<lparr>mv_get = Some hashmap_map_get,
      mv_put = Some (hashmap_map_put alloc_slots),
      mv_remove = Some hashmap_map_remove,
      mv_contains = Some (\<lambda>self. hashmap_map_contains (Some self)),
      mv_clear = Some (\<lambda>self. (None, the (hashmap_map_clear (Some self)))),
      mv_size = Some hashmap_map_size,
      mv_is_empty = Some hashmap_map_is_empty\<rparr>"

end
