(* ===== verification/Cobalt_RobinHood.thy ===== *)
theory Cobalt_RobinHood
  imports Cobalt_HashMap
begin

section \<open>The Robin Hood slot array\<close>

text \<open>
  What the loops of \<open>src/container/hashmap.c\<close> do to a slot array, before any notion of key: the
  array invariant \<open>rh_inv\<close> (every probe-sequence length is the distance from the home slot, and it
  grows by at most one from a slot to the next), the multiset \<open>entries\<close> of the stored entries, and
  the three loops: a probe stops at the matching slot or where no match can follow, an insertion
  displaces entries and adds exactly one, a removal shifts back and clears exactly one.
\<close>

subsection \<open>The capacity is a power of two\<close>

unbundle bit_operations_syntax

definition smear :: "nat \<Rightarrow> u64 \<Rightarrow> nat \<Rightarrow> bool" where
  "smear m w n \<longleftrightarrow> (\<exists>i<m. bit w (n + i))"

lemma smear_step:
  assumes "\<And>n. bit v n \<longleftrightarrow> smear m w n"
  shows "bit (v OR drop_bit m v) n \<longleftrightarrow> smear (2 * m) w n"
proof -
  have "(\<exists>i<2 * m. bit w (n + i)) \<longleftrightarrow> (\<exists>i<m. bit w (n + i)) \<or> (\<exists>i<m. bit w (n + m + i))"
    (is "?L \<longleftrightarrow> ?R")
  proof
    assume ?L
    then obtain i where i: "i < 2 * m" "bit w (n + i)" by blast
    show ?R
    proof (cases "i < m")
      case True
      with i show ?thesis by blast
    next
      case False
      with i have "i - m < m" "bit w (n + m + (i - m))" by simp_all
      then show ?thesis by blast
    qed
  next
    assume ?R
    then show ?L
    proof
      assume "\<exists>i<m. bit w (n + i)"
      then obtain i where "i < m" "bit w (n + i)" by blast
      then show ?L by (intro exI [of _ i]) simp
    next
      assume "\<exists>i<m. bit w (n + m + i)"
      then obtain i where "i < m" "bit w (n + m + i)" by blast
      then show ?L by (intro exI [of _ "m + i"]) (simp add: add.assoc)
    qed
  qed
  then show ?thesis
    by (simp add: bit_or_iff bit_drop_bit_eq assms smear_def add.commute add.left_commute)
qed

lemma hashmap_next_pow2_smear:
  obtains s :: u64 where
    "hashmap_next_pow2 v = (if s + 1 < 2 then 2 else s + 1)" "\<And>n. bit s n \<longleftrightarrow> smear 64 (v - 1) n"
proof -
  define a0 where "a0 = v - 1"
  define a1 where "a1 = a0 OR drop_bit 1 a0"
  define a2 where "a2 = a1 OR drop_bit 2 a1"
  define a3 where "a3 = a2 OR drop_bit 4 a2"
  define a4 where "a4 = a3 OR drop_bit 8 a3"
  define a5 where "a5 = a4 OR drop_bit 16 a4"
  define a6 where "a6 = a5 OR drop_bit 32 a5"
  have 0: "bit a0 n \<longleftrightarrow> smear 1 a0 n" for n by (simp add: smear_def)
  have 1: "bit a1 n \<longleftrightarrow> smear 2 a0 n" for n using smear_step [OF 0] by (simp add: a1_def)
  have 2: "bit a2 n \<longleftrightarrow> smear 4 a0 n" for n using smear_step [OF 1] by (simp add: a2_def)
  have 3: "bit a3 n \<longleftrightarrow> smear 8 a0 n" for n using smear_step [OF 2] by (simp add: a3_def)
  have 4: "bit a4 n \<longleftrightarrow> smear 16 a0 n" for n using smear_step [OF 3] by (simp add: a4_def)
  have 5: "bit a5 n \<longleftrightarrow> smear 32 a0 n" for n using smear_step [OF 4] by (simp add: a5_def)
  have 6: "bit a6 n \<longleftrightarrow> smear 64 a0 n" for n using smear_step [OF 5] by (simp add: a6_def)
  have "hashmap_next_pow2 v = (if a6 + 1 < 2 then 2 else a6 + 1)"
    by (simp add: hashmap_next_pow2_def Let_def a0_def a1_def a2_def a3_def a4_def a5_def a6_def)
  with 6 that [of a6] show ?thesis by (simp add: a0_def)
qed

lemma smear_mask:
  assumes "2 ^ j \<le> unat w" "unat w < 2 ^ Suc j" "j < 63"
  shows "smear 64 w n \<longleftrightarrow> n \<le> j"
proof
  have bits: "bit w m \<longleftrightarrow> bit (unat w) m" for m
    by (simp add: bit_unsigned_iff)
  have top: "bit w m \<Longrightarrow> m \<le> j" for m
  proof -
    assume "bit w m"
    then have "bit (unat w) m" by (simp add: bits)
    then have "2 ^ m \<le> unat w" 
      by (metis bit_iff_odd div_eq_0_iff even_zero not_less)
    with assms(2) have "(2::nat) ^ m < 2 ^ Suc j" by simp
    then have "m < Suc j" by (rule power_less_imp_less_exp [rotated]) simp
    then show "m \<le> j" by simp
  qed
  show "smear 64 w n \<Longrightarrow> n \<le> j"
    using top by (force simp: smear_def)
  have "unat w div 2 ^ j = 1"
    using assms(1,2) by (intro div_nat_eqI) simp_all
  then have "bit (unat w) j" by (simp add: bit_iff_odd)
  then have "bit w j" by (simp only: bits)
  then show "n \<le> j \<Longrightarrow> smear 64 w n"
    unfolding smear_def using assms(3) by (intro exI [of _ "j - n"]) simp
qed

lemma hashmap_next_pow2_eq:
  assumes "2 ^ j < n" "n \<le> 2 ^ Suc j" "j < 63"
  shows "unat (hashmap_next_pow2 (of_nat n)) = 2 ^ Suc j"
proof -
  let ?w = "of_nat n - 1 :: u64"
  have "(2::nat) ^ Suc j \<le> 2 ^ 63" using assms(3) by (intro power_increasing) simp_all
  with assms have n: "n < 2 ^ 64" "0 < n" by simp_all
  have "?w = of_nat (n - 1)" using n by simp
  then have w: "unat ?w = n - 1" using n by (simp only: unat_of_nat) (simp add: take_bit_eq_mod)
  obtain s :: u64 where s: "hashmap_next_pow2 (of_nat n) = (if s + 1 < 2 then 2 else s + 1)"
    "\<And>m. bit s m \<longleftrightarrow> smear 64 ?w m"
    using hashmap_next_pow2_smear by blast
  have "smear 64 ?w m \<longleftrightarrow> m \<le> j" for m
    by (rule smear_mask) (use w assms in simp_all)
  then have "s = mask (Suc j)"
    using assms(3) by (intro bit_eqI) (simp add: s(2) bit_mask_iff less_Suc_eq_le)
  then have "s + 1 = 2 ^ Suc j" by (simp add: mask_eq_exp_minus_1)
  moreover have u: "unat (2 ^ Suc j :: u64) = 2 ^ Suc j"
  proof -
    have "unat (of_nat (2 ^ Suc j) :: u64) = 2 ^ Suc j mod 2 ^ 64"
      by (simp only: unat_of_nat take_bit_eq_mod len_num1 len_bit0) simp
    also have "\<dots> = 2 ^ Suc j" using \<open>2 ^ Suc j \<le> 2 ^ 63\<close> by simp
    finally show ?thesis by simp
  qed
  moreover have "\<not> (2 ^ Suc j :: u64) < 2"
    by (simp only: word_less_nat_alt u) simp
  ultimately show ?thesis using s(1) by simp
qed

lemma hash_index_mod: 
  assumes "k < 64" shows "hash_index h (2 ^ k - 1) = unat h mod 2 ^ k"
proof -
  have "(2::nat) ^ k \<le> 2 ^ 63" using assms by (intro power_increasing) simp_all
  then have "unat (of_nat (2 ^ k - 1) :: u64) = 2 ^ k - 1"
    by (simp only: unat_of_nat take_bit_eq_mod len_num1 len_bit0) simp
  moreover have "unat h < 2 ^ LENGTH(32)" by (rule unsigned_less)
  then have "unat (ucast h :: u64) = unat h"
    by (simp add: unsigned_ucast_eq take_bit_nat_eq_self)
  ultimately show ?thesis
    by (simp only: hash_index_def unsigned_and_eq and_mask_nat)
qed

subsection \<open>The probing invariant\<close>

abbreviation occ :: "'v hashmap_slot \<Rightarrow> bool" where
  "occ s \<equiv> sl_psl s \<noteq> 0xFFFFFFFF"

abbreviation psl :: "'v hashmap_slot \<Rightarrow> nat" where
  "psl s \<equiv> unat (sl_psl s)"

definition home :: "'v hashmap_slot \<Rightarrow> nat" where
  "home s = unat (sl_hash s)"

definition cap_ok :: "nat \<Rightarrow> bool" where
  "cap_ok c \<longleftrightarrow> (\<exists>k. 1 \<le> k \<and> k \<le> 31 \<and> c = 2 ^ k)"

definition psl_ok :: "'v hashmap_slot list \<Rightarrow> nat \<Rightarrow> bool" where
  "psl_ok slots i \<longleftrightarrow>
     (occ (slots ! i) \<longrightarrow>
        (home (slots ! i) + psl (slots ! i)) mod length slots = i \<and> psl (slots ! i) < length slots)"

definition link_ok :: "'v hashmap_slot list \<Rightarrow> nat \<Rightarrow> bool" where
  "link_ok slots i \<longleftrightarrow>
     (let s = slots ! (Suc i mod length slots) in
      occ s \<and> sl_psl s \<noteq> 0 \<longrightarrow> occ (slots ! i) \<and> psl s \<le> Suc (psl (slots ! i)))"

definition rh_inv :: "'v hashmap_slot list \<Rightarrow> bool" where
  "rh_inv slots \<longleftrightarrow> (\<forall>i<length slots. psl_ok slots i \<and> link_ok slots i)"

lemma cap_okD:
  assumes "cap_ok c"
  shows "2 \<le> c" "c \<le> 2147483648" "Suc i AND (c - 1) = Suc i mod c" "hash_index h (c - 1) = unat h mod c"
proof -
  obtain k where k: "1 \<le> k" "k \<le> 31" "c = 2 ^ k" using assms by (auto simp: cap_ok_def)
  have "(2::nat) ^ 1 \<le> 2 ^ k" by (rule power_increasing) (use k in simp_all)
  moreover have "(2::nat) ^ k \<le> 2 ^ 31" by (rule power_increasing) (use k in simp_all)
  ultimately show "2 \<le> c" "c \<le> 2147483648" using k by simp_all
  show "Suc i AND (c - 1) = Suc i mod c" using k by (simp only: and_mask_nat)
  show "hash_index h (c - 1) = unat h mod c" using k by (simp only: hash_index_mod)
qed

lemma cap_pos: "cap_ok c \<Longrightarrow> 0 < c"
  using cap_okD(1) by fastforce

lemma cap_bound: "cap_ok c \<Longrightarrow> c < 4294967295"
  using cap_okD(2) by fastforce

lemma unat_of_nat_u32: "n < 4294967296 \<Longrightarrow> unat (of_nat n :: u32) = n"
  by (simp add: unat_of_nat take_bit_eq_mod)

lemma of_nat_not_empty: "n < 4294967295 \<Longrightarrow> (of_nat n :: u32) \<noteq> 0xFFFFFFFF"
proof
  assume n: "n < 4294967295" "(of_nat n :: u32) = 0xFFFFFFFF"
  then have "unat (of_nat n :: u32) = 4294967295" by simp
  with n(1) show False by (simp add: unat_of_nat_u32)
qed

lemma rh_inv_link:
  assumes "rh_inv slots" "i < length slots"
    and "occ (slots ! (Suc i mod length slots))" "0 < psl (slots ! (Suc i mod length slots))"
  shows "occ (slots ! i)" "psl (slots ! (Suc i mod length slots)) \<le> Suc (psl (slots ! i))"
  using assms unfolding rh_inv_def link_ok_def Let_def by (auto simp: unat_gt_0)

lemma Suc_mod_inj:
  assumes "Suc i mod c = Suc j mod c" "i < c" "j < c"
  shows "i = j"
  using assms by (auto simp: mod_Suc split: if_splits)

text \<open>
  The probe sequence of an entry: every slot between the home of an occupied slot and the slot
  itself is occupied, with a probe length at least its distance from that home.
\<close>

lemma probe_chain:
  assumes inv: "rh_inv slots" and ne: "0 < length slots"
    and occ: "occ (slots ! ((h + p) mod length slots))"
    and p: "p \<le> psl (slots ! ((h + p) mod length slots))"
    and q: "q \<le> p"
  shows "occ (slots ! ((h + q) mod length slots)) \<and> q \<le> psl (slots ! ((h + q) mod length slots))"
  using q
proof (induction q rule: inc_induct)
  case base
  show ?case using occ p by simp
next
  case (step q)
  let ?c = "length slots"
  let ?i = "(h + q) mod ?c"
  have i: "?i < ?c" using ne by simp
  have eq: "(h + Suc q) mod ?c = Suc ?i mod ?c" by (simp add: mod_Suc_eq)
  have "occ (slots ! (Suc ?i mod ?c)) \<and> Suc q \<le> psl (slots ! (Suc ?i mod ?c))"
    using step.IH unfolding eq .
  with rh_inv_link [OF inv i] show ?case by fastforce
qed

lemma full_chain:
  assumes inv: "rh_inv slots" and i: "i < length slots" and occ: "occ (slots ! i)"
    and full: "Suc (psl (slots ! i)) = length slots" and j: "j < length slots"
  shows "occ (slots ! j)"
proof -
  let ?c = "length slots"
  let ?h = "home (slots ! i) mod ?c"
  have pos: "(?h + psl (slots ! i)) mod ?c = i"
    using inv i occ by (auto simp: rh_inv_def psl_ok_def mod_add_left_eq)
  define q where "q = (if ?h \<le> j then j - ?h else j + ?c - ?h)"
  have c: "0 < ?c" using i by linarith
  then have "?h < ?c" by simp
  then have "(?h + q) mod ?c = j" "q \<le> psl (slots ! i)"
    using j full by (auto simp: q_def)
  with probe_chain [OF inv c, of ?h "psl (slots ! i)" q] pos occ show ?thesis by simp
qed


subsection \<open>Lookup\<close>

definition matches :: "'v hashmap \<Rightarrow> string \<Rightarrow> nat \<Rightarrow> u32 \<Rightarrow> 'v hashmap_slot \<Rightarrow> bool" where
  "matches impl key len hash s \<longleftrightarrow> occ s \<and> sl_hash s = hash \<and> slot_equal impl s key len"

lemma find_slot_loop_found:
  assumes inv: "rh_inv slots" and c: "cap_ok (length slots)" "hm_mask impl = length slots - 1"
    and j: "j < length slots" "matches impl key len hash (slots ! j)"
    and uniq: "\<And>i. i < length slots \<Longrightarrow> matches impl key len hash (slots ! i) \<Longrightarrow> i = j"
    and q: "q \<le> psl (slots ! j)"
  shows "find_slot_loop impl slots key len hash ((unat hash + q) mod length slots) (of_nat q) = Some (Some j)"
  using q
proof (induction q rule: inc_induct)
  case base
  have "(unat hash + psl (slots ! j)) mod length slots = j"
    using inv j by (auto simp: rh_inv_def psl_ok_def matches_def home_def)
  with j show ?case
    by (subst find_slot_loop.simps) (simp add: matches_def)
next
  case (step q)
  let ?c = "length slots"
  let ?i = "(unat hash + q) mod ?c"
  have jp: "(unat hash + psl (slots ! j)) mod ?c = j" "psl (slots ! j) < ?c"
    using inv j by (auto simp: rh_inv_def psl_ok_def matches_def home_def)
  have i: "?i < ?c" using cap_pos [OF c(1)] by simp
  have "occ (slots ! ?i) \<and> q \<le> psl (slots ! ?i)"
    using probe_chain [OF inv cap_pos [OF c(1)], of "unat hash" "psl (slots ! j)" q] step.hyps jp j
    by (simp add: matches_def)
  moreover have "unat (of_nat q :: u32) = q"
    using step.hyps jp cap_bound [OF c(1)] by (intro unat_of_nat_u32) linarith
  ultimately have "\<not> sl_psl (slots ! ?i) < of_nat q" "occ (slots ! ?i)"
    by (simp_all add: word_less_nat_alt)
  moreover have "(?i + 1) AND hm_mask impl = (unat hash + Suc q) mod ?c"
    using cap_okD(3) [OF c(1), of ?i] by (simp add: c(2) mod_Suc_eq)
  moreover have "?i = j" if "sl_hash (slots ! ?i) = hash" "slot_equal impl (slots ! ?i) key len"
    using uniq [OF i] that calculation(2) by (simp add: matches_def)
  ultimately show ?case
    using step.IH by (subst find_slot_loop.simps) (auto simp: Let_def add.commute)
qed

lemma find_slot_loop_absent:
  assumes inv: "rh_inv slots" and c: "cap_ok (length slots)" "hm_mask impl = length slots - 1"
    and none: "\<And>i. i < length slots \<Longrightarrow> \<not> matches impl key len hash (slots ! i)"
    and q: "q \<le> length slots"
  shows "find_slot_loop impl slots key len hash ((unat hash + q) mod length slots) (of_nat q) = Some None"
  using q
proof (induction q rule: inc_induct)
  case base
  let ?c = "length slots"
  let ?i = "(unat hash + ?c) mod ?c"
  have i: "?i < ?c" using cap_pos [OF c(1)] by simp
  have "psl (slots ! ?i) < ?c" if "occ (slots ! ?i)"
    using inv i that unfolding rh_inv_def psl_ok_def by blast
  moreover have "unat (of_nat ?c :: u32) = ?c"
    using cap_bound [OF c(1)] by (intro unat_of_nat_u32) linarith
  ultimately show ?case
    by (subst find_slot_loop.simps) (auto simp: word_less_nat_alt Let_def)
next
  case (step q)
  let ?c = "length slots"
  let ?i = "(unat hash + q) mod ?c"
  have i: "?i < ?c" using cap_pos [OF c(1)] by simp
  have "(?i + 1) AND hm_mask impl = (unat hash + Suc q) mod ?c"
    using cap_okD(3) [OF c(1), of ?i] by (simp add: c(2) mod_Suc_eq)
  then show ?case
    using step.IH none [OF i] by (subst find_slot_loop.simps) (auto simp: matches_def Let_def add.commute)
qed

subsection \<open>The entries of an array\<close>

definition ent :: "'v hashmap_slot \<Rightarrow> 'v hashmap_slot" where
  "ent s = s\<lparr>sl_psl := 0\<rparr>"

definition entries :: "'v hashmap_slot list \<Rightarrow> 'v hashmap_slot multiset" where
  "entries slots = image_mset ent (filter_mset occ (mset slots))"

lemma ent_simps [simp]:
  "ent (s\<lparr>sl_psl := p\<rparr>) = ent s" "ent (ent s) = ent s"
  "sl_hash (ent s) = sl_hash s" "sl_key (ent s) = sl_key s" "sl_value (ent s) = sl_value s"
  "sl_key_len (ent s) = sl_key_len s" "sl_key_owned (ent s) = sl_key_owned s"
  by (simp_all add: ent_def)

lemma home_simps [simp]: "home (s\<lparr>sl_psl := p\<rparr>) = home s" "home (ent s) = home s"
  by (simp_all add: home_def)

lemma entries_update:
  assumes "i < length slots"
  shows "entries (slots[i := x]) + (if occ (slots ! i) then {#ent (slots ! i)#} else {#}) =
         entries slots + (if occ x then {#ent x#} else {#})"
proof -
  have "slots ! i \<in># mset slots" using assms by simp
  then obtain M where M: "mset slots = add_mset (slots ! i) M" by (meson mset_add)
  then have "mset (slots[i := x]) = add_mset x M" using assms by (simp add: mset_update)
  with M show ?thesis by (simp add: entries_def)
qed

lemma entries_fill:
  "i < length slots \<Longrightarrow> \<not> occ (slots ! i) \<Longrightarrow> occ x \<Longrightarrow> entries (slots[i := x]) = add_mset (ent x) (entries slots)"
  using entries_update [of i slots x] by simp

lemma entries_swap:
  "i < length slots \<Longrightarrow> occ (slots ! i) \<Longrightarrow> occ x \<Longrightarrow>
   add_mset (ent (slots ! i)) (entries (slots[i := x])) = add_mset (ent x) (entries slots)"
  using entries_update [of i slots x] by simp

lemma entries_clear:
  "i < length slots \<Longrightarrow> occ (slots ! i) \<Longrightarrow> \<not> occ x \<Longrightarrow>
   add_mset (ent (slots ! i)) (entries (slots[i := x])) = entries slots"
  using entries_update [of i slots x] by simp

subsection \<open>Displacement\<close>

text \<open>
  The carried entry sits at the slot its probe length names, and the slot before it is occupied
  by an entry whose probe length is at most one less.
\<close>

definition carried_ok :: "'v hashmap_slot list \<Rightarrow> nat \<Rightarrow> 'v hashmap_slot \<Rightarrow> bool" where
  "carried_ok slots idx cur \<longleftrightarrow>
     (home cur + psl cur) mod length slots = idx \<and>
     (0 < psl cur \<longrightarrow>
        (\<exists>i<length slots. idx = Suc i mod length slots \<and> occ (slots ! i) \<and> psl cur \<le> Suc (psl (slots ! i))))"

lemma carried_psl_less:
  assumes inv: "rh_inv slots" and co: "carried_ok slots idx cur" and c: "cap_ok (length slots)"
    and e: "e < length slots" "\<not> occ (slots ! e)"
  shows "psl cur < length slots"
proof (cases "psl cur = 0")
  case True
  then show ?thesis using e by linarith
next
  case False
  with co obtain i where i: "i < length slots" "occ (slots ! i)" "psl cur \<le> Suc (psl (slots ! i))"
    by (auto simp: carried_ok_def)
  have "psl (slots ! i) < length slots" using inv i by (auto simp: rh_inv_def psl_ok_def)
  moreover have "Suc (psl (slots ! i)) \<noteq> length slots"
    using full_chain [OF inv i(1,2) _ e(1)] e(2) by blast
  ultimately show ?thesis using i(3) by linarith
qed

lemma psl_less_occ: "cap_ok c \<Longrightarrow> psl s < c \<Longrightarrow> occ s"
  using cap_bound [of c] by auto

lemma rh_inv_place:
  assumes inv: "rh_inv slots" and idx: "idx < length slots" and co: "carried_ok slots idx cur"
    and c: "cap_ok (length slots)" and p: "psl cur < length slots"
    and old: "occ (slots ! idx) \<Longrightarrow> psl (slots ! idx) \<le> psl cur"
  shows "rh_inv (slots[idx := cur])"
proof -
  let ?c = "length slots"
  have occ: "occ cur" using psl_less_occ [OF c p] .
  have "psl_ok (slots[idx := cur]) i" if "i < ?c" for i
    using inv that co p by (cases "i = idx") (auto simp: rh_inv_def psl_ok_def carried_ok_def)
  moreover have "link_ok (slots[idx := cur]) i" if i: "i < ?c" for i
  proof -
    have l: "link_ok slots i" using inv i by (simp add: rh_inv_def)
    have ne: "Suc i mod ?c \<noteq> i" using mod_Suc_distinct i cap_okD(1) [OF c] by simp
    show ?thesis
    proof (cases "Suc i mod ?c = idx")
      case True
      have "occ (slots ! i) \<and> psl cur \<le> Suc (psl (slots ! i))" if "sl_psl cur \<noteq> 0"
        using co that i True Suc_mod_inj [of i ?c] by (auto simp: carried_ok_def unat_gt_0)
      with True ne i idx show ?thesis by (auto simp: link_ok_def Let_def)
    next
      case False
      with l old occ idx show ?thesis
        by (cases "i = idx") (auto simp: link_ok_def Let_def)
    qed
  qed
  ultimately show ?thesis by (simp add: rh_inv_def)
qed


lemma robin_hood_loop_inserts:
  assumes "rh_inv slots" "cap_ok (length slots)" "idx < length slots" "carried_ok slots idx cur"
    "\<not> occ (slots ! ((idx + d) mod length slots))"
  shows "\<exists>slots'. robin_hood_loop slots (length slots - 1) idx cur = Some slots' \<and>
           rh_inv slots' \<and> length slots' = length slots \<and>
           entries slots' = add_mset (ent cur) (entries slots)"
  using assms
proof (induction d arbitrary: slots idx cur)
  case 0
  then have e: "\<not> occ (slots ! idx)" by simp
  with 0 have p: "psl cur < length slots" by (blast intro: carried_psl_less)
  moreover have "rh_inv (slots[idx := cur])" using 0 p e by (intro rh_inv_place) auto
  ultimately show ?case using 0 e psl_less_occ [OF 0(2) p]
    by (subst robin_hood_loop.simps) (simp add: entries_fill)
next
  case (Suc d)
  let ?c = "length slots"
  let ?s = "slots ! idx"
  let ?j = "Suc idx mod ?c"
  have c0: "0 < ?c" using Suc.prems(3) by linarith
  let ?e = "(idx + Suc d) mod ?c"
  have e: "?e < ?c" "\<not> occ (slots ! ?e)" using Suc.prems(5) c0 by simp_all
  have p: "psl cur < ?c" using Suc.prems e by (blast intro: carried_psl_less)
  note oc = psl_less_occ [OF Suc.prems(2) p]
  show ?case
  proof (cases "occ ?s")
    case False
    then have "rh_inv (slots[idx := cur])" using Suc.prems p by (intro rh_inv_place) auto
    with False Suc.prems oc show ?thesis
      by (subst robin_hood_loop.simps) (simp add: entries_fill)
  next
    case True
    define slots1 where "slots1 = (if sl_psl ?s < sl_psl cur then slots[idx := cur] else slots)"
    define cur1 where "cur1 = (if sl_psl ?s < sl_psl cur then ?s else cur)"
    let ?cur2 = "cur1\<lparr>sl_psl := sl_psl cur1 + 1\<rparr>"
    have len: "length slots1 = ?c" by (simp add: slots1_def)
    have inv1: "rh_inv slots1"
      unfolding slots1_def using Suc.prems p
      by (auto simp: word_less_nat_alt intro!: rh_inv_place)
    have pos1: "(home cur1 + psl cur1) mod ?c = idx" "psl cur1 < ?c"
      using Suc.prems True p by (auto simp: cur1_def rh_inv_def psl_ok_def carried_ok_def)
    have p2: "psl ?cur2 = Suc (psl cur1)"
      using pos1(2) cap_bound [OF Suc.prems(2)] by (simp add: unat_word_ariths)
    have at: "occ (slots1 ! idx)" "psl cur1 \<le> psl (slots1 ! idx)"
      using True oc Suc.prems(3) by (auto simp: slots1_def cur1_def word_less_nat_alt)
    have co: "carried_ok slots1 ?j ?cur2"
      unfolding carried_ok_def len p2 using at Suc.prems(3) pos1
      by (auto simp: mod_Suc_eq intro!: exI [of _ idx])
    have "(?j + d) mod ?c = ?e" by (simp add: mod_add_left_eq)
    moreover have "?e \<noteq> idx" using e(2) True by metis
    ultimately have "\<not> occ (slots1 ! ((?j + d) mod length slots1))"
      using e(2) by (simp add: slots1_def)
    from Suc.IH [OF inv1 _ _ co this] Suc.prems(2) c0
    obtain slots' where IH: "robin_hood_loop slots1 (?c - 1) ?j ?cur2 = Some slots'" "rh_inv slots'"
      "length slots' = ?c" "entries slots' = add_mset (ent cur1) (entries slots1)"
      by (auto simp: len)
    have "add_mset (ent cur1) (entries slots1) = add_mset (ent cur) (entries slots)"
      using entries_swap [OF Suc.prems(3) True oc] by (simp add: slots1_def cur1_def)
    moreover have "robin_hood_loop slots (?c - 1) idx cur = robin_hood_loop slots1 (?c - 1) ?j ?cur2"
      using True cap_okD(3) [OF Suc.prems(2), of idx]
      by (subst robin_hood_loop.simps) (auto simp: slots1_def cur1_def Let_def)
    ultimately show ?thesis using IH by simp
  qed
qed

lemma carried_ok_home: "psl cur = 0 \<Longrightarrow> idx = home cur mod length slots \<Longrightarrow> carried_ok slots idx cur"
  by (simp add: carried_ok_def)

lemma size_entries: "size (entries slots) = length (filter occ slots)"
  by (simp add: entries_def flip: mset_filter size_mset)

lemma exists_empty:
  assumes "size (entries slots) < length slots"
  obtains e where "e < length slots" "\<not> occ (slots ! e)"
proof -
  have "\<exists>s\<in>set slots. \<not> occ s"
  proof (rule ccontr)
    assume "\<not> (\<exists>s\<in>set slots. \<not> occ s)"
    then have "filter occ slots = slots" by (simp add: filter_id_conv)
    with assms show False by (simp add: size_entries)
  qed
  then show ?thesis using that by (auto simp: in_set_conv_nth)
qed

lemma robin_hood_insert_entry_ok:
  assumes inv: "rh_inv slots" and c: "cap_ok (length slots)"
    and room: "size (entries slots) < length slots"
  obtains slots' where
    "robin_hood_insert_entry slots (length slots - 1) entry = Some slots'"
    "rh_inv slots'" "length slots' = length slots"
    "entries slots' = add_mset (ent entry) (entries slots)"
proof -
  let ?c = "length slots"
  let ?idx = "unat (sl_hash entry) mod ?c"
  have idx: "?idx < ?c" using cap_pos [OF c] by simp
  obtain e where e: "e < ?c" "\<not> occ (slots ! e)" using exists_empty [OF room] .
  define d where "d = (if ?idx \<le> e then e - ?idx else e + ?c - ?idx)"
  have "(?idx + d) mod ?c = e" using e idx by (auto simp: d_def)
  moreover have "carried_ok slots ?idx (entry\<lparr>sl_psl := 0\<rparr>)"
    by (rule carried_ok_home) (simp_all add: home_def)
  ultimately obtain slots' where
    "robin_hood_loop slots (?c - 1) ?idx (entry\<lparr>sl_psl := 0\<rparr>) = Some slots'"
    "rh_inv slots'" "length slots' = ?c" "entries slots' = add_mset (ent entry) (entries slots)"
    using robin_hood_loop_inserts [OF inv c idx, of "entry\<lparr>sl_psl := 0\<rparr>" d] e by auto
  then show ?thesis using that cap_okD(4) [OF c] by (simp add: robin_hood_insert_entry_def)
qed

lemma rh_inv_init: "rh_inv (init_slots n)"
  by (auto simp: rh_inv_def psl_ok_def link_ok_def init_slots_def empty_slot_def Let_def)

lemma entries_init [simp]: "entries (init_slots n) = {#}"
  by (simp add: entries_def init_slots_def empty_slot_def)

lemma length_init [simp]: "length (init_slots n) = n"
  by (simp add: init_slots_def)

lemma rehash_loop_ok:
  assumes "rh_inv new" "cap_ok (length new)" "size (entries new) + size (entries old) < length new"
  shows "\<exists>slots'. rehash_loop old (length new - 1) new = Some slots' \<and> rh_inv slots' \<and>
           length slots' = length new \<and> entries slots' = entries new + entries old"
  using assms
proof (induction old arbitrary: new)
  case Nil
  then show ?case by (simp add: entries_def)
next
  case (Cons s ss)
  show ?case
  proof (cases "occ s")
    case True
    then have E: "entries (s # ss) = add_mset (ent s) (entries ss)" by (simp add: entries_def)
    with Cons.prems have "size (entries new) < length new" by simp
    with Cons.prems(1,2) obtain new1 where n1: "robin_hood_insert_entry new (length new - 1) s = Some new1"
      "rh_inv new1" "length new1 = length new" "entries new1 = add_mset (ent s) (entries new)"
      by (rule robin_hood_insert_entry_ok)
    with Cons.IH [of new1] Cons.prems E True show ?thesis by auto
  next
    case False
    then have "entries (s # ss) = entries ss" by (simp add: entries_def)
    with False Cons show ?thesis by auto
  qed
qed

subsection \<open>Backward shift\<close>

definition hole_inv :: "'v hashmap_slot list \<Rightarrow> nat \<Rightarrow> bool" where
  "hole_inv slots cur \<longleftrightarrow>
     (let t = slots[cur := empty_slot]; c = length slots; n = Suc cur mod c in
      occ (slots ! cur) \<and>
      (\<forall>i<c. psl_ok t i) \<and> (\<forall>i<c. i \<noteq> cur \<longrightarrow> link_ok t i) \<and>
      (occ (slots ! n) \<and> 1 < psl (slots ! n) \<longrightarrow>
         (\<forall>i<c. Suc i mod c = cur \<longrightarrow> occ (slots ! i) \<and> psl (slots ! n) \<le> Suc (Suc (psl (slots ! i))))))"

lemma empty_slot_free [simp]: "sl_psl empty_slot = 0xFFFFFFFF"
  by (simp add: empty_slot_def)

lemma hole_inv_start:
  assumes inv: "rh_inv slots" and c: "cap_ok (length slots)" and i: "cur < length slots" "occ (slots ! cur)"
  shows "hole_inv slots cur"
proof -
  let ?c = "length slots"
  let ?t = "slots[cur := empty_slot]"
  let ?n = "Suc cur mod ?c"
  have "psl_ok ?t j" if "j < ?c" for j
    using inv that i by (cases "j = cur") (auto simp: rh_inv_def psl_ok_def)
  moreover have "link_ok ?t j" if "j < ?c" "j \<noteq> cur" for j
    using inv that i by (cases "Suc j mod ?c = cur") (auto simp: rh_inv_def link_ok_def Let_def)
  moreover have "occ (slots ! j) \<and> psl (slots ! ?n) \<le> Suc (Suc (psl (slots ! j)))"
    if n: "occ (slots ! ?n)" "1 < psl (slots ! ?n)" and j: "j < ?c" "Suc j mod ?c = cur" for j
  proof -
    have "psl (slots ! ?n) \<le> Suc (psl (slots ! cur))"
      using rh_inv_link(2) [OF inv i(1) n(1)] n(2) by simp
    then show ?thesis using rh_inv_link [OF inv j(1)] j(2) i(2) n(2) by auto
  qed
  ultimately show ?thesis using i(2) by (simp add: hole_inv_def Let_def)
qed

lemma hole_inv_stop:
  assumes h: "hole_inv slots cur" and c: "cap_ok (length slots)" and cur: "cur < length slots"
    and n: "\<not> occ (slots ! (Suc cur mod length slots)) \<or> sl_psl (slots ! (Suc cur mod length slots)) = 0"
  shows "rh_inv (slots[cur := empty_slot])"
proof -
  have "Suc cur mod length slots \<noteq> cur" using mod_Suc_distinct cur cap_okD(1) [OF c] by simp
  then have "link_ok (slots[cur := empty_slot]) cur"
    using n by (auto simp: link_ok_def Let_def)
  then show ?thesis using h by (auto simp: hole_inv_def rh_inv_def Let_def)
qed

subsection \<open>Backward shift\<close>

lemma hole_inv_step:
  assumes h: "hole_inv slots cur" and c: "cap_ok (length slots)" and cur: "cur < length slots"
    and n: "occ (slots ! (Suc cur mod length slots))" "sl_psl (slots ! (Suc cur mod length slots)) \<noteq> 0"
  defines "nx \<equiv> Suc cur mod length slots"
  defines "ns \<equiv> slots ! nx"
  defines "slots1 \<equiv> slots[cur := ns\<lparr>sl_psl := sl_psl ns - 1\<rparr>]"
  shows "hole_inv slots1 nx"
    and "entries (slots1[nx := empty_slot]) = entries (slots[cur := empty_slot])"
proof -
  let ?c = "length slots"
  let ?t = "slots[cur := empty_slot]"
  let ?t1 = "slots1[nx := empty_slot]"
  have c2: "2 \<le> ?c" using cap_okD(1) [OF c] .
  then have c0: "0 < ?c" by linarith
  have nx: "nx < ?c" "nx \<noteq> cur"
    using mod_Suc_distinct [of ?c cur] mod_less_divisor [OF c0, of "Suc cur"] cur c2
    by (simp_all only: nx_def) simp
  have p0: "0 < psl ns" using n by (simp add: ns_def nx_def unat_gt_0)
  have p1: "unat (sl_psl ns - 1) = psl ns - 1"
    using n(2) by (metis ns_def nx_def unat_minus_one)
  have occ1: "occ (ns\<lparr>sl_psl := sl_psl ns - 1\<rparr>)"
    using p0 p1 cap_bound [OF c] n by (auto simp: ns_def nx_def)
  have gt1: "Suc 0 < psl ns" if "sl_psl ns \<noteq> 1"
    using that p0 by (auto simp: word_unat_eq_iff)
  have tn: "?t ! nx = ns" using nx by (simp add: ns_def)
  have pok: "psl_ok ?t i" if "i < ?c" for i using h that by (auto simp: hole_inv_def Let_def)
  have lok: "link_ok ?t i" if "i < ?c" "i \<noteq> cur" for i using h that by (auto simp: hole_inv_def Let_def)
  have ns: "(home ns + psl ns) mod ?c = nx" "psl ns < ?c"
    using pok [OF nx(1)] tn n(1) by (auto simp: psl_ok_def ns_def nx_def)
  have "?t1 = ?t[nx := empty_slot, cur := ns\<lparr>sl_psl := sl_psl ns - 1\<rparr>]"
    using nx cur by (intro nth_equalityI) (auto simp: slots1_def nth_list_update)
  then show "entries ?t1 = entries ?t"
    using entries_clear [of nx ?t empty_slot] occ1 tn n nx cur
      entries_fill [of cur "?t[nx := empty_slot]" "ns\<lparr>sl_psl := sl_psl ns - 1\<rparr>"]
    by (simp add: ns_def nx_def)
  have hc: "(home ns + (psl ns - 1)) mod ?c = cur"
  proof (rule Suc_mod_inj [of _ ?c])
    show "Suc ((home ns + (psl ns - 1)) mod ?c) mod ?c = Suc cur mod ?c"
      using ns(1) p0 by (simp add: mod_Suc_eq nx_def)
  qed (use cur c0 in \<open>simp_all only: mod_less_divisor\<close>)
  have "psl_ok ?t1 i" if "i < ?c" for i
    using pok [OF that] nx cur ns hc p1
    by (cases "i = nx"; cases "i = cur") (auto simp: psl_ok_def slots1_def)
  moreover have "link_ok ?t1 i" if i: "i < ?c" "i \<noteq> nx" for i
  proof -
    consider "Suc i mod ?c = nx" | "Suc i mod ?c = cur" | "Suc i mod ?c \<noteq> nx" "Suc i mod ?c \<noteq> cur"
      by blast
    then show ?thesis
    proof cases
      case 1
      then show ?thesis using nx by (simp add: link_ok_def Let_def slots1_def)
    next
      case 2
      then have "i \<noteq> cur" using mod_Suc_distinct [of ?c i] i c2 by auto
      moreover have "occ (slots ! i) \<and> psl ns \<le> Suc (Suc (psl (slots ! i)))" if "1 < psl ns"
        using h that n i 2 by (simp add: hole_inv_def Let_def ns_def nx_def)
      ultimately show ?thesis
        using 2 i nx cur p1 gt1 by (auto simp: link_ok_def Let_def slots1_def)
    next
      case 3
      then have "i \<noteq> cur" by (auto simp: nx_def)
      with 3 i lok [OF i(1)] show ?thesis by (simp add: link_ok_def Let_def slots1_def)
    qed
  qed
  moreover have "occ (slots1 ! i) \<and> psl (slots1 ! (Suc nx mod ?c)) \<le> Suc (Suc (psl (slots1 ! i)))"
    if "occ (slots1 ! (Suc nx mod ?c))" "1 < psl (slots1 ! (Suc nx mod ?c))" "i < ?c" "Suc i mod ?c = nx" for i
  proof -
    have i: "i = cur" using that cur Suc_mod_inj [of i ?c cur] by (simp add: nx_def)
    have "psl (slots ! (Suc nx mod ?c)) \<le> Suc (psl ns)" if "Suc nx mod ?c \<noteq> cur"
      "occ (slots ! (Suc nx mod ?c))" "0 < psl (slots ! (Suc nx mod ?c))"
      using lok [OF nx] tn that by (auto simp: link_ok_def Let_def unat_gt_0)
    with that i occ1 p0 p1 cur show ?thesis
      by (cases "Suc nx mod ?c = cur") (auto simp: slots1_def)
  qed
  moreover have "occ (slots1 ! nx)" using n nx by (simp add: slots1_def nx_def)
  ultimately show "hole_inv slots1 nx" by (simp add: hole_inv_def Let_def slots1_def)
qed

lemma backward_shift_ok:
  assumes "hole_inv slots cur" "cap_ok (length slots)" "cur < length slots"
    "\<not> occ (slots ! ((cur + Suc d) mod length slots))"
  shows "\<exists>slots' cur'. backward_shift slots (length slots - 1) cur = Some (slots', cur') \<and>
           length slots' = length slots \<and> cur' < length slots \<and> rh_inv (slots'[cur' := empty_slot]) \<and>
           entries (slots'[cur' := empty_slot]) = entries (slots[cur := empty_slot])"
  using assms
proof (induction d arbitrary: slots cur)
  case 0
  have "rh_inv (slots[cur := empty_slot])" using 0 by (intro hole_inv_stop) simp_all
  with 0 cap_okD(3) [OF 0(2), of cur] show ?case
    by (subst backward_shift.simps) (simp add: Let_def)
next
  case (Suc d)
  let ?c = "length slots"
  let ?nx = "Suc cur mod ?c"
  let ?ns = "slots ! ?nx"
  have msk: "(cur + 1) AND (?c - 1) = ?nx" using cap_okD(3) [OF Suc.prems(2), of cur] by simp
  show ?case
  proof (cases "\<not> occ ?ns \<or> sl_psl ?ns = 0")
    case True
    then have "rh_inv (slots[cur := empty_slot])" using Suc.prems by (intro hole_inv_stop)
    with True Suc.prems msk show ?thesis
      by (subst backward_shift.simps) (auto simp: Let_def)
  next
    case False
    let ?slots1 = "slots[cur := ?ns\<lparr>sl_psl := sl_psl ?ns - 1\<rparr>]"
    from False have n: "occ ?ns" "sl_psl ?ns \<noteq> 0" by auto
    note step = hole_inv_step [OF Suc.prems(1,2,3) n]
    have e: "(?nx + Suc d) mod ?c = (cur + Suc (Suc d)) mod ?c" using mod_add_left_eq [of "Suc cur" ?c "Suc d"] by simp
    have "(cur + Suc (Suc d)) mod ?c \<noteq> cur"
      using Suc.prems(1,4) by (auto simp: hole_inv_def Let_def)
    then have "\<not> occ (?slots1 ! ((?nx + Suc d) mod length ?slots1))"
      using Suc.prems(4) e by simp
    moreover have "?nx < ?c" using Suc.prems(3) by (metis mod_less_divisor gr_implies_not_zero not_gr_zero)
    ultimately show ?thesis
      using Suc.IH [OF step(1)] Suc.prems(2) step(2) n msk
      by (subst backward_shift.simps) (auto simp: Let_def)
  qed
qed

end
