(* ===== verification/Cobalt_HashMap_Spec.thy ===== *)
theory Cobalt_HashMap_Spec
  imports Cobalt_RobinHood
begin

section \<open>Correctness of the hash map\<close>

text \<open>
  The operations of \<open>src/container/hashmap.c\<close> on a whole map. The hash and equality functions are
  the ones stored in the map (the default string functions, or user callbacks); their contract on
  a set \<open>K\<close> of keys is the locale \<open>hash_key\<close>. \<open>hm_inv\<close> is the invariant of a map, \<open>hm_find\<close> the entry
  a lookup reaches; insertion, removal, clearing and growing are described by how they change
  \<open>hm_find\<close>. The last part shows that the map interface of a hash map meets the contract
  \<open>map_object\<close>.
\<close>

subsection \<open>Keys and the map invariant\<close>

type_synonym hkey = "string \<times> nat"

definition khash :: "'v hashmap \<Rightarrow> hkey \<Rightarrow> u32" where
  "khash m kl = slot_hash m (fst kl) (snd kl)"

definition keq :: "'v hashmap \<Rightarrow> hkey \<Rightarrow> hkey \<Rightarrow> bool" where
  "keq m kl kl' \<longleftrightarrow>
     (case hm_equal_func m of
        Some f \<Rightarrow> f (fst kl) (fst kl') (snd kl) \<noteq> 0
      | None \<Rightarrow> strcmp (fst kl) (fst kl') = 0)"

locale hash_key =
  fixes hashf :: "'k \<Rightarrow> u32" and eqf :: "'k \<Rightarrow> 'k \<Rightarrow> bool" and K :: "'k set"
  assumes eq_refl: "a \<in> K \<Longrightarrow> eqf a a"
    and eq_sym: "a \<in> K \<Longrightarrow> b \<in> K \<Longrightarrow> eqf a b \<Longrightarrow> eqf b a"
    and eq_trans: "a \<in> K \<Longrightarrow> b \<in> K \<Longrightarrow> c \<in> K \<Longrightarrow> eqf a b \<Longrightarrow> eqf b c \<Longrightarrow> eqf a c"
    and hash_eq: "a \<in> K \<Longrightarrow> b \<in> K \<Longrightarrow> eqf a b \<Longrightarrow> hashf a = hashf b"
begin

lemma eq_cong: "a \<in> K \<Longrightarrow> b \<in> K \<Longrightarrow> c \<in> K \<Longrightarrow> eqf a b \<Longrightarrow> eqf c a \<longleftrightarrow> eqf c b"
  using eq_trans eq_sym by blast

lemma eq_join: "a \<in> K \<Longrightarrow> b \<in> K \<Longrightarrow> c \<in> K \<Longrightarrow> eqf c a \<Longrightarrow> eqf c b \<Longrightarrow> eqf a b"
  using eq_trans eq_sym by blast

end

definition slot_kl :: "'v hashmap_slot \<Rightarrow> hkey" where
  "slot_kl s = (the (sl_key s), sl_key_len s)"

definition keyed :: "'v hashmap \<Rightarrow> hkey set \<Rightarrow> 'v hashmap_slot multiset \<Rightarrow> bool" where
  "keyed m K E \<longleftrightarrow>
     (\<forall>e\<in>#E. sl_key e \<noteq> None \<and> slot_kl e \<in> K \<and> sl_hash e = khash m (slot_kl e))"

definition separated :: "'v hashmap \<Rightarrow> 'v hashmap_slot multiset \<Rightarrow> bool" where
  "separated m E \<longleftrightarrow> (\<forall>e e'. {#e, e'#} \<subseteq># E \<longrightarrow> \<not> keq m (slot_kl e) (slot_kl e'))"

definition hm_entries :: "'v hashmap \<Rightarrow> 'v hashmap_slot multiset" where
  "hm_entries m = (case hm_slots m of None \<Rightarrow> {#} | Some slots \<Rightarrow> entries slots)"

definition hm_inv :: "hkey set \<Rightarrow> 'v hashmap \<Rightarrow> bool" where
  "hm_inv K m \<longleftrightarrow>
     (case hm_slots m of
        None \<Rightarrow> hm_capacity m = 0 \<and> hm_size m = 0
      | Some slots \<Rightarrow>
          cap_ok (length slots) \<and> hm_capacity m = length slots \<and> hm_mask m = length slots - 1 \<and>
          hm_max_load m = length slots * 3 div 4 \<and> hm_size m = size (entries slots) \<and>
          hm_size m \<le> hm_max_load m \<and> rh_inv slots \<and> keyed m K (entries slots) \<and>
          separated m (entries slots))"

lemma slot_kl_ent [simp]: "slot_kl (ent s) = slot_kl s"
  by (simp add: slot_kl_def)

lemma slot_equal_keq:
  "sl_key s \<noteq> None \<Longrightarrow> slot_equal m s k l \<longleftrightarrow> keq m (k, l) (slot_kl s)"
  by (auto simp: slot_equal_def keq_def slot_kl_def split: option.splits)

lemma entries_mem_iff: "e \<in># entries slots \<longleftrightarrow> (\<exists>i<length slots. occ (slots ! i) \<and> e = ent (slots ! i))"
  by (auto simp: entries_def in_set_conv_nth)

lemma entries_pair:
  assumes "i < length slots" "j < length slots" "i \<noteq> j" "occ (slots ! i)" "occ (slots ! j)"
  shows "{#ent (slots ! i), ent (slots ! j)#} \<subseteq># entries slots"
proof -
  let ?t = "slots[i := empty_slot]"
  have "add_mset (ent (slots ! i)) (entries ?t) = entries slots"
    using assms by (intro entries_clear) simp_all
  moreover have "ent (slots ! j) \<in># entries ?t"
    using assms by (auto simp: entries_mem_iff intro!: exI [of _ j])
  then have "{#ent (slots ! j)#} \<subseteq># entries ?t" by (simp add: single_subset_iff)
  then have "add_mset (ent (slots ! i)) {#ent (slots ! j)#} \<subseteq># add_mset (ent (slots ! i)) (entries ?t)"
    by simp
  ultimately show ?thesis by simp
qed

lemma hm_invD:
  assumes "hm_inv K m" "hm_slots m = Some slots"
  shows "cap_ok (length slots)" "hm_capacity m = length slots" "hm_mask m = length slots - 1"
    "hm_max_load m = length slots * 3 div 4" "hm_size m = size (entries slots)"
    "hm_size m \<le> hm_max_load m" "rh_inv slots" "keyed m K (entries slots)" "separated m (entries slots)"
  using assms by (simp_all add: hm_inv_def)

lemma hm_inv_room:
  assumes "hm_inv K m" "hm_slots m = Some slots"
  shows "size (entries slots) < length slots"
  using hm_invD(4,5,6) [OF assms] cap_pos [OF hm_invD(1) [OF assms]] by linarith

text \<open>A probe finds exactly the entry bound to its key.\<close>

lemma matches_iff:
  assumes hk: "hash_key (khash m) (keq m) K" and inv: "hm_inv K m" "hm_slots m = Some slots"
    and i: "i < length slots" and kl: "(k, l) \<in> K"
  shows "matches m k l (slot_hash m k l) (slots ! i) \<longleftrightarrow> occ (slots ! i) \<and> keq m (k, l) (slot_kl (slots ! i))"
proof (cases "occ (slots ! i)")
  case True
  then have "ent (slots ! i) \<in># entries slots" using i by (auto simp: entries_mem_iff)
  then have "sl_key (slots ! i) \<noteq> None" "slot_kl (slots ! i) \<in> K"
    "sl_hash (slots ! i) = khash m (slot_kl (slots ! i))"
    using hm_invD(8) [OF inv] by (force simp: keyed_def)+
  moreover have "slot_hash m k l = khash m (k, l)" by (simp add: khash_def)
  ultimately show ?thesis
    using True hash_key.hash_eq [OF hk kl, of "slot_kl (slots ! i)"]
    by (auto simp: matches_def slot_equal_keq)
qed (simp add: matches_def)

lemma find_slot_bound:
  assumes hk: "hash_key (khash m) (keq m) K" and inv: "hm_inv K m" and kl: "(k, l) \<in> K"
    and e: "e \<in># hm_entries m" "keq m (k, l) (slot_kl e)"
  obtains slots j where "hm_slots m = Some slots" "j < length slots" "occ (slots ! j)" "ent (slots ! j) = e"
    "find_slot m k l (slot_hash m k l) = Some (Some j)"
proof -
  obtain slots where s: "hm_slots m = Some slots" using e by (auto simp: hm_entries_def split: option.splits)
  note D = hm_invD [OF inv s]
  obtain j where j: "j < length slots" "occ (slots ! j)" "e = ent (slots ! j)"
    using e s by (auto simp: hm_entries_def entries_mem_iff)
  have mj: "matches m k l (slot_hash m k l) (slots ! j)"
    using matches_iff [OF hk inv s j(1) kl] j e by simp
  have uniq: "i = j" if "i < length slots" "matches m k l (slot_hash m k l) (slots ! i)" for i
  proof (rule ccontr)
    assume "i \<noteq> j"
    have mi: "occ (slots ! i)" "keq m (k, l) (slot_kl (slots ! i))"
      using that matches_iff [OF hk inv s that(1) kl] by simp_all
    have "\<not> keq m (slot_kl (slots ! i)) (slot_kl (slots ! j))"
      using D(9) entries_pair [OF that(1) j(1) \<open>i \<noteq> j\<close> mi(1) j(2)]
      unfolding separated_def by fastforce
    moreover have "slot_kl (slots ! i) \<in> K" "slot_kl (slots ! j) \<in> K"
      using D(8) that(1) mi(1) j unfolding keyed_def by (metis entries_mem_iff slot_kl_ent)+
    ultimately show False
      using hash_key.eq_join [OF hk _ _ kl mi(2)] e j by simp
  qed
  have "0 < hm_size m" using D(5) e s by (auto simp: hm_entries_def nonempty_has_size [symmetric])
  then have "find_slot m k l (slot_hash m k l) = Some (Some j)"
    using find_slot_loop_found [OF D(7,1,3) j(1) mj uniq, of 0] cap_pos [OF D(1)] D(2,3)
      cap_okD(4) [OF D(1)]
    by (simp add: find_slot_def s)
  with that s j show ?thesis by blast
qed

lemma find_slot_unbound:
  assumes hk: "hash_key (khash m) (keq m) K" and inv: "hm_inv K m" and kl: "(k, l) \<in> K"
    and none: "\<And>e. e \<in># hm_entries m \<Longrightarrow> \<not> keq m (k, l) (slot_kl e)"
  shows "find_slot m k l (slot_hash m k l) = Some None"
proof (cases "hm_slots m")
  case None
  then show ?thesis by (simp add: find_slot_def)
next
  case (Some slots)
  note D = hm_invD [OF inv Some]
  have "\<not> matches m k l (slot_hash m k l) (slots ! i)" if "i < length slots" for i
    using matches_iff [OF hk inv Some that kl] none [of "ent (slots ! i)"] that
    by (auto simp: hm_entries_def Some entries_mem_iff)
  then show ?thesis
    using find_slot_loop_absent [OF D(7,1,3), of k l "slot_hash m k l" 0] D(2,3) cap_okD(4) [OF D(1)]
    by (simp add: find_slot_def Some)
qed

subsection \<open>Lookup and growth\<close>

definition hm_find :: "'v hashmap \<Rightarrow> hkey \<Rightarrow> 'v hashmap_slot option option" where
  "hm_find m kl =
     find_slot m (fst kl) (snd kl) (khash m kl) \<bind>
     (\<lambda>r. Some (map_option (\<lambda>j. ent (the (hm_slots m) ! j)) r))"

lemma get_ext_find:
  "cobalt_hashmap_get_ext (Some m) (Some k) l =
     hm_find m (k, l) \<bind> (\<lambda>r. Some (case r of None \<Rightarrow> None | Some e \<Rightarrow> sl_value e))"
  by (cases "find_slot m k l (slot_hash m k l)")
    (auto simp: cobalt_hashmap_get_ext_def hm_find_def khash_def Let_def split: option.splits)

lemma get_find:
  "cobalt_hashmap_get (Some m) (Some k) =
     hm_find m (k, strlen k) \<bind>
     (\<lambda>r. Some (case r of None \<Rightarrow> (None, Some COBALT_ERROR_NOT_FOUND) | Some e \<Rightarrow> (sl_value e, None)))"
  by (cases "find_slot m k (strlen k) (slot_hash m k (strlen k))")
    (auto simp: cobalt_hashmap_get_def hm_find_def khash_def Let_def split: option.splits)

lemma hm_find_bound:
  assumes "hash_key (khash m) (keq m) K" "hm_inv K m" "kl \<in> K"
    and "e \<in># hm_entries m" "keq m kl (slot_kl e)"
  shows "hm_find m kl = Some (Some e)"
proof -
  have kl: "(fst kl, snd kl) \<in> K" "keq m (fst kl, snd kl) (slot_kl e)" using assms by simp_all
  obtain slots j where "hm_slots m = Some slots" "ent (slots ! j) = e"
    "find_slot m (fst kl) (snd kl) (slot_hash m (fst kl) (snd kl)) = Some (Some j)"
    by (rule find_slot_bound [OF assms(1,2) kl(1) assms(4) kl(2)])
  then show ?thesis by (simp add: hm_find_def khash_def)
qed

lemma hm_find_unbound:
  assumes "hash_key (khash m) (keq m) K" "hm_inv K m" "kl \<in> K"
    and "\<And>e. e \<in># hm_entries m \<Longrightarrow> \<not> keq m kl (slot_kl e)"
  shows "hm_find m kl = Some None"
  using find_slot_unbound [of m K "fst kl" "snd kl"] assms
  by (simp add: hm_find_def khash_def)

definition same_funcs :: "'v hashmap \<Rightarrow> 'v hashmap \<Rightarrow> bool" where
  "same_funcs m' m \<longleftrightarrow> hm_hash_func m' = hm_hash_func m \<and> hm_equal_func m' = hm_equal_func m"

lemma same_funcs_simps:
  "same_funcs m' m \<Longrightarrow> khash m' = khash m" "same_funcs m' m \<Longrightarrow> keq m' = keq m"
  "same_funcs m' m \<Longrightarrow> slot_hash m' = slot_hash m"
  by (auto simp: same_funcs_def khash_def keq_def slot_hash_def fun_eq_iff)

lemma funcs_upd [simp]:
  "khash (m\<lparr>hm_slots := x_hm_slots\<rparr>) = khash m" "keq (m\<lparr>hm_slots := x_hm_slots\<rparr>) = keq m"
  "slot_hash (m\<lparr>hm_slots := x_hm_slots\<rparr>) = slot_hash m"
  "khash (m\<lparr>hm_size := x_hm_size\<rparr>) = khash m" "keq (m\<lparr>hm_size := x_hm_size\<rparr>) = keq m"
  "slot_hash (m\<lparr>hm_size := x_hm_size\<rparr>) = slot_hash m"
  "khash (m\<lparr>hm_capacity := x_hm_capacity\<rparr>) = khash m" "keq (m\<lparr>hm_capacity := x_hm_capacity\<rparr>) = keq m"
  "slot_hash (m\<lparr>hm_capacity := x_hm_capacity\<rparr>) = slot_hash m"
  "khash (m\<lparr>hm_mask := x_hm_mask\<rparr>) = khash m" "keq (m\<lparr>hm_mask := x_hm_mask\<rparr>) = keq m"
  "slot_hash (m\<lparr>hm_mask := x_hm_mask\<rparr>) = slot_hash m"
  "khash (m\<lparr>hm_max_load := x_hm_max_load\<rparr>) = khash m" "keq (m\<lparr>hm_max_load := x_hm_max_load\<rparr>) = keq m"
  "slot_hash (m\<lparr>hm_max_load := x_hm_max_load\<rparr>) = slot_hash m"
  by (simp_all add: khash_def keq_def slot_hash_def fun_eq_iff)

lemma keyed_upd [simp]:
  "keyed (m\<lparr>hm_slots := x_hm_slots\<rparr>) = keyed m" "separated (m\<lparr>hm_slots := x_hm_slots\<rparr>) = separated m"
  "keyed (m\<lparr>hm_size := x_hm_size\<rparr>) = keyed m" "separated (m\<lparr>hm_size := x_hm_size\<rparr>) = separated m"
  "keyed (m\<lparr>hm_capacity := x_hm_capacity\<rparr>) = keyed m" "separated (m\<lparr>hm_capacity := x_hm_capacity\<rparr>) = separated m"
  "keyed (m\<lparr>hm_mask := x_hm_mask\<rparr>) = keyed m" "separated (m\<lparr>hm_mask := x_hm_mask\<rparr>) = separated m"
  "keyed (m\<lparr>hm_max_load := x_hm_max_load\<rparr>) = keyed m" "separated (m\<lparr>hm_max_load := x_hm_max_load\<rparr>) = separated m"
  by (simp_all add: keyed_def separated_def fun_eq_iff)

lemma same_funcs_keyed:
  assumes "same_funcs m' m"
  shows "keyed m' K E \<longleftrightarrow> keyed m K E" "separated m' E \<longleftrightarrow> separated m E"
  by (simp_all add: keyed_def separated_def same_funcs_simps [OF assms])

lemma hm_inv_entries:
  assumes "hm_inv K m"
  shows "hm_size m = size (hm_entries m)" "keyed m K (hm_entries m)" "separated m (hm_entries m)"
  using assms by (auto simp: hm_inv_def hm_entries_def keyed_def separated_def split: option.splits)

lemma hm_entries_in_K: "hm_inv K m \<Longrightarrow> e \<in># hm_entries m \<Longrightarrow> slot_kl e \<in> K"
  by (auto simp: hm_inv_def hm_entries_def keyed_def split: option.splits)

text \<open>
  Two maps that agree on the entries whose key differs from a given one agree on every lookup of
  such a key.
\<close>

lemma hm_find_agree:
  assumes hk: "hash_key (khash m) (keq m) K" and inv: "hm_inv K m" "hm_inv K m'"
    and sf: "same_funcs m' m" and kl: "kl \<in> K" and a: "a \<in> K" and ne: "\<not> keq m kl a"
    and agree: "\<And>e. slot_kl e \<in> K \<Longrightarrow> \<not> keq m (slot_kl e) a \<Longrightarrow> e \<in># hm_entries m' \<longleftrightarrow> e \<in># hm_entries m"
  shows "hm_find m' kl = hm_find m kl"
proof -
  have hk': "hash_key (khash m') (keq m') K" using hk by (simp add: same_funcs_simps [OF sf])
  have sep: "\<not> keq m (slot_kl e) a" if "slot_kl e \<in> K" "keq m kl (slot_kl e)" for e :: "'a hashmap_slot"
    using hash_key.eq_trans [OF hk kl that(1) a that(2)] ne by blast
  show ?thesis
  proof (cases "\<exists>e. e \<in># hm_entries m \<and> keq m kl (slot_kl e)")
    case True
    then obtain e where e: "e \<in># hm_entries m" "keq m kl (slot_kl e)" by blast
    have "e \<in># hm_entries m'"
      using agree [of e] sep [of e] e hm_entries_in_K [OF inv(1)] by blast
    then show ?thesis
      using hm_find_bound [OF hk inv(1) kl e] hm_find_bound [OF hk' inv(2) kl, of e] e
      by (simp add: same_funcs_simps [OF sf])
  next
    case False
    then have "\<not> keq m kl (slot_kl e)" if "e \<in># hm_entries m'" for e
      using agree [of e] sep [of e] hm_entries_in_K [OF inv(2) that] that by blast
    then show ?thesis
      using False hm_find_unbound [OF hk inv(1) kl] hm_find_unbound [OF hk' inv(2) kl]
      by (simp add: same_funcs_simps [OF sf])
  qed
qed

subsection \<open>Growing\<close>

lemma next_cap:
  assumes "cap = 0 \<or> (cap_ok cap \<and> cap \<le> 2 ^ 30)"
  defines "t \<equiv> (if cap = 0 then 16 else szt (2 * cap))"
  obtains c where "unat (hashmap_next_pow2 (of_nat (if t < 16 then 16 else t))) = c"
    "cap_ok c" "2 * cap \<le> c"
proof -
  have sz: "szt (2 * cap) = 2 * cap" using assms(1) by (intro szt_small) auto
  have "\<exists>j. j \<le> 30 \<and> (if t < 16 then 16 else t) = 2 ^ Suc j \<and> 2 * cap \<le> 2 ^ Suc j"
  proof (cases "2 * cap < 16")
    case True
    then show ?thesis unfolding t_def sz by (intro exI [of _ 3]) simp
  next
    case False
    then have c: "cap \<noteq> 0" "cap_ok cap" "cap \<le> 2 ^ 30" using assms(1) by auto
    then obtain k where k: "cap = 2 ^ k" unfolding cap_ok_def by blast
    have "k \<le> 30" by (rule power_le_imp_le_exp [of "2::nat"]) (use c(3) k in simp_all)
    then show ?thesis using False c(1) k unfolding t_def sz by (intro exI [of _ k]) simp
  qed
  then obtain j where j: "j \<le> 30" "(if t < 16 then 16 else t) = 2 ^ Suc j" "2 * cap \<le> 2 ^ Suc j"
    by blast
  have "unat (hashmap_next_pow2 (of_nat (2 ^ Suc j))) = 2 ^ Suc j"
    by (rule hashmap_next_pow2_eq) (use j(1) in simp_all)
  moreover have "cap_ok (2 ^ Suc j)" unfolding cap_ok_def using j(1) by (intro exI [of _ "Suc j"]) simp
  ultimately show ?thesis using j(3) that [unfolded j(2)] by blast
qed

lemma hm_inv_cap: "hm_inv K m \<Longrightarrow> hm_capacity m = 0 \<or> cap_ok (hm_capacity m)"
  by (auto simp: hm_inv_def split: option.splits)

lemma ensure_capacity_grow:
  assumes inv: "hm_inv K m" and cap: "hm_capacity m \<le> 2 ^ 30"
  defines "t \<equiv> (if hm_capacity m = 0 then 16 else szt (2 * hm_capacity m))"
  shows "hashmap_ensure_capacity False m t = Some (-1, Some COBALT_ERROR_OUT_OF_MEMORY, m)"
    and "\<exists>m1. hashmap_ensure_capacity True m t = Some (0, None, m1) \<and> hm_inv K m1 \<and>
           hm_entries m1 = hm_entries m \<and> hm_size m1 = hm_size m \<and> hm_size m1 < hm_max_load m1 \<and>
           hm_slots m1 \<noteq> None \<and> same_funcs m1 m"
proof -
  obtain c where c: "unat (hashmap_next_pow2 (of_nat (if t < 16 then 16 else t))) = c"
    "cap_ok c" "2 * hm_capacity m \<le> c"
    using next_cap [of "hm_capacity m"] hm_inv_cap [OF inv] cap unfolding t_def by blast
  have c2: "2 \<le> c" "c \<le> 2147483648" using cap_okD [OF c(2)] by auto
  have big: "hm_capacity m < c" using c(3) c2 by linarith
  then show "hashmap_ensure_capacity False m t = Some (-1, Some COBALT_ERROR_OUT_OF_MEMORY, m)"
    unfolding hashmap_ensure_capacity_def Let_def c(1) by simp
  have ml: "szt (c * 3) div 4 = c * 3 div 4" using c2 by simp
  have load: "hm_size m < c * 3 div 4"
  proof (cases "hm_slots m")
    case None
    then show ?thesis using inv c2 by (simp add: hm_inv_def)
  next
    case (Some slots)
    note D = hm_invD [OF inv Some]
    show ?thesis using D(2,4,6) c(3) cap_okD(1) [OF D(1)] by linarith
  qed
  obtain new where new: "rh_inv new" "length new = c" "entries new = hm_entries m"
    "(case hm_slots m of
        Some slots \<Rightarrow> if 0 < hm_size m then rehash_loop slots (c - 1) (init_slots c) else Some (init_slots c)
      | None \<Rightarrow> Some (init_slots c)) = Some new"
  proof (cases "hm_slots m")
    case None
    then show ?thesis using that [of "init_slots c"] by (simp add: rh_inv_init hm_entries_def)
  next
    case (Some slots)
    have sz: "hm_size m = size (entries slots)" using hm_invD(5) [OF inv Some] .
    show ?thesis
    proof (cases "0 < hm_size m")
      case True
      have "size (entries (init_slots c)) + size (entries slots) < length (init_slots c)"
        using load sz by simp
      from rehash_loop_ok [OF rh_inv_init _ this] c(2) True Some show ?thesis
        by (auto simp: hm_entries_def intro: that)
    next
      case False
      then show ?thesis using Some sz that [of "init_slots c"] by (simp add: rh_inv_init hm_entries_def)
    qed
  qed
  let ?m1 = "m\<lparr>hm_slots := Some new, hm_capacity := c, hm_mask := c - 1, hm_max_load := c * 3 div 4\<rparr>"
  have sf: "same_funcs ?m1 m" by (simp add: same_funcs_def)
  have kd: "hm_size m = size (hm_entries m)" "keyed ?m1 K (hm_entries m)" "separated ?m1 (hm_entries m)"
    using hm_inv_entries [OF inv] same_funcs_keyed [OF sf] by blast+
  have "hm_inv K ?m1" using new c(2) load kd by (simp add: hm_inv_def)
  moreover have "hashmap_ensure_capacity True m t = Some (0, None, ?m1)"
    unfolding hashmap_ensure_capacity_def Let_def c(1) ml new(4) using big by simp
  ultimately show "\<exists>m1. hashmap_ensure_capacity True m t = Some (0, None, m1) \<and> hm_inv K m1 \<and>
           hm_entries m1 = hm_entries m \<and> hm_size m1 = hm_size m \<and> hm_size m1 < hm_max_load m1 \<and>
           hm_slots m1 \<noteq> None \<and> same_funcs m1 m"
    using sf new load by (intro exI [of _ ?m1]) (auto simp: hm_entries_def)
qed

subsection \<open>Insertion\<close>

lemma pair_subseteq_add:
  assumes "{#a, b#} \<subseteq># add_mset x E"
  shows "{#a, b#} \<subseteq># E \<or> (a = x \<and> b \<in># E) \<or> (b = x \<and> a \<in># E)"
proof (cases "a = x")
  case True
  with assms show ?thesis by (simp add: single_subset_iff)
next
  case a: False
  show ?thesis
  proof (cases "b = x")
    case True
    with assms have "{#x, a#} \<subseteq># add_mset x E" by (simp add: add_mset_commute)
    with True show ?thesis by (simp add: single_subset_iff)
  next
    case False
    with a have "x \<notin># {#a, b#}" by auto
    then have "{#a, b#} - {#x#} = {#a, b#}" by (rule diff_single_trivial)
    moreover have "{#a, b#} - {#x#} \<subseteq># E" using assms by (simp add: subset_eq_diff_conv)
    ultimately show ?thesis by simp
  qed
qed

lemma separatedD: "separated m E \<Longrightarrow> {#a, b#} \<subseteq># E \<Longrightarrow> \<not> keq m (slot_kl a) (slot_kl b)"
  by (simp add: separated_def)

lemma separated_add:
  assumes "separated m E" "\<And>e. e \<in># E \<Longrightarrow> \<not> keq m (slot_kl x) (slot_kl e) \<and> \<not> keq m (slot_kl e) (slot_kl x)"
  shows "separated m (add_mset x E)"
  unfolding separated_def
proof (intro allI impI)
  fix a b
  assume "{#a, b#} \<subseteq># add_mset x E"
  from pair_subseteq_add [OF this] show "\<not> keq m (slot_kl a) (slot_kl b)"
    using assms unfolding separated_def by blast
qed

lemma separated_sub: "separated m E \<Longrightarrow> F \<subseteq># E \<Longrightarrow> separated m F"
  unfolding separated_def by (meson subset_mset.order_trans)

lemma separated_replace:
  assumes "separated m (add_mset x E)" "slot_kl y = slot_kl x"
  shows "separated m (add_mset y E)"
  unfolding separated_def
proof (intro allI impI)
  fix a b
  assume "{#a, b#} \<subseteq># add_mset y E"
  from pair_subseteq_add [OF this]
  consider "{#a, b#} \<subseteq># E" | "a = y" "b \<in># E" | "b = y" "a \<in># E" by blast
  then show "\<not> keq m (slot_kl a) (slot_kl b)"
  proof cases
    case 1
    then have "{#a, b#} \<subseteq># add_mset x E"
      by (rule subset_mset.order_trans) (rule subset_mset.less_imp_le [OF multi_psub_of_add_self])
    then show ?thesis by (rule separatedD [OF assms(1)])
  next
    case 2
    then have "{#x, b#} \<subseteq># add_mset x E" by (simp add: single_subset_iff)
    then have "\<not> keq m (slot_kl x) (slot_kl b)" by (rule separatedD [OF assms(1)])
    then show ?thesis using assms(2) 2 by simp
  next
    case 3
    then have "{#x, a#} \<subseteq># add_mset x E" by (simp add: single_subset_iff)
    then have "{#a, x#} \<subseteq># add_mset x E" using add_mset_commute [of a x "{#}"] by simp
    then have "\<not> keq m (slot_kl a) (slot_kl x)" by (rule separatedD [OF assms(1)])
    then show ?thesis using assms(2) 3 by simp
  qed
qed

lemma insert_new_ok:
  assumes hk: "hash_key (khash m) (keq m) K" and inv: "hm_inv K m" and s: "hm_slots m = Some slots"
    and load: "hm_size m < hm_max_load m"
    and e: "sl_key e \<noteq> None" "slot_kl e \<in> K" "sl_hash e = khash m (slot_kl e)"
    and fresh: "\<And>x. x \<in># hm_entries m \<Longrightarrow> \<not> keq m (slot_kl e) (slot_kl x)"
  obtains slots' where
    "robin_hood_insert_entry slots (hm_mask m) e = Some slots'"
    "hm_inv K (m\<lparr>hm_slots := Some slots', hm_size := szt (hm_size m + 1)\<rparr>)"
    "entries slots' = add_mset (ent e) (hm_entries m)"
proof -
  note D = hm_invD [OF inv s]
  obtain slots' where r: "robin_hood_insert_entry slots (length slots - 1) e = Some slots'"
    "rh_inv slots'" "length slots' = length slots" "entries slots' = add_mset (ent e) (entries slots)"
    using robin_hood_insert_entry_ok [OF D(7,1) hm_inv_room [OF inv s]] .
  let ?m' = "m\<lparr>hm_slots := Some slots', hm_size := szt (hm_size m + 1)\<rparr>"
  have E: "hm_entries m = entries slots" by (simp add: hm_entries_def s)
  have "length slots < 4294967295" using cap_bound [OF D(1)] .
  then have sz: "szt (hm_size m + 1) = Suc (hm_size m)" using D(4) load by (intro szt_small [THEN trans]) simp_all
  have "separated m (entries slots')" unfolding r(4)
  proof (rule separated_add [OF D(9)])
    fix x assume x: "x \<in># entries slots"
    then have "slot_kl x \<in> K" "\<not> keq m (slot_kl e) (slot_kl x)"
      using hm_entries_in_K [OF inv] fresh E by simp_all
    then show "\<not> keq m (slot_kl (ent e)) (slot_kl x) \<and> \<not> keq m (slot_kl x) (slot_kl (ent e))"
      using hash_key.eq_sym [OF hk _ e(2), of "slot_kl x"] by (simp only: slot_kl_ent) blast
  qed
  moreover have "keyed m K (entries slots')"
    using D(8) e by (auto simp: keyed_def r(4))
  ultimately have "hm_inv K ?m'"
    using D r load sz by (simp add: hm_inv_def)
  then show ?thesis using that r D(3) E by simp
qed

lemma rh_inv_value:
  assumes "rh_inv slots" "i < length slots" "sl_psl x = sl_psl (slots ! i)" "sl_hash x = sl_hash (slots ! i)"
  shows "rh_inv (slots[i := x])"
proof -
  have same: "sl_psl (slots[i := x] ! j) = sl_psl (slots ! j)" "home (slots[i := x] ! j) = home (slots ! j)" for j
    using assms(2-4) by (cases "j = i"; simp add: home_def)+
  have "psl_ok (slots[i := x]) j \<longleftrightarrow> psl_ok slots j" "link_ok (slots[i := x]) j \<longleftrightarrow> link_ok slots j" for j
    by (simp_all add: psl_ok_def link_ok_def Let_def same)
  then show ?thesis using assms(1) by (simp add: rh_inv_def)
qed

lemma update_value_ok:
  fixes v :: "'v option"
  assumes inv: "hm_inv K m" and s: "hm_slots m = Some slots" and j: "j < length slots" "occ (slots ! j)"
  defines "m' \<equiv> m\<lparr>hm_slots := Some (slots[j := (slots ! j)\<lparr>sl_value := v\<rparr>])\<rparr>"
  shows "hm_inv K m'"
    and "add_mset (ent (slots ! j)) (hm_entries m') =
         add_mset ((ent (slots ! j))\<lparr>sl_value := v\<rparr>) (hm_entries m)"
proof -
  note D = hm_invD [OF inv s]
  let ?x = "(slots ! j)\<lparr>sl_value := v\<rparr>"
  let ?slots' = "slots[j := ?x]"
  have sw: "add_mset (ent (slots ! j)) (entries ?slots') = add_mset (ent ?x) (entries slots)"
    by (rule entries_swap) (use j in simp_all)
  have ex: "ent ?x = (ent (slots ! j))\<lparr>sl_value := v\<rparr>" by (simp add: ent_def)
  then show "add_mset (ent (slots ! j)) (hm_entries m') =
         add_mset ((ent (slots ! j))\<lparr>sl_value := v\<rparr>) (hm_entries m)"
    using sw by (simp add: hm_entries_def s m'_def)
  have "ent (slots ! j) \<in># entries slots" using j by (auto simp: entries_mem_iff)
  then obtain R where R: "entries slots = add_mset (ent (slots ! j)) R" by (meson mset_add)
  with sw have E': "entries ?slots' = add_mset (ent ?x) R" by (simp add: add_mset_commute [of "ent ?x"])
  have kl: "slot_kl (ent ?x) = slot_kl (ent (slots ! j))" by (simp add: slot_kl_def)
  have "separated m (entries ?slots')"
    using separated_replace [of m "ent (slots ! j)" R "ent ?x"] D(9) kl by (simp add: R E')
  moreover have "keyed m K (entries ?slots')"
    using D(8) by (auto simp: keyed_def R E' slot_kl_def)
  moreover have "size (entries ?slots') = size (entries slots)" by (simp add: R E')
  moreover have "rh_inv ?slots'" using D(7) j by (intro rh_inv_value) simp_all
  ultimately show "hm_inv K m'"
    using D by (simp add: hm_inv_def m'_def)
qed

definition put_post :: "hkey set \<Rightarrow> 'v hashmap \<Rightarrow> hkey \<Rightarrow> 'v option \<Rightarrow> 'v hashmap \<Rightarrow> bool" where
  "put_post K m kl v m' \<longleftrightarrow>
     hm_inv K m' \<and> same_funcs m' m \<and>
     hm_size m' = (if hm_find m kl = Some None then Suc (hm_size m) else hm_size m) \<and>
     (\<forall>kl'\<in>K. if keq m kl' kl then \<exists>e. hm_find m' kl' = Some (Some e) \<and> sl_value e = v
              else hm_find m' kl' = hm_find m kl')"

lemma put_postI:
  assumes hk: "hash_key (khash m) (keq m) K" and inv: "hm_inv K m" "hm_inv K m'"
    and sf: "same_funcs m' m" and kl: "kl \<in> K"
    and e: "e \<in># hm_entries m'" "keq m kl (slot_kl e)" "sl_value e = v"
    and agree: "\<And>x. slot_kl x \<in> K \<Longrightarrow> \<not> keq m (slot_kl x) kl \<Longrightarrow> x \<in># hm_entries m' \<longleftrightarrow> x \<in># hm_entries m"
    and sz: "hm_size m' = (if hm_find m kl = Some None then Suc (hm_size m) else hm_size m)"
  shows "put_post K m kl v m'"
proof -
  have hk': "hash_key (khash m') (keq m') K" using hk by (simp add: same_funcs_simps [OF sf])
  have "hm_find m' kl' = Some (Some e)" if "kl' \<in> K" "keq m kl' kl" for kl'
    using hm_find_bound [OF hk' inv(2) that(1) e(1)] that(2) e(2) hm_entries_in_K [OF inv(2) e(1)]
      hash_key.eq_trans [OF hk that(1) kl, of "slot_kl e"]
    by (simp add: same_funcs_simps [OF sf])
  moreover have "hm_find m' kl' = hm_find m kl'" if "kl' \<in> K" "\<not> keq m kl' kl" for kl'
    using hm_find_agree [OF hk inv sf that(1) kl that(2) agree] .
  ultimately show ?thesis using inv(2) sf sz e(3) by (auto simp: put_post_def)
qed

lemma put_post_existing:
  assumes hk: "hash_key (khash m) (keq m) K" and inv: "hm_inv K m" and kl: "(k, l) \<in> K"
    and x: "x \<in># hm_entries m" "keq m (k, l) (slot_kl x)"
  obtains slots j where "find_slot m k l (slot_hash m k l) = Some (Some j)" "hm_slots m = Some slots"
    "put_post K m (k, l) v (m\<lparr>hm_slots := Some (slots[j := (slots ! j)\<lparr>sl_value := v\<rparr>])\<rparr>)"
proof -
  obtain slots j where s: "hm_slots m = Some slots" and j: "j < length slots" "occ (slots ! j)"
      "ent (slots ! j) = x" and f: "find_slot m k l (slot_hash m k l) = Some (Some j)"
    by (rule find_slot_bound [OF hk inv kl x])
  let ?m' = "m\<lparr>hm_slots := Some (slots[j := (slots ! j)\<lparr>sl_value := v\<rparr>])\<rparr>"
  let ?y = "x\<lparr>sl_value := v\<rparr>"
  have inv': "hm_inv K ?m'" and E: "add_mset x (hm_entries ?m') = add_mset ?y (hm_entries m)"
    using update_value_ok [OF inv s j(1,2)] j(3) by simp_all
  have kly: "slot_kl ?y = slot_kl x" by (simp add: slot_kl_def)
  have "?y \<in># hm_entries ?m'"
    using E x(1) by (metis insert_noteq_member multi_member_split union_single_eq_member add_mset_remove_trivial)
  moreover have "z \<in># hm_entries ?m' \<longleftrightarrow> z \<in># hm_entries m"
    if "slot_kl z \<in> K" "\<not> keq m (slot_kl z) (k, l)" for z
  proof -
    have "keq m (slot_kl x) (k, l)"
      using hash_key.eq_sym [OF hk kl hm_entries_in_K [OF inv x(1)] x(2)] .
    then have "z \<noteq> x" "z \<noteq> ?y" using that kly by auto
    moreover have "z \<in># add_mset x (hm_entries ?m') \<longleftrightarrow> z \<in># add_mset ?y (hm_entries m)" unfolding E ..
    ultimately show ?thesis by simp
  qed
  moreover have "hm_find m (k, l) \<noteq> Some None" using hm_find_bound [OF hk inv kl x] by simp
  ultimately have "put_post K m (k, l) v ?m'"
    using x(2) kly by (intro put_postI [OF hk inv inv' _ kl, where e = ?y]) (simp_all add: same_funcs_def)
  with f s that show ?thesis by blast
qed

lemma put_post_new:
  assumes hk: "hash_key (khash m) (keq m) K" and inv: "hm_inv K m" and kl: "(k, l) \<in> K"
    and none: "\<And>e. e \<in># hm_entries m \<Longrightarrow> \<not> keq m (k, l) (slot_kl e)"
    and m1: "hm_inv K m1" "hm_entries m1 = hm_entries m" "hm_size m1 = hm_size m" "same_funcs m1 m"
      "hm_size m1 < hm_max_load m1" "hm_slots m1 = Some slots"
  obtains slots' where
    "robin_hood_insert_entry slots (hm_mask m1)
       \<lparr>sl_key = Some k, sl_value = v, sl_hash = slot_hash m k l, sl_psl = 0, sl_key_len = l, sl_key_owned = b\<rparr>
     = Some slots'"
    "put_post K m (k, l) v (m1\<lparr>hm_slots := Some slots', hm_size := szt (hm_size m1 + 1)\<rparr>)"
proof -
  let ?e = "\<lparr>sl_key = Some k, sl_value = v, sl_hash = slot_hash m k l, sl_psl = 0, sl_key_len = l, sl_key_owned = b\<rparr>"
  note sf = same_funcs_simps [OF m1(4)]
  have hk1: "hash_key (khash m1) (keq m1) K" using hk by (simp add: sf)
  have kle: "slot_kl ?e = (k, l)" by (simp add: slot_kl_def)
  obtain slots' where r: "robin_hood_insert_entry slots (hm_mask m1) ?e = Some slots'"
      "hm_inv K (m1\<lparr>hm_slots := Some slots', hm_size := szt (hm_size m1 + 1)\<rparr>)"
      "entries slots' = add_mset (ent ?e) (hm_entries m1)"
  proof (rule insert_new_ok [OF hk1 m1(1,6,5), of ?e])
    show "\<not> keq m1 (slot_kl ?e) (slot_kl x)" if "x \<in># hm_entries m1" for x
      using none that by (simp add: m1(2) sf kle)
  qed (use kl in \<open>simp_all add: kle khash_def sf\<close>)
  let ?m' = "m1\<lparr>hm_slots := Some slots', hm_size := szt (hm_size m1 + 1)\<rparr>"
  have sf': "same_funcs ?m' m" using m1(4) by (simp add: same_funcs_def)
  have E': "hm_entries ?m' = add_mset (ent ?e) (hm_entries m)" using r(3) m1(2) by (simp add: hm_entries_def)
  have "hm_size ?m' = Suc (hm_size m)" using hm_inv_entries(1) [OF r(2)] E' hm_inv_entries(1) [OF inv] by simp
  moreover have "hm_find m (k, l) = Some None" using hm_find_unbound [OF hk inv kl none] .
  moreover have "keq m (k, l) (k, l)" using hash_key.eq_refl [OF hk kl] .
  moreover have "ent ?e \<in># hm_entries ?m'" unfolding E' by simp
  moreover have "z \<in># hm_entries ?m' \<longleftrightarrow> z \<in># hm_entries m"
    if "slot_kl z \<in> K" "\<not> keq m (slot_kl z) (k, l)" for z
  proof -
    have "z \<noteq> ent ?e" using that(2) \<open>keq m (k, l) (k, l)\<close> kle by auto
    then show ?thesis unfolding E' by simp
  qed
  moreover have "keq m (k, l) (slot_kl (ent ?e))" "sl_value (ent ?e) = v"
    using hash_key.eq_refl [OF hk kl] by (simp_all add: slot_kl_def)
  ultimately have "put_post K m (k, l) v ?m'"
    by (intro put_postI [OF hk inv r(2) sf' kl, where e = "ent ?e"]) (assumption+, simp only: simp_thms if_True)
  with r(1) that show ?thesis by blast
qed

lemma grow_cap:
  assumes inv: "hm_inv K m" and sz: "hm_size m < 2 ^ 30" and full: "hm_capacity m = 0 \<or> hm_max_load m \<le> hm_size m"
  shows "hm_capacity m \<le> 2 ^ 30"
proof (cases "hm_slots m")
  case None
  then show ?thesis using inv by (simp add: hm_inv_def)
next
  case (Some slots)
  note D = hm_invD [OF inv Some]
  obtain k where k: "length slots = 2 ^ k" "k \<le> 31" using D(1) unfolding cap_ok_def by blast
  have "k \<noteq> 31" using full sz D(2,4) k by (auto simp del: length_0_conv)
  then have "(2::nat) ^ k \<le> 2 ^ 30" using k(2) by (intro power_increasing) simp_all
  then show ?thesis using D(2) k(1) by simp
qed

lemma grow_step:
  assumes inv: "hm_inv K m" and sz: "hm_size m < 2 ^ 30"
  obtains m1 slots where
    "(if hm_capacity m = 0 \<or> hm_max_load m \<le> hm_size m
      then hashmap_ensure_capacity True m (if hm_capacity m = 0 then 16 else szt (2 * hm_capacity m))
      else Some (0, None, m)) = Some (0, None, m1)"
    "hm_inv K m1" "hm_entries m1 = hm_entries m" "hm_size m1 = hm_size m" "same_funcs m1 m"
    "hm_size m1 < hm_max_load m1" "hm_slots m1 = Some slots"
proof (cases "hm_capacity m = 0 \<or> hm_max_load m \<le> hm_size m")
  case True
  obtain m1 where "hashmap_ensure_capacity True m (if hm_capacity m = 0 then 16 else szt (2 * hm_capacity m)) = Some (0, None, m1)"
    "hm_inv K m1" "hm_entries m1 = hm_entries m" "hm_size m1 = hm_size m" "hm_size m1 < hm_max_load m1"
    "hm_slots m1 \<noteq> None" "same_funcs m1 m"
    using ensure_capacity_grow(2) [OF inv grow_cap [OF inv sz True]] by blast
  with True that show ?thesis by (metis not_None_eq)
next
  case False
  then obtain slots where "hm_slots m = Some slots"
    using inv by (auto simp: hm_inv_def split: option.splits)
  with False inv that [of m slots] show ?thesis by (simp add: same_funcs_def)
qed

lemma put_ext_ok:
  assumes hk: "hash_key (khash m) (keq m) K" and inv: "hm_inv K m" and kl: "(k, l) \<in> K"
    and sz: "hm_size m < 2 ^ 30"
  obtains m' where "cobalt_hashmap_put_ext True (Some m) (Some k) l v = Some (0, None, Some m')"
    "put_post K m (k, l) v m'"
proof (cases "\<exists>x. x \<in># hm_entries m \<and> keq m (k, l) (slot_kl x)")
  case True
  then obtain x where x: "x \<in># hm_entries m" "keq m (k, l) (slot_kl x)" by blast
  obtain slots j where "find_slot m k l (slot_hash m k l) = Some (Some j)" "hm_slots m = Some slots"
    "put_post K m (k, l) v (m\<lparr>hm_slots := Some (slots[j := (slots ! j)\<lparr>sl_value := v\<rparr>])\<rparr>)"
    by (rule put_post_existing [OF hk inv kl x])
  then show ?thesis by (intro that) (simp_all add: cobalt_hashmap_put_ext_def Let_def)
next
  case False
  then have none: "\<And>e. e \<in># hm_entries m \<Longrightarrow> \<not> keq m (k, l) (slot_kl e)" by blast
  have f: "find_slot m k l (slot_hash m k l) = Some None" by (rule find_slot_unbound [OF hk inv kl none])
  obtain m1 slots where g:
    "(if hm_capacity m = 0 \<or> hm_max_load m \<le> hm_size m
      then hashmap_ensure_capacity True m (if hm_capacity m = 0 then 16 else szt (2 * hm_capacity m))
      else Some (0, None, m)) = Some (0, None, m1)" and
    m1: "hm_inv K m1" "hm_entries m1 = hm_entries m" "hm_size m1 = hm_size m" "same_funcs m1 m"
    "hm_size m1 < hm_max_load m1" "hm_slots m1 = Some slots"
    by (rule grow_step [OF inv sz])
  obtain slots' where
    "robin_hood_insert_entry slots (hm_mask m1)
       \<lparr>sl_key = Some k, sl_value = v, sl_hash = slot_hash m k l, sl_psl = 0, sl_key_len = l, sl_key_owned = False\<rparr>
     = Some slots'"
    "put_post K m (k, l) v (m1\<lparr>hm_slots := Some slots', hm_size := szt (hm_size m1 + 1)\<rparr>)"
    by (rule put_post_new [OF hk inv kl none m1])
  then show ?thesis
    by (intro that) (simp_all add: cobalt_hashmap_put_ext_def Let_def f g m1(6))
qed

lemma put_ok:
  assumes hk: "hash_key (khash m) (keq m) K" and inv: "hm_inv K m" and kl: "(k, strlen k) \<in> K"
    and sz: "hm_size m < 2 ^ 30" and c: "cstr k = k"
  obtains m' where "cobalt_hashmap_put True True (Some m) (Some k) v = Some (0, None, Some m')"
    "put_post K m (k, strlen k) v m'"
proof (cases "\<exists>x. x \<in># hm_entries m \<and> keq m (k, strlen k) (slot_kl x)")
  case True
  then obtain x where x: "x \<in># hm_entries m" "keq m (k, strlen k) (slot_kl x)" by blast
  obtain slots j where "find_slot m k (strlen k) (slot_hash m k (strlen k)) = Some (Some j)" "hm_slots m = Some slots"
    "put_post K m (k, strlen k) v (m\<lparr>hm_slots := Some (slots[j := (slots ! j)\<lparr>sl_value := v\<rparr>])\<rparr>)"
    by (rule put_post_existing [OF hk inv kl x])
  then show ?thesis by (intro that) (simp_all add: cobalt_hashmap_put_def Let_def)
next
  case False
  then have none: "\<And>e. e \<in># hm_entries m \<Longrightarrow> \<not> keq m (k, strlen k) (slot_kl e)" by blast
  have f: "find_slot m k (strlen k) (slot_hash m k (strlen k)) = Some None"
    by (rule find_slot_unbound [OF hk inv kl none])
  obtain m1 slots where g:
    "(if hm_capacity m = 0 \<or> hm_max_load m \<le> hm_size m
      then hashmap_ensure_capacity True m (if hm_capacity m = 0 then 16 else szt (2 * hm_capacity m))
      else Some (0, None, m)) = Some (0, None, m1)" and
    m1: "hm_inv K m1" "hm_entries m1 = hm_entries m" "hm_size m1 = hm_size m" "same_funcs m1 m"
    "hm_size m1 < hm_max_load m1" "hm_slots m1 = Some slots"
    by (rule grow_step [OF inv sz])
  obtain slots' where
    "robin_hood_insert_entry slots (hm_mask m1)
       \<lparr>sl_key = Some k, sl_value = v, sl_hash = slot_hash m k (strlen k), sl_psl = 0,
        sl_key_len = strlen k, sl_key_owned = True\<rparr> = Some slots'"
    "put_post K m (k, strlen k) v (m1\<lparr>hm_slots := Some slots', hm_size := szt (hm_size m1 + 1)\<rparr>)"
    by (rule put_post_new [OF hk inv kl none m1])
  then show ?thesis
    by (intro that) (simp_all add: cobalt_hashmap_put_def Let_def f g c m1(6))
qed

text \<open>Removal.\<close>

lemma remove_slot_ok:
  assumes inv: "hm_inv K m" and s: "hm_slots m = Some slots" and j: "j < length slots" "occ (slots ! j)"
  obtains slots' cur where "backward_shift slots (hm_mask m) j = Some (slots', cur)"
    "hm_inv K (m\<lparr>hm_slots := Some (slots'[cur := empty_slot]), hm_size := hm_size m - 1\<rparr>)"
    "add_mset (ent (slots ! j)) (entries (slots'[cur := empty_slot])) = hm_entries m"
proof -
  note D = hm_invD [OF inv s]
  let ?c = "length slots"
  have room: "size (entries slots) < ?c" by (rule hm_inv_room [OF inv s])
  obtain e where e: "e < ?c" "\<not> occ (slots ! e)" by (rule exists_empty [OF room])
  have ej: "e \<noteq> j" using e j by auto
  have "\<exists>d. (j + Suc d) mod ?c = e"
  proof (cases "j < e")
    case True
    then have "(j + Suc (e - j - 1)) mod ?c = e" using e by simp
    then show ?thesis ..
  next
    case False
    then have "j + Suc (e + ?c - j - 1) = e + ?c" using j ej by simp
    moreover have "(e + ?c) mod ?c = e" using e by simp
    ultimately show ?thesis by metis
  qed
  then obtain d where d: "(j + Suc d) mod ?c = e" ..
  obtain slots' cur where r: "backward_shift slots (?c - 1) j = Some (slots', cur)"
    "length slots' = ?c" "cur < ?c" "rh_inv (slots'[cur := empty_slot])"
    "entries (slots'[cur := empty_slot]) = entries (slots[j := empty_slot])"
    using backward_shift_ok [OF hole_inv_start [OF D(7,1) j] D(1) j(1), of d] d e by blast
  let ?t = "slots'[cur := empty_slot]"
  have E: "add_mset (ent (slots ! j)) (entries ?t) = entries slots"
    unfolding r(5) by (rule entries_clear [OF j]) (simp add: empty_slot_free)
  have sub: "entries ?t \<subseteq># entries slots" unfolding E [symmetric] by simp
  have sz: "size (entries ?t) = hm_size m - 1" "hm_size m - 1 \<le> hm_max_load m"
    using D(5,6) arg_cong [OF E, of size] by simp_all
  have k: "keyed m K (entries ?t)" using D(8) sub unfolding keyed_def by (meson mset_subset_eqD)
  have "hm_inv K (m\<lparr>hm_slots := Some ?t, hm_size := hm_size m - 1\<rparr>)"
    using D r(2,4) sz k separated_sub [OF D(9) sub] unfolding hm_inv_def by simp
  with r(1) E D(3) s that show ?thesis by (simp add: hm_entries_def)
qed

definition remove_post :: "hkey set \<Rightarrow> 'v hashmap \<Rightarrow> hkey \<Rightarrow> 'v hashmap \<Rightarrow> bool" where
  "remove_post K m kl m' \<longleftrightarrow>
     hm_inv K m' \<and> same_funcs m' m \<and> hm_size m = Suc (hm_size m') \<and>
     (\<forall>kl'\<in>K. hm_find m' kl' = (if keq m kl' kl then Some None else hm_find m kl'))"

lemma remove_key_bound:
  assumes hk: "hash_key (khash m) (keq m) K" and inv: "hm_inv K m" and kl: "(k, l) \<in> K"
    and x: "x \<in># hm_entries m" "keq m (k, l) (slot_kl x)"
  obtains m' where "hashmap_remove_key m k l (slot_hash m k l) = Some (0, m')" "remove_post K m (k, l) m'"
proof -
  obtain slots j where s: "hm_slots m = Some slots" and j: "j < length slots" "occ (slots ! j)"
      "ent (slots ! j) = x" and f: "find_slot m k l (slot_hash m k l) = Some (Some j)"
    by (rule find_slot_bound [OF hk inv kl x])
  obtain slots' cur where r: "backward_shift slots (hm_mask m) j = Some (slots', cur)"
    "hm_inv K (m\<lparr>hm_slots := Some (slots'[cur := empty_slot]), hm_size := hm_size m - 1\<rparr>)"
    "add_mset (ent (slots ! j)) (entries (slots'[cur := empty_slot])) = hm_entries m"
    by (rule remove_slot_ok [OF inv s j(1,2)])
  let ?m' = "m\<lparr>hm_slots := Some (slots'[cur := empty_slot]), hm_size := hm_size m - 1\<rparr>"
  have E: "hm_entries m = add_mset x (hm_entries ?m')" using r(3) j(3) by (simp add: hm_entries_def)
  have sf: "same_funcs ?m' m" by (simp add: same_funcs_def)
  have hk': "hash_key (khash ?m') (keq ?m') K" using hk by simp
  have xK: "slot_kl x \<in> K" by (rule hm_entries_in_K [OF inv x(1)])
  have xk: "keq m (slot_kl x) (k, l)" by (rule hash_key.eq_sym [OF hk kl xK x(2)])
  have sep: "\<not> keq m (k, l) (slot_kl z)" if "z \<in># hm_entries ?m'" for z
  proof
    assume a: "keq m (k, l) (slot_kl z)"
    have zK: "slot_kl z \<in> K" by (rule hm_entries_in_K [OF r(2) that])
    have "{#x, z#} \<subseteq># hm_entries m" using that unfolding E by (simp add: single_subset_iff)
    with hm_inv_entries(3) [OF inv] have "\<not> keq m (slot_kl x) (slot_kl z)" by (rule separatedD)
    with hash_key.eq_trans [OF hk xK kl zK xk a] show False by simp
  qed
  have gone: "hm_find ?m' kl' = Some None" if "kl' \<in> K" "keq m kl' (k, l)" for kl'
  proof (rule hm_find_unbound [OF hk' r(2) that(1)])
    fix z assume z: "z \<in># hm_entries ?m'"
    have zK: "slot_kl z \<in> K" by (rule hm_entries_in_K [OF r(2) z])
    show "\<not> keq ?m' kl' (slot_kl z)"
      using hash_key.eq_join [OF hk kl zK that(1) that(2)] sep [OF z] by (auto simp del: prod.sel)
  qed
  have keep: "hm_find ?m' kl' = hm_find m kl'" if "kl' \<in> K" "\<not> keq m kl' (k, l)" for kl'
    by (rule hm_find_agree [OF hk inv r(2) sf that(1) kl that(2)]) (use xk in \<open>auto simp only: E insert_iff set_mset_add_mset_insert\<close>)
  have "hm_size m = Suc (hm_size ?m')"
    using hm_inv_entries(1) [OF inv] hm_inv_entries(1) [OF r(2)] arg_cong [OF E, of size] by simp
  then have "remove_post K m (k, l) ?m'" unfolding remove_post_def using r(2) sf gone keep by auto
  moreover have "hashmap_remove_key m k l (slot_hash m k l) = Some (0, ?m')"
    by (simp add: hashmap_remove_key_def f s r(1))
  ultimately show ?thesis using that by blast
qed

lemma remove_key_unbound:
  assumes hk: "hash_key (khash m) (keq m) K" and inv: "hm_inv K m" and kl: "(k, l) \<in> K"
    and none: "\<And>e. e \<in># hm_entries m \<Longrightarrow> \<not> keq m (k, l) (slot_kl e)"
  shows "hashmap_remove_key m k l (slot_hash m k l) = Some (-1, m)"
  by (simp add: hashmap_remove_key_def find_slot_unbound [OF hk inv kl none])

subsection \<open>Maps with the default string functions\<close>

lemma hash_string_cstr: "hash_string_loop h (cstr s) = hash_string_loop h s"
  by (induction h s rule: hash_string_loop.induct) (auto simp: cstr_def)

lemma hash_string_strcmp: "strcmp s t = 0 \<Longrightarrow> hash_string s = hash_string t"
  unfolding strcmp_eq_0_iff hash_string_def by (metis hash_string_cstr)

interpretation string_key: hash_key "\<lambda>kl. hash_string (fst kl)" "\<lambda>a b. strcmp (fst a) (fst b) = 0" UNIV
  by unfold_locales (erule hash_string_strcmp | simp add: strcmp_eq_0_iff)+

definition hm_ok :: "'v hashmap \<Rightarrow> bool" where
  "hm_ok m \<longleftrightarrow> hm_inv UNIV m \<and> hm_hash_func m = None \<and> hm_equal_func m = None"

definition hm_abs :: "'v hashmap \<Rightarrow> string \<Rightarrow> 'v option option" where
  "hm_abs m k =
     (if cstr k = k then case hm_find m (k, 0) of Some (Some e) \<Rightarrow> Some (sl_value e) | _ \<Rightarrow> None
      else None)"

lemma default_funcs:
  assumes "hm_hash_func m = None" "hm_equal_func m = None"
  shows "khash m kl = hash_string (fst kl)" "keq m kl kl' \<longleftrightarrow> cstr (fst kl) = cstr (fst kl')"
  using assms by (simp_all add: khash_def keq_def slot_hash_def strcmp_eq_0_iff)

lemma hm_ok_contract:
  assumes "hm_ok m"
  shows "hm_inv UNIV m" "hash_key (khash m) (keq m) UNIV"
proof -
  have d: "hm_hash_func m = None" "hm_equal_func m = None" using assms by (simp_all add: hm_ok_def)
  have "khash m = (\<lambda>kl. hash_string (fst kl))" "keq m = (\<lambda>a b. strcmp (fst a) (fst b) = 0)"
    by (auto simp: fun_eq_iff default_funcs [OF d] strcmp_eq_0_iff)
  then show "hash_key (khash m) (keq m) UNIV" using string_key.hash_key_axioms by simp
qed (use assms in \<open>simp add: hm_ok_def\<close>)

lemma hm_ok_keq: "hm_ok m \<Longrightarrow> keq m kl kl' \<longleftrightarrow> cstr (fst kl) = cstr (fst kl')"
  by (simp add: hm_ok_def default_funcs)

lemma hm_find_dest:
  assumes hk: "hash_key (khash m) (keq m) K" and inv: "hm_inv K m" and kl: "kl \<in> K"
  obtains (bound) e where "e \<in># hm_entries m" "keq m kl (slot_kl e)" "hm_find m kl = Some (Some e)"
  | (unbound) "\<And>e. e \<in># hm_entries m \<Longrightarrow> \<not> keq m kl (slot_kl e)" "hm_find m kl = Some None"
  using hm_find_bound [OF hk inv kl] hm_find_unbound [OF hk inv kl] by blast

lemma hm_find_canon:
  assumes ok: "hm_ok m"
  shows "hm_find m (k, l) = hm_find m (cstr k, l')"
proof (cases rule: hm_find_dest [OF hm_ok_contract(2) [OF ok] hm_ok_contract(1) [OF ok] UNIV_I, of "(k, l)"])
  case (1 e)
  then have "keq m (cstr k, l') (slot_kl e)" by (simp add: hm_ok_keq [OF ok] cstr_idem)
  with 1 show ?thesis using hm_find_bound [OF hm_ok_contract(2) [OF ok] hm_ok_contract(1) [OF ok] UNIV_I 1(1)] by simp
next
  case 2
  then have "\<not> keq m (cstr k, l') (slot_kl e)" if "e \<in># hm_entries m" for e
    using that by (simp add: hm_ok_keq [OF ok] cstr_idem)
  with 2 show ?thesis using hm_find_unbound [OF hm_ok_contract(2) [OF ok] hm_ok_contract(1) [OF ok] UNIV_I] by simp
qed

lemma hm_find_total:
  assumes "hm_ok m"
  obtains r where "hm_find m (k, l) = Some r" "hm_abs m (cstr k) = map_option sl_value r"
proof (cases rule: hm_find_dest [OF hm_ok_contract(2) [OF assms] hm_ok_contract(1) [OF assms] UNIV_I, of "(k, l)"])
  case (1 e)
  then show ?thesis using that [of "Some e"] hm_find_canon [OF assms, of k l 0] by (simp add: hm_abs_def cstr_idem)
next
  case 2
  then show ?thesis using that [of None] hm_find_canon [OF assms, of k l 0] by (simp add: hm_abs_def cstr_idem)
qed

lemma get_ext_abs:
  assumes "hm_ok m"
  shows "cobalt_hashmap_get_ext (Some m) (Some k) l = Some (case hm_abs m (cstr k) of None \<Rightarrow> None | Some v \<Rightarrow> v)"
proof -
  obtain r where "hm_find m (k, l) = Some r" "hm_abs m (cstr k) = map_option sl_value r"
    by (rule hm_find_total [OF assms])
  then show ?thesis by (auto simp: get_ext_find split: option.splits)
qed

lemma get_abs:
  assumes "hm_ok m"
  shows "cobalt_hashmap_get (Some m) (Some k) =
    Some (case hm_abs m (cstr k) of None \<Rightarrow> (None, Some COBALT_ERROR_NOT_FOUND) | Some v \<Rightarrow> (v, None))"
proof -
  obtain r where "hm_find m (k, strlen k) = Some r" "hm_abs m (cstr k) = map_option sl_value r"
    by (rule hm_find_total [OF assms])
  then show ?thesis by (auto simp: get_find split: option.splits)
qed

lemma put_post_abs:
  assumes ok: "hm_ok m" and post: "put_post UNIV m (k, l) v m'"
  shows "hm_ok m'" "hm_abs m' = (hm_abs m)(cstr k := Some v)"
proof -
  show ok': "hm_ok m'" using ok post by (simp add: put_post_def hm_ok_def same_funcs_def)
  have f: "if cstr k' = cstr k then \<exists>e. hm_find m' (k', 0) = Some (Some e) \<and> sl_value e = v
       else hm_find m' (k', 0) = hm_find m (k', 0)" for k'
    using post hm_ok_keq [OF ok, of "(k', 0)" "(k, l)"] by (simp add: put_post_def)
  show "hm_abs m' = (hm_abs m)(cstr k := Some v)"
  proof
    fix k'
    show "hm_abs m' k' = ((hm_abs m)(cstr k := Some v)) k'"
      using f [of k'] by (cases "cstr k' = cstr k") (auto simp: hm_abs_def)
  qed
qed

lemma remove_post_abs:
  assumes ok: "hm_ok m" and post: "remove_post UNIV m (k, l) m'"
  shows "hm_ok m'" "hm_abs m' = (hm_abs m)(cstr k := None)"
proof -
  show ok': "hm_ok m'" using ok post by (simp add: remove_post_def hm_ok_def same_funcs_def)
  have f: "hm_find m' (k', 0) = (if cstr k' = cstr k then Some None else hm_find m (k', 0))" for k'
    using post hm_ok_keq [OF ok, of "(k', 0)" "(k, l)"] by (simp add: remove_post_def)
  show "hm_abs m' = (hm_abs m)(cstr k := None)"
    by (rule ext) (auto simp: hm_abs_def f)
qed

lemma card_image_separated:
  assumes "\<And>a b. {#a, b#} \<subseteq># E \<Longrightarrow> f a \<noteq> f b"
  shows "card (f ` set_mset E) = size E"
  using assms
proof (induction E)
  case empty
  then show ?case by simp
next
  case (add x E)
  have "f x \<notin> f ` set_mset E"
  proof
    assume "f x \<in> f ` set_mset E"
    then obtain b where "b \<in># E" "f x = f b" by auto
    moreover have "{#x, b#} \<subseteq># add_mset x E" using \<open>b \<in># E\<close> by (simp add: single_subset_iff)
    ultimately show False using add.prems by blast
  qed
  moreover have "f a \<noteq> f b" if "{#a, b#} \<subseteq># E" for a b
    using subset_mset.order_trans [OF that, of "add_mset x E"] add.prems by simp
  ultimately show ?case using add.IH by simp
qed

lemma hm_abs_dom:
  assumes ok: "hm_ok m"
  shows "dom (hm_abs m) = (\<lambda>e. cstr (fst (slot_kl e))) ` set_mset (hm_entries m)"
proof (intro equalityI subsetI)
  note c = hm_ok_contract(2) [OF ok] hm_ok_contract(1) [OF ok]
  fix k assume "k \<in> dom (hm_abs m)"
  then obtain e where k: "cstr k = k" "hm_find m (k, 0) = Some (Some e)"
    by (auto simp: hm_abs_def split: if_splits option.splits)
  show "k \<in> (\<lambda>e. cstr (fst (slot_kl e))) ` set_mset (hm_entries m)"
  proof (cases rule: hm_find_dest [OF c UNIV_I, of "(k, 0)"])
    case (1 e)
    then show ?thesis using k(1) hm_ok_keq [OF ok] by (auto intro!: image_eqI [of _ _ e])
  qed (use k in simp)
next
  note c = hm_ok_contract(2) [OF ok] hm_ok_contract(1) [OF ok]
  fix k assume "k \<in> (\<lambda>e. cstr (fst (slot_kl e))) ` set_mset (hm_entries m)"
  then obtain e where e: "e \<in># hm_entries m" "k = cstr (fst (slot_kl e))" by auto
  then have "hm_find m (k, 0) = Some (Some e)"
    by (intro hm_find_bound [OF c UNIV_I]) (simp_all add: hm_ok_keq [OF ok])
  then show "k \<in> dom (hm_abs m)" using e by (simp add: hm_abs_def dom_def)
qed

lemma hm_size_card:
  assumes ok: "hm_ok m"
  shows "finite (dom (hm_abs m))" "hm_size m = card (dom (hm_abs m))"
proof -
  show "finite (dom (hm_abs m))" by (simp add: hm_abs_dom [OF ok])
  have "card ((\<lambda>e. cstr (fst (slot_kl e))) ` set_mset (hm_entries m)) = size (hm_entries m)"
    using hm_inv_entries(3) [OF hm_ok_contract(1) [OF ok]]
    by (intro card_image_separated) (simp add: separated_def hm_ok_keq [OF ok])
  then show "hm_size m = card (dom (hm_abs m))"
    using hm_inv_entries(1) [OF hm_ok_contract(1) [OF ok]] by (simp add: hm_abs_dom [OF ok])
qed

lemma hm_abs_empty: "hm_ok m \<Longrightarrow> hm_size m = 0 \<Longrightarrow> hm_abs m = (\<lambda>_. None)"
  using hm_size_card [of m] by auto

lemma clear_ok:
  assumes inv: "hm_inv K m"
  obtains m' where "hashmap_map_clear (Some m) = Some m'" "hm_inv K m'" "same_funcs m' m" "hm_size m' = 0"
proof (cases "hm_slots m")
  case None
  then show ?thesis using that [of m] inv by (simp add: hashmap_map_clear_def hm_inv_def same_funcs_def)
next
  case (Some slots)
  note D = hm_invD [OF inv Some]
  let ?m' = "m\<lparr>hm_slots := Some (init_slots (hm_capacity m)), hm_size := 0\<rparr>"
  have "hm_inv K ?m'"
    using D by (simp add: hm_inv_def entries_init length_init rh_inv_init keyed_def separated_def)
  then show ?thesis using that [of ?m'] by (simp add: hashmap_map_clear_def Some same_funcs_def)
qed

lemma put_ext_abs:
  assumes "hm_ok m" "hm_size m < 2 ^ 30"
  obtains m' where "cobalt_hashmap_put_ext True (Some m) (Some k) l v = Some (0, None, Some m')"
    "hm_ok m'" "hm_abs m' = (hm_abs m)(cstr k := Some v)"
proof -
  obtain m' where p: "cobalt_hashmap_put_ext True (Some m) (Some k) l v = Some (0, None, Some m')"
      "put_post UNIV m (k, l) v m'"
    by (rule put_ext_ok [OF hm_ok_contract(2) [OF assms(1)] hm_ok_contract(1) [OF assms(1)] UNIV_I assms(2)])
  with that put_post_abs [OF assms(1) p(2)] show ?thesis by blast
qed

lemma put_abs:
  assumes "hm_ok m" "hm_size m < 2 ^ 30" "cstr k = k"
  obtains m' where "cobalt_hashmap_put True True (Some m) (Some k) v = Some (0, None, Some m')"
    "hm_ok m'" "hm_abs m' = (hm_abs m)(k := Some v)"
proof -
  obtain m' where p: "cobalt_hashmap_put True True (Some m) (Some k) v = Some (0, None, Some m')"
      "put_post UNIV m (k, strlen k) v m'"
    by (rule put_ok [OF hm_ok_contract(2) [OF assms(1)] hm_ok_contract(1) [OF assms(1)] UNIV_I assms(2,3)])
  with that put_post_abs [OF assms(1) p(2)] assms(3) show ?thesis by simp
qed

lemma remove_key_abs:
  assumes ok: "hm_ok m"
  obtains (hit) m' where "hashmap_remove_key m k l (slot_hash m k l) = Some (0, m')"
      "hm_abs m (cstr k) \<noteq> None" "hm_ok m'" "hm_abs m' = (hm_abs m)(cstr k := None)"
  | (miss) "hashmap_remove_key m k l (slot_hash m k l) = Some (-1, m)" "hm_abs m (cstr k) = None"
proof -
  note c = hm_ok_contract(2) [OF ok] hm_ok_contract(1) [OF ok]
  obtain r where r: "hm_find m (k, l) = Some r" "hm_abs m (cstr k) = map_option sl_value r"
    by (rule hm_find_total [OF ok])
  show ?thesis
  proof (cases rule: hm_find_dest [OF c UNIV_I, of "(k, l)"])
    case (1 e)
    obtain m' where m': "hashmap_remove_key m k l (slot_hash m k l) = Some (0, m')" "remove_post UNIV m (k, l) m'"
      by (rule remove_key_bound [OF c UNIV_I 1(1,2)])
    show ?thesis using hit [OF m'(1) _ remove_post_abs [OF ok m'(2)]] r 1(3) by (metis option.distinct(1) option.inject option.simps(9))
  next
    case 2
    show ?thesis using miss [OF remove_key_unbound [OF c UNIV_I 2(1)]] r 2(2) by simp
  qed
qed

lemma clear_abs:
  assumes "hm_ok m"
  obtains m' where "hashmap_map_clear (Some m) = Some m'" "hm_ok m'" "hm_abs m' = (\<lambda>_. None)"
proof -
  obtain m' where m': "hashmap_map_clear (Some m) = Some m'" "hm_inv UNIV m'" "same_funcs m' m" "hm_size m' = 0"
    by (rule clear_ok [OF hm_ok_contract(1) [OF assms]])
  have "hm_ok m'" using m' assms by (simp add: hm_ok_def same_funcs_def)
  with m' that hm_abs_empty show ?thesis by blast
qed

lemmas hashmap_vtable_defs = hashmap_map_vtable_def cobalt_map_get_def cobalt_map_put_def
  cobalt_map_remove_def cobalt_map_contains_def cobalt_map_clear_def cobalt_map_size_def
  cobalt_map_is_empty_def hashmap_map_get_def hashmap_map_put_def hashmap_map_remove_def
  hashmap_map_contains_def hashmap_map_size_def hashmap_map_is_empty_def cobalt_hashmap_size_def

interpretation hashmap_obj: map_remover "hashmap_map_vtable True" hm_ok "2 ^ 30" cstr hm_abs
proof
  fix s :: "'a hashmap" and k l and v :: "'a option"
  assume ok: "hm_ok s"
  show "\<exists>e. cobalt_map_get (Some (hashmap_map_vtable True, s)) (Some k) l =
      Some (case hm_abs s (cstr k) of None \<Rightarrow> None | Some v \<Rightarrow> v, e)"
    by (simp add: hashmap_vtable_defs get_ext_abs [OF ok])
  show "cobalt_map_contains (Some (hashmap_map_vtable True, s)) (Some k) l = Some (hm_abs s (cstr k) \<noteq> None)"
    if "hm_abs s (cstr k) \<noteq> Some None"
    using that by (auto simp: hashmap_vtable_defs get_ext_abs [OF ok] split: option.splits)
  show "\<exists>e s'. cobalt_map_put (Some (hashmap_map_vtable True, s)) (Some k) l v =
        Some (0, e, Some (hashmap_map_vtable True, s')) \<and> hm_ok s' \<and> hm_abs s' = (hm_abs s)(cstr k := Some v)"
    if "cobalt_map_size (Some (hashmap_map_vtable True, s)) < 2 ^ 30"
  proof -
    have "hm_size s < 2 ^ 30" using that by (simp add: hashmap_vtable_defs)
    from put_ext_abs [OF ok this, of k l v] obtain m' where
      "cobalt_hashmap_put_ext True (Some s) (Some k) l v = Some (0, None, Some m')" "hm_ok m'"
      "hm_abs m' = (hm_abs s)(cstr k := Some v)" .
    then show ?thesis by (simp add: hashmap_vtable_defs)
  qed
  show "\<exists>e s'. cobalt_map_clear (Some (hashmap_map_vtable True, s)) = (e, Some (hashmap_map_vtable True, s')) \<and>
      hm_ok s' \<and> hm_abs s' = (\<lambda>_. None)"
  proof -
    from clear_abs [OF ok] obtain m' where "hashmap_map_clear (Some s) = Some m'" "hm_ok m'"
      "hm_abs m' = (\<lambda>_. None)" .
    then show ?thesis by (simp add: hashmap_vtable_defs)
  qed
  show "finite (dom (hm_abs s)) \<and> cobalt_map_size (Some (hashmap_map_vtable True, s)) = card (dom (hm_abs s))"
    using hm_size_card [OF ok] by (simp add: hashmap_vtable_defs)
  show "\<exists>e s'. cobalt_map_remove (Some (hashmap_map_vtable True, s)) (Some k) l =
        Some (0, e, Some (hashmap_map_vtable True, s')) \<and> hm_ok s' \<and> hm_abs s' = (hm_abs s)(cstr k := None)"
    if "hm_abs s (cstr k) \<noteq> None"
    using that by (cases rule: remove_key_abs [OF ok, of k l])
      (auto simp: hashmap_vtable_defs cobalt_hashmap_remove_ext_def)
  show "\<exists>e. cobalt_map_remove (Some (hashmap_map_vtable True, s)) (Some k) l =
        Some (-1, e, Some (hashmap_map_vtable True, s))"
    if "hm_abs s (cstr k) = None"
    using that by (cases rule: remove_key_abs [OF ok, of k l])
      (auto simp: hashmap_vtable_defs cobalt_hashmap_remove_ext_def)
next
  fix s :: "'a hashmap"
  show "cobalt_map_is_empty (Some (hashmap_map_vtable True, s)) \<longleftrightarrow>
      cobalt_map_size (Some (hashmap_map_vtable True, s)) = 0"
    by (simp add: hashmap_vtable_defs)
qed

lemma create_ok:
  assumes "n \<le> 2 ^ 31"
  obtains m where "cobalt_hashmap_create True True n = (None, Some m)" "hm_inv K m" "hm_size m = 0"
    "hm_hash_func m = None" "hm_equal_func m = None" "n \<le> hm_capacity m"
proof (cases "n = 0")
  case True
  then show ?thesis
    by (intro that [of "\<lparr>hm_slots = None, hm_capacity = 0, hm_mask = 0, hm_size = 0, hm_max_load = 0,
      hm_hash_func = None, hm_equal_func = None\<rparr>"])
      (simp_all add: cobalt_hashmap_create_def cobalt_hashmap_create_with_allocator_def hm_inv_def)
next
  case False
  obtain j where j: "unat (hashmap_next_pow2 (of_nat n)) = 2 ^ Suc j" "j < 31" "n \<le> 2 ^ Suc j"
  proof (cases "n \<le> 2")
    case True
    then have "n = 1 \<or> n = 2" using False by auto
    then have "unat (hashmap_next_pow2 (of_nat n)) = 2 ^ Suc 0"
      by (auto simp: hashmap_next_pow2_def Let_def)
    then show ?thesis using that [of 0] True by simp
  next
    case F: False
    have "\<exists>j. 2 ^ j < n \<and> n \<le> 2 ^ Suc j" using ex_power_ivl2 [of 2 n] F by simp
    then obtain j where j: "2 ^ j < n" "n \<le> 2 ^ Suc j" by blast
    have "(2::nat) ^ j < 2 ^ 31" using j(1) assms by linarith
    then have "j < 31" using power_less_imp_less_exp [of 2 j 31] by simp
    then show ?thesis using that [of j] hashmap_next_pow2_eq [OF j] j(2) by simp
  qed
  let ?c = "2 ^ Suc j :: nat"
  have cap: "cap_ok ?c" unfolding cap_ok_def using j(2) by (intro exI [of _ "Suc j"]) simp
  have sz: "szt (?c * 3) = ?c * 3"
    by (rule szt_small) (use cap_bound [OF cap] in simp)
  have "hm_inv K \<lparr>hm_slots = Some (init_slots ?c), hm_capacity = ?c, hm_mask = ?c - 1, hm_size = 0,
      hm_max_load = szt (?c * 3) div 4, hm_hash_func = None, hm_equal_func = None\<rparr>"
    unfolding sz hm_inv_def using cap by (simp add: rh_inv_init keyed_def separated_def del: power_Suc)
  then show ?thesis
    by (intro that [of "\<lparr>hm_slots = Some (init_slots ?c), hm_capacity = ?c, hm_mask = ?c - 1, hm_size = 0,
      hm_max_load = szt (?c * 3) div 4, hm_hash_func = None, hm_equal_func = None\<rparr>"])
      (use False j in \<open>simp_all add: cobalt_hashmap_create_def cobalt_hashmap_create_with_allocator_def Let_def del: power_Suc\<close>)
qed

subsection \<open>Iteration\<close>

definition slot_pair :: "'v hashmap_slot \<Rightarrow> 'v map_pair" where
  "slot_pair s = (sl_key s, sl_value s)"

lemma drain_from:
  assumes "hm_slots m = Some slots" "hm_capacity m = length slots" "length slots - i \<le> n"
  shows "map_drain n (Some (hashmap_map_iter_vtable, hashmap_iter_advance \<lparr>hi_impl = m, hi_slot_idx = i\<rparr>)) =
    Some (map slot_pair (filter (\<lambda>s. occ s) (drop i slots)))"
  using assms(3)
proof (induction "length slots - i" arbitrary: i n)
  case 0
  then show ?case
    using assms(1,2) by (subst hashmap_iter_advance.simps, cases n)
      (simp_all add: cobalt_map_iterator_has_next_def hashmap_map_iter_vtable_def hashmap_map_iter_has_next_def)
next
  case (Suc d)
  then have i: "i < length slots" "d = length slots - Suc i" by simp_all
  have dr: "drop i slots = slots ! i # drop (Suc i) slots" using i(1) by (simp add: Cons_nth_drop_Suc)
  show ?case
  proof (cases "occ (slots ! i)")
    case False
    have "length slots - Suc i \<le> n" using Suc.prems by simp
    from Suc.hyps(1) [OF i(2) this] False i(1) assms(1,2) show ?thesis
      unfolding dr by (subst hashmap_iter_advance.simps) simp
  next
    case True
    obtain n' where n: "n = Suc n'" "length slots - Suc i \<le> n'" using Suc.prems i by (cases n) simp_all
    have adv: "hashmap_iter_advance \<lparr>hi_impl = m, hi_slot_idx = i\<rparr> = \<lparr>hi_impl = m, hi_slot_idx = i\<rparr>"
      using True i(1) assms(1,2) by (subst hashmap_iter_advance.simps) simp
    show ?thesis
      using Suc.hyps(1) [OF i(2) n(2)] True i(1) assms(1,2) unfolding adv dr n(1)
      by (simp add: cobalt_map_iterator_has_next_def cobalt_map_iterator_next_def hashmap_map_iter_vtable_def
          hashmap_map_iter_has_next_def hashmap_map_iter_next_def slot_pair_def Let_def)
  qed
qed

lemma drain_all:
  assumes inv: "hm_inv K m" and n: "hm_capacity m \<le> n"
  obtains ps where "map_drain n (hashmap_map_iterator True True m) = Some ps"
    "mset ps = image_mset slot_pair (hm_entries m)"
proof (cases "hm_slots m")
  case None
  then have "hm_capacity m = 0" using inv by (simp add: hm_inv_def)
  then have "hashmap_iter_advance \<lparr>hi_impl = m, hi_slot_idx = 0\<rparr> = \<lparr>hi_impl = m, hi_slot_idx = 0\<rparr>"
    by (subst hashmap_iter_advance.simps) simp
  then have "map_drain n (hashmap_map_iterator True True m) = Some []"
    using None by (cases n) (simp_all add: hashmap_map_iterator_def cobalt_map_iterator_has_next_def
        hashmap_map_iter_vtable_def hashmap_map_iter_has_next_def)
  then show ?thesis using that None by (simp add: hm_entries_def)
next
  case (Some slots)
  note D = hm_invD [OF inv Some]
  have "map_drain n (hashmap_map_iterator True True m) = Some (map slot_pair (filter (\<lambda>s. occ s) slots))"
    using drain_from [OF Some D(2), of 0 n] n D(2) by (simp add: hashmap_map_iterator_def)
  moreover have "slot_pair (ent s) = slot_pair s" for s :: "'a hashmap_slot" by (simp add: slot_pair_def)
  then have "mset (map slot_pair (filter (\<lambda>s. occ s) slots)) = image_mset slot_pair (hm_entries m)"
    by (simp add: hm_entries_def Some entries_def multiset.map_comp o_def)
  ultimately show ?thesis using that by blast
qed

lemma drain_abs:
  assumes ok: "hm_ok m" and n: "hm_capacity m \<le> n"
  obtains ps where "map_drain n (hashmap_map_iterator True True m) = Some ps" "length ps = hm_size m"
    "\<And>c v. hm_abs m c = Some v \<longleftrightarrow> (\<exists>k. (Some k, v) \<in> set ps \<and> cstr k = c)"
proof -
  note c = hm_ok_contract(2) [OF ok] hm_ok_contract(1) [OF ok]
  obtain ps where ps: "map_drain n (hashmap_map_iterator True True m) = Some ps"
    "mset ps = image_mset slot_pair (hm_entries m)" by (rule drain_all [OF c(2) n])
  have len: "length ps = hm_size m"
    using arg_cong [OF ps(2), of size] hm_inv_entries(1) [OF c(2)] by simp
  have set: "set ps = slot_pair ` set_mset (hm_entries m)"
    using arg_cong [OF ps(2), of set_mset] by simp
  have key: "slot_pair e = (Some (fst (slot_kl e)), sl_value e)" if "e \<in># hm_entries m" for e
    using hm_inv_entries(2) [OF c(2)] that by (auto simp: keyed_def slot_pair_def slot_kl_def)
  have "hm_abs m x = Some v \<longleftrightarrow> (\<exists>e\<in>#hm_entries m. cstr (fst (slot_kl e)) = x \<and> sl_value e = v)" for x v
  proof
    assume "hm_abs m x = Some v"
    then obtain e where e: "cstr x = x" "hm_find m (x, 0) = Some (Some e)" "sl_value e = v"
      by (auto simp: hm_abs_def split: if_splits option.splits)
    show "\<exists>e\<in>#hm_entries m. cstr (fst (slot_kl e)) = x \<and> sl_value e = v"
    proof (cases rule: hm_find_dest [OF c UNIV_I, of "(x, 0)"])
      case (1 e')
      then show ?thesis using e hm_ok_keq [OF ok, of "(x, 0)" "slot_kl e'"] by (intro bexI [of _ e']) simp_all
    qed (use e in simp)
  next
    assume "\<exists>e\<in>#hm_entries m. cstr (fst (slot_kl e)) = x \<and> sl_value e = v"
    then obtain e where e: "e \<in># hm_entries m" "cstr (fst (slot_kl e)) = x" "sl_value e = v" by blast
    then have "hm_find m (x, 0) = Some (Some e)"
      by (intro hm_find_bound [OF c UNIV_I]) (auto simp: hm_ok_keq [OF ok])
    then show "hm_abs m x = Some v" using e by (auto simp: hm_abs_def)
  qed
  moreover have "(\<exists>k. (Some k, v) \<in> set ps \<and> cstr k = x) \<longleftrightarrow>
      (\<exists>e\<in>#hm_entries m. cstr (fst (slot_kl e)) = x \<and> sl_value e = v)" for x v
    unfolding set using key by (force simp: image_iff)
  ultimately show ?thesis using that ps(1) len by simp
qed

text \<open>Running out of memory.\<close>

lemma find_slot_new:
  assumes ok: "hm_ok m" and new: "hm_abs m (cstr k) = None"
  shows "find_slot m k l (slot_hash m k l) = Some None"
proof -
  note c = hm_ok_contract(2) [OF ok] hm_ok_contract(1) [OF ok]
  obtain r where r: "hm_find m (k, l) = Some r" "hm_abs m (cstr k) = map_option sl_value r"
    by (rule hm_find_total [OF ok])
  show ?thesis
  proof (cases rule: hm_find_dest [OF c UNIV_I, of "(k, l)"])
    case (1 e)
    then show ?thesis using r new by auto
  next
    case 2
    then show ?thesis by (intro find_slot_unbound [OF c UNIV_I])
  qed
qed

lemma put_oom_slots:
  assumes ok: "hm_ok m" and sz: "hm_size m < 2 ^ 30" and new: "hm_abs m (cstr k) = None"
    and full: "hm_capacity m = 0 \<or> hm_max_load m \<le> hm_size m"
  shows "cobalt_hashmap_put False ak (Some m) (Some k) v = Some (-1, Some COBALT_ERROR_OUT_OF_MEMORY, Some m)"
proof -
  note c = hm_ok_contract(2) [OF ok] hm_ok_contract(1) [OF ok]
  have "find_slot m k (strlen k) (slot_hash m k (strlen k)) = Some None" by (rule find_slot_new [OF ok new])
  then show ?thesis
    using ensure_capacity_grow(1) [OF c(2) grow_cap [OF c(2) sz full]] full
    by (auto simp: cobalt_hashmap_put_def Let_def)
qed

lemma put_oom_key:
  assumes ok: "hm_ok m" and sz: "hm_size m < 2 ^ 30" and new: "hm_abs m (cstr k) = None"
  obtains m' where "cobalt_hashmap_put True False (Some m) (Some k) v = Some (-1, Some COBALT_ERROR_OUT_OF_MEMORY, Some m')"
    "hm_ok m'" "hm_abs m' = hm_abs m"
proof -
  note c = hm_ok_contract(2) [OF ok] hm_ok_contract(1) [OF ok]
  note f = find_slot_new [OF ok new, of "strlen k"]
  obtain m1 slots where g:
    "(if hm_capacity m = 0 \<or> hm_max_load m \<le> hm_size m
      then hashmap_ensure_capacity True m (if hm_capacity m = 0 then 16 else szt (2 * hm_capacity m))
      else Some (0, None, m)) = Some (0, None, m1)" and
    m1: "hm_inv UNIV m1" "hm_entries m1 = hm_entries m" "same_funcs m1 m"
    by (rule grow_step [OF c(2) sz])
  have ok1: "hm_ok m1" using ok m1(1,3) by (simp add: hm_ok_def same_funcs_def)
  have hk1: "hash_key (khash m1) (keq m1) UNIV" by (rule hm_ok_contract(2) [OF ok1])
  have "hm_find m1 kl = hm_find m kl" for kl
  proof (cases rule: hm_find_dest [OF c UNIV_I, of kl])
    case (1 e)
    then show ?thesis
      using hm_find_bound [OF hk1 m1(1) UNIV_I, of e kl] m1(2) same_funcs_simps(2) [OF m1(3)] by simp
  next
    case 2
    then show ?thesis
      using hm_find_unbound [OF hk1 m1(1) UNIV_I, of kl] m1(2) same_funcs_simps(2) [OF m1(3)] by simp
  qed
  then have "hm_abs m1 = hm_abs m" by (simp add: hm_abs_def fun_eq_iff)
  with that ok1 f g show ?thesis by (simp add: cobalt_hashmap_put_def Let_def)
qed

subsection \<open>Properties\<close>

text \<open>
  C1: every program of insertions, removals and clears, run through the map interface on a freshly
  created hash map whose allocations succeed, ends (no probe loops for ever), and afterwards every
  lookup answers what the same program computes on a partial function from C strings to values.
\<close>

theorem hashmap_program_refines:
  fixes cs :: "'v map_op list"
  assumes "n \<le> 2 ^ 31" "length cs \<le> 2 ^ 30"
  shows "\<exists>m m'. cobalt_hashmap_create True True n = (None, Some m) \<and>
    map_exec (hashmap_map_vtable True) cs m = Some m' \<and>
    (\<forall>k l. cobalt_map_get (Some (hashmap_map_vtable True, m')) (Some k) l =
       Some (case map_spec cstr cs (\<lambda>_. None) (cstr k) of None \<Rightarrow> None | Some v \<Rightarrow> v, None)) \<and>
    cobalt_hashmap_size (Some m') = card (dom (map_spec cstr cs (\<lambda>_. None)))"
proof -
  obtain m :: "'v hashmap" where m: "cobalt_hashmap_create True True n = (None, Some m)" "hm_inv UNIV m" "hm_size m = 0"
    "hm_hash_func m = None" "hm_equal_func m = None" by (rule create_ok [OF assms(1)])
  then have ok: "hm_ok m" by (simp add: hm_ok_def)
  have "cobalt_map_size (Some (hashmap_map_vtable True, m)) + length cs \<le> 2 ^ 30"
    using m(3) assms(2) by (simp add: hashmap_vtable_defs)
  from hashmap_obj.exec_refines [OF ok this] obtain m' where
    m': "map_exec (hashmap_map_vtable True) cs m = Some m'" "hm_ok m'"
      "hm_abs m' = map_spec cstr cs (\<lambda>_. None)"
    using hm_abs_empty [OF ok m(3)] by auto
  then show ?thesis
    using m(1) get_ext_abs [OF m'(2)] hm_size_card(2) [OF m'(2)]
    by (simp add: hashmap_vtable_defs)
qed

text \<open>
  C20: \<open>cobalt_hashmap_put\<close> of a C string into a map with the default functions succeeds when memory
  suffices; afterwards \<open>cobalt_hashmap_get\<close> finds the value under that key and every other key is
  as before, with the not-found error where it was.
\<close>

theorem hashmap_put_get:
  assumes "hm_ok m" "hm_size m < 2 ^ 30" "NUL \<notin> set k"
  shows "\<exists>m'. cobalt_hashmap_put True True (Some m) (Some k) v = Some (0, None, Some m') \<and> hm_ok m' \<and>
    (\<forall>k'. cobalt_hashmap_get (Some m') (Some k') =
      (if cstr k' = k then Some (v, None) else cobalt_hashmap_get (Some m) (Some k')))"
proof -
  have "cstr k = k" using assms(3) unfolding cstr_def by (auto simp: takeWhile_eq_all_conv)
  from put_abs [OF assms(1,2) this, of v] obtain m' where
    m': "cobalt_hashmap_put True True (Some m) (Some k) v = Some (0, None, Some m')"
      "hm_ok m'" "hm_abs m' = (hm_abs m)(k := Some v)" .
  then show ?thesis by (simp add: get_abs [OF assms(1)] get_abs [OF m'(2)])
qed

abbreviation hm_none :: "'v hashmap" where
  "hm_none \<equiv> \<lparr>hm_slots = None, hm_capacity = 0, hm_mask = 0, hm_size = 0, hm_max_load = 0,
     hm_hash_func = None, hm_equal_func = None\<rparr>"

lemma hm_none_ok: "hm_ok hm_none"
  by (simp add: hm_ok_def hm_inv_def)

lemma hm_none_abs: "hm_abs hm_none k = None"
  by (simp add: hm_abs_empty [OF hm_none_ok])

theorem hashmap_put_get_witness:
  "\<exists>m'. cobalt_hashmap_put True True (Some hm_none) (Some ''key'') (Some (7::nat)) = Some (0, None, Some m') \<and>
     cobalt_hashmap_get (Some m') (Some ''key'') = Some (Some 7, None)"
  using hashmap_put_get [of hm_none "''key''" "Some (7::nat)", OF hm_none_ok] by force

text \<open>
  C21: with user-supplied hash and equality callbacks that form an equivalence compatible with the
  hash on a set of keys, \<open>cobalt_hashmap_put_ext\<close> succeeds when memory suffices, keeps the map
  invariant and the callbacks, and changes the lookups of exactly the keys equal to the new one.
\<close>

theorem hashmap_put_ext_get_ext:
  assumes "hash_key (khash m) (keq m) K" "hm_inv K m" "(k, l) \<in> K" "hm_size m < 2 ^ 30"
  shows "\<exists>m'. cobalt_hashmap_put_ext True (Some m) (Some k) l v = Some (0, None, Some m') \<and>
    hm_inv K m' \<and> same_funcs m' m \<and>
    (\<forall>k' l'. (k', l') \<in> K \<longrightarrow> cobalt_hashmap_get_ext (Some m') (Some k') l' =
      (if keq m (k', l') (k, l) then Some v else cobalt_hashmap_get_ext (Some m) (Some k') l'))"
proof -
  obtain m' where m': "cobalt_hashmap_put_ext True (Some m) (Some k) l v = Some (0, None, Some m')"
    "put_post K m (k, l) v m'" by (rule put_ext_ok [OF assms])
  have "cobalt_hashmap_get_ext (Some m') (Some k') l' =
      (if keq m (k', l') (k, l) then Some v else cobalt_hashmap_get_ext (Some m) (Some k') l')"
    if "(k', l') \<in> K" for k' l'
    using m'(2) that unfolding put_post_def get_ext_find
    by (cases "keq m (k', l') (k, l)") (fastforce, simp)
  with m' show ?thesis by (auto simp: put_post_def)
qed

text \<open>Keys of one byte, told apart by that byte modulo 16 only.\<close>

definition byte_hash :: "string \<Rightarrow> nat \<Rightarrow> u32" where
  "byte_hash k l = of_nat (of_char (hd k) mod 16)"

definition byte_equal :: "string \<Rightarrow> string \<Rightarrow> nat \<Rightarrow> int" where
  "byte_equal a b l = (if (of_char (hd a) :: nat) mod 16 = of_char (hd b) mod 16 then 1 else 0)"

theorem hashmap_put_ext_get_ext_witness:
  "\<exists>m'. cobalt_hashmap_put_ext True
      (Some (hm_none\<lparr>hm_hash_func := Some byte_hash, hm_equal_func := Some byte_equal\<rparr>))
      (Some ''A'') 1 (Some (7::nat)) = Some (0, None, Some m') \<and>
    cobalt_hashmap_get_ext (Some m') (Some ''Q'') 1 = Some (Some 7) \<and>
    cobalt_hashmap_get_ext (Some m') (Some ''B'') 1 = Some None"
proof -
  let ?m = "hm_none\<lparr>hm_hash_func := Some byte_hash, hm_equal_func := Some byte_equal\<rparr> :: nat hashmap"
  have hk: "hash_key (khash ?m) (keq ?m) UNIV"
    by unfold_locales (auto simp: khash_def keq_def slot_hash_def byte_hash_def byte_equal_def split: if_splits)
  have inv: "hm_inv UNIV ?m" by (simp add: hm_inv_def)
  have q: "keq ?m (''Q'', 1) (''A'', 1)" "\<not> keq ?m (''B'', 1) (''A'', 1)"
    by (simp_all add: keq_def byte_equal_def)
  have b: "cobalt_hashmap_get_ext (Some ?m) (Some ''B'') 1 = Some None"
    by (simp add: cobalt_hashmap_get_ext_def find_slot_def)
  show ?thesis
    using hashmap_put_ext_get_ext [OF hk inv UNIV_I, of "''A''" 1 "Some 7"] q b by force
qed

theorem hashmap_program_refines_witness:
  "\<exists>m m'. cobalt_hashmap_create True True 16 = (None, Some m) \<and>
     map_exec (hashmap_map_vtable True)
       [Put ''a'' 1 (Some (1::nat)), Put ''b'' 1 (Some 2), Put ''a'' 1 (Some 3), Remove ''b'' 1] m = Some m' \<and>
     cobalt_map_get (Some (hashmap_map_vtable True, m')) (Some ''a'') 1 = Some (Some 3, None) \<and>
     cobalt_map_get (Some (hashmap_map_vtable True, m')) (Some ''b'') 1 = Some (None, None)"
  using hashmap_program_refines [of 16 "[Put ''a'' 1 (Some (1::nat)), Put ''b'' 1 (Some 2), Put ''a'' 1 (Some 3), Remove ''b'' 1]"]
  by force

text \<open>
  C22: \<open>cobalt_hashmap_remove\<close> of a bound key succeeds and unbinds exactly that key, keeping the
  invariant through the backward shift; of an unbound key it fails with the not-found error and
  leaves the map as it is.
\<close>

theorem hashmap_remove_get:
  assumes "hm_ok m"
  shows "\<exists>r e m'. cobalt_hashmap_remove (Some m) (Some k) = Some (r, e, Some m') \<and> hm_ok m' \<and>
    (if cobalt_hashmap_get (Some m) (Some k) = Some (None, Some COBALT_ERROR_NOT_FOUND)
     then r = -1 \<and> e = Some COBALT_ERROR_NOT_FOUND \<and> m' = m
     else r = 0 \<and> e = None \<and> hm_size m = Suc (hm_size m') \<and>
       (\<forall>k'. cobalt_hashmap_get (Some m') (Some k') =
          (if cstr k' = cstr k then Some (None, Some COBALT_ERROR_NOT_FOUND)
           else cobalt_hashmap_get (Some m) (Some k'))))"
proof (cases rule: remove_key_abs [OF assms, of k "strlen k"])
  case (1 m')
  have ne: "cobalt_hashmap_get (Some m) (Some k) \<noteq> Some (None, Some COBALT_ERROR_NOT_FOUND)"
    using 1(2) by (auto simp: get_abs [OF assms] split: option.splits)
  have "dom (hm_abs m) = insert (cstr k) (dom (hm_abs m'))" "cstr k \<notin> dom (hm_abs m')"
    using 1(2,4) by auto
  then have "hm_size m = Suc (hm_size m')"
    using hm_size_card [OF assms] hm_size_card [OF 1(3)] by simp
  with ne 1 show ?thesis
    by (simp add: cobalt_hashmap_remove_def Let_def get_abs [OF assms] get_abs [OF 1(3)])
next
  case 2
  then show ?thesis using assms by (simp add: cobalt_hashmap_remove_def Let_def get_abs [OF assms])
qed

theorem hashmap_remove_get_witness:
  "\<exists>m m'. cobalt_hashmap_put True True (Some hm_none) (Some ''x'') (Some (1::nat)) = Some (0, None, Some m) \<and>
     cobalt_hashmap_remove (Some m) (Some ''x'') = Some (0, None, Some m') \<and>
     cobalt_hashmap_get (Some m') (Some ''x'') = Some (None, Some COBALT_ERROR_NOT_FOUND)"
proof -
  from put_abs [OF hm_none_ok, of "''x''" "Some (1::nat)"] obtain m where
    m: "cobalt_hashmap_put True True (Some hm_none) (Some ''x'') (Some (1::nat)) = Some (0, None, Some m)"
      "hm_ok m" "hm_abs m = (hm_abs hm_none)(''x'' := Some (Some 1))" by auto
  have "cobalt_hashmap_get (Some m) (Some ''x'') = Some (Some 1, None)" by (simp add: get_abs [OF m(2)] m(3))
  with hashmap_remove_get [OF m(2), of "''x''"] m(1) show ?thesis by auto
qed

text \<open>
  C23: an insertion of a new key that runs out of memory reports it and loses nothing: when the slot
  array cannot be allocated the map is untouched, and when the key copy cannot be allocated the map
  may have grown but answers every lookup as before.
\<close>

theorem hashmap_put_out_of_memory:
  assumes "hm_ok m" "hm_size m < 2 ^ 30"
    "cobalt_hashmap_get (Some m) (Some k) = Some (None, Some COBALT_ERROR_NOT_FOUND)"
  shows "(hm_capacity m = 0 \<or> hm_max_load m \<le> hm_size m \<longrightarrow>
      cobalt_hashmap_put False ak (Some m) (Some k) v = Some (-1, Some COBALT_ERROR_OUT_OF_MEMORY, Some m)) \<and>
    (\<exists>m'. cobalt_hashmap_put True False (Some m) (Some k) v =
        Some (-1, Some COBALT_ERROR_OUT_OF_MEMORY, Some m') \<and> hm_ok m' \<and>
      (\<forall>k'. cobalt_hashmap_get (Some m') (Some k') = cobalt_hashmap_get (Some m) (Some k')))"
proof -
  have new: "hm_abs m (cstr k) = None"
    using assms(3) by (auto simp: get_abs [OF assms(1)] split: option.splits)
  from put_oom_key [OF assms(1,2) new, of v] obtain m' where
    m': "cobalt_hashmap_put True False (Some m) (Some k) v = Some (-1, Some COBALT_ERROR_OUT_OF_MEMORY, Some m')"
      "hm_ok m'" "hm_abs m' = hm_abs m" .
  then show ?thesis
    using put_oom_slots [OF assms(1,2) new] by (simp add: get_abs [OF assms(1)] get_abs [OF m'(2)])
qed

theorem hashmap_put_out_of_memory_witness:
  "cobalt_hashmap_put False True (Some hm_none) (Some ''x'') (Some (1::nat)) =
     Some (-1, Some COBALT_ERROR_OUT_OF_MEMORY, Some hm_none)"
  using hashmap_put_out_of_memory [OF hm_none_ok, of "''x''" True "Some (1::nat)"]
  by (simp add: get_abs [OF hm_none_ok] hm_none_abs)

text \<open>
  C24: draining the iterator of a hash map visits every binding exactly once: it stops after as many
  pairs as the map has entries, and a key is bound to a value exactly when the pair is visited.
\<close>

theorem hashmap_iterator_complete:
  assumes "hm_ok m" "hm_capacity m \<le> n"
  shows "\<exists>ps. map_drain n (cobalt_hashmap_iterator_create True True (Some m)) = Some ps \<and>
    length ps = cobalt_hashmap_size (Some m) \<and>
    (\<forall>k v. cobalt_hashmap_get (Some m) (Some k) = Some (v, None) \<longleftrightarrow>
       (\<exists>k'. (Some k', v) \<in> set ps \<and> cstr k' = cstr k))"
proof -
  from drain_abs [OF assms] obtain ps where
    ps: "map_drain n (hashmap_map_iterator True True m) = Some ps" "length ps = hm_size m"
      "\<And>c v. hm_abs m c = Some v \<longleftrightarrow> (\<exists>k. (Some k, v) \<in> set ps \<and> cstr k = c)" by blast
  have "cobalt_hashmap_get (Some m) (Some k) = Some (v, None) \<longleftrightarrow> hm_abs m (cstr k) = Some v" for k v
    by (auto simp: get_abs [OF assms(1)] split: option.splits)
  with ps show ?thesis by (simp add: cobalt_hashmap_iterator_create_def cobalt_hashmap_size_def)
qed

theorem hashmap_iterator_complete_witness:
  "map_drain 0 (cobalt_hashmap_iterator_create True True (Some (hm_none :: nat hashmap))) = Some []"
  using hashmap_iterator_complete [OF hm_none_ok, of 0] by (auto simp: cobalt_hashmap_size_def split: if_splits)

text \<open>
  C25: the rounding of a requested capacity: up to half the range, the result is the power of two at
  least 2 that is not below the request and less than twice it.
\<close>

theorem hashmap_next_pow2_correct:
  assumes "2 \<le> n" "n \<le> 2 ^ 63"
  shows "\<exists>j. unat (hashmap_next_pow2 (of_nat n)) = 2 ^ j \<and> n \<le> 2 ^ j \<and> 2 ^ j < 2 * n"
proof -
  obtain j where j: "2 ^ j < n" "n \<le> 2 ^ Suc j" using ex_power_ivl2 [of 2 n] assms(1) by auto
  have "(2::nat) ^ j < 2 ^ 63" using j(1) assms(2) by linarith
  then have "j < 63" using power_less_imp_less_exp [of 2 j 63] by simp
  with hashmap_next_pow2_eq [OF j] j show ?thesis by (intro exI [of _ "Suc j"]) simp
qed

theorem hashmap_next_pow2_correct_witness:
  "\<exists>j. unat (hashmap_next_pow2 (of_nat 100)) = 2 ^ j \<and> 100 \<le> (2::nat) ^ j \<and> (2::nat) ^ j < 2 * 100"
  using hashmap_next_pow2_correct [of 100] by simp

end
