(* ===== verification/Cobalt_Set.thy ===== *)
theory Cobalt_Set
  imports Cobalt_HashMap_Spec
begin

section \<open>Set: a client of the hash map\<close>

text \<open>
  \<open>src/container/set.c\<close>. A set owns a hash map; the string operations store the element pointer as
  the value of its own key, the map-interface insertion stores the address of \<open>set_sentinel\<close>. The
  backing map is a pointer, NULL after a clear that ran out of memory. The lemmas show that a set
  with the default functions is the finite set of the C strings inserted and not removed.
\<close>

datatype set_value = SetSentinel | SetItem string

record cobalt_set =
  set_map :: "set_value hashmap option"

type_synonym set_result = "(int \<times> cobalt_error option \<times> cobalt_set option) option"

subsection \<open>Public operations\<close>

definition cobalt_set_create_with_allocator ::
    "bool \<Rightarrow> bool \<Rightarrow> bool \<Rightarrow> nat \<Rightarrow> bool \<Rightarrow> cobalt_error option \<times> cobalt_set option" where
  "cobalt_set_create_with_allocator alloc_set alloc_map alloc_slots initial_capacity alloc_null =
     (if alloc_null then (None, None)
      else if \<not> alloc_set then (Some COBALT_ERROR_OUT_OF_MEMORY, None)
      else
        (case cobalt_hashmap_create_with_allocator alloc_map alloc_slots initial_capacity alloc_null of
           (e, None) \<Rightarrow> (e, None)
         | (e, Some m) \<Rightarrow> (e, Some \<lparr>set_map = Some m\<rparr>)))"

definition cobalt_set_create ::
    "bool \<Rightarrow> bool \<Rightarrow> bool \<Rightarrow> nat \<Rightarrow> cobalt_error option \<times> cobalt_set option" where
  "cobalt_set_create alloc_set alloc_map alloc_slots initial_capacity =
     cobalt_set_create_with_allocator alloc_set alloc_map alloc_slots initial_capacity False"

definition cobalt_set_create_ext_with_allocator ::
    "bool \<Rightarrow> bool \<Rightarrow> bool \<Rightarrow> nat \<Rightarrow> (string \<Rightarrow> nat \<Rightarrow> u32) option \<Rightarrow>
     (string \<Rightarrow> string \<Rightarrow> nat \<Rightarrow> int) option \<Rightarrow> bool \<Rightarrow> cobalt_error option \<times> cobalt_set option" where
  "cobalt_set_create_ext_with_allocator alloc_set alloc_map alloc_slots initial_capacity hash_func equal_func alloc_null =
     (if alloc_null then (None, None)
      else if \<not> alloc_set then (Some COBALT_ERROR_OUT_OF_MEMORY, None)
      else
        (case cobalt_hashmap_create_ext alloc_map alloc_slots initial_capacity hash_func equal_func of
           (e, None) \<Rightarrow> (e, None)
         | (e, Some m) \<Rightarrow> (e, Some \<lparr>set_map = Some m\<rparr>)))"

definition cobalt_set_create_ext ::
    "bool \<Rightarrow> bool \<Rightarrow> bool \<Rightarrow> nat \<Rightarrow> (string \<Rightarrow> nat \<Rightarrow> u32) option \<Rightarrow>
     (string \<Rightarrow> string \<Rightarrow> nat \<Rightarrow> int) option \<Rightarrow> cobalt_error option \<times> cobalt_set option" where
  "cobalt_set_create_ext alloc_set alloc_map alloc_slots initial_capacity hash_func equal_func =
     cobalt_set_create_ext_with_allocator alloc_set alloc_map alloc_slots initial_capacity hash_func equal_func False"

definition cobalt_set_insert ::
    "bool \<Rightarrow> bool \<Rightarrow> cobalt_set option \<Rightarrow> string option \<Rightarrow> set_result" where
  "cobalt_set_insert alloc_slots alloc_key st item =
     (case (st, item) of
        (Some s, Some i) \<Rightarrow>
          cobalt_hashmap_put alloc_slots alloc_key (set_map s) (Some i) (Some (SetItem i)) \<bind>
          (\<lambda>(r, e, m). Some (if r = 0 then 0 else -1, e, Some (s\<lparr>set_map := m\<rparr>)))
      | _ \<Rightarrow> Some (-1, None, st))"

definition cobalt_set_insert_ext ::
    "bool \<Rightarrow> cobalt_set option \<Rightarrow> string option \<Rightarrow> nat \<Rightarrow> set_result" where
  "cobalt_set_insert_ext alloc_slots st item item_len =
     (case (st, item) of
        (Some s, Some i) \<Rightarrow>
          cobalt_hashmap_put_ext alloc_slots (set_map s) (Some i) item_len (Some (SetItem i)) \<bind>
          (\<lambda>(r, e, m). Some (if r = 0 then 0 else -1, e, Some (s\<lparr>set_map := m\<rparr>)))
      | _ \<Rightarrow> Some (-1, None, st))"

definition cobalt_set_remove :: "cobalt_set option \<Rightarrow> string option \<Rightarrow> set_result" where
  "cobalt_set_remove st item =
     (case (st, item) of
        (Some s, Some i) \<Rightarrow>
          cobalt_hashmap_remove (set_map s) (Some i) \<bind>
          (\<lambda>(r, e, m). Some (if r = 0 then 0 else -1, e, Some (s\<lparr>set_map := m\<rparr>)))
      | _ \<Rightarrow> Some (-1, None, st))"

definition cobalt_set_remove_ext :: "cobalt_set option \<Rightarrow> string option \<Rightarrow> nat \<Rightarrow> set_result" where
  "cobalt_set_remove_ext st item item_len =
     (case (st, item) of
        (Some s, Some i) \<Rightarrow>
          cobalt_hashmap_remove_ext (set_map s) (Some i) item_len \<bind>
          (\<lambda>(r, m). Some (if r = 0 then 0 else -1, None, Some (s\<lparr>set_map := m\<rparr>)))
      | _ \<Rightarrow> Some (-1, None, st))"

definition cobalt_set_contains :: "cobalt_set option \<Rightarrow> string option \<Rightarrow> bool option" where
  "cobalt_set_contains st item =
     (case (st, item) of
        (Some s, Some i) \<Rightarrow> cobalt_hashmap_get (set_map s) (Some i) \<bind> (\<lambda>(v, e). Some (v \<noteq> None))
      | _ \<Rightarrow> Some False)"

definition cobalt_set_contains_ext :: "cobalt_set option \<Rightarrow> string option \<Rightarrow> nat \<Rightarrow> bool option" where
  "cobalt_set_contains_ext st item item_len =
     (case (st, item) of
        (Some s, Some i) \<Rightarrow> cobalt_hashmap_get_ext (set_map s) (Some i) item_len \<bind> (\<lambda>v. Some (v \<noteq> None))
      | _ \<Rightarrow> Some False)"

definition cobalt_set_size :: "cobalt_set option \<Rightarrow> nat" where
  "cobalt_set_size st = (case st of None \<Rightarrow> 0 | Some s \<Rightarrow> cobalt_hashmap_size (set_map s))"

definition cobalt_set_is_empty :: "cobalt_set option \<Rightarrow> bool" where
  "cobalt_set_is_empty st \<longleftrightarrow> (case st of None \<Rightarrow> True | Some s \<Rightarrow> cobalt_hashmap_size (set_map s) = 0)"

definition cobalt_set_get ::
    "cobalt_set option \<Rightarrow> string option \<Rightarrow> (set_value option \<times> cobalt_error option) option" where
  "cobalt_set_get st item =
     (case (st, item) of
        (Some s, Some i) \<Rightarrow> cobalt_hashmap_get (set_map s) (Some i)
      | _ \<Rightarrow> Some (None, None))"

definition cobalt_set_iterator_create ::
    "bool \<Rightarrow> bool \<Rightarrow> cobalt_set option \<Rightarrow> (set_value hashmap_map_iter, set_value) map_iter" where
  "cobalt_set_iterator_create alloc_state alloc_iter st =
     (case st of None \<Rightarrow> None
      | Some s \<Rightarrow> cobalt_hashmap_iterator_create alloc_state alloc_iter (set_map s))"

subsection \<open>The map interface of a set\<close>

definition set_map_get ::
    "cobalt_set \<Rightarrow> string option \<Rightarrow> nat \<Rightarrow> (set_value option \<times> cobalt_error option) option" where
  "set_map_get self key key_len =
     cobalt_hashmap_get_ext (set_map self) key key_len \<bind>
     (\<lambda>v. Some (if v \<noteq> None then Some SetSentinel else None, None))"

definition set_map_put ::
    "bool \<Rightarrow> cobalt_set \<Rightarrow> string option \<Rightarrow> nat \<Rightarrow> set_value option \<Rightarrow> cobalt_set map_result" where
  "set_map_put alloc_slots self key key_len value =
     cobalt_hashmap_put_ext alloc_slots (set_map self) key key_len (Some SetSentinel) \<bind>
     (\<lambda>(r, e, m). Some (if r = 0 then 0 else -1, e, self\<lparr>set_map := m\<rparr>))"

definition set_map_remove :: "cobalt_set \<Rightarrow> string option \<Rightarrow> nat \<Rightarrow> cobalt_set map_result" where
  "set_map_remove self key key_len =
     cobalt_hashmap_remove_ext (set_map self) key key_len \<bind>
     (\<lambda>(r, m). Some (r, None, self\<lparr>set_map := m\<rparr>))"

definition set_map_contains :: "cobalt_set \<Rightarrow> string option \<Rightarrow> nat \<Rightarrow> bool option" where
  "set_map_contains self key key_len =
     cobalt_hashmap_get_ext (set_map self) key key_len \<bind> (\<lambda>v. Some (v \<noteq> None))"

definition set_map_clear :: "bool \<Rightarrow> bool \<Rightarrow> cobalt_set \<Rightarrow> cobalt_error option \<times> cobalt_set" where
  "set_map_clear alloc_map alloc_slots self =
     (case cobalt_hashmap_create_with_allocator alloc_map alloc_slots 0 False of
        (e, None) \<Rightarrow> (Some COBALT_ERROR_OUT_OF_MEMORY, self\<lparr>set_map := None\<rparr>)
      | (e, Some m) \<Rightarrow> (e, self\<lparr>set_map := Some m\<rparr>))"

definition set_map_size :: "cobalt_set \<Rightarrow> nat" where
  "set_map_size self = cobalt_hashmap_size (set_map self)"

definition set_map_is_empty :: "cobalt_set \<Rightarrow> bool" where
  "set_map_is_empty self \<longleftrightarrow> cobalt_hashmap_size (set_map self) = 0"

definition set_map_vtable :: "bool \<Rightarrow> bool \<Rightarrow> (cobalt_set, set_value) cobalt_map" where
  "set_map_vtable alloc_slots alloc_map =
     \<lparr>mv_get = Some set_map_get,
      mv_put = Some (set_map_put alloc_slots),
      mv_remove = Some set_map_remove,
      mv_contains = Some set_map_contains,
      mv_clear = Some (set_map_clear alloc_map alloc_slots),
      mv_size = Some set_map_size,
      mv_is_empty = Some set_map_is_empty\<rparr>"

subsection \<open>A set with the default functions\<close>

definition set_ok :: "cobalt_set \<Rightarrow> bool" where
  "set_ok s \<longleftrightarrow> (\<exists>m. set_map s = Some m \<and> hm_ok m \<and> None \<notin> ran (hm_abs m))"

definition set_abs :: "cobalt_set \<Rightarrow> string set" where
  "set_abs s = dom (hm_abs (the (set_map s)))"

lemma set_okE:
  assumes "set_ok s"
  obtains m where "set_map s = Some m" "hm_ok m" "None \<notin> ran (hm_abs m)" "set_abs s = dom (hm_abs m)"
  using assms by (auto simp: set_ok_def set_abs_def)

lemma set_okI:
  "hm_ok m \<Longrightarrow> hm_abs m = f \<Longrightarrow> None \<notin> ran f \<Longrightarrow>
   set_ok (s\<lparr>set_map := Some m\<rparr>) \<and> set_abs (s\<lparr>set_map := Some m\<rparr>) = dom f"
  by (simp add: set_ok_def set_abs_def)

lemma ran_upd: "None \<notin> ran f \<Longrightarrow> None \<notin> ran (f(k \<mapsto> Some v))"
  "None \<notin> ran f \<Longrightarrow> None \<notin> ran (f(k := None))"
  by (auto simp: ran_def)

lemma set_insert_abs:
  assumes ok: "set_ok s" and sz: "cobalt_set_size (Some s) < 2 ^ 30" and i: "cstr i = i"
  obtains s' where "cobalt_set_insert True True (Some s) (Some i) = Some (0, None, Some s')"
    "set_ok s'" "set_abs s' = insert i (set_abs s)"
proof -
  from set_okE [OF ok] obtain m where m: "set_map s = Some m" "hm_ok m" "None \<notin> ran (hm_abs m)"
    "set_abs s = dom (hm_abs m)" .
  have "hm_size m < 2 ^ 30" using sz m(1) by (simp add: cobalt_set_size_def cobalt_hashmap_size_def)
  from put_abs [OF m(2) this i, of "Some (SetItem i)"] obtain m' where
    m': "cobalt_hashmap_put True True (Some m) (Some i) (Some (SetItem i)) = Some (0, None, Some m')"
      "hm_ok m'" "hm_abs m' = (hm_abs m)(i := Some (Some (SetItem i)))" .
  show ?thesis
    using that set_okI [OF m'(2,3) ran_upd(1) [OF m(3)], of s] m(1,4) m'(1)
    by (simp add: cobalt_set_insert_def)
qed

lemma set_remove_abs:
  assumes ok: "set_ok s"
  obtains r e s' where "cobalt_set_remove (Some s) (Some i) = Some (r, e, Some s')" "set_ok s'"
    "set_abs s' = set_abs s - {cstr i}" "r = (if cstr i \<in> set_abs s then 0 else -1)"
proof -
  from set_okE [OF ok] obtain m where m: "set_map s = Some m" "hm_ok m" "None \<notin> ran (hm_abs m)"
    "set_abs s = dom (hm_abs m)" .
  show ?thesis
  proof (cases rule: remove_key_abs [OF m(2), of i "strlen i"])
    case (1 m')
    show ?thesis
      using that [of 0 None "s\<lparr>set_map := Some m'\<rparr>"] set_okI [OF 1(3,4) ran_upd(2) [OF m(3)], of s] m(1,4) 1(1,2)
      by (simp add: cobalt_set_remove_def cobalt_hashmap_remove_def Let_def domIff)
  next
    case 2
    have "s\<lparr>set_map := Some m\<rparr> = s" using m(1) by simp
    then show ?thesis using that [of "-1" "Some COBALT_ERROR_NOT_FOUND" s] 2 m(1,4) ok
      by (simp add: cobalt_set_remove_def cobalt_hashmap_remove_def Let_def domIff)
  qed
qed

lemma set_contains_abs:
  assumes "set_ok s"
  shows "cobalt_set_contains (Some s) (Some i) = Some (cstr i \<in> set_abs s)"
proof -
  from set_okE [OF assms] obtain m where m: "set_map s = Some m" "hm_ok m" "None \<notin> ran (hm_abs m)"
    "set_abs s = dom (hm_abs m)" .
  have "hm_abs m (cstr i) \<noteq> Some None" using m(3) by (auto simp: ran_def)
  then show ?thesis
    using m(1,4) by (cases "hm_abs m (cstr i)") (auto simp: cobalt_set_contains_def get_abs [OF m(2)])
qed

lemma set_size_abs:
  assumes "set_ok s"
  shows "finite (set_abs s)" "cobalt_set_size (Some s) = card (set_abs s)"
proof -
  from set_okE [OF assms] obtain m where m: "set_map s = Some m" "hm_ok m" "None \<notin> ran (hm_abs m)"
    "set_abs s = dom (hm_abs m)" .
  then show "finite (set_abs s)" "cobalt_set_size (Some s) = card (set_abs s)"
    using hm_size_card [OF m(2)] by (simp_all add: cobalt_set_size_def cobalt_hashmap_size_def)
qed

lemma set_create_ok:
  assumes "n \<le> 2 ^ 31"
  obtains s where "cobalt_set_create True True True n = (None, Some s)" "set_ok s" "set_abs s = {}"
proof -
  obtain m :: "set_value hashmap" where m: "cobalt_hashmap_create True True n = (None, Some m)"
    "hm_inv UNIV m" "hm_size m = 0" "hm_hash_func m = None" "hm_equal_func m = None"
    by (rule create_ok [OF assms])
  have ok: "hm_ok m" using m by (simp add: hm_ok_def)
  have "hm_abs m = (\<lambda>_. None)" by (rule hm_abs_empty [OF ok m(3)])
  with m(1) ok that [of "\<lparr>set_map = Some m\<rparr>"] show ?thesis
    by (simp add: cobalt_set_create_def cobalt_set_create_with_allocator_def cobalt_hashmap_create_def
        set_ok_def set_abs_def)
qed

text \<open>A program of insertions and removals of strings.\<close>

datatype set_op = Insert string | Delete string

fun set_step :: "set_op \<Rightarrow> cobalt_set \<Rightarrow> cobalt_set option" where
  "set_step (Insert i) s = cobalt_set_insert True True (Some s) (Some i) \<bind> (\<lambda>(r, e, st). st)"
| "set_step (Delete i) s = cobalt_set_remove (Some s) (Some i) \<bind> (\<lambda>(r, e, st). st)"

fun set_exec :: "set_op list \<Rightarrow> cobalt_set \<Rightarrow> cobalt_set option" where
  "set_exec [] s = Some s"
| "set_exec (c # cs) s = set_step c s \<bind> set_exec cs"

fun set_spec :: "set_op list \<Rightarrow> string set \<Rightarrow> string set" where
  "set_spec [] A = A"
| "set_spec (Insert i # cs) A = set_spec cs (insert i A)"
| "set_spec (Delete i # cs) A = set_spec cs (A - {cstr i})"

lemma set_exec_refines:
  assumes "set_ok s" "card (set_abs s) + length cs \<le> 2 ^ 30" "\<And>i. Insert i \<in> set cs \<Longrightarrow> cstr i = i"
  shows "\<exists>s'. set_exec cs s = Some s' \<and> set_ok s' \<and> set_abs s' = set_spec cs (set_abs s)"
  using assms
proof (induction cs arbitrary: s)
  case Nil
  then show ?case by simp
next
  case (Cons c cs)
  note sz = set_size_abs [OF Cons.prems(1)]
  show ?case
  proof (cases c)
    case (Insert i)
    have "cobalt_set_size (Some s) < 2 ^ 30" using Cons.prems(2) sz(2) by simp
    moreover have "cstr i = i" using Cons.prems(3) Insert by simp
    ultimately obtain s' where s': "cobalt_set_insert True True (Some s) (Some i) = Some (0, None, Some s')"
      "set_ok s'" "set_abs s' = insert i (set_abs s)"
      by (rule set_insert_abs [OF Cons.prems(1)])
    have "card (set_abs s') + length cs \<le> 2 ^ 30"
      using Cons.prems(2) s'(3) sz(1) by (auto simp: card_insert_if)
    from Cons.IH [OF s'(2) this] Cons.prems(3) s' Insert show ?thesis by simp
  next
    case (Delete i)
    from set_remove_abs [OF Cons.prems(1), of i] obtain r e s' where
      s': "cobalt_set_remove (Some s) (Some i) = Some (r, e, Some s')" "set_ok s'"
        "set_abs s' = set_abs s - {cstr i}" "r = (if cstr i \<in> set_abs s then 0 else -1)" .
    have "card (set_abs s') + length cs \<le> 2 ^ 30"
      using Cons.prems(2) s'(3) card_Diff1_le [of "set_abs s" "cstr i"] by simp
    from Cons.IH [OF s'(2) this] Cons.prems(3) s' Delete show ?thesis by simp
  qed
qed

text \<open>
  C17: every program of insertions and removals of C strings on a freshly created set ends, and
  afterwards membership and size are those of the mathematical set the program computes.
\<close>

theorem set_program_refines:
  assumes "n \<le> 2 ^ 31" "length cs \<le> 2 ^ 30" "\<forall>i. Insert i \<in> set cs \<longrightarrow> NUL \<notin> set i"
  shows "\<exists>s s'. cobalt_set_create True True True n = (None, Some s) \<and> set_exec cs s = Some s' \<and>
    (\<forall>i. cobalt_set_contains (Some s') (Some i) = Some (cstr i \<in> set_spec cs {})) \<and>
    cobalt_set_size (Some s') = card (set_spec cs {}) \<and>
    (cobalt_set_is_empty (Some s') \<longleftrightarrow> set_spec cs {} = {})"
proof -
  obtain s where s: "cobalt_set_create True True True n = (None, Some s)" "set_ok s" "set_abs s = {}"
    by (rule set_create_ok [OF assms(1)])
  have c: "cstr i = i" if "Insert i \<in> set cs" for i
    using assms(3) that unfolding cstr_def by (auto simp: takeWhile_eq_all_conv)
  have "card (set_abs s) + length cs \<le> 2 ^ 30" using assms(2) s(3) by simp
  from set_exec_refines [OF s(2) this c] s(3) obtain s' where
    s': "set_exec cs s = Some s'" "set_ok s'" "set_abs s' = set_spec cs {}" by auto
  note sz = set_size_abs [OF s'(2)]
  have "cobalt_set_is_empty (Some s') \<longleftrightarrow> cobalt_set_size (Some s') = 0"
    by (simp add: cobalt_set_is_empty_def cobalt_set_size_def)
  with s(1) s' sz set_contains_abs [OF s'(2)] show ?thesis by simp
qed

theorem set_program_refines_witness:
  "\<exists>s s'. cobalt_set_create True True True 4 = (None, Some s) \<and>
    set_exec [Insert ''a'', Insert ''b'', Insert ''a'', Delete ''b''] s = Some s' \<and>
    cobalt_set_contains (Some s') (Some ''a'') = Some True \<and>
    cobalt_set_contains (Some s') (Some ''b'') = Some False \<and> cobalt_set_size (Some s') = 1"
proof -
  let ?cs = "[Insert ''a'', Insert ''b'', Insert ''a'', Delete ''b'']"
  have spec: "set_spec ?cs {} = {''a''}" by auto
  have len: "(4::nat) \<le> 2 ^ 31" "length ?cs \<le> 2 ^ 30" by simp_all
  have nn: "\<forall>i. Insert i \<in> set ?cs \<longrightarrow> NUL \<notin> set i" by auto
  from set_program_refines [OF len nn, unfolded spec] obtain s s' where
    "cobalt_set_create True True True 4 = (None, Some s)" "set_exec ?cs s = Some s'"
    "\<forall>i. cobalt_set_contains (Some s') (Some i) = Some (cstr i \<in> {''a''})"
    "cobalt_set_size (Some s') = card {''a''}" by (elim exE conjE)
  then show ?thesis by (intro exI [of _ s] exI [of _ s'] conjI) simp_all
qed

text \<open>
  clearing a set through the map interface replaces its backing map by a new one with the
  default functions: a set created with its own hash and equality callbacks does not keep them.
\<close>

theorem set_clear_drops_callbacks:
  "\<exists>s s'. cobalt_set_create_ext True True True 0 (Some byte_hash) (Some byte_equal) = (None, Some s) \<and>
    map_option hm_equal_func (set_map s) = Some (Some byte_equal) \<and>
    cobalt_map_clear (Some (set_map_vtable True True, s)) = (None, Some (set_map_vtable True True, s')) \<and>
    map_option hm_equal_func (set_map s') = Some None"
  by (simp add: cobalt_set_create_ext_def cobalt_set_create_ext_with_allocator_def cobalt_hashmap_create_ext_def
      cobalt_hashmap_create_def cobalt_hashmap_create_with_allocator_def cobalt_map_clear_def set_map_vtable_def
      set_map_clear_def)

end
