(* ===== verification/Cobalt_Heap.thy ===== *)
theory Cobalt_Heap
  imports Cobalt_Runtime
begin

section \<open>Memory\<close>

text \<open>
  The memory the pointer-based components share. A heap of nodes is a partial map from addresses and
  the next unused address: an allocation returns an address that was never used before, a release
  removes its node, and a read or write of an address that holds no node is a fault. A block is an
  array of cells, \<open>None\<close> in a cell that was never written. Every accessor returns \<open>None\<close> for a
  fault (a NULL or dangling pointer, an index outside the block, a read of an unwritten cell), so a
  result \<open>Some\<close> is also a statement of memory safety.
\<close>

subsection \<open>Arithmetic of size_t\<close>

definition szt_dec :: "nat \<Rightarrow> nat" where
  "szt_dec n = (if n = 0 then SIZE_MAX else n - 1)"

lemma szt_dec_Suc [simp]: "szt_dec (Suc n) = n"
  by (simp add: szt_dec_def)

definition szt_sub :: "nat \<Rightarrow> nat \<Rightarrow> nat" where
  "szt_sub a b = (if b \<le> a then a - b else 18446744073709551616 - (b - a))"

lemma szt_sub_le [simp]: "b \<le> a \<Longrightarrow> szt_sub a b = a - b"
  by (simp add: szt_sub_def)

text \<open>The macro \<open>ALIGN_UP(x, a)\<close>: \<open>x\<close> rounded up to a multiple of the power of two \<open>a\<close>.\<close>

definition ALIGN_UP :: "nat \<Rightarrow> nat \<Rightarrow> nat" where
  "ALIGN_UP x a = unat (((of_nat x :: u64) + of_nat a - 1) AND NOT (of_nat a - 1))"

lemma and_not_add: "x = (x AND m) + (x AND NOT m)" for x m :: u64
proof -
  have "(x AND m) AND (x AND NOT m) = 0" by (rule bit_word_eqI) (auto simp: bit_and_iff bit_not_iff)
  then have "(x AND m) + (x AND NOT m) = (x AND m) OR (x AND NOT m)" by (rule disjunctive_add_eq_or)
  also have "\<dots> = x" by (rule bit_word_eqI) (auto simp: bit_or_iff bit_and_iff bit_not_iff)
  finally show ?thesis by simp
qed

lemma unat_and_not_mask: "unat (x AND NOT (mask k)) = unat x div 2 ^ k * 2 ^ k" for x :: u64
proof -
  have m: "unat (x AND mask k) = unat x mod 2 ^ k"
    by (simp flip: take_bit_eq_mask take_bit_eq_mod add: unsigned_take_bit_eq)
  have "x AND NOT (mask k) = x - (x AND mask k)" using and_not_add [of x "mask k"] by (metis add_diff_cancel_left')
  moreover have "x AND mask k \<le> x" by (simp add: word_le_nat_alt m)
  ultimately have "unat (x AND NOT (mask k)) = unat x - unat x mod 2 ^ k" using m by (simp add: unat_sub)
  then show ?thesis by (simp add: minus_mod_eq_div_mult)
qed

lemma ALIGN_UP_eq:
  assumes "a = 2 ^ k" "x + a \<le> SIZE_MAX"
  shows "ALIGN_UP x a = (x + a - 1) div a * a"
proof -
  have "1 \<le> a" using assms(1) by simp
  then have "(of_nat x :: u64) + of_nat a - 1 = of_nat (x + a - 1)" by simp
  moreover have "unat (of_nat (x + a - 1) :: u64) = x + a - 1" using assms(2) by (simp add: unat_of_nat)
  moreover have "(of_nat a :: u64) - 1 = mask k" using assms(1) by (simp add: mask_eq_exp_minus_1)
  ultimately show ?thesis using unat_and_not_mask [of "of_nat (x + a - 1)" k] assms(1) by (simp add: ALIGN_UP_def)
qed

lemma div_mult_up: "x \<le> (x + a - 1) div a * a \<and> (x + a - 1) div a * a < x + a" if "0 < a" for x a :: nat
proof -
  have "(x + a - 1) div a * a = (x + a - 1) - (x + a - 1) mod a" by (simp add: minus_mod_eq_div_mult)
  moreover have "(x + a - 1) mod a < a" using that by simp
  ultimately show ?thesis using that by linarith
qed

lemma ALIGN_UP_bounds:
  assumes "a = 2 ^ k" "x + a \<le> SIZE_MAX"
  shows "x \<le> ALIGN_UP x a" "ALIGN_UP x a < x + a" "a dvd ALIGN_UP x a"
  using div_mult_up [of a x] assms(1) unfolding ALIGN_UP_eq [OF assms] by simp_all

lemma ALIGN_UP_id: "a dvd x \<Longrightarrow> ALIGN_UP x a = x" if "a = 2 ^ k" "x + a \<le> SIZE_MAX"
proof -
  assume "a dvd x"
  then obtain q where q: "x = a * q" by (elim dvdE)
  have "0 < a" using that by simp
  then have "(a * q + a - 1) div a = q"
    by (metis Nat.add_diff_assoc One_nat_def Suc_leI add.commute add.right_neutral diff_less div_less div_mult_self2 less_one
        less_nat_zero_code neq0_conv)
  then show ?thesis using that q by (simp add: ALIGN_UP_eq mult.commute)
qed

subsection \<open>Heaps of nodes\<close>

record 'n heap =
  hp_next :: nat
  hp_map :: "nat \<rightharpoonup> 'n"

definition heap_empty :: "'n heap" where
  "heap_empty = \<lparr>hp_next = 0, hp_map = (\<lambda>_. None)\<rparr>"

definition heap_new :: "bool \<Rightarrow> 'n \<Rightarrow> 'n heap \<Rightarrow> (nat \<times> 'n heap) option" where
  "heap_new alloc n h =
     (if alloc then Some (hp_next h, \<lparr>hp_next = Suc (hp_next h), hp_map = (hp_map h)(hp_next h \<mapsto> n)\<rparr>)
      else None)"

definition heap_read :: "'n heap \<Rightarrow> nat \<Rightarrow> 'n option" where
  "heap_read h a = hp_map h a"

definition heap_upd :: "nat \<Rightarrow> ('n \<Rightarrow> 'n) \<Rightarrow> 'n heap \<Rightarrow> 'n heap option" where
  "heap_upd a f h =
     (case hp_map h a of
        None \<Rightarrow> None
      | Some n \<Rightarrow> Some (h\<lparr>hp_map := (hp_map h)(a \<mapsto> f n)\<rparr>))"

definition heap_free :: "nat \<Rightarrow> 'n heap \<Rightarrow> 'n heap option" where
  "heap_free a h =
     (case hp_map h a of
        None \<Rightarrow> None
      | Some n \<Rightarrow> Some (h\<lparr>hp_map := (hp_map h)(a := None)\<rparr>))"

definition heap_ok :: "'n heap \<Rightarrow> bool" where
  "heap_ok h \<longleftrightarrow> (\<forall>a. hp_next h \<le> a \<longrightarrow> hp_map h a = None)"

lemma heap_ok_empty [simp]: "heap_ok heap_empty"
  by (simp add: heap_ok_def heap_empty_def)

lemma heap_ok_fresh [simp]: "heap_ok h \<Longrightarrow> hp_map h (hp_next h) = None"
  by (simp add: heap_ok_def)

lemma heap_ok_new: "heap_ok h \<Longrightarrow> heap_new b n h = Some (a, h') \<Longrightarrow> heap_ok h'"
  by (auto simp: heap_ok_def heap_new_def split: if_splits)

lemma heap_ok_upd: "heap_ok h \<Longrightarrow> heap_upd a f h = Some h' \<Longrightarrow> heap_ok h'"
  by (auto simp: heap_ok_def heap_upd_def split: option.splits)

lemma heap_ok_free: "heap_ok h \<Longrightarrow> heap_free a h = Some h' \<Longrightarrow> heap_ok h'"
  by (auto simp: heap_ok_def heap_free_def split: option.splits)

lemma heap_bound: "heap_ok h \<Longrightarrow> hp_map h a = Some n \<Longrightarrow> a < hp_next h"
  by (metis heap_ok_def linorder_not_less option.distinct(1))

subsection \<open>Blocks of cells\<close>

type_synonym 'a block = "'a option list option"

definition blk_new :: "nat \<Rightarrow> 'a block" where
  "blk_new n = Some (replicate n None)"

definition blk_resize :: "nat \<Rightarrow> 'a block \<Rightarrow> 'a block" where
  "blk_resize n b =
     (case b of
        None \<Rightarrow> blk_new n
      | Some xs \<Rightarrow> Some (take n xs @ replicate (n - length xs) None))"

definition blk_read :: "'a block \<Rightarrow> nat \<Rightarrow> 'a option" where
  "blk_read b i = (case b of None \<Rightarrow> None | Some xs \<Rightarrow> if i < length xs then xs ! i else None)"

definition blk_write :: "nat \<Rightarrow> 'a \<Rightarrow> 'a block \<Rightarrow> 'a block option" where
  "blk_write i v b =
     (case b of
        None \<Rightarrow> None
      | Some xs \<Rightarrow> if i < length xs then Some (Some (xs[i := Some v])) else None)"

definition blk_move :: "nat \<Rightarrow> nat \<Rightarrow> nat \<Rightarrow> 'a block \<Rightarrow> 'a block option" where
  "blk_move dst src n b =
     (if n = 0 then Some b
      else case b of
        None \<Rightarrow> None
      | Some xs \<Rightarrow>
          if dst + n \<le> length xs \<and> src + n \<le> length xs
          then Some (Some (take dst xs @ take n (drop src xs) @ drop (dst + n) xs))
          else None)"

text \<open>The first \<open>n\<close> cells of a block hold the values of a list.\<close>

definition blk_holds :: "'a block \<Rightarrow> 'a list \<Rightarrow> bool" where
  "blk_holds b vs \<longleftrightarrow>
     (case b of None \<Rightarrow> vs = [] | Some xs \<Rightarrow> length vs \<le> length xs \<and> take (length vs) xs = map Some vs)"

definition blk_len :: "'a block \<Rightarrow> nat" where
  "blk_len b = (case b of None \<Rightarrow> 0 | Some xs \<Rightarrow> length xs)"

lemma blk_holds_Nil [simp]: "blk_holds b []"
  by (simp add: blk_holds_def split: option.split)

lemma blk_holds_append: "xs = map Some vs @ ys \<Longrightarrow> blk_holds (Some xs) vs"
  by (simp add: blk_holds_def)

lemma blk_holds_len: "blk_holds b vs \<Longrightarrow> length vs \<le> blk_len b"
  by (auto simp: blk_holds_def blk_len_def split: option.splits)

lemma blk_read_holds: "blk_holds b vs \<Longrightarrow> i < length vs \<Longrightarrow> blk_read b i = Some (vs ! i)"
  by (auto simp: blk_holds_def blk_read_def split: option.splits) (metis nth_map nth_take)

lemma blk_write_snoc:
  assumes "blk_holds b vs" "length vs < blk_len b"
  obtains b' where "blk_write (length vs) v b = Some b'" "blk_holds b' (vs @ [v])" "blk_len b' = blk_len b"
proof -
  obtain xs where xs: "b = Some xs" "length vs < length xs" "take (length vs) xs = map Some vs"
    using assms by (auto simp: blk_holds_def blk_len_def split: option.splits)
  have "take (Suc (length vs)) (xs[length vs := Some v]) = map Some (vs @ [v])"
    using xs by (simp add: take_Suc_conv_app_nth)
  then show ?thesis
    using that [of "Some (xs[length vs := Some v])"] xs
    by (simp add: blk_write_def blk_holds_def blk_len_def)
qed

lemma blk_write_holds:
  assumes "blk_holds b vs" "i < length vs"
  obtains b' where "blk_write i v b = Some b'" "blk_holds b' (vs[i := v])" "blk_len b' = blk_len b"
proof -
  obtain xs where xs: "b = Some xs" "length vs \<le> length xs" "take (length vs) xs = map Some vs"
    using assms by (auto simp: blk_holds_def split: option.splits)
  have "take (length vs) (xs[i := Some v]) = map Some (vs[i := v])"
    using xs by (simp add: take_update_swap map_update)
  then show ?thesis
    using that [of "Some (xs[i := Some v])"] xs assms(2)
    by (simp add: blk_write_def blk_holds_def blk_len_def)
qed

lemma blk_resize_holds: "blk_holds b vs \<Longrightarrow> length vs \<le> n \<Longrightarrow> blk_holds (blk_resize n b) vs"
  by (auto simp: blk_holds_def blk_resize_def blk_new_def min_def split: option.splits)

lemma blk_resize_len [simp]: "blk_len (blk_resize n b) = n"
  by (auto simp: blk_len_def blk_resize_def blk_new_def split: option.splits)

text \<open>Moving the tail of the values one cell to the left removes one of them.\<close>

lemma blk_move_remove:
  assumes "blk_holds b vs" "i < length vs"
  obtains b' where "blk_move i (Suc i) (length vs - i - 1) b = Some b'"
    "blk_holds b' (take i vs @ drop (Suc i) vs)" "blk_len b' = blk_len b"
proof (cases "length vs - i - 1 = 0")
  case True
  then have "length vs = Suc i" using assms(2) by simp
  then show ?thesis using that [of b] assms
    by (auto simp: blk_move_def blk_holds_def take_map [symmetric] split: option.splits)
      (metis append_Nil2 diff_Suc_1 diff_le_self le_SucI lessI min.strict_order_iff take_map take_take)+
next
  case False
  obtain xs where xs: "b = Some xs" "length vs \<le> length xs" "take (length vs) xs = map Some vs"
    using assms by (auto simp: blk_holds_def split: option.splits)
  obtain ys where ys: "xs = map Some vs @ ys" using xs(3) by (metis append_take_drop_id)
  let ?n = "length vs - i - 1"
  let ?xs = "take i xs @ take ?n (drop (Suc i) xs) @ drop (i + ?n) xs"
  have "take i xs = map Some (take i vs)" "take ?n (drop (Suc i) xs) = map Some (drop (Suc i) vs)"
    using assms(2) unfolding ys by (simp_all add: take_map drop_map)
  then have "?xs = map Some (take i vs @ drop (Suc i) vs) @ drop (i + ?n) xs" by simp
  then have "blk_holds (Some ?xs) (take i vs @ drop (Suc i) vs)" by (rule blk_holds_append)
  moreover have "length ?xs = length xs" using assms(2) xs(2) by simp
  moreover have "i + ?n \<le> length xs" "Suc i + ?n \<le> length xs" using assms(2) xs(2) by simp_all
  then have "blk_move i (Suc i) ?n b = Some (Some ?xs)"
    unfolding blk_move_def xs(1) using False by (simp only: if_False if_True option.case simp_thms)
  ultimately show ?thesis using that [of "Some ?xs"] xs(1) by (simp add: blk_len_def)
qed

end
