(* ===== verification/Cobalt_Sequence.thy ===== *)
theory Cobalt_Sequence
  imports Cobalt_Heap
begin

section \<open>The sequence interface and its iterators\<close>

text \<open>
  \<open>src/interface/sequence.c\<close>, \<open>src/interface/iterator.c\<close> and their headers. A sequence object is its
  virtual table and its state; an element is a pointer, \<open>None\<close> when NULL. The slots that can touch
  memory return an option, \<open>None\<close> for a fault. The contract of a provider is the locale
  \<open>seq_object\<close>: the state abstracts to the list of its elements. What the convenience wrappers and
  the generic index iterator do is proved once from that contract.
\<close>

record ('s, 'a) cobalt_sequence =
  sv_size :: "('s \<Rightarrow> nat) option"
  sv_is_empty :: "('s \<Rightarrow> bool) option"
  sv_add :: "('s \<Rightarrow> 'a option \<Rightarrow> (cobalt_error option \<times> 's) option) option"
  sv_remove :: "('s \<Rightarrow> 'a option \<Rightarrow> 's option) option"
  sv_get_at_index :: "('s \<Rightarrow> nat \<Rightarrow> ('a option \<times> cobalt_error option) option) option"

type_synonym ('s, 'a) seq_obj = "(('s, 'a) cobalt_sequence \<times> 's) option"

subsection \<open>Convenience wrappers\<close>

definition cobalt_sequence_size :: "('s, 'a) seq_obj \<Rightarrow> nat" where
  "cobalt_sequence_size sq =
     (case sq of None \<Rightarrow> 0 | Some (vt, s) \<Rightarrow> (case sv_size vt of None \<Rightarrow> 0 | Some f \<Rightarrow> f s))"

definition cobalt_sequence_is_empty :: "('s, 'a) seq_obj \<Rightarrow> bool" where
  "cobalt_sequence_is_empty sq =
     (case sq of None \<Rightarrow> True | Some (vt, s) \<Rightarrow> (case sv_is_empty vt of None \<Rightarrow> True | Some f \<Rightarrow> f s))"

definition cobalt_sequence_add ::
    "('s, 'a) seq_obj \<Rightarrow> 'a option \<Rightarrow> (int \<times> cobalt_error option \<times> ('s, 'a) seq_obj) option" where
  "cobalt_sequence_add sq item =
     (case sq of
        None \<Rightarrow> Some (-1, None, None)
      | Some (vt, s) \<Rightarrow>
          (case sv_add vt of
             None \<Rightarrow> Some (-1, None, sq)
           | Some add \<Rightarrow>
               sv_size vt \<bind>
               (\<lambda>size. let before = size s in
                  add s item \<bind>
                  (\<lambda>(e, s'). let after = size s' in
                     Some (if before < after then 0 else -1, e, Some (vt, s'))))))"

definition cobalt_sequence_remove ::
    "('s, 'a) seq_obj \<Rightarrow> 'a option \<Rightarrow> (int \<times> ('s, 'a) seq_obj) option" where
  "cobalt_sequence_remove sq item =
     (case sq of
        None \<Rightarrow> Some (-1, None)
      | Some (vt, s) \<Rightarrow>
          (case sv_remove vt of
             None \<Rightarrow> Some (-1, sq)
           | Some remove \<Rightarrow>
               sv_size vt \<bind>
               (\<lambda>size. let before = size s in
                  remove s item \<bind>
                  (\<lambda>s'. let after = size s' in
                     Some (if after < before then 0 else -1, Some (vt, s'))))))"

subsection \<open>Iterators\<close>

record ('d, 'a) iterator_vtable =
  itv_has_next :: "'d \<Rightarrow> bool"
  itv_next :: "'d \<Rightarrow> ('a option \<times> 'd) option"

type_synonym ('d, 'a) seq_iter = "(('d, 'a) iterator_vtable \<times> 'd) option"

definition cobalt_iterator_has_next :: "('d, 'a) seq_iter \<Rightarrow> bool" where
  "cobalt_iterator_has_next it = (case it of None \<Rightarrow> False | Some (vt, d) \<Rightarrow> itv_has_next vt d)"

definition cobalt_iterator_next :: "('d, 'a) seq_iter \<Rightarrow> ('a option \<times> ('d, 'a) seq_iter) option" where
  "cobalt_iterator_next it =
     (case it of
        None \<Rightarrow> Some (None, None)
      | Some (vt, d) \<Rightarrow> itv_next vt d \<bind> (\<lambda>(x, d'). Some (x, Some (vt, d'))))"

text \<open>The generic iterator: an index into a sequence and the size it had at creation.\<close>

record ('s, 'a) iterator_impl =
  ii_seq :: "('s, 'a) cobalt_sequence \<times> 's"
  ii_index :: nat
  ii_total :: nat

definition generic_has_next :: "('s, 'a) iterator_impl \<Rightarrow> bool" where
  "generic_has_next impl \<longleftrightarrow> ii_index impl < ii_total impl"

definition generic_next :: "('s, 'a) iterator_impl \<Rightarrow> ('a option \<times> ('s, 'a) iterator_impl) option" where
  "generic_next impl =
     (if ii_total impl \<le> ii_index impl then Some (None, impl)
      else
        sv_get_at_index (fst (ii_seq impl)) \<bind>
        (\<lambda>get. get (snd (ii_seq impl)) (ii_index impl) \<bind>
          (\<lambda>(item, e). Some (item, impl\<lparr>ii_index := ii_index impl + 1\<rparr>))))"

definition generic_vtable :: "(('s, 'a) iterator_impl, 'a) iterator_vtable" where
  "generic_vtable = \<lparr>itv_has_next = generic_has_next, itv_next = generic_next\<rparr>"

definition cobalt_iterator_new_with_allocator ::
    "bool \<Rightarrow> bool \<Rightarrow> ('s, 'a) seq_obj \<Rightarrow> (('s, 'a) iterator_impl, 'a) seq_iter option" where
  "cobalt_iterator_new_with_allocator alloc_iter alloc_impl sq =
     (case sq of
        None \<Rightarrow> Some None
      | Some (vt, s) \<Rightarrow>
          if \<not> alloc_iter \<or> \<not> alloc_impl then Some None
          else
            sv_size vt \<bind>
            (\<lambda>size. Some (Some (generic_vtable, \<lparr>ii_seq = (vt, s), ii_index = 0, ii_total = size s\<rparr>))))"

definition cobalt_iterator_new ::
    "bool \<Rightarrow> bool \<Rightarrow> ('s, 'a) seq_obj \<Rightarrow> (('s, 'a) iterator_impl, 'a) seq_iter option" where
  "cobalt_iterator_new alloc_iter alloc_impl sq = cobalt_iterator_new_with_allocator alloc_iter alloc_impl sq"

text \<open>The client loop \<open>while (has_next) next\<close>, cut after \<open>n\<close> rounds.\<close>

fun seq_drain :: "nat \<Rightarrow> ('d, 'a) seq_iter \<Rightarrow> 'a option list option" where
  "seq_drain 0 it = (if cobalt_iterator_has_next it then None else Some [])"
| "seq_drain (Suc n) it =
     (if cobalt_iterator_has_next it then
        cobalt_iterator_next it \<bind> (\<lambda>(x, it'). seq_drain n it' \<bind> (\<lambda>xs. Some (x # xs)))
      else Some [])"

subsection \<open>The contract of a sequence\<close>

locale seq_object =
  fixes vt :: "('s, 'a) cobalt_sequence" and inv :: "'s \<Rightarrow> bool"
    and absf :: "'s \<Rightarrow> 'a option list" and limit :: nat
  assumes size_slot: "\<exists>f. sv_size vt = Some f \<and> (\<forall>s. inv s \<longrightarrow> f s = length (absf s))"
    and empty_slot: "inv s \<Longrightarrow> \<exists>f. sv_is_empty vt = Some f \<and> f s = (absf s = [])"
    and add_slot: "inv s \<Longrightarrow> length (absf s) < limit \<Longrightarrow>
      \<exists>f e s'. sv_add vt = Some f \<and> f s x = Some (e, s') \<and> inv s' \<and> absf s' = absf s @ [x]"
    and remove_slot: "inv s \<Longrightarrow>
      \<exists>f s'. sv_remove vt = Some f \<and> f s x = Some s' \<and> inv s' \<and>
        absf s' = (if x = None then absf s else remove1 x (absf s))"
    and get_slot: "inv s \<Longrightarrow>
      \<exists>f e. sv_get_at_index vt = Some f \<and> f s i = Some (if i < length (absf s) then absf s ! i else None, e)"
begin

lemma sequence_size: "inv s \<Longrightarrow> cobalt_sequence_size (Some (vt, s)) = length (absf s)"
  using size_slot by (auto simp: cobalt_sequence_size_def)

lemma sequence_is_empty: "inv s \<Longrightarrow> cobalt_sequence_is_empty (Some (vt, s)) \<longleftrightarrow> absf s = []"
  using empty_slot [of s] by (auto simp: cobalt_sequence_is_empty_def)

lemma sequence_add:
  assumes "inv s" "length (absf s) < limit"
  obtains e s' where "cobalt_sequence_add (Some (vt, s)) x = Some (0, e, Some (vt, s'))" "inv s'"
    "absf s' = absf s @ [x]"
proof -
  obtain sz where sz: "sv_size vt = Some sz" "\<And>s. inv s \<Longrightarrow> sz s = length (absf s)" using size_slot by blast
  obtain f e s' where f: "sv_add vt = Some f" "f s x = Some (e, s')" "inv s'" "absf s' = absf s @ [x]"
    using add_slot [OF assms] by blast
  have "cobalt_sequence_add (Some (vt, s)) x = Some (0, e, Some (vt, s'))"
    using f sz(1) sz(2) [OF assms(1)] sz(2) [OF f(3)] by (simp add: cobalt_sequence_add_def)
  with f that show ?thesis by blast
qed

lemma sequence_remove:
  assumes "inv s"
  obtains s' where
    "cobalt_sequence_remove (Some (vt, s)) x =
       Some (if x \<noteq> None \<and> x \<in> set (absf s) then 0 else -1, Some (vt, s'))"
    "inv s'" "absf s' = (if x = None then absf s else remove1 x (absf s))"
proof -
  obtain sz where sz: "sv_size vt = Some sz" "\<And>s. inv s \<Longrightarrow> sz s = length (absf s)" using size_slot by blast
  obtain f s' where f: "sv_remove vt = Some f" "f s x = Some s'" "inv s'"
    "absf s' = (if x = None then absf s else remove1 x (absf s))"
    using remove_slot [OF assms] by blast
  have "length (absf s') < length (absf s) \<longleftrightarrow> x \<noteq> None \<and> x \<in> set (absf s)"
    using f(4) by (auto simp: length_remove1 dest: length_pos_if_in_set)
  then have "cobalt_sequence_remove (Some (vt, s)) x =
      Some (if x \<noteq> None \<and> x \<in> set (absf s) then 0 else -1, Some (vt, s'))"
    using f sz(1) sz(2) [OF assms(1)] sz(2) [OF f(3)] by (simp add: cobalt_sequence_remove_def)
  with f that show ?thesis by blast
qed

lemma drain_index:
  assumes "inv s" "i \<le> length (absf s)" "length (absf s) - i \<le> n"
  shows "seq_drain n (Some (generic_vtable, \<lparr>ii_seq = (vt, s), ii_index = i, ii_total = length (absf s)\<rparr>)) =
    Some (drop i (absf s))"
  using assms(2,3)
proof (induction n arbitrary: i)
  case 0
  then show ?case by (simp add: cobalt_iterator_has_next_def generic_vtable_def generic_has_next_def)
next
  case (Suc n)
  show ?case
  proof (cases "i < length (absf s)")
    case True
    obtain f e where f: "sv_get_at_index vt = Some f" "f s i = Some (absf s ! i, e)"
      using get_slot [OF assms(1), of i] True by auto
    have "seq_drain n (Some (generic_vtable, \<lparr>ii_seq = (vt, s), ii_index = Suc i, ii_total = length (absf s)\<rparr>)) =
        Some (drop (Suc i) (absf s))"
      using Suc True by (intro Suc.IH) simp_all
    then show ?thesis
      using True f by (simp add: cobalt_iterator_has_next_def cobalt_iterator_next_def generic_vtable_def
          generic_has_next_def generic_next_def Cons_nth_drop_Suc)
  next
    case False
    then show ?thesis by (simp add: cobalt_iterator_has_next_def generic_vtable_def generic_has_next_def)
  qed
qed

lemma iterator_drain:
  assumes "inv s" "length (absf s) \<le> n"
  shows "cobalt_iterator_new True True (Some (vt, s)) \<bind> seq_drain n = Some (absf s)"
proof -
  obtain sz where sz: "sv_size vt = Some sz" "sz s = length (absf s)" using size_slot assms(1) by blast
  then show ?thesis
    using drain_index [OF assms(1), of 0 n] assms(2)
    by (simp add: cobalt_iterator_new_def cobalt_iterator_new_with_allocator_def)
qed

end

end
