(* ===== verification/Cobalt_Vector.thy ===== *)
theory Cobalt_Vector
  imports Cobalt_Sequence
begin

section \<open>Vector\<close>

text \<open>
  \<open>src/container/vector.c\<close>. The item array is a block of cells; \<open>sizeof(void *)\<close> is 8. An operation
  returns \<open>None\<close> when the C code reads or writes outside the block or through NULL. The boolean
  arguments are the answers of the allocator.
\<close>

abbreviation (input) VECTOR_MAX_CAP :: nat where
  "VECTOR_MAX_CAP \<equiv> SIZE_MAX div 8"

record 'a cobalt_vector =
  vec_items :: "'a option block"
  vec_capacity :: nat
  vec_size :: nat

definition vector_push_internal ::
    "bool \<Rightarrow> 'a cobalt_vector \<Rightarrow> 'a option \<Rightarrow> (int \<times> cobalt_error option \<times> 'a cobalt_vector) option" where
  "vector_push_internal alloc vec item =
     (let grown =
        (if vec_capacity vec \<le> vec_size vec then
           let max_cap = VECTOR_MAX_CAP;
               new_cap = (if vec_capacity vec = 0 then 1
                          else if max_cap div 2 < vec_capacity vec then max_cap
                          else vec_capacity vec * 2) in
           if \<not> alloc then None
           else Some (vec\<lparr>vec_items := blk_resize new_cap (vec_items vec), vec_capacity := new_cap\<rparr>)
         else Some vec) in
      case grown of
        None \<Rightarrow> Some (-1, Some COBALT_ERROR_OUT_OF_MEMORY, vec)
      | Some vec \<Rightarrow>
          blk_write (vec_size vec) item (vec_items vec) \<bind>
          (\<lambda>items. Some (0, None, vec\<lparr>vec_items := items, vec_size := szt (vec_size vec + 1)\<rparr>)))"

definition vector_size_seq :: "'a cobalt_vector \<Rightarrow> nat" where
  "vector_size_seq vec = vec_size vec"

definition vector_is_empty_seq :: "'a cobalt_vector \<Rightarrow> bool" where
  "vector_is_empty_seq vec \<longleftrightarrow> vec_size vec = 0"

definition vector_add_seq ::
    "bool \<Rightarrow> 'a cobalt_vector \<Rightarrow> 'a option \<Rightarrow> (cobalt_error option \<times> 'a cobalt_vector) option" where
  "vector_add_seq alloc vec item = vector_push_internal alloc vec item \<bind> (\<lambda>(r, e, vec'). Some (e, vec'))"

text \<open>The search loop of \<open>vector_remove_seq\<close>, from index \<open>i\<close>.\<close>

function vector_remove_loop :: "nat \<Rightarrow> 'a cobalt_vector \<Rightarrow> 'a option \<Rightarrow> 'a cobalt_vector option" where
  "vector_remove_loop i vec item =
     (if i < vec_size vec then
        blk_read (vec_items vec) i \<bind>
        (\<lambda>x. if x = item then
               blk_move i (i + 1) (vec_size vec - i - 1) (vec_items vec) \<bind>
               (\<lambda>items. Some (vec\<lparr>vec_items := items, vec_size := szt_dec (vec_size vec)\<rparr>))
             else vector_remove_loop (i + 1) vec item)
      else Some vec)"
  by pat_completeness auto
termination
  by (relation "measure (\<lambda>(i, vec, item). vec_size vec - i)") auto

declare vector_remove_loop.simps [simp del]

definition vector_remove_seq :: "'a cobalt_vector \<Rightarrow> 'a option \<Rightarrow> 'a cobalt_vector option" where
  "vector_remove_seq vec item = (if item = None then Some vec else vector_remove_loop 0 vec item)"

definition vector_get_at_index_seq ::
    "'a cobalt_vector \<Rightarrow> nat \<Rightarrow> ('a option \<times> cobalt_error option) option" where
  "vector_get_at_index_seq vec index =
     (if vec_size vec \<le> index then Some (None, None)
      else blk_read (vec_items vec) index \<bind> (\<lambda>x. Some (x, None)))"

definition vector_seq_vtable :: "bool \<Rightarrow> ('a cobalt_vector, 'a) cobalt_sequence" where
  "vector_seq_vtable alloc =
     \<lparr>sv_size = Some vector_size_seq, sv_is_empty = Some vector_is_empty_seq,
      sv_add = Some (vector_add_seq alloc), sv_remove = Some vector_remove_seq,
      sv_get_at_index = Some vector_get_at_index_seq\<rparr>"

subsection \<open>Public operations\<close>

definition cobalt_vector_create_with_allocator ::
    "bool \<Rightarrow> bool \<Rightarrow> nat \<Rightarrow> bool \<Rightarrow> 'a cobalt_vector option" where
  "cobalt_vector_create_with_allocator alloc_vec alloc_items initial_capacity alloc_null =
     (if alloc_null then None
      else if \<not> alloc_vec then None
      else if VECTOR_MAX_CAP < initial_capacity then None
      else Some \<lparr>vec_items = (if 0 < initial_capacity \<and> alloc_items then blk_new initial_capacity else None),
             vec_capacity = initial_capacity, vec_size = 0\<rparr>)"

definition cobalt_vector_create :: "bool \<Rightarrow> bool \<Rightarrow> nat \<Rightarrow> 'a cobalt_vector option" where
  "cobalt_vector_create alloc_vec alloc_items initial_capacity =
     cobalt_vector_create_with_allocator alloc_vec alloc_items initial_capacity False"

definition cobalt_vector_push ::
    "bool \<Rightarrow> 'a cobalt_vector option \<Rightarrow> 'a option \<Rightarrow>
     (int \<times> cobalt_error option \<times> 'a cobalt_vector option) option" where
  "cobalt_vector_push alloc vec item =
     (case vec of
        None \<Rightarrow> Some (-1, Some COBALT_ERROR_INVALID_ARGUMENT, None)
      | Some v \<Rightarrow> vector_push_internal alloc v item \<bind> (\<lambda>(r, e, v'). Some (r, e, Some v')))"

definition cobalt_vector_get ::
    "'a cobalt_vector option \<Rightarrow> nat \<Rightarrow> ('a option \<times> cobalt_error option) option" where
  "cobalt_vector_get vec index =
     (case vec of
        None \<Rightarrow> Some (None, Some COBALT_ERROR_INVALID_ARGUMENT)
      | Some impl \<Rightarrow>
          if vec_size impl \<le> index then Some (None, Some COBALT_ERROR_OUT_OF_BOUNDS)
          else blk_read (vec_items impl) index \<bind> (\<lambda>x. Some (x, None)))"

definition cobalt_vector_get_unchecked :: "'a cobalt_vector option \<Rightarrow> nat \<Rightarrow> 'a option option" where
  "cobalt_vector_get_unchecked vec index = vec \<bind> (\<lambda>impl. blk_read (vec_items impl) index)"

definition cobalt_vector_set ::
    "'a cobalt_vector option \<Rightarrow> nat \<Rightarrow> 'a option \<Rightarrow>
     (int \<times> cobalt_error option \<times> 'a cobalt_vector option) option" where
  "cobalt_vector_set vec index item =
     (case vec of
        None \<Rightarrow> Some (-1, Some COBALT_ERROR_INVALID_ARGUMENT, None)
      | Some v \<Rightarrow>
          if vec_size v \<le> index then Some (-1, Some COBALT_ERROR_INVALID_ARGUMENT, vec)
          else blk_write index item (vec_items v) \<bind>
               (\<lambda>items. Some (0, None, Some (v\<lparr>vec_items := items\<rparr>))))"

definition cobalt_vector_remove_at :: "'a cobalt_vector option \<Rightarrow> nat \<Rightarrow> 'a cobalt_vector option option" where
  "cobalt_vector_remove_at vec index =
     (case vec of
        None \<Rightarrow> Some None
      | Some impl \<Rightarrow>
          if vec_size impl \<le> index then Some vec
          else blk_move index (index + 1) (vec_size impl - index - 1) (vec_items impl) \<bind>
               (\<lambda>items. Some (Some (impl\<lparr>vec_items := items, vec_size := szt_dec (vec_size impl)\<rparr>))))"

definition cobalt_vector_size :: "'a cobalt_vector option \<Rightarrow> nat" where
  "cobalt_vector_size vec = (case vec of None \<Rightarrow> 0 | Some v \<Rightarrow> vec_size v)"

definition cobalt_vector_is_empty :: "'a cobalt_vector option \<Rightarrow> bool" where
  "cobalt_vector_is_empty vec \<longleftrightarrow> (case vec of None \<Rightarrow> False | Some v \<Rightarrow> vec_size v = 0)"

definition cobalt_vector_capacity :: "'a cobalt_vector option \<Rightarrow> nat" where
  "cobalt_vector_capacity vec = (case vec of None \<Rightarrow> 0 | Some v \<Rightarrow> vec_capacity v)"

definition cobalt_vector_reserve ::
    "bool \<Rightarrow> 'a cobalt_vector option \<Rightarrow> nat \<Rightarrow> int \<times> 'a cobalt_vector option" where
  "cobalt_vector_reserve alloc vec n =
     (case vec of
        None \<Rightarrow> (-1, None)
      | Some impl \<Rightarrow>
          if n \<le> vec_capacity impl then (0, vec)
          else if VECTOR_MAX_CAP < n then (-1, vec)
          else if \<not> alloc then (-1, vec)
          else (0, Some (impl\<lparr>vec_items := blk_resize n (vec_items impl), vec_capacity := n\<rparr>)))"

definition cobalt_vector_shrink_to_fit ::
    "bool \<Rightarrow> 'a cobalt_vector option \<Rightarrow> (int \<times> 'a cobalt_vector option) option" where
  "cobalt_vector_shrink_to_fit alloc vec =
     (case vec of
        None \<Rightarrow> Some (-1, None)
      | Some impl \<Rightarrow>
          if vec_capacity impl \<le> vec_size impl then Some (0, vec)
          else let new_cap = vec_size impl in
          if new_cap = 0 then Some (0, Some (impl\<lparr>vec_items := None, vec_capacity := 0\<rparr>))
          else if \<not> alloc then Some (-1, vec)
          else
            (case vec_items impl of
               None \<Rightarrow> Some (0, Some (impl\<lparr>vec_items := blk_new new_cap, vec_capacity := new_cap\<rparr>))
             | Some xs \<Rightarrow>
                 if vec_size impl \<le> length xs
                 then Some (0, Some (impl\<lparr>vec_items := Some (take (vec_size impl) xs), vec_capacity := new_cap\<rparr>))
                 else None))"

subsection \<open>A vector is the list of its elements\<close>

definition vec_repr :: "'a cobalt_vector \<Rightarrow> 'a option list \<Rightarrow> bool" where
  "vec_repr v vs \<longleftrightarrow> blk_holds (vec_items v) vs \<and> blk_len (vec_items v) = vec_capacity v \<and>
     vec_size v = length vs \<and> vec_capacity v \<le> VECTOR_MAX_CAP"

definition vec_abs :: "'a cobalt_vector \<Rightarrow> 'a option list" where
  "vec_abs v = map the (take (vec_size v) (case vec_items v of None \<Rightarrow> [] | Some xs \<Rightarrow> xs))"

lemma vec_repr_abs: "vec_repr v vs \<Longrightarrow> vec_abs v = vs"
  by (auto simp: vec_repr_def vec_abs_def blk_holds_def split: option.splits)

lemma vec_reprD:
  assumes "vec_repr v vs"
  shows "blk_holds (vec_items v) vs" "blk_len (vec_items v) = vec_capacity v" "vec_size v = length vs"
    "vec_capacity v \<le> VECTOR_MAX_CAP" "length vs \<le> vec_capacity v"
  using assms blk_holds_len [of "vec_items v" vs] by (simp_all add: vec_repr_def)

lemma push_grown:
  assumes r: "vec_repr v vs" and n: "length vs < vec_capacity v"
  obtains v' where "blk_write (vec_size v) x (vec_items v) \<bind>
      (\<lambda>items. Some (0 :: int, None :: cobalt_error option,
         v\<lparr>vec_items := items, vec_size := szt (vec_size v + 1)\<rparr>)) = Some (0, None, v')"
    "vec_repr v' (vs @ [x])" "vec_capacity v' = vec_capacity v"
proof -
  note D = vec_reprD [OF r]
  obtain b where b: "blk_write (length vs) x (vec_items v) = Some b" "blk_holds b (vs @ [x])"
      "blk_len b = blk_len (vec_items v)"
    by (rule blk_write_snoc [OF D(1)]) (use n D(2) in simp)
  have "szt (vec_size v + 1) = Suc (length vs)" using D(3,4) n by simp
  then show ?thesis
    using that [of "v\<lparr>vec_items := b, vec_size := Suc (length vs)\<rparr>"] b D
    by (simp add: vec_repr_def)
qed

definition vector_push_cap :: "'a cobalt_vector \<Rightarrow> nat" where
  "vector_push_cap v =
     (if vec_size v < vec_capacity v then vec_capacity v else if vec_capacity v = 0 then 1
      else min VECTOR_MAX_CAP (2 * vec_capacity v))"

text \<open>A push needs the allocator only if the array is full.\<close>

lemma vector_push_step:
  assumes r: "vec_repr v vs" and n: "length vs < VECTOR_MAX_CAP" and a: "a \<or> length vs < vec_capacity v"
  obtains v' where "vector_push_internal a v x = Some (0, None, v')" "vec_repr v' (vs @ [x])" "vec_capacity v' = vector_push_cap v"
proof (cases "vec_capacity v \<le> vec_size v")
  case False
  obtain v' where "blk_write (vec_size v) x (vec_items v) \<bind>
      (\<lambda>items. Some (0 :: int, None :: cobalt_error option,
         v\<lparr>vec_items := items, vec_size := szt (vec_size v + 1)\<rparr>)) = Some (0, None, v')"
    "vec_repr v' (vs @ [x])" "vec_capacity v' = vec_capacity v"
    by (rule push_grown [OF r, of x]) (use False vec_reprD(3) [OF r] in simp)
  with that False show ?thesis by (simp add: vector_push_internal_def Let_def vector_push_cap_def)
next
  case True
  note D = vec_reprD [OF r]
  let ?c = "if vec_capacity v = 0 then 1 else if VECTOR_MAX_CAP div 2 < vec_capacity v then VECTOR_MAX_CAP
    else vec_capacity v * 2"
  let ?w = "v\<lparr>vec_items := blk_resize ?c (vec_items v), vec_capacity := ?c\<rparr>"
  have c: "length vs < ?c" "?c \<le> VECTOR_MAX_CAP" using True D(3,5) n by auto
  have cap: "?c = vector_push_cap v" using True by (auto simp: vector_push_cap_def min_def)
  have w: "vec_repr ?w vs"
    using D c blk_resize_holds [OF D(1), of ?c] unfolding vec_repr_def by simp
  obtain v' where v': "blk_write (vec_size ?w) x (vec_items ?w) \<bind>
      (\<lambda>items. Some (0 :: int, None :: cobalt_error option,
         ?w\<lparr>vec_items := items, vec_size := szt (vec_size ?w + 1)\<rparr>)) = Some (0, None, v')"
    "vec_repr v' (vs @ [x])" "vec_capacity v' = vec_capacity ?w"
    by (rule push_grown [OF w, of x]) (use c in simp)
  have a': "a" using a True D(3) by simp
  have "vector_push_internal a v x = blk_write (vec_size ?w) x (vec_items ?w) \<bind>
      (\<lambda>items. Some (0, None, ?w\<lparr>vec_items := items, vec_size := szt (vec_size ?w + 1)\<rparr>))"
    unfolding vector_push_internal_def Let_def using True a' by (simp only: if_True if_False option.case simp_thms)
  moreover have "vec_capacity v' = vector_push_cap v" using v'(3) cap by simp
  ultimately show ?thesis using that v'(1,2) by metis
qed

lemma vector_push_repr:
  assumes "vec_repr v vs" "length vs < VECTOR_MAX_CAP"
  obtains v' where "vector_push_internal True v x = Some (0, None, v')" "vec_repr v' (vs @ [x])"
  using vector_push_step [OF assms, of True x] by blast

lemma remove_at_repr:
  assumes r: "vec_repr v vs" and i: "i < length vs"
  obtains b where "blk_move i (i + 1) (vec_size v - i - 1) (vec_items v) = Some b"
    "vec_repr (v\<lparr>vec_items := b, vec_size := szt_dec (vec_size v)\<rparr>) (take i vs @ drop (Suc i) vs)"
proof -
  note D = vec_reprD [OF r]
  obtain b where b: "blk_move i (Suc i) (length vs - i - 1) (vec_items v) = Some b"
    "blk_holds b (take i vs @ drop (Suc i) vs)" "blk_len b = blk_len (vec_items v)"
    by (rule blk_move_remove [OF D(1) i])
  have "szt_dec (length vs) = length (take i vs @ drop (Suc i) vs)" using i by (auto simp: szt_dec_def)
  then show ?thesis using that [of b] b D by (simp add: vec_repr_def)
qed

lemma take_drop_remove1:
  assumes "i < length vs" "vs ! i = x" "x \<notin> set (take i vs)"
  shows "take i vs @ drop (Suc i) vs = remove1 x vs"
proof -
  have "vs = take i vs @ x # drop (Suc i) vs" using assms(1,2) id_take_nth_drop by metis
  then show ?thesis using assms(3) by (metis remove1.simps(2) remove1_append)
qed

lemma remove_loop_repr:
  assumes r: "vec_repr v vs" and "i \<le> length vs" "x \<notin> set (take i vs)"
  shows "\<exists>v'. vector_remove_loop i v x = Some v' \<and> vec_repr v' (remove1 x vs)"
  using assms(2,3)
proof (induction "length vs - i" arbitrary: i)
  case 0
  then have "remove1 x vs = vs" by (simp add: remove1_idem)
  with 0 r vec_reprD(3) [OF r] show ?case by (subst vector_remove_loop.simps) simp
next
  case (Suc d)
  then have i: "i < length vs" by simp
  have rd: "blk_read (vec_items v) i = Some (vs ! i)" by (rule blk_read_holds [OF vec_reprD(1) [OF r] i])
  show ?case
  proof (cases "vs ! i = x")
    case True
    obtain b where "blk_move i (i + 1) (vec_size v - i - 1) (vec_items v) = Some b"
      "vec_repr (v\<lparr>vec_items := b, vec_size := szt_dec (vec_size v)\<rparr>) (take i vs @ drop (Suc i) vs)"
      by (rule remove_at_repr [OF r i])
    with True i rd vec_reprD(3) [OF r] take_drop_remove1 [OF i True Suc.prems(2)] show ?thesis
      by (subst vector_remove_loop.simps) simp
  next
    case False
    have "x \<notin> set (take (Suc i) vs)" using Suc.prems(2) False i by (simp add: take_Suc_conv_app_nth)
    with Suc.hyps(1) [of "Suc i"] Suc.hyps(2) i have
      "\<exists>v'. vector_remove_loop (Suc i) v x = Some v' \<and> vec_repr v' (remove1 x vs)" by simp
    with False i rd vec_reprD(3) [OF r] show ?thesis by (subst vector_remove_loop.simps) simp
  qed
qed

definition vec_ok :: "'a cobalt_vector \<Rightarrow> bool" where
  "vec_ok v \<longleftrightarrow> (\<exists>vs. vec_repr v vs)"

lemma vec_okD: "vec_ok v \<Longrightarrow> vec_repr v (vec_abs v)"
  by (auto simp: vec_ok_def vec_repr_abs)

lemma vec_okI: "vec_repr v vs \<Longrightarrow> vec_ok v \<and> vec_abs v = vs"
  by (auto simp: vec_ok_def vec_repr_abs)

interpretation vector_seq: seq_object "vector_seq_vtable True" vec_ok vec_abs VECTOR_MAX_CAP
proof
  show "\<exists>f. sv_size (vector_seq_vtable True) = Some f \<and> (\<forall>s. vec_ok s \<longrightarrow> f s = length (vec_abs s))"
    using vec_reprD(3) [OF vec_okD] by (auto simp: vector_seq_vtable_def vector_size_seq_def)
next
  fix s :: "'a cobalt_vector" and x :: "'a option" and i
  assume "vec_ok s"
  then have r: "vec_repr s (vec_abs s)" by (rule vec_okD)
  show "\<exists>f. sv_is_empty (vector_seq_vtable True) = Some f \<and> f s = (vec_abs s = [])"
    using vec_reprD(3) [OF r] by (simp add: vector_seq_vtable_def vector_is_empty_seq_def)
  show "\<exists>f e s'. sv_add (vector_seq_vtable True) = Some f \<and> f s x = Some (e, s') \<and> vec_ok s' \<and>
      vec_abs s' = vec_abs s @ [x]" if lim: "length (vec_abs s) < VECTOR_MAX_CAP"
  proof -
    obtain v' where "vector_push_internal True s x = Some (0, None, v')" "vec_repr v' (vec_abs s @ [x])"
      by (rule vector_push_repr [OF r lim])
    with vec_okI [of v'] show ?thesis by (simp add: vector_seq_vtable_def vector_add_seq_def)
  qed
  show "\<exists>f s'. sv_remove (vector_seq_vtable True) = Some f \<and> f s x = Some s' \<and> vec_ok s' \<and>
      vec_abs s' = (if x = None then vec_abs s else remove1 x (vec_abs s))"
  proof (cases "x = None")
    case True
    then show ?thesis using \<open>vec_ok s\<close> by (simp add: vector_seq_vtable_def vector_remove_seq_def)
  next
    case False
    obtain v' where "vector_remove_loop 0 s x = Some v'" "vec_repr v' (remove1 x (vec_abs s))"
      using remove_loop_repr [OF r, of 0 x] by auto
    with vec_okI [of v' "remove1 x (vec_abs s)"] False show ?thesis
      by (auto simp: vector_seq_vtable_def vector_remove_seq_def)
  qed
  show "\<exists>f e. sv_get_at_index (vector_seq_vtable True) = Some f \<and>
      f s i = Some (if i < length (vec_abs s) then vec_abs s ! i else None, e)"
    using vec_reprD(3) [OF r] blk_read_holds [OF vec_reprD(1) [OF r], of i]
    by (auto simp: vector_seq_vtable_def vector_get_at_index_seq_def)
qed

subsection \<open>Properties\<close>

lemma vector_create_repr:
  assumes "n \<le> VECTOR_MAX_CAP"
  obtains v where "cobalt_vector_create True True n = Some v" "vec_repr v []" "vec_capacity v = n"
  using that [of "\<lparr>vec_items = (if 0 < n then blk_new n else None), vec_capacity = n, vec_size = 0\<rparr>"] assms
  by (simp add: cobalt_vector_create_def cobalt_vector_create_with_allocator_def vec_repr_def blk_len_def blk_new_def)

text \<open>Each operation on a vector that holds \<open>vs\<close>.\<close>

lemma vector_push_op:
  assumes r: "vec_repr v vs" and n: "length vs < VECTOR_MAX_CAP"
  shows "if a \<or> length vs < vec_capacity v
     then \<exists>v'. cobalt_vector_push a (Some v) x = Some (0, None, Some v') \<and> vec_repr v' (vs @ [x]) \<and>
       vec_capacity v' = (if length vs < vec_capacity v then vec_capacity v else if vec_capacity v = 0 then 1
         else min VECTOR_MAX_CAP (2 * vec_capacity v))
     else cobalt_vector_push a (Some v) x = Some (-1, Some COBALT_ERROR_OUT_OF_MEMORY, Some v)"
proof (cases "a \<or> length vs < vec_capacity v")
  case True
  obtain v' where "vector_push_internal a v x = Some (0, None, v')" "vec_repr v' (vs @ [x])" "vec_capacity v' = vector_push_cap v"
    by (rule vector_push_step [OF r n True])
  then show ?thesis using True vec_reprD(3) [OF r] unfolding vector_push_cap_def by (simp add: cobalt_vector_push_def)
next
  case False
  then show ?thesis using vec_reprD(3) [OF r] by (simp add: cobalt_vector_push_def vector_push_internal_def Let_def)
qed

lemma vector_get_op:
  assumes r: "vec_repr v vs"
  shows "cobalt_vector_get (Some v) i =
      (if i < length vs then Some (vs ! i, None) else Some (None, Some COBALT_ERROR_OUT_OF_BOUNDS))"
  using vec_reprD(3) [OF r] blk_read_holds [OF vec_reprD(1) [OF r], of i] by (simp add: cobalt_vector_get_def)

lemma vector_set_op:
  assumes r: "vec_repr v vs"
  shows "if i < length vs
     then \<exists>v'. cobalt_vector_set (Some v) i x = Some (0, None, Some v') \<and> vec_repr v' (vs[i := x]) \<and> vec_capacity v' = vec_capacity v
     else cobalt_vector_set (Some v) i x = Some (-1, Some COBALT_ERROR_INVALID_ARGUMENT, Some v)"
proof (cases "i < length vs")
  case True
  note D = vec_reprD [OF r]
  obtain b where "blk_write i x (vec_items v) = Some b" "blk_holds b (vs[i := x])"
    "blk_len b = blk_len (vec_items v)" by (rule blk_write_holds [OF D(1) True])
  with True D show ?thesis by (simp add: cobalt_vector_set_def vec_repr_def)
qed (use vec_reprD(3) [OF r] in \<open>simp add: cobalt_vector_set_def\<close>)

lemma vector_remove_at_op:
  assumes r: "vec_repr v vs"
  shows "if i < length vs
     then \<exists>v'. cobalt_vector_remove_at (Some v) i = Some (Some v') \<and> vec_repr v' (take i vs @ drop (Suc i) vs) \<and> vec_capacity v' = vec_capacity v
     else cobalt_vector_remove_at (Some v) i = Some (Some v)"
proof (cases "i < length vs")
  case True
  obtain b where "blk_move i (i + 1) (vec_size v - i - 1) (vec_items v) = Some b"
    "vec_repr (v\<lparr>vec_items := b, vec_size := szt_dec (vec_size v)\<rparr>) (take i vs @ drop (Suc i) vs)"
    by (rule remove_at_repr [OF r True])
  with True vec_reprD(3) [OF r] show ?thesis by (simp add: cobalt_vector_remove_at_def)
qed (use vec_reprD(3) [OF r] in \<open>simp add: cobalt_vector_remove_at_def\<close>)

lemma vector_reserve_op:
  assumes r: "vec_repr v vs"
  shows "if m \<le> vec_capacity v then cobalt_vector_reserve a (Some v) m = (0, Some v)
     else if a \<and> m \<le> VECTOR_MAX_CAP
     then \<exists>v'. cobalt_vector_reserve a (Some v) m = (0, Some v') \<and> vec_repr v' vs \<and> vec_capacity v' = m
     else cobalt_vector_reserve a (Some v) m = (-1, Some v)"
proof -
  note D = vec_reprD [OF r]
  show ?thesis using r D blk_resize_holds [OF D(1), of m] by (simp add: cobalt_vector_reserve_def vec_repr_def)
qed

lemma vector_shrink_op:
  assumes r: "vec_repr v vs"
  shows "if length vs = vec_capacity v then cobalt_vector_shrink_to_fit a (Some v) = Some (0, Some v)
     else if a \<or> vs = []
     then \<exists>v'. cobalt_vector_shrink_to_fit a (Some v) = Some (0, Some v') \<and> vec_repr v' vs \<and> vec_capacity v' = length vs
     else cobalt_vector_shrink_to_fit a (Some v) = Some (-1, Some v)"
proof -
  note D = vec_reprD [OF r]
  show ?thesis
  proof (cases "vec_capacity v \<le> vec_size v \<or> vs = [] \<or> \<not> a")
    case True
    then show ?thesis using D by (auto simp: cobalt_vector_shrink_to_fit_def vec_repr_def blk_len_def blk_holds_def Let_def)
  next
    case False
    then obtain xs where xs: "vec_items v = Some xs"
      using D(1) by (auto simp: blk_holds_def split: option.splits)
    have "length vs \<le> length xs" "take (length vs) xs = map Some vs"
      using D(1) xs by (simp_all add: blk_holds_def)
    then show ?thesis
      using False D xs by (simp add: cobalt_vector_shrink_to_fit_def vec_repr_def Let_def blk_holds_def blk_len_def)
  qed
qed

lemma vector_null_ops:
  fixes x :: "'a option"
  shows "cobalt_vector_push a None x = Some (-1, Some COBALT_ERROR_INVALID_ARGUMENT, None) \<and>
    cobalt_vector_get (None :: 'a cobalt_vector option) i = Some (None, Some COBALT_ERROR_INVALID_ARGUMENT) \<and>
    cobalt_vector_set None i x = Some (-1, Some COBALT_ERROR_INVALID_ARGUMENT, None) \<and>
    cobalt_vector_remove_at (None :: 'a cobalt_vector option) i = Some None \<and> cobalt_vector_reserve a (None :: 'a cobalt_vector option) m = (-1, None) \<and> cobalt_vector_shrink_to_fit a (None :: 'a cobalt_vector option) = Some (-1, None)"
  by (simp add: cobalt_vector_push_def cobalt_vector_get_def cobalt_vector_set_def cobalt_vector_remove_at_def
      cobalt_vector_reserve_def cobalt_vector_shrink_to_fit_def)

text \<open>
  C26: the vector operations on every branch, with any answer of the allocator. On a vector that holds the elements
  \<open>vs\<close>: a push appends if there is room or memory suffices, doubling a full array up to the largest size, and otherwise
  reports it and changes nothing; \<open>get\<close> and \<open>set\<close> work on an index in range and fail outside; \<open>remove_at\<close> deletes one
  element; \<open>reserve\<close> and \<open>shrink_to_fit\<close> set the capacity and keep the elements, or fail and change nothing. NULL is refused. No
  operation touches memory outside the array.
\<close>

theorem vector_operations:
  fixes v :: "'a cobalt_vector"
  assumes r: "vec_repr v vs" and n: "length vs < VECTOR_MAX_CAP"
  shows "(if a \<or> length vs < vec_capacity v
     then \<exists>v'. cobalt_vector_push a (Some v) x = Some (0, None, Some v') \<and> vec_repr v' (vs @ [x]) \<and>
       vec_capacity v' = (if length vs < vec_capacity v then vec_capacity v else if vec_capacity v = 0 then 1
         else min VECTOR_MAX_CAP (2 * vec_capacity v))
     else cobalt_vector_push a (Some v) x = Some (-1, Some COBALT_ERROR_OUT_OF_MEMORY, Some v)) \<and>
    cobalt_vector_get (Some v) i =
      (if i < length vs then Some (vs ! i, None) else Some (None, Some COBALT_ERROR_OUT_OF_BOUNDS)) \<and>
    (if i < length vs
     then \<exists>v'. cobalt_vector_set (Some v) i x = Some (0, None, Some v') \<and> vec_repr v' (vs[i := x]) \<and> vec_capacity v' = vec_capacity v
     else cobalt_vector_set (Some v) i x = Some (-1, Some COBALT_ERROR_INVALID_ARGUMENT, Some v)) \<and>
    (if i < length vs
     then \<exists>v'. cobalt_vector_remove_at (Some v) i = Some (Some v') \<and> vec_repr v' (take i vs @ drop (Suc i) vs) \<and> vec_capacity v' = vec_capacity v
     else cobalt_vector_remove_at (Some v) i = Some (Some v)) \<and>
    (if m \<le> vec_capacity v then cobalt_vector_reserve a (Some v) m = (0, Some v)
     else if a \<and> m \<le> VECTOR_MAX_CAP
     then \<exists>v'. cobalt_vector_reserve a (Some v) m = (0, Some v') \<and> vec_repr v' vs \<and> vec_capacity v' = m
     else cobalt_vector_reserve a (Some v) m = (-1, Some v)) \<and>
    (if length vs = vec_capacity v then cobalt_vector_shrink_to_fit a (Some v) = Some (0, Some v)
     else if a \<or> vs = []
     then \<exists>v'. cobalt_vector_shrink_to_fit a (Some v) = Some (0, Some v') \<and> vec_repr v' vs \<and> vec_capacity v' = length vs
     else cobalt_vector_shrink_to_fit a (Some v) = Some (-1, Some v)) \<and>
    cobalt_vector_push a None x = Some (-1, Some COBALT_ERROR_INVALID_ARGUMENT, None) \<and>
    cobalt_vector_get (None :: 'a cobalt_vector option) i = Some (None, Some COBALT_ERROR_INVALID_ARGUMENT) \<and>
    cobalt_vector_set None i x = Some (-1, Some COBALT_ERROR_INVALID_ARGUMENT, None) \<and>
    cobalt_vector_remove_at (None :: 'a cobalt_vector option) i = Some None \<and> cobalt_vector_reserve a (None :: 'a cobalt_vector option) m = (-1, None) \<and> cobalt_vector_shrink_to_fit a (None :: 'a cobalt_vector option) = Some (-1, None)"
  using vector_push_op [OF r n, of a x] vector_get_op [OF r, of i] vector_set_op [OF r, of i x] vector_remove_at_op [OF r, of i]
    vector_reserve_op [OF r, of m a] vector_shrink_op [OF r, of a] vector_null_ops [of a x i m]
  by (elim conjE) (intro conjI; assumption)

theorem vector_operations_witness:
  "\<exists>v' v''. cobalt_vector_push False (Some \<lparr>vec_items = Some [Some (Some (1::nat)), None], vec_capacity = 2, vec_size = 1\<rparr>) None = Some (0, None, Some v') \<and>
     cobalt_vector_reserve True (Some \<lparr>vec_items = Some [Some (Some (1::nat)), None], vec_capacity = 2, vec_size = 1\<rparr>) 5 = (0, Some v'') \<and>
     vec_repr v' [Some 1, None] \<and> vec_capacity v'' = 5"
proof -
  let ?v = "\<lparr>vec_items = Some [Some (Some (1::nat)), None], vec_capacity = 2, vec_size = 1\<rparr>"
  have r: "vec_repr ?v [Some 1]" by (simp add: vec_repr_def blk_holds_def blk_len_def)
  from vector_operations [OF r, of False None 0 5] vector_operations [OF r, of True None 0 5] show ?thesis by auto
qed

text \<open>
  a vector created with room for elements whose array could not be allocated is returned as if
  it had that capacity; the first push then writes through the NULL array.
\<close>

theorem vector_create_unchecked:
  assumes "0 < n" "n \<le> VECTOR_MAX_CAP"
  shows "\<exists>v. cobalt_vector_create True False n = Some v \<and> vec_capacity v = n \<and>
    cobalt_vector_push a (Some v) x = None"
  using assms by (simp add: cobalt_vector_create_def cobalt_vector_create_with_allocator_def
      cobalt_vector_push_def vector_push_internal_def blk_write_def)

theorem vector_create_unchecked_witness:
  "\<exists>v. cobalt_vector_create True False 4 = Some v \<and> vec_capacity v = 4 \<and>
    cobalt_vector_push True (Some v) (Some (1::nat)) = None"
  using vector_create_unchecked [of 4 True "Some (1::nat)"] by simp

end
