(* ===== verification/Cobalt_DList.thy ===== *)
theory Cobalt_DList
  imports Cobalt_Sequence
begin

section \<open>Doubly linked nodes\<close>

text \<open>
  The node and header shape that \<open>src/container/deque.c\<close> and \<open>src/container/list.c\<close> share, with the
  pointer manipulations their operations are made of. A header and the heap of nodes are passed
  explicitly; a NULL or dangling dereference is the result \<open>None\<close>, and so is a traversal of a cyclic
  chain. \<open>dseg\<close> is the relational abstraction of a chain by the list of its addresses.
\<close>

record 'a dnode =
  nd_data :: "'a option"
  nd_next :: "nat option"
  nd_prev :: "nat option"

record dlist =
  dl_head :: "nat option"
  dl_tail :: "nat option"
  dl_size :: nat

type_synonym 'a dstate = "'a dnode heap \<times> dlist"
type_synonym 'a dresult = "(int \<times> cobalt_error option \<times> 'a dstate) option"

definition dl_push_front :: "bool \<Rightarrow> 'a option \<Rightarrow> 'a dstate \<Rightarrow> 'a dresult" where
  "dl_push_front alloc item s = (let (h, d) = s in
     case heap_new alloc \<lparr>nd_data = item, nd_next = dl_head d, nd_prev = None\<rparr> h of
       None \<Rightarrow> Some (-1, Some COBALT_ERROR_OUT_OF_MEMORY, (h, d))
     | Some (node, h) \<Rightarrow>
         (case dl_head d of
            Some b \<Rightarrow> heap_upd b (\<lambda>n. n\<lparr>nd_prev := Some node\<rparr>) h \<bind> (\<lambda>h. Some (h, d))
          | None \<Rightarrow> Some (h, d\<lparr>dl_tail := Some node\<rparr>)) \<bind>
         (\<lambda>(h, d). Some (0, None, (h, d\<lparr>dl_head := Some node, dl_size := szt (dl_size d + 1)\<rparr>))))"

definition dl_push_back :: "bool \<Rightarrow> 'a option \<Rightarrow> 'a dstate \<Rightarrow> 'a dresult" where
  "dl_push_back alloc item s = (let (h, d) = s in
     case heap_new alloc \<lparr>nd_data = item, nd_next = None, nd_prev = dl_tail d\<rparr> h of
       None \<Rightarrow> Some (-1, Some COBALT_ERROR_OUT_OF_MEMORY, (h, d))
     | Some (node, h) \<Rightarrow>
         (case dl_tail d of
            Some b \<Rightarrow> heap_upd b (\<lambda>n. n\<lparr>nd_next := Some node\<rparr>) h \<bind> (\<lambda>h. Some (h, d))
          | None \<Rightarrow> Some (h, d\<lparr>dl_head := Some node\<rparr>)) \<bind>
         (\<lambda>(h, d). Some (0, None, (h, d\<lparr>dl_tail := Some node, dl_size := szt (dl_size d + 1)\<rparr>))))"

definition dl_pop_front :: "'a dstate \<Rightarrow> ('a option \<times> cobalt_error option \<times> 'a dstate) option" where
  "dl_pop_front s = (let (h, d) = s in
     case dl_head d of
       None \<Rightarrow> Some (None, Some COBALT_ERROR_EMPTY_CONTAINER, (h, d))
     | Some node \<Rightarrow>
         heap_read h node \<bind>
         (\<lambda>n. (case nd_next n of
                 Some b \<Rightarrow> heap_upd b (\<lambda>m. m\<lparr>nd_prev := None\<rparr>) h \<bind> (\<lambda>h. Some (h, d))
               | None \<Rightarrow> Some (h, d\<lparr>dl_tail := None\<rparr>)) \<bind>
              (\<lambda>(h, d). heap_free node h \<bind>
                (\<lambda>h. Some (nd_data n, None, (h, d\<lparr>dl_head := nd_next n, dl_size := szt_dec (dl_size d)\<rparr>))))))"

definition dl_pop_back :: "'a dstate \<Rightarrow> ('a option \<times> cobalt_error option \<times> 'a dstate) option" where
  "dl_pop_back s = (let (h, d) = s in
     case dl_tail d of
       None \<Rightarrow> Some (None, Some COBALT_ERROR_EMPTY_CONTAINER, (h, d))
     | Some node \<Rightarrow>
         heap_read h node \<bind>
         (\<lambda>n. (case nd_prev n of
                 Some b \<Rightarrow> heap_upd b (\<lambda>m. m\<lparr>nd_next := None\<rparr>) h \<bind> (\<lambda>h. Some (h, d))
               | None \<Rightarrow> Some (h, d\<lparr>dl_head := None\<rparr>)) \<bind>
              (\<lambda>(h, d). heap_free node h \<bind>
                (\<lambda>h. Some (nd_data n, None, (h, d\<lparr>dl_tail := nd_prev n, dl_size := szt_dec (dl_size d)\<rparr>))))))"

text \<open>Unlinking a node whose predecessor is \<open>prv\<close> and releasing it.\<close>

definition dl_unlink :: "nat option \<Rightarrow> nat \<Rightarrow> 'a dstate \<Rightarrow> 'a dstate option" where
  "dl_unlink prv node s = (let (h, d) = s in
     heap_read h node \<bind>
     (\<lambda>n. (case prv of
             Some p \<Rightarrow> heap_upd p (\<lambda>m. m\<lparr>nd_next := nd_next n\<rparr>) h \<bind> (\<lambda>h. Some (h, d))
           | None \<Rightarrow> Some (h, d\<lparr>dl_head := nd_next n\<rparr>)) \<bind>
      (\<lambda>(h, d). heap_read h node \<bind>
       (\<lambda>n. (case nd_next n of
               Some q \<Rightarrow> heap_upd q (\<lambda>m. m\<lparr>nd_prev := prv\<rparr>) h \<bind> (\<lambda>h. Some (h, d))
             | None \<Rightarrow> Some (h, d\<lparr>dl_tail := prv\<rparr>)) \<bind>
        (\<lambda>(h, d). heap_free node h \<bind>
          (\<lambda>h. Some (h, d\<lparr>dl_size := szt_dec (dl_size d)\<rparr>)))))))"

text \<open>
  The search loop \<open>while (node)\<close>: the first node whose data satisfies a predicate, with the node
  before it.
\<close>

partial_function (option) dl_find ::
    "('a option \<Rightarrow> bool) \<Rightarrow> 'a dnode heap \<Rightarrow> nat option \<Rightarrow> nat option \<Rightarrow> (nat option \<times> nat) option option" where
  "dl_find P h prv node =
     (case node of
        None \<Rightarrow> Some None
      | Some a \<Rightarrow>
          heap_read h a \<bind>
          (\<lambda>n. if P (nd_data n) then Some (Some (prv, a)) else dl_find P h (Some a) (nd_next n)))"

declare dl_find.simps [code]

fun dl_walk_next :: "'a dnode heap \<Rightarrow> nat \<Rightarrow> nat option \<Rightarrow> nat option option" where
  "dl_walk_next h 0 node = Some node"
| "dl_walk_next h (Suc i) node = node \<bind> heap_read h \<bind> (\<lambda>n. dl_walk_next h i (nd_next n))"

fun dl_walk_prev :: "'a dnode heap \<Rightarrow> nat \<Rightarrow> nat option \<Rightarrow> nat option option" where
  "dl_walk_prev h 0 node = Some node"
| "dl_walk_prev h (Suc i) node = node \<bind> heap_read h \<bind> (\<lambda>n. dl_walk_prev h i (nd_prev n))"

partial_function (option) dl_free_all :: "'a dnode heap \<Rightarrow> nat option \<Rightarrow> 'a dnode heap option" where
  "dl_free_all h node =
     (case node of
        None \<Rightarrow> Some h
      | Some a \<Rightarrow> heap_read h a \<bind> (\<lambda>n. heap_free a h \<bind> (\<lambda>h. dl_free_all h (nd_next n))))"

declare dl_free_all.simps [code]

subsection \<open>Chains\<close>

fun dseg :: "(nat \<rightharpoonup> 'a dnode) \<Rightarrow> nat option \<Rightarrow> nat option \<Rightarrow> nat list \<Rightarrow> nat option \<Rightarrow> nat option \<Rightarrow> bool" where
  "dseg m p prv [] nxt lst \<longleftrightarrow> p = nxt \<and> lst = prv"
| "dseg m p prv (a # as) nxt lst \<longleftrightarrow>
     p = Some a \<and> (\<exists>n. m a = Some n \<and> nd_prev n = prv \<and> dseg m (nd_next n) (Some a) as nxt lst)"

definition dl_data :: "(nat \<rightharpoonup> 'a dnode) \<Rightarrow> nat list \<Rightarrow> 'a option list" where
  "dl_data m ps = map (\<lambda>a. nd_data (the (m a))) ps"

fun dl_chain :: "(nat \<rightharpoonup> 'a dnode) \<Rightarrow> nat \<Rightarrow> nat option \<Rightarrow> nat list" where
  "dl_chain m (Suc k) (Some a) = (case m a of None \<Rightarrow> [] | Some n \<Rightarrow> a # dl_chain m k (nd_next n))"
| "dl_chain m _ _ = []"

lemma dseg_append:
  "dseg m p prv (as @ bs) nxt lst \<longleftrightarrow> (\<exists>q l. dseg m p prv as q l \<and> dseg m q l bs nxt lst)"
  by (induction as arbitrary: p prv) auto

lemma dseg_upd [simp]:
  "a \<notin> set as \<Longrightarrow> dseg (m(a := v)) p prv as nxt lst \<longleftrightarrow> dseg m p prv as nxt lst"
  by (induction as arbitrary: p prv) auto

lemma dl_data_upd [simp]: "a \<notin> set as \<Longrightarrow> dl_data (m(a := v)) as = dl_data m as"
  by (auto simp: dl_data_def)

lemma dl_data_same:
  "m a = Some n \<Longrightarrow> nd_data n' = nd_data n \<Longrightarrow> dl_data (m(a \<mapsto> n')) as = dl_data m as"
  by (auto simp: dl_data_def)

lemma dl_data_simps [simp]:
  "dl_data m [] = []" "dl_data m (a # as) = nd_data (the (m a)) # dl_data m as"
  "dl_data m (as @ bs) = dl_data m as @ dl_data m bs" "length (dl_data m as) = length as"
  by (simp_all add: dl_data_def)

lemma dseg_dom: "dseg m p prv as nxt lst \<Longrightarrow> a \<in> set as \<Longrightarrow> \<exists>n. m a = Some n"
  by (induction as arbitrary: p prv) auto

lemma dseg_chain: "dseg m p prv as None lst \<Longrightarrow> dl_chain m (length as) p = as"
  by (induction as arbitrary: p prv) auto

definition dl_repr :: "'a dstate \<Rightarrow> nat list \<Rightarrow> bool" where
  "dl_repr s ps \<longleftrightarrow> (let (h, d) = s in
     heap_ok h \<and> distinct ps \<and> dseg (hp_map h) (dl_head d) None ps None (dl_tail d) \<and>
     dl_size d = length ps \<and> length ps \<le> SIZE_MAX)"

definition dl_abs :: "'a dstate \<Rightarrow> 'a option list" where
  "dl_abs s = (let (h, d) = s in dl_data (hp_map h) (dl_chain (hp_map h) (dl_size d) (dl_head d)))"

definition dl_ok :: "'a dstate \<Rightarrow> bool" where
  "dl_ok s \<longleftrightarrow> (\<exists>ps. dl_repr s ps)"

lemma dl_reprD:
  assumes "dl_repr (h, d) ps"
  shows "heap_ok h" "distinct ps" "dseg (hp_map h) (dl_head d) None ps None (dl_tail d)"
    "dl_size d = length ps" "length ps \<le> SIZE_MAX"
  using assms by (simp_all add: dl_repr_def)

lemma dl_repr_abs: "dl_repr (h, d) ps \<Longrightarrow> dl_abs (h, d) = dl_data (hp_map h) ps"
  using dseg_chain [of "hp_map h" "dl_head d" None ps "dl_tail d"] by (simp add: dl_repr_def dl_abs_def)

lemma dl_okE:
  assumes "dl_ok s"
  obtains h d ps where "s = (h, d)" "dl_repr (h, d) ps" "dl_abs s = dl_data (hp_map h) ps"
  using assms by (cases s) (auto simp: dl_ok_def dl_repr_abs)

lemma dl_okI: "dl_repr (h, d) ps \<Longrightarrow> dl_ok (h, d) \<and> dl_abs (h, d) = dl_data (hp_map h) ps"
  by (auto simp: dl_ok_def dl_repr_abs)

lemma dl_size_abs: "dl_ok (h, d) \<Longrightarrow> dl_size d = length (dl_abs (h, d))"
  by (auto elim!: dl_okE simp: dl_repr_def)

subsection \<open>The operations on chains\<close>

lemma dseg_nonempty: "dseg m (Some a) prv ps None lst \<Longrightarrow> \<exists>as. ps = a # as"
  by (cases ps) auto

lemma dseg_tail: "dseg m p None ps None (Some t) \<Longrightarrow> \<exists>as. ps = as @ [t]"
  by (cases ps rule: rev_cases) (auto simp: dseg_append)

lemma dseg_tail_None: "dseg m p None ps None None \<longleftrightarrow> ps = [] \<and> p = None"
  by (cases ps rule: rev_cases) (auto simp: dseg_append)

lemma fresh_notin: "heap_ok h \<Longrightarrow> dseg (hp_map h) p prv ps nxt lst \<Longrightarrow> hp_next h \<notin> set ps"
  using dseg_dom heap_ok_fresh by fastforce

lemma push_front_ok:
  assumes r: "dl_repr (h, d) ps" and n: "length ps < SIZE_MAX"
  obtains h' d' where "dl_push_front True x (h, d) = Some (0, None, (h', d'))"
    "dl_repr (h', d') (hp_next h # ps)" "dl_data (hp_map h') (hp_next h # ps) = x # dl_data (hp_map h) ps"
    "dom (hp_map h') = insert (hp_next h) (dom (hp_map h))"
proof -
  note D = dl_reprD [OF r]
  let ?a = "hp_next h"
  have a: "?a \<notin> set ps" "hp_map h ?a = None" using fresh_notin D by simp_all
  have ok: "heap_ok \<lparr>hp_next = Suc ?a, hp_map = (hp_map h)(?a \<mapsto> v)\<rparr>" for v
    using D(1) by (auto simp: heap_ok_def)
  show ?thesis
  proof (cases "dl_head d")
    case None
    then have "ps = []" using D(3) by (cases ps) auto
    with None that D ok show ?thesis
      by (auto simp: dl_push_front_def heap_new_def dl_repr_def Let_def)
  next
    case (Some b)
    then obtain bs where ps: "ps = b # bs" using dseg_nonempty D(3) by metis
    obtain nb where nb: "hp_map h b = Some nb" "nd_prev nb = None"
        "dseg (hp_map h) (nd_next nb) (Some b) bs None (dl_tail d)"
      using D(3) ps by auto
    have ne: "b \<noteq> ?a" using a ps by auto
    let ?na = "\<lparr>nd_data = x, nd_next = Some b, nd_prev = None\<rparr>"
    let ?h1 = "\<lparr>hp_next = Suc ?a, hp_map = (hp_map h)(?a \<mapsto> ?na)\<rparr>"
    let ?h2 = "?h1\<lparr>hp_map := (hp_map ?h1)(b \<mapsto> nb\<lparr>nd_prev := Some ?a\<rparr>)\<rparr>"
    have u: "heap_upd b (\<lambda>n. n\<lparr>nd_prev := Some ?a\<rparr>) ?h1 = Some ?h2" using nb ne by (simp add: heap_upd_def)
    have ok2: "heap_ok ?h2" using heap_ok_upd [OF ok u] .
    let ?d = "d\<lparr>dl_head := Some ?a, dl_size := szt (dl_size d + 1)\<rparr>"
    have "dl_push_front True x (h, d) = Some (0, None, (?h2, ?d))"
      using Some u by (simp add: dl_push_front_def heap_new_def Let_def)
    moreover have "dl_repr (?h2, ?d) (?a # ps)"
      using ok2 D a n nb ne unfolding ps by (simp add: dl_repr_def)
    moreover have "dl_data (hp_map ?h2) (?a # ps) = x # dl_data (hp_map h) ps"
      using a nb ne D(2) unfolding ps by simp
    moreover have "dom (hp_map ?h2) = insert ?a (dom (hp_map h))" using nb(1) by auto
    ultimately show ?thesis using that by blast
  qed
qed

lemma push_back_ok:
  assumes r: "dl_repr (h, d) ps" and n: "length ps < SIZE_MAX"
  obtains h' d' where "dl_push_back True x (h, d) = Some (0, None, (h', d'))"
    "dl_repr (h', d') (ps @ [hp_next h])" "dl_data (hp_map h') (ps @ [hp_next h]) = dl_data (hp_map h) ps @ [x]"
    "dom (hp_map h') = insert (hp_next h) (dom (hp_map h))"
proof -
  note D = dl_reprD [OF r]
  let ?a = "hp_next h"
  have a: "?a \<notin> set ps" "hp_map h ?a = None" using fresh_notin D by simp_all
  have ok: "heap_ok \<lparr>hp_next = Suc ?a, hp_map = (hp_map h)(?a \<mapsto> v)\<rparr>" for v
    using D(1) by (auto simp: heap_ok_def)
  show ?thesis
  proof (cases "dl_tail d")
    case None
    then have "ps = []" "dl_head d = None" using D(3) dseg_tail_None by fastforce+
    with None that D ok show ?thesis
      by (auto simp: dl_push_back_def heap_new_def dl_repr_def Let_def)
  next
    case (Some t)
    then obtain bs where ps: "ps = bs @ [t]" using dseg_tail D(3) by metis
    obtain l nt where nt: "hp_map h t = Some nt" "nd_prev nt = l" "nd_next nt = None"
        "dseg (hp_map h) (dl_head d) None bs (Some t) l"
      using D(3) ps by (auto simp: dseg_append)
    have ne: "t \<noteq> ?a" "t \<notin> set bs" "?a \<notin> set bs" using a ps D(2) by auto
    let ?na = "\<lparr>nd_data = x, nd_next = None, nd_prev = Some t\<rparr>"
    let ?h1 = "\<lparr>hp_next = Suc ?a, hp_map = (hp_map h)(?a \<mapsto> ?na)\<rparr>"
    let ?h2 = "?h1\<lparr>hp_map := (hp_map ?h1)(t \<mapsto> nt\<lparr>nd_next := Some ?a\<rparr>)\<rparr>"
    have u: "heap_upd t (\<lambda>n. n\<lparr>nd_next := Some ?a\<rparr>) ?h1 = Some ?h2" using nt ne by (simp add: heap_upd_def)
    have ok2: "heap_ok ?h2" using heap_ok_upd [OF ok u] .
    let ?d = "d\<lparr>dl_tail := Some ?a, dl_size := szt (dl_size d + 1)\<rparr>"
    have "dl_push_back True x (h, d) = Some (0, None, (?h2, ?d))"
      using Some u by (simp add: dl_push_back_def heap_new_def Let_def)
    moreover have "dl_repr (?h2, ?d) (ps @ [?a])"
      using ok2 D(2,4) a n nt ne unfolding ps by (auto simp: dl_repr_def dseg_append)
    moreover have "dl_data (hp_map ?h2) (ps @ [?a]) = dl_data (hp_map h) ps @ [x]"
      using a nt ne unfolding ps by simp
    moreover have "dom (hp_map ?h2) = insert ?a (dom (hp_map h))" using nt(1) by auto
    ultimately show ?thesis using that by blast
  qed
qed

lemma push_oom:
  "dl_push_front False x (h, d) = Some (-1, Some COBALT_ERROR_OUT_OF_MEMORY, (h, d))"
  "dl_push_back False x (h, d) = Some (-1, Some COBALT_ERROR_OUT_OF_MEMORY, (h, d))"
  by (simp_all add: dl_push_front_def dl_push_back_def heap_new_def)

text \<open>Unlinking an inner, first or last node.\<close>

fun last_opt :: "nat list \<Rightarrow> nat option" where
  "last_opt [] = None"
| "last_opt (a # as) = Some (last (a # as))"

lemma last_opt_snoc [simp]: "last_opt (as @ [a]) = Some a"
  by (cases as) simp_all

lemma dseg_last: "dseg m p prv as nxt lst \<Longrightarrow> lst = (if as = [] then prv else last_opt as)"
  by (induction as arbitrary: p prv) (auto, (metis last_opt.simps list.exhaust)+)

lemma heap_ok_map: "heap_ok h \<Longrightarrow> (\<And>a. hp_map h a = None \<Longrightarrow> f a = None) \<Longrightarrow> heap_ok (h\<lparr>hp_map := f\<rparr>)"
  by (simp add: heap_ok_def)

lemma unlink_ok:
  assumes r: "dl_repr (h, d) (as @ x # bs)"
  obtains h' d' where "dl_unlink (last_opt as) x (h, d) = Some (h', d')" "dl_repr (h', d') (as @ bs)"
    "dl_data (hp_map h') (as @ bs) = dl_data (hp_map h) (as @ bs)" "hp_map h' x = None"
    "dom (hp_map h') = dom (hp_map h) - {x}"
proof -
  note D = dl_reprD [OF r]
  obtain nx where nx: "hp_map h x = Some nx" "nd_prev nx = last_opt as"
      "dseg (hp_map h) (dl_head d) None as (Some x) (last_opt as)"
      "dseg (hp_map h) (nd_next nx) (Some x) bs None (dl_tail d)"
  proof -
    obtain l nx where n: "hp_map h x = Some nx" "nd_prev nx = l" "dseg (hp_map h) (dl_head d) None as (Some x) l"
        "dseg (hp_map h) (nd_next nx) (Some x) bs None (dl_tail d)"
      using D(3) by (auto simp: dseg_append)
    moreover have "l = last_opt as" using dseg_last [OF n(3)] by (cases as) simp_all
    ultimately show thesis using that by simp
  qed
  have dist: "x \<notin> set as" "x \<notin> set bs" "distinct as" "distinct bs" "set as \<inter> set bs = {}" using D(2) by auto
  have sz: "szt_dec (dl_size d) = length (as @ bs)" using D(4) by simp
  show ?thesis
  proof (cases as rule: rev_cases)
    case Nil
    show ?thesis
    proof (cases bs)
      case Nil2: Nil
      have "nd_next nx = None" "dl_tail d = Some x" using nx(4) Nil2 by simp_all
      then show ?thesis using Nil Nil2 nx(1) sz D
        by (intro that [of "h\<lparr>hp_map := (hp_map h)(x := None)\<rparr>" "\<lparr>dl_head = None, dl_tail = None, dl_size = 0\<rparr>"])
          (auto simp: dl_unlink_def heap_read_def heap_free_def dl_repr_def intro!: heap_ok_map)
    next
      case (Cons q bs')
      obtain nq where nq: "hp_map h q = Some nq" "nd_next nx = Some q"
        "dseg (hp_map h) (nd_next nq) (Some q) bs' None (dl_tail d)" using nx(4) Cons by auto
      have q: "q \<noteq> x" "q \<notin> set bs'" "x \<notin> set bs'" using dist Cons by auto
      let ?m = "(hp_map h)(q \<mapsto> nq\<lparr>nd_prev := None\<rparr>, x := None)"
      have "dl_unlink (last_opt as) x (h, d) =
          Some (h\<lparr>hp_map := ?m\<rparr>, d\<lparr>dl_head := Some q, dl_size := szt_dec (dl_size d)\<rparr>)"
        using Nil nx(1) nq q by (simp add: dl_unlink_def heap_read_def heap_free_def heap_upd_def)
      then show ?thesis using that Nil Cons nq q sz D dist
        by (fastforce simp: dl_repr_def intro!: heap_ok_map)
    qed
  next
    case (snoc as' p)
    obtain np where np: "hp_map h p = Some np" "nd_next np = Some x"
      "dseg (hp_map h) (dl_head d) None as' (Some p) (nd_prev np)" using nx(3) snoc by (auto simp: dseg_append)
    have p: "p \<noteq> x" "p \<notin> set as'" "x \<notin> set as'" "p \<notin> set bs" using dist snoc by auto
    show ?thesis
    proof (cases bs)
      case Nil
      have nn: "nd_next nx = None" "dl_tail d = Some x" using nx(4) Nil by simp_all
      let ?m = "(hp_map h)(p \<mapsto> np\<lparr>nd_next := None\<rparr>, x := None)"
      have "dl_unlink (last_opt as) x (h, d) =
          Some (h\<lparr>hp_map := ?m\<rparr>, d\<lparr>dl_tail := Some p, dl_size := szt_dec (dl_size d)\<rparr>)"
        using snoc nx(1) np p nn by (simp add: dl_unlink_def heap_read_def heap_free_def heap_upd_def)
      then show ?thesis using that snoc Nil np p sz D dist
        by (fastforce simp: dl_repr_def dseg_append intro!: heap_ok_map)
    next
      case (Cons q bs')
      obtain nq where nq: "hp_map h q = Some nq" "nd_next nx = Some q" "nd_prev nq = Some x"
        "dseg (hp_map h) (nd_next nq) (Some q) bs' None (dl_tail d)" using nx(4) Cons by auto
      have q: "q \<noteq> x" "q \<notin> set bs'" "x \<notin> set bs'" "q \<notin> set as'" "q \<noteq> p" "p \<notin> set bs'"
        using dist Cons p snoc by auto
      let ?m = "(hp_map h)(p \<mapsto> np\<lparr>nd_next := Some q\<rparr>, q \<mapsto> nq\<lparr>nd_prev := Some p\<rparr>, x := None)"
      have "dl_unlink (last_opt as) x (h, d) =
          Some (h\<lparr>hp_map := ?m\<rparr>, d\<lparr>dl_size := szt_dec (dl_size d)\<rparr>)"
        using snoc nx(1) np p nq q by (simp add: dl_unlink_def heap_read_def heap_free_def heap_upd_def)
      moreover have "dl_repr (h\<lparr>hp_map := ?m\<rparr>, d\<lparr>dl_size := szt_dec (dl_size d)\<rparr>) (as @ bs)"
        using snoc Cons np p nq q sz D dist
        by (auto simp: dl_repr_def dseg_append intro!: heap_ok_map)
      moreover have "dl_data ?m (as @ bs) = dl_data (hp_map h) (as @ bs)"
        using snoc Cons np p nq q by simp
      moreover have "dom ?m = dom (hp_map h) - {x}" using np(1) nq(1) by auto
      ultimately show ?thesis using that by simp
    qed
  qed
qed

lemma pop_front_unlink:
  assumes "dl_repr (h, d) (x # bs)" "dl_unlink None x (h, d) = Some s'"
  shows "dl_pop_front (h, d) = Some (nd_data (the (hp_map h x)), None, s')"
proof -
  obtain nx where nx: "dl_head d = Some x" "hp_map h x = Some nx" using dl_reprD(3) [OF assms(1)] by auto
  show ?thesis
    using assms(2) nx
    by (cases "nd_next nx") (auto simp: dl_unlink_def dl_pop_front_def heap_read_def bind_eq_Some_conv)
qed

lemma pop_back_unlink:
  assumes "dl_repr (h, d) (as @ [x])" "dl_unlink (last_opt as) x (h, d) = Some s'"
  shows "dl_pop_back (h, d) = Some (nd_data (the (hp_map h x)), None, s')"
proof -
  obtain l nx where nx: "dl_tail d = Some x" "hp_map h x = Some nx" "nd_next nx = None" "nd_prev nx = l"
      "dseg (hp_map h) (dl_head d) None as (Some x) l"
    using dl_reprD(3) [OF assms(1)] by (auto simp: dseg_append)
  have l: "nd_prev nx = last_opt as" using dseg_last [OF nx(5)] nx(4) by (cases as) simp_all
  show ?thesis
  proof (cases "last_opt as")
    case None
    then show ?thesis using assms(2) nx(1-3) l
      by (auto simp: dl_unlink_def dl_pop_back_def heap_read_def bind_eq_Some_conv)
  next
    case (Some p)
    have "p \<noteq> x" using dl_reprD(2) [OF assms(1)] Some by (cases as rule: rev_cases) auto
    then show ?thesis using assms(2) nx(1-3) l Some
      by (auto simp: dl_unlink_def dl_pop_back_def heap_read_def heap_upd_def bind_eq_Some_conv split: option.splits)
  qed
qed

lemma pop_front_ok:
  assumes r: "dl_repr (h, d) (x # bs)"
  obtains h' d' where "dl_pop_front (h, d) = Some (nd_data (the (hp_map h x)), None, (h', d'))"
    "dl_repr (h', d') bs" "dl_data (hp_map h') bs = dl_data (hp_map h) bs"
    "dom (hp_map h') = dom (hp_map h) - {x}"
proof -
  have r': "dl_repr (h, d) ([] @ x # bs)" using r by simp
  from unlink_ok [OF r'] obtain h' d' where "dl_unlink (last_opt []) x (h, d) = Some (h', d')"
    "dl_repr (h', d') ([] @ bs)" "dl_data (hp_map h') ([] @ bs) = dl_data (hp_map h) ([] @ bs)"
    "hp_map h' x = None" "dom (hp_map h') = dom (hp_map h) - {x}" .
  with pop_front_unlink [OF r, of "(h', d')"] that [of h' d'] show ?thesis by simp
qed

lemma pop_back_ok:
  assumes r: "dl_repr (h, d) (as @ [x])"
  obtains h' d' where "dl_pop_back (h, d) = Some (nd_data (the (hp_map h x)), None, (h', d'))"
    "dl_repr (h', d') as" "dl_data (hp_map h') as = dl_data (hp_map h) as"
    "dom (hp_map h') = dom (hp_map h) - {x}"
proof -
  from unlink_ok [OF r] obtain h' d' where "dl_unlink (last_opt as) x (h, d) = Some (h', d')"
    "dl_repr (h', d') (as @ [])" "dl_data (hp_map h') (as @ []) = dl_data (hp_map h) (as @ [])"
    "hp_map h' x = None" "dom (hp_map h') = dom (hp_map h) - {x}" .
  with pop_back_unlink [OF r, of "(h', d')"] that [of h' d'] show ?thesis by simp
qed

lemma pop_empty:
  assumes "dl_repr (h, d) []"
  shows "dl_pop_front (h, d) = Some (None, Some COBALT_ERROR_EMPTY_CONTAINER, (h, d))"
    "dl_pop_back (h, d) = Some (None, Some COBALT_ERROR_EMPTY_CONTAINER, (h, d))"
  using dl_reprD(3) [OF assms] by (simp_all add: dl_pop_front_def dl_pop_back_def)

lemma find_none:
  "dseg (hp_map h) p prv as None lst \<Longrightarrow> (\<And>x. x \<in> set (dl_data (hp_map h) as) \<Longrightarrow> \<not> P x) \<Longrightarrow>
   dl_find P h prv p = Some None"
proof (induction as arbitrary: p prv)
  case Nil
  then show ?case by (subst dl_find.simps) simp
next
  case (Cons a as)
  then show ?case by (subst dl_find.simps) (auto simp: heap_read_def)
qed

lemma find_some:
  "dseg (hp_map h) p prv (as @ x # bs) None lst \<Longrightarrow>
   (\<And>y. y \<in> set (dl_data (hp_map h) as) \<Longrightarrow> \<not> P y) \<Longrightarrow> P (nd_data (the (hp_map h x))) \<Longrightarrow>
   dl_find P h prv p = Some (Some (if as = [] then prv else last_opt as, x))"
proof (induction as arbitrary: p prv)
  case Nil
  then show ?case by (subst dl_find.simps) (auto simp: heap_read_def)
next
  case (Cons a as)
  obtain n where n: "p = Some a" "hp_map h a = Some n" "dseg (hp_map h) (nd_next n) (Some a) (as @ x # bs) None lst"
    using Cons.prems(1) by auto
  have "dl_find P h (Some a) (nd_next n) = Some (Some (if as = [] then Some a else last_opt as, x))"
    using Cons.IH [OF n(3)] Cons.prems(2,3) by simp
  moreover have "\<not> P (nd_data n)" using Cons.prems(2) n by simp
  moreover have "last_opt (a # as) = (if as = [] then Some a else last_opt as)" by (cases as) auto
  ultimately show ?case using n by (subst dl_find.simps) (simp add: heap_read_def)
qed

text \<open>Removing the first element that satisfies a predicate.\<close>

fun remove_first :: "('b \<Rightarrow> bool) \<Rightarrow> 'b list \<Rightarrow> 'b list" where
  "remove_first P [] = []"
| "remove_first P (x # xs) = (if P x then xs else x # remove_first P xs)"

lemma remove_first_eq: "remove_first (\<lambda>y. y = x) xs = remove1 x xs"
  by (induction xs) auto

lemma remove_first_append:
  "(\<And>y. y \<in> set xs \<Longrightarrow> \<not> P y) \<Longrightarrow> P x \<Longrightarrow> remove_first P (xs @ x # ys) = xs @ ys"
  by (induction xs) auto

lemma remove_first_none: "(\<And>y. y \<in> set xs \<Longrightarrow> \<not> P y) \<Longrightarrow> remove_first P xs = xs"
  by (induction xs) auto

lemma first_split:
  assumes "\<exists>x\<in>set (dl_data m ps). P x"
  obtains as x bs where "ps = as @ x # bs" "\<And>y. y \<in> set (dl_data m as) \<Longrightarrow> \<not> P y" "P (nd_data (the (m x)))"
proof -
  have "\<exists>a\<in>set ps. P (nd_data (the (m a)))" using assms by (auto simp: dl_data_def)
  from split_list_first_prop [OF this] show ?thesis using that by (auto simp: dl_data_def)
qed

lemma find_unlink_ok:
  assumes r: "dl_repr (h, d) ps"
  obtains (found) prv x h' d' ps' where "dl_find P h None (dl_head d) = Some (Some (prv, x))"
      "map_option nd_prev (hp_map h x) = Some prv"
      "dl_unlink prv x (h, d) = Some (h', d')" "dl_repr (h', d') ps'"
      "dl_data (hp_map h') ps' = remove_first P (dl_data (hp_map h) ps)"
      "\<exists>y\<in>set (dl_data (hp_map h) ps). P y"
  | (absent) "dl_find P h None (dl_head d) = Some None"
      "remove_first P (dl_data (hp_map h) ps) = dl_data (hp_map h) ps"
      "\<not> (\<exists>y\<in>set (dl_data (hp_map h) ps). P y)"
proof (cases "\<exists>y\<in>set (dl_data (hp_map h) ps). P y")
  case True
  obtain as x bs where s: "ps = as @ x # bs" "\<And>y. y \<in> set (dl_data (hp_map h) as) \<Longrightarrow> \<not> P y"
    "P (nd_data (the (hp_map h x)))" by (rule first_split [OF True]) blast
  have f: "dl_find P h None (dl_head d) = Some (Some (last_opt as, x))"
    using find_some [of h "dl_head d" None as x bs "dl_tail d" P] s(2,3) dl_reprD(3) [OF r] s(1)
    by (cases "as = []") auto
  obtain h' d' where u: "dl_unlink (last_opt as) x (h, d) = Some (h', d')" "dl_repr (h', d') (as @ bs)"
    "dl_data (hp_map h') (as @ bs) = dl_data (hp_map h) (as @ bs)"
    using unlink_ok [of h d as x bs] r s(1) by metis
  have "dl_data (hp_map h') (as @ bs) = remove_first P (dl_data (hp_map h) ps)"
    using u(3) remove_first_append [of "dl_data (hp_map h) as" P "nd_data (the (hp_map h x))"] s by simp
  moreover have "map_option nd_prev (hp_map h x) = Some (last_opt as)"
  proof -
    obtain l nx where "hp_map h x = Some nx" "nd_prev nx = l" "dseg (hp_map h) (dl_head d) None as (Some x) l"
      using dl_reprD(3) [OF r] s(1) by (auto simp: dseg_append)
    then show ?thesis using dseg_last [of "hp_map h" "dl_head d" None as "Some x" l] by (cases as) simp_all
  qed
  ultimately show ?thesis using found [OF f _ u(1,2)] True by blast
next
  case False
  then show ?thesis
    using absent find_none [OF dl_reprD(3) [OF r], of P] remove_first_none [of "dl_data (hp_map h) ps" P] by blast
qed

lemma walk_next_ok:
  "dseg (hp_map h) p prv as None lst \<Longrightarrow> k < length as \<Longrightarrow> dl_walk_next h k p = Some (Some (as ! k))"
proof (induction k arbitrary: p prv as)
  case 0
  then show ?case by (cases as) auto
next
  case (Suc k)
  then obtain a as' n where "as = a # as'" "p = Some a" "hp_map h a = Some n"
    "dseg (hp_map h) (nd_next n) (Some a) as' None lst" by (cases as) auto
  with Suc show ?case by (simp add: heap_read_def)
qed

lemma walk_prev_ok:
  "dseg (hp_map h) p None as nxt lst \<Longrightarrow> k < length as \<Longrightarrow>
   dl_walk_prev h k lst = Some (Some (as ! (length as - 1 - k)))"
proof (induction k arbitrary: lst as nxt)
  case 0
  then show ?case by (cases as rule: rev_cases) (auto simp: dseg_append)
next
  case (Suc k)
  then obtain as' a where as: "as = as' @ [a]" by (cases as rule: rev_cases) auto
  then obtain n where n: "lst = Some a" "hp_map h a = Some n"
    "dseg (hp_map h) p None as' (Some a) (nd_prev n)" using Suc.prems(1) by (auto simp: dseg_append)
  have "dl_walk_prev h k (nd_prev n) = Some (Some (as' ! (length as' - 1 - k)))"
    using Suc.prems(2) as by (intro Suc.IH [OF n(3)]) simp
  moreover have "length as' - Suc k < length as'" using as Suc.prems(2) by auto
  ultimately show ?case using n as Suc.prems(2) by (simp add: heap_read_def nth_append)
qed

lemma free_all_ok:
  "dseg (hp_map h) p prv as None lst \<Longrightarrow> distinct as \<Longrightarrow>
   dl_free_all h p = Some (h\<lparr>hp_map := (hp_map h) |` (- set as)\<rparr>)"
proof (induction as arbitrary: h p prv)
  case Nil
  have "(hp_map h) |` UNIV = hp_map h" by (simp add: restrict_map_def)
  with Nil show ?case by (subst dl_free_all.simps) simp
next
  case (Cons a as)
  then obtain n where n: "p = Some a" "hp_map h a = Some n" "dseg (hp_map h) (nd_next n) (Some a) as None lst"
    by auto
  let ?h = "h\<lparr>hp_map := (hp_map h)(a := None)\<rparr>"
  have "dseg (hp_map ?h) (nd_next n) (Some a) as None lst" using n Cons.prems(2) by simp
  from Cons.IH [OF this] Cons.prems(2)
  have ih: "dl_free_all ?h (nd_next n) = Some (?h\<lparr>hp_map := (hp_map ?h) |` (- set as)\<rparr>)"
    by (simp only: distinct.simps simp_thms)
  have eq: "(hp_map ?h) |` (- set as) = (hp_map h) |` (- set (a # as))"
    by (auto simp: restrict_map_def fun_eq_iff)
  have "dl_free_all h p = dl_free_all ?h (nd_next n)"
    using n by (subst dl_free_all.simps) (simp add: heap_read_def heap_free_def)
  also have "\<dots> = Some (?h\<lparr>hp_map := (hp_map h) |` (- set (a # as))\<rparr>)" unfolding ih eq ..
  finally show ?case by simp
qed

text \<open>The header is reached through a pointer that may be NULL.\<close>

type_synonym 'a dptr_state = "'a dnode heap \<times> dlist option"

definition some_state :: "'a dstate \<Rightarrow> 'a dptr_state" where
  "some_state s = (fst s, Some (snd s))"

lemma some_state_simp [simp]: "some_state (h, d) = (h, Some d)"
  by (simp add: some_state_def)

lemma dl_walk_get:
  assumes r: "dl_repr (h, d) ps" and i: "i < length ps"
  shows "dl_walk_next h i (dl_head d) = Some (Some (ps ! i))"
    "dl_walk_prev h (dl_size d - 1 - i) (dl_tail d) = Some (Some (ps ! i))"
    "heap_read h (ps ! i) = hp_map h (ps ! i)" "\<exists>n. hp_map h (ps ! i) = Some n"
    "dl_data (hp_map h) ps ! i = nd_data (the (hp_map h (ps ! i)))"
proof -
  note D = dl_reprD [OF r]
  show "dl_walk_next h i (dl_head d) = Some (Some (ps ! i))" by (rule walk_next_ok [OF D(3) i])
  have "length ps - 1 - (length ps - 1 - i) = i" using i by simp
  then show "dl_walk_prev h (dl_size d - 1 - i) (dl_tail d) = Some (Some (ps ! i))"
    using walk_prev_ok [OF D(3), of "dl_size d - 1 - i"] i D(4) by simp
  show "heap_read h (ps ! i) = hp_map h (ps ! i)" by (simp add: heap_read_def)
  show "\<exists>n. hp_map h (ps ! i) = Some n" using dseg_dom [OF D(3)] i by simp
  show "dl_data (hp_map h) ps ! i = nd_data (the (hp_map h (ps ! i)))" using i by (simp add: dl_data_def)
qed

end
