(* ===== verification/Cobalt_Deque.thy ===== *)
theory Cobalt_Deque
  imports Cobalt_DList
begin

section \<open>Deque\<close>

text \<open>
  \<open>src/container/deque.c\<close>. The deque pointer is \<open>None\<close> when NULL; the nodes live in the explicit
  heap that every operation takes and returns.
\<close>

definition cobalt_deque_create_with_allocator :: "bool \<Rightarrow> bool \<Rightarrow> dlist option" where
  "cobalt_deque_create_with_allocator alloc_deque alloc_null =
     (if alloc_null then None
      else if \<not> alloc_deque then None
      else Some \<lparr>dl_head = None, dl_tail = None, dl_size = 0\<rparr>)"

definition cobalt_deque_create :: "bool \<Rightarrow> dlist option" where
  "cobalt_deque_create alloc_deque = cobalt_deque_create_with_allocator alloc_deque False"

definition cobalt_deque_destroy :: "'a dptr_state \<Rightarrow> 'a dnode heap option" where
  "cobalt_deque_destroy s =
     (case s of (h, None) \<Rightarrow> Some h | (h, Some d) \<Rightarrow> dl_free_all h (dl_head d))"

definition cobalt_deque_push_front ::
    "bool \<Rightarrow> 'a dptr_state \<Rightarrow> 'a option \<Rightarrow> (int \<times> cobalt_error option \<times> 'a dptr_state) option" where
  "cobalt_deque_push_front alloc s item =
     (case s of
        (h, None) \<Rightarrow> Some (-1, None, s)
      | (h, Some d) \<Rightarrow> dl_push_front alloc item (h, d) \<bind> (\<lambda>(r, e, s'). Some (r, e, some_state s')))"

definition cobalt_deque_push_back ::
    "bool \<Rightarrow> 'a dptr_state \<Rightarrow> 'a option \<Rightarrow> (int \<times> cobalt_error option \<times> 'a dptr_state) option" where
  "cobalt_deque_push_back alloc s item =
     (case s of
        (h, None) \<Rightarrow> Some (-1, None, s)
      | (h, Some d) \<Rightarrow> dl_push_back alloc item (h, d) \<bind> (\<lambda>(r, e, s'). Some (r, e, some_state s')))"

definition cobalt_deque_pop_front ::
    "'a dptr_state \<Rightarrow> ('a option \<times> cobalt_error option \<times> 'a dptr_state) option" where
  "cobalt_deque_pop_front s =
     (case s of
        (h, None) \<Rightarrow> Some (None, Some COBALT_ERROR_EMPTY_CONTAINER, s)
      | (h, Some d) \<Rightarrow> dl_pop_front (h, d) \<bind> (\<lambda>(x, e, s'). Some (x, e, some_state s')))"

definition cobalt_deque_pop_back ::
    "'a dptr_state \<Rightarrow> ('a option \<times> cobalt_error option \<times> 'a dptr_state) option" where
  "cobalt_deque_pop_back s =
     (case s of
        (h, None) \<Rightarrow> Some (None, Some COBALT_ERROR_EMPTY_CONTAINER, s)
      | (h, Some d) \<Rightarrow> dl_pop_back (h, d) \<bind> (\<lambda>(x, e, s'). Some (x, e, some_state s')))"

definition cobalt_deque_peek_front ::
    "'a dptr_state \<Rightarrow> ('a option \<times> cobalt_error option) option" where
  "cobalt_deque_peek_front s =
     (case s of
        (h, Some d) \<Rightarrow>
          (case dl_head d of
             None \<Rightarrow> Some (None, Some COBALT_ERROR_EMPTY_CONTAINER)
           | Some a \<Rightarrow> heap_read h a \<bind> (\<lambda>n. Some (nd_data n, None)))
      | (h, None) \<Rightarrow> Some (None, Some COBALT_ERROR_EMPTY_CONTAINER))"

definition cobalt_deque_peek_back ::
    "'a dptr_state \<Rightarrow> ('a option \<times> cobalt_error option) option" where
  "cobalt_deque_peek_back s =
     (case s of
        (h, Some d) \<Rightarrow>
          (case dl_tail d of
             None \<Rightarrow> Some (None, Some COBALT_ERROR_EMPTY_CONTAINER)
           | Some a \<Rightarrow> heap_read h a \<bind> (\<lambda>n. Some (nd_data n, None)))
      | (h, None) \<Rightarrow> Some (None, Some COBALT_ERROR_EMPTY_CONTAINER))"

definition cobalt_deque_size :: "dlist option \<Rightarrow> nat" where
  "cobalt_deque_size deque = (case deque of None \<Rightarrow> 0 | Some d \<Rightarrow> dl_size d)"

definition cobalt_deque_is_empty :: "dlist option \<Rightarrow> bool" where
  "cobalt_deque_is_empty deque \<longleftrightarrow> (case deque of None \<Rightarrow> True | Some d \<Rightarrow> dl_size d = 0)"

subsection \<open>The sequence interface of a deque\<close>

definition deque_size_seq :: "'a dstate \<Rightarrow> nat" where
  "deque_size_seq s = dl_size (snd s)"

definition deque_is_empty_seq :: "'a dstate \<Rightarrow> bool" where
  "deque_is_empty_seq s \<longleftrightarrow> dl_size (snd s) = 0"

definition deque_add_seq :: "bool \<Rightarrow> 'a dstate \<Rightarrow> 'a option \<Rightarrow> (cobalt_error option \<times> 'a dstate) option" where
  "deque_add_seq alloc s item =
     cobalt_deque_push_back alloc (some_state s) item \<bind> (\<lambda>(r, e, (h, d)). Some (e, (h, the d)))"

definition deque_remove_seq :: "'a dstate \<Rightarrow> 'a option \<Rightarrow> 'a dstate option" where
  "deque_remove_seq s item =
     (if item = None then Some s
      else
        dl_find (\<lambda>x. x = item) (fst s) None (dl_head (snd s)) \<bind>
        (\<lambda>r. case r of
           None \<Rightarrow> Some s
         | Some (_, node) \<Rightarrow> heap_read (fst s) node \<bind> (\<lambda>n. dl_unlink (nd_prev n) node s)))"

definition deque_get_at_index_seq :: "'a dstate \<Rightarrow> nat \<Rightarrow> ('a option \<times> cobalt_error option) option" where
  "deque_get_at_index_seq s index = (let (h, d) = s in
     if dl_size d \<le> index then Some (None, None)
     else
       (if szt (index * 2) < dl_size d then dl_walk_next h index (dl_head d)
        else dl_walk_prev h (dl_size d - 1 - index) (dl_tail d)) \<bind>
       (\<lambda>node. node \<bind> heap_read h \<bind> (\<lambda>n. Some (nd_data n, None))))"

definition deque_seq_vtable :: "bool \<Rightarrow> ('a dstate, 'a) cobalt_sequence" where
  "deque_seq_vtable alloc =
     \<lparr>sv_size = Some deque_size_seq, sv_is_empty = Some deque_is_empty_seq,
      sv_add = Some (deque_add_seq alloc), sv_remove = Some deque_remove_seq,
      sv_get_at_index = Some deque_get_at_index_seq\<rparr>"

subsection \<open>Correctness\<close>

lemma deque_get_ok:
  assumes "dl_ok s"
  shows "deque_get_at_index_seq s i = Some (if i < length (dl_abs s) then dl_abs s ! i else None, None)"
proof -
  from dl_okE [OF assms] obtain h d ps where s: "s = (h, d)" "dl_repr (h, d) ps" "dl_abs s = dl_data (hp_map h) ps" .
  show ?thesis
  proof (cases "i < length ps")
    case True
    from dl_walk_get [OF s(2) True] show ?thesis
      using s True dl_reprD(4) [OF s(2)] by (auto simp: deque_get_at_index_seq_def)
  qed (use s dl_reprD(4) [OF s(2)] in \<open>simp add: deque_get_at_index_seq_def\<close>)
qed

lemma deque_remove_ok:
  assumes "dl_ok s"
  obtains s' where "deque_remove_seq s x = Some s'" "dl_ok s'"
    "dl_abs s' = (if x = None then dl_abs s else remove1 x (dl_abs s))"
proof (cases "x = None")
  case True
  with that assms show ?thesis by (simp add: deque_remove_seq_def)
next
  case False
  from dl_okE [OF assms] obtain h d ps where s: "s = (h, d)" "dl_repr (h, d) ps" "dl_abs s = dl_data (hp_map h) ps" .
  show ?thesis
  proof (cases rule: find_unlink_ok [OF s(2), of "\<lambda>y. y = x"])
    case (1 prv a h' d' ps')
    obtain n where "hp_map h a = Some n" "nd_prev n = prv" using 1(2) by auto
    then show ?thesis using that [of "(h', d')"] 1 s False dl_okI [OF 1(4)]
      by (simp add: deque_remove_seq_def heap_read_def remove_first_eq)
  next
    case 2
    then show ?thesis using that [of s] s False assms by (simp add: deque_remove_seq_def remove_first_eq)
  qed
qed

interpretation deque_seq: seq_object "deque_seq_vtable True" dl_ok dl_abs SIZE_MAX
proof
  show "\<exists>f. sv_size (deque_seq_vtable True) = Some f \<and> (\<forall>s. dl_ok s \<longrightarrow> f s = length (dl_abs s))"
    using dl_size_abs by (auto simp: deque_seq_vtable_def deque_size_seq_def)
next
  fix s :: "'a dstate" and x :: "'a option" and i
  assume ok: "dl_ok s"
  show "\<exists>f. sv_is_empty (deque_seq_vtable True) = Some f \<and> f s = (dl_abs s = [])"
    using dl_size_abs [of "fst s" "snd s"] ok by (simp add: deque_seq_vtable_def deque_is_empty_seq_def)
  show "\<exists>f e s'. sv_add (deque_seq_vtable True) = Some f \<and> f s x = Some (e, s') \<and> dl_ok s' \<and>
      dl_abs s' = dl_abs s @ [x]" if lim: "length (dl_abs s) < SIZE_MAX"
  proof -
    from dl_okE [OF ok] obtain h d ps where s: "s = (h, d)" "dl_repr (h, d) ps" "dl_abs s = dl_data (hp_map h) ps" .
    obtain h' d' where "dl_push_back True x (h, d) = Some (0, None, (h', d'))"
      "dl_repr (h', d') (ps @ [hp_next h])" "dl_data (hp_map h') (ps @ [hp_next h]) = dl_data (hp_map h) ps @ [x]"
      "dom (hp_map h') = insert (hp_next h) (dom (hp_map h))"
      by (rule push_back_ok [OF s(2)]) (use lim s(3) in simp)
    with dl_okI [of h' d'] s show ?thesis
      by (simp add: deque_seq_vtable_def deque_add_seq_def cobalt_deque_push_back_def)
  qed
  show "\<exists>f s'. sv_remove (deque_seq_vtable True) = Some f \<and> f s x = Some s' \<and> dl_ok s' \<and>
      dl_abs s' = (if x = None then dl_abs s else remove1 x (dl_abs s))"
  proof -
    from deque_remove_ok [OF ok, of x] obtain s' where "deque_remove_seq s x = Some s'" "dl_ok s'"
      "dl_abs s' = (if x = None then dl_abs s else remove1 x (dl_abs s))" .
    then show ?thesis unfolding deque_seq_vtable_def by (intro exI [of _ deque_remove_seq] exI [of _ s']) simp
  qed
  show "\<exists>f e. sv_get_at_index (deque_seq_vtable True) = Some f \<and>
      f s i = Some (if i < length (dl_abs s) then dl_abs s ! i else None, e)"
    using deque_get_ok [OF ok, of i] by (simp add: deque_seq_vtable_def)
qed

subsection \<open>Programs on a deque\<close>

text \<open>
  A client program of the four end operations; \<open>deque_exec\<close> runs it on the heap model and collects
  what the pops return, \<open>deque_spec\<close> does the same on a list.
\<close>

datatype 'a deque_op = PushFront "'a option" | PushBack "'a option" | PopFront | PopBack

fun deque_step :: "'a deque_op \<Rightarrow> 'a dptr_state \<Rightarrow> ('a option list \<times> 'a dptr_state) option" where
  "deque_step (PushFront x) s = cobalt_deque_push_front True s x \<bind> (\<lambda>(r, e, s'). Some ([], s'))"
| "deque_step (PushBack x) s = cobalt_deque_push_back True s x \<bind> (\<lambda>(r, e, s'). Some ([], s'))"
| "deque_step PopFront s = cobalt_deque_pop_front s \<bind> (\<lambda>(x, e, s'). Some ([x], s'))"
| "deque_step PopBack s = cobalt_deque_pop_back s \<bind> (\<lambda>(x, e, s'). Some ([x], s'))"

fun deque_exec :: "'a deque_op list \<Rightarrow> 'a dptr_state \<Rightarrow> ('a option list \<times> 'a dptr_state) option" where
  "deque_exec [] s = Some ([], s)"
| "deque_exec (c # cs) s =
     deque_step c s \<bind> (\<lambda>(xs, s'). deque_exec cs s' \<bind> (\<lambda>(ys, s''). Some (xs @ ys, s'')))"

fun deque_spec :: "'a deque_op list \<Rightarrow> 'a option list \<Rightarrow> 'a option list \<times> 'a option list" where
  "deque_spec [] q = ([], q)"
| "deque_spec (PushFront x # cs) q = deque_spec cs (x # q)"
| "deque_spec (PushBack x # cs) q = deque_spec cs (q @ [x])"
| "deque_spec (PopFront # cs) q =
     (let (ys, q') = deque_spec cs (tl q) in ((if q = [] then None else hd q) # ys, q'))"
| "deque_spec (PopBack # cs) q =
     (let (ys, q') = deque_spec cs (butlast q) in ((if q = [] then None else last q) # ys, q'))"

definition deque_owns :: "'a dstate \<Rightarrow> nat list \<Rightarrow> bool" where
  "deque_owns s ps \<longleftrightarrow> dl_repr s ps \<and> dom (hp_map (fst s)) = set ps"

lemma deque_step_ok:
  assumes o: "deque_owns (h, d) ps" and n: "length ps < SIZE_MAX"
  obtains xs h' d' ps' where "deque_step c (h, Some d) = Some (xs, (h', Some d'))" "deque_owns (h', d') ps'"
    "length ps' \<le> Suc (length ps)"
    "\<And>cs. deque_spec (c # cs) (dl_data (hp_map h) ps) =
       (let (ys, q) = deque_spec cs (dl_data (hp_map h') ps') in (xs @ ys, q))"
proof -
  have r: "dl_repr (h, d) ps" and dm: "dom (hp_map h) = set ps" using o by (simp_all add: deque_owns_def)
  show ?thesis
  proof (cases c)
    case (PushFront x)
    obtain h' d' where "dl_push_front True x (h, d) = Some (0, None, (h', d'))"
      "dl_repr (h', d') (hp_next h # ps)" "dl_data (hp_map h') (hp_next h # ps) = x # dl_data (hp_map h) ps"
      "dom (hp_map h') = insert (hp_next h) (dom (hp_map h))"
      by (rule push_front_ok [OF r n])
    with PushFront dm that [of "[]" h' d' "hp_next h # ps"] show ?thesis
      by (simp add: cobalt_deque_push_front_def deque_owns_def)
  next
    case (PushBack x)
    obtain h' d' where "dl_push_back True x (h, d) = Some (0, None, (h', d'))"
      "dl_repr (h', d') (ps @ [hp_next h])" "dl_data (hp_map h') (ps @ [hp_next h]) = dl_data (hp_map h) ps @ [x]"
      "dom (hp_map h') = insert (hp_next h) (dom (hp_map h))"
      by (rule push_back_ok [OF r n])
    with PushBack dm that [of "[]" h' d' "ps @ [hp_next h]"] show ?thesis
      by (simp add: cobalt_deque_push_back_def deque_owns_def)
  next
    case PopFront
    show ?thesis
    proof (cases ps)
      case Nil
      with pop_empty(1) [of h d] r o PopFront that [of "[None]" h d "[]"] show ?thesis
        by (simp add: cobalt_deque_pop_front_def)
    next
      case (Cons x bs)
      obtain h' d' where "dl_pop_front (h, d) = Some (nd_data (the (hp_map h x)), None, (h', d'))"
        "dl_repr (h', d') bs" "dl_data (hp_map h') bs = dl_data (hp_map h) bs"
        "dom (hp_map h') = dom (hp_map h) - {x}"
        by (rule pop_front_ok) (use r Cons in simp)
      moreover have "set ps - {x} = set bs" using dl_reprD(2) [OF r] Cons by auto
      ultimately show ?thesis
        using PopFront dm Cons that [of "[nd_data (the (hp_map h x))]" h' d' bs]
        by (simp add: cobalt_deque_pop_front_def deque_owns_def)
    qed
  next
    case PopBack
    show ?thesis
    proof (cases ps rule: rev_cases)
      case Nil
      with pop_empty(2) [of h d] r o PopBack that [of "[None]" h d "[]"] show ?thesis
        by (simp add: cobalt_deque_pop_back_def)
    next
      case (snoc as x)
      obtain h' d' where "dl_pop_back (h, d) = Some (nd_data (the (hp_map h x)), None, (h', d'))"
        "dl_repr (h', d') as" "dl_data (hp_map h') as = dl_data (hp_map h) as"
        "dom (hp_map h') = dom (hp_map h) - {x}"
        by (rule pop_back_ok) (use r snoc in simp)
      moreover have "set ps - {x} = set as" using dl_reprD(2) [OF r] snoc by auto
      ultimately show ?thesis
        using PopBack dm snoc that [of "[nd_data (the (hp_map h x))]" h' d' as]
        by (simp add: cobalt_deque_pop_back_def deque_owns_def)
    qed
  qed
qed

lemma deque_exec_ok:
  assumes "deque_owns (h, d) ps" "length ps + length cs \<le> SIZE_MAX"
  shows "\<exists>xs h' d' ps'. deque_exec cs (h, Some d) = Some (xs, (h', Some d')) \<and> deque_owns (h', d') ps' \<and>
    deque_spec cs (dl_data (hp_map h) ps) = (xs, dl_data (hp_map h') ps')"
  using assms
proof (induction cs arbitrary: h d ps)
  case Nil
  then show ?case by auto
next
  case (Cons c cs)
  have n: "length ps < SIZE_MAX" using Cons.prems(2) by simp
  from deque_step_ok [OF Cons.prems(1) n, of c]
  obtain xs h' d' ps' where s: "deque_step c (h, Some d) = Some (xs, (h', Some d'))" "deque_owns (h', d') ps'"
    "length ps' \<le> Suc (length ps)"
    "\<And>cs. deque_spec (c # cs) (dl_data (hp_map h) ps) =
       (let (ys, q) = deque_spec cs (dl_data (hp_map h') ps') in (xs @ ys, q))"
    by blast
  have "length ps' + length cs \<le> SIZE_MAX" using s(3) Cons.prems(2) by simp
  from Cons.IH [OF s(2) this] obtain ys h'' d'' ps'' where
    "deque_exec cs (h', Some d') = Some (ys, (h'', Some d''))" "deque_owns (h'', d'') ps''"
    "deque_spec cs (dl_data (hp_map h') ps') = (ys, dl_data (hp_map h'') ps'')" by blast
  then show ?case using s(1) s(4) [of cs] by auto
qed

text \<open>
  C12: every program of pushes and pops at both ends of a new deque runs without a NULL or dangling
  dereference, its pops return what the same program returns on a list (NULL on empty), and
  destroying the deque afterwards releases every node exactly once, leaving no node behind.
\<close>

theorem deque_program_refines:
  fixes cs :: "'a deque_op list"
  assumes "length cs \<le> SIZE_MAX"
  shows "\<exists>d xs h' d' h''. cobalt_deque_create True = Some d \<and>
    deque_exec cs (heap_empty, Some d) = Some (xs, (h', d')) \<and>
    xs = fst (deque_spec cs []) \<and> cobalt_deque_size d' = length (snd (deque_spec cs [])) \<and>
    cobalt_deque_destroy (h', d') = Some h'' \<and> dom (hp_map h'') = {}"
proof -
  let ?d = "\<lparr>dl_head = None, dl_tail = None, dl_size = 0\<rparr>"
  have o: "deque_owns (heap_empty :: 'a dnode heap, ?d) []"
    by (simp add: deque_owns_def dl_repr_def heap_empty_def heap_ok_def)
  obtain xs h' d' ps' where e: "deque_exec cs (heap_empty, Some ?d) = Some (xs, (h', Some d'))"
    "deque_owns (h', d') ps'" "deque_spec cs [] = (xs, dl_data (hp_map h') ps')"
    using deque_exec_ok [OF o, of cs] assms by auto
  have r: "dl_repr (h', d') ps'" "dom (hp_map h') = set ps'" using e(2) by (simp_all add: deque_owns_def)
  have "dl_free_all h' (dl_head d') = Some (h'\<lparr>hp_map := (hp_map h') |` (- set ps')\<rparr>)"
    by (rule free_all_ok [OF dl_reprD(3,2) [OF r(1)]])
  moreover have "(hp_map h') |` (- set ps') = (\<lambda>_. None)"
    using r(2) by (auto simp: restrict_map_def fun_eq_iff dom_def)
  ultimately show ?thesis
    using e r dl_reprD(4) [OF r(1)]
    by (simp add: cobalt_deque_create_def cobalt_deque_create_with_allocator_def cobalt_deque_destroy_def
        cobalt_deque_size_def)
qed

theorem deque_program_refines_witness:
  "\<exists>d xs h' d'. cobalt_deque_create True = Some d \<and>
    deque_exec [PushBack (Some (1::nat)), PushFront (Some 2), PopBack, PopBack, PopFront] (heap_empty, Some d) =
      Some (xs, (h', d')) \<and> xs = [Some 1, Some 2, None]"
  using deque_program_refines [of "[PushBack (Some (1::nat)), PushFront (Some 2), PopBack, PopBack, PopFront]"]
  by (simp del: deque_exec.simps) blast

end
