(* ===== verification/Cobalt_Order.thy ===== *)
theory Cobalt_Order
  imports Cobalt_Prelude
begin

section \<open>Sorting by a comparator\<close>

text \<open>
  What it means for a list to be a stable sort of another under a \<open>compare_func_t\<close>, with the merge
  of two sorted lists. The facts are proved under the contract \<open>comparator\<close>. A stable sort is unique,
  so \<open>ref_sort\<close> (insertion of the elements from the right) is the reference that every stable sorting
  routine of the library is compared with.
\<close>

definition cmp_sorted :: "('a \<Rightarrow> 'a \<Rightarrow> int) \<Rightarrow> 'a list \<Rightarrow> bool" where
  "cmp_sorted cmp xs \<longleftrightarrow> sorted_wrt (\<lambda>a b. cmp a b \<le> 0) xs"

definition cmp_class :: "('a \<Rightarrow> 'a \<Rightarrow> int) \<Rightarrow> 'a \<Rightarrow> 'a list \<Rightarrow> 'a list" where
  "cmp_class cmp v xs = filter (\<lambda>x. cmp v x = 0) xs"

definition stable_sort :: "('a \<Rightarrow> 'a \<Rightarrow> int) \<Rightarrow> 'a list \<Rightarrow> 'a list \<Rightarrow> bool" where
  "stable_sort cmp xs ys \<longleftrightarrow>
     cmp_sorted cmp ys \<and> mset ys = mset xs \<and> (\<forall>v. cmp_class cmp v ys = cmp_class cmp v xs)"

fun merge_by :: "('a \<Rightarrow> 'a \<Rightarrow> int) \<Rightarrow> 'a list \<Rightarrow> 'a list \<Rightarrow> 'a list" where
  "merge_by cmp [] ys = ys"
| "merge_by cmp xs [] = xs"
| "merge_by cmp (x # xs) (y # ys) =
     (if cmp x y \<le> 0 then x # merge_by cmp xs (y # ys) else y # merge_by cmp (x # xs) ys)"

fun insert_by :: "('a \<Rightarrow> 'a \<Rightarrow> int) \<Rightarrow> 'a \<Rightarrow> 'a list \<Rightarrow> 'a list" where
  "insert_by cmp x [] = [x]"
| "insert_by cmp x (y # ys) = (if cmp x y \<le> 0 then x # y # ys else y # insert_by cmp x ys)"

definition ref_sort :: "('a \<Rightarrow> 'a \<Rightarrow> int) \<Rightarrow> 'a list \<Rightarrow> 'a list" where
  "ref_sort cmp xs = foldr (insert_by cmp) xs []"

lemma merge_by_Nil2 [simp]: "merge_by cmp xs [] = xs"
  by (cases xs) simp_all

lemma mset_merge_by: "mset (merge_by cmp xs ys) = mset xs + mset ys"
  by (induction cmp xs ys rule: merge_by.induct) simp_all

lemma set_merge_by: "set (merge_by cmp xs ys) = set xs \<union> set ys"
  using arg_cong [OF mset_merge_by [of cmp xs ys], of set_mset] by simp

lemma length_merge_by [simp]: "length (merge_by cmp xs ys) = length xs + length ys"
  using arg_cong [OF mset_merge_by [of cmp xs ys], of size] by simp

lemma map_merge_by: "map f (merge_by (\<lambda>a b. cmp (f a) (f b)) xs ys) = merge_by cmp (map f xs) (map f ys)"
  by (induction "\<lambda>a b. cmp (f a) (f b)" xs ys rule: merge_by.induct) auto

lemma insert_by_merge: "insert_by cmp x ys = merge_by cmp [x] ys"
  by (induction ys) simp_all

lemma cmp_sorted_simps [simp]:
  "cmp_sorted cmp []" "cmp_sorted cmp [x]"
  "cmp_sorted cmp (x # xs) \<longleftrightarrow> (\<forall>y\<in>set xs. cmp x y \<le> 0) \<and> cmp_sorted cmp xs"
  "cmp_sorted cmp (xs @ ys) \<longleftrightarrow> cmp_sorted cmp xs \<and> cmp_sorted cmp ys \<and> (\<forall>x\<in>set xs. \<forall>y\<in>set ys. cmp x y \<le> 0)"
  by (auto simp: cmp_sorted_def sorted_wrt_append)

lemma cmp_class_simps [simp]:
  "cmp_class cmp v [] = []"
  "cmp_class cmp v (x # xs) = (if cmp v x = 0 then x # cmp_class cmp v xs else cmp_class cmp v xs)"
  "cmp_class cmp v (xs @ ys) = cmp_class cmp v xs @ cmp_class cmp v ys"
  by (simp_all add: cmp_class_def)

lemma stable_sort_length: "stable_sort cmp xs ys \<Longrightarrow> length ys = length xs"
  by (auto simp: stable_sort_def dest: mset_eq_length)

context comparator
begin

lemma sorted_merge_by:
  "cmp_sorted cmp xs \<Longrightarrow> cmp_sorted cmp ys \<Longrightarrow> cmp_sorted cmp (merge_by cmp xs ys)"
proof (induction xs arbitrary: ys)
  case Nil
  then show ?case by simp
next
  case (Cons x xs)
  note Cons_outer = Cons.IH and xs = Cons.prems(1)
  from Cons.prems(2) show ?case
  proof (induction ys)
    case Nil
    then show ?case using xs by simp
  next
    case (Cons y ys)
    show ?case
    proof (cases "cmp x y \<le> 0")
      case True
      then have "\<forall>z\<in>set (y # ys). cmp x z \<le> 0" using Cons.prems cmp_trans [of x y] by auto
      then show ?thesis using True Cons.prems Cons_outer [of "y # ys"] xs by (auto simp: set_merge_by)
    next
      case False
      then have "\<forall>z\<in>set (x # xs). cmp y z \<le> 0" using cmp_gt_le [of x y] xs cmp_trans [of y x] by auto
      then show ?thesis using False Cons by (auto simp: set_merge_by)
    qed
  qed
qed

lemma class_none: "0 < cmp x y \<Longrightarrow> cmp_sorted cmp (x # xs) \<Longrightarrow> cmp v y = 0 \<Longrightarrow> cmp_class cmp v (x # xs) = []"
proof -
  assume a: "0 < cmp x y" "cmp_sorted cmp (x # xs)" "cmp v y = 0"
  have "cmp v z \<noteq> 0" if "z \<in> set (x # xs)" for z
  proof
    assume "cmp v z = 0"
    then have "cmp z y \<le> 0" using cmp_eq_sym [of v z] cmp_trans [of z v y] a(3) by simp
    moreover have "cmp x z \<le> 0" using a(2) that by auto
    ultimately show False using cmp_trans [of x z y] a(1) by simp
  qed
  then show ?thesis by (simp add: cmp_class_def filter_empty_conv)
qed

lemma class_merge_by:
  "cmp_sorted cmp xs \<Longrightarrow> cmp_class cmp v (merge_by cmp xs ys) = cmp_class cmp v xs @ cmp_class cmp v ys"
proof (induction xs arbitrary: ys)
  case Nil
  then show ?case by simp
next
  case (Cons x xs)
  note ih = Cons.IH and xs = Cons.prems
  show ?case
  proof (induction ys)
    case Nil
    then show ?case by simp
  next
    case (Cons y ys)
    show ?case
    proof (cases "cmp x y \<le> 0")
      case True
      then show ?thesis using ih [of "y # ys"] xs by simp
    next
      case False
      then have "cmp v y = 0 \<Longrightarrow> cmp_class cmp v (x # xs) = []" using class_none [of x y xs v] xs by simp
      with False Cons show ?thesis by (cases "cmp v y = 0") (simp_all del: cmp_class_simps(2) add: cmp_class_def)
    qed
  qed
qed

lemma stable_sort_merge:
  "stable_sort cmp xs xs' \<Longrightarrow> stable_sort cmp ys ys' \<Longrightarrow> stable_sort cmp (xs @ ys) (merge_by cmp xs' ys')"
  by (simp add: stable_sort_def sorted_merge_by mset_merge_by class_merge_by)

lemma stable_sort_short: "length xs \<le> 1 \<Longrightarrow> stable_sort cmp xs xs"
  by (cases xs) (auto simp: stable_sort_def)

lemma stable_sort_ref: "stable_sort cmp xs (ref_sort cmp xs)"
proof (induction xs)
  case Nil
  then show ?case by (simp add: ref_sort_def stable_sort_def)
next
  case (Cons x xs)
  have "stable_sort cmp [x] [x]" by (simp add: stable_sort_def)
  from stable_sort_merge [OF this Cons.IH] show ?case by (simp add: ref_sort_def insert_by_merge)
qed

lemma stable_sort_unique:
  "cmp_sorted cmp ys \<Longrightarrow> cmp_sorted cmp zs \<Longrightarrow> (\<And>v. cmp_class cmp v ys = cmp_class cmp v zs) \<Longrightarrow> ys = zs"
proof (induction ys arbitrary: zs)
  case Nil
  then have "cmp_class cmp z zs = []" for z by (metis cmp_class_simps(1))
  then have "z \<notin> set zs" for z using cmp_refl [of z] unfolding cmp_class_def filter_empty_conv by blast
  then show ?case by (cases zs) auto
next
  case (Cons y ys)
  have "y \<in> set (cmp_class cmp y zs)" using arg_cong [OF Cons.prems(3), of set y] by (auto simp: set_eq_iff)
  then have "y \<in> set zs" by (simp add: cmp_class_def)
  then obtain z zs' where zs: "zs = z # zs'" "y \<in> set zs" by (cases zs) auto
  have "z \<in> set (cmp_class cmp z (y # ys))" using Cons.prems(3) [of z] zs by simp
  then have "z \<in> set (y # ys)" by (simp add: cmp_class_def split: if_splits)
  then have "cmp y z \<le> 0" using Cons.prems(1) by auto
  moreover have "cmp z y \<le> 0" using Cons.prems(2) zs by auto
  ultimately have yz: "cmp y z = 0" using cmp_swap [of y z] cmp_swap [of z y] by linarith
  have "y = z" using Cons.prems(3) [of y] zs(1) yz by simp
  moreover have "ys = zs'"
  proof (rule Cons.IH)
    show "cmp_class cmp v ys = cmp_class cmp v zs'" for v
      using Cons.prems(3) [of v] \<open>y = z\<close> zs(1) by (auto split: if_splits)
  qed (use Cons.prems zs in auto)
  ultimately show ?case using zs by simp
qed

lemma stable_sort_is_ref: "stable_sort cmp xs ys \<Longrightarrow> ys = ref_sort cmp xs"
  using stable_sort_unique stable_sort_ref by (auto simp: stable_sort_def)

end

lemma comparator_key: "comparator cmp \<Longrightarrow> comparator (\<lambda>a b. cmp (f a) (f b))"
  by (auto simp: comparator_def)

text \<open>Sorting keyed elements and forgetting the elements.\<close>

lemma stable_sort_map:
  assumes "stable_sort (\<lambda>a b. cmp (f a) (f b)) xs ys" "comparator cmp"
  shows "stable_sort cmp (map f xs) (map f ys)"
proof -
  have s: "cmp_sorted cmp (map f ys)" using assms(1) by (simp add: stable_sort_def cmp_sorted_def sorted_wrt_map)
  have m: "mset (map f ys) = mset (map f xs)" using assms(1) by (simp add: stable_sort_def)
  have "cmp_class cmp v (map f ys) = cmp_class cmp v (map f xs)" for v
  proof (cases "\<exists>x\<in>set xs. cmp v (f x) = 0")
    case True
    then obtain x where x: "x \<in> set xs" "cmp v (f x) = 0" by blast
    have eq: "cmp v (f z) = 0 \<longleftrightarrow> cmp (f x) (f z) = 0" for z
      using comparator.cmp_cong_left [OF assms(2) x(2), of "f z"] by (auto simp: sgn_if split: if_splits)
    have "cmp_class (\<lambda>a b. cmp (f a) (f b)) x ys = cmp_class (\<lambda>a b. cmp (f a) (f b)) x xs"
      using assms(1) by (simp add: stable_sort_def)
    then show ?thesis by (simp add: cmp_class_def filter_map o_def eq)
  next
    case False
    moreover have "set ys = set xs" using assms(1) mset_eq_setD by (auto simp: stable_sort_def)
    ultimately show ?thesis by (simp add: cmp_class_def filter_map o_def filter_empty_conv)
  qed
  with s m show ?thesis by (simp add: stable_sort_def)
qed

end
