(* ===== verification/Cobalt_List.thy ===== *)
theory Cobalt_List
  imports Cobalt_DList Cobalt_Order
begin

section \<open>List\<close>

text \<open>
  \<open>src/container/list.c\<close>: the doubly linked list, its iterator, and the merge sort of its nodes,
  which works on the \<open>next\<close> pointers alone. The list pointer is \<open>None\<close> when NULL, the nodes live in
  the explicit heap; loops over \<open>next\<close> pointers have no bound in the source.
\<close>

definition cobalt_list_create_with_allocator :: "bool \<Rightarrow> bool \<Rightarrow> dlist option" where
  "cobalt_list_create_with_allocator alloc_list alloc_null =
     (if alloc_null then None
      else if \<not> alloc_list then None
      else Some \<lparr>dl_head = None, dl_tail = None, dl_size = 0\<rparr>)"

definition cobalt_list_create :: "bool \<Rightarrow> dlist option" where
  "cobalt_list_create alloc_list = cobalt_list_create_with_allocator alloc_list False"

definition cobalt_list_destroy :: "'a dptr_state \<Rightarrow> 'a dnode heap option" where
  "cobalt_list_destroy s =
     (case s of (h, None) \<Rightarrow> Some h | (h, Some d) \<Rightarrow> dl_free_all h (dl_head d))"

definition cobalt_list_push_front ::
    "bool \<Rightarrow> 'a dptr_state \<Rightarrow> 'a option \<Rightarrow> (int \<times> cobalt_error option \<times> 'a dptr_state) option" where
  "cobalt_list_push_front alloc s item =
     (case s of
        (h, None) \<Rightarrow> Some (-1, None, s)
      | (h, Some d) \<Rightarrow> dl_push_front alloc item (h, d) \<bind> (\<lambda>(r, e, s'). Some (r, e, some_state s')))"

definition cobalt_list_push_back ::
    "bool \<Rightarrow> 'a dptr_state \<Rightarrow> 'a option \<Rightarrow> (int \<times> cobalt_error option \<times> 'a dptr_state) option" where
  "cobalt_list_push_back alloc s item =
     (case s of
        (h, None) \<Rightarrow> Some (-1, None, s)
      | (h, Some d) \<Rightarrow> dl_push_back alloc item (h, d) \<bind> (\<lambda>(r, e, s'). Some (r, e, some_state s')))"

definition cobalt_list_pop_front ::
    "'a dptr_state \<Rightarrow> ('a option \<times> cobalt_error option \<times> 'a dptr_state) option" where
  "cobalt_list_pop_front s =
     (case s of
        (h, None) \<Rightarrow> Some (None, Some COBALT_ERROR_EMPTY_CONTAINER, s)
      | (h, Some d) \<Rightarrow> dl_pop_front (h, d) \<bind> (\<lambda>(x, e, s'). Some (x, e, some_state s')))"

definition cobalt_list_pop_back ::
    "'a dptr_state \<Rightarrow> ('a option \<times> cobalt_error option \<times> 'a dptr_state) option" where
  "cobalt_list_pop_back s =
     (case s of
        (h, None) \<Rightarrow> Some (None, Some COBALT_ERROR_EMPTY_CONTAINER, s)
      | (h, Some d) \<Rightarrow> dl_pop_back (h, d) \<bind> (\<lambda>(x, e, s'). Some (x, e, some_state s')))"

definition cobalt_list_get :: "'a dptr_state \<Rightarrow> nat \<Rightarrow> ('a option \<times> cobalt_error option) option" where
  "cobalt_list_get s index =
     (case s of
        (h, None) \<Rightarrow> Some (None, Some COBALT_ERROR_INVALID_ARGUMENT)
      | (h, Some d) \<Rightarrow>
          if dl_size d \<le> index then Some (None, Some COBALT_ERROR_OUT_OF_BOUNDS)
          else
            (if index < dl_size d div 2 then dl_walk_next h index (dl_head d)
             else dl_walk_prev h (dl_size d - 1 - index) (dl_tail d)) \<bind>
            (\<lambda>node. node \<bind> heap_read h \<bind> (\<lambda>n. Some (nd_data n, None))))"

definition cobalt_list_size :: "dlist option \<Rightarrow> nat" where
  "cobalt_list_size ls = (case ls of None \<Rightarrow> 0 | Some d \<Rightarrow> dl_size d)"

definition cobalt_list_is_empty :: "dlist option \<Rightarrow> bool" where
  "cobalt_list_is_empty ls \<longleftrightarrow> (case ls of None \<Rightarrow> False | Some d \<Rightarrow> dl_size d = 0)"

definition cobalt_list_remove_if ::
    "'a dptr_state \<Rightarrow> ('a option \<Rightarrow> bool) option \<Rightarrow> (int \<times> 'a dptr_state) option" where
  "cobalt_list_remove_if s predicate =
     (case (s, predicate) of
        ((h, Some d), Some P) \<Rightarrow>
          dl_find P h None (dl_head d) \<bind>
          (\<lambda>r. case r of
             None \<Rightarrow> Some (-1, s)
           | Some (prv, node) \<Rightarrow> dl_unlink prv node (h, d) \<bind> (\<lambda>s'. Some (0, some_state s')))
      | _ \<Rightarrow> Some (-1, s))"

definition cobalt_list_remove :: "'a dptr_state \<Rightarrow> 'a option \<Rightarrow> (int \<times> 'a dptr_state) option" where
  "cobalt_list_remove s item =
     (case s of
        (h, Some d) \<Rightarrow>
          if item = None then Some (-1, s)
          else
            dl_find (\<lambda>x. x = item) h None (dl_head d) \<bind>
            (\<lambda>r. case r of
               None \<Rightarrow> Some (-1, s)
             | Some (prv, node) \<Rightarrow> dl_unlink prv node (h, d) \<bind> (\<lambda>s'. Some (0, some_state s')))
      | _ \<Rightarrow> Some (-1, s))"

text \<open>The loop \<open>while (node && i < index)\<close> of \<open>cobalt_list_remove_at\<close>, \<open>k\<close> steps from its end.\<close>

fun list_remove_at_walk ::
    "'a dnode heap \<Rightarrow> nat \<Rightarrow> nat option \<Rightarrow> nat option \<Rightarrow> (nat option \<times> nat option) option" where
  "list_remove_at_walk h 0 prv node = Some (prv, node)"
| "list_remove_at_walk h (Suc k) prv node =
     (case node of
        None \<Rightarrow> Some (prv, None)
      | Some a \<Rightarrow> heap_read h a \<bind> (\<lambda>n. list_remove_at_walk h k (Some a) (nd_next n)))"

definition cobalt_list_remove_at :: "'a dptr_state \<Rightarrow> nat \<Rightarrow> (int \<times> 'a dptr_state) option" where
  "cobalt_list_remove_at s index =
     (case s of
        (h, None) \<Rightarrow> Some (-1, s)
      | (h, Some d) \<Rightarrow>
          list_remove_at_walk h index None (dl_head d) \<bind>
          (\<lambda>(prv, node). case node of
             None \<Rightarrow> Some (-1, s)
           | Some a \<Rightarrow> dl_unlink prv a (h, d) \<bind> (\<lambda>s'. Some (0, some_state s'))))"

definition cobalt_list_get_head :: "dlist option \<Rightarrow> nat option" where
  "cobalt_list_get_head ls = (case ls of None \<Rightarrow> None | Some d \<Rightarrow> dl_head d)"

definition cobalt_list_set_head :: "dlist option \<Rightarrow> nat option \<Rightarrow> nat option \<Rightarrow> dlist option" where
  "cobalt_list_set_head ls head tail =
     (case ls of None \<Rightarrow> None | Some d \<Rightarrow> Some (d\<lparr>dl_head := head, dl_tail := tail\<rparr>))"

subsection \<open>The sequence interface and the iterator of a list\<close>

definition list_size_seq :: "'a dstate \<Rightarrow> nat" where
  "list_size_seq s = dl_size (snd s)"

definition list_is_empty_seq :: "'a dstate \<Rightarrow> bool" where
  "list_is_empty_seq s \<longleftrightarrow> dl_size (snd s) = 0"

definition list_add_seq :: "bool \<Rightarrow> 'a dstate \<Rightarrow> 'a option \<Rightarrow> (cobalt_error option \<times> 'a dstate) option" where
  "list_add_seq alloc s item = (let (h, d) = s in
     case heap_new alloc \<lparr>nd_data = item, nd_next = None, nd_prev = dl_tail d\<rparr> h of
       None \<Rightarrow> Some (Some COBALT_ERROR_OUT_OF_MEMORY, s)
     | Some (node, h) \<Rightarrow>
         (case dl_tail d of
            None \<Rightarrow> Some (h, d\<lparr>dl_head := Some node, dl_tail := Some node\<rparr>)
          | Some t \<Rightarrow>
              heap_upd t (\<lambda>n. n\<lparr>nd_next := Some node\<rparr>) h \<bind> (\<lambda>h. Some (h, d\<lparr>dl_tail := Some node\<rparr>))) \<bind>
         (\<lambda>(h, d). Some (None, (h, d\<lparr>dl_size := szt (dl_size d + 1)\<rparr>))))"

definition list_remove_seq :: "'a dstate \<Rightarrow> 'a option \<Rightarrow> 'a dstate option" where
  "list_remove_seq s item =
     (if item = None then Some s
      else
        dl_find (\<lambda>x. x = item) (fst s) None (dl_head (snd s)) \<bind>
        (\<lambda>r. case r of None \<Rightarrow> Some s | Some (prv, node) \<Rightarrow> dl_unlink prv node s))"

definition list_get_at_index_seq :: "'a dstate \<Rightarrow> nat \<Rightarrow> ('a option \<times> cobalt_error option) option" where
  "list_get_at_index_seq s index = cobalt_list_get (some_state s) index"

definition list_seq_vtable :: "bool \<Rightarrow> ('a dstate, 'a) cobalt_sequence" where
  "list_seq_vtable alloc =
     \<lparr>sv_size = Some list_size_seq, sv_is_empty = Some list_is_empty_seq,
      sv_add = Some (list_add_seq alloc), sv_remove = Some list_remove_seq,
      sv_get_at_index = Some list_get_at_index_seq\<rparr>"

record 'a list_iterator_impl =
  li_heap :: "'a dnode heap"
  li_current :: "nat option"

definition list_iterator_has_next :: "'a list_iterator_impl \<Rightarrow> bool" where
  "list_iterator_has_next impl \<longleftrightarrow> li_current impl \<noteq> None"

definition list_iterator_next :: "'a list_iterator_impl \<Rightarrow> ('a option \<times> 'a list_iterator_impl) option" where
  "list_iterator_next impl =
     (case li_current impl of
        None \<Rightarrow> Some (None, impl)
      | Some a \<Rightarrow>
          heap_read (li_heap impl) a \<bind> (\<lambda>n. Some (nd_data n, impl\<lparr>li_current := nd_next n\<rparr>)))"

definition list_vtable :: "('a list_iterator_impl, 'a) iterator_vtable" where
  "list_vtable = \<lparr>itv_has_next = list_iterator_has_next, itv_next = list_iterator_next\<rparr>"

definition cobalt_list_iterator_create ::
    "bool \<Rightarrow> bool \<Rightarrow> 'a dptr_state \<Rightarrow> ('a list_iterator_impl, 'a) seq_iter" where
  "cobalt_list_iterator_create alloc_data alloc_iter s =
     (case s of
        (h, None) \<Rightarrow> None
      | (h, Some d) \<Rightarrow>
          if \<not> alloc_data then None
          else if \<not> alloc_iter then None
          else Some (list_vtable, \<lparr>li_heap = h, li_current = dl_head d\<rparr>))"

subsection \<open>Merge sort of the nodes\<close>

text \<open>
  \<open>list_split_loop\<close> is the slow/fast pointer loop of \<open>list_split\<close>. In \<open>list_merge\<close> the write position
  is \<open>None\<close> while it is the dummy node on the C stack.
\<close>

partial_function (option) list_split_loop ::
    "'a dnode heap \<Rightarrow> nat \<Rightarrow> nat option \<Rightarrow> nat option" where
  "list_split_loop h slow fast =
     (case fast of
        None \<Rightarrow> Some slow
      | Some f \<Rightarrow>
          heap_read h f \<bind>
          (\<lambda>nf. case nd_next nf of
             None \<Rightarrow> Some slow
           | Some f' \<Rightarrow>
               heap_read h slow \<bind>
               (\<lambda>ns. nd_next ns \<bind>
                 (\<lambda>slow'. heap_read h f' \<bind> (\<lambda>nf'. list_split_loop h slow' (nd_next nf'))))))"

definition list_split ::
    "nat option \<Rightarrow> 'a dnode heap \<Rightarrow> (nat option \<times> nat option \<times> 'a dnode heap) option" where
  "list_split head h =
     (case head of
        None \<Rightarrow> Some (None, None, h)
      | Some a \<Rightarrow>
          heap_read h a \<bind>
          (\<lambda>n. list_split_loop h a (nd_next n) \<bind>
            (\<lambda>slow. heap_read h slow \<bind>
              (\<lambda>ns. heap_upd slow (\<lambda>m. m\<lparr>nd_next := None\<rparr>) h \<bind>
                (\<lambda>h. Some (Some a, nd_next ns, h))))))"

definition list_set_next ::
    "nat option \<Rightarrow> nat option \<Rightarrow> nat option \<Rightarrow> 'a dnode heap \<Rightarrow> (nat option \<times> 'a dnode heap) option" where
  "list_set_next dummy_next tail v h =
     (case tail of
        None \<Rightarrow> Some (v, h)
      | Some t \<Rightarrow> heap_upd t (\<lambda>m. m\<lparr>nd_next := v\<rparr>) h \<bind> (\<lambda>h. Some (dummy_next, h)))"

partial_function (option) list_merge_loop ::
    "('a option \<Rightarrow> 'a option \<Rightarrow> int) \<Rightarrow> nat option \<Rightarrow> nat option \<Rightarrow> nat option \<Rightarrow> nat option \<Rightarrow>
     'a dnode heap \<Rightarrow> (nat option \<times> 'a dnode heap) option" where
  "list_merge_loop compar a b dummy_next tail h =
     (case (a, b) of
        (Some x, Some y) \<Rightarrow>
          heap_read h x \<bind>
          (\<lambda>nx. heap_read h y \<bind>
           (\<lambda>ny. if compar (nd_data nx) (nd_data ny) \<le> 0 then
                   list_set_next dummy_next tail a h \<bind>
                   (\<lambda>(dn, h). heap_read h x \<bind>
                     (\<lambda>nx. list_merge_loop compar (nd_next nx) b dn a h))
                 else
                   list_set_next dummy_next tail b h \<bind>
                   (\<lambda>(dn, h). heap_read h y \<bind>
                     (\<lambda>ny. list_merge_loop compar a (nd_next ny) dn b h))))
      | _ \<Rightarrow> list_set_next dummy_next tail (if a \<noteq> None then a else b) h)"

definition list_merge ::
    "nat option \<Rightarrow> nat option \<Rightarrow> ('a option \<Rightarrow> 'a option \<Rightarrow> int) \<Rightarrow> 'a dnode heap \<Rightarrow>
     (nat option \<times> 'a dnode heap) option" where
  "list_merge a b compar h = list_merge_loop compar a b None None h"

partial_function (option) list_mergesort ::
    "nat option \<Rightarrow> ('a option \<Rightarrow> 'a option \<Rightarrow> int) \<Rightarrow> 'a dnode heap \<Rightarrow> (nat option \<times> 'a dnode heap) option" where
  "list_mergesort head compar h =
     (case head of
        None \<Rightarrow> Some (None, h)
      | Some a \<Rightarrow>
          heap_read h a \<bind>
          (\<lambda>n. if nd_next n = None then Some (head, h)
               else
                 list_split head h \<bind>
                 (\<lambda>(a, b, h). list_mergesort a compar h \<bind>
                   (\<lambda>(a, h). list_mergesort b compar h \<bind>
                     (\<lambda>(b, h). list_merge a b compar h)))))"

definition cobalt_list_merge_sort ::
    "nat option option \<Rightarrow> ('a option \<Rightarrow> 'a option \<Rightarrow> int) option \<Rightarrow> 'a dnode heap \<Rightarrow>
     (nat option option \<times> 'a dnode heap) option" where
  "cobalt_list_merge_sort head_ref compar h =
     (case (head_ref, compar) of
        (Some hr, Some c) \<Rightarrow> list_mergesort hr c h \<bind> (\<lambda>(hr, h). Some (Some hr, h))
      | _ \<Rightarrow> Some (head_ref, h))"

declare list_split_loop.simps [code] list_merge_loop.simps [code] list_mergesort.simps [code]

subsection \<open>A list is the list of its elements\<close>

lemma list_get_ok:
  assumes "dl_ok (h, d)"
  shows "cobalt_list_get (h, Some d) i =
    Some (if i < length (dl_abs (h, d)) then (dl_abs (h, d) ! i, None) else (None, Some COBALT_ERROR_OUT_OF_BOUNDS))"
proof -
  from dl_okE [OF assms] obtain h' d' ps where "(h, d) = (h', d')" "dl_repr (h', d') ps"
    "dl_abs (h, d) = dl_data (hp_map h') ps" .
  then have s: "dl_repr (h, d) ps" "dl_abs (h, d) = dl_data (hp_map h) ps" by simp_all
  show ?thesis
  proof (cases "i < length ps")
    case True
    from dl_walk_get [OF s(1) True] show ?thesis
      using s True dl_reprD(4) [OF s(1)] by (auto simp: cobalt_list_get_def)
  qed (use s dl_reprD(4) [OF s(1)] in \<open>simp add: cobalt_list_get_def\<close>)
qed

lemma list_find_unlink:
  assumes ok: "dl_ok (h, d)"
  obtains (found) prv x h' d' where "dl_find P h None (dl_head d) = Some (Some (prv, x))"
      "dl_unlink prv x (h, d) = Some (h', d')" "dl_ok (h', d')"
      "dl_abs (h', d') = remove_first P (dl_abs (h, d))" "\<exists>y\<in>set (dl_abs (h, d)). P y"
  | (absent) "dl_find P h None (dl_head d) = Some None" "remove_first P (dl_abs (h, d)) = dl_abs (h, d)"
      "\<not> (\<exists>y\<in>set (dl_abs (h, d)). P y)"
proof -
  from dl_okE [OF ok] obtain h' d' ps where "(h, d) = (h', d')" "dl_repr (h', d') ps"
    "dl_abs (h, d) = dl_data (hp_map h') ps" .
  then have s: "dl_repr (h, d) ps" "dl_abs (h, d) = dl_data (hp_map h) ps" by simp_all
  show ?thesis
  proof (cases rule: find_unlink_ok [OF s(1), of P])
    case (1 prv x h' d' ps')
    show ?thesis using found [OF 1(1,3)] 1(5,6) dl_okI [OF 1(4)] s(2) by simp
  next
    case 2
    then show ?thesis using absent s(2) by simp
  qed
qed

lemma list_remove_seq_ok:
  assumes "dl_ok s"
  obtains s' where "list_remove_seq s x = Some s'" "dl_ok s'"
    "dl_abs s' = (if x = None then dl_abs s else remove1 x (dl_abs s))"
proof (cases "x = None")
  case True
  with that assms show ?thesis by (simp add: list_remove_seq_def)
next
  case False
  obtain h d where s: "s = (h, d)" by (cases s)
  have ok: "dl_ok (h, d)" using assms s by simp
  show ?thesis
  proof (cases rule: list_find_unlink [OF ok, of "\<lambda>y. y = x"])
    case (1 prv a h' d')
    then show ?thesis using that [of "(h', d')"] False s by (simp add: list_remove_seq_def remove_first_eq)
  next
    case 2
    then show ?thesis using that [of s] False s assms by (simp add: list_remove_seq_def remove_first_eq)
  qed
qed

lemma list_add_push_back:
  "list_add_seq True s x = dl_push_back True x s \<bind> (\<lambda>(r, e, s'). Some (e, s'))"
  by (cases s; cases "dl_tail (snd s)")
    (auto simp: list_add_seq_def dl_push_back_def heap_new_def heap_upd_def split: option.splits)

interpretation list_seq: seq_object "list_seq_vtable True" dl_ok dl_abs SIZE_MAX
proof
  show "\<exists>f. sv_size (list_seq_vtable True) = Some f \<and> (\<forall>s. dl_ok s \<longrightarrow> f s = length (dl_abs s))"
    using dl_size_abs by (auto simp: list_seq_vtable_def list_size_seq_def)
next
  fix s :: "'a dstate" and x :: "'a option" and i
  assume ok: "dl_ok s"
  obtain h d where hd: "s = (h, d)" by (cases s)
  show "\<exists>f. sv_is_empty (list_seq_vtable True) = Some f \<and> f s = (dl_abs s = [])"
    using dl_size_abs [of "fst s" "snd s"] ok by (simp add: list_seq_vtable_def list_is_empty_seq_def)
  show "\<exists>f e s'. sv_add (list_seq_vtable True) = Some f \<and> f s x = Some (e, s') \<and> dl_ok s' \<and>
      dl_abs s' = dl_abs s @ [x]" if lim: "length (dl_abs s) < SIZE_MAX"
  proof -
    from dl_okE [OF ok] obtain h d ps where s: "s = (h, d)" "dl_repr (h, d) ps" "dl_abs s = dl_data (hp_map h) ps" .
    obtain h' d' where "dl_push_back True x (h, d) = Some (0, None, (h', d'))"
      "dl_repr (h', d') (ps @ [hp_next h])" "dl_data (hp_map h') (ps @ [hp_next h]) = dl_data (hp_map h) ps @ [x]"
      "dom (hp_map h') = insert (hp_next h) (dom (hp_map h))"
      by (rule push_back_ok [OF s(2)]) (use lim s(3) in simp)
    with dl_okI [of h' d'] s show ?thesis
      by (simp add: list_seq_vtable_def list_add_push_back)
  qed
  show "\<exists>f s'. sv_remove (list_seq_vtable True) = Some f \<and> f s x = Some s' \<and> dl_ok s' \<and>
      dl_abs s' = (if x = None then dl_abs s else remove1 x (dl_abs s))"
  proof -
    from list_remove_seq_ok [OF ok, of x] obtain s' where "list_remove_seq s x = Some s'" "dl_ok s'"
      "dl_abs s' = (if x = None then dl_abs s else remove1 x (dl_abs s))" .
    then show ?thesis unfolding list_seq_vtable_def by (intro exI [of _ list_remove_seq] exI [of _ s']) simp
  qed
  show "\<exists>f e. sv_get_at_index (list_seq_vtable True) = Some f \<and>
      f s i = Some (if i < length (dl_abs s) then dl_abs s ! i else None, e)"
    using list_get_ok [of h d i] ok hd by (simp add: list_seq_vtable_def list_get_at_index_seq_def)
qed

lemma remove_at_walk:
  "dseg (hp_map h) p prv as None lst \<Longrightarrow>
   list_remove_at_walk h k prv p =
     Some (if k < length as then (if k = 0 then prv else Some (as ! (k - 1)), Some (as ! k))
           else (if as = [] then prv else last_opt as, None))"
proof (induction k arbitrary: p prv as)
  case 0
  then show ?case by (cases as) auto
next
  case (Suc k)
  show ?case
  proof (cases as)
    case Nil
    then show ?thesis using Suc.prems by simp
  next
    case (Cons a as')
    then obtain n where n: "p = Some a" "hp_map h a = Some n" "dseg (hp_map h) (nd_next n) (Some a) as' None lst"
      using Suc.prems by auto
    have "last_opt (a # as') = (if as' = [] then Some a else last_opt as')" by (cases as') auto
    then show ?thesis using Suc.IH [OF n(3)] n Cons by (cases k) (auto simp: heap_read_def)
  qed
qed

lemma list_remove_at_ok:
  assumes ok: "dl_ok (h, d)"
  shows "if i < length (dl_abs (h, d))
    then \<exists>h' d'. cobalt_list_remove_at (h, Some d) i = Some (0, (h', Some d')) \<and> dl_ok (h', d') \<and>
      dl_abs (h', d') = take i (dl_abs (h, d)) @ drop (Suc i) (dl_abs (h, d))
    else cobalt_list_remove_at (h, Some d) i = Some (-1, (h, Some d))"
proof -
  from dl_okE [OF ok] obtain h' d' ps where "(h, d) = (h', d')" "dl_repr (h', d') ps"
    "dl_abs (h, d) = dl_data (hp_map h') ps" .
  then have s: "dl_repr (h, d) ps" "dl_abs (h, d) = dl_data (hp_map h) ps" by simp_all
  note D = dl_reprD [OF s(1)]
  show ?thesis
  proof (cases "i < length ps")
    case True
    have ps: "ps = take i ps @ ps ! i # drop (Suc i) ps" using True by (rule id_take_nth_drop)
    have r: "dl_repr (h, d) (take i ps @ ps ! i # drop (Suc i) ps)" using s(1) ps by simp
    obtain h' d' where u: "dl_unlink (last_opt (take i ps)) (ps ! i) (h, d) = Some (h', d')"
      "dl_repr (h', d') (take i ps @ drop (Suc i) ps)"
      "dl_data (hp_map h') (take i ps @ drop (Suc i) ps) = dl_data (hp_map h) (take i ps @ drop (Suc i) ps)"
      "hp_map h' (ps ! i) = None" "dom (hp_map h') = dom (hp_map h) - {ps ! i}"
      by (rule unlink_ok [OF r])
    have "last_opt (take i ps) = (if i = 0 then None else Some (ps ! (i - 1)))"
      using True by (cases i) (auto simp: take_Suc_conv_app_nth)
    then have "cobalt_list_remove_at (h, Some d) i = Some (0, (h', Some d'))"
      using remove_at_walk [OF D(3), of i] True u(1) by (simp add: cobalt_list_remove_at_def)
    moreover have "dl_data (hp_map h) (take i ps @ drop (Suc i) ps) =
        take i (dl_data (hp_map h) ps) @ drop (Suc i) (dl_data (hp_map h) ps)"
      by (simp add: dl_data_def take_map drop_map)
    ultimately show ?thesis using True s(2) u(3) dl_okI [OF u(2)] by simp
  next
    case False
    then show ?thesis using remove_at_walk [OF D(3), of i] s(2) by (simp add: cobalt_list_remove_at_def)
  qed
qed

lemma list_iterator_drain:
  "dseg (hp_map h) p prv as None lst \<Longrightarrow> length as \<le> n \<Longrightarrow>
   seq_drain n (Some (list_vtable, \<lparr>li_heap = h, li_current = p\<rparr>)) = Some (dl_data (hp_map h) as)"
proof (induction as arbitrary: p prv n)
  case Nil
  then show ?case
    by (cases n) (simp_all add: cobalt_iterator_has_next_def list_vtable_def list_iterator_has_next_def)
next
  case (Cons a as)
  then obtain n' m where "n = Suc n'" "p = Some a" "hp_map h a = Some m" "length as \<le> n'"
    "dseg (hp_map h) (nd_next m) (Some a) as None lst" by (cases n) auto
  with Cons.IH show ?case
    by (simp add: cobalt_iterator_has_next_def cobalt_iterator_next_def list_vtable_def list_iterator_has_next_def
        list_iterator_next_def heap_read_def)
qed

subsection \<open>Merge sort of the nodes\<close>

text \<open>
  Chains of \<open>next\<close> pointers, and what the sort may change: nothing but the \<open>next\<close> fields of the nodes
  it is given.
\<close>

fun nseg :: "(nat \<rightharpoonup> 'a dnode) \<Rightarrow> nat option \<Rightarrow> nat list \<Rightarrow> bool" where
  "nseg m p [] \<longleftrightarrow> p = None"
| "nseg m p (a # as) \<longleftrightarrow> p = Some a \<and> (\<exists>n. m a = Some n \<and> nseg m (nd_next n) as)"

definition relinked :: "nat set \<Rightarrow> (nat \<rightharpoonup> 'a dnode) \<Rightarrow> (nat \<rightharpoonup> 'a dnode) \<Rightarrow> bool" where
  "relinked S m m' \<longleftrightarrow>
     (\<forall>x. x \<notin> S \<longrightarrow> m' x = m x) \<and>
     (\<forall>x. map_option (\<lambda>n. n\<lparr>nd_next := None\<rparr>) (m' x) = map_option (\<lambda>n. n\<lparr>nd_next := None\<rparr>) (m x))"

lemma relinked_refl [simp]: "relinked S m m"
  by (simp add: relinked_def)

lemma relinked_trans: "relinked S m m' \<Longrightarrow> relinked T m' m'' \<Longrightarrow> relinked (S \<union> T) m m''"
  by (simp add: relinked_def)

lemma relinked_mono: "relinked S m m' \<Longrightarrow> S \<subseteq> T \<Longrightarrow> relinked T m m'"
  by (auto simp: relinked_def)

lemma relinked_upd: "m a = Some n \<Longrightarrow> a \<in> S \<Longrightarrow> relinked S m (m(a \<mapsto> n\<lparr>nd_next := v\<rparr>))"
  by (auto simp: relinked_def)

lemma relinked_data: "relinked S m m' \<Longrightarrow> map_option nd_data (m' x) = map_option nd_data (m x)"
proof -
  assume "relinked S m m'"
  then have "map_option (\<lambda>n. n\<lparr>nd_next := None\<rparr>) (m' x) = map_option (\<lambda>n. n\<lparr>nd_next := None\<rparr>) (m x)"
    by (simp add: relinked_def)
  from arg_cong [OF this, of "map_option nd_data"] show ?thesis by (simp add: option.map_comp o_def)
qed

lemma nd_data_the: "map_option nd_data (m' x) = map_option nd_data (m x) \<Longrightarrow> nd_data (the (m' x)) = nd_data (the (m x))"
  if "m x \<noteq> None"
  using that by (cases "m' x") auto

lemma nseg_frame: "(\<And>a. a \<in> set as \<Longrightarrow> m' a = m a) \<Longrightarrow> nseg m' p as \<longleftrightarrow> nseg m p as"
  by (induction as arbitrary: p) auto

lemma nseg_relinked: "relinked S m m' \<Longrightarrow> S \<inter> set as = {} \<Longrightarrow> nseg m' p as \<longleftrightarrow> nseg m p as"
  by (rule nseg_frame) (auto simp: relinked_def)

lemma nseg_dom: "nseg m p as \<Longrightarrow> a \<in> set as \<Longrightarrow> \<exists>n. m a = Some n"
  by (induction as arbitrary: p) auto

lemma dseg_nseg: "dseg m p prv as None lst \<Longrightarrow> nseg m p as"
  by (induction as arbitrary: p prv) auto

lemma nseg_head: "nseg m p as \<Longrightarrow> p = (if as = [] then None else Some (hd as))"
  by (cases as) auto

lemma nseg_split:
  "nseg m p (as @ x # bs) \<Longrightarrow> distinct (as @ x # bs) \<Longrightarrow> m x = Some n \<Longrightarrow>
   nseg (m(x \<mapsto> n\<lparr>nd_next := None\<rparr>)) p (as @ [x]) \<and> nseg (m(x \<mapsto> n\<lparr>nd_next := None\<rparr>)) (nd_next n) bs"
proof (induction as arbitrary: p)
  case Nil
  have "nseg (m(x \<mapsto> n\<lparr>nd_next := None\<rparr>)) (nd_next n) bs = nseg m (nd_next n) bs"
    using Nil by (intro nseg_frame) auto
  with Nil show ?case by (auto simp: fun_upd_same simp del: fun_upd_apply)
qed auto

lemma split_loop_ok:
  "nseg (hp_map h) (Some slow) (slow # zs) \<Longrightarrow> nseg (hp_map h) fast fs \<Longrightarrow> length fs div 2 \<le> length zs \<Longrightarrow>
   list_split_loop h slow fast = Some ((slow # zs) ! (length fs div 2))"
proof (induction fs arbitrary: slow zs fast rule: induct_list012)
  case 1
  then show ?case by (subst list_split_loop.simps) simp
next
  case (2 f)
  then show ?case by (subst list_split_loop.simps) (auto simp: heap_read_def)
next
  case (3 f f' fs)
  obtain nf nf' where nf: "fast = Some f" "hp_map h f = Some nf" "nd_next nf = Some f'" "hp_map h f' = Some nf'"
    "nseg (hp_map h) (nd_next nf') fs" using 3(4) by auto
  obtain s' zs' where zs: "zs = s' # zs'" using 3(5) by (cases zs) auto
  obtain ns where ns: "hp_map h slow = Some ns" "nd_next ns = Some s'" "nseg (hp_map h) (Some s') (s' # zs')"
    using 3(3) zs by auto
  have "list_split_loop h s' (nd_next nf') = Some ((s' # zs') ! (length fs div 2))"
    using 3(5) zs by (intro 3(1) [OF ns(3) nf(5)]) simp
  then show ?case using nf ns zs by (subst list_split_loop.simps) (simp add: heap_read_def)
qed

lemma split_ok:
  assumes n: "nseg (hp_map h) p ps" and d: "distinct ps" and l: "2 \<le> length ps"
  defines "k \<equiv> Suc ((length ps - 1) div 2)"
  obtains b h' where "list_split p h = Some (p, b, h')" "nseg (hp_map h') p (take k ps)"
    "nseg (hp_map h') b (drop k ps)" "relinked (set ps) (hp_map h) (hp_map h')"
proof -
  obtain a zs where ps: "ps = a # zs" using l by (cases ps) auto
  obtain na where na: "p = Some a" "hp_map h a = Some na" "nseg (hp_map h) (nd_next na) zs" using n ps by auto
  let ?i = "length zs div 2"
  let ?x = "ps ! ?i"
  have i: "?i < length ps" using ps by simp
  have loop: "list_split_loop h a (nd_next na) = Some ?x"
    using split_loop_ok [of h a zs "nd_next na" zs] n na ps by simp
  have dec: "ps = take ?i ps @ ?x # drop (Suc ?i) ps" using i by (rule id_take_nth_drop)
  obtain nx where nx: "hp_map h ?x = Some nx" using nseg_dom [OF n] i by (metis nth_mem)
  let ?m = "(hp_map h)(?x \<mapsto> nx\<lparr>nd_next := None\<rparr>)"
  have s: "nseg ?m p (take ?i ps @ [?x])" "nseg ?m (nd_next nx) (drop (Suc ?i) ps)"
    using nseg_split [of "hp_map h" p "take ?i ps" ?x "drop (Suc ?i) ps" nx] n d nx dec by simp_all
  have k: "k = Suc ?i" by (simp add: k_def ps)
  have "take ?i ps @ [?x] = take k ps" using i k by (simp add: take_Suc_conv_app_nth)
  moreover have "list_split p h = Some (p, nd_next nx, h\<lparr>hp_map := ?m\<rparr>)"
    using na loop nx by (simp add: list_split_def heap_read_def heap_upd_def)
  moreover have "relinked (set ps) (hp_map h) ?m" using nx i by (intro relinked_upd) simp_all
  ultimately show ?thesis using that [of "nd_next nx" "h\<lparr>hp_map := ?m\<rparr>"] s k by simp
qed

text \<open>
  The merge loop, in general: the chain hangs off the dummy node or off the last node written.
\<close>

definition next_of :: "nat option \<Rightarrow> nat option \<Rightarrow> (nat \<rightharpoonup> 'a dnode) \<Rightarrow> nat option" where
  "next_of dn tail m = (case tail of None \<Rightarrow> dn | Some t \<Rightarrow> nd_next (the (m t)))"

abbreviation addr_cmp :: "('a option \<Rightarrow> 'a option \<Rightarrow> int) \<Rightarrow> (nat \<rightharpoonup> 'a dnode) \<Rightarrow> nat \<Rightarrow> nat \<Rightarrow> int" where
  "addr_cmp c m \<equiv> (\<lambda>x y. c (nd_data (the (m x))) (nd_data (the (m y))))"

definition tail_ok :: "nat option \<Rightarrow> nat set \<Rightarrow> (nat \<rightharpoonup> 'a dnode) \<Rightarrow> bool" where
  "tail_ok tail S m \<longleftrightarrow> (\<forall>t. tail = Some t \<longrightarrow> m t \<noteq> None \<and> t \<notin> S)"

lemma set_next_ok:
  assumes "tail_ok tail (set as) (hp_map h)" "nseg (hp_map h) v as"
  obtains dn' h' where "list_set_next dn tail v h = Some (dn', h')" "nseg (hp_map h') v as"
    "next_of dn' tail (hp_map h') = v" "tail \<noteq> None \<longrightarrow> dn' = dn"
    "relinked (set_option tail) (hp_map h) (hp_map h')"
proof (cases tail)
  case None
  then show ?thesis using that [of v h] assms by (simp add: list_set_next_def next_of_def)
next
  case (Some t)
  then obtain n where n: "hp_map h t = Some n" "t \<notin> set as" using assms(1) by (auto simp: tail_ok_def)
  have "nseg ((hp_map h)(t \<mapsto> n\<lparr>nd_next := v\<rparr>)) v as = nseg (hp_map h) v as"
    using n(2) by (intro nseg_frame) auto
  then show ?thesis
    using that [of dn "h\<lparr>hp_map := (hp_map h)(t \<mapsto> n\<lparr>nd_next := v\<rparr>)\<rparr>"] Some n assms(2)
    by (simp add: list_set_next_def next_of_def heap_upd_def relinked_upd)
qed

lemma addr_cmp_relinked:
  "relinked S m m' \<Longrightarrow> m x \<noteq> None \<Longrightarrow> m y \<noteq> None \<Longrightarrow> addr_cmp c m' x y = addr_cmp c m x y"
  using nd_data_the [of m x m'] nd_data_the [of m y m'] relinked_data [of S m m'] by simp

lemma merge_by_cong:
  "(\<And>x y. x \<in> set xs \<Longrightarrow> y \<in> set ys \<Longrightarrow> f x y = g x y) \<Longrightarrow> merge_by f xs ys = merge_by g xs ys"
proof (induction xs arbitrary: ys)
  case (Cons x xs)
  note ih = Cons.IH
  from Cons.prems show ?case
  proof (induction ys)
    case (Cons y ys)
    have "merge_by f xs (y # ys) = merge_by g xs (y # ys)" using Cons.prems by (intro ih) simp
    moreover have "merge_by f (x # xs) ys = merge_by g (x # xs) ys" using Cons.prems by (intro Cons.IH) simp
    moreover have "f x y = g x y" using Cons.prems by simp
    ultimately show ?case by simp
  qed simp
qed simp

lemma merge_step:
  assumes "next_of dn1 tail m1 = Some x" "tail \<noteq> None \<longrightarrow> dn1 = dn" "relinked (set_option tail) m m1"
    "m1 x \<noteq> None" "nseg m' (next_of dn1 (Some x) m') zs" "relinked (insert x S) m1 m'"
    "tail_ok tail (insert x S) m"
  shows "nseg m' (next_of dn1 tail m') (x # zs)" "relinked (insert x S \<union> set_option tail) m m'"
proof -
  have "map_option nd_data (m' x) = map_option nd_data (m1 x)" by (rule relinked_data [OF assms(6)])
  then obtain n' where n': "m' x = Some n'" using assms(4) by (cases "m' x") auto
  have "next_of dn1 tail m' = Some x"
  proof (cases tail)
    case None
    then show ?thesis using assms(1) by (simp add: next_of_def)
  next
    case (Some t)
    then have "m' t = m1 t" using assms(6,7) by (auto simp: relinked_def tail_ok_def)
    then show ?thesis using assms(1) Some by (simp add: next_of_def)
  qed
  then show "nseg m' (next_of dn1 tail m') (x # zs)" using n' assms(5) by (simp add: next_of_def)
  show "relinked (insert x S \<union> set_option tail) m m'"
    using relinked_trans [OF assms(3,6)] by (rule relinked_mono) auto
qed

lemma merge_loop_ok:
  assumes "nseg (hp_map h) a as" "nseg (hp_map h) b bs" "distinct (as @ bs)"
    "tail_ok tail (set as \<union> set bs) (hp_map h)"
  shows "\<exists>dn' h'. list_merge_loop c a b dn tail h = Some (dn', h') \<and>
    nseg (hp_map h') (next_of dn' tail (hp_map h')) (merge_by (addr_cmp c (hp_map h)) as bs) \<and>
    (tail \<noteq> None \<longrightarrow> dn' = dn) \<and> relinked (set as \<union> set bs \<union> set_option tail) (hp_map h) (hp_map h')"
  using assms
proof (induction "length as + length bs" arbitrary: as bs a b dn tail h)
  case 0
  then have e: "as = []" "bs = []" "a = None" "b = None" by auto
  have t: "tail_ok tail (set []) (hp_map h)" using 0 by (simp add: tail_ok_def)
  obtain dn' h' where "list_set_next dn tail None h = Some (dn', h')" "nseg (hp_map h') None []"
    "next_of dn' tail (hp_map h') = None" "tail \<noteq> None \<longrightarrow> dn' = dn"
    "relinked (set_option tail) (hp_map h) (hp_map h')"
    by (rule set_next_ok [OF t, of None dn]) simp_all
  then show ?case using e by (subst list_merge_loop.simps) auto
next
  case (Suc k)
  show ?case
  proof (cases "as = [] \<or> bs = []")
    case True
    let ?v = "if a \<noteq> None then a else b" and ?vs = "if as \<noteq> [] then as else bs"
    have v: "nseg (hp_map h) ?v ?vs" "a = None \<or> b = None"
      using Suc.prems(1,2) True nseg_head [OF Suc.prems(1)] nseg_head [OF Suc.prems(2)] by auto
    have t: "tail_ok tail (set ?vs) (hp_map h)" using Suc.prems(4) by (auto simp: tail_ok_def)
    obtain dn' h' where r: "list_set_next dn tail ?v h = Some (dn', h')" "nseg (hp_map h') ?v ?vs"
      "next_of dn' tail (hp_map h') = ?v" "tail \<noteq> None \<longrightarrow> dn' = dn"
      "relinked (set_option tail) (hp_map h) (hp_map h')" by (rule set_next_ok [OF t v(1)])
    have "list_merge_loop c a b dn tail h = Some (dn', h')"
      using v(2) r(1) by (subst list_merge_loop.simps) (auto split: option.split)
    moreover have "merge_by (addr_cmp c (hp_map h)) as bs = ?vs" using True by auto
    moreover have "relinked (set as \<union> set bs \<union> set_option tail) (hp_map h) (hp_map h')"
      using r(5) relinked_mono by blast
    ultimately show ?thesis using r by auto
  next
    case False
    then obtain x as' y bs' where ab: "as = x # as'" "bs = y # bs'" by (meson neq_Nil_conv)
    obtain nx ny where nx: "a = Some x" "hp_map h x = Some nx" "nseg (hp_map h) (nd_next nx) as'"
      and ny: "b = Some y" "hp_map h y = Some ny" "nseg (hp_map h) (nd_next ny) bs'"
      using Suc.prems(1,2) ab by auto
    show ?thesis
    proof (cases "c (nd_data nx) (nd_data ny) \<le> 0")
      case True
      have t: "tail_ok tail (set as) (hp_map h)" using Suc.prems(4) by (auto simp: tail_ok_def)
      obtain dn1 h1 where r: "list_set_next dn tail a h = Some (dn1, h1)" "nseg (hp_map h1) a as"
        "next_of dn1 tail (hp_map h1) = a" "tail \<noteq> None \<longrightarrow> dn1 = dn"
        "relinked (set_option tail) (hp_map h) (hp_map h1)" by (rule set_next_ok [OF t Suc.prems(1)])
      have sep: "set_option tail \<inter> set (as @ bs) = {}" using Suc.prems(4) by (auto simp: tail_ok_def)
      have hx: "hp_map h1 x = Some nx" using r(5) sep nx(2) ab by (auto simp: relinked_def)
      have c1: "nseg (hp_map h1) (nd_next nx) as'" "nseg (hp_map h1) b bs"
        using r(2) hx ab nseg_relinked [OF r(5), of bs b] sep Suc.prems(2) by auto
      have t1: "tail_ok (Some x) (set as' \<union> set bs) (hp_map h1)" using hx Suc.prems(3) ab by (auto simp: tail_ok_def)
      have "distinct (as' @ bs)" "k = length as' + length bs" using Suc.prems(3) Suc.hyps(2) ab by simp_all
      from Suc.hyps(1) [OF this(2) c1 this(1) t1, of dn1] obtain dn' h' where
        ih: "list_merge_loop c (nd_next nx) b dn1 (Some x) h1 = Some (dn', h')"
          "nseg (hp_map h') (next_of dn' (Some x) (hp_map h')) (merge_by (addr_cmp c (hp_map h1)) as' bs)"
          "dn' = dn1" "relinked (set as' \<union> set bs \<union> {x}) (hp_map h1) (hp_map h')" by auto
      have m: "merge_by (addr_cmp c (hp_map h1)) as' bs = merge_by (addr_cmp c (hp_map h)) as' bs"
        using nseg_dom [OF Suc.prems(1)] nseg_dom [OF Suc.prems(2)] ab
        by (intro merge_by_cong addr_cmp_relinked [OF r(5)]) fastforce+
      have t2: "tail_ok tail (insert x (set as' \<union> set bs)) (hp_map h)" using Suc.prems(4) ab by (auto simp: tail_ok_def)
      have "relinked (insert x (set as' \<union> set bs)) (hp_map h1) (hp_map h')" using ih(4) by simp
      from merge_step [OF r(3) [unfolded nx(1)] r(4,5) _ ih(2) [unfolded ih(3)] this t2] hx
      have "nseg (hp_map h') (next_of dn1 tail (hp_map h')) (x # merge_by (addr_cmp c (hp_map h1)) as' bs)"
        "relinked (insert x (set as' \<union> set bs) \<union> set_option tail) (hp_map h) (hp_map h')" by simp_all
      moreover have "list_merge_loop c a b dn tail h = Some (dn1, h')"
        using nx(1,2) ny(1,2) r(1) hx ih(1,3) True by (subst list_merge_loop.simps) (simp add: heap_read_def)
      moreover have "set as \<union> set bs \<union> set_option tail = insert x (set as' \<union> set bs) \<union> set_option tail"
        using ab by auto
      ultimately show ?thesis using True nx(2) ny(2) ab(1,2) r(4) m
        by (intro exI [of _ dn1] exI [of _ h']) (simp only: merge_by.simps option.sel if_True simp_thms)
    next
      case False
      have t: "tail_ok tail (set bs) (hp_map h)" using Suc.prems(4) by (auto simp: tail_ok_def)
      obtain dn1 h1 where r: "list_set_next dn tail b h = Some (dn1, h1)" "nseg (hp_map h1) b bs"
        "next_of dn1 tail (hp_map h1) = b" "tail \<noteq> None \<longrightarrow> dn1 = dn"
        "relinked (set_option tail) (hp_map h) (hp_map h1)" by (rule set_next_ok [OF t Suc.prems(2)])
      have sep: "set_option tail \<inter> set (as @ bs) = {}" using Suc.prems(4) by (auto simp: tail_ok_def)
      have hy: "hp_map h1 y = Some ny" using r(5) sep ny(2) ab by (auto simp: relinked_def)
      have c1: "nseg (hp_map h1) a as" "nseg (hp_map h1) (nd_next ny) bs'"
        using r(2) hy ab nseg_relinked [OF r(5), of as a] sep Suc.prems(1) by auto
      have t1: "tail_ok (Some y) (set as \<union> set bs') (hp_map h1)" using hy Suc.prems(3) ab by (auto simp: tail_ok_def)
      have "distinct (as @ bs')" "k = length as + length bs'" using Suc.prems(3) Suc.hyps(2) ab by auto
      from Suc.hyps(1) [OF this(2) c1 this(1) t1, of dn1] obtain dn' h' where
        ih: "list_merge_loop c a (nd_next ny) dn1 (Some y) h1 = Some (dn', h')"
          "nseg (hp_map h') (next_of dn' (Some y) (hp_map h')) (merge_by (addr_cmp c (hp_map h1)) as bs')"
          "dn' = dn1" "relinked (set as \<union> set bs' \<union> {y}) (hp_map h1) (hp_map h')" by auto
      have m: "merge_by (addr_cmp c (hp_map h1)) as bs' = merge_by (addr_cmp c (hp_map h)) as bs'"
        using nseg_dom [OF Suc.prems(1)] nseg_dom [OF Suc.prems(2)] ab
        by (intro merge_by_cong addr_cmp_relinked [OF r(5)]) fastforce+
      have t2: "tail_ok tail (insert y (set as \<union> set bs')) (hp_map h)" using Suc.prems(4) ab by (simp add: tail_ok_def)
      have "relinked (insert y (set as \<union> set bs')) (hp_map h1) (hp_map h')" using ih(4) by simp
      from merge_step [OF r(3) [unfolded ny(1)] r(4,5) _ ih(2) [unfolded ih(3)] this t2] hy
      have "nseg (hp_map h') (next_of dn1 tail (hp_map h')) (y # merge_by (addr_cmp c (hp_map h1)) as bs')"
        "relinked (insert y (set as \<union> set bs') \<union> set_option tail) (hp_map h) (hp_map h')" by simp_all
      moreover have "list_merge_loop c a b dn tail h = Some (dn1, h')"
        using nx(1,2) ny(1,2) r(1) hy ih(1,3) False by (subst list_merge_loop.simps) (simp add: heap_read_def)
      moreover have "set as \<union> set bs \<union> set_option tail = insert y (set as \<union> set bs') \<union> set_option tail"
        using ab by auto
      ultimately show ?thesis using False nx(2) ny(2) ab(1,2) r(4) m
        by (intro exI [of _ dn1] exI [of _ h']) (simp only: merge_by.simps option.sel if_False simp_thms)
    qed
  qed
qed

lemma relinked_cmp:
  assumes "relinked S m m'" "\<And>x. x \<in> set xs \<Longrightarrow> m x \<noteq> None" "mset ys = mset xs" "comparator c"
  shows "stable_sort (addr_cmp c m') xs ys \<longleftrightarrow> stable_sort (addr_cmp c m) xs ys"
proof -
  have d: "nd_data (the (m' x)) = nd_data (the (m x))" if "x \<in> set xs" for x
    using nd_data_the [of m x m'] assms(2) [OF that] relinked_data [OF assms(1), of x] by blast
  have st: "set ys = set xs" using assms(3) mset_eq_setD by blast
  have key: "stable_sort (addr_cmp c m1) xs ys \<Longrightarrow> stable_sort (addr_cmp c m2) xs ys"
    if eq: "\<And>x. x \<in> set xs \<Longrightarrow> nd_data (the (m1 x)) = nd_data (the (m2 x))" for m1 m2 :: "nat \<rightharpoonup> 'a dnode"
  proof -
    assume s: "stable_sort (addr_cmp c m1) xs ys"
    have "cmp_sorted (addr_cmp c m2) ys"
      using s eq st by (auto simp: stable_sort_def cmp_sorted_def intro: sorted_wrt_mono_rel [rotated])
    moreover have "cmp_class (addr_cmp c m2) v ys = cmp_class (addr_cmp c m2) v xs" for v
    proof (cases "\<exists>w\<in>set xs. addr_cmp c m2 v w = 0")
      case True
      then obtain w where w: "w \<in> set xs" "addr_cmp c m2 v w = 0" by blast
      have "addr_cmp c m2 v z = 0 \<longleftrightarrow> addr_cmp c m1 w z = 0" if "z \<in> set xs" for z
        using comparator.cmp_cong_left [OF assms(4) w(2), of "nd_data (the (m2 z))"] eq w(1) that
        by (auto simp: sgn_if split: if_splits)
      then have "cmp_class (addr_cmp c m2) v zs = cmp_class (addr_cmp c m1) w zs" if "set zs = set xs" for zs
        using that by (auto simp: cmp_class_def intro: filter_cong)
      then show ?thesis using s st by (simp add: stable_sort_def)
    next
      case False
      then show ?thesis using st by (simp add: cmp_class_def filter_empty_conv)
    qed
    ultimately show ?thesis using s by (simp add: stable_sort_def)
  qed
  show ?thesis using key [of m' m] key [of m m'] d by auto
qed

lemma mergesort_ok:
  assumes "comparator c" "nseg (hp_map h) p ps" "distinct ps"
  shows "\<exists>p' h' qs. list_mergesort p c h = Some (p', h') \<and> nseg (hp_map h') p' qs \<and>
    stable_sort (addr_cmp c (hp_map h)) ps qs \<and> relinked (set ps) (hp_map h) (hp_map h')"
  using assms(2,3)
proof (induction "length ps" arbitrary: ps p h rule: less_induct)
  case less
  have cmp: "comparator (addr_cmp c m)" for m :: "nat \<rightharpoonup> 'a dnode" by (rule comparator_key [OF assms(1)])
  show ?case
  proof (cases "length ps < 2")
    case True
    have "list_mergesort p c h = Some (p, h)"
      using True less.prems(1) by (cases ps) (subst list_mergesort.simps, auto simp: heap_read_def)+
    moreover have "stable_sort (addr_cmp c (hp_map h)) ps ps"
      using comparator.stable_sort_short [OF cmp] True by simp
    ultimately show ?thesis using less.prems by auto
  next
    case False
    let ?k = "Suc ((length ps - 1) div 2)"
    obtain a where a: "p = Some a" "\<exists>n. hp_map h a = Some n \<and> nd_next n \<noteq> None"
      using False less.prems(1) by (cases ps; cases "tl ps") auto
    obtain b h1 where sp: "list_split p h = Some (p, b, h1)" "nseg (hp_map h1) p (take ?k ps)"
      "nseg (hp_map h1) b (drop ?k ps)" "relinked (set ps) (hp_map h) (hp_map h1)"
      by (rule split_ok [OF less.prems]) (use False in simp_all)
    have k: "?k < length ps" using False by simp
    have dist: "distinct (take ?k ps)" "distinct (drop ?k ps)" "set (take ?k ps) \<inter> set (drop ?k ps) = {}"
      using less.prems(2) by (simp_all add: set_take_disj_set_drop_if_distinct)
    have sub: "set (take ?k ps) \<subseteq> set ps" "set (drop ?k ps) \<subseteq> set ps" by (simp_all add: set_take_subset set_drop_subset)
    have l1: "length (take ?k ps) < length ps" "length (drop ?k ps) < length ps" using k by simp_all
    obtain pa h2 qa where m1: "list_mergesort p c h1 = Some (pa, h2)" "nseg (hp_map h2) pa qa"
      "stable_sort (addr_cmp c (hp_map h1)) (take ?k ps) qa" "relinked (set (take ?k ps)) (hp_map h1) (hp_map h2)"
      using less.hyps [OF l1(1) sp(2) dist(1)] by blast
    have nb: "nseg (hp_map h2) b (drop ?k ps)" using nseg_relinked [OF m1(4) dist(3)] sp(3) by blast
    obtain pb h3 qb where m2: "list_mergesort b c h2 = Some (pb, h3)" "nseg (hp_map h3) pb qb"
      "stable_sort (addr_cmp c (hp_map h2)) (drop ?k ps) qb" "relinked (set (drop ?k ps)) (hp_map h2) (hp_map h3)"
      using less.hyps [OF l1(2) nb dist(2)] by blast
    have sets: "set qa = set (take ?k ps)" "set qb = set (drop ?k ps)" "mset qa = mset (take ?k ps)" "mset qb = mset (drop ?k ps)"
      using m1(3) m2(3) mset_eq_setD by (auto simp: stable_sort_def)
    have na: "nseg (hp_map h3) pa qa" using nseg_relinked [OF m2(4), of qa pa] m1(2) sets dist(3) by auto
    have dq: "distinct (qa @ qb)" using sets dist mset_eq_imp_distinct_iff [OF sets(3)] mset_eq_imp_distinct_iff [OF sets(4)] by auto
    have t: "tail_ok None (set qa \<union> set qb) (hp_map h3)" by (simp add: tail_ok_def)
    obtain p' h4 where mg: "list_merge_loop c pa pb None None h3 = Some (p', h4)"
      "nseg (hp_map h4) p' (merge_by (addr_cmp c (hp_map h3)) qa qb)" "relinked (set qa \<union> set qb) (hp_map h3) (hp_map h4)"
      using merge_loop_ok [OF na m2(2) dq t, of c None] by (auto simp: next_of_def)
    have run: "list_mergesort p c h = Some (p', h4)"
      using a sp(1) m1(1) m2(1) mg(1) by (subst list_mergesort.simps) (auto simp: heap_read_def list_merge_def)
    have dom: "hp_map h x \<noteq> None" if "x \<in> set ps" for x using nseg_dom [OF less.prems(1) that] by auto
    have r2: "relinked (set ps) (hp_map h) (hp_map h2)"
      using relinked_trans [OF sp(4) m1(4)] by (rule relinked_mono) (use sub in auto)
    have r3: "relinked (set ps) (hp_map h) (hp_map h3)"
      using relinked_trans [OF r2 m2(4)] by (rule relinked_mono) (use sub in auto)
    have r4: "relinked (set ps) (hp_map h) (hp_map h4)"
      using relinked_trans [OF r3 mg(3)] by (rule relinked_mono) (use sub sets in auto)
    have s1: "stable_sort (addr_cmp c (hp_map h)) (take ?k ps) qa"
      using relinked_cmp [OF sp(4) _ sets(3) assms(1)] dom sub m1(3) by blast
    have s2: "stable_sort (addr_cmp c (hp_map h)) (drop ?k ps) qb"
      using relinked_cmp [OF r2 _ sets(4) assms(1)] dom sub m2(3) by blast
    have "merge_by (addr_cmp c (hp_map h3)) qa qb = merge_by (addr_cmp c (hp_map h)) qa qb"
      using dom sub sets by (intro merge_by_cong addr_cmp_relinked [OF r3]) auto
    moreover have "stable_sort (addr_cmp c (hp_map h)) ps (merge_by (addr_cmp c (hp_map h)) qa qb)"
      using comparator.stable_sort_merge [OF cmp s1 s2] by simp
    ultimately show ?thesis using run mg(2) r4 by auto
  qed
qed

subsection \<open>Properties\<close>

text \<open>
  C27: removal by value, by predicate and by position on a list that holds the elements \<open>xs\<close>: the
  first match (the given position) and nothing else goes, the result says whether there was one, and
  the list iterator then yields the remaining elements in order.
\<close>

theorem list_removals:
  assumes ok: "dl_ok (h, d)"
  defines "xs \<equiv> dl_abs (h, d)"
  shows "(\<exists>h' d'. cobalt_list_remove (h, Some d) (Some x) =
        Some (if Some x \<in> set xs then 0 else -1, (h', Some d')) \<and> dl_ok (h', d') \<and>
        dl_abs (h', d') = remove1 (Some x) xs) \<and>
    (\<exists>h' d'. cobalt_list_remove_if (h, Some d) (Some P) =
        Some (if \<exists>y\<in>set xs. P y then 0 else -1, (h', Some d')) \<and> dl_ok (h', d') \<and>
        dl_abs (h', d') = remove_first P xs) \<and>
    (if i < length xs
     then \<exists>h' d'. cobalt_list_remove_at (h, Some d) i = Some (0, (h', Some d')) \<and> dl_ok (h', d') \<and>
       dl_abs (h', d') = take i xs @ drop (Suc i) xs
     else cobalt_list_remove_at (h, Some d) i = Some (-1, (h, Some d))) \<and>
    seq_drain (length xs) (cobalt_list_iterator_create True True (h, Some d)) = Some xs"
proof (intro conjI)
  show "\<exists>h' d'. cobalt_list_remove (h, Some d) (Some x) =
        Some (if Some x \<in> set xs then 0 else -1, (h', Some d')) \<and> dl_ok (h', d') \<and>
        dl_abs (h', d') = remove1 (Some x) xs"
  proof (cases rule: list_find_unlink [OF ok, of "\<lambda>y. y = Some x"])
    case (1 prv a h' d')
    then show ?thesis by (auto simp: cobalt_list_remove_def xs_def remove_first_eq)
  next
    case 2
    then show ?thesis using ok by (auto simp: cobalt_list_remove_def xs_def remove_first_eq)
  qed
  show "\<exists>h' d'. cobalt_list_remove_if (h, Some d) (Some P) =
        Some (if \<exists>y\<in>set xs. P y then 0 else -1, (h', Some d')) \<and> dl_ok (h', d') \<and>
        dl_abs (h', d') = remove_first P xs"
  proof (cases rule: list_find_unlink [OF ok, of P])
    case (1 prv a h' d')
    then show ?thesis by (simp add: cobalt_list_remove_if_def xs_def)
  next
    case 2
    then show ?thesis using ok by (simp add: cobalt_list_remove_if_def xs_def)
  qed
  show "if i < length xs
     then \<exists>h' d'. cobalt_list_remove_at (h, Some d) i = Some (0, (h', Some d')) \<and> dl_ok (h', d') \<and>
       dl_abs (h', d') = take i xs @ drop (Suc i) xs
     else cobalt_list_remove_at (h, Some d) i = Some (-1, (h, Some d))"
    unfolding xs_def by (rule list_remove_at_ok [OF ok])
  from dl_okE [OF ok] obtain h' d' ps where "(h, d) = (h', d')" "dl_repr (h', d') ps"
    "dl_abs (h, d) = dl_data (hp_map h') ps" .
  then have s: "dl_repr (h, d) ps" "xs = dl_data (hp_map h) ps" by (simp_all add: xs_def)
  then show "seq_drain (length xs) (cobalt_list_iterator_create True True (h, Some d)) = Some xs"
    using list_iterator_drain [OF dl_reprD(3) [OF s(1)], of "length xs"]
    by (simp add: cobalt_list_iterator_create_def)
qed

text \<open>Two linked nodes.\<close>

definition two_nodes :: "'a \<Rightarrow> 'a \<Rightarrow> 'a dnode heap" where
  "two_nodes x y = \<lparr>hp_next = 2, hp_map =
     [0 \<mapsto> \<lparr>nd_data = Some x, nd_next = Some 1, nd_prev = None\<rparr>,
      1 \<mapsto> \<lparr>nd_data = Some y, nd_next = None, nd_prev = Some 0\<rparr>]\<rparr>"

definition two_list :: dlist where
  "two_list = \<lparr>dl_head = Some 0, dl_tail = Some 1, dl_size = 2\<rparr>"

lemma two_repr: "dl_repr (two_nodes x y, two_list) [0, 1]"
  by (auto simp: dl_repr_def heap_ok_def two_nodes_def two_list_def)

lemma two_abs: "dl_abs (two_nodes x y, two_list) = [Some x, Some y]"
  using dl_repr_abs [OF two_repr] by (simp add: two_nodes_def)

theorem list_removals_witness:
  "\<exists>h' d'. cobalt_list_remove (two_nodes (1::nat) 2, Some two_list) (Some 1) = Some (0, (h', Some d')) \<and>
    dl_abs (h', d') = [Some 2]"
proof -
  have "dl_ok (two_nodes (1::nat) 2, two_list)" by (simp add: dl_okI [OF two_repr])
  from list_removals [OF this, of 1 "\<lambda>_. False" 0] show ?thesis by (auto simp: two_abs)
qed

text \<open>
  C6: \<open>cobalt_list_merge_sort\<close> of the nodes of a list, under any comparator, ends without a fault; the
  chain it returns holds the elements in the order of the reference stable sort, and the sort
  changes nothing but \<open>next\<close> pointers of these nodes.
\<close>

theorem list_merge_sort_stable:
  assumes "comparator c" "dl_repr (h, d) ps"
  shows "\<exists>p' h' qs. cobalt_list_merge_sort (Some (dl_head d)) (Some c) h = Some (Some p', h') \<and>
    nseg (hp_map h') p' qs \<and> dl_data (hp_map h') qs = ref_sort c (dl_data (hp_map h) ps) \<and>
    relinked (set ps) (hp_map h) (hp_map h')"
proof -
  note D = dl_reprD [OF assms(2)]
  obtain p' h' qs where r: "list_mergesort (dl_head d) c h = Some (p', h')" "nseg (hp_map h') p' qs"
    "stable_sort (addr_cmp c (hp_map h)) ps qs" "relinked (set ps) (hp_map h) (hp_map h')"
    using mergesort_ok [OF assms(1) dseg_nseg [OF D(3)] D(2)] by blast
  have sq: "set qs = set ps" using r(3) mset_eq_setD by (auto simp: stable_sort_def)
  have "nd_data (the (hp_map h' x)) = nd_data (the (hp_map h x))" if "x \<in> set qs" for x
    using nd_data_the [of "hp_map h" x "hp_map h'"] relinked_data [OF r(4), of x] dseg_dom [OF D(3)] that sq by auto
  then have "dl_data (hp_map h') qs = dl_data (hp_map h) qs" by (simp add: dl_data_def)
  also have "\<dots> = ref_sort c (dl_data (hp_map h) ps)"
    using stable_sort_map [OF r(3) assms(1)] comparator.stable_sort_is_ref [OF assms(1)] by (simp add: dl_data_def)
  finally show ?thesis using r by (auto simp: cobalt_list_merge_sort_def)
qed

definition ptr_cmp :: "nat option \<Rightarrow> nat option \<Rightarrow> int" where
  "ptr_cmp a b = int (case a of None \<Rightarrow> 0 | Some x \<Rightarrow> Suc x) - int (case b of None \<Rightarrow> 0 | Some x \<Rightarrow> Suc x)"

lemma ptr_cmp_comparator: "comparator ptr_cmp"
  by unfold_locales (auto simp: ptr_cmp_def)

theorem list_merge_sort_stable_witness:
  "\<exists>p' h' qs. cobalt_list_merge_sort (Some (dl_head two_list)) (Some ptr_cmp) (two_nodes 2 1) = Some (Some p', h') \<and>
    nseg (hp_map h') p' qs \<and> dl_data (hp_map h') qs = [Some 1, Some 2]"
proof -
  have "ref_sort ptr_cmp (dl_data (hp_map (two_nodes 2 1)) [0, 1]) = [Some 1, Some 2]"
    by (simp add: two_nodes_def ref_sort_def ptr_cmp_def)
  with list_merge_sort_stable [OF ptr_cmp_comparator two_repr, of 2 1] show ?thesis by auto
qed

text \<open>
  the sort leaves the \<open>prev\<close> pointers as they were. Putting the sorted chain back with
  \<open>cobalt_list_set_head\<close>, as its header comment says, and popping the last element empties the list
  header although one element is still counted.
\<close>

theorem list_sort_stale_prev:
  "\<exists>p' h' x e h'' d''. cobalt_list_merge_sort (Some (dl_head two_list)) (Some ptr_cmp) (two_nodes 2 1) =
      Some (Some p', h') \<and> p' = Some 1 \<and>
    cobalt_list_pop_back (h', cobalt_list_set_head (Some two_list) p' (Some 0)) = Some (x, e, (h'', Some d'')) \<and>
    x = Some 2 \<and> dl_head d'' = None \<and> dl_size d'' = 1"
proof -
  let ?h' = "(two_nodes 2 1)\<lparr>hp_map :=
     [0 \<mapsto> \<lparr>nd_data = Some 2, nd_next = None, nd_prev = None\<rparr>,
      1 \<mapsto> \<lparr>nd_data = Some 1, nd_next = Some 0, nd_prev = Some 0\<rparr>]\<rparr>"
  have "cobalt_list_merge_sort (Some (dl_head two_list)) (Some ptr_cmp) (two_nodes 2 1) = Some (Some (Some 1), ?h')"
    unfolding cobalt_list_merge_sort_def two_list_def two_nodes_def
    apply simp
    apply (subst list_mergesort.simps)
    apply (simp add: heap_read_def list_split_def)
    apply (subst list_split_loop.simps)
    apply (simp add: heap_read_def heap_upd_def)
    apply (subst list_mergesort.simps)
    apply (simp add: heap_read_def)
    apply (subst list_mergesort.simps)
    apply (simp add: heap_read_def list_merge_def)
    apply (subst list_merge_loop.simps)
    apply (simp add: heap_read_def heap_upd_def ptr_cmp_def list_set_next_def)
    apply (subst list_merge_loop.simps)
    apply (simp add: heap_read_def heap_upd_def list_set_next_def)
    done
  then show ?thesis
    by (simp add: two_list_def cobalt_list_set_head_def cobalt_list_pop_back_def dl_pop_back_def heap_read_def
        heap_free_def szt_dec_def)
qed

end
