(* ===== verification/Cobalt_Stack_Queue.thy ===== *)
theory Cobalt_Stack_Queue
  imports Cobalt_Heap
begin

section \<open>Stack and queue\<close>

text \<open>
  \<open>src/container/stack.c\<close> and \<open>src/container/queue.c\<close>: singly linked nodes in an explicit heap. A
  NULL header is \<open>None\<close>; a NULL or dangling dereference is the result \<open>None\<close>.
\<close>

record 'a snode =
  sn_data :: "'a option"
  sn_next :: "nat option"

record cobalt_stack =
  stk_top :: "nat option"
  stk_size :: nat

record cobalt_queue =
  q_head :: "nat option"
  q_tail :: "nat option"
  q_size :: nat

type_synonym 'a sheap = "'a snode heap"

partial_function (option) snode_free_all :: "'a sheap \<Rightarrow> nat option \<Rightarrow> 'a sheap option" where
  "snode_free_all h node =
     (case node of
        None \<Rightarrow> Some h
      | Some a \<Rightarrow> heap_read h a \<bind> (\<lambda>n. heap_free a h \<bind> (\<lambda>h. snode_free_all h (sn_next n))))"

declare snode_free_all.simps [code]

subsection \<open>Stack\<close>

definition cobalt_stack_create_with_allocator :: "bool \<Rightarrow> bool \<Rightarrow> cobalt_stack option" where
  "cobalt_stack_create_with_allocator alloc_stack alloc_null =
     (if alloc_null then None else if \<not> alloc_stack then None else Some \<lparr>stk_top = None, stk_size = 0\<rparr>)"

definition cobalt_stack_create :: "bool \<Rightarrow> cobalt_stack option" where
  "cobalt_stack_create alloc_stack = cobalt_stack_create_with_allocator alloc_stack False"

definition cobalt_stack_destroy :: "'a sheap \<times> cobalt_stack option \<Rightarrow> 'a sheap option" where
  "cobalt_stack_destroy s = (case s of (h, None) \<Rightarrow> Some h | (h, Some st) \<Rightarrow> snode_free_all h (stk_top st))"

definition cobalt_stack_push ::
    "bool \<Rightarrow> 'a sheap \<times> cobalt_stack option \<Rightarrow> 'a option \<Rightarrow>
     int \<times> cobalt_error option \<times> 'a sheap \<times> cobalt_stack option" where
  "cobalt_stack_push alloc s item =
     (case s of
        (h, None) \<Rightarrow> (-1, None, s)
      | (h, Some st) \<Rightarrow>
          (case heap_new alloc \<lparr>sn_data = item, sn_next = stk_top st\<rparr> h of
             None \<Rightarrow> (-1, Some COBALT_ERROR_OUT_OF_MEMORY, s)
           | Some (node, h) \<Rightarrow>
               (0, None, (h, Some (st\<lparr>stk_top := Some node, stk_size := szt (stk_size st + 1)\<rparr>)))))"

definition cobalt_stack_pop ::
    "'a sheap \<times> cobalt_stack option \<Rightarrow>
     ('a option \<times> cobalt_error option \<times> 'a sheap \<times> cobalt_stack option) option" where
  "cobalt_stack_pop s =
     (case s of
        (h, None) \<Rightarrow> Some (None, Some COBALT_ERROR_EMPTY_CONTAINER, s)
      | (h, Some st) \<Rightarrow>
          (case stk_top st of
             None \<Rightarrow> Some (None, Some COBALT_ERROR_EMPTY_CONTAINER, s)
           | Some node \<Rightarrow>
               heap_read h node \<bind>
               (\<lambda>n. heap_free node h \<bind>
                 (\<lambda>h. Some (sn_data n, None,
                    (h, Some (st\<lparr>stk_top := sn_next n, stk_size := szt_dec (stk_size st)\<rparr>)))))))"

definition cobalt_stack_peek ::
    "'a sheap \<times> cobalt_stack option \<Rightarrow> ('a option \<times> cobalt_error option) option" where
  "cobalt_stack_peek s =
     (case s of
        (h, None) \<Rightarrow> Some (None, Some COBALT_ERROR_EMPTY_CONTAINER)
      | (h, Some st) \<Rightarrow>
          (case stk_top st of
             None \<Rightarrow> Some (None, Some COBALT_ERROR_EMPTY_CONTAINER)
           | Some node \<Rightarrow> heap_read h node \<bind> (\<lambda>n. Some (sn_data n, None))))"

definition cobalt_stack_size :: "cobalt_stack option \<Rightarrow> nat" where
  "cobalt_stack_size st = (case st of None \<Rightarrow> 0 | Some s \<Rightarrow> stk_size s)"

definition cobalt_stack_is_empty :: "cobalt_stack option \<Rightarrow> bool" where
  "cobalt_stack_is_empty st \<longleftrightarrow> (case st of None \<Rightarrow> False | Some s \<Rightarrow> stk_size s = 0)"

subsection \<open>Queue\<close>

definition cobalt_queue_create_with_allocator :: "bool \<Rightarrow> bool \<Rightarrow> cobalt_queue option" where
  "cobalt_queue_create_with_allocator alloc_queue alloc_null =
     (if alloc_null then None else if \<not> alloc_queue then None
      else Some \<lparr>q_head = None, q_tail = None, q_size = 0\<rparr>)"

definition cobalt_queue_create :: "bool \<Rightarrow> cobalt_queue option" where
  "cobalt_queue_create alloc_queue = cobalt_queue_create_with_allocator alloc_queue False"

definition cobalt_queue_destroy :: "'a sheap \<times> cobalt_queue option \<Rightarrow> 'a sheap option" where
  "cobalt_queue_destroy s = (case s of (h, None) \<Rightarrow> Some h | (h, Some q) \<Rightarrow> snode_free_all h (q_head q))"

definition cobalt_queue_enqueue ::
    "bool \<Rightarrow> 'a sheap \<times> cobalt_queue option \<Rightarrow> 'a option \<Rightarrow>
     (int \<times> cobalt_error option \<times> 'a sheap \<times> cobalt_queue option) option" where
  "cobalt_queue_enqueue alloc s item =
     (case s of
        (h, None) \<Rightarrow> Some (-1, None, s)
      | (h, Some q) \<Rightarrow>
          (case heap_new alloc \<lparr>sn_data = item, sn_next = None\<rparr> h of
             None \<Rightarrow> Some (-1, Some COBALT_ERROR_OUT_OF_MEMORY, s)
           | Some (node, h) \<Rightarrow>
               (case q_tail q of
                  None \<Rightarrow> Some (h, q\<lparr>q_head := Some node, q_tail := Some node\<rparr>)
                | Some t \<Rightarrow>
                    heap_upd t (\<lambda>n. n\<lparr>sn_next := Some node\<rparr>) h \<bind> (\<lambda>h. Some (h, q\<lparr>q_tail := Some node\<rparr>))) \<bind>
               (\<lambda>(h, q). Some (0, None, (h, Some (q\<lparr>q_size := szt (q_size q + 1)\<rparr>))))))"

definition cobalt_queue_dequeue ::
    "'a sheap \<times> cobalt_queue option \<Rightarrow>
     ('a option \<times> cobalt_error option \<times> 'a sheap \<times> cobalt_queue option) option" where
  "cobalt_queue_dequeue s =
     (case s of
        (h, None) \<Rightarrow> Some (None, Some COBALT_ERROR_EMPTY_CONTAINER, s)
      | (h, Some q) \<Rightarrow>
          (case q_head q of
             None \<Rightarrow> Some (None, Some COBALT_ERROR_EMPTY_CONTAINER, s)
           | Some node \<Rightarrow>
               heap_read h node \<bind>
               (\<lambda>n. let q = q\<lparr>q_head := sn_next n\<rparr>;
                        q = (if q_head q = None then q\<lparr>q_tail := None\<rparr> else q) in
                    heap_free node h \<bind>
                    (\<lambda>h. Some (sn_data n, None, (h, Some (q\<lparr>q_size := szt_dec (q_size q)\<rparr>)))))))"

definition cobalt_queue_peek ::
    "'a sheap \<times> cobalt_queue option \<Rightarrow> ('a option \<times> cobalt_error option) option" where
  "cobalt_queue_peek s =
     (case s of
        (h, None) \<Rightarrow> Some (None, Some COBALT_ERROR_EMPTY_CONTAINER)
      | (h, Some q) \<Rightarrow>
          (case q_head q of
             None \<Rightarrow> Some (None, Some COBALT_ERROR_EMPTY_CONTAINER)
           | Some node \<Rightarrow> heap_read h node \<bind> (\<lambda>n. Some (sn_data n, None))))"

definition cobalt_queue_size :: "cobalt_queue option \<Rightarrow> nat" where
  "cobalt_queue_size q = (case q of None \<Rightarrow> 0 | Some s \<Rightarrow> q_size s)"

definition cobalt_queue_is_empty :: "cobalt_queue option \<Rightarrow> bool" where
  "cobalt_queue_is_empty q \<longleftrightarrow> (case q of None \<Rightarrow> False | Some s \<Rightarrow> q_size s = 0)"

subsection \<open>Chains\<close>

fun sseg :: "(nat \<rightharpoonup> 'a snode) \<Rightarrow> nat option \<Rightarrow> nat list \<Rightarrow> nat option \<Rightarrow> bool" where
  "sseg m p [] q \<longleftrightarrow> p = q"
| "sseg m p (a # as) q \<longleftrightarrow> p = Some a \<and> (\<exists>n. m a = Some n \<and> sseg m (sn_next n) as q)"

definition sn_list :: "(nat \<rightharpoonup> 'a snode) \<Rightarrow> nat list \<Rightarrow> 'a option list" where
  "sn_list m ps = map (\<lambda>a. sn_data (the (m a))) ps"

lemma sn_list_simps [simp]:
  "sn_list m [] = []" "sn_list m (a # as) = sn_data (the (m a)) # sn_list m as"
  "sn_list m (as @ bs) = sn_list m as @ sn_list m bs" "length (sn_list m as) = length as"
  by (simp_all add: sn_list_def)

lemma sn_list_Cons:
  "sn_list m ps = x # q \<longleftrightarrow> (\<exists>a as. ps = a # as \<and> sn_data (the (m a)) = x \<and> sn_list m as = q)"
  by (cases ps) (auto simp: sn_list_def)

lemma sseg_append: "sseg m p (as @ bs) q \<longleftrightarrow> (\<exists>r. sseg m p as r \<and> sseg m r bs q)"
  by (induction as arbitrary: p) auto

lemma sseg_upd [simp]: "a \<notin> set as \<Longrightarrow> sseg (m(a := v)) p as q \<longleftrightarrow> sseg m p as q"
  by (induction as arbitrary: p) auto

lemma sn_list_upd [simp]: "a \<notin> set as \<Longrightarrow> sn_list (m(a := v)) as = sn_list m as"
  by (auto simp: sn_list_def)

lemma snode_free_all_ok:
  "sseg (hp_map h) p as None \<Longrightarrow> distinct as \<Longrightarrow>
   snode_free_all h p = Some (h\<lparr>hp_map := (hp_map h) |` (- set as)\<rparr>)"
proof (induction as arbitrary: h p)
  case Nil
  have "(hp_map h) |` UNIV = hp_map h" by (simp add: restrict_map_def)
  with Nil show ?case by (subst snode_free_all.simps) simp
next
  case (Cons a as)
  then obtain n where n: "p = Some a" "hp_map h a = Some n" "sseg (hp_map h) (sn_next n) as None" by auto
  let ?h = "h\<lparr>hp_map := (hp_map h)(a := None)\<rparr>"
  have "sseg (hp_map ?h) (sn_next n) as None" using n Cons.prems(2) by simp
  from Cons.IH [OF this] Cons.prems(2)
  have ih: "snode_free_all ?h (sn_next n) = Some (?h\<lparr>hp_map := (hp_map ?h) |` (- set as)\<rparr>)"
    by (simp only: distinct.simps simp_thms)
  have eq: "(hp_map ?h) |` (- set as) = (hp_map h) |` (- set (a # as))"
    by (auto simp: restrict_map_def fun_eq_iff)
  have "snode_free_all h p = snode_free_all ?h (sn_next n)"
    using n by (subst snode_free_all.simps) (simp add: heap_read_def heap_free_def)
  also have "\<dots> = Some (?h\<lparr>hp_map := (hp_map h) |` (- set (a # as))\<rparr>)" unfolding ih eq ..
  finally show ?case by simp
qed

definition stack_repr :: "'a sheap \<Rightarrow> cobalt_stack \<Rightarrow> nat list \<Rightarrow> bool" where
  "stack_repr h st ps \<longleftrightarrow> heap_ok h \<and> distinct ps \<and> sseg (hp_map h) (stk_top st) ps None \<and>
     stk_size st = length ps \<and> dom (hp_map h) = set ps"

definition queue_repr :: "'a sheap \<Rightarrow> cobalt_queue \<Rightarrow> nat list \<Rightarrow> bool" where
  "queue_repr h q ps \<longleftrightarrow> heap_ok h \<and> distinct ps \<and> sseg (hp_map h) (q_head q) ps None \<and>
     q_tail q = (if ps = [] then None else Some (last ps)) \<and> q_size q = length ps \<and> dom (hp_map h) = set ps"

lemma fresh_dom: "heap_ok h \<Longrightarrow> dom (hp_map h) = set ps \<Longrightarrow> hp_next h \<notin> set ps"
  by (metis domIff heap_ok_fresh)

lemma sseg_fresh_append:
  assumes "sseg m p (as @ [t]) None" "distinct (as @ [t])" "a \<notin> set (as @ [t])" "m t = Some n"
  shows "sseg (m(a \<mapsto> \<lparr>sn_data = x, sn_next = None\<rparr>, t \<mapsto> n\<lparr>sn_next := Some a\<rparr>)) p (as @ [t, a]) None"
proof -
  have "t \<notin> set as" "a \<notin> set as" "t \<noteq> a" "sseg m p as (Some t)" using assms by (auto simp: sseg_append)
  then show ?thesis by (auto simp: sseg_append)
qed

lemma snode_drain:
  assumes "sseg (hp_map h) p ps None" "distinct ps" "dom (hp_map h) = set ps"
  shows "\<exists>h'. snode_free_all h p = Some h' \<and> dom (hp_map h') = {}"
proof -
  have "(hp_map h) |` (- set ps) = (\<lambda>_. None)"
    using assms(3) by (auto simp: restrict_map_def fun_eq_iff dom_def)
  then show ?thesis using snode_free_all_ok [OF assms(1,2)] by simp
qed

lemma stack_push_ok:
  assumes r: "stack_repr h st ps" and n: "length ps < SIZE_MAX"
  shows "\<exists>h' st'. cobalt_stack_push True (h, Some st) x = (0, None, (h', Some st')) \<and>
    stack_repr h' st' (hp_next h # ps) \<and> sn_list (hp_map h') (hp_next h # ps) = x # sn_list (hp_map h) ps"
proof -
  have "hp_next h \<notin> set ps" using r fresh_dom by (auto simp: stack_repr_def)
  then show ?thesis using r n
    by (auto simp: cobalt_stack_push_def heap_new_def stack_repr_def heap_ok_def)
qed

lemma stack_pop_empty:
  "stack_repr h st [] \<Longrightarrow>
   cobalt_stack_pop (h, Some st) = Some (None, Some COBALT_ERROR_EMPTY_CONTAINER, (h, Some st))"
  by (simp add: stack_repr_def cobalt_stack_pop_def)

lemma stack_pop_ok:
  assumes r: "stack_repr h st (a # as)"
  shows "\<exists>h' st'. cobalt_stack_pop (h, Some st) = Some (sn_data (the (hp_map h a)), None, (h', Some st')) \<and>
    stack_repr h' st' as \<and> sn_list (hp_map h') as = sn_list (hp_map h) as"
proof -
  obtain n where n: "stk_top st = Some a" "hp_map h a = Some n" "sseg (hp_map h) (sn_next n) as None"
    using r by (auto simp: stack_repr_def)
  have a: "a \<notin> set as" using r by (auto simp: stack_repr_def)
  let ?h = "h\<lparr>hp_map := (hp_map h)(a := None)\<rparr>"
  have "stack_repr ?h (st\<lparr>stk_top := sn_next n, stk_size := length as\<rparr>) as"
    using r n a by (auto simp: stack_repr_def heap_ok_def)
  then show ?thesis using n r a
    by (auto simp: cobalt_stack_pop_def heap_read_def heap_free_def stack_repr_def)
qed

lemma queue_enqueue_ok:
  assumes r: "queue_repr h q ps" and n: "length ps < SIZE_MAX"
  shows "\<exists>h' q'. cobalt_queue_enqueue True (h, Some q) x = Some (0, None, (h', Some q')) \<and>
    queue_repr h' q' (ps @ [hp_next h]) \<and> sn_list (hp_map h') (ps @ [hp_next h]) = sn_list (hp_map h) ps @ [x]"
proof (cases ps rule: rev_cases)
  case Nil
  with r show ?thesis
    by (auto simp: cobalt_queue_enqueue_def heap_new_def queue_repr_def heap_ok_def)
next
  case (snoc as t)
  let ?a = "hp_next h"
  have fr: "?a \<notin> set ps" using r fresh_dom by (auto simp: queue_repr_def)
  obtain nt where nt: "hp_map h t = Some nt" using r snoc by (auto simp: queue_repr_def dom_def)
  let ?m = "(hp_map h)(?a \<mapsto> \<lparr>sn_data = x, sn_next = None\<rparr>, t \<mapsto> nt\<lparr>sn_next := Some ?a\<rparr>)"
  have t: "t \<notin> set as" "t \<noteq> ?a" "q_tail q = Some t" using r snoc fr by (auto simp: queue_repr_def)
  have seg: "sseg ?m (q_head q) (ps @ [?a]) None"
    using sseg_fresh_append [of "hp_map h" "q_head q" as t ?a nt x] r snoc fr nt
    by (simp add: queue_repr_def)
  have data: "sn_list ?m (ps @ [?a]) = sn_list (hp_map h) ps @ [x]"
    using snoc t fr nt by simp
  have "queue_repr \<lparr>hp_next = Suc ?a, hp_map = ?m\<rparr> (q\<lparr>q_tail := Some ?a, q_size := Suc (length ps)\<rparr>) (ps @ [?a])"
    using r seg fr snoc heap_bound [OF _ nt] by (auto simp: queue_repr_def heap_ok_def)
  then show ?thesis using r t nt n data
    by (auto simp: cobalt_queue_enqueue_def heap_new_def heap_upd_def queue_repr_def)
qed

lemma queue_dequeue_empty:
  "queue_repr h q [] \<Longrightarrow>
   cobalt_queue_dequeue (h, Some q) = Some (None, Some COBALT_ERROR_EMPTY_CONTAINER, (h, Some q))"
  by (simp add: queue_repr_def cobalt_queue_dequeue_def)

lemma queue_dequeue_ok:
  assumes r: "queue_repr h q (a # as)"
  shows "\<exists>h' q'. cobalt_queue_dequeue (h, Some q) = Some (sn_data (the (hp_map h a)), None, (h', Some q')) \<and>
    queue_repr h' q' as \<and> sn_list (hp_map h') as = sn_list (hp_map h) as"
proof -
  obtain n where n: "q_head q = Some a" "hp_map h a = Some n" "sseg (hp_map h) (sn_next n) as None"
    using r by (auto simp: queue_repr_def)
  have a: "a \<notin> set as" using r by (auto simp: queue_repr_def)
  have nx: "sn_next n = None \<longleftrightarrow> as = []" using n(3) by (cases as) auto
  let ?h = "h\<lparr>hp_map := (hp_map h)(a := None)\<rparr>"
  have "queue_repr ?h \<lparr>q_head = sn_next n, q_tail = (if as = [] then None else q_tail q), q_size = length as\<rparr> as"
    using r n a nx by (auto simp: queue_repr_def heap_ok_def)
  then show ?thesis using n r a nx
    by (auto simp: cobalt_queue_dequeue_def heap_read_def heap_free_def queue_repr_def Let_def)
qed

subsection \<open>Containers with one way in and one way out\<close>

text \<open>
  The contract a stack and a queue share: \<open>put\<close> adds an element where \<open>ins\<close> says, \<open>tk\<close> removes the
  first one and returns it, or returns NULL on an empty container, and \<open>dest\<close> releases every node. The
  effect of a program of puts (\<open>Some x\<close>) and takes (\<open>None\<close>) is derived once from it.
\<close>

fun run_ops :: "('s \<Rightarrow> 'a option \<Rightarrow> 's option) \<Rightarrow> ('s \<Rightarrow> ('a option \<times> 's) option) \<Rightarrow>
    'a option option list \<Rightarrow> 's \<Rightarrow> ('a option list \<times> 's) option" where
  "run_ops put tk [] s = Some ([], s)"
| "run_ops put tk (Some x # cs) s = put s x \<bind> run_ops put tk cs"
| "run_ops put tk (None # cs) s =
     tk s \<bind> (\<lambda>(x, s). run_ops put tk cs s \<bind> (\<lambda>(xs, s). Some (x # xs, s)))"

fun spec_ops :: "('a option \<Rightarrow> 'a option list \<Rightarrow> 'a option list) \<Rightarrow> 'a option option list \<Rightarrow> 'a option list \<Rightarrow>
    'a option list \<times> 'a option list" where
  "spec_ops ins [] q = ([], q)"
| "spec_ops ins (Some x # cs) q = spec_ops ins cs (ins x q)"
| "spec_ops ins (None # cs) q =
     (let (ys, q') = spec_ops ins cs (tl q) in ((if q = [] then None else hd q) # ys, q'))"

locale one_way_container =
  fixes put :: "'s \<Rightarrow> 'a option \<Rightarrow> 's option"
    and tk :: "'s \<Rightarrow> ('a option \<times> 's) option"
    and dest :: "'s \<Rightarrow> 'a sheap option"
    and sz :: "'s \<Rightarrow> nat"
    and ins :: "'a option \<Rightarrow> 'a option list \<Rightarrow> 'a option list"
    and holds :: "'s \<Rightarrow> 'a option list \<Rightarrow> bool"
  assumes put_holds: "holds s q \<Longrightarrow> length q < SIZE_MAX \<Longrightarrow> \<exists>s'. put s x = Some s' \<and> holds s' (ins x q)"
    and take_empty: "holds s [] \<Longrightarrow> tk s = Some (None, s)"
    and take_holds: "holds s (x # q) \<Longrightarrow> \<exists>s'. tk s = Some (x, s') \<and> holds s' q"
    and drop_holds: "holds s q \<Longrightarrow> \<exists>h. dest s = Some h \<and> dom (hp_map h) = {}"
    and size_holds: "holds s q \<Longrightarrow> sz s = length q"
    and ins_length: "length (ins x q) = Suc (length q)"
begin

lemma run_ops_ok:
  "holds s q \<Longrightarrow> length q + length cs \<le> SIZE_MAX \<Longrightarrow>
   \<exists>s'. run_ops put tk cs s = Some (fst (spec_ops ins cs q), s') \<and> holds s' (snd (spec_ops ins cs q))"
proof (induction cs arbitrary: s q)
  case Nil
  then show ?case by simp
next
  case (Cons c cs)
  show ?case
  proof (cases c)
    case None
    have "\<exists>s'. tk s = Some (if q = [] then None else hd q, s') \<and> holds s' (tl q)"
      using take_empty [of s] take_holds [of s "hd q" "tl q"] Cons.prems(1) by (cases q) auto
    then obtain s' where s': "tk s = Some (if q = [] then None else hd q, s')" "holds s' (tl q)" by blast
    have "length (tl q) + length cs \<le> SIZE_MAX" using Cons.prems(2) by simp
    from Cons.IH [OF s'(2) this] s'(1) None show ?thesis by (auto simp: split_def Let_def)
  next
    case (Some x)
    obtain s' where s': "put s x = Some s'" "holds s' (ins x q)"
      using put_holds [OF Cons.prems(1), of x] Cons.prems(2) by auto
    have "length (ins x q) + length cs \<le> SIZE_MAX" using Cons.prems(2) ins_length by simp
    from Cons.IH [OF s'(2) this] s'(1) Some show ?thesis by simp
  qed
qed

lemma program_ok:
  assumes "holds s []" "length cs \<le> SIZE_MAX"
  shows "\<exists>s' h. run_ops put tk cs s = Some (fst (spec_ops ins cs []), s') \<and>
    sz s' = length (snd (spec_ops ins cs [])) \<and> dest s' = Some h \<and> dom (hp_map h) = {}"
  using run_ops_ok [OF assms(1), of cs] drop_holds size_holds assms(2) by fastforce

end

definition stack_put :: "'a sheap \<times> cobalt_stack option \<Rightarrow> 'a option \<Rightarrow> ('a sheap \<times> cobalt_stack option) option" where
  "stack_put s x = (case cobalt_stack_push True s x of (r, e, s') \<Rightarrow> Some s')"

definition stack_take ::
    "'a sheap \<times> cobalt_stack option \<Rightarrow> ('a option \<times> 'a sheap \<times> cobalt_stack option) option" where
  "stack_take s = cobalt_stack_pop s \<bind> (\<lambda>(x, e, s'). Some (x, s'))"

definition stack_holds :: "'a sheap \<times> cobalt_stack option \<Rightarrow> 'a option list \<Rightarrow> bool" where
  "stack_holds s q \<longleftrightarrow> (\<exists>h st ps. s = (h, Some st) \<and> stack_repr h st ps \<and> sn_list (hp_map h) ps = q)"

definition queue_put :: "'a sheap \<times> cobalt_queue option \<Rightarrow> 'a option \<Rightarrow> ('a sheap \<times> cobalt_queue option) option" where
  "queue_put s x = cobalt_queue_enqueue True s x \<bind> (\<lambda>(r, e, s'). Some s')"

definition queue_take ::
    "'a sheap \<times> cobalt_queue option \<Rightarrow> ('a option \<times> 'a sheap \<times> cobalt_queue option) option" where
  "queue_take s = cobalt_queue_dequeue s \<bind> (\<lambda>(x, e, s'). Some (x, s'))"

definition queue_holds :: "'a sheap \<times> cobalt_queue option \<Rightarrow> 'a option list \<Rightarrow> bool" where
  "queue_holds s q \<longleftrightarrow> (\<exists>h st ps. s = (h, Some st) \<and> queue_repr h st ps \<and> sn_list (hp_map h) ps = q)"

interpretation stack: one_way_container stack_put stack_take cobalt_stack_destroy
    "\<lambda>s. cobalt_stack_size (snd s)" Cons stack_holds
proof
  fix s :: "'a sheap \<times> cobalt_stack option" and x q
  show "\<exists>s'. stack_put s x = Some s' \<and> stack_holds s' (x # q)" if "stack_holds s q" "length q < SIZE_MAX"
    using that stack_push_ok [of _ _ _ x] by (fastforce simp: stack_holds_def stack_put_def)
  show "stack_take s = Some (None, s)" if "stack_holds s []"
    using that stack_pop_empty by (fastforce simp: stack_holds_def stack_take_def sn_list_def)
  show "\<exists>s'. stack_take s = Some (x, s') \<and> stack_holds s' q" if "stack_holds s (x # q)"
  proof -
    from that obtain h st a as where s: "s = (h, Some st)" "stack_repr h st (a # as)" "sn_data (the (hp_map h a)) = x"
      "sn_list (hp_map h) as = q" by (auto simp: stack_holds_def sn_list_Cons)
    from stack_pop_ok [OF s(2)] s show ?thesis by (fastforce simp: stack_take_def stack_holds_def)
  qed
  show "\<exists>h. cobalt_stack_destroy s = Some h \<and> dom (hp_map h) = {}" if "stack_holds s q"
    using that snode_drain by (fastforce simp: stack_holds_def stack_repr_def cobalt_stack_destroy_def)
  show "cobalt_stack_size (snd s) = length q" if "stack_holds s q"
    using that by (auto simp: stack_holds_def stack_repr_def cobalt_stack_size_def)
qed simp

interpretation queue: one_way_container queue_put queue_take cobalt_queue_destroy
    "\<lambda>s. cobalt_queue_size (snd s)" "\<lambda>x q. q @ [x]" queue_holds
proof
  fix s :: "'a sheap \<times> cobalt_queue option" and x q
  show "\<exists>s'. queue_put s x = Some s' \<and> queue_holds s' (q @ [x])" if "queue_holds s q" "length q < SIZE_MAX"
    using that queue_enqueue_ok [of _ _ _ x] by (fastforce simp: queue_holds_def queue_put_def)
  show "queue_take s = Some (None, s)" if "queue_holds s []"
    using that queue_dequeue_empty by (fastforce simp: queue_holds_def queue_take_def sn_list_def)
  show "\<exists>s'. queue_take s = Some (x, s') \<and> queue_holds s' q" if "queue_holds s (x # q)"
  proof -
    from that obtain h st a as where s: "s = (h, Some st)" "queue_repr h st (a # as)" "sn_data (the (hp_map h a)) = x"
      "sn_list (hp_map h) as = q" by (auto simp: queue_holds_def sn_list_Cons)
    from queue_dequeue_ok [OF s(2)] s show ?thesis by (fastforce simp: queue_take_def queue_holds_def)
  qed
  show "\<exists>h. cobalt_queue_destroy s = Some h \<and> dom (hp_map h) = {}" if "queue_holds s q"
    using that snode_drain by (fastforce simp: queue_holds_def queue_repr_def cobalt_queue_destroy_def)
  show "cobalt_queue_size (snd s) = length q" if "queue_holds s q"
    using that by (auto simp: queue_holds_def queue_repr_def cobalt_queue_size_def)
qed simp

text \<open>
  C18: every program of pushes and pops on a new stack, and of enqueues and dequeues on a new queue,
  runs without a NULL or dangling dereference and returns what a list used last-in first-out
  (first-in first-out) returns; destroying the container afterwards releases every node exactly once.
\<close>

theorem stack_queue_programs_refine:
  fixes cs :: "'a option option list"
  assumes "length cs \<le> SIZE_MAX"
  shows "(\<exists>st s' h. cobalt_stack_create True = Some st \<and>
      run_ops stack_put stack_take cs (heap_empty, Some st) = Some (fst (spec_ops Cons cs []), s') \<and>
      cobalt_stack_size (snd s') = length (snd (spec_ops Cons cs [])) \<and>
      cobalt_stack_destroy s' = Some h \<and> dom (hp_map h) = {}) \<and>
    (\<exists>qu s' h. cobalt_queue_create True = Some qu \<and>
      run_ops queue_put queue_take cs (heap_empty, Some qu) = Some (fst (spec_ops (\<lambda>x q. q @ [x]) cs []), s') \<and>
      cobalt_queue_size (snd s') = length (snd (spec_ops (\<lambda>x q. q @ [x]) cs [])) \<and>
      cobalt_queue_destroy s' = Some h \<and> dom (hp_map h) = {})"
proof -
  have "stack_holds (heap_empty :: 'a sheap, Some \<lparr>stk_top = None, stk_size = 0\<rparr>) []"
    by (auto simp: stack_holds_def stack_repr_def heap_empty_def heap_ok_def sn_list_def)
  moreover have "queue_holds (heap_empty :: 'a sheap, Some \<lparr>q_head = None, q_tail = None, q_size = 0\<rparr>) []"
    by (auto simp: queue_holds_def queue_repr_def heap_empty_def heap_ok_def sn_list_def)
  ultimately show ?thesis
    using stack.program_ok [OF _ assms] queue.program_ok [OF _ assms]
    by (simp add: cobalt_stack_create_def cobalt_stack_create_with_allocator_def
        cobalt_queue_create_def cobalt_queue_create_with_allocator_def)
qed

theorem stack_queue_programs_refine_witness:
  "\<exists>qu s'. cobalt_queue_create True = Some qu \<and>
    run_ops queue_put queue_take [Some (Some (1::nat)), Some (Some 2), None, None, None] (heap_empty, Some qu) =
      Some ([Some 1, Some 2, None], s')"
  using stack_queue_programs_refine [of "[Some (Some (1::nat)), Some (Some 2), None, None, None]"]
  by (simp del: run_ops.simps) blast

end
