(* ===== verification/Cobalt_Array.thy ===== *)
theory Cobalt_Array
  imports Cobalt_Order
begin

section \<open>Arrays\<close>

text \<open>
  An array of elements behind a \<open>void *\<close> and an element size is the list of its elements; the address
  \<open>base + i * size\<close> is the index \<open>i\<close>. An access outside the array is a fault, the result \<open>None\<close>.
  \<open>arr_copy\<close> is \<open>memcpy\<close> between two arrays.
\<close>

definition arr_get :: "'e list \<Rightarrow> nat \<Rightarrow> 'e option" where
  "arr_get a i = (if i < length a then Some (a ! i) else None)"

definition arr_set :: "nat \<Rightarrow> 'e \<Rightarrow> 'e list \<Rightarrow> 'e list option" where
  "arr_set i x a = (if i < length a then Some (a[i := x]) else None)"

definition arr_swap :: "nat \<Rightarrow> nat \<Rightarrow> 'e list \<Rightarrow> 'e list option" where
  "arr_swap i j a = (if i < length a \<and> j < length a then Some (a[i := a ! j, j := a ! i]) else None)"

definition arr_copy :: "nat \<Rightarrow> 'e list \<Rightarrow> nat \<Rightarrow> nat \<Rightarrow> 'e list \<Rightarrow> 'e list option" where
  "arr_copy dpos src spos n dst =
     (if n = 0 then Some dst
      else if spos + n \<le> length src \<and> dpos + n \<le> length dst
      then Some (take dpos dst @ take n (drop spos src) @ drop (dpos + n) dst)
      else None)"

lemma arr_get_Some [simp]: "i < length a \<Longrightarrow> arr_get a i = Some (a ! i)"
  by (simp add: arr_get_def)

lemma arr_set_Some [simp]: "i < length a \<Longrightarrow> arr_set i x a = Some (a[i := x])"
  by (simp add: arr_set_def)

lemma arr_swap_Some [simp]:
  "i < length a \<Longrightarrow> j < length a \<Longrightarrow> arr_swap i j a = Some (a[i := a ! j, j := a ! i])"
  by (simp add: arr_swap_def)

lemma mset_arr_swap: "i < length a \<Longrightarrow> j < length a \<Longrightarrow> mset (a[i := a ! j, j := a ! i]) = mset a"
  by (metis mset_swap)

lemma arr_copy_Some:
  "spos + n \<le> length src \<Longrightarrow> dpos + n \<le> length dst \<Longrightarrow>
   arr_copy dpos src spos n dst = Some (take dpos dst @ take n (drop spos src) @ drop (dpos + n) dst)"
  by (simp add: arr_copy_def)

end
