(* ===== verification/Cobalt_Functional.thy ===== *)
theory Cobalt_Functional
  imports Cobalt_Array
begin

section \<open>Functional helpers and streams\<close>

text \<open>
  \<open>src/algorithm/functional.c\<close> and \<open>src/algorithm/stream.c\<close>. A NULL pointer is \<open>None\<close>. A result
  that points into an array is the index of the element. \<open>cobalt_filter\<close> may be given the same array
  as input and output, so it works on a memory of named arrays; the other routines take the two arrays
  as separate arguments.
\<close>

definition predicate_equal :: "'e option \<Rightarrow> 'e option \<Rightarrow> ('e \<Rightarrow> 'e \<Rightarrow> int) \<Rightarrow> bool" where
  "predicate_equal a b cmp \<longleftrightarrow>
     (case (a, b) of
        (Some x, Some y) \<Rightarrow> cmp x y = 0
      | _ \<Rightarrow> a = None \<and> b = None)"

definition predicate_not_equal :: "'e option \<Rightarrow> 'e option \<Rightarrow> ('e \<Rightarrow> 'e \<Rightarrow> int) \<Rightarrow> bool" where
  "predicate_not_equal a b cmp \<longleftrightarrow> \<not> predicate_equal a b cmp"

definition predicate_null :: "'e option \<Rightarrow> bool" where
  "predicate_null item \<longleftrightarrow> item = None"

definition predicate_nonnull :: "'e option \<Rightarrow> bool" where
  "predicate_nonnull item \<longleftrightarrow> item \<noteq> None"

function bsearch_loop :: "('e \<Rightarrow> 'e \<Rightarrow> int) \<Rightarrow> 'e \<Rightarrow> 'e list \<Rightarrow> nat \<Rightarrow> nat \<Rightarrow> nat option option" where
  "bsearch_loop compar key arr left right =
     (if left < right then
        let mid = left + (right - left) div 2 in
        arr_get arr mid \<bind>
        (\<lambda>x. let cmp = compar key x in
          if cmp = 0 then Some (Some mid)
          else if cmp < 0 then bsearch_loop compar key arr left mid
          else bsearch_loop compar key arr (mid + 1) right)
      else Some None)"
  by pat_completeness auto
termination
  by (relation "measure (\<lambda>(_, _, _, l, r). r - l)") auto

definition cobalt_bsearch ::
    "'e option \<Rightarrow> 'e list option \<Rightarrow> nat \<Rightarrow> ('e \<Rightarrow> 'e \<Rightarrow> int) option \<Rightarrow> nat option option" where
  "cobalt_bsearch key base nmemb compar =
     (case (key, base, compar) of
        (Some k, Some arr, Some c) \<Rightarrow> if nmemb = 0 then Some None else bsearch_loop c k arr 0 nmemb
      | _ \<Rightarrow> Some None)"

text \<open>The loops \<open>for (i = 0; i < nmemb; i++)\<close> below start at \<open>i\<close> with \<open>k\<close> iterations left.\<close>

fun find_if_loop :: "('e \<Rightarrow> bool) \<Rightarrow> 'e list \<Rightarrow> nat \<Rightarrow> nat \<Rightarrow> nat option option" where
  "find_if_loop pred arr i 0 = Some None"
| "find_if_loop pred arr i (Suc k) =
     arr_get arr i \<bind> (\<lambda>x. if pred x then Some (Some i) else find_if_loop pred arr (i + 1) k)"

definition cobalt_find_if :: "'e list option \<Rightarrow> nat \<Rightarrow> ('e \<Rightarrow> bool) option \<Rightarrow> nat option option" where
  "cobalt_find_if base nmemb pred =
     (case (base, pred) of
        (Some arr, Some p) \<Rightarrow> if nmemb = 0 then Some None else find_if_loop p arr 0 nmemb
      | _ \<Rightarrow> Some None)"

text \<open>
  An operation may change the element it is given and whatever else it reaches, the state \<open>'s\<close>.
\<close>

fun for_each_loop :: "('e \<Rightarrow> 's \<Rightarrow> 'e \<times> 's) \<Rightarrow> nat \<Rightarrow> nat \<Rightarrow> 'e list \<times> 's \<Rightarrow> ('e list \<times> 's) option" where
  "for_each_loop f i 0 s = Some s"
| "for_each_loop f i (Suc k) s = (let (arr, st) = s in
     arr_get arr i \<bind>
     (\<lambda>x. let (x', st') = f x st in
        arr_set i x' arr \<bind> (\<lambda>arr. for_each_loop f (i + 1) k (arr, st'))))"

definition cobalt_for_each ::
    "'e list option \<times> 's \<Rightarrow> nat \<Rightarrow> ('e \<Rightarrow> 's \<Rightarrow> 'e \<times> 's) option \<Rightarrow> ('e list option \<times> 's) option" where
  "cobalt_for_each s nmemb f =
     (case (fst s, f) of
        (Some arr, Some g) \<Rightarrow>
          if nmemb = 0 then Some s
          else for_each_loop g 0 nmemb (arr, snd s) \<bind> (\<lambda>(arr, st). Some (Some arr, st))
      | _ \<Rightarrow> Some s)"

fun map_loop ::
    "('e \<Rightarrow> 'o \<Rightarrow> 's \<Rightarrow> 'o \<times> 's) \<Rightarrow> 'e list \<Rightarrow> nat \<Rightarrow> nat \<Rightarrow> 'o list \<times> 's \<Rightarrow> ('o list \<times> 's) option" where
  "map_loop f src i 0 s = Some s"
| "map_loop f src i (Suc k) s = (let (dst, st) = s in
     arr_get src i \<bind>
     (\<lambda>x. arr_get dst i \<bind>
       (\<lambda>y. let (y', st') = f x y st in
          arr_set i y' dst \<bind> (\<lambda>dst. map_loop f src (i + 1) k (dst, st')))))"

definition cobalt_map_array ::
    "'e list option \<Rightarrow> 'o list option \<times> 's \<Rightarrow> nat \<Rightarrow> ('e \<Rightarrow> 'o \<Rightarrow> 's \<Rightarrow> 'o \<times> 's) option \<Rightarrow>
     (int \<times> 'o list option \<times> 's) option" where
  "cobalt_map_array input output nmemb f =
     (case (input, fst output, f) of
        (Some src, Some dst, Some g) \<Rightarrow>
          if nmemb = 0 then Some (-1, output)
          else map_loop g src 0 nmemb (dst, snd output) \<bind> (\<lambda>(dst, st). Some (0, (Some dst, st)))
      | _ \<Rightarrow> Some (-1, output))"

fun filter_loop ::
    "('e \<Rightarrow> bool) \<Rightarrow> nat \<Rightarrow> nat \<Rightarrow> nat \<Rightarrow> nat \<Rightarrow> nat \<Rightarrow> (nat \<Rightarrow> 'e list) \<Rightarrow>
     (nat \<times> (nat \<Rightarrow> 'e list)) option" where
  "filter_loop pred src dst cnt i 0 mem = Some (cnt, mem)"
| "filter_loop pred src dst cnt i (Suc k) mem =
     arr_get (mem src) i \<bind>
     (\<lambda>x. if pred x then
            (if cnt \<noteq> i then arr_set cnt x (mem dst) \<bind> (\<lambda>a. Some (mem(dst := a))) else Some mem) \<bind>
            (\<lambda>mem. filter_loop pred src dst (cnt + 1) (i + 1) k mem)
          else filter_loop pred src dst cnt (i + 1) k mem)"

definition cobalt_filter ::
    "nat option \<Rightarrow> nat option \<Rightarrow> nat option \<Rightarrow> ('e \<Rightarrow> bool) option \<Rightarrow> (nat \<Rightarrow> 'e list) \<Rightarrow>
     (int \<times> nat option \<times> (nat \<Rightarrow> 'e list)) option" where
  "cobalt_filter input output nmemb pred mem =
     (case (input, output, nmemb, pred) of
        (Some src, Some dst, Some n, Some p) \<Rightarrow>
          filter_loop p src dst 0 0 n mem \<bind> (\<lambda>(cnt, mem). Some (0, Some cnt, mem))
      | _ \<Rightarrow> Some (-1, nmemb, mem))"

fun fold_loop :: "('acc \<Rightarrow> 'e \<Rightarrow> 'acc) \<Rightarrow> 'e list \<Rightarrow> nat \<Rightarrow> nat \<Rightarrow> 'acc \<Rightarrow> 'acc option" where
  "fold_loop f arr i 0 acc = Some acc"
| "fold_loop f arr i (Suc k) acc = arr_get arr i \<bind> (\<lambda>x. fold_loop f arr (i + 1) k (f acc x))"

definition cobalt_fold :: "'e list option \<Rightarrow> nat \<Rightarrow> 'acc \<Rightarrow> ('acc \<Rightarrow> 'e \<Rightarrow> 'acc) option \<Rightarrow> 'acc option" where
  "cobalt_fold input nmemb initial f =
     (case (input, f) of
        (Some arr, Some g) \<Rightarrow> if nmemb = 0 then Some initial else fold_loop g arr 0 nmemb initial
      | _ \<Rightarrow> Some initial)"

subsection \<open>Streams\<close>

definition cobalt_stream_take ::
    "'e list option \<Rightarrow> 'e list option \<Rightarrow> nat \<Rightarrow> nat \<Rightarrow> nat \<Rightarrow> 'e list option option" where
  "cobalt_stream_take input output n nmemb sz =
     (case (input, output) of
        (Some src, Some dst) \<Rightarrow>
          if sz = 0 \<or> nmemb = 0 then Some output
          else let cnt = (if n < nmemb then n else nmemb) in
            arr_copy 0 src 0 cnt dst \<bind> (\<lambda>dst. Some (Some dst))
      | _ \<Rightarrow> Some output)"

definition cobalt_stream_drop ::
    "'e list option \<Rightarrow> 'e list option \<Rightarrow> nat \<Rightarrow> nat \<Rightarrow> nat \<Rightarrow> nat option \<Rightarrow>
     ('e list option \<times> nat option) option" where
  "cobalt_stream_drop input output n nmemb sz out_nemb =
     (case (input, output) of
        (Some src, Some dst) \<Rightarrow>
          if sz = 0 \<or> nmemb = 0 then Some (output, map_option (\<lambda>_. 0) out_nemb)
          else let skip = (if n < nmemb then n else nmemb); cnt = nmemb - skip in
            (if 0 < cnt then arr_copy 0 src skip cnt dst else Some dst) \<bind>
            (\<lambda>dst. Some (Some dst, map_option (\<lambda>_. cnt) out_nemb))
      | _ \<Rightarrow> Some (output, map_option (\<lambda>_. 0) out_nemb))"

text \<open>The index at which the scan \<open>for (i = 0; i < count; i++) if (!pred(..)) break;\<close> stops.\<close>

fun scan_while :: "('e \<Rightarrow> bool) \<Rightarrow> 'e list \<Rightarrow> nat \<Rightarrow> nat \<Rightarrow> nat option" where
  "scan_while pred arr i 0 = Some i"
| "scan_while pred arr i (Suc k) =
     arr_get arr i \<bind> (\<lambda>x. if pred x then scan_while pred arr (i + 1) k else Some i)"

text \<open>
  In the two routines below \<open>nmemb\<close> is read before it is compared with NULL; the read of a NULL
  \<open>nmemb\<close> is the fault \<open>None\<close>.
\<close>

definition cobalt_stream_take_while ::
    "'e list option \<Rightarrow> 'e list option \<Rightarrow> nat option \<Rightarrow> nat \<Rightarrow> ('e \<Rightarrow> bool) option \<Rightarrow>
     ('e list option \<times> nat option) option" where
  "cobalt_stream_take_while input output nmemb sz pred =
     (case (input, output, pred) of
        (Some src, Some dst, Some p) \<Rightarrow>
          if sz = 0 then Some (output, map_option (\<lambda>_. 0) nmemb)
          else nmemb \<bind>
            (\<lambda>cnt. scan_while p src 0 cnt \<bind>
              (\<lambda>i. (if 0 < i then arr_copy 0 src 0 i dst else Some dst) \<bind>
                (\<lambda>dst. Some (Some dst, Some i))))
      | _ \<Rightarrow> Some (output, map_option (\<lambda>_. 0) nmemb))"

definition cobalt_stream_drop_while ::
    "'e list option \<Rightarrow> 'e list option \<Rightarrow> nat option \<Rightarrow> nat \<Rightarrow> ('e \<Rightarrow> bool) option \<Rightarrow>
     ('e list option \<times> nat option) option" where
  "cobalt_stream_drop_while input output nmemb sz pred =
     (case (input, output, pred) of
        (Some src, Some dst, Some p) \<Rightarrow>
          if sz = 0 then Some (output, map_option (\<lambda>_. 0) nmemb)
          else nmemb \<bind>
            (\<lambda>cnt. scan_while p src 0 cnt \<bind>
              (\<lambda>skip. let remaining = cnt - skip in
                (if 0 < remaining then arr_copy 0 src skip remaining dst else Some dst) \<bind>
                (\<lambda>dst. Some (Some dst, Some remaining))))
      | _ \<Rightarrow> Some (output, map_option (\<lambda>_. 0) nmemb))"

declare bsearch_loop.simps [simp del]

subsection \<open>Binary search\<close>

context comparator
begin

lemma bsearch_loop_ok:
  "cmp_sorted cmp arr \<Longrightarrow> r \<le> length arr \<Longrightarrow>
   (\<forall>i<l. 0 < cmp key (arr ! i)) \<Longrightarrow> (\<forall>i. r \<le> i \<longrightarrow> i < length arr \<longrightarrow> cmp key (arr ! i) < 0) \<Longrightarrow>
   (case bsearch_loop cmp key arr l r of
      Some (Some i) \<Rightarrow> i < length arr \<and> cmp key (arr ! i) = 0
    | Some None \<Rightarrow> (\<forall>x\<in>set arr. cmp key x \<noteq> 0)
    | None \<Rightarrow> False)"
proof (induction "r - l" arbitrary: l r rule: less_induct)
  case less
  show ?case
  proof (cases "l < r")
    case False
    have "cmp key (arr ! i) \<noteq> 0" if "i < length arr" for i
    proof (cases "i < l")
      case True
      with less.prems(3) have "0 < cmp key (arr ! i)" by blast
      then show ?thesis by simp
    next
      case outside: False
      with False have "r \<le> i" by linarith
      with less.prems(4) that have "cmp key (arr ! i) < 0" by blast
      then show ?thesis by simp
    qed
    then show ?thesis using False by (simp add: bsearch_loop.simps all_set_conv_all_nth)
  next
    case True
    define mid where "mid = l + (r - l) div 2"
    have mid: "l \<le> mid" "mid < r" using True by (auto simp: mid_def)
    have ord: "cmp (arr ! i) (arr ! j) \<le> 0" if "i < j" "j < length arr" for i j
      using less.prems(1) that by (simp add: cmp_sorted_def sorted_wrt_iff_nth_less)
    have unf: "bsearch_loop cmp key arr l r =
        (if cmp key (arr ! mid) = 0 then Some (Some mid)
         else if cmp key (arr ! mid) < 0 then bsearch_loop cmp key arr l mid
         else bsearch_loop cmp key arr (mid + 1) r)"
      using True mid less.prems(2) by (subst bsearch_loop.simps) (simp add: mid_def [symmetric] Let_def)
    consider "cmp key (arr ! mid) = 0" | "cmp key (arr ! mid) < 0" | "0 < cmp key (arr ! mid)" by linarith
    then show ?thesis
    proof cases
      case 1
      with mid less.prems(2) show ?thesis by (simp add: unf)
    next
      case 2
      have "cmp key (arr ! i) < 0" if "mid \<le> i" "i < length arr" for i
        using cmp_less_le_trans [OF 2 ord [of mid i]] 2 that by (cases "i = mid") auto
      with less.hyps [of mid l] less.prems mid True 2 show ?thesis by (simp add: unf)
    next
      case 3
      have "0 < cmp key (arr ! i)" if "i < mid + 1" for i
      proof (cases "i = mid")
        case False
        then have "cmp (arr ! i) (arr ! mid) \<le> 0" using ord [of i mid] that mid less.prems(2) by simp
        moreover have "cmp (arr ! mid) key < 0" using 3 cmp_swap [of "arr ! mid" key] by simp
        ultimately show ?thesis using cmp_le_less_trans cmp_swap by blast
      qed (use 3 in simp)
      then have lt: "\<forall>i<mid + 1. 0 < cmp key (arr ! i)" by blast
      have "bsearch_loop cmp key arr l r = bsearch_loop cmp key arr (mid + 1) r" using 3 by (simp add: unf)
      with less.hyps [of r "mid + 1", OF _ less.prems(1,2) lt less.prems(4)] mid show ?thesis by simp
    qed
  qed
qed

end

subsection \<open>Loops over an array\<close>

lemma arr_get_drop: "i + Suc k \<le> length arr \<Longrightarrow> take (Suc k) (drop i arr) = arr ! i # take k (drop (i + 1) arr)"
  by (simp add: Cons_nth_drop_Suc [symmetric])

lemma find_if_loop_ok:
  "i + k \<le> length arr \<Longrightarrow>
   find_if_loop p arr i k = Some (if \<exists>x\<in>set (take k (drop i arr)). p x
     then Some (i + length (takeWhile (Not \<circ> p) (take k (drop i arr)))) else None)"
proof (induction k arbitrary: i)
  case (Suc k)
  then show ?case using arr_get_drop [of i k arr] by auto
qed simp

lemma fold_loop_ok: "i + k \<le> length arr \<Longrightarrow> fold_loop f arr i k acc = Some (foldl f acc (take k (drop i arr)))"
proof (induction k arbitrary: i acc)
  case (Suc k)
  then show ?case using arr_get_drop [of i k arr] by simp
qed simp

text \<open>An operation applied to the elements of a list in order, threading a state.\<close>

fun walk :: "('x \<Rightarrow> 's \<Rightarrow> 'y \<times> 's) \<Rightarrow> 'x list \<Rightarrow> 's \<Rightarrow> 'y list \<times> 's" where
  "walk f [] st = ([], st)"
| "walk f (x # xs) st = (let (y, st') = f x st; (ys, st'') = walk f xs st' in (y # ys, st''))"

lemma list_update_split: "i < length xs \<Longrightarrow> take (Suc i) (xs[i := x]) = take i xs @ [x]"
  by (simp add: take_Suc_conv_app_nth)

lemma for_each_loop_ok:
  "i + k \<le> length arr \<Longrightarrow> for_each_loop f i k (arr, st) =
     (let (ys, st') = walk f (take k (drop i arr)) st in Some (take i arr @ ys @ drop (i + k) arr, st'))"
proof (induction k arbitrary: i arr st)
  case (Suc k)
  obtain y st1 where y: "f (arr ! i) st = (y, st1)" by (cases "f (arr ! i) st")
  have "take (Suc i) (arr[i := y]) = take i arr @ [y]" using Suc.prems by (intro list_update_split) simp
  then show ?case
    using Suc.IH [of "i + 1" "arr[i := y]" st1] Suc.prems y arr_get_drop [of i k arr] by (simp add: split_def Let_def)
qed simp

lemma map_loop_ok:
  "i + k \<le> length src \<Longrightarrow> i + k \<le> length dst \<Longrightarrow> map_loop f src i k (dst, st) =
     (let (ys, st') = walk (\<lambda>(x, y). f x y) (zip (take k (drop i src)) (take k (drop i dst))) st in
      Some (take i dst @ ys @ drop (i + k) dst, st'))"
proof (induction k arbitrary: i dst st)
  case (Suc k)
  obtain y st1 where y: "f (src ! i) (dst ! i) st = (y, st1)" by (cases "f (src ! i) (dst ! i) st")
  have "take (Suc i) (dst[i := y]) = take i dst @ [y]" using Suc.prems by (intro list_update_split) simp
  then show ?case
    using Suc.IH [of "i + 1" "dst[i := y]" st1] Suc.prems y arr_get_drop [of i k src] arr_get_drop [of i k dst]
    by (simp add: split_def Let_def)
qed simp

lemma scan_while_ok:
  "i + k \<le> length arr \<Longrightarrow> scan_while p arr i k = Some (i + length (takeWhile p (take k (drop i arr))))"
proof (induction k arbitrary: i)
  case (Suc k)
  then show ?case using arr_get_drop [of i k arr] by simp
qed simp

lemma copy_front:
  "s + n \<le> length src \<Longrightarrow> n \<le> length dst \<Longrightarrow>
   (if 0 < n then arr_copy 0 src s n dst else Some dst) = Some (take n (drop s src) @ drop n dst)"
  by (simp add: arr_copy_Some)

text \<open>
  The state of the filter loop after \<open>i\<close> elements. The input still holds the original elements from
  index \<open>i\<close> on, and every kept element whose place in the output differs from its place in the input
  has been written.
\<close>

definition filter_state :: "('e \<Rightarrow> bool) \<Rightarrow> 'e list \<Rightarrow> 'e list \<Rightarrow> nat \<Rightarrow> 'e list \<Rightarrow> bool" where
  "filter_state p xs out0 i out \<longleftrightarrow>
     length out = length out0 \<and>
     (\<forall>j<length out0. out ! j =
        (if length (takeWhile p (take i xs)) \<le> j \<and> j < length (filter p (take i xs))
         then filter p (take i xs) ! j else out0 ! j))"

lemma takeWhile_le_filter: "length (takeWhile p xs) \<le> length (filter p xs)"
  by (induction xs) auto

lemma filter_all_prefix: "length (filter p xs) = length xs \<Longrightarrow> takeWhile p xs = xs"
  by (metis filter_id_conv length_filter_less takeWhile_eq_all_conv nat_less_le)

lemma takeWhile_snoc: "takeWhile p (xs @ [x]) = (if (\<forall>y\<in>set xs. p y) \<and> p x then xs @ [x] else takeWhile p xs)"
  by (induction xs) auto

lemma filter_state_step:
  assumes st: "filter_state p xs out0 i out" and i: "i < length xs" "length xs \<le> length out0"
  shows "\<not> p (xs ! i) \<Longrightarrow> filter_state p xs out0 (Suc i) out"
    and "p (xs ! i) \<Longrightarrow> length (filter p (take i xs)) = i \<Longrightarrow> filter_state p xs out0 (Suc i) out"
    and "p (xs ! i) \<Longrightarrow> length (filter p (take i xs)) \<noteq> i \<Longrightarrow>
      filter_state p xs out0 (Suc i) (out[length (filter p (take i xs)) := xs ! i])"
proof -
  let ?w = "takeWhile p (take i xs)" and ?f = "filter p (take i xs)"
  have sn: "take (Suc i) xs = take i xs @ [xs ! i]" using i by (simp add: take_Suc_conv_app_nth)
  have li: "length (take i xs) = i" using i by simp
  have wf: "length ?w \<le> length ?f" by (rule takeWhile_le_filter)
  show "filter_state p xs out0 (Suc i) out" if "\<not> p (xs ! i)"
    using st that by (auto simp: filter_state_def sn takeWhile_snoc)
  show "filter_state p xs out0 (Suc i) out" if "p (xs ! i)" "length ?f = i"
  proof -
    have w: "?w = take i xs" using filter_all_prefix [of p "take i xs"] that(2) li by simp
    then have all: "\<forall>y\<in>set (take i xs). p y" by (metis set_takeWhileD)
    then have f: "?f = take i xs" by (simp add: filter_True)
    have "min (length xs) i = i" using i by simp
    then have "\<forall>j<length out0. out ! j = out0 ! j" using st by (auto simp: filter_state_def w f)
    then show ?thesis using st that all f by (auto simp: filter_state_def sn takeWhile_snoc)
  qed
  show "filter_state p xs out0 (Suc i) (out[length ?f := xs ! i])" if "p (xs ! i)" "length ?f \<noteq> i"
  proof -
    have "\<not> (\<forall>y\<in>set (take i xs). p y)" using that(2) li by (metis filter_True)
    moreover have "length ?f \<le> i" using length_filter_le [of p "take i xs"] li by simp
    ultimately show ?thesis using st that i wf
      by (auto simp: filter_state_def sn takeWhile_snoc nth_append nth_list_update)
  qed
qed

lemma filter_loop_ok:
  assumes "length xs \<le> length out0"
  shows "i + k = length xs \<Longrightarrow> filter_state p xs out0 i (mem dst) \<Longrightarrow> cnt = length (filter p (take i xs)) \<Longrightarrow>
    length xs \<le> length (mem src) \<Longrightarrow> (\<forall>j. i \<le> j \<longrightarrow> j < length xs \<longrightarrow> mem src ! j = xs ! j) \<Longrightarrow>
    \<exists>out. filter_loop p src dst cnt i k mem = Some (length (filter p xs), mem(dst := out)) \<and>
      filter_state p xs out0 (length xs) out"
proof (induction k arbitrary: i cnt mem)
  case 0
  then show ?case by (intro exI [of _ "mem dst"]) simp
next
  case (Suc k)
  have i: "i < length xs" using Suc.prems(1) by simp
  have x: "arr_get (mem src) i = Some (xs ! i)" using Suc.prems(4,5) i by simp
  have sn: "take (Suc i) xs = take i xs @ [xs ! i]" using i by (simp add: take_Suc_conv_app_nth)
  have le: "cnt \<le> i" using length_filter_le [of p "take i xs"] Suc.prems(3) i by simp
  note step = filter_state_step [OF Suc.prems(2) i assms]
  have e: "Suc i + k = length xs" using Suc.prems(1) by simp
  consider (skip) "\<not> p (xs ! i)" | (same) "p (xs ! i)" "cnt = i" | (move) "p (xs ! i)" "cnt \<noteq> i" by blast
  then show ?case
  proof cases
    case skip
    have "cnt = length (filter p (take (Suc i) xs))" using skip Suc.prems(3) sn by simp
    from Suc.IH [OF e step(1) [OF skip] this Suc.prems(4)] Suc.prems(5) x skip show ?thesis by simp
  next
    case same
    have "cnt + 1 = length (filter p (take (Suc i) xs))" using same Suc.prems(3) sn by simp
    from Suc.IH [OF e step(2) this Suc.prems(4)] Suc.prems(3,5) x same show ?thesis by simp
  next
    case move
    let ?mem = "mem(dst := (mem dst)[cnt := xs ! i])"
    have c: "cnt + 1 = length (filter p (take (Suc i) xs))" using move Suc.prems(3) sn by simp
    have st: "filter_state p xs out0 (Suc i) (?mem dst)" using step(3) move Suc.prems(3) by simp
    have len: "length xs \<le> length (?mem src)" using Suc.prems(4) by auto
    have keep: "\<forall>j. Suc i \<le> j \<longrightarrow> j < length xs \<longrightarrow> ?mem src ! j = xs ! j"
      using Suc.prems(5) le move by (auto simp: nth_list_update)
    have "cnt < length (mem dst)" using Suc.prems(2) le i assms by (simp add: filter_state_def)
    then have go: "filter_loop p src dst cnt i (Suc k) mem = filter_loop p src dst (cnt + 1) (Suc i) k ?mem"
      using x move by simp
    obtain out where "filter_loop p src dst (cnt + 1) (Suc i) k ?mem = Some (length (filter p xs), ?mem(dst := out))"
      "filter_state p xs out0 (length xs) out" using Suc.IH [where mem = ?mem, OF e st c len keep] by blast
    then show ?thesis unfolding go fun_upd_upd by blast
  qed
qed

subsection \<open>Properties\<close>

text \<open>
  C31: on an array sorted by the comparator, \<open>cobalt_bsearch\<close> ends, reads only inside the array and
  returns an element equal to the key exactly when there is one.
\<close>

theorem bsearch_correct:
  assumes "comparator c" "cmp_sorted c arr"
  shows "\<exists>r. cobalt_bsearch (Some key) (Some arr) (length arr) (Some c) = Some r \<and>
    (case r of
       Some i \<Rightarrow> i < length arr \<and> c key (arr ! i) = 0
     | None \<Rightarrow> \<forall>x\<in>set arr. c key x \<noteq> 0)"
  using comparator.bsearch_loop_ok [OF assms, of "length arr" 0 key]
  by (auto simp: cobalt_bsearch_def split: option.splits)

definition int_cmp :: "int \<Rightarrow> int \<Rightarrow> int" where
  "int_cmp a b = a - b"

lemma int_cmp_comparator: "comparator int_cmp"
  by unfold_locales (auto simp: int_cmp_def)

theorem bsearch_correct_witness:
  "\<exists>i. cobalt_bsearch (Some 5) (Some [1, 3, 5, 8]) 4 (Some int_cmp) = Some (Some i) \<and> [1, 3, 5, 8::int] ! i = 5"
proof -
  have "cmp_sorted int_cmp [1, 3, 5, 8]" by (simp add: int_cmp_def)
  from bsearch_correct [OF int_cmp_comparator this, of 5] show ?thesis
    by (auto simp: int_cmp_def numeral_eq_Suc split: option.splits)
qed

text \<open>
  C36: \<open>cobalt_filter\<close> counts the elements that satisfy the predicate and stays inside the arrays.
  In place it leaves exactly these elements, in order, at the front. With a separate output array
  the elements of the longest kept prefix are not copied: these output cells keep what they held.
\<close>

theorem filter_correct:
  assumes "length (mem src) \<le> length (mem dst)"
  shows "\<exists>out. cobalt_filter (Some src) (Some dst) (Some (length (mem src))) (Some p) mem =
      Some (0, Some (length (filter p (mem src))), mem(dst := out)) \<and>
    (src = dst \<longrightarrow> take (length (filter p (mem src))) out = filter p (mem src)) \<and>
    (\<forall>j<length (filter p (mem src)). out ! j =
       (if j < length (takeWhile p (mem src)) then mem dst ! j else filter p (mem src) ! j))"
proof -
  let ?xs = "mem src" and ?out0 = "mem dst" and ?w = "takeWhile p (mem src)"
  have s0: "filter_state p ?xs ?out0 0 ?out0" by (simp add: filter_state_def)
  obtain out where out: "filter_loop p src dst 0 0 (length ?xs) mem = Some (length (filter p ?xs), mem(dst := out))"
    "filter_state p ?xs ?out0 (length ?xs) out"
    using filter_loop_ok [OF assms, of 0 "length ?xs" p mem dst 0 src, OF _ s0] by auto
  have fl: "length (filter p ?xs) \<le> length ?out0" using length_filter_le [of p ?xs] assms by linarith
  then have nth: "\<forall>j<length (filter p ?xs). out ! j = (if j < length ?w then ?out0 ! j else filter p ?xs ! j)"
    using out(2) by (auto simp: filter_state_def)
  have "filter p ?xs ! j = ?xs ! j" if "j < length ?w" for j
  proof -
    have "filter p ?xs = ?w @ filter p (dropWhile p ?xs)"
      by (metis filter_append filter_True set_takeWhileD takeWhile_dropWhile_id)
    then show ?thesis using that by (metis nth_append takeWhile_nth)
  qed
  then have "src = dst \<Longrightarrow> take (length (filter p ?xs)) out = filter p ?xs"
    using nth out(2) fl by (intro nth_equalityI) (auto simp: filter_state_def)
  with out nth show ?thesis by (intro exI [of _ out] conjI) (simp_all add: cobalt_filter_def)
qed

theorem filter_correct_witness:
  "\<exists>out. cobalt_filter (Some 0) (Some 1) (Some 2) (Some (\<lambda>x. 0 < x)) (\<lambda>a. if a = 0 then [7, 8] else [0, 0::int]) =
     Some (0, Some 2, (\<lambda>a. if a = 0 then [7, 8] else [0, 0])(1 := out)) \<and> out ! 0 = 0"
  using filter_correct [of "\<lambda>a. if a = 0 then [7, 8] else [0, 0::int]" 0 1 "\<lambda>x. 0 < x"]
  by (auto simp: numeral_eq_Suc simp del: fun_upd_apply)

text \<open>
  C35: the traversals of an array of \<open>length xs\<close> elements stay inside it and visit the elements in
  order, each once: \<open>cobalt_find_if\<close> returns the first match, \<open>cobalt_fold\<close> is the left fold,
  \<open>cobalt_for_each\<close> and \<open>cobalt_map\<close> apply the operation to each element, threading its side effects.
\<close>

theorem array_traversals:
  assumes "xs \<noteq> []" "length out = length xs"
  shows "cobalt_find_if (Some xs) (length xs) (Some p) =
      Some (if \<exists>x\<in>set xs. p x then Some (length (takeWhile (Not \<circ> p) xs)) else None) \<and>
    cobalt_fold (Some xs) (length xs) acc (Some g) = Some (foldl g acc xs) \<and>
    cobalt_for_each (Some xs, st) (length xs) (Some f) =
      Some (Some (fst (walk f xs st)), snd (walk f xs st)) \<and>
    cobalt_map_array (Some xs) (Some out, st') (length xs) (Some k) =
      Some (0, Some (fst (walk (\<lambda>(x, y). k x y) (zip xs out) st')), snd (walk (\<lambda>(x, y). k x y) (zip xs out) st'))"
  using assms find_if_loop_ok [of 0 "length xs" xs p] fold_loop_ok [of 0 "length xs" xs g acc]
    for_each_loop_ok [of 0 "length xs" xs f st] map_loop_ok [of 0 "length xs" xs out k st']
  by (simp add: cobalt_find_if_def cobalt_fold_def cobalt_for_each_def cobalt_map_array_def split_def Let_def)

theorem array_traversals_witness:
  "cobalt_fold (Some [1, 2, 3]) 3 0 (Some (\<lambda>a x. 10 * a + x)) = Some (123::int)"
  using array_traversals [of "[1, 2, 3::int]" "[0, 0, 0::int]" "\<lambda>_. True" 0 "\<lambda>a x. 10 * a + x" "()" "\<lambda>x s. (x, s)"
      "()" "\<lambda>x y s. (x, s)"]
  by (simp add: numeral_eq_Suc)

text \<open>
  C32: \<open>cobalt_stream_take_while\<close> and \<open>cobalt_stream_drop_while\<close> with the same predicate split the
  input: the elements the first one writes followed by those the second one writes are the input.
  \<open>cobalt_stream_take\<close> and \<open>cobalt_stream_drop\<close> do the same at position \<open>n\<close>. Output behind the copied
  elements is untouched.
\<close>

theorem stream_split:
  assumes "xs \<noteq> []" "0 < sz" "length out = length xs"
  shows "(\<exists>i a b. cobalt_stream_take_while (Some xs) (Some out) (Some (length xs)) sz (Some p) = Some (Some a, Some i) \<and>
      cobalt_stream_drop_while (Some xs) (Some out) (Some (length xs)) sz (Some p) = Some (Some b, Some (length xs - i)) \<and>
      take i a = takeWhile p xs \<and> take i a @ take (length xs - i) b = xs \<and>
      drop i a = drop i out \<and> drop (length xs - i) b = drop (length xs - i) out) \<and>
    (\<exists>a b. cobalt_stream_take (Some xs) (Some out) n (length xs) sz = Some (Some a) \<and>
      cobalt_stream_drop (Some xs) (Some out) n (length xs) sz (Some 0) = Some (Some b, Some (length xs - n)) \<and>
      take (min n (length xs)) a @ take (length xs - n) b = xs)"
proof
  let ?i = "length (takeWhile p xs)"
  have i: "?i \<le> length xs" by (rule length_takeWhile_le)
  have "scan_while p xs 0 (length xs) = Some ?i" using scan_while_ok [of 0 "length xs" xs p] by simp
  moreover have "takeWhile p xs @ drop ?i xs = xs" by (metis append_take_drop_id takeWhile_eq_take)
  moreover have "(if 0 < length xs - ?i then arr_copy 0 xs ?i (length xs - ?i) out else Some out) =
      Some (drop ?i xs @ drop (length xs - ?i) out)"
    using copy_front [of ?i "length xs - ?i" xs out] i assms(3) by simp
  moreover have "(if 0 < ?i then arr_copy 0 xs 0 ?i out else Some out) = Some (take ?i xs @ drop ?i out)"
    using copy_front [of 0 ?i xs out] i assms(3) by simp
  ultimately show "\<exists>i a b. cobalt_stream_take_while (Some xs) (Some out) (Some (length xs)) sz (Some p) = Some (Some a, Some i) \<and>
      cobalt_stream_drop_while (Some xs) (Some out) (Some (length xs)) sz (Some p) = Some (Some b, Some (length xs - i)) \<and>
      take i a = takeWhile p xs \<and> take i a @ take (length xs - i) b = xs \<and>
      drop i a = drop i out \<and> drop (length xs - i) b = drop (length xs - i) out"
    using assms i takeWhile_eq_take [of p xs]
    apply -
    apply (rule exI [of _ ?i], rule exI [of _ "take ?i xs @ drop ?i out"],
        rule exI [of _ "drop ?i xs @ drop (length xs - ?i) out"])
    apply (simp add: cobalt_stream_take_while_def cobalt_stream_drop_while_def Let_def)
    done
  let ?n = "min n (length xs)"
  have n: "(if n < length xs then n else length xs) = ?n" by simp
  have "arr_copy 0 xs 0 ?n out = Some (take ?n xs @ drop ?n out)"
    using arr_copy_Some [of 0 ?n xs 0 out] assms(3) by simp
  moreover have "(if 0 < length xs - ?n then arr_copy 0 xs ?n (length xs - ?n) out else Some out) =
      Some (drop ?n xs @ drop (length xs - ?n) out)"
    using copy_front [of ?n "length xs - ?n" xs out] assms(3) by simp
  ultimately show "\<exists>a b. cobalt_stream_take (Some xs) (Some out) n (length xs) sz = Some (Some a) \<and>
      cobalt_stream_drop (Some xs) (Some out) n (length xs) sz (Some 0) = Some (Some b, Some (length xs - n)) \<and>
      take (min n (length xs)) a @ take (length xs - n) b = xs"
    using assms
    apply -
    apply (rule exI [of _ "take ?n xs @ drop ?n out"], rule exI [of _ "drop ?n xs @ drop (length xs - ?n) out"])
    apply (simp add: cobalt_stream_take_def cobalt_stream_drop_def Let_def n del: if_split)
    done
qed

theorem stream_split_witness:
  "\<exists>i a. cobalt_stream_take_while (Some [1, 2, 9]) (Some [0, 0, 0::int]) (Some 3) 4 (Some (\<lambda>x. x < 5)) =
     Some (Some a, Some i) \<and> take i a = [1, 2]"
  using stream_split [of "[1, 2, 9]" 4 "[0, 0, 0::int]" "\<lambda>x. x < 5" 1] by (auto simp: numeral_eq_Suc)

end
