(* ===== verification/Cobalt_Sort.thy ===== *)
theory Cobalt_Sort
  imports Cobalt_List Cobalt_Array
begin

section \<open>Sorting arrays\<close>

text \<open>
  \<open>src/algorithm/sort.c\<close>. Arrays are lists of elements. A routine that the code calls with a pointer
  into the array gets the rest of the array from there on, and the caller puts the result back behind
  the elements before it. An access outside the array or the scratch buffer is the result \<open>None\<close>.

  \<open>key_alloc\<close> answers the allocation of the one-element buffer of the insertion sort, as a function of
  the array it is made for; \<open>scratch\<close> is \<open>None\<close> when the scratch buffer cannot be allocated and
  otherwise gives its initial contents.
\<close>

subsection \<open>Swapping bytes\<close>

type_synonym bytes_mem = "nat \<Rightarrow> 8 word"

definition bytes_load :: "bytes_mem \<Rightarrow> nat \<Rightarrow> nat \<Rightarrow> 8 word list" where
  "bytes_load m p w = map m [p..<p + w]"

definition bytes_store :: "nat \<Rightarrow> 8 word list \<Rightarrow> bytes_mem \<Rightarrow> bytes_mem" where
  "bytes_store p xs m = (\<lambda>a. if p \<le> a \<and> a < p + length xs then xs ! (a - p) else m a)"

text \<open>The three copy loops of \<open>cobalt_swap_bytes\<close>; \<open>w\<close> is the width of the unit they exchange.\<close>

fun swap_units :: "nat \<Rightarrow> nat \<Rightarrow> nat \<Rightarrow> nat \<Rightarrow> bytes_mem \<Rightarrow> bytes_mem" where
  "swap_units w p1 p2 0 m = m"
| "swap_units w p1 p2 (Suc n) m =
     (let tmp = bytes_load m p1 w;
          m = bytes_store p1 (bytes_load m p2 w) m;
          m = bytes_store p2 tmp m
      in swap_units w (p1 + w) (p2 + w) n m)"

definition cobalt_swap_bytes :: "nat \<Rightarrow> nat \<Rightarrow> nat \<Rightarrow> bytes_mem \<Rightarrow> bytes_mem" where
  "cobalt_swap_bytes a b sz m =
     (if a = b then m
      else if (a OR b OR sz) AND (8 - 1) = 0 then swap_units 8 a b (sz div 8) m
      else if (a OR b OR sz) AND (4 - 1) = 0 then swap_units 4 a b (sz div 4) m
      else swap_units 1 a b sz m)"

subsection \<open>Heap sort\<close>

definition sift_child :: "('e \<Rightarrow> 'e \<Rightarrow> int) \<Rightarrow> nat \<Rightarrow> nat \<Rightarrow> 'e list \<Rightarrow> nat option" where
  "sift_child compar root cnt arr =
     (let child = root * 2 + 1 in
      if child + 1 < cnt then
        arr_get arr (child + 1) \<bind>
        (\<lambda>x. arr_get arr child \<bind> (\<lambda>y. Some (if compar x y > 0 then child + 1 else child)))
      else Some child)"

lemma sift_child_bound: "sift_child compar root cnt arr = Some child \<Longrightarrow> root < child"
  by (auto simp: sift_child_def Let_def arr_get_def split: if_splits Option.bind_splits)

function heapsort_sift_down :: "('e \<Rightarrow> 'e \<Rightarrow> int) \<Rightarrow> nat \<Rightarrow> nat \<Rightarrow> 'e list \<Rightarrow> 'e list option" where
  "heapsort_sift_down compar root cnt arr =
     (if root < cnt div 2 then
        sift_child compar root cnt arr \<bind>
        (\<lambda>child. arr_get arr child \<bind>
          (\<lambda>x. arr_get arr root \<bind>
            (\<lambda>y. if compar x y > 0
                 then arr_swap root child arr \<bind> (\<lambda>arr. heapsort_sift_down compar child cnt arr)
                 else Some arr)))
      else Some arr)"
  by pat_completeness auto
termination
  by (relation "measure (\<lambda>(_, root, cnt, _). cnt - root)") (auto dest: sift_child_bound)

fun heapify_loop :: "('e \<Rightarrow> 'e \<Rightarrow> int) \<Rightarrow> nat \<Rightarrow> nat \<Rightarrow> 'e list \<Rightarrow> 'e list option" where
  "heapify_loop compar nmemb 0 arr = Some arr"
| "heapify_loop compar nmemb (Suc i) arr =
     heapsort_sift_down compar i nmemb arr \<bind> heapify_loop compar nmemb i"

fun extract_loop :: "('e \<Rightarrow> 'e \<Rightarrow> int) \<Rightarrow> nat \<Rightarrow> 'e list \<Rightarrow> 'e list option" where
  "extract_loop compar 0 arr = Some arr"
| "extract_loop compar (Suc i) arr =
     arr_swap 0 (Suc i) arr \<bind>
     (\<lambda>arr. heapsort_sift_down compar 0 (Suc i) arr \<bind> extract_loop compar i)"

definition cobalt_heapsort_impl :: "'e list \<Rightarrow> nat \<Rightarrow> ('e \<Rightarrow> 'e \<Rightarrow> int) \<Rightarrow> 'e list option" where
  "cobalt_heapsort_impl arr nmemb compar =
     (if nmemb \<le> 1 then Some arr
      else heapify_loop compar nmemb (nmemb div 2) arr \<bind> extract_loop compar (nmemb - 1))"

definition cobalt_heapsort ::
    "'e list option \<Rightarrow> nat \<Rightarrow> nat \<Rightarrow> ('e \<Rightarrow> 'e \<Rightarrow> int) option \<Rightarrow> 'e list option option" where
  "cobalt_heapsort base nmemb sz compar =
     (case (base, compar) of
        (Some arr, Some c) \<Rightarrow>
          if nmemb \<le> 1 \<or> sz = 0 then Some base
          else cobalt_heapsort_impl arr nmemb c \<bind> (\<lambda>arr. Some (Some arr))
      | _ \<Rightarrow> Some base)"

subsection \<open>Insertion sort\<close>

fun insertion_inner :: "('e \<Rightarrow> 'e \<Rightarrow> int) \<Rightarrow> 'e \<Rightarrow> nat \<Rightarrow> 'e list \<Rightarrow> (nat \<times> 'e list) option" where
  "insertion_inner compar key 0 arr = Some (0, arr)"
| "insertion_inner compar key (Suc j) arr =
     arr_get arr j \<bind>
     (\<lambda>x. if compar x key > 0 then arr_set (Suc j) x arr \<bind> insertion_inner compar key j
          else Some (Suc j, arr))"

text \<open>The loop \<open>for (i = 1; i < nmemb; i++)\<close> with \<open>k\<close> iterations left.\<close>

fun insertion_outer :: "('e \<Rightarrow> 'e \<Rightarrow> int) \<Rightarrow> nat \<Rightarrow> nat \<Rightarrow> 'e list \<Rightarrow> 'e list option" where
  "insertion_outer compar i 0 arr = Some arr"
| "insertion_outer compar i (Suc k) arr =
     arr_get arr i \<bind>
     (\<lambda>key. insertion_inner compar key i arr \<bind>
       (\<lambda>(j, arr). (if j \<noteq> i then arr_set j key arr else Some arr) \<bind> insertion_outer compar (i + 1) k))"

text \<open>\<open>custom\<close> says whether the allocator is not NULL: only then the buffer on the C stack is not used.\<close>

definition insertion_sort_impl ::
    "('e list \<Rightarrow> bool) \<Rightarrow> bool \<Rightarrow> 'e list option \<Rightarrow> nat \<Rightarrow> nat \<Rightarrow> ('e \<Rightarrow> 'e \<Rightarrow> int) option \<Rightarrow> 'e list option option" where
  "insertion_sort_impl key_alloc custom base nmemb sz compar =
     (case (base, compar) of
        (Some arr, Some c) \<Rightarrow>
          if nmemb \<le> 1 \<or> sz = 0 then Some base
          else if \<not> (if custom then key_alloc arr else sz \<le> 128 \<or> key_alloc arr) then Some base
          else insertion_outer c 1 (nmemb - 1) arr \<bind> (\<lambda>arr. Some (Some arr))
      | _ \<Rightarrow> Some base)"

definition cobalt_insertion_sort ::
    "('e list \<Rightarrow> bool) \<Rightarrow> 'e list option \<Rightarrow> nat \<Rightarrow> nat \<Rightarrow> ('e \<Rightarrow> 'e \<Rightarrow> int) option \<Rightarrow> 'e list option option" where
  "cobalt_insertion_sort key_alloc base nmemb sz compar =
     insertion_sort_impl key_alloc False base nmemb sz compar"

definition cobalt_insertion_sort_with_alloc ::
    "('e list \<Rightarrow> bool) \<Rightarrow> 'e list option \<Rightarrow> nat \<Rightarrow> nat \<Rightarrow> ('e \<Rightarrow> 'e \<Rightarrow> int) option \<Rightarrow> 'e list option option" where
  "cobalt_insertion_sort_with_alloc key_alloc base nmemb sz compar =
     insertion_sort_impl key_alloc True base nmemb sz compar"

subsection \<open>Partition\<close>

function partition_loop ::
    "('e \<Rightarrow> 'e \<Rightarrow> int) \<Rightarrow> 'e \<Rightarrow> nat \<Rightarrow> nat \<Rightarrow> 'e list \<Rightarrow> (nat \<times> 'e list) option" where
  "partition_loop compar pivot left right arr =
     (if left < right then
        arr_get arr left \<bind>
        (\<lambda>x. if compar x pivot < 0 then partition_loop compar pivot (left + 1) right arr
             else
               (if left \<noteq> right - 1 then arr_swap left (right - 1) arr else Some arr) \<bind>
               (\<lambda>arr. partition_loop compar pivot left (right - 1) arr))
      else Some (left, arr))"
  by pat_completeness auto
termination
  by (relation "measure (\<lambda>(_, _, l, r, _). r - l)") auto

text \<open>\<open>alloc\<close> is \<open>None\<close> for a NULL allocator and otherwise the answer to the allocation it makes.\<close>

definition partition_impl ::
    "bool option \<Rightarrow> 'e list option \<Rightarrow> nat \<Rightarrow> nat \<Rightarrow> 'e option \<Rightarrow> ('e \<Rightarrow> 'e \<Rightarrow> int) option \<Rightarrow>
     (nat \<times> 'e list option) option" where
  "partition_impl alloc base nmemb sz pivot compar =
     (case (base, pivot, compar) of
        (Some arr, Some p, Some c) \<Rightarrow>
          if nmemb = 0 \<or> sz = 0 then Some (0, base)
          else if alloc = Some False then Some (0, base)
          else partition_loop c p 0 nmemb arr \<bind> (\<lambda>(left, arr). Some (left, Some arr))
      | _ \<Rightarrow> Some (0, base))"

definition cobalt_partition ::
    "'e list option \<Rightarrow> nat \<Rightarrow> nat \<Rightarrow> 'e option \<Rightarrow> ('e \<Rightarrow> 'e \<Rightarrow> int) option \<Rightarrow> (nat \<times> 'e list option) option" where
  "cobalt_partition base nmemb sz pivot compar = partition_impl None base nmemb sz pivot compar"

definition cobalt_partition_with_alloc ::
    "bool option \<Rightarrow> 'e list option \<Rightarrow> nat \<Rightarrow> nat \<Rightarrow> 'e option \<Rightarrow> ('e \<Rightarrow> 'e \<Rightarrow> int) option \<Rightarrow>
     (nat \<times> 'e list option) option" where
  "cobalt_partition_with_alloc alloc base nmemb sz pivot compar = partition_impl alloc base nmemb sz pivot compar"

subsection \<open>Pattern-defeating quicksort\<close>

fun pdq_log2 :: "nat \<Rightarrow> nat" where
  "pdq_log2 n = (if n div 2 = 0 then 0 else Suc (pdq_log2 (n div 2)))"

definition pdq_median3 :: "('e \<Rightarrow> 'e \<Rightarrow> int) \<Rightarrow> 'e list \<Rightarrow> nat \<Rightarrow> nat \<Rightarrow> nat \<Rightarrow> nat option" where
  "pdq_median3 compar arr a b c =
     arr_get arr a \<bind> (\<lambda>pa. arr_get arr b \<bind> (\<lambda>pb. arr_get arr c \<bind> (\<lambda>pc.
       Some (if compar pa pb < 0 then
               if compar pb pc < 0 then b else if compar pa pc < 0 then c else a
             else if compar pa pc < 0 then a
             else if compar pb pc < 0 then c else b))))"

definition pdq_ninther :: "('e \<Rightarrow> 'e \<Rightarrow> int) \<Rightarrow> 'e list \<Rightarrow> nat \<Rightarrow> nat option" where
  "pdq_ninther compar arr nmemb =
     (let s = nmemb div 8; mid = nmemb div 2 in
      pdq_median3 compar arr 0 s (2 * s) \<bind> (\<lambda>m1.
      pdq_median3 compar arr (mid - s) mid (mid + s) \<bind> (\<lambda>m2.
      pdq_median3 compar arr (nmemb - 1 - 2 * s) (nmemb - 1 - s) (nmemb - 1) \<bind> (\<lambda>m3.
      pdq_median3 compar arr m1 m2 m3))))"

text \<open>The three-way partition \<open>while (i <= gt)\<close>; the decrement of \<open>gt\<close> is the one of a \<open>size_t\<close>.\<close>

partial_function (option) pdq_partition ::
    "('e \<Rightarrow> 'e \<Rightarrow> int) \<Rightarrow> nat \<Rightarrow> nat \<Rightarrow> nat \<Rightarrow> 'e list \<Rightarrow> (nat \<times> nat \<times> 'e list) option" where
  "pdq_partition compar lt i gt arr =
     (if i \<le> gt then
        arr_get arr i \<bind>
        (\<lambda>x. arr_get arr lt \<bind>
          (\<lambda>p. if compar x p < 0 then
                 arr_swap lt i arr \<bind> (\<lambda>arr. pdq_partition compar (lt + 1) (i + 1) gt arr)
               else if compar x p > 0 then
                 arr_swap i gt arr \<bind> (\<lambda>arr. pdq_partition compar lt i (szt_dec gt) arr)
               else pdq_partition compar lt (i + 1) gt arr))
      else Some (lt, gt, arr))"

partial_function (option) pdqsort_loop ::
    "('e list \<Rightarrow> bool) \<Rightarrow> 'e list \<Rightarrow> nat \<Rightarrow> nat \<Rightarrow> ('e \<Rightarrow> 'e \<Rightarrow> int) \<Rightarrow> int \<Rightarrow> 'e list option" where
  "pdqsort_loop key_alloc arr nmemb sz compar bad_allowed =
     (if 24 < nmemb then
        if bad_allowed \<le> 0 then cobalt_heapsort_impl arr nmemb compar
        else
          (if 128 < nmemb then pdq_ninther compar arr nmemb
           else pdq_median3 compar arr 0 (nmemb div 2) (nmemb - 1)) \<bind>
          (\<lambda>pivot_idx. (if pivot_idx \<noteq> 0 then arr_swap 0 pivot_idx arr else Some arr) \<bind>
          (\<lambda>arr. pdq_partition compar 0 1 (nmemb - 1) arr \<bind>
          (\<lambda>(lt, gt, arr).
             let left_size = lt; right_size = nmemb - (gt + 1);
                 bad_allowed = (if left_size < nmemb div 8 \<or> right_size < nmemb div 8
                                then bad_allowed - 1 else bad_allowed) in
             if left_size < right_size then
               (if 1 < left_size then pdqsort_loop key_alloc arr left_size sz compar bad_allowed
                else Some arr) \<bind>
               (\<lambda>arr. pdqsort_loop key_alloc (drop (gt + 1) arr) right_size sz compar bad_allowed \<bind>
                 (\<lambda>r. Some (take (gt + 1) arr @ r)))
             else
               (if 1 < right_size then
                  pdqsort_loop key_alloc (drop (gt + 1) arr) right_size sz compar bad_allowed \<bind>
                  (\<lambda>r. Some (take (gt + 1) arr @ r))
                else Some arr) \<bind>
               (\<lambda>arr. pdqsort_loop key_alloc arr left_size sz compar bad_allowed))))
      else insertion_sort_impl key_alloc False (Some arr) nmemb sz (Some compar) \<bind> (\<lambda>r. r))"

definition cobalt_qsort ::
    "('e list \<Rightarrow> bool) \<Rightarrow> 'e list option \<Rightarrow> nat \<Rightarrow> nat \<Rightarrow> ('e \<Rightarrow> 'e \<Rightarrow> int) option \<Rightarrow> 'e list option option" where
  "cobalt_qsort key_alloc base nmemb sz compar =
     (case (base, compar) of
        (Some arr, Some c) \<Rightarrow>
          if nmemb \<le> 1 \<or> sz = 0 then Some base
          else pdqsort_loop key_alloc arr nmemb sz c (int (2 * pdq_log2 nmemb)) \<bind> (\<lambda>arr. Some (Some arr))
      | _ \<Rightarrow> Some base)"

definition cobalt_list_sort ::
    "nat option option \<Rightarrow> ('a option \<Rightarrow> 'a option \<Rightarrow> int) option \<Rightarrow> 'a dnode heap \<Rightarrow>
     (nat option option \<times> 'a dnode heap) option" where
  "cobalt_list_sort head compar h =
     (if head = None \<or> compar = None then Some (head, h) else cobalt_list_merge_sort head compar h)"

subsection \<open>Adaptive merge sort\<close>

record run_t =
  run_start :: nat
  run_len :: nat

function reverse_loop :: "nat \<Rightarrow> nat \<Rightarrow> 'e list \<Rightarrow> 'e list option" where
  "reverse_loop left right arr =
     (if left < right then arr_swap left right arr \<bind> reverse_loop (left + 1) (right - 1) else Some arr)"
  by pat_completeness auto
termination
  by (relation "measure (\<lambda>(l, r, _). r - l)") auto

definition reverse_run :: "'e list \<Rightarrow> nat \<Rightarrow> 'e list option" where
  "reverse_run arr len = (if len \<le> 1 then Some arr else reverse_loop 0 (len - 1) arr)"

text \<open>
  The two merge loops of \<open>merge_runs\<close>. The run \<open>A\<close> starts at \<open>s\<close> and has \<open>a_len\<close> elements, the run \<open>B\<close>
  follows it. The forward loop reads \<open>A\<close> from the scratch buffer, the backward loop reads \<open>B\<close> from it.
\<close>

function merge_forward ::
    "('e \<Rightarrow> 'e \<Rightarrow> int) \<Rightarrow> 'e list \<Rightarrow> nat \<Rightarrow> nat \<Rightarrow> nat \<Rightarrow> nat \<Rightarrow> nat \<Rightarrow> nat \<Rightarrow> 'e list \<Rightarrow>
     (nat \<times> nat \<times> 'e list) option" where
  "merge_forward compar scratch s a_len b_len i j dest arr =
     (if i < a_len \<and> j < b_len then
        arr_get scratch i \<bind>
        (\<lambda>x. arr_get arr (s + a_len + j) \<bind>
          (\<lambda>y. if compar x y \<le> 0 then
                 arr_set (s + dest) x arr \<bind> merge_forward compar scratch s a_len b_len (i + 1) j (dest + 1)
               else
                 arr_set (s + dest) y arr \<bind> merge_forward compar scratch s a_len b_len i (j + 1) (dest + 1)))
      else Some (i, dest, arr))"
  by pat_completeness auto
termination
  by (relation "measure (\<lambda>(_, _, _, a, b, i, j, _, _). (a - i) + (b - j))") auto

function merge_backward ::
    "('e \<Rightarrow> 'e \<Rightarrow> int) \<Rightarrow> 'e list \<Rightarrow> nat \<Rightarrow> nat \<Rightarrow> nat \<Rightarrow> nat \<Rightarrow> 'e list \<Rightarrow> (nat \<times> 'e list) option" where
  "merge_backward compar scratch s i j dest arr =
     (if 0 < i \<and> 0 < j then
        arr_get arr (s + (i - 1)) \<bind>
        (\<lambda>x. arr_get scratch (j - 1) \<bind>
          (\<lambda>y. if compar x y > 0 then
                 arr_set (s + (dest - 1)) x arr \<bind> merge_backward compar scratch s (i - 1) j (dest - 1)
               else
                 arr_set (s + (dest - 1)) y arr \<bind> merge_backward compar scratch s i (j - 1) (dest - 1)))
      else Some (j, arr))"
  by pat_completeness auto
termination
  by (relation "measure (\<lambda>(_, _, _, i, j, _, _). i + j)") auto

definition merge_runs ::
    "('e \<Rightarrow> 'e \<Rightarrow> int) \<Rightarrow> nat \<Rightarrow> nat \<Rightarrow> nat \<Rightarrow> 'e list \<times> 'e list \<Rightarrow> ('e list \<times> 'e list) option" where
  "merge_runs compar a_start a_len b_len st = (let (arr, scratch) = st in
     if a_len \<le> b_len then
       arr_copy 0 arr a_start a_len scratch \<bind>
       (\<lambda>scratch. merge_forward compar scratch a_start a_len b_len 0 0 0 arr \<bind>
         (\<lambda>(i, dest, arr).
            (if i < a_len then arr_copy (a_start + dest) scratch i (a_len - i) arr else Some arr) \<bind>
            (\<lambda>arr. Some (arr, scratch))))
     else
       arr_copy 0 arr (a_start + a_len) b_len scratch \<bind>
       (\<lambda>scratch. merge_backward compar scratch a_start a_len b_len (a_len + b_len) arr \<bind>
         (\<lambda>(j, arr).
            (if 0 < j then arr_copy a_start scratch 0 j arr else Some arr) \<bind>
            (\<lambda>arr. Some (arr, scratch)))))"

text \<open>The loops that extend a run of length \<open>len\<close> at \<open>from\<close>, strictly descending or non-descending.\<close>

function extend_run ::
    "('e \<Rightarrow> 'e \<Rightarrow> int) \<Rightarrow> bool \<Rightarrow> nat \<Rightarrow> nat \<Rightarrow> nat \<Rightarrow> 'e list \<Rightarrow> nat option" where
  "extend_run compar desc nmemb from len arr =
     (if from + len < nmemb then
        arr_get arr (from + len - 1) \<bind>
        (\<lambda>x. arr_get arr (from + len) \<bind>
          (\<lambda>y. if (if desc then compar x y > 0 else compar x y \<le> 0)
               then extend_run compar desc nmemb from (len + 1) arr else Some len))
      else Some len)"
  by pat_completeness auto
termination
  by (relation "measure (\<lambda>(_, _, n, f, l, _). n - (f + l))") auto

definition natural_run ::
    "('e \<Rightarrow> 'e \<Rightarrow> int) \<Rightarrow> nat \<Rightarrow> nat \<Rightarrow> 'e list \<Rightarrow> (nat \<times> 'e list) option" where
  "natural_run compar nmemb from arr =
     (if from + 1 < nmemb then
        arr_get arr from \<bind>
        (\<lambda>x. arr_get arr (from + 1) \<bind>
          (\<lambda>y. if compar x y > 0 then
                 extend_run compar True nmemb from 2 arr \<bind>
                 (\<lambda>len. reverse_run (drop from arr) len \<bind> (\<lambda>r. Some (len, take from arr @ r)))
               else extend_run compar False nmemb from 2 arr \<bind> (\<lambda>len. Some (len, arr))))
      else Some (1, arr))"

definition extend_short_run ::
    "('e list \<Rightarrow> bool) \<Rightarrow> bool \<Rightarrow> nat \<Rightarrow> ('e \<Rightarrow> 'e \<Rightarrow> int) \<Rightarrow> nat \<Rightarrow> nat \<Rightarrow> nat \<times> 'e list \<Rightarrow> (nat \<times> 'e list) option" where
  "extend_short_run key_alloc custom sz compar nmemb from st = (let (len, arr) = st in
     if len < 16 \<and> from + len < nmemb then
       let force_len = nmemb - from; force_len = (if 16 < force_len then 16 else force_len) in
       insertion_sort_impl key_alloc custom (Some (drop from arr)) force_len sz (Some compar) \<bind>
       (\<lambda>r. r \<bind> (\<lambda>r. Some (force_len, take from arr @ r)))
     else Some (len, arr))"

text \<open>
  The stack of pending runs, top first. Merging its two top runs, or the two below the top one.
\<close>

definition merge_top ::
    "('e \<Rightarrow> 'e \<Rightarrow> int) \<Rightarrow> run_t \<Rightarrow> run_t \<Rightarrow> 'e list \<times> 'e list \<Rightarrow> (run_t \<times> 'e list \<times> 'e list) option" where
  "merge_top compar b a st =
     merge_runs compar (run_start a) (run_len a) (run_len b) st \<bind>
     (\<lambda>st. Some (a\<lparr>run_len := run_len a + run_len b\<rparr>, st))"

function spill_stack ::
    "('e \<Rightarrow> 'e \<Rightarrow> int) \<Rightarrow> run_t list \<Rightarrow> 'e list \<times> 'e list \<Rightarrow> (run_t list \<times> 'e list \<times> 'e list) option" where
  "spill_stack compar stack st =
     (case stack of
        r2 # r1 # rs \<Rightarrow>
          if 64 \<le> length stack then merge_top compar r2 r1 st \<bind> (\<lambda>(r, st). spill_stack compar (r # rs) st)
          else Some (stack, st)
      | _ \<Rightarrow> Some (stack, st))"
  by pat_completeness auto
termination
  by (relation "measure (\<lambda>(_, stack, _). length stack)") auto

function merge_balance ::
    "('e \<Rightarrow> 'e \<Rightarrow> int) \<Rightarrow> run_t list \<Rightarrow> 'e list \<times> 'e list \<Rightarrow> (run_t list \<times> 'e list \<times> 'e list) option" where
  "merge_balance compar stack st =
     (case stack of
        r2 # r1 # r0 # rs \<Rightarrow>
          if run_len r0 \<le> run_len r1 + run_len r2 then
            if run_len r0 < run_len r2 then
              merge_top compar r1 r0 st \<bind> (\<lambda>(r, st). merge_balance compar (r2 # r # rs) st)
            else merge_top compar r2 r1 st \<bind> (\<lambda>(r, st). merge_balance compar (r # r0 # rs) st)
          else if run_len r1 \<le> run_len r2 then
            merge_top compar r2 r1 st \<bind> (\<lambda>(r, st). merge_balance compar (r # r0 # rs) st)
          else Some (stack, st)
      | [r2, r1] \<Rightarrow>
          if run_len r1 \<le> run_len r2 then
            merge_top compar r2 r1 st \<bind> (\<lambda>(r, st). merge_balance compar [r] st)
          else Some (stack, st)
      | _ \<Rightarrow> Some (stack, st))"
  by pat_completeness auto
termination
  by (relation "measure (\<lambda>(_, stack, _). length stack)") auto

function unwind_runs ::
    "('e \<Rightarrow> 'e \<Rightarrow> int) \<Rightarrow> run_t list \<Rightarrow> 'e list \<times> 'e list \<Rightarrow> (run_t list \<times> 'e list \<times> 'e list) option" where
  "unwind_runs compar stack st =
     (case stack of
        r2 # r1 # r0 # rs \<Rightarrow>
          if run_len r0 < run_len r2 then
            merge_top compar r1 r0 st \<bind> (\<lambda>(r, st). unwind_runs compar (r2 # r # rs) st)
          else merge_top compar r2 r1 st \<bind> (\<lambda>(r, st). unwind_runs compar (r # r0 # rs) st)
      | [r2, r1] \<Rightarrow> merge_top compar r2 r1 st \<bind> (\<lambda>(r, st). unwind_runs compar [r] st)
      | _ \<Rightarrow> Some (stack, st))"
  by pat_completeness auto
termination
  by (relation "measure (\<lambda>(_, stack, _). length stack)") auto

partial_function (option) collect_runs ::
    "('e list \<Rightarrow> bool) \<Rightarrow> bool \<Rightarrow> nat \<Rightarrow> ('e \<Rightarrow> 'e \<Rightarrow> int) \<Rightarrow> nat \<Rightarrow> nat \<Rightarrow> run_t list \<Rightarrow> 'e list \<times> 'e list \<Rightarrow>
     (run_t list \<times> 'e list \<times> 'e list) option" where
  "collect_runs key_alloc custom sz compar nmemb from stack st =
     (if from < nmemb then
        natural_run compar nmemb from (fst st) \<bind>
        (\<lambda>r. extend_short_run key_alloc custom sz compar nmemb from r \<bind>
        (\<lambda>(len, arr). spill_stack compar stack (arr, snd st) \<bind>
        (\<lambda>(stack, st).
           merge_balance compar
             (if length stack < 64 then \<lparr>run_start = from, run_len = len\<rparr> # stack else stack) st \<bind>
        (\<lambda>(stack, st). collect_runs key_alloc custom sz compar nmemb (from + len) stack st))))
      else Some (stack, st))"

definition adaptive_merge_sort ::
    "('e list \<Rightarrow> bool) \<Rightarrow> (nat \<Rightarrow> 'e) option \<Rightarrow> bool \<Rightarrow> 'e list \<Rightarrow> nat \<Rightarrow> nat \<Rightarrow> ('e \<Rightarrow> 'e \<Rightarrow> int) \<Rightarrow> 'e list option" where
  "adaptive_merge_sort key_alloc scratch custom arr nmemb sz compar =
     (if nmemb \<le> 24 then insertion_sort_impl key_alloc custom (Some arr) nmemb sz (Some compar) \<bind> (\<lambda>r. r)
      else
        let max_run_len = nmemb div 2 + nmemb mod 2 in
        (case scratch of
           None \<Rightarrow> insertion_sort_impl key_alloc custom (Some arr) nmemb sz (Some compar) \<bind> (\<lambda>r. r)
         | Some junk \<Rightarrow>
             collect_runs key_alloc custom sz compar nmemb 0 [] (arr, map junk [0..<max_run_len]) \<bind>
             (\<lambda>(stack, st). unwind_runs compar stack st \<bind> (\<lambda>(stack, arr, _). Some arr))))"

definition cobalt_stable_sort ::
    "('e list \<Rightarrow> bool) \<Rightarrow> (nat \<Rightarrow> 'e) option \<Rightarrow> 'e list option \<Rightarrow> nat \<Rightarrow> nat \<Rightarrow> ('e \<Rightarrow> 'e \<Rightarrow> int) option \<Rightarrow>
     'e list option option" where
  "cobalt_stable_sort key_alloc scratch base nmemb sz compar =
     (case (base, compar) of
        (Some arr, Some c) \<Rightarrow>
          if nmemb \<le> 1 \<or> sz = 0 then Some base
          else adaptive_merge_sort key_alloc scratch False arr nmemb sz c \<bind> (\<lambda>arr. Some (Some arr))
      | _ \<Rightarrow> Some base)"

definition cobalt_stable_sort_with_alloc ::
    "('e list \<Rightarrow> bool) \<Rightarrow> (nat \<Rightarrow> 'e) option \<Rightarrow> 'e list option \<Rightarrow> nat \<Rightarrow> nat \<Rightarrow> ('e \<Rightarrow> 'e \<Rightarrow> int) option \<Rightarrow>
     'e list option option" where
  "cobalt_stable_sort_with_alloc key_alloc scratch base nmemb sz compar =
     (case (base, compar) of
        (Some arr, Some c) \<Rightarrow>
          if nmemb \<le> 1 \<or> sz = 0 then Some base
          else adaptive_merge_sort key_alloc scratch True arr nmemb sz c \<bind> (\<lambda>arr. Some (Some arr))
      | _ \<Rightarrow> Some base)"

subsection \<open>Removing adjacent duplicates\<close>

fun unique_loop :: "('e \<Rightarrow> 'e \<Rightarrow> int) \<Rightarrow> nat \<Rightarrow> nat \<Rightarrow> nat \<Rightarrow> 'e list \<Rightarrow> (nat \<times> 'e list) option" where
  "unique_loop compar wr i 0 arr = Some (wr, arr)"
| "unique_loop compar wr i (Suc k) arr =
     arr_get arr i \<bind>
     (\<lambda>x. arr_get arr (i - 1) \<bind>
       (\<lambda>y. if compar x y \<noteq> 0 then
              (if wr \<noteq> i then arr_set wr x arr else Some arr) \<bind> unique_loop compar (wr + 1) (i + 1) k
            else unique_loop compar wr (i + 1) k arr))"

definition cobalt_unique ::
    "'e list option \<Rightarrow> nat option \<Rightarrow> ('e \<Rightarrow> 'e \<Rightarrow> int) option \<Rightarrow> (nat \<times> nat option \<times> 'e list option) option" where
  "cobalt_unique base nmemb compar =
     (case (base, nmemb, compar) of
        (Some arr, Some n, Some c) \<Rightarrow>
          if n \<le> 1 then Some (n, nmemb, base)
          else unique_loop c 1 1 (n - 1) arr \<bind> (\<lambda>(wr, arr). Some (wr, Some wr, Some arr))
      | _ \<Rightarrow> Some (case nmemb of Some n \<Rightarrow> n | None \<Rightarrow> 0, nmemb, base))"

declare pdq_partition.simps [code] pdqsort_loop.simps [code] collect_runs.simps [code]
declare heapsort_sift_down.simps [simp del] partition_loop.simps [simp del] pdq_log2.simps [simp del]
declare reverse_loop.simps [simp del] merge_forward.simps [simp del] merge_backward.simps [simp del]
declare extend_run.simps [simp del] spill_stack.simps [simp del] merge_balance.simps [simp del]
declare unwind_runs.simps [simp del]

end
