(* ===== verification/Cobalt_Sort_Lemmas.thy ===== *)
theory Cobalt_Sort_Lemmas
  imports Cobalt_Sort
begin

section \<open>The building blocks of the sorting routines\<close>

text \<open>
  Insertion sort, heap sort, quicksort and the merge of two runs of \<open>Cobalt_Sort\<close>, each shown to end
  inside the array. The facts about order are proved under the contract \<open>comparator\<close>.
\<close>

subsection \<open>Insertion sort\<close>

text \<open>
  After the inner loop the sorted elements \<open>ys\<close> are split into those that stay and those, greater than
  the key, that moved one place to the right; \<open>d\<close> is what is left in the gap.
\<close>

lemma insertion_inner_ok:
  "\<exists>keep suf d. ys = keep @ suf \<and> (\<forall>x\<in>set suf. 0 < cmp x key) \<and> (keep \<noteq> [] \<longrightarrow> cmp (last keep) key \<le> 0) \<and>
     insertion_inner cmp key (length ys) (ys @ c # zs) = Some (length keep, keep @ d # suf @ zs) \<and>
     (suf = [] \<longrightarrow> d = c)"
proof (induction ys arbitrary: c zs rule: rev_induct)
  case Nil
  then show ?case by (auto intro: exI [of _ "[]"])
next
  case (snoc y ys)
  have get: "arr_get (ys @ y # c # zs) (length ys) = Some y" by simp
  show ?case
  proof (cases "0 < cmp y key")
    case True
    obtain keep suf d where ih: "ys = keep @ suf" "\<forall>x\<in>set suf. 0 < cmp x key" "keep \<noteq> [] \<longrightarrow> cmp (last keep) key \<le> 0"
      "insertion_inner cmp key (length ys) (ys @ y # y # zs) = Some (length keep, keep @ d # suf @ y # zs)"
      using snoc.IH [of y "y # zs"] by blast
    have "insertion_inner cmp key (length (ys @ [y])) ((ys @ [y]) @ c # zs) = Some (length keep, keep @ d # (suf @ [y]) @ zs)"
      using get True ih(4) by (simp add: list_update_append)
    then show ?thesis using ih(1-3) True by (intro exI [of _ keep] exI [of _ "suf @ [y]"] exI [of _ d]) auto
  next
    case False
    then show ?thesis using get by (intro exI [of _ "ys @ [y]"] exI [of _ "[]"] exI [of _ c]) simp
  qed
qed

context comparator
begin

lemma merge_by_single:
  "\<forall>x\<in>set keep. cmp x key \<le> 0 \<Longrightarrow> \<forall>x\<in>set suf. 0 < cmp x key \<Longrightarrow> merge_by cmp (keep @ suf) [key] = keep @ key # suf"
proof (induction keep)
  case Nil
  then show ?case by (cases suf) auto
next
  case (Cons x keep)
  then show ?case by (cases "keep @ suf") auto
qed

lemma insertion_step:
  assumes "cmp_sorted cmp ys" "arr = ys @ key # zs"
  shows "(arr_get arr (length ys) \<bind>
     (\<lambda>key. insertion_inner cmp key (length ys) arr \<bind>
       (\<lambda>(j, arr). (if j \<noteq> length ys then arr_set j key arr else Some arr) \<bind> f))) = f (merge_by cmp ys [key] @ zs)"
proof -
  obtain keep suf d where i: "ys = keep @ suf" "\<forall>x\<in>set suf. 0 < cmp x key" "keep \<noteq> [] \<longrightarrow> cmp (last keep) key \<le> 0"
    "insertion_inner cmp key (length ys) (ys @ key # zs) = Some (length keep, keep @ d # suf @ zs)" "suf = [] \<longrightarrow> d = key"
    using insertion_inner_ok [of ys cmp key key zs] by blast
  have "\<forall>x\<in>set keep. cmp x key \<le> 0"
  proof
    fix x assume x: "x \<in> set keep"
    then have "keep = butlast keep @ [last keep]" by (cases keep) auto
    moreover have "cmp_sorted cmp keep" using assms(1) i(1) by simp
    ultimately have "cmp x (last keep) \<le> 0" using x cmp_refl
      by (metis Un_iff cmp_sorted_simps(4) list.set_intros(1) order.refl set_ConsD set_append empty_iff list.set(1))
    then show "cmp x key \<le> 0" using i(3) x cmp_trans by (metis list.set(1) empty_iff)
  qed
  with i(1,2) have m: "merge_by cmp ys [key] = keep @ key # suf" using merge_by_single by simp
  show ?thesis using i assms(2) m by (cases "suf = []") (simp_all add: list_update_append)
qed

lemma insertion_outer_ok:
  "stable_sort cmp os ys \<Longrightarrow>
   \<exists>ys'. insertion_outer cmp (length ys) (length xs) (ys @ xs @ zs) = Some (ys' @ zs) \<and> stable_sort cmp (os @ xs) ys'"
proof (induction xs arbitrary: os ys)
  case Nil
  then show ?case by auto
next
  case (Cons x xs)
  have sorted: "cmp_sorted cmp ys" using Cons.prems by (simp add: stable_sort_def)
  let ?ys = "merge_by cmp ys [x]"
  have "insertion_outer cmp (length ys) (length (x # xs)) (ys @ (x # xs) @ zs) =
      insertion_outer cmp (length ys + 1) (length xs) (?ys @ xs @ zs)"
    using insertion_step [OF sorted, of "ys @ x # xs @ zs" x "xs @ zs"] by simp
  moreover have "stable_sort cmp (os @ [x]) ?ys"
    by (rule stable_sort_merge [OF Cons.prems stable_sort_short]) simp
  from Cons.IH [OF this] obtain ys' where
    "insertion_outer cmp (length ?ys) (length xs) (?ys @ xs @ zs) = Some (ys' @ zs)" "stable_sort cmp (os @ x # xs) ys'"
    by auto
  ultimately show ?case by auto
qed

lemma insertion_ref:
  assumes "1 \<le> n" "n \<le> length arr"
  shows "insertion_outer cmp 1 (n - 1) arr = Some (ref_sort cmp (take n arr) @ drop n arr)"
proof -
  obtain x xs where t: "take n arr = x # xs" "length xs = n - 1" using assms
    by (metis Suc_diff_le diff_Suc_1 length_Suc_conv length_take min.absorb2 not_less_eq_eq One_nat_def diff_Suc_Suc le_add_diff_inverse plus_1_eq_Suc)
  have arr: "arr = [x] @ xs @ drop n arr" using t(1) append_take_drop_id [of n arr] by simp
  from insertion_outer_ok [OF stable_sort_short [of "[x]"], of xs "drop n arr"] arr t(2)
  obtain ys where "insertion_outer cmp 1 (n - 1) arr = Some (ys @ drop n arr)" "stable_sort cmp (x # xs) ys"
    by auto
  then show ?thesis using t(1) stable_sort_is_ref by simp
qed

end

definition key_ok :: "('e list \<Rightarrow> bool) \<Rightarrow> bool \<Rightarrow> nat \<Rightarrow> 'e list \<Rightarrow> bool" where
  "key_ok key_alloc custom sz arr \<longleftrightarrow> (if custom then key_alloc arr else sz \<le> 128 \<or> key_alloc arr)"

lemma ref_sort_short: "length xs \<le> 1 \<Longrightarrow> ref_sort cmp xs = xs"
  by (cases xs) (auto simp: ref_sort_def)

lemma insertion_sort_impl_eq:
  assumes "comparator cmp" "n \<le> length arr" "0 < sz"
  shows "insertion_sort_impl ka custom (Some arr) n sz (Some cmp) =
    Some (Some (if key_ok ka custom sz arr then ref_sort cmp (take n arr) @ drop n arr else arr))"
proof (cases "n \<le> 1")
  case True
  then have "ref_sort cmp (take n arr) = take n arr" by (intro ref_sort_short) simp
  with True show ?thesis by (simp add: insertion_sort_impl_def)
next
  case False
  then show ?thesis using comparator.insertion_ref [OF assms(1), of n arr] assms(2,3)
    by (simp add: insertion_sort_impl_def key_ok_def)
qed

lemma mset_ref_sort: "mset (ref_sort cmp xs) = mset xs"
proof (induction xs)
  case (Cons x xs)
  have "mset (insert_by cmp x ys) = add_mset x (mset ys)" for ys
    using mset_merge_by [of cmp "[x]" ys] by (simp add: insert_by_merge)
  with Cons show ?case by (simp add: ref_sort_def)
qed (simp add: ref_sort_def)

lemma length_ref_sort [simp]: "length (ref_sort cmp xs) = length xs"
  using mset_ref_sort [of cmp xs] by (metis size_mset)

subsection \<open>Heap sort\<close>

definition parent :: "nat \<Rightarrow> nat" where
  "parent j = (j - 1) div 2"

text \<open>Every position from \<open>lo\<close> on is not below its children among the first \<open>cnt\<close> elements.\<close>

definition heap_from :: "('e \<Rightarrow> 'e \<Rightarrow> int) \<Rightarrow> nat \<Rightarrow> nat \<Rightarrow> 'e list \<Rightarrow> bool" where
  "heap_from cmp lo cnt arr \<longleftrightarrow>
     (\<forall>j. 0 < j \<longrightarrow> j < cnt \<longrightarrow> lo \<le> parent j \<longrightarrow> cmp (arr ! j) (arr ! parent j) \<le> 0)"

text \<open>The same but for the children of \<open>root\<close>, which are not above the parent of \<open>root\<close>.\<close>

definition heap_but :: "('e \<Rightarrow> 'e \<Rightarrow> int) \<Rightarrow> nat \<Rightarrow> nat \<Rightarrow> nat \<Rightarrow> 'e list \<Rightarrow> bool" where
  "heap_but cmp lo root cnt arr \<longleftrightarrow>
     (\<forall>j. 0 < j \<longrightarrow> j < cnt \<longrightarrow> lo \<le> parent j \<longrightarrow> parent j \<noteq> root \<longrightarrow> cmp (arr ! j) (arr ! parent j) \<le> 0) \<and>
     (\<forall>j. 0 < j \<longrightarrow> j < cnt \<longrightarrow> parent j = root \<longrightarrow> 0 < root \<longrightarrow> lo \<le> parent root \<longrightarrow>
        cmp (arr ! j) (arr ! parent root) \<le> 0)"

definition tail_sorted :: "('e \<Rightarrow> 'e \<Rightarrow> int) \<Rightarrow> nat \<Rightarrow> nat \<Rightarrow> 'e list \<Rightarrow> bool" where
  "tail_sorted cmp i n arr \<longleftrightarrow> (\<forall>j k. j < k \<longrightarrow> k < n \<longrightarrow> i < k \<longrightarrow> cmp (arr ! j) (arr ! k) \<le> 0)"

lemma mset_take_eq: "mset xs = mset ys \<Longrightarrow> drop n xs = drop n ys \<Longrightarrow> mset (take n xs) = mset (take n ys)"
  by (metis add_right_cancel append_take_drop_id mset_append)

lemma parent_child: "0 < j \<Longrightarrow> parent j = r \<longleftrightarrow> j = 2 * r + 1 \<or> j = 2 * r + 2"
  by (auto simp: parent_def)

lemma parent_less: "0 < j \<Longrightarrow> parent j < j"
  by (auto simp: parent_def)

context comparator
begin

lemma sift_child_ok:
  assumes "root < cnt div 2" "cnt \<le> length arr"
  obtains child where "sift_child cmp root cnt arr = Some child" "child < cnt" "parent child = root" "0 < child"
    "\<forall>j. 0 < j \<longrightarrow> j < cnt \<longrightarrow> parent j = root \<longrightarrow> cmp (arr ! j) (arr ! child) \<le> 0"
proof -
  let ?c = "root * 2 + 1"
  have c: "?c < cnt" using assms(1) by linarith
  consider (right) "?c + 1 < cnt" "0 < cmp (arr ! (?c + 1)) (arr ! ?c)"
    | (left) "?c + 1 < cnt \<Longrightarrow> cmp (arr ! (?c + 1)) (arr ! ?c) \<le> 0" by linarith
  then show ?thesis
  proof cases
    case right
    have "cmp (arr ! ?c) (arr ! (?c + 1)) \<le> 0" using cmp_gt_le [OF right(2)] .
    then show ?thesis using right assms(2) c
      by (intro that [of "?c + 1"]) (auto simp: sift_child_def Let_def parent_child mult.commute)
  next
    case left
    then show ?thesis using assms(2) c
      by (intro that [of ?c]) (auto simp: sift_child_def Let_def parent_child mult.commute)
  qed
qed

lemma heap_but_swap:
  assumes hb: "heap_but cmp lo root cnt arr" and c: "parent child = root" "0 < child" "child < cnt"
    and len: "cnt \<le> length arr \<and> lo \<le> root"
    and mx: "\<forall>j. 0 < j \<longrightarrow> j < cnt \<longrightarrow> parent j = root \<longrightarrow> cmp (arr ! j) (arr ! child) \<le> 0"
    and gt: "0 < cmp (arr ! child) (arr ! root)"
  shows "heap_but cmp lo child cnt (arr[root := arr ! child, child := arr ! root])"
proof -
  let ?arr = "arr[root := arr ! child, child := arr ! root]"
  have rc: "root < child" using parent_less [OF c(2)] c(1) by simp
  have nth: "?arr ! j = (if j = child then arr ! root else if j = root then arr ! child else arr ! j)" if "j < cnt" for j
    using len c rc that by (simp add: nth_list_update)
  note h1 = hb [unfolded heap_but_def, THEN conjunct1, rule_format]
    and h2 = hb [unfolded heap_but_def, THEN conjunct2, rule_format]
  show ?thesis unfolding heap_but_def
  proof (intro conjI allI impI)
    fix j assume j: "0 < j" "j < cnt" "lo \<le> parent j" "parent j \<noteq> child"
    have pj: "parent j < cnt" using parent_less [OF j(1)] j(2) by simp
    consider "j = child" | "j = root" | "j \<noteq> child" "j \<noteq> root" "parent j = root" | "j \<noteq> child" "j \<noteq> root" "parent j \<noteq> root"
      by blast
    then show "cmp (?arr ! j) (?arr ! parent j) \<le> 0"
    proof cases
      case 1
      then show ?thesis using nth [OF j(2)] nth [OF pj] c(1) rc gt cmp_gt_le by simp
    next
      case 2
      then have "cmp (arr ! child) (arr ! parent root) \<le> 0" using h2 [OF c(2,3,1)] j by simp
      moreover have "parent root \<noteq> root" using parent_less [OF j(1)] 2 by simp
      ultimately show ?thesis using 2 nth [OF j(2)] nth [OF pj] rc j(4) by simp
    next
      case 3
      then show ?thesis using mx j nth [OF j(2)] nth [OF pj] rc by simp
    next
      case 4
      then show ?thesis using h1 [OF j(1-3)] nth [OF j(2)] nth [OF pj] j(4) by simp
    qed
  next
    fix j assume j: "0 < j" "j < cnt" "parent j = child" "0 < child" "lo \<le> parent child"
    have "child < j" using parent_less [OF j(1)] j(3) by simp
    then have "?arr ! j = arr ! j" using nth [OF j(2)] rc by simp
    moreover have "?arr ! parent child = arr ! child" using nth [of root] c rc by simp
    moreover have "cmp (arr ! j) (arr ! child) \<le> 0" using h1 [OF j(1,2)] j rc len c by simp
    ultimately show "cmp (?arr ! j) (?arr ! parent child) \<le> 0" by simp
  qed
qed

lemma sift_down_ok:
  "cnt \<le> length arr \<Longrightarrow> root < cnt \<Longrightarrow> lo \<le> root \<Longrightarrow> heap_but cmp lo root cnt arr \<Longrightarrow>
   \<exists>arr'. heapsort_sift_down cmp root cnt arr = Some arr' \<and> heap_from cmp lo cnt arr' \<and>
     mset arr' = mset arr \<and> (\<forall>j. cnt \<le> j \<longrightarrow> arr' ! j = arr ! j)"
proof (induction "cnt - root" arbitrary: root arr rule: less_induct)
  case less
  show ?case
  proof (cases "root < cnt div 2")
    case False
    then have "heap_from cmp lo cnt arr" using less.prems(4)
      by (auto simp: heap_from_def heap_but_def parent_def)
    with False show ?thesis by (simp add: heapsort_sift_down.simps)
  next
    case True
    obtain child where c: "sift_child cmp root cnt arr = Some child" "child < cnt" "parent child = root" "0 < child"
      "\<forall>j. 0 < j \<longrightarrow> j < cnt \<longrightarrow> parent j = root \<longrightarrow> cmp (arr ! j) (arr ! child) \<le> 0"
      by (rule sift_child_ok [OF True less.prems(1)])
    have rc: "root < child" using parent_less [OF c(4)] c(3) by simp
    show ?thesis
    proof (cases "0 < cmp (arr ! child) (arr ! root)")
      case False
      have "cmp (arr ! j) (arr ! root) \<le> 0" if "0 < j" "j < cnt" "parent j = root" for j
      proof -
        have "cmp (arr ! j) (arr ! child) \<le> 0" using c(5) that by blast
        then show ?thesis using False cmp_trans [of "arr ! j" "arr ! child" "arr ! root"] by simp
      qed
      then have "heap_from cmp lo cnt arr" using less.prems(4)
        unfolding heap_from_def heap_but_def by metis
      moreover have "heapsort_sift_down cmp root cnt arr = Some arr"
        using True False c less.prems by (subst heapsort_sift_down.simps) simp
      ultimately show ?thesis by simp
    next
      case gt: True
      let ?arr = "arr[root := arr ! child, child := arr ! root]"
      have hb: "heap_but cmp lo child cnt ?arr"
        by (rule heap_but_swap [OF less.prems(4) c(3,4,2) _ c(5) gt]) (use less.prems in auto)
      have step: "heapsort_sift_down cmp root cnt arr = heapsort_sift_down cmp child cnt ?arr"
        using True gt c less.prems by (subst heapsort_sift_down.simps) simp
      have "mset ?arr = mset arr" using mset_arr_swap [of root arr child] c less.prems by simp
      moreover have "\<forall>j. cnt \<le> j \<longrightarrow> ?arr ! j = arr ! j" using c less.prems by simp
      ultimately show ?thesis unfolding step
        using less.hyps [of child ?arr] less.prems rc c hb by auto
    qed
  qed
qed

lemma heapify_ok:
  "n \<le> length arr \<Longrightarrow> i \<le> n div 2 \<Longrightarrow> heap_from cmp i n arr \<Longrightarrow>
   \<exists>arr'. heapify_loop cmp n i arr = Some arr' \<and> heap_from cmp 0 n arr' \<and> mset arr' = mset arr \<and>
     (\<forall>j. n \<le> j \<longrightarrow> arr' ! j = arr ! j)"
proof (induction i arbitrary: arr)
  case 0
  then show ?case by simp
next
  case (Suc i)
  have i: "i < n" using Suc.prems(2) by linarith
  have "heap_but cmp i i n arr" using Suc.prems(3) parent_less [of i]
    unfolding heap_but_def heap_from_def by (metis Suc_leI le_antisym linorder_not_less)
  from sift_down_ok [OF Suc.prems(1) i _ this] obtain arr1 where a: "heapsort_sift_down cmp i n arr = Some arr1"
    "heap_from cmp i n arr1" "mset arr1 = mset arr" "\<forall>j. n \<le> j \<longrightarrow> arr1 ! j = arr ! j" by blast
  have "n \<le> length arr1" using a(3) Suc.prems(1) by (metis size_mset)
  from Suc.IH [OF this _ a(2)] Suc.prems(2) a show ?case by auto
qed

lemma heap_root_max: "heap_from cmp 0 cnt arr \<Longrightarrow> j < cnt \<Longrightarrow> cmp (arr ! j) (arr ! 0) \<le> 0"
proof (induction j rule: less_induct)
  case (less j)
  show ?case
  proof (cases "j = 0")
    case False
    then have p: "parent j < j" using parent_less by simp
    have "cmp (arr ! j) (arr ! parent j) \<le> 0" using less.prems False unfolding heap_from_def by simp
    moreover have "cmp (arr ! parent j) (arr ! 0) \<le> 0" using less.IH [OF p less.prems(1)] p less.prems(2) by simp
    ultimately show ?thesis using cmp_trans by blast
  qed simp
qed

lemma extract_ok:
  "i < n \<Longrightarrow> n \<le> length arr \<Longrightarrow> heap_from cmp 0 (Suc i) arr \<Longrightarrow> tail_sorted cmp i n arr \<Longrightarrow>
   \<exists>arr'. extract_loop cmp i arr = Some arr' \<and> tail_sorted cmp 0 n arr' \<and> mset arr' = mset arr \<and>
     (\<forall>j. n \<le> j \<longrightarrow> arr' ! j = arr ! j)"
proof (induction i arbitrary: arr)
  case 0
  then show ?case by simp
next
  case (Suc i)
  let ?a = "arr[0 := arr ! Suc i, Suc i := arr ! 0]"
  have nth: "?a ! j = (if j = 0 then arr ! Suc i else if j = Suc i then arr ! 0 else arr ! j)" for j
    using Suc.prems(1,2) by (cases "j < length arr") (auto simp: nth_list_update)
  have hb: "heap_but cmp 0 0 (Suc i) ?a"
    using Suc.prems(3) by (auto simp: heap_but_def heap_from_def nth parent_def)
  have ms: "mset ?a = mset arr" by (rule mset_arr_swap) (use Suc.prems(1,2) in linarith)+
  have len: "Suc i \<le> length ?a" using Suc.prems by simp
  from sift_down_ok [OF len _ _ hb] obtain b where b: "heapsort_sift_down cmp 0 (Suc i) ?a = Some b"
    "heap_from cmp 0 (Suc i) b" "mset b = mset ?a" "\<forall>j. Suc i \<le> j \<longrightarrow> b ! j = ?a ! j" by auto
  have lb: "length b = length arr" using b(3) ms by (metis size_mset)
  have low: "\<exists>l. l < Suc (Suc i) \<and> b ! j = arr ! l" if j: "j < Suc i" for j
  proof -
    have "drop (Suc i) b = drop (Suc i) ?a" using b(4) lb by (intro nth_equalityI) auto
    then have "mset (take (Suc i) b) = mset (take (Suc i) ?a)"
      using b(3) mset_take_eq by blast
    then have "b ! j \<in> set (take (Suc i) ?a)"
      using j lb Suc.prems(1,2) mset_eq_setD [of "take (Suc i) b" "take (Suc i) ?a"]
      by (metis in_set_conv_nth length_take min.absorb2 len length_list_update nth_take)
    then obtain l where l: "l < Suc i" "b ! j = ?a ! l" by (auto simp: in_set_conv_nth)
    show ?thesis
    proof (cases "l = 0")
      case False
      then show ?thesis using l nth [of l] by (intro exI [of _ l]) simp
    qed (use l nth [of l] in auto)
  qed
  have ts: "tail_sorted cmp i n b" unfolding tail_sorted_def
  proof (intro allI impI)
    fix j k assume jk: "j < k" "k < n" "i < k"
    have bk: "b ! k = (if k = Suc i then arr ! 0 else arr ! k)" using b(4) nth [of k] jk by simp
    show "cmp (b ! j) (b ! k) \<le> 0"
    proof (cases "j < Suc i")
      case True
      then obtain l where l: "l < Suc (Suc i)" "b ! j = arr ! l" using low by blast
      show ?thesis
      proof (cases "k = Suc i")
        case True
        then show ?thesis using heap_root_max [OF Suc.prems(3) l(1)] bk l by simp
      next
        case False
        then have "l < k" "Suc i < k" using l(1) jk by linarith+
        then show ?thesis using Suc.prems(4) jk bk l False by (simp add: tail_sorted_def)
      qed
    next
      case False
      then have "Suc i < k" using jk by linarith
      then show ?thesis using Suc.prems(4) b(4) nth [of j] bk jk False
        by (cases "j = Suc i") (simp_all add: tail_sorted_def)
    qed
  qed
  have "i < n" "n \<le> length b" using Suc.prems lb by simp_all
  from Suc.IH [OF this b(2) ts] obtain arr' where r: "extract_loop cmp i b = Some arr'" "tail_sorted cmp 0 n arr'"
    "mset arr' = mset b" "\<forall>j. n \<le> j \<longrightarrow> arr' ! j = b ! j" by blast
  have "arr_swap 0 (Suc i) arr = Some ?a" by (rule arr_swap_Some) (use Suc.prems(1,2) in linarith)+
  then have "extract_loop cmp (Suc i) arr = Some arr'" using b(1) r(1) by simp
  moreover have "\<forall>j. n \<le> j \<longrightarrow> arr' ! j = arr ! j" using r(4) b(4) nth Suc.prems(1) by simp
  ultimately show ?case using r b(3) ms by simp
qed

lemma heapsort_ok:
  assumes n: "n \<le> length arr"
  shows "\<exists>xs. cobalt_heapsort_impl arr n cmp = Some (xs @ drop n arr) \<and> cmp_sorted cmp xs \<and> mset xs = mset (take n arr)"
proof (cases "n \<le> 1")
  case True
  then have "cmp_sorted cmp (take n arr)" by (cases arr; cases n) auto
  with True show ?thesis by (intro exI [of _ "take n arr"]) (simp add: cobalt_heapsort_impl_def)
next
  case False
  have "heap_from cmp (n div 2) n arr" by (auto simp: heap_from_def parent_def)
  from heapify_ok [OF n _ this] obtain a where a: "heapify_loop cmp n (n div 2) arr = Some a" "heap_from cmp 0 n a"
    "mset a = mset arr" "\<forall>j. n \<le> j \<longrightarrow> a ! j = arr ! j" by auto
  have la: "length a = length arr" using a(3) by (metis size_mset)
  have "tail_sorted cmp (n - 1) n a" by (auto simp: tail_sorted_def)
  with extract_ok [of "n - 1" n a] a(2) False n la obtain b where b: "extract_loop cmp (n - 1) a = Some b"
    "tail_sorted cmp 0 n b" "mset b = mset a" "\<forall>j. n \<le> j \<longrightarrow> b ! j = a ! j" by auto
  have lb: "length b = length arr" using b(3) la by (metis size_mset)
  have d: "drop n b = drop n arr" using a(4) b(4) lb by (intro nth_equalityI) auto
  have "cmp_sorted cmp (take n b)"
    using b(2) lb n by (auto simp: cmp_sorted_def sorted_wrt_iff_nth_less tail_sorted_def)
  moreover have "mset (take n b) = mset (take n arr)" using mset_take_eq [OF _ d] a(3) b(3) by simp
  moreover have "cobalt_heapsort_impl arr n cmp = Some (take n b @ drop n arr)"
    using a(1) b(1) False d append_take_drop_id [of n b] by (simp add: cobalt_heapsort_impl_def)
  ultimately show ?thesis by blast
qed

end

subsection \<open>Pattern-defeating quicksort\<close>

text \<open>The array is split by a value \<open>pv\<close>: smaller up to \<open>lt\<close>, equal up to \<open>i\<close>, greater from \<open>gt\<close> to \<open>n\<close>.\<close>

definition three_way :: "('e \<Rightarrow> 'e \<Rightarrow> int) \<Rightarrow> 'e \<Rightarrow> nat \<Rightarrow> nat \<Rightarrow> nat \<Rightarrow> nat \<Rightarrow> 'e list \<Rightarrow> bool" where
  "three_way cmp pv lt i gt n arr \<longleftrightarrow>
     lt < i \<and> i \<le> Suc gt \<and> gt < n \<and> n \<le> length arr \<and>
     (\<forall>k<lt. cmp (arr ! k) pv < 0) \<and> (\<forall>k. lt \<le> k \<longrightarrow> k < i \<longrightarrow> cmp (arr ! k) pv = 0) \<and>
     (\<forall>k. gt < k \<longrightarrow> k < n \<longrightarrow> 0 < cmp (arr ! k) pv)"

lemma pdq_median3_bound:
  assumes "a < n" "b < n" "c < n" "n \<le> length arr"
  obtains r where "pdq_median3 cmp arr a b c = Some r" "r < n"
  using assms that by (auto simp: pdq_median3_def)

lemma pdq_ninther_bound:
  assumes "0 < n" "n \<le> length arr"
  obtains r where "pdq_ninther cmp arr n = Some r" "r < n"
proof -
  let ?s = "n div 8" and ?m = "n div 2"
  have b: "0 < n" "?s < n" "2 * ?s < n" "?m - ?s < n" "?m < n" "?m + ?s < n" "n - 1 - 2 * ?s < n" "n - 1 - ?s < n" "n - 1 < n"
    using assms(1) by linarith+
  obtain m1 where m1: "pdq_median3 cmp arr 0 ?s (2 * ?s) = Some m1" "m1 < n"
    by (rule pdq_median3_bound [OF b(1-3) assms(2)])
  obtain m2 where m2: "pdq_median3 cmp arr (?m - ?s) ?m (?m + ?s) = Some m2" "m2 < n"
    by (rule pdq_median3_bound [OF b(4-6) assms(2)])
  obtain m3 where m3: "pdq_median3 cmp arr (n - 1 - 2 * ?s) (n - 1 - ?s) (n - 1) = Some m3" "m3 < n"
    by (rule pdq_median3_bound [OF b(7-9) assms(2)])
  obtain r where "pdq_median3 cmp arr m1 m2 m3 = Some r" "r < n"
    by (rule pdq_median3_bound [OF m1(2) m2(2) m3(2) assms(2)])
  with m1 m2 m3 that show ?thesis by (simp add: pdq_ninther_def Let_def)
qed

text \<open>What sorting the first \<open>n\<close> elements achieves; \<open>P\<close> is the condition under which they end up in order.\<close>

definition sorts :: "('e \<Rightarrow> 'e \<Rightarrow> int) \<Rightarrow> bool \<Rightarrow> 'e list \<Rightarrow> nat \<Rightarrow> 'e list option \<Rightarrow> bool" where
  "sorts cmp P arr n r \<longleftrightarrow>
     (\<exists>xs. r = Some (xs @ drop n arr) \<and> mset xs = mset (take n arr) \<and> (P \<longrightarrow> cmp_sorted cmp xs))"

context comparator
begin

lemma pdq_partition_ok:
  "three_way cmp pv lt i gt n arr \<Longrightarrow>
   \<exists>lt' gt' arr'. pdq_partition cmp lt i gt arr = Some (lt', gt', arr') \<and> three_way cmp pv lt' (Suc gt') gt' n arr' \<and>
     mset arr' = mset arr \<and> (\<forall>j. n \<le> j \<longrightarrow> arr' ! j = arr ! j)"
proof (induction "Suc gt - i" arbitrary: lt i gt arr rule: less_induct)
  case less
  note D = less.prems [unfolded three_way_def]
  show ?case
  proof (cases "i \<le> gt")
    case False
    then have "i = Suc gt" using D by simp
    then show ?thesis using False less.prems by (subst pdq_partition.simps) simp
  next
    case True
    have il: "i < length arr" "lt < length arr" "gt < length arr" using D True by linarith+
    have eq: "cmp (arr ! lt) pv = 0" using D by simp
    have sg: "sgn (cmp (arr ! i) (arr ! lt)) = sgn (cmp (arr ! i) pv)" by (rule cmp_cong_right [OF eq])
    have m1: "mset (arr[lt := arr ! i, i := arr ! lt]) = mset arr" by (rule mset_arr_swap [OF il(2,1)])
    have m2: "mset (arr[i := arr ! gt, gt := arr ! i]) = mset arr" by (rule mset_arr_swap [OF il(1,3)])
    consider (lt) "cmp (arr ! i) pv < 0" | (gt) "0 < cmp (arr ! i) pv" | (eq) "cmp (arr ! i) pv = 0" by linarith
    then show ?thesis
    proof cases
      case lt
      let ?a = "arr[lt := arr ! i, i := arr ! lt]"
      have t: "three_way cmp pv (Suc lt) (Suc i) gt n ?a"
        using D True lt eq il by (auto simp: three_way_def nth_list_update less_Suc_eq)
      have s: "pdq_partition cmp lt i gt arr = pdq_partition cmp (Suc lt) (Suc i) gt ?a"
        using True lt sg il by (subst pdq_partition.simps) (simp add: sgn_if split: if_splits)
      show ?thesis unfolding s using less.hyps [OF _ t] True m1 D by auto
    next
      case gt
      let ?a = "arr[i := arr ! gt, gt := arr ! i]"
      have g: "szt_dec gt = gt - 1" using True D by (simp add: szt_dec_def)
      have t: "three_way cmp pv lt i (gt - 1) n ?a"
        using D True gt il by (auto simp: three_way_def nth_list_update)
      have s: "pdq_partition cmp lt i gt arr = pdq_partition cmp lt i (gt - 1) ?a"
        using True gt sg il by (subst pdq_partition.simps) (simp add: sgn_if g split: if_splits)
      have "Suc (gt - 1) - i < Suc gt - i" using True D by simp
      from less.hyps [OF this t] show ?thesis unfolding s using True m2 D by auto
    next
      case eq
      have t: "three_way cmp pv lt (Suc i) gt n arr" using D True eq by (auto simp: three_way_def less_Suc_eq)
      have s: "pdq_partition cmp lt i gt arr = pdq_partition cmp lt (Suc i) gt arr"
        using True eq sg il by (subst pdq_partition.simps) (simp add: sgn_if split: if_splits)
      show ?thesis unfolding s using less.hyps [OF _ t] True by auto
    qed
  qed
qed

lemma three_way_split:
  assumes "three_way cmp pv lt (Suc gt) gt n arr"
  obtains l e r z where "arr = l @ e @ r @ z" "length l = lt" "length e = Suc gt - lt" "length r = n - Suc gt"
    "z = drop n arr" "e \<noteq> []"
    "\<forall>x\<in>set l. cmp x pv < 0" "\<forall>x\<in>set e. cmp x pv = 0" "\<forall>x\<in>set r. 0 < cmp x pv"
proof -
  note D = assms [unfolded three_way_def]
  let ?l = "take lt arr" and ?e = "take (Suc gt - lt) (drop lt arr)" and ?r = "take (n - Suc gt) (drop (Suc gt) arr)"
  have "arr = ?l @ ?e @ ?r @ drop n arr"
  proof -
    have "drop lt arr = ?e @ drop (Suc gt) arr"
      using append_take_drop_id [of "Suc gt - lt" "drop lt arr"] D by (simp add: drop_drop)
    moreover have "drop (Suc gt) arr = ?r @ drop n arr"
      using append_take_drop_id [of "n - Suc gt" "drop (Suc gt) arr"] D by (simp add: drop_drop)
    ultimately show ?thesis using append_take_drop_id [of lt arr] by metis
  qed
  then show ?thesis
    by (rule that [of ?l ?e ?r "drop n arr"]) (use D in \<open>auto simp: in_set_conv_nth\<close>)
qed

lemma sorted_three:
  assumes "cmp_sorted cmp xs" "cmp_sorted cmp ys" "\<forall>x\<in>set xs. cmp x pv < 0" "\<forall>x\<in>set e. cmp x pv = 0"
    "\<forall>x\<in>set ys. 0 < cmp x pv"
  shows "cmp_sorted cmp (xs @ e @ ys)"
proof -
  have y: "cmp pv y < 0" if "y \<in> set ys" for y using assms(5) that cmp_swap [of pv y] by simp
  have e: "cmp pv x = 0" if "x \<in> set e" for x using assms(4) that cmp_eq_sym by blast
  have "cmp x z \<le> 0" if "x \<in> set e" "z \<in> set e" for x z
    using cmp_trans [of x pv z] assms(4) e that by simp
  then have "cmp_sorted cmp e" by (simp add: cmp_sorted_def sorted_wrt_iff_nth_less)
  moreover have "cmp x z \<le> 0" if "x \<in> set xs" "z \<in> set e" for x z
    using cmp_trans [of x pv z] assms(3) e that by fastforce
  moreover have "cmp x z \<le> 0" if "x \<in> set xs \<union> set e" "z \<in> set ys" for x z
    using cmp_trans [of x pv z] assms(3,4) y that by fastforce
  ultimately show ?thesis using assms(1,2) by auto
qed

lemma insertion_loop_ok:
  assumes "n \<le> length arr" "0 < sz"
  shows "\<exists>xs. insertion_sort_impl ka custom (Some arr) n sz (Some cmp) = Some (Some (xs @ drop n arr)) \<and>
    mset xs = mset (take n arr) \<and> ((\<forall>a. key_ok ka custom sz a) \<longrightarrow> cmp_sorted cmp xs)"
proof (cases "key_ok ka custom sz arr")
  case True
  then show ?thesis using insertion_sort_impl_eq [OF comparator_axioms assms] stable_sort_ref [of "take n arr"]
    by (auto simp: stable_sort_def)
next
  case False
  then show ?thesis using insertion_sort_impl_eq [OF comparator_axioms assms]
    by (intro exI [of _ "take n arr"]) auto
qed

lemma sorts_short: "n \<le> 1 \<Longrightarrow> sorts cmp P arr n (Some arr)"
proof -
  assume "n \<le> 1"
  then have "cmp_sorted cmp (take n arr)" by (cases arr; cases n) auto
  then show ?thesis by (auto simp: sorts_def intro!: exI [of _ "take n arr"])
qed

lemma sorts_three_way:
  assumes t: "three_way cmp pv lt (Suc gt) gt n arr"
    and L: "sorts cmp P arr lt (f arr)"
    and R: "\<And>a. drop (Suc gt) a = drop (Suc gt) arr \<Longrightarrow> sorts cmp P (drop (Suc gt) a) (n - Suc gt) (g (drop (Suc gt) a))"
  shows "sorts cmp P arr n (f arr \<bind> (\<lambda>a. g (drop (Suc gt) a) \<bind> (\<lambda>r. Some (take (Suc gt) a @ r))))"
    and "\<And>h. (\<And>a. take (Suc gt) a = take (Suc gt) arr \<Longrightarrow> sorts cmp P a lt (h a)) \<Longrightarrow>
      sorts cmp P arr n ((g (drop (Suc gt) arr) \<bind> (\<lambda>r. Some (take (Suc gt) arr @ r))) \<bind> h)"
proof -
  from three_way_split [OF t] obtain l e r z where s: "arr = l @ e @ r @ z" "length l = lt" "length e = Suc gt - lt"
    "length r = n - Suc gt" "z = drop n arr" "e \<noteq> []"
    "\<forall>x\<in>set l. cmp x pv < 0" "\<forall>x\<in>set e. cmp x pv = 0" "\<forall>x\<in>set r. 0 < cmp x pv" .
  note D = t [unfolded three_way_def]
  have le: "length (l @ e) = Suc gt" "length (l @ e @ r) = n" using s(2-4) D by simp_all
  have parts: "take (Suc gt) arr = l @ e" "drop (Suc gt) arr = r @ z" "take lt arr = l" "drop lt arr = e @ r @ z"
    "take n arr = l @ e @ r"
    using le s(1,2) append_eq_conv_conj [of "l @ e" "r @ z" arr] append_eq_conv_conj [of l "e @ r @ z" arr]
      append_eq_conv_conj [of "l @ e @ r" z arr] by simp_all
  have asm: "\<exists>q. Some (xs @ e @ ys @ z) = Some (q @ drop n arr) \<and> mset q = mset (take n arr) \<and> (P \<longrightarrow> cmp_sorted cmp q)"
    if "mset xs = mset l" "P \<longrightarrow> cmp_sorted cmp xs" "mset ys = mset r" "P \<longrightarrow> cmp_sorted cmp ys" for xs ys
    using that s(5,7-9) parts(5) sorted_three [of xs ys pv e] mset_eq_setD [OF that(1)] mset_eq_setD [OF that(3)]
    by (intro exI [of _ "xs @ e @ ys"]) auto
  from R [of arr] obtain ys where ys: "g (r @ z) = Some (ys @ z)" "mset ys = mset r" "P \<longrightarrow> cmp_sorted cmp ys"
    using s(4) by (auto simp: sorts_def parts(2))
  show "sorts cmp P arr n (f arr \<bind> (\<lambda>a. g (drop (Suc gt) a) \<bind> (\<lambda>r. Some (take (Suc gt) a @ r))))"
  proof -
    from L obtain xs where xs: "f arr = Some (xs @ e @ r @ z)" "mset xs = mset l" "P \<longrightarrow> cmp_sorted cmp xs"
      by (auto simp: sorts_def parts)
    have "length xs = lt" using xs(2) s(2) by (metis size_mset)
    then have "take (Suc gt) (xs @ e @ r @ z) = xs @ e" "drop (Suc gt) (xs @ e @ r @ z) = r @ z"
      using s(3) D by simp_all
    then show ?thesis unfolding sorts_def using asm [OF xs(2,3) ys(2,3)] xs(1) ys(1) by simp
  qed
  show "sorts cmp P arr n ((g (drop (Suc gt) arr) \<bind> (\<lambda>r. Some (take (Suc gt) arr @ r))) \<bind> h)"
    if h: "\<And>a. take (Suc gt) a = take (Suc gt) arr \<Longrightarrow> sorts cmp P a lt (h a)" for h
  proof -
    let ?a = "l @ e @ ys @ z"
    have "take (Suc gt) ?a = take (Suc gt) arr" using parts(1) le by simp
    from h [OF this] obtain xs where xs: "h ?a = Some (xs @ e @ ys @ z)" "mset xs = mset l" "P \<longrightarrow> cmp_sorted cmp xs"
      using s(2) by (auto simp: sorts_def)
    then show ?thesis unfolding sorts_def using asm [OF xs(2,3) ys(2,3)] ys(1) parts by simp
  qed
qed

end

lemma sorts_cong:
  assumes "mset a = mset b" "\<forall>j. n \<le> j \<longrightarrow> a ! j = b ! j"
  shows "sorts cmp P a n r \<longleftrightarrow> sorts cmp P b n r"
proof -
  have "length a = length b" using assms(1) by (metis size_mset)
  then have d: "drop n a = drop n b" using assms(2) by (intro nth_equalityI) auto
  then show ?thesis using mset_take_eq [OF assms(1) d] by (simp add: sorts_def)
qed

context comparator
begin

lemma pdq_pivot_bound:
  assumes "24 < n" "n \<le> length arr"
  obtains pi where "(if 128 < n then pdq_ninther cmp arr n
    else pdq_median3 cmp arr 0 (n div 2) (n - 1)) = Some pi" "pi < n"
proof (cases "128 < n")
  case True
  obtain r where "pdq_ninther cmp arr n = Some r" "r < n"
    by (rule pdq_ninther_bound) (use assms in auto)
  with True that show ?thesis by simp
next
  case False
  obtain r where "pdq_median3 cmp arr 0 (n div 2) (n - 1) = Some r" "r < n"
    by (rule pdq_median3_bound [of 0 n "n div 2" "n - 1" arr cmp]) (use assms in auto)
  with False that show ?thesis by simp
qed

lemma pdq_split_ok:
  assumes "24 < n" "n \<le> length arr"
  obtains pi a pv lt gt b where
    "(if 128 < n then pdq_ninther cmp arr n else pdq_median3 cmp arr 0 (n div 2) (n - 1)) = Some pi"
    "(if pi \<noteq> 0 then arr_swap 0 pi arr else Some arr) = Some a"
    "pdq_partition cmp 0 1 (n - 1) a = Some (lt, gt, b)" "three_way cmp pv lt (Suc gt) gt n b"
    "mset b = mset arr" "\<forall>j. n \<le> j \<longrightarrow> b ! j = arr ! j"
proof -
  obtain pi where pi: "(if 128 < n then pdq_ninther cmp arr n
      else pdq_median3 cmp arr 0 (n div 2) (n - 1)) = Some pi" "pi < n" by (rule pdq_pivot_bound [OF assms])
  let ?a = "arr[0 := arr ! pi, pi := arr ! 0]"
  have l: "0 < length arr" "pi < length arr" using assms pi(2) by linarith+
  have swap: "(if pi \<noteq> 0 then arr_swap 0 pi arr else Some arr) = Some ?a"
    using arr_swap_Some [OF l] by simp
  have ma: "mset ?a = mset arr" by (rule mset_arr_swap [OF l])
  have aj: "\<forall>j. n \<le> j \<longrightarrow> ?a ! j = arr ! j" using pi(2) assms by simp
  have "three_way cmp (?a ! 0) 0 1 (n - 1) n ?a" using assms by (auto simp: three_way_def)
  from pdq_partition_ok [OF this] obtain lt gt b where b: "pdq_partition cmp 0 1 (n - 1) ?a = Some (lt, gt, b)"
    "three_way cmp (?a ! 0) lt (Suc gt) gt n b" "mset b = mset ?a" "\<forall>j. n \<le> j \<longrightarrow> b ! j = ?a ! j" by blast
  show ?thesis by (rule that [OF pi(1) swap b(1,2)]) (use b(3,4) ma aj in simp_all)
qed

lemma pdqsort_ok:
  "n \<le> length arr \<Longrightarrow> 0 < sz \<Longrightarrow>
   sorts cmp (\<forall>a. key_ok ka False sz a) arr n (pdqsort_loop ka arr n sz cmp bad)"
proof (induction n arbitrary: arr bad rule: less_induct)
  case (less n)
  let ?P = "\<forall>a. key_ok ka False sz a" and ?go = "\<lambda>arr n bad. pdqsort_loop ka arr n sz cmp bad"
  consider (short) "n \<le> 24" | (bad) "24 < n" "bad \<le> 0" | (split) "24 < n" "0 < bad" by linarith
  then show ?case
  proof cases
    case short
    obtain xs where "insertion_sort_impl ka False (Some arr) n sz (Some cmp) = Some (Some (xs @ drop n arr))"
      "mset xs = mset (take n arr)" "?P \<longrightarrow> cmp_sorted cmp xs"
      using insertion_loop_ok [OF less.prems, of ka False] by blast
    with short show ?thesis by (subst pdqsort_loop.simps) (auto simp: sorts_def)
  next
    case bad
    then show ?thesis using heapsort_ok [OF less.prems(1)]
      by (subst pdqsort_loop.simps) (auto simp: sorts_def)
  next
    case split
    from pdq_split_ok [OF split(1) less.prems(1)] obtain pi a pv lt gt b where
      pi: "(if 128 < n then pdq_ninther cmp arr n else pdq_median3 cmp arr 0 (n div 2) (n - 1)) = Some pi"
      and swap: "(if pi \<noteq> 0 then arr_swap 0 pi arr else Some arr) = Some a"
      and b: "pdq_partition cmp 0 1 (n - 1) a = Some (lt, gt, b)" "three_way cmp pv lt (Suc gt) gt n b"
        "mset b = mset arr" "\<forall>j. n \<le> j \<longrightarrow> b ! j = arr ! j" .
    note D = b(2) [unfolded three_way_def]
    have lb: "length b = length arr" using b(3) by (metis size_mset)
    have sizes: "lt < n" "n - Suc gt < n" using D by linarith+
    define bad' where "bad' = (if lt < n div 8 \<or> n - Suc gt < n div 8 then bad - 1 else bad)"
    let ?f = "\<lambda>a. if 1 < lt then ?go a lt bad' else Some a"
    let ?g = "\<lambda>a. if 1 < n - Suc gt then ?go a (n - Suc gt) bad' else Some a"
    have F: "sorts cmp ?P a lt (?go a lt bad')" if "lt \<le> length a" for a
      using less.IH [OF sizes(1) that less.prems(2)] .
    have G: "sorts cmp ?P a (n - Suc gt) (?go a (n - Suc gt) bad')" if "n - Suc gt \<le> length a" for a
      using less.IH [OF sizes(2) that less.prems(2)] .
    have len: "n - Suc gt \<le> length (drop (Suc gt) b)" "lt \<le> length b" using D lb less.prems(1) by simp_all
    have one: "sorts cmp ?P b n (?f b \<bind> (\<lambda>a. ?go (drop (Suc gt) a) (n - Suc gt) bad' \<bind> (\<lambda>r. Some (take (Suc gt) a @ r))))"
    proof (rule sorts_three_way(1) [OF b(2)])
      show "sorts cmp ?P b lt (?f b)" using F [OF len(2)] sorts_short [of lt ?P b] by simp
      show "sorts cmp ?P (drop (Suc gt) a) (n - Suc gt) (?go (drop (Suc gt) a) (n - Suc gt) bad')"
        if "drop (Suc gt) a = drop (Suc gt) b" for a using G len(1) that by simp
    qed
    have two: "sorts cmp ?P b n ((?g (drop (Suc gt) b) \<bind> (\<lambda>r. Some (take (Suc gt) b @ r))) \<bind> (\<lambda>a. ?go a lt bad'))"
    proof (rule sorts_three_way(2) [OF b(2), of ?P "\<lambda>a. ?go a lt bad'"])
      show "sorts cmp ?P b lt (?go b lt bad')" by (rule F [OF len(2)])
      show "sorts cmp ?P (drop (Suc gt) a) (n - Suc gt) (?g (drop (Suc gt) a))"
        if "drop (Suc gt) a = drop (Suc gt) b" for a
        using G [of "drop (Suc gt) a"] len(1) that sorts_short [of "n - Suc gt" ?P "drop (Suc gt) a"] by simp
      show "sorts cmp ?P a lt (?go a lt bad')" if "take (Suc gt) a = take (Suc gt) b" for a
      proof (rule F)
        have "lt \<le> length (take (Suc gt) a)" unfolding that using D lb by simp
        then show "lt \<le> length a" by simp
      qed
    qed
    have fold_g: "(if 1 < n - Suc gt then ?go (drop (Suc gt) b) (n - Suc gt) bad' \<bind> (\<lambda>r. Some (take (Suc gt) b @ r))
        else Some b) = ?g (drop (Suc gt) b) \<bind> (\<lambda>r. Some (take (Suc gt) b @ r))" by simp
    have "?go arr n bad = (if lt < n - Suc gt
        then ?f b \<bind> (\<lambda>a. ?go (drop (Suc gt) a) (n - Suc gt) bad' \<bind> (\<lambda>r. Some (take (Suc gt) a @ r)))
        else (if 1 < n - Suc gt then ?go (drop (Suc gt) b) (n - Suc gt) bad' \<bind> (\<lambda>r. Some (take (Suc gt) b @ r))
          else Some b) \<bind> (\<lambda>a. ?go a lt bad'))"
      unfolding bad'_def
      by (subst pdqsort_loop.simps) (use split pi swap b(1) in \<open>simp add: Let_def del: arr_swap_Some\<close>)
    then have "sorts cmp ?P b n (?go arr n bad)" using one two unfolding fold_g by simp
    then show ?thesis using sorts_cong [of b arr n] b(3,4) by simp
  qed
qed

end

subsection \<open>Merging two runs\<close>

function merge_back :: "('e \<Rightarrow> 'e \<Rightarrow> int) \<Rightarrow> 'e list \<Rightarrow> 'e list \<Rightarrow> 'e list" where
  "merge_back cmp xs ys =
     (if xs = [] then ys else if ys = [] then xs
      else if 0 < cmp (last xs) (last ys) then merge_back cmp (butlast xs) ys @ [last xs]
      else merge_back cmp xs (butlast ys) @ [last ys])"
  by pat_completeness auto
termination
  by (relation "measure (\<lambda>(_, xs, ys). length xs + length ys)") auto

declare merge_back.simps [simp del]

lemma merge_back_snoc [simp]:
  "merge_back cmp [] ys = ys" "merge_back cmp xs [] = xs"
  "merge_back cmp (xs @ [x]) (ys @ [y]) =
     (if 0 < cmp x y then merge_back cmp xs (ys @ [y]) @ [x] else merge_back cmp (xs @ [x]) ys @ [y])"
  by (simp_all add: merge_back.simps [of cmp "[]"] merge_back.simps [of cmp xs "[]"]
      merge_back.simps [of cmp "xs @ [x]" "ys @ [y]"])

lemma mset_merge_back: "mset (merge_back cmp xs ys) = mset xs + mset ys"
proof (induction "length xs + length ys" arbitrary: xs ys rule: less_induct)
  case less
  show ?case
  proof (cases xs rule: rev_cases)
    case (snoc as a)
    then show ?thesis
    proof (cases ys rule: rev_cases)
      case (snoc bs b)
      then show ?thesis using \<open>xs = as @ [a]\<close> less [of as ys] less [of xs bs] by simp
    qed simp
  qed simp
qed

lemma length_merge_back [simp]: "length (merge_back cmp xs ys) = length xs + length ys"
  using arg_cong [OF mset_merge_back [of cmp xs ys], of size] by simp

context comparator
begin

lemma merge_by_snoc:
  assumes "cmp_sorted cmp (as @ [a])" "cmp_sorted cmp (bs @ [b])"
  shows "merge_by cmp (as @ [a]) (bs @ [b]) =
    (if 0 < cmp a b then merge_by cmp as (bs @ [b]) @ [a] else merge_by cmp (as @ [a]) bs @ [b])"
proof (rule stable_sort_unique)
  show "cmp_sorted cmp (merge_by cmp (as @ [a]) (bs @ [b]))" by (rule sorted_merge_by [OF assms])
  have as: "cmp_sorted cmp as" "\<forall>x\<in>set as. cmp x a \<le> 0" and bs: "cmp_sorted cmp bs" "\<forall>x\<in>set bs. cmp x b \<le> 0"
    using assms by auto
  let ?r = "if 0 < cmp a b then merge_by cmp as (bs @ [b]) @ [a] else merge_by cmp (as @ [a]) bs @ [b]"
  have gt: "cmp x a < 0" if "0 < cmp a b" "x \<in> set (bs @ [b])" for x
    using cmp_le_less_trans [of x b a] cmp_swap [of b a] bs(2) that by auto
  have le: "cmp x b \<le> 0" if "\<not> 0 < cmp a b" "x \<in> set (as @ [a])" for x
    using cmp_trans [of x a b] as(2) that by auto
  show "cmp_sorted cmp ?r"
    using sorted_merge_by [OF as(1) assms(2)] sorted_merge_by [OF assms(1) bs(1)] as(2) bs(2) gt le
    by (force simp: set_merge_by)
  have none: "cmp_class cmp v (bs @ [b]) = []" if "0 < cmp a b" "cmp v a = 0" for v
  proof -
    have "cmp v x \<noteq> 0" if x: "x \<in> set (bs @ [b])" for x
      using gt [OF \<open>0 < cmp a b\<close> x] cmp_trans [of a v x] cmp_eq_sym [of v a] \<open>cmp v a = 0\<close> cmp_swap [of x a] by auto
    then show ?thesis unfolding cmp_class_def filter_empty_conv by blast
  qed
  show "cmp_class cmp v (merge_by cmp (as @ [a]) (bs @ [b])) = cmp_class cmp v ?r" for v
    using class_merge_by [OF assms(1), of v "bs @ [b]"] class_merge_by [OF as(1), of v "bs @ [b]"]
      class_merge_by [OF assms(1), of v bs] none [of v] by (auto simp: cmp_class_def)
qed

lemma merge_back_by: "cmp_sorted cmp xs \<Longrightarrow> cmp_sorted cmp ys \<Longrightarrow> merge_back cmp xs ys = merge_by cmp xs ys"
proof (induction "length xs + length ys" arbitrary: xs ys rule: less_induct)
  case less
  show ?case
  proof (cases xs rule: rev_cases)
    case xs: (snoc as a)
    show ?thesis
    proof (cases ys rule: rev_cases)
      case ys: (snoc bs b)
      have "cmp_sorted cmp as" "cmp_sorted cmp bs" using less.prems xs ys by simp_all
      then show ?thesis
        using less.hyps [of as ys] less.hyps [of xs bs] less.prems merge_by_snoc [of as a bs b] xs ys
        by (simp del: cmp_sorted_simps)
    qed simp
  qed simp
qed

end

lemma merge_forward_ok:
  assumes "length junk = length xs" "length m = length a0 + j" "S = a0 @ xs @ sc" "A = length a0 + length xs"
    "B = j + length ys"
  shows "(merge_forward cmp S (length pre) A B (length a0) j (length m) (pre @ m @ junk @ ys @ post) \<bind>
    (\<lambda>(i, dest, arr). if i < A then arr_copy (length pre + dest) S i (A - i) arr else Some arr)) =
    Some (pre @ m @ merge_by cmp xs ys @ post)"
  using assms
proof (induction "length xs + length ys" arbitrary: xs ys a0 m junk j rule: less_induct)
  case less
  show ?case
  proof (cases xs)
    case Nil
    then show ?thesis using less.prems by (simp add: merge_forward.simps)
  next
    case xs: (Cons x xs')
    obtain d junk' where junk: "junk = d # junk'" "length junk' = length xs'"
      using less.prems(1) xs by (cases junk) auto
    show ?thesis
    proof (cases ys)
      case Nil
      then show ?thesis using less.prems xs by (simp add: merge_forward.simps arr_copy_def)
    next
      case ys: (Cons y ys')
      have lim: "length a0 < A" "j < B" using less.prems xs ys by simp_all
      have gx: "arr_get S (length a0) = Some x" using less.prems(3) xs by (simp add: nth_append)
      have gy: "arr_get (pre @ m @ junk @ ys @ post) (length pre + A + j) = Some y"
        using less.prems ys by (simp add: arr_get_def nth_append)
      have upd: "arr_set (length pre + length m) v (pre @ m @ junk @ ys @ post) = Some (pre @ (m @ [v]) @ junk' @ ys @ post)" for v
        using junk by (simp add: arr_set_def list_update_append)
      show ?thesis
      proof (cases "cmp x y \<le> 0")
        case True
        have "merge_forward cmp S (length pre) A B (length a0) j (length m) (pre @ m @ junk @ ys @ post) =
            merge_forward cmp S (length pre) A B (length (a0 @ [x])) j (length (m @ [x])) (pre @ (m @ [x]) @ junk' @ ys @ post)"
          using gx gy upd [of x] True lim by (subst merge_forward.simps) simp
        with less.hyps [of xs' ys junk' "m @ [x]" "a0 @ [x]" j] less.prems junk xs ys True show ?thesis by simp
      next
        case False
        have "merge_forward cmp S (length pre) A B (length a0) j (length m) (pre @ m @ junk @ ys @ post) =
            merge_forward cmp S (length pre) A B (length a0) (Suc j) (length (m @ [y]))
              (pre @ (m @ [y]) @ (junk' @ [y]) @ ys' @ post)"
          using gx gy upd [of y] False lim ys by (subst merge_forward.simps) simp
        with less.hyps [of xs ys' "junk' @ [y]" "m @ [y]" a0 "Suc j"] less.prems junk xs ys False show ?thesis by simp
      qed
    qed
  qed
qed

lemma merge_backward_ok:
  assumes "length gap = length ys" "S = ys @ sc"
  shows "(merge_backward cmp S (length pre) (length xs) (length ys) (length xs + length ys) (pre @ xs @ gap @ m) \<bind>
    (\<lambda>(j, arr). if 0 < j then arr_copy (length pre) S 0 j arr else Some arr)) =
    Some (pre @ merge_back cmp xs ys @ m)"
  using assms
proof (induction "length xs + length ys" arbitrary: xs ys gap m sc rule: less_induct)
  case less
  show ?case
  proof (cases ys rule: rev_cases)
    case Nil
    then show ?thesis using less.prems by (simp add: merge_backward.simps)
  next
    case ys: (snoc bs y)
    show ?thesis
    proof (cases xs rule: rev_cases)
      case Nil
      then show ?thesis using less.prems ys by (simp add: merge_backward.simps arr_copy_def)
    next
      case xs: (snoc as x)
      obtain gap' d where gap: "gap = gap' @ [d]" "length gap' = length bs"
        using less.prems(1) ys by (cases gap rule: rev_cases) auto
      have pos: "0 < length xs" "0 < length ys" using xs ys by simp_all
      have gx: "arr_get (pre @ xs @ gap @ m) (length pre + (length xs - 1)) = Some x"
        using xs by (simp add: arr_get_def nth_append)
      have gy: "arr_get S (length ys - 1) = Some y" using less.prems(2) ys by (simp add: nth_append)
      have upd: "arr_set (length pre + (length xs + length ys - 1)) v (pre @ xs @ gap @ m) = Some (pre @ xs @ gap' @ v # m)" for v
        using gap xs ys by (simp add: arr_set_def list_update_append)
      show ?thesis
      proof (cases "0 < cmp x y")
        case True
        have "merge_backward cmp S (length pre) (length xs) (length ys) (length xs + length ys) (pre @ xs @ gap @ m) =
            merge_backward cmp S (length pre) (length as) (length ys) (length as + length ys) (pre @ as @ (x # gap') @ x # m)"
          using gx gy upd [of x] True pos xs by (subst merge_backward.simps) simp
        with less.hyps [of as ys "x # gap'" sc "x # m"] less.prems gap xs ys True show ?thesis by simp
      next
        case False
        have "merge_backward cmp S (length pre) (length xs) (length ys) (length xs + length ys) (pre @ xs @ gap @ m) =
            merge_backward cmp S (length pre) (length xs) (length bs) (length xs + length bs) (pre @ xs @ gap' @ y # m)"
          using gx gy upd [of y] False pos xs ys by (subst merge_backward.simps) simp
        with less.hyps [of xs bs gap' "y # sc" "y # m"] less.prems gap xs ys False show ?thesis by simp
      qed
    qed
  qed
qed

text \<open>
  Merging two adjacent runs of the array with a scratch buffer that has room for the shorter one.
\<close>

lemma merge_runs_ok:
  assumes "arr = pre @ xs @ ys @ post" "min (length xs) (length ys) \<le> length scratch"
  shows "\<exists>zs scratch'. merge_runs cmp (length pre) (length xs) (length ys) (arr, scratch) = Some (pre @ zs @ post, scratch') \<and>
    length scratch' = length scratch \<and> mset zs = mset xs + mset ys \<and>
    (comparator cmp \<longrightarrow> cmp_sorted cmp xs \<longrightarrow> cmp_sorted cmp ys \<longrightarrow> zs = merge_by cmp xs ys)"
proof (cases "length xs \<le> length ys")
  case True
  let ?S = "xs @ drop (length xs) scratch"
  have c: "arr_copy 0 arr (length pre) (length xs) scratch = Some ?S"
    using assms True by (subst arr_copy_Some) auto
  have "(merge_forward cmp ?S (length pre) (length xs) (length ys) 0 0 0 arr \<bind>
      (\<lambda>(i, dest, arr). if i < length xs then arr_copy (length pre + dest) ?S i (length xs - i) arr else Some arr)) =
      Some (pre @ merge_by cmp xs ys @ post)"
    using merge_forward_ok [of xs xs "[]" "[]" 0 ?S "drop (length xs) scratch" "length xs" "length ys" ys cmp pre post] assms(1)
    by simp
  then have "merge_runs cmp (length pre) (length xs) (length ys) (arr, scratch) = Some (pre @ merge_by cmp xs ys @ post, ?S)"
    using c True by (auto simp: merge_runs_def split: Option.bind_splits)
  moreover have "length ?S = length scratch" using assms(2) True by simp
  ultimately show ?thesis by (auto simp: mset_merge_by)
next
  case False
  let ?S = "ys @ drop (length ys) scratch"
  have c: "arr_copy 0 arr (length pre + length xs) (length ys) scratch = Some ?S"
    using assms False by (subst arr_copy_Some) auto
  have "(merge_backward cmp ?S (length pre) (length xs) (length ys) (length xs + length ys) arr \<bind>
      (\<lambda>(j, arr). if 0 < j then arr_copy (length pre) ?S 0 j arr else Some arr)) =
      Some (pre @ merge_back cmp xs ys @ post)"
    using merge_backward_ok [of ys ys ?S "drop (length ys) scratch" cmp pre xs post] assms(1) by simp
  then have "merge_runs cmp (length pre) (length xs) (length ys) (arr, scratch) = Some (pre @ merge_back cmp xs ys @ post, ?S)"
    using c False by (auto simp: merge_runs_def split: Option.bind_splits)
  moreover have "length ?S = length scratch" using assms(2) False by simp
  ultimately show ?thesis using comparator.merge_back_by by (auto simp: mset_merge_back)
qed

end
