(* ===== verification/Cobalt_Sort_Spec.thy ===== *)
theory Cobalt_Sort_Spec
  imports Cobalt_Sort_Lemmas Cobalt_Functional
begin

section \<open>The sorting routines are correct\<close>

text \<open>
  The adaptive merge sort (its natural runs and its stack of runs), the partition, the removal of
  duplicates, the swap of two elements in memory, and the properties of \<open>src/algorithm/sort.c\<close>.
\<close>

subsection \<open>Runs\<close>

lemma split3: "xs = take f xs @ take l (drop f xs) @ drop (f + l) xs"
  using append_take_drop_id [of f xs] append_take_drop_id [of l "drop f xs"] by (simp add: add.commute)

lemma reverse_loop_ok:
  "reverse_loop (length pre) (length pre + length mid - 1) (pre @ mid @ post) = Some (pre @ rev mid @ post)"
proof (induction "length mid" arbitrary: pre mid post rule: less_induct)
  case less
  show ?case
  proof (cases "length mid \<le> 1")
    case True
    then have "rev mid = mid" by (cases mid) auto
    moreover have "\<not> length pre < length pre + length mid - 1" using True by linarith
    ultimately show ?thesis by (subst reverse_loop.simps) simp
  next
    case False
    then obtain x m' where m': "mid = x # m'" "m' \<noteq> []" by (cases mid) auto
    then obtain m y where "m' = m @ [y]" by (cases m' rule: rev_cases) auto
    with m' have mid: "mid = x # m @ [y]" by simp
    have "arr_swap (length pre) (length pre + length mid - 1) (pre @ mid @ post) = Some ((pre @ [y]) @ m @ [x] @ post)"
      using mid by (simp add: arr_swap_def nth_append list_update_append)
    moreover have "reverse_loop (length pre + 1) (length pre + length mid - 1 - 1) ((pre @ [y]) @ m @ [x] @ post) =
        Some ((pre @ [y]) @ rev m @ [x] @ post)"
      using less [of m "pre @ [y]" "[x] @ post"] mid by simp
    ultimately show ?thesis using False mid by (subst reverse_loop.simps) simp
  qed
qed

lemma reverse_run_ok: "len \<le> length arr \<Longrightarrow> reverse_run arr len = Some (rev (take len arr) @ drop len arr)"
proof (cases "len \<le> 1")
  case True
  then have "rev (take len arr) = take len arr" by (cases arr; cases len) auto
  with True show ?thesis by (simp add: reverse_run_def)
next
  case False
  assume "len \<le> length arr"
  then show ?thesis using False reverse_loop_ok [of "[]" "take len arr" "drop len arr"]
    by (simp add: reverse_run_def)
qed

lemma extend_run_ok:
  assumes "1 \<le> len" "from + len \<le> n" "n \<le> length arr"
    "\<forall>k. Suc k < len \<longrightarrow> (if d then 0 < cmp (arr ! (from + k)) (arr ! (from + Suc k)) else cmp (arr ! (from + k)) (arr ! (from + Suc k)) \<le> 0)"
  shows "\<exists>l. extend_run cmp d n from len arr = Some l \<and> len \<le> l \<and> from + l \<le> n \<and>
    (\<forall>k. Suc k < l \<longrightarrow> (if d then 0 < cmp (arr ! (from + k)) (arr ! (from + Suc k)) else cmp (arr ! (from + k)) (arr ! (from + Suc k)) \<le> 0))"
  using assms
proof (induction "n - (from + len)" arbitrary: len rule: less_induct)
  case less
  show ?case
  proof (cases "from + len < n")
    case False
    then show ?thesis using less.prems by (intro exI [of _ len]) (simp add: extend_run.simps)
  next
    case True
    let ?x = "arr ! (from + len - 1)" and ?y = "arr ! (from + len)"
    have g: "arr_get arr (from + len - 1) = Some ?x" "arr_get arr (from + len) = Some ?y"
      using True less.prems by simp_all
    show ?thesis
    proof (cases "if d then 0 < cmp ?x ?y else cmp ?x ?y \<le> 0")
      case ext: True
      have s: "extend_run cmp d n from len arr = extend_run cmp d n from (Suc len) arr"
        using True g ext by (subst extend_run.simps) (cases d; simp)
      have k: "from + k = from + len - 1 \<and> from + Suc k = from + len" if "Suc k = len" for k using that by simp
      have "\<exists>l. extend_run cmp d n from (Suc len) arr = Some l \<and> Suc len \<le> l \<and> from + l \<le> n \<and>
        (\<forall>k. Suc k < l \<longrightarrow> (if d then 0 < cmp (arr ! (from + k)) (arr ! (from + Suc k)) else cmp (arr ! (from + k)) (arr ! (from + Suc k)) \<le> 0))"
      proof (rule less.hyps)
        show "\<forall>k. Suc k < Suc len \<longrightarrow> (if d then 0 < cmp (arr ! (from + k)) (arr ! (from + Suc k)) else cmp (arr ! (from + k)) (arr ! (from + Suc k)) \<le> 0)"
        proof (intro allI impI)
          fix k assume "Suc k < Suc len"
          then consider "Suc k < len" | "Suc k = len" by linarith
          then show "if d then 0 < cmp (arr ! (from + k)) (arr ! (from + Suc k)) else cmp (arr ! (from + k)) (arr ! (from + Suc k)) \<le> 0"
          proof cases
            case 1
            then show ?thesis using less.prems(4) by blast
          next
            case 2
            then show ?thesis using ext k [OF 2] by (cases d) auto
          qed
        qed
      qed (use True less.prems in auto)
      then show ?thesis unfolding s by (meson Suc_leD)
    next
      case stop: False
      then have "extend_run cmp d n from len arr = Some len" using True g by (subst extend_run.simps) auto
      then show ?thesis using less.prems by blast
    qed
  qed
qed

context comparator
begin

lemma stable_sort_sorted: "cmp_sorted cmp xs \<Longrightarrow> stable_sort cmp xs xs"
  by (simp add: stable_sort_def)

lemma stable_sort_desc:
  assumes "sorted_wrt (\<lambda>x y. 0 < cmp x y) xs"
  shows "stable_sort cmp xs (rev xs)"
proof -
  have "sorted_wrt (\<lambda>x y. cmp y x \<le> 0) xs" by (rule sorted_wrt_mono_rel [OF _ assms]) (rule cmp_gt_le)
  then have s: "cmp_sorted cmp (rev xs)" by (simp add: cmp_sorted_def sorted_wrt_rev)
  have "rev (cmp_class cmp v xs) = cmp_class cmp v xs" for v
  proof -
    have "sorted_wrt (\<lambda>x y. 0 < cmp x y) (cmp_class cmp v xs)" unfolding cmp_class_def by (rule sorted_wrt_filter [OF assms])
    moreover have "cmp x y \<le> 0" if "x \<in> set (cmp_class cmp v xs)" "y \<in> set (cmp_class cmp v xs)" for x y
      using that cmp_trans [of x v y] cmp_eq_sym [of v x] by (simp add: cmp_class_def)
    ultimately have "\<not> 1 < length (cmp_class cmp v xs)"
    proof (intro notI)
      assume l: "1 < length (cmp_class cmp v xs)"
        and le: "\<And>x y. x \<in> set (cmp_class cmp v xs) \<Longrightarrow> y \<in> set (cmp_class cmp v xs) \<Longrightarrow> cmp x y \<le> 0"
        and s: "sorted_wrt (\<lambda>x y. 0 < cmp x y) (cmp_class cmp v xs)"
      have "0 < length (cmp_class cmp v xs)" using l by linarith
      then have "cmp (cmp_class cmp v xs ! 0) (cmp_class cmp v xs ! 1) \<le> 0" using le nth_mem l by blast
      moreover have "0 < cmp (cmp_class cmp v xs ! 0) (cmp_class cmp v xs ! 1)"
        using sorted_wrt_nth_less [OF s _ l, of 0] by simp
      ultimately show False by simp
    qed
    then show ?thesis by (cases "cmp_class cmp v xs") auto
  qed
  then show ?thesis using s by (simp add: stable_sort_def cmp_class_def rev_filter)
qed

lemma sorted_nth_desc:
  assumes "\<forall>k. Suc k < length xs \<longrightarrow> 0 < cmp (xs ! k) (xs ! Suc k)"
  shows "sorted_wrt (\<lambda>x y. 0 < cmp x y) xs"
proof -
  have "transp (\<lambda>x y. 0 < cmp x y)"
  proof (rule transpI)
    fix x y z assume "0 < cmp x y" "0 < cmp y z"
    then have "cmp z x < 0" using cmp_le_less_trans [of z y x] cmp_gt_le [of y z] cmp_swap [of y x] by simp
    then show "0 < cmp x z" by (simp add: cmp_swap)
  qed
  then show ?thesis using assms by (simp add: sorted_wrt_iff_nth_Suc_transp)
qed

lemma sorted_nth_asc:
  assumes "\<forall>k. Suc k < length xs \<longrightarrow> cmp (xs ! k) (xs ! Suc k) \<le> 0"
  shows "cmp_sorted cmp xs"
proof -
  have "transp (\<lambda>x y. cmp x y \<le> 0)" by (rule transpI) (rule cmp_trans)
  then show ?thesis using assms by (simp add: cmp_sorted_def sorted_wrt_iff_nth_Suc_transp)
qed

lemma natural_run_ok:
  assumes "from < n" "n \<le> length arr"
  shows "\<exists>len c. natural_run cmp n from arr = Some (len, take from arr @ c @ drop (from + len) arr) \<and>
    1 \<le> len \<and> from + len \<le> n \<and> stable_sort cmp (take len (drop from arr)) c"
proof (cases "from + 1 < n")
  case False
  then have "natural_run cmp n from arr = Some (1, arr)" by (simp add: natural_run_def)
  moreover have "arr = take from arr @ take 1 (drop from arr) @ drop (from + 1) arr" by (rule split3)
  moreover have "stable_sort cmp (take 1 (drop from arr)) (take 1 (drop from arr))" by (rule stable_sort_short) simp
  ultimately show ?thesis using assms by (intro exI [of _ 1] exI [of _ "take 1 (drop from arr)"]) simp
next
  case True
  have g: "arr_get arr from = Some (arr ! from)" "arr_get arr (from + 1) = Some (arr ! (from + 1))" using True assms by simp_all
  show ?thesis
  proof (cases "0 < cmp (arr ! from) (arr ! (from + 1))")
    case desc: True
    have "\<forall>k. Suc k < 2 \<longrightarrow> 0 < cmp (arr ! (from + k)) (arr ! (from + Suc k))" using desc by (auto simp: less_Suc_eq numeral_2_eq_2)
    with extend_run_ok [of 2 "from" n arr True cmp] True assms(2) obtain l where
      l: "extend_run cmp True n from 2 arr = Some l" "2 \<le> l" "from + l \<le> n"
        "\<forall>k. Suc k < l \<longrightarrow> 0 < cmp (arr ! (from + k)) (arr ! (from + Suc k))" by auto
    let ?s = "take l (drop from arr)"
    have "sorted_wrt (\<lambda>x y. 0 < cmp x y) ?s"
      by (rule sorted_nth_desc) (use l assms in \<open>auto simp: nth_drop\<close>)
    then have st: "stable_sort cmp ?s (rev ?s)" by (rule stable_sort_desc)
    have "reverse_run (drop from arr) l = Some (rev ?s @ drop (from + l) arr)"
      using reverse_run_ok [of l "drop from arr"] l assms by (simp add: add.commute)
    then have "natural_run cmp n from arr = Some (l, take from arr @ rev ?s @ drop (from + l) arr)"
      using True g desc l(1) by (simp add: natural_run_def)
    then show ?thesis using st l(2,3) by (intro exI [of _ l] exI [of _ "rev ?s"]) simp
  next
    case asc: False
    have "\<forall>k. Suc k < 2 \<longrightarrow> cmp (arr ! (from + k)) (arr ! (from + Suc k)) \<le> 0" using asc by (auto simp: less_Suc_eq numeral_2_eq_2)
    with extend_run_ok [of 2 "from" n arr False cmp] True assms(2) obtain l where
      l: "extend_run cmp False n from 2 arr = Some l" "2 \<le> l" "from + l \<le> n"
        "\<forall>k. Suc k < l \<longrightarrow> cmp (arr ! (from + k)) (arr ! (from + Suc k)) \<le> 0" by auto
    let ?s = "take l (drop from arr)"
    have "cmp_sorted cmp ?s" by (rule sorted_nth_asc) (use l assms in \<open>auto simp: nth_drop\<close>)
    then have st: "stable_sort cmp ?s ?s" by (rule stable_sort_sorted)
    have "arr = take from arr @ ?s @ drop (from + l) arr" by (rule split3)
    then have "natural_run cmp n from arr = Some (l, take from arr @ ?s @ drop (from + l) arr)"
      using True g asc l(1) by (simp add: natural_run_def)
    then show ?thesis using st l(2,3) by (intro exI [of _ l] exI [of _ ?s]) simp
  qed
qed

end

subsection \<open>The stack of runs\<close>

text \<open>
  \<open>orig\<close> is the array before the sort. A segment holds a permutation of what it held at the start, and
  if the allocations of the insertion sort succeed (\<open>P\<close>) it is a stable sort of it.
\<close>

definition seg_ok :: "('e \<Rightarrow> 'e \<Rightarrow> int) \<Rightarrow> bool \<Rightarrow> 'e list \<Rightarrow> 'e list \<Rightarrow> bool" where
  "seg_ok cmp P xs ys \<longleftrightarrow> mset ys = mset xs \<and> (P \<longrightarrow> stable_sort cmp xs ys)"

fun runs_ok :: "('e \<Rightarrow> 'e \<Rightarrow> int) \<Rightarrow> bool \<Rightarrow> 'e list \<Rightarrow> 'e list \<Rightarrow> nat \<Rightarrow> run_t list \<Rightarrow> bool" where
  "runs_ok cmp P orig arr from [] \<longleftrightarrow> from = 0"
| "runs_ok cmp P orig arr from (r # rs) \<longleftrightarrow>
     run_start r + run_len r = from \<and>
     seg_ok cmp P (take (run_len r) (drop (run_start r) orig)) (take (run_len r) (drop (run_start r) arr)) \<and>
     runs_ok cmp P orig arr (run_start r) rs"

lemma take_drop_take: "s + l \<le> f \<Longrightarrow> take f a = take f b \<Longrightarrow> take l (drop s a) = take l (drop s b)"
  by (metis add.commute drop_take le_add_diff_inverse2 min.absorb1 min.absorb2 take_drop take_take)

lemma runs_ok_cong:
  "runs_ok cmp P orig arr from st \<Longrightarrow> take from arr = take from arr' \<Longrightarrow> runs_ok cmp P orig arr' from st"
proof (induction st arbitrary: "from")
  case (Cons r rs)
  have "take (run_start r) arr = take (run_start r) arr'"
    using Cons.prems by (metis (no_types, lifting) le_add1 min.absorb1 runs_ok.simps(2) take_take)
  moreover have "take (run_len r) (drop (run_start r) arr) = take (run_len r) (drop (run_start r) arr')"
    using Cons.prems take_drop_take [of "run_start r" "run_len r" "from" arr arr'] by simp
  ultimately show ?case using Cons by simp
qed simp

text \<open>The state of the sort: the elements before \<open>from\<close> are in the runs of the stack, the others untouched.\<close>

definition sort_state ::
    "('e \<Rightarrow> 'e \<Rightarrow> int) \<Rightarrow> bool \<Rightarrow> 'e list \<Rightarrow> nat \<Rightarrow> nat \<Rightarrow> run_t list \<Rightarrow> 'e list \<times> 'e list \<Rightarrow> bool" where
  "sort_state cmp P orig n from st s \<longleftrightarrow>
     runs_ok cmp P orig (fst s) from st \<and> from \<le> n \<and> n \<le> length orig \<and> length (fst s) = length orig \<and>
     drop from (fst s) = drop from orig \<and> n div 2 + n mod 2 \<le> length (snd s)"

lemma stack_cases:
  obtains "length st \<le> 1" | r2 r1 where "st = [r2, r1]" | r2 r1 r0 rs where "st = r2 # r1 # r0 # rs"
proof (cases st)
  case (Cons r2 st1)
  then show ?thesis using that
  proof (cases st1)
    case (Cons r1 st2)
    then show ?thesis using that(2,3) \<open>st = r2 # st1\<close> by (cases st2) auto
  qed simp
qed (use that in simp)

context comparator
begin

lemma merge_top_ok:
  assumes r: "runs_ok cmp P orig arr from (b # a # rs)" and n: "from \<le> n" "n \<le> length orig" "length arr = length orig"
    and sc: "n div 2 + n mod 2 \<le> length scratch"
  shows "\<exists>c arr' scratch'. merge_top cmp b a (arr, scratch) = Some (c, arr', scratch') \<and>
    runs_ok cmp P orig arr' from (c # rs) \<and> length arr' = length orig \<and> drop from arr' = drop from arr \<and>
    length scratch' = length scratch"
proof -
  let ?s = "run_start a" and ?k = "run_len a" and ?l = "run_len b"
  let ?pre = "take ?s arr" and ?xs = "take ?k (drop ?s arr)" and ?ys = "take ?l (drop (?s + ?k) arr)" and ?post = "drop from arr"
  have p: "run_start b = ?s + ?k" "?s + ?k + ?l = from" using r by auto
  have arr: "arr = ?pre @ ?xs @ ?ys @ ?post"
    using split3 [of arr ?s ?k] split3 [of "drop (?s + ?k) arr" 0 ?l] p(2) by (simp add: add.commute add.assoc)
  have len: "length ?pre = ?s" "length ?xs = ?k" "length ?ys = ?l" using p n by simp_all
  have "min ?k ?l \<le> length scratch" using p n sc by linarith
  with merge_runs_ok [OF arr, of scratch cmp] len comparator_axioms obtain zs scratch' where
    z: "merge_runs cmp ?s ?k ?l (arr, scratch) = Some (?pre @ zs @ ?post, scratch')" "length scratch' = length scratch"
      "mset zs = mset ?xs + mset ?ys" "cmp_sorted cmp ?xs \<longrightarrow> cmp_sorted cmp ?ys \<longrightarrow> zs = merge_by cmp ?xs ?ys" by auto
  let ?c = "a\<lparr>run_len := ?k + ?l\<rparr>" and ?arr = "?pre @ zs @ ?post"
  have lz: "length zs = ?k + ?l" using arg_cong [OF z(3), of size] len by simp
  have seg: "take (?k + ?l) (drop ?s ?arr) = zs" using lz len by simp
  have orig: "take (?k + ?l) (drop ?s orig) = take ?k (drop ?s orig) @ take ?l (drop (?s + ?k) orig)"
    by (simp add: take_add add.commute)
  have "seg_ok cmp P (take (?k + ?l) (drop ?s orig)) zs"
    using r z(3,4) stable_sort_merge [of "take ?k (drop ?s orig)" ?xs "take ?l (drop (?s + ?k) orig)" ?ys]
    unfolding orig p(1) [symmetric] by (auto simp: seg_ok_def stable_sort_def p(1))
  moreover have "?s \<le> length arr" using p n by simp
  then have "runs_ok cmp P orig ?arr ?s rs" using r runs_ok_cong [of cmp P orig arr ?s rs ?arr] by simp
  ultimately have "runs_ok cmp P orig ?arr from (?c # rs)" using seg p by simp
  moreover have "drop from ?arr = drop from arr" "length ?arr = length orig" using lz len p n by simp_all
  ultimately show ?thesis using z(1,2) by (simp add: merge_top_def)
qed

lemma merge_first_ok:
  assumes "sort_state cmp P orig n from (b # a # rs) s"
  shows "\<exists>c s'. merge_top cmp b a s = Some (c, s') \<and> sort_state cmp P orig n from (c # rs) s'"
proof -
  obtain arr scratch where s: "s = (arr, scratch)" by (cases s)
  show ?thesis using merge_top_ok [of P orig arr "from" b a rs n scratch] assms s
    by (auto simp: sort_state_def simp del: runs_ok.simps)
qed

lemma merge_second_ok:
  assumes "sort_state cmp P orig n from (t # b # a # rs) s"
  shows "\<exists>c s'. merge_top cmp b a s = Some (c, s') \<and> sort_state cmp P orig n from (t # c # rs) s'"
proof -
  obtain arr scratch where s: "s = (arr, scratch)" by (cases s)
  let ?m = "run_start t"
  have r: "runs_ok cmp P orig arr ?m (b # a # rs)" "?m + run_len t = from"
    using assms s by (simp_all add: sort_state_def)
  obtain c arr' scratch' where c: "merge_top cmp b a (arr, scratch) = Some (c, arr', scratch')"
    "runs_ok cmp P orig arr' ?m (c # rs)" "length arr' = length orig" "drop ?m arr' = drop ?m arr"
    "length scratch' = length scratch"
    using merge_top_ok [OF r(1), of n scratch] assms s r(2) by (auto simp: sort_state_def simp del: runs_ok.simps)
  have "drop from arr' = drop from arr" using c(4) r(2) by (metis add.commute drop_drop)
  then show ?thesis using assms s c by (auto simp: sort_state_def)
qed

lemma spill_ok:
  "sort_state cmp P orig n from st s \<Longrightarrow> \<exists>st' s'. spill_stack cmp st s = Some (st', s') \<and>
     sort_state cmp P orig n from st' s' \<and> length st' < 64"
proof (induction "length st" arbitrary: st s rule: less_induct)
  case less
  show ?case
  proof (cases "64 \<le> length st")
    case True
    obtain r2 r1 rs where st: "st = r2 # r1 # rs"
      by (rule stack_cases [of st]) (use True that in auto)
    from merge_first_ok [OF less.prems [unfolded st]] obtain c s' where
      c: "merge_top cmp r2 r1 s = Some (c, s')" "sort_state cmp P orig n from (c # rs) s'" by blast
    from less.hyps [OF _ c(2)] st c(1) True show ?thesis by (cases s, subst spill_stack.simps) simp
  next
    case False
    then show ?thesis using less.prems by (cases s, subst spill_stack.simps) (auto split: list.split)
  qed
qed

lemma balance_ok:
  "sort_state cmp P orig n from st s \<Longrightarrow> \<exists>st' s'. merge_balance cmp st s = Some (st', s') \<and>
     sort_state cmp P orig n from st' s'"
proof (induction "length st" arbitrary: st s rule: less_induct)
  case less
  consider (short) "length st \<le> 1" | (two) r2 r1 where "st = [r2, r1]" | (more) r2 r1 r0 rs where "st = r2 # r1 # r0 # rs"
    by (rule stack_cases)
  then show ?case
  proof cases
    case short
    then show ?thesis using less.prems by (cases s, subst merge_balance.simps) (auto split: list.split)
  next
    case two
    from merge_first_ok [OF less.prems [unfolded two]] obtain c s' where
      c: "merge_top cmp r2 r1 s = Some (c, s')" "sort_state cmp P orig n from [c] s'" by blast
    from less.hyps [OF _ c(2)] less.prems c(1) two show ?thesis
      by (cases s, subst merge_balance.simps) auto
  next
    case more
    from merge_first_ok [OF less.prems [unfolded more]] obtain c s' where
      c: "merge_top cmp r2 r1 s = Some (c, s')" "sort_state cmp P orig n from (c # r0 # rs) s'" by blast
    from merge_second_ok [OF less.prems [unfolded more]] obtain d s2 where
      d: "merge_top cmp r1 r0 s = Some (d, s2)" "sort_state cmp P orig n from (r2 # d # rs) s2" by blast
    from less.hyps [OF _ c(2)] less.hyps [OF _ d(2)] less.prems c(1) d(1) more show ?thesis
      by (cases s, subst merge_balance.simps) auto
  qed
qed

lemma unwind_ok:
  "sort_state cmp P orig n from st s \<Longrightarrow> \<exists>st' s'. unwind_runs cmp st s = Some (st', s') \<and>
     sort_state cmp P orig n from st' s' \<and> length st' \<le> 1"
proof (induction "length st" arbitrary: st s rule: less_induct)
  case less
  consider (short) "length st \<le> 1" | (two) r2 r1 where "st = [r2, r1]" | (more) r2 r1 r0 rs where "st = r2 # r1 # r0 # rs"
    by (rule stack_cases)
  then show ?case
  proof cases
    case short
    then show ?thesis using less.prems by (cases s, subst unwind_runs.simps) (auto split: list.split)
  next
    case two
    from merge_first_ok [OF less.prems [unfolded two]] obtain c s' where
      c: "merge_top cmp r2 r1 s = Some (c, s')" "sort_state cmp P orig n from [c] s'" by blast
    from less.hyps [OF _ c(2)] c(1) two show ?thesis by (cases s, subst unwind_runs.simps) auto
  next
    case more
    from merge_first_ok [OF less.prems [unfolded more]] obtain c s' where
      c: "merge_top cmp r2 r1 s = Some (c, s')" "sort_state cmp P orig n from (c # r0 # rs) s'" by blast
    from merge_second_ok [OF less.prems [unfolded more]] obtain d s2 where
      d: "merge_top cmp r1 r0 s = Some (d, s2)" "sort_state cmp P orig n from (r2 # d # rs) s2" by blast
    from less.hyps [OF _ c(2)] less.hyps [OF _ d(2)] c(1) d(1) more show ?thesis
      by (cases s, subst unwind_runs.simps) auto
  qed
qed

end

context comparator
begin

lemma extend_short_ok:
  assumes k: "key_ok ka custom sz (drop from arr) \<or> \<not> P" and sz: "0 < sz"
    and arr: "arr = take from orig @ c @ drop (from + len) orig" and st: "stable_sort cmp (take len (drop from orig)) c"
    and n: "1 \<le> len" "from + len \<le> n" "n \<le> length orig"
  shows "\<exists>l d. extend_short_run ka custom sz cmp n from (len, arr) = Some (l, take from orig @ d @ drop (from + l) orig) \<and>
    len \<le> l \<and> from + l \<le> n \<and> seg_ok cmp P (take l (drop from orig)) d"
proof (cases "len < 16 \<and> from + len < n")
  case False
  then have "extend_short_run ka custom sz cmp n from (len, arr) = Some (len, arr)"
    by (auto simp: extend_short_run_def)
  then show ?thesis using arr st n
    by (intro exI [of _ len] exI [of _ c]) (auto simp: seg_ok_def stable_sort_def)
next
  case True
  define l where "l = (if 16 < n - from then 16 else n - from)"
  have l: "len \<le> l" "from + l \<le> n" using True by (auto simp: l_def)
  have lc: "length c = len" using stable_sort_length [OF st] n by simp
  have lf: "length (take from orig) = from" using n by simp
  let ?more = "take (l - len) (drop (from + len) orig)"
  have dr: "drop from arr = c @ drop (from + len) orig" unfolding arr using lf by simp
  have tk: "take from arr = take from orig" unfolding arr using lf by simp
  have seg: "take l (drop from arr) = c @ ?more" using dr lc l by simp
  have o: "take l (drop from orig) = take len (drop from orig) @ ?more"
    using l(1) take_add [of len "l - len" "drop from orig"] by (simp add: add.commute)
  have rest: "drop l (drop from arr) = drop (from + l) orig" using dr lc l by (simp add: add.commute)
  have ll: "l \<le> length (drop from arr)" using dr lc l n by simp
  let ?d = "if key_ok ka custom sz (drop from arr) then ref_sort cmp (c @ ?more) else c @ ?more"
  have ins: "insertion_sort_impl ka custom (Some (drop from arr)) l sz (Some cmp) = Some (Some (?d @ drop (from + l) orig))"
    using insertion_sort_impl_eq [OF comparator_axioms ll sz, of ka custom] seg rest append_take_drop_id [of l "drop from arr"] by auto
  have run: "extend_short_run ka custom sz cmp n from (len, arr) = Some (l, take from orig @ ?d @ drop (from + l) orig)"
    using True ins tk by (simp add: extend_short_run_def Let_def l_def [symmetric])
  have "mset c = mset (take len (drop from orig))" "\<forall>v. cmp_class cmp v c = cmp_class cmp v (take len (drop from orig))"
    using st by (simp_all add: stable_sort_def)
  then have "seg_ok cmp P (take l (drop from orig)) ?d"
    using k stable_sort_ref [of "c @ ?more"] unfolding seg_ok_def o by (auto simp: stable_sort_def mset_ref_sort)
  with run l show ?thesis by blast
qed

lemma seg_ok_length: "seg_ok cmp P xs ys \<Longrightarrow> length ys = length xs"
  by (metis seg_ok_def size_mset)

lemma runs_ok_orig_cong:
  "runs_ok cmp P orig arr from st \<Longrightarrow> take from orig = take from orig' \<Longrightarrow> runs_ok cmp P orig' arr from st"
proof (induction st arbitrary: "from")
  case (Cons r rs)
  have "take (run_start r) orig = take (run_start r) orig'"
    using Cons.prems by (metis (no_types, lifting) le_add1 min.absorb1 runs_ok.simps(2) take_take)
  moreover have "take (run_len r) (drop (run_start r) orig) = take (run_len r) (drop (run_start r) orig')"
    using Cons.prems take_drop_take [of "run_start r" "run_len r" "from" orig orig'] by simp
  ultimately show ?case using Cons by simp
qed simp

text \<open>Replacing the untouched elements of the next run, before and after the run is pushed.\<close>

lemma replace_next_ok:
  assumes s: "sort_state cmp P orig n from st (arr, scratch)" and l: "from + l \<le> n" "length d = l"
  shows "sort_state cmp P (take from orig @ d @ drop (from + l) orig) n from st
    (take from arr @ d @ drop (from + l) arr, scratch)"
proof -
  let ?o = "take from orig @ d @ drop (from + l) orig" and ?a = "take from arr @ d @ drop (from + l) arr"
  have a: "length arr = length orig" "n \<le> length orig" "drop from arr = drop from orig"
    "runs_ok cmp P orig arr from st" using s by (simp_all add: sort_state_def)
  have f: "length (take from orig) = from" "length (take from arr) = from" using a l by simp_all
  have "drop (from + l) arr = drop (from + l) orig" using a(3) by (metis add.commute drop_drop)
  then have "drop from ?a = drop from ?o" "length ?a = length ?o" "length ?o = length orig" using f a l by simp_all
  moreover have "runs_ok cmp P ?o ?a from st"
    by (rule runs_ok_orig_cong [OF runs_ok_cong [OF a(4)]]) (use f in simp_all)
  ultimately show ?thesis using s by (simp add: sort_state_def)
qed

lemma push_run_ok:
  assumes s: "sort_state cmp P (take from orig @ d @ drop (from + l) orig) n from st (arr, scratch)"
    and d: "seg_ok cmp P (take l (drop from orig)) d" and l: "from + l \<le> n" "n \<le> length orig"
  shows "sort_state cmp P orig n (from + l) (\<lparr>run_start = from, run_len = l\<rparr> # st) (arr, scratch)"
proof -
  let ?o = "take from orig @ d @ drop (from + l) orig"
  have ld: "length d = l" using seg_ok_length [OF d] l by simp
  have f: "length (take from orig) = from" using l by simp
  have a: "runs_ok cmp P ?o arr from st" "drop from arr = d @ drop (from + l) orig" "length arr = length orig"
    "n div 2 + n mod 2 \<le> length scratch" using s f ld l by (simp_all add: sort_state_def)
  have "runs_ok cmp P orig arr from st" by (rule runs_ok_orig_cong [OF a(1)]) (use f in simp)
  moreover have "take l (drop from arr) = d" using a(2) ld by simp
  moreover have "drop (from + l) arr = drop l (drop from arr)" by (simp add: add.commute)
  then have "drop (from + l) arr = drop (from + l) orig" using a(2) ld by simp
  ultimately show ?thesis using d l a by (simp add: sort_state_def)
qed

text \<open>One iteration: the next run is found, extended if it is short, and pushed.\<close>

lemma collect_step:
  assumes P: "P \<longrightarrow> (\<forall>a. key_ok ka custom sz a)" and sz: "0 < sz"
    and s: "sort_state cmp P orig n from st (arr, scratch)" and lt: "from < n"
  shows "\<exists>len r l arr2 st3 s3. natural_run cmp n from arr = Some (len, r) \<and>
    extend_short_run ka custom sz cmp n from (len, r) = Some (l, arr2) \<and> 1 \<le> l \<and>
    spill_stack cmp st (arr2, scratch) = Some (st3, s3) \<and> length st3 < 64 \<and>
    sort_state cmp P orig n (from + l) (\<lparr>run_start = from, run_len = l\<rparr> # st3) s3"
proof -
  have a: "length arr = length orig" "n \<le> length orig" "drop from arr = drop from orig" "n \<le> length arr"
    using s by (simp_all add: sort_state_def)
  from natural_run_ok [OF lt a(4)] obtain len c where
    r: "natural_run cmp n from arr = Some (len, take from arr @ c @ drop (from + len) arr)" "1 \<le> len" "from + len \<le> n"
      "stable_sort cmp (take len (drop from arr)) c" by auto
  have kk: "key_ok ka custom sz (drop from (take from arr @ c @ drop (from + len) arr)) \<or> \<not> P" using P by blast
  from extend_short_ok [OF kk sz refl r(4,2,3) a(4)] obtain l d where
    x: "extend_short_run ka custom sz cmp n from (len, take from arr @ c @ drop (from + len) arr) =
        Some (l, take from arr @ d @ drop (from + l) arr)"
      "len \<le> l" "from + l \<le> n" "seg_ok cmp P (take l (drop from arr)) d" by blast
  have ld: "length d = l" using seg_ok_length [OF x(4)] a(4) x(3) by simp
  obtain st3 arr3 scr3 where sp: "spill_stack cmp st (take from arr @ d @ drop (from + l) arr, scratch) = Some (st3, arr3, scr3)"
    "sort_state cmp P (take from orig @ d @ drop (from + l) orig) n from st3 (arr3, scr3)" "length st3 < 64"
    using spill_ok [OF replace_next_ok [OF s x(3) ld]] by auto
  have "seg_ok cmp P (take l (drop from orig)) d" using x(4) a(3) by simp
  from push_run_ok [OF sp(2) this x(3) a(2)] r(1,2) x(1,2) sp(1,3) show ?thesis
    by (intro exI conjI) (assumption | simp)+
qed

lemma collect_ok:
  assumes P: "P \<longrightarrow> (\<forall>a. key_ok ka custom sz a)" "0 < sz"
  shows "sort_state cmp P orig n from st s \<Longrightarrow>
    \<exists>st' s'. collect_runs ka custom sz cmp n from st s = Some (st', s') \<and> sort_state cmp P orig n n st' s'"
proof (induction "n - from" arbitrary: "from" st s rule: less_induct)
  case less
  obtain arr scratch where s: "s = (arr, scratch)" by (cases s)
  show ?case
  proof (cases "from < n")
    case False
    then have "from = n" using less.prems by (simp add: sort_state_def)
    then show ?thesis using less.prems s by (subst collect_runs.simps) simp
  next
    case True
    from collect_step [OF P less.prems [unfolded s] True] obtain len r l arr2 st3 s3 where
      c: "natural_run cmp n from arr = Some (len, r)" "extend_short_run ka custom sz cmp n from (len, r) = Some (l, arr2)"
        "1 \<le> l" "spill_stack cmp st (arr2, scratch) = Some (st3, s3)" "length st3 < 64"
        "sort_state cmp P orig n (from + l) (\<lparr>run_start = from, run_len = l\<rparr> # st3) s3" by blast
    from balance_ok [OF c(6)] obtain st4 s4 where
      b: "merge_balance cmp (\<lparr>run_start = from, run_len = l\<rparr> # st3) s3 = Some (st4, s4)"
        "sort_state cmp P orig n (from + l) st4 s4" by blast
    have "collect_runs ka custom sz cmp n from st s = collect_runs ka custom sz cmp n (from + l) st4 s4"
      using True s c(1,2,4,5) b(1) by (subst collect_runs.simps) (cases s3, simp)
    moreover have "n - (from + l) < n - from" using True c(3) by simp
    ultimately show ?thesis using less.hyps [OF _ b(2)] by simp
  qed
qed

lemma adaptive_merge_ok:
  assumes n: "n \<le> length arr" and sz: "0 < sz"
  shows "\<exists>xs. adaptive_merge_sort ka scratch custom arr n sz cmp = Some (xs @ drop n arr) \<and> mset xs = mset (take n arr) \<and>
    ((\<forall>a. key_ok ka custom sz a) \<longrightarrow> xs = ref_sort cmp (take n arr))"
proof (cases "n \<le> 24 \<or> scratch = None")
  case True
  have "adaptive_merge_sort ka scratch custom arr n sz cmp =
      Some (if key_ok ka custom sz arr then ref_sort cmp (take n arr) @ drop n arr else arr)"
    using True insertion_sort_impl_eq [OF comparator_axioms n sz, of ka custom]
    by (auto simp: adaptive_merge_sort_def Let_def split: option.split)
  then show ?thesis
    by (intro exI [of _ "if key_ok ka custom sz arr then ref_sort cmp (take n arr) else take n arr"])
      (auto simp: mset_ref_sort)
next
  case False
  then obtain junk where j: "scratch = Some junk" "24 < n" by auto
  let ?P = "\<forall>a. key_ok ka custom sz a" and ?sc = "map junk [0..<n div 2 + n mod 2]"
  have "sort_state cmp ?P arr n 0 [] (arr, ?sc)" using n by (simp add: sort_state_def)
  from collect_ok [OF _ sz this] obtain st s where
    c: "collect_runs ka custom sz cmp n 0 [] (arr, ?sc) = Some (st, s)" "sort_state cmp ?P arr n n st s" by blast
  from unwind_ok [OF c(2)] obtain st' a b where
    u: "unwind_runs cmp st s = Some (st', a, b)" "sort_state cmp ?P arr n n st' (a, b)" "length st' \<le> 1" by auto
  obtain r where st': "st' = [r]" using u(2,3) j(2) by (cases st') (auto simp: sort_state_def)
  have r: "run_start r = 0" "run_len r = n" "seg_ok cmp ?P (take n arr) (take n a)" "drop n a = drop n arr"
    using u(2) st' by (auto simp: sort_state_def)
  have "adaptive_merge_sort ka scratch custom arr n sz cmp = Some (take n a @ drop n arr)"
    using False j c(1) u(1) r(4) append_take_drop_id [of n a] by (simp add: adaptive_merge_sort_def)
  then show ?thesis using r(3) stable_sort_is_ref by (intro exI [of _ "take n a"]) (auto simp: seg_ok_def)
qed

end

subsection \<open>Partition\<close>

lemma partition_loop_ok:
  assumes "l \<le> r" "r \<le> n" "n \<le> length arr" "\<forall>k<l. cmp (arr ! k) pv < 0" "\<forall>k. r \<le> k \<longrightarrow> k < n \<longrightarrow> 0 \<le> cmp (arr ! k) pv"
  shows "\<exists>m arr'. partition_loop cmp pv l r arr = Some (m, arr') \<and> m \<le> n \<and> mset arr' = mset arr \<and>
    (\<forall>k<m. cmp (arr' ! k) pv < 0) \<and> (\<forall>k. m \<le> k \<longrightarrow> k < n \<longrightarrow> 0 \<le> cmp (arr' ! k) pv) \<and>
    (\<forall>j. n \<le> j \<longrightarrow> arr' ! j = arr ! j)"
  using assms
proof (induction "r - l" arbitrary: l r arr rule: less_induct)
  case less
  show ?case
  proof (cases "l < r")
    case False
    then have "l = r" using less.prems(1) by simp
    then show ?thesis using less.prems by (intro exI [of _ l] exI [of _ arr]) (simp add: partition_loop.simps)
  next
    case True
    have len: "l < length arr" "r - 1 < length arr" using True less.prems by linarith+
    show ?thesis
    proof (cases "cmp (arr ! l) pv < 0")
      case small: True
      have "partition_loop cmp pv l r arr = partition_loop cmp pv (Suc l) r arr"
        using True small len by (subst partition_loop.simps) simp
      then show ?thesis using less.hyps [of r "Suc l" arr] less.prems True small by (auto simp: less_Suc_eq)
    next
      case False
      let ?a = "arr[l := arr ! (r - 1), r - 1 := arr ! l]"
      have s: "partition_loop cmp pv l r arr = partition_loop cmp pv l (r - 1) ?a"
        using True False len by (subst partition_loop.simps) (auto simp: arr_swap_def)
      have a: "mset ?a = mset arr" "length ?a = length arr" using mset_arr_swap [OF len] by simp_all
      have lo: "\<forall>k<l. cmp (?a ! k) pv < 0" using less.prems(4) True by (auto simp: nth_list_update)
      have hi: "\<forall>k. r - 1 \<le> k \<longrightarrow> k < n \<longrightarrow> 0 \<le> cmp (?a ! k) pv"
        using less.prems(3,5) False True len by (auto simp: nth_list_update not_less)
      have eq: "\<forall>j. n \<le> j \<longrightarrow> ?a ! j = arr ! j" using True less.prems(2) by auto
      have "r - 1 - l < r - l" "l \<le> r - 1" "r - 1 \<le> n" "n \<le> length ?a" using True less.prems a(2) by auto
      from less.hyps [OF this lo hi] show ?thesis unfolding s using a(1) eq by fastforce
    qed
  qed
qed

subsection \<open>Unique\<close>

text \<open>The elements of a sorted list that differ from their predecessor.\<close>

fun dedup :: "('e \<Rightarrow> 'e \<Rightarrow> int) \<Rightarrow> 'e \<Rightarrow> 'e list \<Rightarrow> 'e list" where
  "dedup cmp p [] = []"
| "dedup cmp p (x # xs) = (if cmp x p \<noteq> 0 then x # dedup cmp x xs else dedup cmp x xs)"

lemma arr_get_mid: "i = length xs \<Longrightarrow> arr_get (xs @ y # zs) i = Some y"
  by (simp add: arr_get_def)

lemma unique_loop_ok:
  assumes "k \<noteq> []" "p = last (k @ junk)" "wr = length k" "i = length (k @ junk)"
  shows "\<exists>rest. unique_loop cmp wr i (length xs) (k @ junk @ xs @ zs) =
      Some (wr + length (dedup cmp p xs), k @ dedup cmp p xs @ rest @ zs) \<and>
    length (dedup cmp p xs) + length rest = length junk + length xs"
  using assms
proof (induction xs arbitrary: k junk p wr i)
  case Nil
  then show ?case by (intro exI [of _ junk]) simp
next
  case (Cons x xs)
  let ?arr = "k @ junk @ (x # xs) @ zs"
  have gx: "arr_get ?arr i = Some x" using Cons.prems(4) by (simp add: arr_get_def nth_append)
  have "k @ junk = butlast (k @ junk) @ [p]" using Cons.prems(1,2) by (metis append_butlast_last_id append_is_Nil_conv)
  then have arr: "?arr = butlast (k @ junk) @ p # x # xs @ zs" "length (butlast (k @ junk)) = i - 1"
    using Cons.prems(4) by (metis append.assoc append_Cons append_Nil, simp)
  have gp: "arr_get ?arr (i - 1) = Some p" unfolding arr(1) by (rule arr_get_mid) (use arr(2) in simp)
  show ?case
  proof (cases "cmp x p = 0")
    case True
    from Cons.IH [of k x "junk @ [x]" wr "i + 1"] Cons.prems True gx gp show ?thesis by auto
  next
    case False
    show ?thesis
    proof (cases junk)
      case Nil
      with Cons.IH [of "k @ [x]" x "[]" "wr + 1" "i + 1"] Cons.prems False gx gp show ?thesis by auto
    next
      case j: (Cons d junk')
      have "arr_set wr x ?arr = Some ((k @ [x]) @ (junk' @ [x]) @ xs @ zs)"
        using Cons.prems(3) j by (simp add: arr_set_def list_update_append)
      with Cons.IH [of "k @ [x]" x "junk' @ [x]" "wr + 1" "i + 1"] Cons.prems False gx gp j show ?thesis by auto
    qed
  qed
qed

context comparator
begin

lemma dedup_sorted:
  "cmp_sorted cmp (p # xs) \<Longrightarrow> sorted_wrt (\<lambda>a b. cmp a b < 0) (dedup cmp p xs) \<and> (\<forall>y\<in>set (dedup cmp p xs). cmp p y < 0) \<and>
   (\<forall>x\<in>set xs. cmp x p = 0 \<or> (\<exists>y\<in>set (dedup cmp p xs). cmp x y = 0))"
proof (induction xs arbitrary: p)
  case (Cons x xs)
  have s: "cmp_sorted cmp (x # xs)" "cmp p x \<le> 0" using Cons.prems by auto
  note ih = Cons.IH [OF s(1)]
  show ?case
  proof (cases "cmp x p = 0")
    case True
    have "cmp p y < 0" if "cmp x y < 0" for y using cmp_le_less_trans [OF s(2) that] .
    moreover have "cmp z p = 0" if "cmp z x = 0" for z
      using cmp_cong_right [OF True, of z] that by (simp add: sgn_if split: if_splits)
    ultimately show ?thesis using ih True by auto
  next
    case False
    then have "cmp p x \<noteq> 0" using cmp_eq_sym [of p x] by auto
    with s(2) have "cmp p x < 0" by simp
    moreover have "cmp p y < 0" if "cmp x y < 0" for y using cmp_le_less_trans [OF s(2) that] .
    ultimately show ?thesis using ih False cmp_refl [of x] by auto
  qed
qed simp

end

subsection \<open>Swapping\<close>

lemma bytes_nth: "i < w \<Longrightarrow> bytes_load m p w ! i = m (p + i)"
  by (simp add: bytes_load_def)

lemma bytes_len [simp]: "length (bytes_load m p w) = w"
  by (simp add: bytes_load_def)

definition apart :: "nat \<Rightarrow> nat \<Rightarrow> nat \<Rightarrow> bool" where
  "apart p q n \<longleftrightarrow> p + n \<le> q \<or> q + n \<le> p"

lemma swap_unit:
  fixes m :: bytes_mem
  assumes "apart p q w"
  defines "m' \<equiv> bytes_store q (bytes_load m p w) (bytes_store p (bytes_load m q w) m)"
  shows "t < w \<Longrightarrow> m' (p + t) = m (q + t)" "t < w \<Longrightarrow> m' (q + t) = m (p + t)"
    "x < p \<or> p + w \<le> x \<Longrightarrow> x < q \<or> q + w \<le> x \<Longrightarrow> m' x = m x"
  using assms by (auto simp: m'_def bytes_store_def bytes_nth apart_def)

lemma swap_units_step:
  "swap_units w p q (Suc n) m =
     swap_units w (p + w) (q + w) n (bytes_store q (bytes_load m p w) (bytes_store p (bytes_load m q w) m))"
  by (simp add: Let_def)

lemma apart_Suc: "apart p q (w * Suc n) \<Longrightarrow> apart p q w \<and> apart (p + w) (q + w) (w * n)"
  by (auto simp: apart_def)

lemma swap_units_outside:
  "apart p q (w * n) \<Longrightarrow> x < p \<or> p + w * n \<le> x \<Longrightarrow> x < q \<or> q + w * n \<le> x \<Longrightarrow> swap_units w p q n m x = m x"
proof (induction n arbitrary: p q m)
  case (Suc n)
  note a = apart_Suc [OF Suc.prems(1)]
  define W where "W = w * n"
  have W: "w * Suc n = w + W" by (simp add: W_def)
  have x: "x < p + w \<or> p + w + W \<le> x" "x < q + w \<or> q + w + W \<le> x" "x < p \<or> p + w \<le> x" "x < q \<or> q + w \<le> x"
    using Suc.prems(2,3) unfolding W by linarith+
  show ?case unfolding swap_units_step
    using Suc.IH [OF conjunct2 [OF a] x(1,2) [unfolded W_def]] swap_unit(3) [OF conjunct1 [OF a] x(3,4)] by simp
qed simp

lemma swap_units_inside:
  "apart p q (w * n) \<Longrightarrow> t < w * n \<Longrightarrow>
   swap_units w p q n m (p + t) = m (q + t) \<and> swap_units w p q n m (q + t) = m (p + t)"
proof (induction n arbitrary: p q m t)
  case (Suc n)
  note a = apart_Suc [OF Suc.prems(1)]
  define W where "W = w * n"
  have d: "p + (w + W) \<le> q \<or> q + (w + W) \<le> p" "t < w + W" using Suc.prems by (simp_all add: apart_def W_def)
  show ?case
  proof (cases "t < w")
    case True
    have o: "p + t < q + w \<or> q + w + W \<le> p + t" "q + t < p + w \<or> p + w + W \<le> q + t" using d True by linarith+
    show ?thesis unfolding swap_units_step
      using swap_units_outside [OF conjunct2 [OF a], of "p + t"] swap_units_outside [OF conjunct2 [OF a], of "q + t"]
        swap_unit(1,2) [OF conjunct1 [OF a] True, of m] o True by (simp add: W_def)
  next
    case False
    then obtain u where u: "t = w + u" "u < W" using d(2) by (metis add_less_cancel_left le_Suc_ex not_less)
    have o: "p + w + u < q \<or> q + w \<le> p + w + u" "q + w + u < p \<or> p + w \<le> q + w + u" using d u by linarith+
    show ?thesis unfolding swap_units_step
      using Suc.IH [OF conjunct2 [OF a], of u] u swap_unit(3) [OF conjunct1 [OF a], of "p + w + u" m]
        swap_unit(3) [OF conjunct1 [OF a], of "q + w + u" m] o by (simp add: W_def add.assoc)
  qed
qed simp

lemma or_and_zero: "(a OR b OR c) AND (2 ^ k - 1) = 0 \<Longrightarrow> c mod 2 ^ k = 0" for a b c :: nat
proof -
  assume "(a OR b OR c) AND (2 ^ k - 1) = 0"
  then have "take_bit k (a OR b OR c) = 0" by (simp only: and_mask_nat take_bit_eq_mod)
  then have "take_bit k c = 0" by (auto simp: take_bit_or bit_eq_iff bit_or_iff)
  then show ?thesis by (simp add: take_bit_eq_mod)
qed

lemma swap_bytes_units:
  obtains w n where "w * n = sz" "a \<noteq> b \<Longrightarrow> cobalt_swap_bytes a b sz m = swap_units w a b n m"
proof -
  consider (eight) "(a OR b OR sz) AND (8 - 1) = 0"
    | (four) "(a OR b OR sz) AND (8 - 1) \<noteq> 0" "(a OR b OR sz) AND (4 - 1) = 0"
    | (one) "(a OR b OR sz) AND (8 - 1) \<noteq> 0" "(a OR b OR sz) AND (4 - 1) \<noteq> 0" by blast
  then show ?thesis
  proof cases
    case eight
    have "sz mod 8 = 0" using or_and_zero [of a b sz 3] eight by simp
    then have "8 * (sz div 8) = sz" by auto
    then show ?thesis using that [of 8 "sz div 8"] eight by (simp add: cobalt_swap_bytes_def)
  next
    case four
    have "sz mod 4 = 0" using or_and_zero [of a b sz 2] four(2) by simp
    then have "4 * (sz div 4) = sz" by auto
    then show ?thesis using that [of 4 "sz div 4"] four by (simp add: cobalt_swap_bytes_def)
  next
    case one
    then show ?thesis using that [of 1 sz] by (simp add: cobalt_swap_bytes_def)
  qed
qed

lemma swap_bytes_ok:
  assumes "a \<noteq> b" "apart a b sz"
  shows "t < sz \<Longrightarrow> cobalt_swap_bytes a b sz m (a + t) = m (b + t)"
    "t < sz \<Longrightarrow> cobalt_swap_bytes a b sz m (b + t) = m (a + t)"
    "x < a \<or> a + sz \<le> x \<Longrightarrow> x < b \<or> b + sz \<le> x \<Longrightarrow> cobalt_swap_bytes a b sz m x = m x"
proof -
  obtain w n where w: "w * n = sz" "cobalt_swap_bytes a b sz m = swap_units w a b n m"
    using swap_bytes_units [of sz a b m] assms(1) by metis
  have ap: "apart a b (w * n)" using assms(2) w(1) by simp
  show "t < sz \<Longrightarrow> cobalt_swap_bytes a b sz m (a + t) = m (b + t)"
    "t < sz \<Longrightarrow> cobalt_swap_bytes a b sz m (b + t) = m (a + t)"
    using swap_units_inside [OF ap, of t m] w by simp_all
  show "x < a \<or> a + sz \<le> x \<Longrightarrow> x < b \<or> b + sz \<le> x \<Longrightarrow> cobalt_swap_bytes a b sz m x = m x"
    using swap_units_outside [OF ap, of x m] w by simp
qed

text \<open>The elements of an array of \<open>n\<close> elements of \<open>sz\<close> bytes at address \<open>base\<close>.\<close>

definition elements :: "nat \<Rightarrow> nat \<Rightarrow> nat \<Rightarrow> bytes_mem \<Rightarrow> 8 word list list" where
  "elements base n sz m = map (\<lambda>i. bytes_load m (base + i * sz) sz) [0..<n]"

lemma elem_apart: "i \<noteq> j \<Longrightarrow> apart (base + i * sz) (base + j * sz) sz"
proof (cases "i < j")
  case True
  then have "Suc i * sz \<le> j * sz" by (intro mult_le_mono1) simp
  then show ?thesis by (simp add: apart_def)
next
  case False
  moreover assume "i \<noteq> j"
  ultimately have "Suc j * sz \<le> i * sz" by (intro mult_le_mono1) simp
  then show ?thesis by (simp add: apart_def)
qed

subsection \<open>Properties\<close>

text \<open>
  C28: \<open>cobalt_swap_bytes\<close> on two elements of an array in memory, whichever of its three unit widths the
  alignment selects, exchanges the two elements and changes no other byte of the array: it is the swap
  of two list elements that the model of the sorting routines uses.
\<close>

theorem swap_bytes_swaps:
  assumes "i < n" "j < n"
  shows "arr_swap i j (elements base n sz m) =
    Some (elements base n sz (cobalt_swap_bytes (base + i * sz) (base + j * sz) sz m))"
proof (cases "i = j")
  case True
  then show ?thesis using assms list_update_id [of "elements base n sz m" j]
    by (simp add: cobalt_swap_bytes_def arr_swap_def elements_def del: list_update_id)
next
  case False
  let ?a = "base + i * sz" and ?b = "base + j * sz"
  let ?m = "cobalt_swap_bytes ?a ?b sz m"
  have el: "bytes_load ?m (base + k * sz) sz =
      bytes_load m (base + (if k = i then j else if k = j then i else k) * sz) sz" for k
  proof (cases "sz = 0")
    case pos: False
    then have ne: "?a \<noteq> ?b" using False by simp
    note sw = swap_bytes_ok [OF ne elem_apart [OF False]]
    show ?thesis
    proof (rule nth_equalityI)
      fix x assume "x < length (bytes_load ?m (base + k * sz) sz)"
      then have x: "x < sz" by simp
      have out: "base + k * sz + x < base + l * sz \<or> base + l * sz + sz \<le> base + k * sz + x" if "k \<noteq> l" for l
        using elem_apart [OF that, of base sz] x unfolding apart_def by linarith
      show "bytes_load ?m (base + k * sz) sz ! x = bytes_load m (base + (if k = i then j else if k = j then i else k) * sz) sz ! x"
        using x sw(1,2) [OF x, of m] sw(3) [OF out out, of m] by (auto simp: bytes_nth)
    qed simp
  qed (simp add: bytes_load_def)
  show ?thesis using assms False
    by (auto simp: elements_def el nth_list_update intro!: nth_equalityI)
qed

theorem swap_bytes_swaps_witness:
  "arr_swap 0 1 (elements 16 2 8 (\<lambda>a. of_nat a)) =
    Some (elements 16 2 8 (cobalt_swap_bytes (16 + 0 * 8) (16 + 1 * 8) 8 (\<lambda>a. of_nat a)))"
  by (rule swap_bytes_swaps [of 0 2 1 16 8]) simp_all

text \<open>
  C16: \<open>cobalt_qsort\<close> and \<open>cobalt_heapsort\<close> end, stay inside the array and leave the first \<open>nmemb\<close> elements
  in the order of the comparator; nothing is lost or duplicated and the elements behind are untouched.
  For elements of at most 128 bytes this holds whatever \<open>malloc\<close> answers; for larger elements it holds when the allocations of the
  one-element buffer of the insertion sort succeed (\<open>cobalt_heapsort\<close> needs no memory).
\<close>

theorem qsort_sorts:
  assumes "comparator c" "n \<le> length arr" "0 < sz"
  shows "(sz \<le> 128 \<or> (\<forall>a. key_alloc a) \<longrightarrow>
      (\<exists>xs. cobalt_qsort key_alloc (Some arr) n sz (Some c) = Some (Some (xs @ drop n arr)) \<and> cmp_sorted c xs \<and> mset xs = mset (take n arr))) \<and>
    (\<exists>ys. cobalt_heapsort (Some arr) n sz (Some c) = Some (Some (ys @ drop n arr)) \<and> cmp_sorted c ys \<and> mset ys = mset (take n arr))"
proof (cases "n \<le> 1")
  case True
  then have "cmp_sorted c (take n arr)" by (cases arr; cases n) auto
  with True show ?thesis
    by (intro conjI impI exI [of _ "take n arr"]) (simp_all add: cobalt_qsort_def cobalt_heapsort_def)
next
  case False
  have "\<exists>xs. pdqsort_loop key_alloc arr n sz c (int (2 * pdq_log2 n)) = Some (xs @ drop n arr) \<and> cmp_sorted c xs \<and> mset xs = mset (take n arr)"
    if "sz \<le> 128 \<or> (\<forall>a. key_alloc a)"
  proof -
    have "\<forall>a. key_ok key_alloc False sz a" using that by (simp add: key_ok_def)
    then show ?thesis
      using comparator.pdqsort_ok [OF assms, of key_alloc "int (2 * pdq_log2 n)"] by (auto simp: sorts_def)
  qed
  moreover obtain ys where "cobalt_heapsort_impl arr n c = Some (ys @ drop n arr)" "cmp_sorted c ys"
    "mset ys = mset (take n arr)" using comparator.heapsort_ok [OF assms(1,2)] by blast
  ultimately show ?thesis using False assms(3) by (auto simp: cobalt_qsort_def cobalt_heapsort_def)
qed

theorem qsort_sorts_witness:
  "\<exists>xs. cobalt_qsort (\<lambda>_. False) (Some [3, 1, 2]) 3 8 (Some int_cmp) = Some (Some xs) \<and> cmp_sorted int_cmp xs \<and>
    mset xs = {#1, 2, 3#}"
  using qsort_sorts [OF int_cmp_comparator, of 3 "[3, 1, 2]" 8 "\<lambda>_. False"]
  by (auto simp: add_mset_commute numeral_eq_Suc)

text \<open>Without memory for the one-element buffer the quicksort returns a short array of large elements as it was.\<close>

lemma qsort_allocation_failure:
  "cobalt_qsort (\<lambda>_. False) (Some [2, 1]) 2 129 (Some int_cmp) = Some (Some [2, 1])"
  by code_simp

text \<open>
  C7: \<open>cobalt_stable_sort\<close> and \<open>cobalt_insertion_sort\<close> leave the first \<open>nmemb\<close> elements in the order of the
  reference stable sort: natural runs, forced runs and the balanced merges change nothing of the result.
  For elements of at most 128 bytes this holds whatever the allocator answers; in general it holds
  when no allocation of the one-element buffer fails.
\<close>

theorem stable_sort_is_reference:
  assumes "comparator c" "n \<le> length arr" "0 < sz" "sz \<le> 128 \<or> (\<forall>a. key_alloc a)"
  shows "cobalt_stable_sort key_alloc scratch (Some arr) n sz (Some c) = Some (Some (ref_sort c (take n arr) @ drop n arr)) \<and>
    cobalt_insertion_sort key_alloc (Some arr) n sz (Some c) = Some (Some (ref_sort c (take n arr) @ drop n arr)) \<and>
    ((\<forall>a. key_alloc a) \<longrightarrow>
      cobalt_stable_sort_with_alloc key_alloc scratch (Some arr) n sz (Some c) = Some (Some (ref_sort c (take n arr) @ drop n arr)))"
proof -
  have k: "\<forall>a. key_ok key_alloc False sz a" "(\<forall>a. key_alloc a) \<longrightarrow> (\<forall>a. key_ok key_alloc True sz a)"
    using assms(4) by (auto simp: key_ok_def)
  have short: "ref_sort c (take n arr) @ drop n arr = arr" if "n \<le> 1" using that by (simp add: ref_sort_short)
  have "adaptive_merge_sort key_alloc scratch False arr n sz c = Some (ref_sort c (take n arr) @ drop n arr)"
    using comparator.adaptive_merge_ok [OF assms(1-3), of key_alloc scratch False] k(1) by auto
  moreover have "(\<forall>a. key_alloc a) \<longrightarrow>
      adaptive_merge_sort key_alloc scratch True arr n sz c = Some (ref_sort c (take n arr) @ drop n arr)"
    using comparator.adaptive_merge_ok [OF assms(1-3), of key_alloc scratch True] k(2) by auto
  ultimately show ?thesis
    using short insertion_sort_impl_eq [OF assms(1-3), of key_alloc False] k(1) assms(3)
    by (simp add: cobalt_stable_sort_def cobalt_stable_sort_with_alloc_def cobalt_insertion_sort_def)
qed

theorem stable_sort_is_reference_witness:
  "cobalt_stable_sort (\<lambda>_. False) None (Some [3, 1, 2]) 3 8 (Some int_cmp) = Some (Some [1, 2, 3])"
proof -
  have "ref_sort int_cmp (take 3 [3, 1, 2]) = [1, 2, 3]" by (simp add: ref_sort_def int_cmp_def numeral_eq_Suc)
  with stable_sort_is_reference [OF int_cmp_comparator, of 3 "[3, 1, 2]" 8 "\<lambda>_. False" None] show ?thesis by simp
qed

text \<open>
  if allocations of the one-element buffer fail, \<open>cobalt_stable_sort_with_alloc\<close> still returns a
  permutation of the array, but not a sorted one: a failure is silent. Two elements in the wrong order
  are left as they are.
\<close>

theorem stable_sort_allocation_failure:
  assumes "comparator c" "n \<le> length arr" "0 < sz"
  shows "(\<exists>xs. cobalt_stable_sort_with_alloc key_alloc scratch (Some arr) n sz (Some c) = Some (Some (xs @ drop n arr)) \<and>
      mset xs = mset (take n arr)) \<and>
    cobalt_stable_sort_with_alloc (\<lambda>_. False) scratch (Some [x, y]) 2 sz (Some c) = Some (Some [x, y])"
proof -
  have "\<exists>xs. adaptive_merge_sort key_alloc scratch True arr n sz c = Some (xs @ drop n arr) \<and> mset xs = mset (take n arr)"
    using comparator.adaptive_merge_ok [OF assms, of key_alloc scratch True] by blast
  then show ?thesis using assms(3)
    by (auto simp: cobalt_stable_sort_with_alloc_def adaptive_merge_sort_def insertion_sort_impl_def
        intro: exI [of _ "take n arr"])
qed

theorem stable_sort_allocation_failure_witness:
  "cobalt_stable_sort_with_alloc (\<lambda>_. False) None (Some [2, 1]) 2 8 (Some int_cmp) = Some (Some [2, 1])"
  using stable_sort_allocation_failure [OF int_cmp_comparator, of 0 "[]" 8 "\<lambda>_. False" None 2 1] by simp

text \<open>
  C30: \<open>cobalt_partition\<close> ends, stays inside the array and returns the boundary: the elements before it
  are smaller than the pivot, the others are not, and the array is a permutation of what it was.
\<close>

theorem partition_splits:
  assumes "0 < n" "n \<le> length arr" "0 < sz"
  shows "\<exists>m arr'. cobalt_partition (Some arr) n sz (Some pv) (Some c) = Some (m, Some arr') \<and> m \<le> n \<and>
    mset arr' = mset arr \<and> (\<forall>k<m. c (arr' ! k) pv < 0) \<and> (\<forall>k. m \<le> k \<and> k < n \<longrightarrow> 0 \<le> c (arr' ! k) pv) \<and>
    (\<forall>j. n \<le> j \<longrightarrow> arr' ! j = arr ! j)"
  using partition_loop_ok [of 0 n n arr c pv] assms
  by (auto simp: cobalt_partition_def partition_impl_def)

theorem partition_splits_witness:
  "\<exists>m arr'. cobalt_partition (Some [5, 1, 4]) 3 8 (Some 3) (Some int_cmp) = Some (m, Some arr') \<and>
    (\<forall>k<m. int_cmp (arr' ! k) 3 < 0) \<and> mset arr' = mset [5, 1, 4]"
  using partition_splits [of 3 "[5, 1, 4]" 8 3 int_cmp] by auto

text \<open>
  C29: on a sorted array \<open>cobalt_unique\<close> leaves at the front the elements without duplicates: they are
  strictly increasing, come from the array, and every element of the array equals one of them.
\<close>

theorem unique_removes_duplicates:
  assumes "comparator c" "cmp_sorted c arr" "1 < length arr"
  shows "\<exists>w arr'. cobalt_unique (Some arr) (Some (length arr)) (Some c) = Some (w, Some w, Some arr') \<and> w \<le> length arr \<and>
    length arr' = length arr \<and> sorted_wrt (\<lambda>a b. c a b < 0) (take w arr') \<and> set (take w arr') \<subseteq> set arr \<and>
    (\<forall>x\<in>set arr. \<exists>y\<in>set (take w arr'). c x y = 0)"
proof -
  obtain p xs where arr: "arr = p # xs" using assms(3) by (cases arr) auto
  obtain rest where r: "unique_loop c 1 1 (length xs) arr = Some (1 + length (dedup c p xs), p # dedup c p xs @ rest)"
    "length (dedup c p xs) + length rest = length xs"
    using unique_loop_ok [of "[p]" p "[]" 1 1 c xs "[]"] arr by auto
  have s: "sorted_wrt (\<lambda>a b. c a b < 0) (dedup c p xs)" "\<forall>y\<in>set (dedup c p xs). c p y < 0"
    "\<forall>x\<in>set xs. c x p = 0 \<or> (\<exists>y\<in>set (dedup c p xs). c x y = 0)"
    using comparator.dedup_sorted [OF assms(1), of p xs] assms(2) arr by simp_all
  have sub: "set (dedup c q ys) \<subseteq> set ys" for q ys by (induction ys arbitrary: q) (auto split: if_splits)
  have pp: "c p p = 0" by (rule comparator.cmp_refl [OF assms(1)])
  have t: "take (1 + length (dedup c p xs)) (p # dedup c p xs @ rest) = p # dedup c p xs" by simp
  have "cobalt_unique (Some arr) (Some (length arr)) (Some c) =
      Some (1 + length (dedup c p xs), Some (1 + length (dedup c p xs)), Some (p # dedup c p xs @ rest))"
    using r(1) assms(3) arr by (simp add: cobalt_unique_def)
  moreover have "sorted_wrt (\<lambda>a b. c a b < 0) (p # dedup c p xs)" "set (p # dedup c p xs) \<subseteq> set arr"
    "\<forall>x\<in>set arr. \<exists>y\<in>set (p # dedup c p xs). c x y = 0"
    using s sub [of p xs] pp arr by auto
  ultimately show ?thesis using r(2) arr t by (intro exI conjI) (assumption | simp)+
qed

theorem unique_removes_duplicates_witness:
  "\<exists>w arr'. cobalt_unique (Some [1, 1, 2]) (Some 3) (Some int_cmp) = Some (w, Some w, Some arr') \<and>
    sorted_wrt (\<lambda>a b. int_cmp a b < 0) (take w arr')"
proof -
  have "cmp_sorted int_cmp [1, 1, 2]" "1 < length [1, 1, 2 :: int]" by (simp_all add: int_cmp_def)
  from unique_removes_duplicates [OF int_cmp_comparator this] show ?thesis by (auto simp: numeral_eq_Suc)
qed

end
