(* ===== verification/Cobalt_Buffer.thy ===== *)
theory Cobalt_Buffer
  imports Cobalt_Heap
begin

section \<open>Stream buffer\<close>

text \<open>
  \<open>src/container/buffer.c\<close>: a byte buffer with a prependable, a readable and a writable zone. The
  memory is a block of cells; a copy from cells that were never written, or from or to a place
  outside the block, is the fault \<open>None\<close>. Subtractions of \<open>size_t\<close> values wrap around (\<open>szt_sub\<close>).

  Growing through \<open>realloc\<close> and growing through \<open>alloc\<close>, \<open>memcpy\<close> and \<open>free\<close> leave the same memory; \<open>alloc\<close>
  answers whether it succeeds. The answers of \<open>readv\<close> and \<open>write\<close> are arguments: \<open>Inl\<close> the error
  number, \<open>Inr\<close> the bytes delivered or the number of bytes taken.
\<close>

type_synonym byte = "8 word"

definition blk_load :: "'a block \<Rightarrow> nat \<Rightarrow> nat \<Rightarrow> 'a list option" where
  "blk_load b pos n =
     (if n = 0 then Some []
      else case b of
        None \<Rightarrow> None
      | Some xs \<Rightarrow>
          if pos + n \<le> length xs \<and> None \<notin> set (take n (drop pos xs))
          then Some (map the (take n (drop pos xs))) else None)"

definition blk_store :: "nat \<Rightarrow> 'a list \<Rightarrow> 'a block \<Rightarrow> 'a block option" where
  "blk_store pos vs b =
     (if vs = [] then Some b
      else case b of
        None \<Rightarrow> None
      | Some xs \<Rightarrow>
          if pos + length vs \<le> length xs
          then Some (Some (take pos xs @ map Some vs @ drop (pos + length vs) xs)) else None)"

record cobalt_buffer =
  buf_data :: "byte block"
  buf_capacity :: nat
  buf_read_pos :: nat
  buf_write_pos :: nat
  buf_prepend_size :: nat

abbreviation (input) COBALT_BUFFER_DEFAULT_INITIAL_CAPACITY :: nat where
  "COBALT_BUFFER_DEFAULT_INITIAL_CAPACITY \<equiv> 1024"

abbreviation (input) COBALT_BUFFER_DEFAULT_PREPEND_SIZE :: nat where
  "COBALT_BUFFER_DEFAULT_PREPEND_SIZE \<equiv> 8"

definition cobalt_buffer_create_with_alloc :: "bool \<Rightarrow> bool \<Rightarrow> nat \<Rightarrow> nat \<Rightarrow> cobalt_buffer option" where
  "cobalt_buffer_create_with_alloc alloc_buf alloc_data initial_capacity prepend_size =
     (let initial_capacity =
            (if initial_capacity = 0 then COBALT_BUFFER_DEFAULT_INITIAL_CAPACITY else initial_capacity);
          prepend_size = (if prepend_size = 0 then COBALT_BUFFER_DEFAULT_PREPEND_SIZE else prepend_size) in
      if \<not> alloc_buf then None
      else
        let total_cap = szt (initial_capacity + prepend_size) in
        if \<not> alloc_data then None
        else Some \<lparr>buf_data = blk_new total_cap, buf_capacity = total_cap, buf_read_pos = prepend_size,
               buf_write_pos = prepend_size, buf_prepend_size = prepend_size\<rparr>)"

definition cobalt_buffer_create :: "bool \<Rightarrow> bool \<Rightarrow> nat \<Rightarrow> cobalt_buffer option" where
  "cobalt_buffer_create alloc_buf alloc_data initial_capacity =
     cobalt_buffer_create_with_alloc alloc_buf alloc_data initial_capacity COBALT_BUFFER_DEFAULT_PREPEND_SIZE"

definition cobalt_buffer_readable_bytes :: "cobalt_buffer option \<Rightarrow> nat" where
  "cobalt_buffer_readable_bytes buf =
     (case buf of None \<Rightarrow> 0 | Some b \<Rightarrow> szt_sub (buf_write_pos b) (buf_read_pos b))"

definition cobalt_buffer_writable_bytes :: "cobalt_buffer option \<Rightarrow> nat" where
  "cobalt_buffer_writable_bytes buf =
     (case buf of None \<Rightarrow> 0 | Some b \<Rightarrow> szt_sub (buf_capacity b) (buf_write_pos b))"

definition cobalt_buffer_prependable_bytes :: "cobalt_buffer option \<Rightarrow> nat" where
  "cobalt_buffer_prependable_bytes buf = (case buf of None \<Rightarrow> 0 | Some b \<Rightarrow> buf_read_pos b)"

text \<open>The pointer that \<open>cobalt_buffer_peek\<close> returns is the offset into the memory of the buffer.\<close>

definition cobalt_buffer_peek :: "cobalt_buffer option \<Rightarrow> nat option" where
  "cobalt_buffer_peek buf =
     (case buf of
        None \<Rightarrow> None
      | Some b \<Rightarrow> if buf_read_pos b < buf_write_pos b then Some (buf_read_pos b) else None)"

definition cobalt_buffer_retrieve_all :: "cobalt_buffer option \<Rightarrow> cobalt_buffer option" where
  "cobalt_buffer_retrieve_all buf =
     map_option (\<lambda>b. b\<lparr>buf_read_pos := buf_prepend_size b, buf_write_pos := buf_prepend_size b\<rparr>) buf"

definition cobalt_buffer_retrieve :: "cobalt_buffer option \<Rightarrow> nat \<Rightarrow> int \<times> cobalt_buffer option" where
  "cobalt_buffer_retrieve buf len =
     (case buf of
        None \<Rightarrow> (-1, buf)
      | Some b \<Rightarrow>
          if cobalt_buffer_readable_bytes buf < len then (-1, buf)
          else if len < cobalt_buffer_readable_bytes buf
          then (0, Some (b\<lparr>buf_read_pos := szt (buf_read_pos b + len)\<rparr>))
          else (0, cobalt_buffer_retrieve_all buf))"

definition cobalt_buffer_read ::
    "cobalt_buffer option \<Rightarrow> bool \<Rightarrow> nat \<Rightarrow> (int \<times> byte list \<times> cobalt_buffer option) option" where
  "cobalt_buffer_read buf dst_null len =
     (case buf of
        None \<Rightarrow> Some (-1, [], buf)
      | Some b \<Rightarrow>
          if dst_null \<or> cobalt_buffer_readable_bytes buf < len then Some (-1, [], buf)
          else
            blk_load (buf_data b) (buf_read_pos b) len \<bind>
            (\<lambda>bytes. Some (0, bytes, snd (cobalt_buffer_retrieve buf len))))"

definition cobalt_buffer_ensure_writable ::
    "bool \<Rightarrow> cobalt_buffer option \<Rightarrow> nat \<Rightarrow> (int \<times> cobalt_buffer option) option" where
  "cobalt_buffer_ensure_writable alloc buf len =
     (case buf of
        None \<Rightarrow> Some (-1, buf)
      | Some b \<Rightarrow>
          if len \<le> cobalt_buffer_writable_bytes buf then Some (0, buf)
          else
            let readable = cobalt_buffer_readable_bytes buf;
                discardable = (if buf_prepend_size b < buf_read_pos b
                               then buf_read_pos b - buf_prepend_size b else 0) in
            if len \<le> szt (discardable + cobalt_buffer_writable_bytes buf) then
              blk_move (buf_prepend_size b) (buf_read_pos b) readable (buf_data b) \<bind>
              (\<lambda>d. Some (0, Some (b\<lparr>buf_data := d, buf_read_pos := buf_prepend_size b,
                      buf_write_pos := szt (buf_prepend_size b + readable)\<rparr>)))
            else
              let new_cap = (if SIZE_MAX div 2 < buf_capacity b then SIZE_MAX else buf_capacity b * 2);
                  needed = szt (buf_write_pos b + len);
                  new_cap = (if new_cap < needed then
                               if SIZE_MAX - buf_capacity b < needed then SIZE_MAX else needed + buf_capacity b
                             else new_cap) in
              if \<not> alloc then Some (-1, buf)
              else Some (0, Some (b\<lparr>buf_data := blk_resize new_cap (buf_data b), buf_capacity := new_cap\<rparr>)))"

definition cobalt_buffer_append ::
    "bool \<Rightarrow> cobalt_buffer option \<Rightarrow> byte list option \<Rightarrow> nat \<Rightarrow> (int \<times> cobalt_buffer option) option" where
  "cobalt_buffer_append alloc buf data len =
     (if buf = None \<or> (0 < len \<and> data = None) then Some (-1, buf)
      else if len = 0 then Some (0, buf)
      else
        cobalt_buffer_ensure_writable alloc buf len \<bind>
        (\<lambda>(r, buf). if r \<noteq> 0 then Some (-1, buf)
           else buf \<bind>
             (\<lambda>b. if length (the data) < len then None
                else blk_store (buf_write_pos b) (take len (the data)) (buf_data b) \<bind>
                  (\<lambda>d. Some (0, Some (b\<lparr>buf_data := d, buf_write_pos := szt (buf_write_pos b + len)\<rparr>))))))"

definition cobalt_buffer_prepend ::
    "cobalt_buffer option \<Rightarrow> byte list option \<Rightarrow> nat \<Rightarrow> (int \<times> cobalt_buffer option) option" where
  "cobalt_buffer_prepend buf data len =
     (if 0 < len \<and> data = None then Some (-1, buf)
      else case buf of
        None \<Rightarrow> Some (-1, buf)
      | Some b \<Rightarrow>
          if len = 0 then Some (0, buf)
          else if buf_read_pos b < len then Some (-1, buf)
          else if length (the data) < len then None
          else
            blk_store (buf_read_pos b - len) (take len (the data)) (buf_data b) \<bind>
            (\<lambda>d. Some (0, Some (b\<lparr>buf_data := d, buf_read_pos := buf_read_pos b - len\<rparr>))))"

text \<open>
  The POSIX variants of the file descriptor operations. \<open>readv\<close> is called with the lengths of its buffers: the writable zone and, if that
  is shorter than 65536 bytes, the buffer \<open>stack_buf\<close> on the C stack; it fills the first and then the second. Delivering more than they hold
  would write outside of them. The result carries the error number for \<open>out_err\<close>.
\<close>

definition read_iov :: "nat \<Rightarrow> nat list" where
  "read_iov writable = (if writable < 65536 then [writable, 65536] else [writable])"

definition cobalt_buffer_read_fd ::
    "bool \<Rightarrow> cobalt_buffer option \<Rightarrow> int \<Rightarrow> (nat list \<Rightarrow> int + byte list) \<Rightarrow> int \<Rightarrow> int \<Rightarrow>
     (int \<times> int option \<times> cobalt_buffer option) option" where
  "cobalt_buffer_read_fd alloc buf fd readv EINVAL ENOMEM =
     (case buf of
        None \<Rightarrow> Some (-1, Some EINVAL, buf)
      | Some b \<Rightarrow>
          if fd < 0 then Some (-1, Some EINVAL, buf)
          else
            let writable = cobalt_buffer_writable_bytes buf; iov = read_iov writable in
            (case readv iov of
               Inl errno \<Rightarrow> Some (-1, Some errno, buf)
             | Inr bytes \<Rightarrow>
                 if sum_list iov < length bytes then None
                 else
                   blk_store (buf_write_pos b) (take writable bytes) (buf_data b) \<bind>
                   (\<lambda>d. let b = b\<lparr>buf_data := d\<rparr>; n = length bytes in
                      if n \<le> writable then
                        Some (int n, None, Some (b\<lparr>buf_write_pos := szt (buf_write_pos b + n)\<rparr>))
                      else
                        cobalt_buffer_append alloc (Some (b\<lparr>buf_write_pos := buf_capacity b\<rparr>))
                          (Some (drop writable bytes)) (n - writable) \<bind>
                        (\<lambda>(r, buf). Some (if r \<noteq> 0 then (-1, Some ENOMEM, buf) else (int n, None, buf))))))"

definition cobalt_buffer_write_fd ::
    "cobalt_buffer option \<Rightarrow> int \<Rightarrow> (byte list \<Rightarrow> int + nat) \<Rightarrow> int \<Rightarrow>
     (int \<times> int option \<times> cobalt_buffer option) option" where
  "cobalt_buffer_write_fd buf fd wr EINVAL =
     (case buf of
        None \<Rightarrow> Some (-1, Some EINVAL, buf)
      | Some b \<Rightarrow>
          if fd < 0 then Some (-1, Some EINVAL, buf)
          else
            let readable = cobalt_buffer_readable_bytes buf in
            if readable = 0 then Some (0, None, buf)
            else
              blk_load (buf_data b) (buf_read_pos b) readable \<bind>
              (\<lambda>bytes. case wr bytes of
                 Inl errno \<Rightarrow> Some (-1, Some errno, buf)
               | Inr n \<Rightarrow> Some (int n, None, snd (cobalt_buffer_retrieve buf n))))"

subsection \<open>Representation\<close>

text \<open>The memory of the buffer has the capacity as its length and holds the readable bytes \<open>vs\<close>.\<close>

definition buf_repr :: "cobalt_buffer \<Rightarrow> byte list \<Rightarrow> bool" where
  "buf_repr b vs \<longleftrightarrow>
     (\<exists>pre post. buf_data b = Some (pre @ map Some vs @ post) \<and> length pre = buf_read_pos b \<and>
        length pre + length vs = buf_write_pos b \<and> length pre + length vs + length post = buf_capacity b) \<and>
     buf_capacity b \<le> SIZE_MAX \<and> buf_prepend_size b \<le> buf_capacity b"

lemma buf_reprE:
  assumes "buf_repr b vs"
  obtains pre post where "buf_data b = Some (pre @ map Some vs @ post)" "length pre = buf_read_pos b"
    "length pre + length vs = buf_write_pos b" "length pre + length vs + length post = buf_capacity b"
    "buf_capacity b \<le> SIZE_MAX" "buf_prepend_size b \<le> buf_capacity b"
  using assms by (auto simp: buf_repr_def)

lemma buf_reprI:
  "buf_data b = Some (pre @ map Some vs @ post) \<Longrightarrow> length pre = buf_read_pos b \<Longrightarrow>
   length pre + length vs = buf_write_pos b \<Longrightarrow> length pre + length vs + length post = buf_capacity b \<Longrightarrow>
   buf_capacity b \<le> SIZE_MAX \<Longrightarrow> buf_prepend_size b \<le> buf_capacity b \<Longrightarrow> buf_repr b vs"
  unfolding buf_repr_def by blast

lemma buf_sizes:
  assumes "buf_repr b vs"
  shows "cobalt_buffer_readable_bytes (Some b) = length vs"
    "cobalt_buffer_writable_bytes (Some b) = buf_capacity b - buf_write_pos b"
    "buf_read_pos b + length vs = buf_write_pos b" "buf_write_pos b \<le> buf_capacity b" "buf_capacity b \<le> SIZE_MAX"
proof -
  from buf_reprE [OF assms] obtain pre post where "buf_data b = Some (pre @ map Some vs @ post)" "length pre = buf_read_pos b"
    "length pre + length vs = buf_write_pos b" "length pre + length vs + length post = buf_capacity b"
    "buf_capacity b \<le> SIZE_MAX" "buf_prepend_size b \<le> buf_capacity b" .
  then show "cobalt_buffer_readable_bytes (Some b) = length vs"
    "cobalt_buffer_writable_bytes (Some b) = buf_capacity b - buf_write_pos b"
    "buf_read_pos b + length vs = buf_write_pos b" "buf_write_pos b \<le> buf_capacity b" "buf_capacity b \<le> SIZE_MAX"
    by (auto simp: cobalt_buffer_readable_bytes_def cobalt_buffer_writable_bytes_def)
qed

lemma retrieve_all_ok:
  assumes "buf_repr b vs"
  shows "\<exists>b'. cobalt_buffer_retrieve_all (Some b) = Some b' \<and> buf_repr b' [] \<and>
    buf_write_pos b' = buf_prepend_size b \<and> buf_prepend_size b' = buf_prepend_size b"
proof -
  from buf_reprE [OF assms] obtain pre post where r: "buf_data b = Some (pre @ map Some vs @ post)" "length pre = buf_read_pos b"
    "length pre + length vs = buf_write_pos b" "length pre + length vs + length post = buf_capacity b"
    "buf_capacity b \<le> SIZE_MAX" "buf_prepend_size b \<le> buf_capacity b" .
  let ?xs = "pre @ map Some vs @ post"
  have "buf_repr (b\<lparr>buf_read_pos := buf_prepend_size b, buf_write_pos := buf_prepend_size b\<rparr>) []"
    by (rule buf_reprI [of _ "take (buf_prepend_size b) ?xs" _ "drop (buf_prepend_size b) ?xs"])
      (use r in \<open>simp_all del: take_append drop_append\<close>)
  then show ?thesis by (simp add: cobalt_buffer_retrieve_all_def)
qed

lemma retrieve_ok:
  assumes "buf_repr b vs" "n \<le> length vs"
  shows "\<exists>b'. cobalt_buffer_retrieve (Some b) n = (0, Some b') \<and> buf_repr b' (drop n vs) \<and>
    buf_write_pos b' \<le> max (buf_write_pos b) (buf_prepend_size b) \<and> buf_prepend_size b' = buf_prepend_size b"
proof (cases "n < length vs")
  case True
  from buf_reprE [OF assms(1)] obtain pre post where r: "buf_data b = Some (pre @ map Some vs @ post)" "length pre = buf_read_pos b"
    "length pre + length vs = buf_write_pos b" "length pre + length vs + length post = buf_capacity b"
    "buf_capacity b \<le> SIZE_MAX" "buf_prepend_size b \<le> buf_capacity b" .
  have vs: "map Some vs = map Some (take n vs) @ map Some (drop n vs)" by (metis append_take_drop_id map_append)
  have "buf_repr (b\<lparr>buf_read_pos := buf_read_pos b + n\<rparr>) (drop n vs)"
    by (rule buf_reprI [of _ "pre @ map Some (take n vs)" _ post]) (use r True vs in auto)
  moreover have "szt (buf_read_pos b + n) = buf_read_pos b + n" using r True by simp
  ultimately show ?thesis using True buf_sizes(1) [OF assms(1)] by (simp add: cobalt_buffer_retrieve_def)
next
  case False
  then have "n = length vs" using assms(2) by simp
  then show ?thesis using retrieve_all_ok [OF assms(1)] buf_sizes(1) [OF assms(1)]
    by (auto simp: cobalt_buffer_retrieve_def)
qed

lemma read_ok:
  assumes "buf_repr b vs" "n \<le> length vs"
  shows "\<exists>b'. cobalt_buffer_read (Some b) False n = Some (0, take n vs, Some b') \<and> buf_repr b' (drop n vs) \<and>
    buf_write_pos b' \<le> max (buf_write_pos b) (buf_prepend_size b) \<and> buf_prepend_size b' = buf_prepend_size b"
proof -
  from buf_reprE [OF assms(1)] obtain pre post where r: "buf_data b = Some (pre @ map Some vs @ post)" "length pre = buf_read_pos b"
    "length pre + length vs = buf_write_pos b" "length pre + length vs + length post = buf_capacity b"
    "buf_capacity b \<le> SIZE_MAX" "buf_prepend_size b \<le> buf_capacity b" .
  have "blk_load (buf_data b) (buf_read_pos b) n = Some (take n vs)"
    using r assms(2) by (auto simp: blk_load_def take_map o_def)
  then show ?thesis using retrieve_ok [OF assms] buf_sizes(1) [OF assms(1)] assms(2)
    by (auto simp: cobalt_buffer_read_def)
qed

lemma move_ok:
  assumes "xs = pre @ map Some vs @ post" "p \<le> length pre" "vs \<noteq> [] \<or> p \<le> length xs"
  shows "\<exists>pre' post'. blk_move p (length pre) (length vs) (Some xs) = Some (Some (pre' @ map Some vs @ post')) \<and>
    length pre' = p \<and> length (pre' @ map Some vs @ post') = length xs"
proof (cases "vs = []")
  case True
  then show ?thesis using assms
    by (intro exI [of _ "take p xs"] exI [of _ "drop p xs"]) (simp add: blk_move_def del: take_append drop_append)
next
  case False
  have t: "take (length vs) (drop (length pre) xs) = map Some vs" using assms(1) by simp
  show ?thesis
    using False assms t
    by (intro exI [of _ "take p xs"] exI [of _ "drop (p + length vs) xs"]) (simp add: blk_move_def del: take_append drop_append)
qed

text \<open>The bytes that can be appended without growing: the writable zone, and what compaction gives back.\<close>

definition buf_room :: "cobalt_buffer \<Rightarrow> nat" where
  "buf_room b = buf_capacity b - buf_write_pos b + (buf_read_pos b - buf_prepend_size b)"

lemma ensure_ok:
  assumes r: "buf_repr b vs" and l: "buf_write_pos b + len \<le> SIZE_MAX"
  shows "\<exists>k b'. cobalt_buffer_ensure_writable alloc (Some b) len = Some (k, Some b') \<and> buf_repr b' vs \<and>
    (if alloc \<or> len \<le> buf_room b then k = 0 \<and> len \<le> buf_capacity b' - buf_write_pos b' else k = -1 \<and> b' = b) \<and>
    buf_write_pos b' \<le> buf_write_pos b \<and> buf_prepend_size b' = buf_prepend_size b"
proof -
  note S = buf_sizes [OF r]
  from buf_reprE [OF r] obtain pre post where p: "buf_data b = Some (pre @ map Some vs @ post)" "length pre = buf_read_pos b"
    "length pre + length vs = buf_write_pos b" "length pre + length vs + length post = buf_capacity b"
    "buf_capacity b \<le> SIZE_MAX" "buf_prepend_size b \<le> buf_capacity b" .
  define disc where "disc = (if buf_prepend_size b < buf_read_pos b then buf_read_pos b - buf_prepend_size b else 0)"
  have br: "buf_room b = disc + (buf_capacity b - buf_write_pos b)" by (simp add: buf_room_def disc_def)
  have dw: "szt (disc + (buf_capacity b - buf_write_pos b)) = disc + (buf_capacity b - buf_write_pos b)"
    using S p by (simp add: disc_def)
  consider (room) "len \<le> buf_capacity b - buf_write_pos b"
    | (defrag) "\<not> len \<le> buf_capacity b - buf_write_pos b" "len \<le> disc + (buf_capacity b - buf_write_pos b)"
    | (grow) "\<not> len \<le> buf_capacity b - buf_write_pos b" "\<not> len \<le> disc + (buf_capacity b - buf_write_pos b)" by blast
  then show ?thesis
  proof cases
    case room
    then have "len \<le> buf_room b" by (simp add: buf_room_def)
    then show ?thesis using room r S by (simp add: cobalt_buffer_ensure_writable_def)
  next
    case defrag
    then have d: "buf_prepend_size b < buf_read_pos b" "disc = buf_read_pos b - buf_prepend_size b"
      by (auto simp: disc_def split: if_splits)
    obtain pre' post' where m: "blk_move (buf_prepend_size b) (length pre) (length vs) (buf_data b) =
        Some (Some (pre' @ map Some vs @ post'))" "length pre' = buf_prepend_size b"
      "length (pre' @ map Some vs @ post') = buf_capacity b"
      using move_ok [of _ pre vs post "buf_prepend_size b"] p d by fastforce
    let ?b = "b\<lparr>buf_data := Some (pre' @ map Some vs @ post'), buf_read_pos := buf_prepend_size b,
        buf_write_pos := buf_prepend_size b + length vs\<rparr>"
    have "buf_repr ?b vs" by (rule buf_reprI [of _ pre' _ post']) (use m p in auto)
    moreover have "szt (buf_prepend_size b + length vs) = buf_prepend_size b + length vs" using d S by simp
    moreover have "len \<le> buf_capacity b - (buf_prepend_size b + length vs)" using defrag d S by linarith
    ultimately show ?thesis using defrag S m(1) dw d p br
      by (simp add: cobalt_buffer_ensure_writable_def Let_def disc_def)
  next
    case grow
    define nc where "nc = (let new_cap = (if SIZE_MAX div 2 < buf_capacity b then SIZE_MAX else buf_capacity b * 2);
                  needed = buf_write_pos b + len in
              if new_cap < needed then
                if SIZE_MAX - buf_capacity b < needed then SIZE_MAX else needed + buf_capacity b else new_cap)"
    have nc: "buf_write_pos b + len \<le> nc" "buf_capacity b \<le> nc" "nc \<le> SIZE_MAX"
      using l S(5) by (auto simp: nc_def Let_def)
    have "szt (buf_write_pos b + len) = buf_write_pos b + len" using l by simp
    then have e: "cobalt_buffer_ensure_writable alloc (Some b) len =
        (if \<not> alloc then Some (-1, Some b) else Some (0, Some (b\<lparr>buf_data := blk_resize nc (buf_data b), buf_capacity := nc\<rparr>)))"
      using grow S dw unfolding nc_def
      by (simp only: cobalt_buffer_ensure_writable_def option.case Let_def disc_def [symmetric] if_False)
    have "buf_repr (b\<lparr>buf_data := blk_resize nc (buf_data b), buf_capacity := nc\<rparr>) vs"
      by (rule buf_reprI [of _ pre _ "post @ replicate (nc - buf_capacity b) None"])
        (use p nc in \<open>auto simp: blk_resize_def\<close>)
    then show ?thesis using e nc r grow(2) br by auto
  qed
qed

lemma store_ok:
  assumes "xs = pre @ mid @ post" "length mid = length vs"
  shows "blk_store (length pre) vs (Some xs) = Some (Some (pre @ map Some vs @ post))"
  using assms by (auto simp: blk_store_def)

lemma append_ok:
  assumes r: "buf_repr b vs" and l: "buf_write_pos b + length ds \<le> SIZE_MAX"
  shows "\<exists>k b'. cobalt_buffer_append alloc (Some b) (Some ds) (length ds) = Some (k, Some b') \<and>
    (if alloc \<or> length ds \<le> buf_room b then k = 0 \<and> buf_repr b' (vs @ ds) \<and> buf_write_pos b' \<le> buf_write_pos b + length ds
     else k = -1 \<and> buf_repr b' vs \<and> b' = b) \<and> buf_prepend_size b' = buf_prepend_size b"
proof (cases "ds = []")
  case True
  then show ?thesis using r by (simp add: cobalt_buffer_append_def)
next
  case False
  from ensure_ok [OF r l, of alloc] obtain k b1 where e: "cobalt_buffer_ensure_writable alloc (Some b) (length ds) = Some (k, Some b1)"
    "buf_repr b1 vs" "if alloc \<or> length ds \<le> buf_room b then k = 0 \<and> length ds \<le> buf_capacity b1 - buf_write_pos b1 else k = -1 \<and> b1 = b"
    "buf_write_pos b1 \<le> buf_write_pos b" "buf_prepend_size b1 = buf_prepend_size b" by blast
  show ?thesis
  proof (cases "alloc \<or> length ds \<le> buf_room b")
    case False
    then show ?thesis using e \<open>ds \<noteq> []\<close> r by (auto simp: cobalt_buffer_append_def)
  next
    case True
    from buf_reprE [OF e(2)] obtain pre post where p: "buf_data b1 = Some (pre @ map Some vs @ post)" "length pre = buf_read_pos b1"
      "length pre + length vs = buf_write_pos b1" "length pre + length vs + length post = buf_capacity b1"
      "buf_capacity b1 \<le> SIZE_MAX" "buf_prepend_size b1 \<le> buf_capacity b1" .
    have "k = 0" "length ds \<le> buf_capacity b1 - buf_write_pos b1" using e(3) True by auto
    then have room: "length ds \<le> length post" "k = 0" using p(3,4) by linarith+
    have st: "blk_store (buf_write_pos b1) ds (buf_data b1) = Some (Some ((pre @ map Some vs) @ map Some ds @ drop (length ds) post))"
      using store_ok [of _ "pre @ map Some vs" "take (length ds) post" "drop (length ds) post" ds] p room by simp
    have w: "szt (buf_write_pos b1 + length ds) = buf_write_pos b1 + length ds" using p room by simp
    let ?b = "b1\<lparr>buf_data := Some ((pre @ map Some vs) @ map Some ds @ drop (length ds) post),
        buf_write_pos := buf_write_pos b1 + length ds\<rparr>"
    have "buf_repr ?b (vs @ ds)"
      by (rule buf_reprI [of _ pre _ "drop (length ds) post"]) (use p room in auto)
    then show ?thesis using True e st w \<open>ds \<noteq> []\<close> by (simp add: cobalt_buffer_append_def)
  qed
qed

lemma prepend_ok:
  assumes r: "buf_repr b vs"
  shows "\<exists>b'. cobalt_buffer_prepend (Some b) (Some ds) (length ds) =
      Some (if length ds \<le> buf_read_pos b then 0 else -1, Some b') \<and>
    buf_repr b' (if length ds \<le> buf_read_pos b then ds @ vs else vs) \<and> buf_prepend_size b' = buf_prepend_size b"
proof (cases "ds = [] \<or> buf_read_pos b < length ds")
  case True
  then show ?thesis using r by (auto simp: cobalt_buffer_prepend_def)
next
  case False
  from buf_reprE [OF r] obtain pre post where p: "buf_data b = Some (pre @ map Some vs @ post)" "length pre = buf_read_pos b"
    "length pre + length vs = buf_write_pos b" "length pre + length vs + length post = buf_capacity b"
    "buf_capacity b \<le> SIZE_MAX" "buf_prepend_size b \<le> buf_capacity b" .
  let ?k = "buf_read_pos b - length ds"
  have "pre = take ?k pre @ drop ?k pre" "length (take ?k pre) = ?k" "length (drop ?k pre) = length ds" using p False by simp_all
  then have st: "blk_store ?k ds (buf_data b) = Some (Some (take ?k pre @ map Some ds @ map Some vs @ post))"
    using store_ok [of _ "take ?k pre" "drop ?k pre" "map Some vs @ post" ds] p(1) by (metis append.assoc)
  have "buf_repr (b\<lparr>buf_data := Some (take ?k pre @ map Some ds @ map Some vs @ post), buf_read_pos := ?k\<rparr>) (ds @ vs)"
    by (rule buf_reprI [of _ "take ?k pre" _ post]) (use p False in auto)
  then show ?thesis using False st by (simp add: cobalt_buffer_prepend_def)
qed

lemma buffer_create_ok:
  assumes "initial_capacity \<le> SIZE_MAX - 8"
  shows "\<exists>b. cobalt_buffer_create True True initial_capacity = Some b \<and> buf_repr b [] \<and> buf_read_pos b = 8 \<and>
    buf_write_pos b = 8 \<and> buf_prepend_size b = 8"
proof -
  define c where "c = (if initial_capacity = 0 then 1024 else initial_capacity)"
  let ?b = "\<lparr>buf_data = blk_new (c + 8), buf_capacity = c + 8, buf_read_pos = 8, buf_write_pos = 8, buf_prepend_size = 8\<rparr>"
  have c: "szt (c + 8) = c + 8" "0 < c" using assms by (auto simp: c_def)
  have "cobalt_buffer_create True True initial_capacity = Some ?b"
    using c by (simp add: cobalt_buffer_create_def cobalt_buffer_create_with_alloc_def c_def Let_def)
  moreover have "buf_repr ?b []"
    by (rule buf_reprI [of _ "replicate 8 None" _ "replicate c None"])
      (use assms in \<open>auto simp: blk_new_def replicate_add [symmetric] c_def add.commute\<close>)
  ultimately show ?thesis by simp
qed

subsection \<open>Programs on a buffer\<close>

text \<open>
  A client program of appends and reads. \<open>buf_exec\<close> collects what the reads return (nothing for a read
  of more than there is), \<open>buf_spec\<close> does the same on a byte sequence.
\<close>

datatype buf_op = BufAppend "byte list" | BufRead nat

fun buf_exec :: "buf_op list \<Rightarrow> cobalt_buffer option \<Rightarrow> (byte list list \<times> cobalt_buffer option) option" where
  "buf_exec [] b = Some ([], b)"
| "buf_exec (BufAppend xs # cs) b =
     cobalt_buffer_append True b (Some xs) (length xs) \<bind> (\<lambda>(r, b). buf_exec cs b)"
| "buf_exec (BufRead n # cs) b =
     cobalt_buffer_read b False n \<bind> (\<lambda>(r, bytes, b). buf_exec cs b \<bind> (\<lambda>(out, b). Some (bytes # out, b)))"

fun buf_spec :: "buf_op list \<Rightarrow> byte list \<Rightarrow> byte list list \<times> byte list" where
  "buf_spec [] q = ([], q)"
| "buf_spec (BufAppend xs # cs) q = buf_spec cs (q @ xs)"
| "buf_spec (BufRead n # cs) q =
     (if n \<le> length q then let (out, q') = buf_spec cs (drop n q) in (take n q # out, q')
      else let (out, q') = buf_spec cs q in ([] # out, q'))"

fun appended :: "buf_op list \<Rightarrow> nat" where
  "appended [] = 0"
| "appended (BufAppend xs # cs) = length xs + appended cs"
| "appended (BufRead n # cs) = appended cs"

lemma buf_exec_ok:
  "buf_repr b q \<Longrightarrow> buf_write_pos b + appended cs \<le> SIZE_MAX \<Longrightarrow> buf_prepend_size b + appended cs \<le> SIZE_MAX \<Longrightarrow>
   \<exists>b'. buf_exec cs (Some b) = Some (fst (buf_spec cs q), Some b') \<and> buf_repr b' (snd (buf_spec cs q))"
proof (induction cs arbitrary: b q)
  case Nil
  then show ?case by simp
next
  case (Cons c cs)
  show ?case
  proof (cases c)
    case (BufAppend xs)
    have "buf_write_pos b + length xs \<le> SIZE_MAX" using Cons.prems(2) BufAppend by simp
    from append_ok [OF Cons.prems(1) this, of True] obtain b' where
      b': "cobalt_buffer_append True (Some b) (Some xs) (length xs) = Some (0, Some b')" "buf_repr b' (q @ xs)"
        "buf_write_pos b' \<le> buf_write_pos b + length xs" "buf_prepend_size b' = buf_prepend_size b"
      by (auto split: if_splits)
    from Cons.IH [OF b'(2)] Cons.prems(2,3) b' BufAppend show ?thesis by simp
  next
    case (BufRead n)
    show ?thesis
    proof (cases "n \<le> length q")
      case True
      from read_ok [OF Cons.prems(1) True] obtain b' where
        b': "cobalt_buffer_read (Some b) False n = Some (0, take n q, Some b')" "buf_repr b' (drop n q)"
          "buf_write_pos b' \<le> max (buf_write_pos b) (buf_prepend_size b)" "buf_prepend_size b' = buf_prepend_size b" by blast
      from Cons.IH [OF b'(2)] Cons.prems(2,3) b' BufRead True show ?thesis by (auto simp: split_def Let_def max_def split: if_splits)
    next
      case False
      then have "cobalt_buffer_read (Some b) False n = Some (-1, [], Some b)"
        using buf_sizes(1) [OF Cons.prems(1)] by (simp add: cobalt_buffer_read_def)
      with Cons.IH [OF Cons.prems(1)] Cons.prems(2,3) BufRead False show ?thesis by (auto simp: split_def Let_def)
    qed
  qed
qed

subsection \<open>Properties\<close>

text \<open>
  C14: whatever the sizes of the chunks in which bytes are appended to a new buffer and read from it,
  through every compaction and growth of its memory, the reads return the bytes in the order in which
  they were appended and the rest stays readable; no byte outside the memory or never written is
  touched.
\<close>

theorem buffer_stream:
  assumes "initial_capacity \<le> SIZE_MAX - 8" "appended cs \<le> SIZE_MAX - 8"
  shows "\<exists>b b'. cobalt_buffer_create True True initial_capacity = Some b \<and>
    buf_exec cs (Some b) = Some (fst (buf_spec cs []), Some b') \<and>
    cobalt_buffer_readable_bytes (Some b') = length (snd (buf_spec cs [])) \<and>
    (\<exists>b''. cobalt_buffer_read (Some b') False (length (snd (buf_spec cs []))) = Some (0, snd (buf_spec cs []), b''))"
proof -
  from buffer_create_ok [OF assms(1)] obtain b where b: "cobalt_buffer_create True True initial_capacity = Some b" "buf_repr b []"
    "buf_write_pos b = 8" "buf_prepend_size b = 8" by blast
  from buf_exec_ok [OF b(2), of cs] assms(2) b obtain b' where
    b': "buf_exec cs (Some b) = Some (fst (buf_spec cs []), Some b')" "buf_repr b' (snd (buf_spec cs []))" by auto
  from read_ok [OF b'(2), of "length (snd (buf_spec cs []))"] show ?thesis using b(1) b' buf_sizes(1) [OF b'(2)] by auto
qed

theorem buffer_stream_witness:
  "\<exists>b b'. cobalt_buffer_create True True 1 = Some b \<and>
    buf_exec [BufAppend [1, 2], BufRead 1, BufRead 5, BufAppend [3], BufRead 2] (Some b) = Some ([[1], [], [2, 3]], Some b')"
proof -
  let ?cs = "[BufAppend [1, 2], BufRead 1, BufRead 5, BufAppend [3], BufRead 2]"
  have "fst (buf_spec ?cs []) = [[1], [], [2, 3]]" by simp
  with buffer_stream [of 1 ?cs] show ?thesis by (simp del: buf_exec.simps buf_spec.simps) blast
qed

text \<open>
  C33: a header of at most \<open>read_pos\<close> bytes can be put in front of the readable bytes and is the next
  thing a read returns, after which the buffer holds what it held; a longer one is refused and changes
  nothing.
\<close>

theorem buffer_header_roundtrip:
  assumes "buf_repr b vs"
  shows "if length hdr \<le> cobalt_buffer_prependable_bytes (Some b)
    then \<exists>b' b''. cobalt_buffer_prepend (Some b) (Some hdr) (length hdr) = Some (0, Some b') \<and>
      cobalt_buffer_read (Some b') False (length hdr) = Some (0, hdr, Some b'') \<and> buf_repr b'' vs
    else cobalt_buffer_prepend (Some b) (Some hdr) (length hdr) = Some (-1, Some b)"
proof (cases "length hdr \<le> buf_read_pos b")
  case True
  with prepend_ok [OF assms, of hdr] obtain b' where b': "cobalt_buffer_prepend (Some b) (Some hdr) (length hdr) = Some (0, Some b')"
    "buf_repr b' (hdr @ vs)" by auto
  from read_ok [OF b'(2), of "length hdr"] b'(1) True show ?thesis by (auto simp: cobalt_buffer_prependable_bytes_def)
next
  case False
  then have "hdr \<noteq> []" by auto
  with False show ?thesis by (simp add: cobalt_buffer_prependable_bytes_def cobalt_buffer_prepend_def)
qed

theorem buffer_header_roundtrip_witness:
  "\<exists>b b' b''. cobalt_buffer_create True True 4 = Some b \<and>
    cobalt_buffer_prepend (Some b) (Some [9]) 1 = Some (0, Some b') \<and> cobalt_buffer_read (Some b') False 1 = Some (0, [9], Some b'')"
proof -
  obtain b where b: "cobalt_buffer_create True True 4 = Some b" "buf_repr b []" "buf_read_pos b = 8"
    using buffer_create_ok [of 4] by auto
  from buffer_header_roundtrip [OF b(2), of "[9]"] b show ?thesis by (auto simp: cobalt_buffer_prependable_bytes_def)
qed

lemma read_fd_ok:
  assumes r: "buf_repr b vs" and fd: "0 \<le> fd" and cap: "buf_capacity b + 65536 \<le> SIZE_MAX"
    and rd: "readv (read_iov (cobalt_buffer_writable_bytes (Some b))) = Inr bytes"
      "length bytes \<le> sum_list (read_iov (cobalt_buffer_writable_bytes (Some b)))"
  shows "\<exists>b'. if alloc \<or> length bytes \<le> buf_room b
     then cobalt_buffer_read_fd alloc (Some b) fd readv EINVAL ENOMEM = Some (int (length bytes), None, Some b') \<and> buf_repr b' (vs @ bytes)
     else cobalt_buffer_read_fd alloc (Some b) fd readv EINVAL ENOMEM = Some (-1, Some ENOMEM, Some b') \<and>
       buf_repr b' (vs @ take (cobalt_buffer_writable_bytes (Some b)) bytes)"
proof -
  from buf_reprE [OF r] obtain pre post where p: "buf_data b = Some (pre @ map Some vs @ post)" "length pre = buf_read_pos b"
    "length pre + length vs = buf_write_pos b" "length pre + length vs + length post = buf_capacity b"
    "buf_capacity b \<le> SIZE_MAX" "buf_prepend_size b \<le> buf_capacity b" .
  note S = buf_sizes [OF r]
  let ?w = "buf_capacity b - buf_write_pos b" and ?t = "take (buf_capacity b - buf_write_pos b) bytes" and ?d = "drop (buf_capacity b - buf_write_pos b) bytes"
  have lp: "length post = ?w" using p by simp
  have st: "blk_store (buf_write_pos b) ?t (buf_data b) = Some (Some ((pre @ map Some vs) @ map Some ?t @ drop (length ?t) post))"
    using store_ok [of _ "pre @ map Some vs" "take (length ?t) post" "drop (length ?t) post" ?t] p lp by simp
  let ?b = "b\<lparr>buf_data := Some ((pre @ map Some vs) @ map Some ?t @ drop (length ?t) post), buf_write_pos := buf_write_pos b + length ?t\<rparr>"
  have r1: "buf_repr ?b (vs @ ?t)" by (rule buf_reprI [of _ pre _ "drop (length ?t) post"]) (use p lp in auto)
  have fit: "\<not> sum_list (read_iov ?w) < length bytes" using rd(2) S(2) by simp
  show ?thesis
  proof (cases "length bytes \<le> ?w")
    case True
    then have "szt (buf_write_pos b + length bytes) = buf_write_pos b + length bytes" using p lp by simp
    then have "cobalt_buffer_read_fd alloc (Some b) fd readv EINVAL ENOMEM = Some (int (length bytes), None, Some ?b)"
      using st True S rd(1) fd fit by (simp add: cobalt_buffer_read_fd_def Let_def)
    then show ?thesis using r1 True by (auto simp: buf_room_def)
  next
    case False
    then have b: "?b = b\<lparr>buf_data := Some ((pre @ map Some vs) @ map Some ?t @ drop (length ?t) post), buf_write_pos := buf_capacity b\<rparr>"
      using S by simp
    have "length ?d \<le> 65536" using rd(2) S(2) by (auto simp: read_iov_def split: if_splits)
    then have lim: "buf_write_pos ?b + length ?d \<le> SIZE_MAX" unfolding b using cap by simp
    have room: "length ?d \<le> buf_room ?b \<longleftrightarrow> length bytes \<le> buf_room b" using False S(4) by (auto simp: buf_room_def)
    from append_ok [OF r1 lim, of alloc] obtain k b' where a: "cobalt_buffer_append alloc (Some ?b) (Some ?d) (length ?d) = Some (k, Some b')"
      "if alloc \<or> length bytes \<le> buf_room b then k = 0 \<and> buf_repr b' ((vs @ ?t) @ ?d) else k = -1 \<and> buf_repr b' (vs @ ?t)"
      unfolding room by (auto split: if_splits)
    have "cobalt_buffer_read_fd alloc (Some b) fd readv EINVAL ENOMEM =
      Some (if k \<noteq> 0 then (-1, Some ENOMEM, Some b') else (int (length bytes), None, Some b'))"
      using a(1) st False S fd rd(1) fit unfolding b by (simp add: cobalt_buffer_read_fd_def Let_def)
    moreover have "vs @ bytes = (vs @ ?t) @ ?d" by simp
    ultimately show ?thesis using a(2) S(2) by (auto split: if_splits)
  qed
qed

lemma write_fd_ok:
  assumes r: "buf_repr b vs" and fd: "0 \<le> fd" and n: "n \<le> length vs"
  shows "wr vs = Inr n \<Longrightarrow> \<exists>b'. cobalt_buffer_write_fd (Some b) fd wr EINVAL = Some (if vs = [] then 0 else int n, None, Some b') \<and> buf_repr b' (drop n vs)"
    and "wr vs = Inl e \<Longrightarrow> vs \<noteq> [] \<Longrightarrow> cobalt_buffer_write_fd (Some b) fd wr EINVAL = Some (-1, Some e, Some b)"
proof -
  from buf_reprE [OF r] obtain pre post where p: "buf_data b = Some (pre @ map Some vs @ post)" "length pre = buf_read_pos b"
    "length pre + length vs = buf_write_pos b" "length pre + length vs + length post = buf_capacity b"
    "buf_capacity b \<le> SIZE_MAX" "buf_prepend_size b \<le> buf_capacity b" .
  note S = buf_sizes [OF r]
  have ld: "blk_load (buf_data b) (buf_read_pos b) (length vs) = Some vs"
    using p by (auto simp: blk_load_def o_def)
  from retrieve_ok [OF r n] obtain b' where b': "cobalt_buffer_retrieve (Some b) n = (0, Some b')" "buf_repr b' (drop n vs)" by blast
  show "\<exists>b'. cobalt_buffer_write_fd (Some b) fd wr EINVAL = Some (if vs = [] then 0 else int n, None, Some b') \<and> buf_repr b' (drop n vs)"
    if "wr vs = Inr n" using that ld S fd b' r by (cases "vs = []") (auto simp: cobalt_buffer_write_fd_def Let_def)
  show "cobalt_buffer_write_fd (Some b) fd wr EINVAL = Some (-1, Some e, Some b)" if "wr vs = Inl e" "vs \<noteq> []"
    using that ld S fd by (simp add: cobalt_buffer_write_fd_def Let_def)
qed

text \<open>
  C34: Bytes that \<open>readv\<close> delivers, in the writable zone and in the overflow buffer on the C stack, end up readable
  in order whenever they fit after compaction or memory can be had; otherwise the call reports \<open>ENOMEM\<close>, the bytes of the writable
  zone have become readable and the rest is lost. A write to a descriptor is offered exactly the readable bytes and consumes
  what \<open>write\<close> took. An error of \<open>readv\<close> or \<open>write\<close>, a negative descriptor and NULL are reported and leave the buffer as it is. \<open>readv\<close> delivers at
  most as many bytes as its buffers hold, and \<open>write\<close> takes at most what it is offered.
\<close>

theorem buffer_descriptors:
  assumes "buf_repr b vs" "0 \<le> fd" "buf_capacity b + 65536 \<le> SIZE_MAX" "n \<le> length vs"
    and "length bytes \<le> sum_list (read_iov (cobalt_buffer_writable_bytes (Some b)))"
  shows "(readv (read_iov (cobalt_buffer_writable_bytes (Some b))) = Inr bytes \<longrightarrow>
      (\<exists>b'. if alloc \<or> length bytes \<le> buf_room b
       then cobalt_buffer_read_fd alloc (Some b) fd readv EINVAL ENOMEM = Some (int (length bytes), None, Some b') \<and> buf_repr b' (vs @ bytes)
       else cobalt_buffer_read_fd alloc (Some b) fd readv EINVAL ENOMEM = Some (-1, Some ENOMEM, Some b') \<and>
         buf_repr b' (vs @ take (cobalt_buffer_writable_bytes (Some b)) bytes))) \<and>
    (readv (read_iov (cobalt_buffer_writable_bytes (Some b))) = Inl e \<longrightarrow>
      cobalt_buffer_read_fd alloc (Some b) fd readv EINVAL ENOMEM = Some (-1, Some e, Some b)) \<and>
    (wr vs = Inr n \<longrightarrow>
      (\<exists>b'. cobalt_buffer_write_fd (Some b) fd wr EINVAL = Some (if vs = [] then 0 else int n, None, Some b') \<and> buf_repr b' (drop n vs))) \<and>
    (wr vs = Inl e \<longrightarrow> vs \<noteq> [] \<longrightarrow> cobalt_buffer_write_fd (Some b) fd wr EINVAL = Some (-1, Some e, Some b)) \<and>
    (\<forall>buf f. buf = None \<or> f < 0 \<longrightarrow> cobalt_buffer_read_fd alloc buf f readv EINVAL ENOMEM = Some (-1, Some EINVAL, buf) \<and>
      cobalt_buffer_write_fd buf f wr EINVAL = Some (-1, Some EINVAL, buf))"
proof (intro conjI impI allI)
  show "cobalt_buffer_read_fd alloc (Some b) fd readv EINVAL ENOMEM = Some (-1, Some e, Some b)"
    if "readv (read_iov (cobalt_buffer_writable_bytes (Some b))) = Inl e"
    using that assms(2) by (simp add: cobalt_buffer_read_fd_def Let_def)
  show "cobalt_buffer_read_fd alloc buf f readv EINVAL ENOMEM = Some (-1, Some EINVAL, buf)"
    "cobalt_buffer_write_fd buf f wr EINVAL = Some (-1, Some EINVAL, buf)" if "buf = None \<or> f < 0" for buf f
    using that by (cases buf; simp add: cobalt_buffer_read_fd_def cobalt_buffer_write_fd_def)+
qed (use read_fd_ok [OF assms(1-3) _ assms(5)] write_fd_ok [OF assms(1,2,4)] in blast)+

theorem buffer_descriptors_witness:
  "\<exists>b b' b''. cobalt_buffer_create True True 2 = Some b \<and>
    cobalt_buffer_read_fd True (Some b) 3 (\<lambda>_. Inr [5, 6, 7]) 22 12 = Some (3, None, Some b') \<and> buf_repr b' [5, 6, 7] \<and>
    cobalt_buffer_read_fd False (Some b) 3 (\<lambda>_. Inr [5, 6, 7]) 22 12 = Some (-1, Some 12, Some b'') \<and> buf_repr b'' [5, 6]"
proof -
  obtain b where b: "cobalt_buffer_create True True 2 = Some b" "buf_repr b []" using buffer_create_ok [of 2] by auto
  have c: "buf_capacity b = 10" "cobalt_buffer_writable_bytes (Some b) = 2" "buf_room b = 2" using b(1)
    by (auto simp: cobalt_buffer_create_def cobalt_buffer_create_with_alloc_def cobalt_buffer_writable_bytes_def buf_room_def Let_def)
  have l: "length [5, 6, 7 :: byte] \<le> sum_list (read_iov (cobalt_buffer_writable_bytes (Some b)))" "buf_capacity b + 65536 \<le> SIZE_MAX" "(0 :: int) \<le> 3"
    "0 \<le> length ([] :: byte list)" unfolding c by (simp_all add: read_iov_def)
  note h = buffer_descriptors [OF b(2) l(3,2,4,1), where readv = "\<lambda>_. Inr [5, 6, 7]" and EINVAL = 22 and ENOMEM = 12]
  from h [where alloc = True] h [where alloc = False] show ?thesis using b(1) c by auto
qed

text \<open>
  size arithmetic that wraps around. A buffer created with a capacity near \<open>SIZE_MAX\<close> gets a few
  bytes of memory, counts as having room for \<open>SIZE_MAX\<close> more and faults on the first append; a request for
  \<open>SIZE_MAX\<close> writable bytes is reported as satisfied by any buffer whose memory was doubled.
\<close>

theorem buffer_size_overflow:
  assumes "buf_repr b vs" "0 < buf_write_pos b" "2 * buf_capacity b \<le> SIZE_MAX"
  shows "(\<exists>b0. cobalt_buffer_create True True SIZE_MAX = Some b0 \<and> buf_capacity b0 = 7 \<and>
      cobalt_buffer_writable_bytes (Some b0) = SIZE_MAX \<and> cobalt_buffer_append True (Some b0) (Some [x]) 1 = None) \<and>
    (\<exists>b'. cobalt_buffer_ensure_writable True (Some b) SIZE_MAX = Some (0, Some b') \<and> cobalt_buffer_writable_bytes (Some b') < SIZE_MAX)"
proof
  show "\<exists>b0. cobalt_buffer_create True True SIZE_MAX = Some b0 \<and> buf_capacity b0 = 7 \<and>
      cobalt_buffer_writable_bytes (Some b0) = SIZE_MAX \<and> cobalt_buffer_append True (Some b0) (Some [x]) 1 = None"
    by (simp add: cobalt_buffer_create_def cobalt_buffer_create_with_alloc_def cobalt_buffer_writable_bytes_def szt_sub_def
        cobalt_buffer_append_def cobalt_buffer_ensure_writable_def blk_store_def blk_new_def szt_def Let_def)
  note S = buf_sizes [OF assms(1)]
  have "szt (buf_write_pos b + SIZE_MAX) = buf_write_pos b - 1"
  proof -
    have "buf_write_pos b + SIZE_MAX = (buf_write_pos b - 1) + 18446744073709551616" using assms(2) by simp
    moreover have "buf_write_pos b - 1 < 18446744073709551616" using S(4,5) by simp
    ultimately show ?thesis unfolding szt_def by (metis mod_add_self2 mod_less)
  qed
  then show "\<exists>b'. cobalt_buffer_ensure_writable True (Some b) SIZE_MAX = Some (0, Some b') \<and> cobalt_buffer_writable_bytes (Some b') < SIZE_MAX"
    using S assms(2,3)
    by (auto simp: cobalt_buffer_ensure_writable_def cobalt_buffer_writable_bytes_def Let_def)
qed

theorem buffer_size_overflow_witness:
  "\<exists>b b'. cobalt_buffer_create True True 16 = Some b \<and>
    cobalt_buffer_ensure_writable True (Some b) SIZE_MAX = Some (0, Some b') \<and> cobalt_buffer_writable_bytes (Some b') < SIZE_MAX"
proof -
  obtain b where b: "cobalt_buffer_create True True 16 = Some b" "buf_repr b []" "buf_write_pos b = 8" using buffer_create_ok [of 16] by auto
  have "buf_capacity b = 24" using b(1)
    by (auto simp: cobalt_buffer_create_def cobalt_buffer_create_with_alloc_def Let_def)
  with buffer_size_overflow [OF b(2), of 0] b show ?thesis by auto
qed

end
