(* ===== verification/Cobalt_Arena.thy ===== *)
theory Cobalt_Arena
  imports Cobalt_Heap
begin

section \<open>Arena allocator\<close>

text \<open>
  \<open>src/memory/arena.c\<close>. The chain of chunks is the list of its chunks, \<open>ar_current\<close> the position of the
  chunk that serves allocations. A chunk has an identity that stands for its address, so a pointer
  into the arena is the identity of a chunk and an offset into its data. \<open>ch_size\<close> is the number of
  bytes that were requested for the chunk, header included, after the wrap-around of the sum. The
  alignment of \<open>max_align_t\<close> is 16 and the chunk header has 32 bytes (64-bit targets). The field
  \<open>current\<close> is set by the constructor and never NULL afterwards.
\<close>

record arena_chunk =
  ch_id :: nat
  ch_capacity :: nat
  ch_used :: nat
  ch_size :: nat

record cobalt_arena =
  ar_chunks :: "arena_chunk list"
  ar_current :: nat
  ar_default_chunk_size :: nat
  ar_total_allocated :: nat
  ar_next_id :: nat

type_synonym arena_ptr = "nat \<times> nat"

abbreviation (input) COBALT_ARENA_MIN_CHUNK_SIZE :: nat where
  "COBALT_ARENA_MIN_CHUNK_SIZE \<equiv> 4096"

definition new_arena_chunk :: "nat \<Rightarrow> nat \<Rightarrow> nat \<Rightarrow> arena_chunk" where
  "new_arena_chunk k cap us = \<lparr>ch_id = k, ch_capacity = cap, ch_used = us, ch_size = szt (32 + cap)\<rparr>"

definition cobalt_arena_create_with_allocator :: "bool \<Rightarrow> bool \<Rightarrow> bool \<Rightarrow> nat \<Rightarrow> cobalt_arena option" where
  "cobalt_arena_create_with_allocator alloc_null alloc_arena alloc_chunk initial_size =
     (if alloc_null then None
      else if \<not> alloc_arena then None
      else
        let chunk_cap = ALIGN_UP (if 0 < initial_size then initial_size else COBALT_ARENA_MIN_CHUNK_SIZE) 16 in
        if \<not> alloc_chunk then None
        else Some \<lparr>ar_chunks = [new_arena_chunk 0 chunk_cap 0], ar_current = 0, ar_default_chunk_size = chunk_cap,
               ar_total_allocated = chunk_cap, ar_next_id = 1\<rparr>)"

definition cobalt_arena_create :: "bool \<Rightarrow> bool \<Rightarrow> nat \<Rightarrow> cobalt_arena option" where
  "cobalt_arena_create alloc_arena alloc_chunk initial_size =
     cobalt_arena_create_with_allocator False alloc_arena alloc_chunk initial_size"

definition chunk_take :: "nat \<Rightarrow> nat \<Rightarrow> cobalt_arena \<Rightarrow> arena_ptr option \<times> cobalt_arena" where
  "chunk_take i aligned_size arena = (let c = ar_chunks arena ! i in
     (Some (ch_id c, ch_used c),
      arena\<lparr>ar_current := i, ar_chunks := (ar_chunks arena)[i := c\<lparr>ch_used := szt (ch_used c + aligned_size)\<rparr>]\<rparr>))"

definition chunk_add :: "nat \<Rightarrow> nat \<Rightarrow> cobalt_arena \<Rightarrow> arena_ptr option \<times> cobalt_arena" where
  "chunk_add new_cap aligned_size arena = (let i = ar_current arena in
     (Some (ar_next_id arena, 0),
      arena\<lparr>ar_chunks := take (i + 1) (ar_chunks arena) @
              new_arena_chunk (ar_next_id arena) new_cap aligned_size # drop (i + 1) (ar_chunks arena),
            ar_current := i + 1,
            ar_total_allocated := szt (ar_total_allocated arena + new_cap),
            ar_next_id := ar_next_id arena + 1\<rparr>))"

definition arena_alloc :: "bool \<Rightarrow> nat \<Rightarrow> cobalt_arena \<Rightarrow> arena_ptr option \<times> cobalt_arena" where
  "arena_alloc alloc_chunk aligned_size arena =
     (let i = ar_current arena; cur = ar_chunks arena ! i in
      if aligned_size \<le> szt_sub (ch_capacity cur) (ch_used cur) then chunk_take i aligned_size arena
      else if i + 1 < length (ar_chunks arena) \<and> aligned_size \<le> ch_capacity (ar_chunks arena ! (i + 1))
      then chunk_take (i + 1) aligned_size arena
      else
        let new_cap = ALIGN_UP (if ar_default_chunk_size arena < aligned_size then aligned_size
                                else ar_default_chunk_size arena) 16 in
        if \<not> alloc_chunk then (None, arena) else chunk_add new_cap aligned_size arena)"

definition cobalt_arena_alloc ::
    "bool \<Rightarrow> cobalt_arena option \<Rightarrow> nat \<Rightarrow> arena_ptr option \<times> cobalt_arena option" where
  "cobalt_arena_alloc alloc_chunk ar sz =
     (case ar of
        None \<Rightarrow> (None, ar)
      | Some arena \<Rightarrow>
          if sz = 0 then (None, ar)
          else apsnd Some (arena_alloc alloc_chunk (ALIGN_UP sz 16) arena))"

definition cobalt_arena_reset :: "cobalt_arena option \<Rightarrow> cobalt_arena option" where
  "cobalt_arena_reset ar =
     map_option (\<lambda>a. a\<lparr>ar_chunks := map (\<lambda>c. c\<lparr>ch_used := 0\<rparr>) (ar_chunks a), ar_current := 0\<rparr>) ar"

text \<open>
  A run of the arena, with the regions (chunk, offset, requested size) handed out since the last
  reset. The bound on the sizes keeps the rounding and the size of a new chunk below \<open>2 ^ 64\<close>.
\<close>

abbreviation (input) ARENA_SAFE_SIZE :: nat where
  "ARENA_SAFE_SIZE \<equiv> SIZE_MAX - 64"

type_synonym region = "arena_ptr \<times> nat"

inductive arena_run :: "cobalt_arena option \<Rightarrow> region list \<Rightarrow> bool" where
  create: "n \<le> ARENA_SAFE_SIZE \<Longrightarrow> cobalt_arena_create True True n = Some a \<Longrightarrow> arena_run (Some a) []"
| alloc: "arena_run ar rs \<Longrightarrow> sz \<le> ARENA_SAFE_SIZE \<Longrightarrow> cobalt_arena_alloc ok ar sz = (Some p, ar') \<Longrightarrow>
    arena_run ar' ((p, sz) # rs)"
| alloc_null: "arena_run ar rs \<Longrightarrow> sz \<le> ARENA_SAFE_SIZE \<Longrightarrow> cobalt_arena_alloc ok ar sz = (None, ar') \<Longrightarrow>
    arena_run ar' rs"
| reset: "arena_run ar rs \<Longrightarrow> arena_run (cobalt_arena_reset ar) []"

text \<open>The invariant: \<open>live\<close> relates the regions handed out to the chunks.\<close>

definition chunk_ok :: "arena_chunk \<Rightarrow> bool" where
  "chunk_ok c \<longleftrightarrow> ch_used c \<le> ch_capacity c \<and> 16 dvd ch_used c \<and> ch_size c = 32 + ch_capacity c \<and> ch_size c \<le> SIZE_MAX"

definition arena_ok :: "cobalt_arena \<Rightarrow> bool" where
  "arena_ok a \<longleftrightarrow> ar_current a < length (ar_chunks a) \<and> (\<forall>c\<in>set (ar_chunks a). chunk_ok c) \<and>
     distinct (map ch_id (ar_chunks a)) \<and> (\<forall>c\<in>set (ar_chunks a). ch_id c < ar_next_id a) \<and>
     (\<forall>c\<in>set (drop (Suc (ar_current a)) (ar_chunks a)). ch_used c = 0) \<and>
     16 dvd ar_default_chunk_size a \<and> ar_default_chunk_size a \<le> SIZE_MAX - 48"

definition region_in :: "arena_chunk \<Rightarrow> region \<Rightarrow> bool" where
  "region_in c r \<longleftrightarrow> ch_id c = fst (fst r) \<and> 16 dvd snd (fst r) \<and> snd (fst r) + snd r \<le> ch_used c"

definition apart_regions :: "region \<Rightarrow> region \<Rightarrow> bool" where
  "apart_regions r s \<longleftrightarrow> fst (fst r) \<noteq> fst (fst s) \<or> snd (fst r) + snd r \<le> snd (fst s) \<or> snd (fst s) + snd s \<le> snd (fst r)"

definition live :: "cobalt_arena \<Rightarrow> region list \<Rightarrow> bool" where
  "live a rs \<longleftrightarrow> (\<forall>r\<in>set rs. \<exists>c\<in>set (ar_chunks a). region_in c r) \<and> sorted_wrt apart_regions rs"

subsection \<open>The invariant holds along every run\<close>

lemma live_extend:
  assumes "live a rs"
    and keep: "\<And>c. c \<in> set (ar_chunks a) \<Longrightarrow> \<exists>c'\<in>set (ar_chunks a'). ch_id c' = ch_id c \<and> ch_used c \<le> ch_used c'"
    and new: "c' \<in> set (ar_chunks a')" "ch_id c' = k" "16 dvd off" "off + sz \<le> ch_used c'"
    and old: "\<And>c. c \<in> set (ar_chunks a) \<Longrightarrow> ch_id c = k \<Longrightarrow> ch_used c \<le> off"
  shows "live a' (((k, off), sz) # rs)"
proof -
  have "\<exists>c\<in>set (ar_chunks a'). region_in c r" "apart_regions ((k, off), sz) r" if "r \<in> set rs" for r
  proof -
    from that assms(1) obtain c where c: "c \<in> set (ar_chunks a)" "region_in c r" by (auto simp: live_def)
    from keep [OF c(1)] c(2) show "\<exists>c\<in>set (ar_chunks a'). region_in c r"
      by (force simp: region_in_def intro: le_trans)
    from old [OF c(1)] c(2) show "apart_regions ((k, off), sz) r" by (auto simp: region_in_def apart_regions_def)
  qed
  moreover have "region_in c' ((k, off), sz)" using new by (simp add: region_in_def)
  ultimately show ?thesis using assms(1) new(1) by (auto simp: live_def)
qed

lemma live_keep:
  "live a rs \<Longrightarrow> ar_chunks a' = ar_chunks a \<Longrightarrow> live a' rs"
  by (simp add: live_def)

lemma drop_update_later: "i < j \<Longrightarrow> drop j (xs[i := x]) = drop j xs"
  by simp

lemma chunk_take_ok:
  assumes a: "arena_ok a" "live a rs" and i: "i < length (ar_chunks a)"
    and later: "\<And>c. c \<in> set (drop (Suc i) (ar_chunks a)) \<Longrightarrow> ch_used c = 0"
    and room: "n \<le> ch_capacity (ar_chunks a ! i) - ch_used (ar_chunks a ! i)" "16 dvd n" "sz \<le> n"
    and t: "chunk_take i n a = (p, a')"
  shows "arena_ok a' \<and> (\<exists>q. p = Some q \<and> live a' ((q, sz) # rs))"
proof -
  define c where "c = ar_chunks a ! i"
  have cin: "c \<in> set (ar_chunks a)" using i by (simp add: c_def)
  then have c: "chunk_ok c" using a(1) by (simp add: arena_ok_def)
  define c' where "c' = c\<lparr>ch_used := ch_used c + n\<rparr>"
  have "szt (ch_used c + n) = ch_used c + n" using c room(1) by (auto simp: chunk_ok_def c_def)
  then have t: "p = Some (ch_id c, ch_used c)" "a' = a\<lparr>ar_current := i, ar_chunks := (ar_chunks a)[i := c']\<rparr>"
    using t by (auto simp: chunk_take_def c_def c'_def Let_def)
  have c'_ok: "chunk_ok c'" using c room by (auto simp: chunk_ok_def c'_def c_def)
  have ids: "map ch_id ((ar_chunks a)[i := c']) = map ch_id (ar_chunks a)"
    using i by (auto simp: map_update c'_def c_def intro!: list_update_same_conv [THEN iffD2])
  have idl: "x \<in> set (ar_chunks a') \<Longrightarrow> \<exists>y\<in>set (ar_chunks a). ch_id x = ch_id y" for x
    using ids t(2) by (simp, metis (no_types, lifting) image_iff list.set_map)
  have "arena_ok a'"
    unfolding arena_ok_def
  proof (intro conjI ballI)
    show "chunk_ok x" if "x \<in> set (ar_chunks a')" for x
      using that a(1) c'_ok set_update_subset_insert [of "ar_chunks a" i c'] t(2) by (auto simp: arena_ok_def)
    show "ch_id x < ar_next_id a'" if "x \<in> set (ar_chunks a')" for x
      using idl [OF that] a(1) t(2) by (auto simp: arena_ok_def)
    show "ch_used x = 0" if "x \<in> set (drop (Suc (ar_current a')) (ar_chunks a'))" for x
      using that later t(2) by simp
    show "distinct (map ch_id (ar_chunks a'))" using ids a(1) t(2) by (simp add: arena_ok_def)
  qed (use a(1) i t(2) in \<open>auto simp: arena_ok_def\<close>)
  moreover have "live a' (((ch_id c, ch_used c), sz) # rs)"
  proof (rule live_extend [OF a(2), where c' = c'])
    show "\<exists>x'\<in>set (ar_chunks a'). ch_id x' = ch_id x \<and> ch_used x \<le> ch_used x'" if x: "x \<in> set (ar_chunks a)" for x
    proof -
      from x obtain j where j: "j < length (ar_chunks a)" "x = ar_chunks a ! j" by (metis in_set_conv_nth)
      then have "(ar_chunks a)[i := c'] ! j \<in> set (ar_chunks a')" using t(2) by simp
      moreover have "ch_id ((ar_chunks a)[i := c'] ! j) = ch_id x \<and> ch_used x \<le> ch_used ((ar_chunks a)[i := c'] ! j)"
        using j by (cases "i = j") (simp_all add: c'_def c_def)
      ultimately show ?thesis by blast
    qed
    show "c' \<in> set (ar_chunks a')" using i t(2) by (simp add: set_update_memI)
    show "ch_used x \<le> ch_used c" if "x \<in> set (ar_chunks a)" "ch_id x = ch_id c" for x
    proof -
      from a(1) have "inj_on ch_id (set (ar_chunks a))" by (simp add: arena_ok_def distinct_map)
      then have "x = c" using that cin by (auto dest: inj_onD)
      then show ?thesis by simp
    qed
  qed (use c room in \<open>auto simp: c'_def chunk_ok_def\<close>)
  ultimately show ?thesis using t(1) by blast
qed

lemma chunk_add_ok:
  assumes a: "arena_ok a" "live a rs"
    and cap: "n \<le> cap" "32 + cap \<le> SIZE_MAX" "16 dvd n" "sz \<le> n"
    and t: "chunk_add cap n a = (p, a')"
  shows "arena_ok a' \<and> (\<exists>q. p = Some q \<and> live a' ((q, sz) # rs))"
proof -
  define cs where "cs = ar_chunks a"
  define i where "i = ar_current a"
  define c where "c = new_arena_chunk (ar_next_id a) cap n"
  have c: "chunk_ok c" "ch_id c = ar_next_id a" "ch_used c = n"
    using cap by (simp_all add: c_def new_arena_chunk_def chunk_ok_def)
  from t have t: "p = Some (ar_next_id a, 0)" "ar_chunks a' = take (Suc i) cs @ c # drop (Suc i) cs"
    "ar_current a' = Suc i" "ar_next_id a' = Suc (ar_next_id a)" "ar_default_chunk_size a' = ar_default_chunk_size a"
    by (auto simp: chunk_add_def Let_def c_def cs_def i_def)
  have i: "i < length cs" using a(1) by (simp add: arena_ok_def i_def cs_def)
  have split: "set cs = set (take (Suc i) cs) \<union> set (drop (Suc i) cs)" by (metis append_take_drop_id set_append)
  then have st: "set (ar_chunks a') = insert c (set cs)" using t(2) by auto
  have fresh: "ch_id c \<notin> ch_id ` set cs" using a(1) c(2) by (auto simp: arena_ok_def cs_def)
  have "distinct (map ch_id (take (Suc i) cs @ drop (Suc i) cs))" using a(1) by (simp add: arena_ok_def cs_def)
  then have "distinct (map ch_id (ar_chunks a'))"
    using fresh unfolding t(2) split map_append distinct_append by auto
  moreover have "drop (Suc (ar_current a')) (ar_chunks a') = drop (Suc i) cs" using t(2,3) i by simp
  moreover have "ar_current a' < length (ar_chunks a')" using i t(2,3) by simp
  ultimately have "arena_ok a'" using a(1) c t(4,5) unfolding arena_ok_def st
    by (simp add: cs_def i_def less_Suc_eq)
  moreover have "live a' (((ar_next_id a, 0), sz) # rs)"
    by (rule live_extend [OF a(2), where c' = c]) (use st c cap fresh in \<open>auto simp: cs_def intro: rev_image_eqI\<close>)
  ultimately show ?thesis using t(1) by blast
qed

lemma arena_alloc_ok:
  assumes a: "arena_ok a" "live a rs" and n: "n \<le> SIZE_MAX - 48" "16 dvd n" "sz \<le> n"
    and t: "arena_alloc ok n a = (p, a')"
  shows "arena_ok a' \<and> (case p of None \<Rightarrow> \<not> ok \<and> a' = a | Some q \<Rightarrow> live a' ((q, sz) # rs))"
proof -
  define i where "i = ar_current a"
  have i: "i < length (ar_chunks a)" using a(1) by (simp add: arena_ok_def i_def)
  have later: "ch_used c = 0" if "c \<in> set (drop (Suc i) (ar_chunks a))" for c
    using a(1) that by (simp add: arena_ok_def i_def)
  have cur: "chunk_ok (ar_chunks a ! i)" using a(1) i by (simp add: arena_ok_def)
  have eq: "arena_alloc ok n a = (if n \<le> ch_capacity (ar_chunks a ! i) - ch_used (ar_chunks a ! i) then chunk_take i n a
      else if Suc i < length (ar_chunks a) \<and> n \<le> ch_capacity (ar_chunks a ! Suc i) then chunk_take (Suc i) n a
      else if \<not> ok then (None, a)
      else chunk_add (ALIGN_UP (if ar_default_chunk_size a < n then n else ar_default_chunk_size a) 16) n a)"
    using cur by (simp add: arena_alloc_def Let_def i_def chunk_ok_def)
  show ?thesis
  proof (cases "n \<le> ch_capacity (ar_chunks a ! i) - ch_used (ar_chunks a ! i)")
    case True
    have "chunk_take i n a = (p, a')" using eq t True by simp
    from chunk_take_ok [OF a i later True n(2,3) this] show ?thesis by auto
  next
    case here: False
    show ?thesis
    proof (cases "Suc i < length (ar_chunks a) \<and> n \<le> ch_capacity (ar_chunks a ! Suc i)")
      case True
      then have "ar_chunks a ! Suc i \<in> set (drop (Suc i) (ar_chunks a))"
        by (metis Cons_nth_drop_Suc list.set_intros(1))
      then have "ch_used (ar_chunks a ! Suc i) = 0" by (rule later)
      moreover have "ch_used c = 0" if "c \<in> set (drop (Suc (Suc i)) (ar_chunks a))" for c
        using later that by (metis Suc_n_not_le_n le_cases set_drop_subset_set_drop subsetD)
      moreover have "chunk_take (Suc i) n a = (p, a')" using eq t True here by simp
      ultimately show ?thesis using chunk_take_ok [OF a _ _ _ n(2,3), of "Suc i" p a'] True by auto
    next
      case False
      define m where "m = (if ar_default_chunk_size a < n then n else ar_default_chunk_size a)"
      have m: "m \<le> SIZE_MAX - 48" "16 dvd m" "n \<le> m" using a(1) n by (auto simp: m_def arena_ok_def)
      then have m': "ALIGN_UP m 16 = m" "32 + m \<le> SIZE_MAX" using ALIGN_UP_id [of 16 4 m] by auto
      have "arena_alloc ok n a = (if \<not> ok then (None, a) else chunk_add m n a)"
        by (simp only: eq [folded m_def] here False m' if_False)
      with chunk_add_ok [OF a m(3) m'(2) n(2,3), of p a'] t a(1) show ?thesis by (cases ok) auto
    qed
  qed
qed

lemma arena_create_ok:
  assumes "n \<le> ARENA_SAFE_SIZE" "cobalt_arena_create True True n = Some a"
  shows "arena_ok a \<and> live a []"
proof -
  define m where "m = ALIGN_UP (if 0 < n then n else COBALT_ARENA_MIN_CHUNK_SIZE) 16"
  have "16 dvd m" "m \<le> SIZE_MAX - 48"
    using ALIGN_UP_bounds [of 16 4 n] ALIGN_UP_bounds [of 16 4 4096] assms(1) by (auto simp: m_def)
  moreover have "ar_chunks a = [new_arena_chunk 0 m 0]" "ar_current a = 0" "ar_default_chunk_size a = m" "ar_next_id a = 1"
    using assms(2) by (auto simp: cobalt_arena_create_def cobalt_arena_create_with_allocator_def Let_def m_def)
  ultimately show ?thesis by (simp add: arena_ok_def live_def chunk_ok_def new_arena_chunk_def)
qed

lemma arena_reset_ok:
  assumes "arena_ok a"
  shows "\<exists>a'. cobalt_arena_reset (Some a) = Some a' \<and> arena_ok a' \<and> live a' []"
proof -
  have "chunk_ok c \<Longrightarrow> chunk_ok (c\<lparr>ch_used := 0\<rparr>)" for c by (simp add: chunk_ok_def)
  then show ?thesis using assms by (auto simp: cobalt_arena_reset_def arena_ok_def live_def comp_def drop_map)
qed

lemma cobalt_arena_alloc_ok:
  assumes a: "arena_ok a" "live a rs" and sz: "sz \<le> ARENA_SAFE_SIZE"
    and t: "cobalt_arena_alloc ok (Some a) sz = (p, ar')"
  shows "\<exists>a'. ar' = Some a' \<and> arena_ok a' \<and>
    (case p of None \<Rightarrow> (sz = 0 \<or> \<not> ok) \<and> a' = a | Some q \<Rightarrow> live a' ((q, sz) # rs))"
proof (cases "sz = 0")
  case True
  then show ?thesis using a t by (auto simp: cobalt_arena_alloc_def)
next
  case False
  obtain p' a' where r: "arena_alloc ok (ALIGN_UP sz 16) a = (p', a')" by fastforce
  with t False have "p = p'" "ar' = Some a'" by (auto simp: cobalt_arena_alloc_def)
  moreover have "arena_ok a' \<and> (case p' of None \<Rightarrow> \<not> ok \<and> a' = a | Some q \<Rightarrow> live a' ((q, sz) # rs))"
    by (rule arena_alloc_ok [OF a _ _ _ r]) (use ALIGN_UP_bounds [of 16 4 sz] sz in auto)
  ultimately show ?thesis by (auto split: option.splits)
qed

lemma arena_run_inv: "arena_run ar rs \<Longrightarrow> \<exists>a. ar = Some a \<and> arena_ok a \<and> live a rs"
proof (induction rule: arena_run.induct)
  case (create n a)
  then show ?case using arena_create_ok by blast
next
  case (alloc ar rs sz ok p ar')
  then obtain a where "ar = Some a" "arena_ok a" "live a rs" by blast
  with cobalt_arena_alloc_ok [of a rs sz ok "Some p" ar'] alloc.hyps show ?case by auto
next
  case (alloc_null ar rs sz ok ar')
  then obtain a where "ar = Some a" "arena_ok a" "live a rs" by blast
  with cobalt_arena_alloc_ok [of a rs sz ok None ar'] alloc_null.hyps show ?case by auto
next
  case (reset ar rs)
  then show ?case using arena_reset_ok by auto
qed

text \<open>
  C15: whatever the sequence of allocations and resets of an arena, whatever the answers of the
  backing allocator, and whichever chunk serves a request: the regions handed out since the last
  reset are pairwise disjoint, aligned for every C type, and lie inside the memory of a chunk
  of the arena; and a request fails only if the backing allocator does.
\<close>

theorem arena_regions_disjoint:
  assumes "arena_run ar rs"
  shows "\<exists>a. ar = Some a \<and> sorted_wrt apart_regions rs \<and>
    (\<forall>((k, off), sz) \<in> set rs. 16 dvd off \<and> (\<exists>c\<in>set (ar_chunks a). ch_id c = k \<and> 32 + off + sz \<le> ch_size c)) \<and>
    (\<forall>sz. 0 < sz \<and> sz \<le> ARENA_SAFE_SIZE \<longrightarrow> (\<exists>p ar'. cobalt_arena_alloc True ar sz = (Some p, ar')))"
proof -
  from arena_run_inv [OF assms] obtain a where a: "ar = Some a" "arena_ok a" "live a rs" by blast
  have "16 dvd off \<and> (\<exists>c\<in>set (ar_chunks a). ch_id c = k \<and> 32 + off + sz \<le> ch_size c)" if "((k, off), sz) \<in> set rs" for k off sz
  proof -
    from that a(3) obtain c where "c \<in> set (ar_chunks a)" "region_in c ((k, off), sz)" by (auto simp: live_def)
    with a(2) show ?thesis by (auto simp: region_in_def arena_ok_def chunk_ok_def intro!: bexI [of _ c])
  qed
  moreover have "\<exists>p ar'. cobalt_arena_alloc True ar sz = (Some p, ar')" if "0 < sz" "sz \<le> ARENA_SAFE_SIZE" for sz
  proof -
    obtain p ar' where r: "cobalt_arena_alloc True (Some a) sz = (p, ar')" by fastforce
    from cobalt_arena_alloc_ok [OF a(2,3) that(2) r] that(1) obtain q where "p = Some q" by (cases p) auto
    with r a(1) show ?thesis by blast
  qed
  ultimately show ?thesis using a(1,3) by (auto simp: live_def)
qed

theorem arena_regions_disjoint_witness:
  "\<exists>a. cobalt_arena_alloc True (cobalt_arena_create True True 16) 8 = (Some (0, 0), Some a) \<and>
    (\<exists>b. cobalt_arena_alloc True (Some a) 100 = (Some (1, 0), Some b) \<and>
      sorted_wrt apart_regions [((1, 0), 100), ((0, 0), 8)] \<and> (\<exists>p ar'. cobalt_arena_alloc True (Some b) 5 = (Some p, ar')))"
proof -
  have up: "ALIGN_UP 16 16 = 16" "ALIGN_UP 8 16 = 16" "ALIGN_UP 100 16 = 112" "ALIGN_UP 112 16 = 112"
    by (simp_all add: ALIGN_UP_eq [of 16 4])
  define a where "a = \<lparr>ar_chunks = [\<lparr>ch_id = 0, ch_capacity = 16, ch_used = 16, ch_size = 48\<rparr>], ar_current = 0,
    ar_default_chunk_size = 16, ar_total_allocated = 16, ar_next_id = 1\<rparr>"
  define b where "b = \<lparr>ar_chunks = [\<lparr>ch_id = 0, ch_capacity = 16, ch_used = 16, ch_size = 48\<rparr>,
    \<lparr>ch_id = 1, ch_capacity = 112, ch_used = 112, ch_size = 144\<rparr>], ar_current = 1,
    ar_default_chunk_size = 16, ar_total_allocated = 128, ar_next_id = 2\<rparr>"
  obtain a0 where a0: "cobalt_arena_create True True 16 = Some a0"
    by (simp add: cobalt_arena_create_def cobalt_arena_create_with_allocator_def Let_def)
  have ra: "cobalt_arena_alloc True (Some a0) 8 = (Some (0, 0), Some a)"
    using a0 by (auto simp: cobalt_arena_create_def cobalt_arena_create_with_allocator_def cobalt_arena_alloc_def arena_alloc_def
        chunk_take_def new_arena_chunk_def up a_def Let_def)
  have rb: "cobalt_arena_alloc True (Some a) 100 = (Some (1, 0), Some b)"
    by (simp add: a_def b_def cobalt_arena_alloc_def arena_alloc_def chunk_add_def new_arena_chunk_def up Let_def)
  have "arena_run (Some a0) []" by (rule arena_run.create [of 16]) (use a0 in simp_all)
  from arena_run.alloc [OF this _ ra] have "arena_run (Some a) [((0, 0), 8)]" by simp
  from arena_run.alloc [OF this _ rb] have "arena_run (Some b) [((1, 0), 100), ((0, 0), 8)]" by simp
  from arena_regions_disjoint [OF this] have "sorted_wrt apart_regions [((1, 0), 100), ((0, 0), 8)]"
    "0 < (5::nat) \<and> 5 \<le> ARENA_SAFE_SIZE \<longrightarrow> (\<exists>p ar'. cobalt_arena_alloc True (Some b) 5 = (Some p, ar'))" by blast+
  then have "\<exists>p ar'. cobalt_arena_alloc True (Some b) 5 = (Some p, ar')" by simp
  with \<open>sorted_wrt _ _\<close> ra rb show ?thesis unfolding a0 by blast
qed

text \<open>
  Beyond the bound the rounding wraps around to 0: a request for almost \<open>2 ^ 64\<close> bytes succeeds and
  reserves nothing, so the next request is given the same address.
\<close>

theorem arena_size_wraps:
  assumes "arena_ok a" "SIZE_MAX - 15 < sz" "sz \<le> SIZE_MAX"
  shows "\<exists>p. cobalt_arena_alloc ok (Some a) sz = (Some p, Some a)"
proof -
  have w: "(of_nat sz :: u64) + of_nat 16 - 1 = of_nat (sz + 15)" by simp
  have "unat (of_nat (sz + 15) :: u64) = (sz + 15) mod 2 ^ 64" using unat_of_nat [of "sz + 15", where 'a = 64] by simp
  also have "\<dots> = (sz + 15 - 2 ^ 64) mod 2 ^ 64" by (rule le_mod_geq) (use assms(2) in simp)
  finally have "unat (of_nat (sz + 15) :: u64) < 16" using assms(3) by simp
  then have "ALIGN_UP sz 16 = 0"
    using unat_and_not_mask [of "of_nat (sz + 15) :: u64" 4] unfolding ALIGN_UP_def w by (simp add: mask_numeral)
  moreover define c where "c = ar_chunks a ! ar_current a"
  have "chunk_ok c" using assms(1) by (simp add: arena_ok_def c_def)
  then have "c\<lparr>ch_used := szt (ch_used c + 0)\<rparr> = c" by (cases c) (simp add: chunk_ok_def)
  then have "chunk_take (ar_current a) 0 a = (Some (ch_id c, ch_used c), a)" by (simp add: chunk_take_def Let_def c_def)
  ultimately show ?thesis using assms(2) by (simp add: cobalt_arena_alloc_def arena_alloc_def)
qed

end
