(* ===== verification/Cobalt_Pool.thy ===== *)
theory Cobalt_Pool
  imports Cobalt_Heap
begin

section \<open>Fixed-size block allocators\<close>

text \<open>
  \<open>src/memory/pool.c\<close> and \<open>src/memory/slab.c\<close>. A pool, and each size class of a slab, is a region of
  \<open>fb_bytes\<close> bytes at address \<open>fb_memory\<close> cut into blocks of equal size; the free blocks are chained through
  their own first 8 bytes. \<open>fb_links\<close> is the pointer stored at an address (0 bytes read as NULL); a read
  or write of a link outside the region is the fault \<open>None\<close>. The backing allocator is represented by
  its answers: whether the control structure and at which address the region could be allocated.
\<close>

record fixed_blocks =
  fb_block_size :: nat
  fb_block_count :: nat
  fb_free_count :: nat
  fb_memory :: nat
  fb_bytes :: nat
  fb_free_list :: "nat option"
  fb_links :: "nat \<Rightarrow> nat option"

definition fb_inside :: "nat \<Rightarrow> nat \<Rightarrow> fixed_blocks \<Rightarrow> bool" where
  "fb_inside a n b \<longleftrightarrow> fb_memory b \<le> a \<and> a + n \<le> fb_memory b + fb_bytes b"

definition fb_store :: "nat \<Rightarrow> nat option \<Rightarrow> fixed_blocks \<Rightarrow> fixed_blocks option" where
  "fb_store a v b = (if fb_inside a 8 b then Some (b\<lparr>fb_links := (fb_links b)(a := v)\<rparr>) else None)"

text \<open>The loop that chains the blocks, from block \<open>i\<close> on, and the last link.\<close>

function fb_chain_loop :: "nat \<Rightarrow> fixed_blocks \<Rightarrow> fixed_blocks option" where
  "fb_chain_loop i b =
     (if i < fb_block_count b - 1
      then case fb_store (fb_memory b + i * fb_block_size b) (Some (fb_memory b + (i + 1) * fb_block_size b)) b of
             None \<Rightarrow> None
           | Some b' \<Rightarrow> fb_chain_loop (i + 1) b'
      else fb_store (fb_memory b + (fb_block_count b - 1) * fb_block_size b) None b)"
  by pat_completeness auto
termination
  by (relation "measure (\<lambda>(i, b). fb_block_count b - i)") (auto simp: fb_store_def split: if_splits)

declare fb_chain_loop.simps [simp del]

definition fb_build :: "nat \<Rightarrow> nat \<Rightarrow> nat \<Rightarrow> fixed_blocks option" where
  "fb_build block_size block_count memory =
     fb_chain_loop 0 \<lparr>fb_block_size = block_size, fb_block_count = block_count, fb_free_count = block_count,
       fb_memory = memory, fb_bytes = szt (block_size * block_count), fb_free_list = Some memory, fb_links = (\<lambda>_. None)\<rparr>"

text \<open>Taking the head of the free list and clearing the block; \<open>None\<close> is a fault.\<close>

definition fb_pop :: "fixed_blocks \<Rightarrow> (nat \<times> fixed_blocks) option" where
  "fb_pop b =
     (case fb_free_list b of
        None \<Rightarrow> None
      | Some block \<Rightarrow>
          if fb_inside block 8 b \<and> fb_inside block (fb_block_size b) b
          then Some (block, b\<lparr>fb_free_list := fb_links b block, fb_free_count := szt_dec (fb_free_count b),
                              fb_links := (fb_links b)(block := None)\<rparr>)
          else None)"

text \<open>The validation of a pointer and the push onto the free list; \<open>None\<close>: not a block of this region.\<close>

definition fb_push :: "fixed_blocks \<Rightarrow> nat \<Rightarrow> fixed_blocks option option" where
  "fb_push b ptr =
     (let offset = szt_sub ptr (fb_memory b) in
      if szt (fb_block_size b * fb_block_count b) \<le> offset then Some None
      else if offset mod fb_block_size b \<noteq> 0 then Some None
      else case fb_store ptr (fb_free_list b) b of
             None \<Rightarrow> None
           | Some b' \<Rightarrow> Some (Some (b'\<lparr>fb_free_list := Some ptr, fb_free_count := szt (fb_free_count b + 1)\<rparr>)))"

subsection \<open>Pool\<close>

text \<open>The outer \<open>option\<close> of a result is \<open>None\<close> for a fault; an inner \<open>None\<close> is NULL.\<close>

type_synonym cobalt_pool = fixed_blocks

definition cobalt_pool_create_with_allocator ::
    "bool \<Rightarrow> bool \<Rightarrow> nat option \<Rightarrow> nat \<Rightarrow> nat \<Rightarrow> cobalt_pool option option" where
  "cobalt_pool_create_with_allocator alloc_null alloc_pool alloc_mem block_size block_count =
     (if block_size = 0 \<or> block_count = 0 \<or> alloc_null then Some None
      else
        let bs = (if block_size < 8 then 8 else block_size) in
        if \<not> alloc_pool then Some None
        else case alloc_mem of
               None \<Rightarrow> Some None
             | Some memory \<Rightarrow> map_option Some (fb_build bs block_count memory))"

definition cobalt_pool_create :: "bool \<Rightarrow> nat option \<Rightarrow> nat \<Rightarrow> nat \<Rightarrow> cobalt_pool option option" where
  "cobalt_pool_create alloc_pool alloc_mem block_size block_count =
     cobalt_pool_create_with_allocator False alloc_pool alloc_mem block_size block_count"

definition cobalt_pool_alloc :: "cobalt_pool option \<Rightarrow> (nat option \<times> cobalt_pool option) option" where
  "cobalt_pool_alloc pl =
     (case pl of
        None \<Rightarrow> Some (None, pl)
      | Some pool \<Rightarrow>
          if fb_free_count pool = 0 then Some (None, pl)
          else map_option (\<lambda>(block, pool'). (Some block, Some pool')) (fb_pop pool))"

definition cobalt_pool_free :: "cobalt_pool option \<Rightarrow> nat option \<Rightarrow> cobalt_pool option option" where
  "cobalt_pool_free pl p =
     (case (pl, p) of
        (Some pool, Some ptr) \<Rightarrow>
          map_option (\<lambda>r. case r of None \<Rightarrow> pl | Some pool' \<Rightarrow> Some pool') (fb_push pool ptr)
      | _ \<Rightarrow> Some pl)"

definition cobalt_pool_is_full :: "cobalt_pool option \<Rightarrow> bool" where
  "cobalt_pool_is_full pl = (case pl of None \<Rightarrow> True | Some pool \<Rightarrow> fb_free_count pool = 0)"

definition cobalt_pool_free_count :: "cobalt_pool option \<Rightarrow> nat" where
  "cobalt_pool_free_count pl = (case pl of None \<Rightarrow> 0 | Some pool \<Rightarrow> fb_free_count pool)"

subsection \<open>Slab\<close>

text \<open>\<open>sl_alloc\<close> tells whether the field \<open>alloc\<close> has been set; \<open>sl_classes\<close> are the first \<open>class_count\<close> classes.\<close>

record cobalt_slab =
  sl_classes :: "fixed_blocks list"
  sl_alloc :: bool

definition cobalt_slab_destroy :: "cobalt_slab option \<Rightarrow> nat list option" where
  "cobalt_slab_destroy sl =
     (case sl of
        None \<Rightarrow> Some []
      | Some slab \<Rightarrow> if \<not> sl_alloc slab then None else Some (map fb_memory (sl_classes slab)))"

text \<open>
  The loop over the classes; \<open>mem i\<close> answers the allocation for class \<open>i\<close>. While it runs the fields
  \<open>class_count\<close> and \<open>alloc\<close> are still zero, and this is the slab the failure path destroys.
\<close>

fun slab_init_loop :: "(nat \<Rightarrow> nat option) \<Rightarrow> nat \<Rightarrow> (nat \<times> nat) list \<Rightarrow> fixed_blocks list option option" where
  "slab_init_loop mem i [] = Some (Some [])"
| "slab_init_loop mem i ((sz, ct) # cs) =
     (let bs = (if sz < 8 then 8 else sz); cnt = (if ct = 0 then 16 else ct) in
      case mem i of
        None \<Rightarrow> (case cobalt_slab_destroy (Some \<lparr>sl_classes = [], sl_alloc = False\<rparr>) of
                   None \<Rightarrow> None
                 | Some _ \<Rightarrow> Some None)
      | Some memory \<Rightarrow>
          (case fb_build bs cnt memory of
             None \<Rightarrow> None
           | Some cls \<Rightarrow> map_option (map_option (\<lambda>clss. cls # clss)) (slab_init_loop mem (i + 1) cs)))"

definition cobalt_slab_create_with_allocator ::
    "bool \<Rightarrow> bool \<Rightarrow> (nat \<Rightarrow> nat option) \<Rightarrow> nat list option \<Rightarrow> nat list option \<Rightarrow> nat \<Rightarrow> cobalt_slab option option" where
  "cobalt_slab_create_with_allocator alloc_null alloc_slab mem szs cnts class_count =
     (case (szs, cnts) of
        (Some sizes, Some counts) \<Rightarrow>
          if class_count = 0 \<or> 16 < class_count \<or> alloc_null then Some None
          else if \<not> alloc_slab then Some None
          else if length sizes < class_count \<or> length counts < class_count then None
          else map_option (map_option (\<lambda>clss. \<lparr>sl_classes = clss, sl_alloc = True\<rparr>))
                 (slab_init_loop mem 0 (take class_count (zip sizes counts)))
      | _ \<Rightarrow> Some None)"

definition cobalt_slab_create ::
    "bool \<Rightarrow> (nat \<Rightarrow> nat option) \<Rightarrow> nat list option \<Rightarrow> nat list option \<Rightarrow> nat \<Rightarrow> cobalt_slab option option" where
  "cobalt_slab_create alloc_slab mem szs cnts class_count =
     cobalt_slab_create_with_allocator False alloc_slab mem szs cnts class_count"

fun find_class_loop :: "nat \<Rightarrow> nat \<Rightarrow> fixed_blocks list \<Rightarrow> int" where
  "find_class_loop sz i [] = -1"
| "find_class_loop sz i (c # cs) = (if sz \<le> fb_block_size c then int i else find_class_loop sz (i + 1) cs)"

definition slab_find_class :: "cobalt_slab \<Rightarrow> nat \<Rightarrow> int" where
  "slab_find_class slab sz = find_class_loop sz 0 (sl_classes slab)"

definition cobalt_slab_alloc :: "cobalt_slab option \<Rightarrow> nat \<Rightarrow> (nat option \<times> cobalt_slab option) option" where
  "cobalt_slab_alloc sl sz =
     (case sl of
        None \<Rightarrow> Some (None, sl)
      | Some slab \<Rightarrow>
          if sz = 0 then Some (None, sl)
          else
            let idx = slab_find_class slab sz in
            if idx < 0 then Some (None, sl)
            else
              let cls = sl_classes slab ! nat idx in
              if fb_free_count cls = 0 then Some (None, sl)
              else map_option (\<lambda>(block, cls'). (Some block, Some (slab\<lparr>sl_classes := (sl_classes slab)[nat idx := cls']\<rparr>)))
                     (fb_pop cls))"

fun slab_free_loop :: "nat \<Rightarrow> fixed_blocks list \<Rightarrow> fixed_blocks list option" where
  "slab_free_loop ptr [] = Some []"
| "slab_free_loop ptr (c # cs) =
     (case fb_push c ptr of
        None \<Rightarrow> None
      | Some None \<Rightarrow> map_option (\<lambda>cs'. c # cs') (slab_free_loop ptr cs)
      | Some (Some c') \<Rightarrow> Some (c' # cs))"

definition cobalt_slab_free :: "cobalt_slab option \<Rightarrow> nat option \<Rightarrow> cobalt_slab option option" where
  "cobalt_slab_free sl p =
     (case (sl, p) of
        (Some slab, Some ptr) \<Rightarrow>
          map_option (\<lambda>clss. Some (slab\<lparr>sl_classes := clss\<rparr>)) (slab_free_loop ptr (sl_classes slab))
      | _ \<Rightarrow> Some sl)"

subsection \<open>The free list\<close>

fun chain :: "(nat \<Rightarrow> nat option) \<Rightarrow> nat option \<Rightarrow> nat list \<Rightarrow> bool" where
  "chain l p [] \<longleftrightarrow> p = None"
| "chain l p (x # xs) \<longleftrightarrow> p = Some x \<and> chain l (l x) xs"

lemma chain_upd [simp]: "a \<notin> set xs \<Longrightarrow> chain (l(a := v)) p xs = chain l p xs"
  by (induction xs arbitrary: p) auto

definition block_at :: "fixed_blocks \<Rightarrow> nat \<Rightarrow> nat" where
  "block_at b i = fb_memory b + i * fb_block_size b"

definition fb_addrs :: "fixed_blocks \<Rightarrow> nat set" where
  "fb_addrs b = block_at b ` {..<fb_block_count b}"

definition fb_shape :: "fixed_blocks \<Rightarrow> bool" where
  "fb_shape b \<longleftrightarrow> 8 \<le> fb_block_size b \<and> 0 < fb_block_count b \<and> fb_bytes b = fb_block_size b * fb_block_count b \<and>
     fb_memory b + fb_bytes b \<le> SIZE_MAX"

definition fb_ok :: "fixed_blocks \<Rightarrow> nat set \<Rightarrow> bool" where
  "fb_ok b live \<longleftrightarrow> fb_shape b \<and> live \<subseteq> fb_addrs b \<and>
     (\<exists>fl. distinct fl \<and> chain (fb_links b) (fb_free_list b) fl \<and> set fl = fb_addrs b - live \<and> fb_free_count b = length fl)"

definition same_blocks :: "fixed_blocks \<Rightarrow> fixed_blocks \<Rightarrow> bool" where
  "same_blocks b c \<longleftrightarrow> fb_memory c = fb_memory b \<and> fb_block_size c = fb_block_size b \<and>
     fb_block_count c = fb_block_count b \<and> fb_bytes c = fb_bytes b"

lemma same_blocks_addrs: "same_blocks b c \<Longrightarrow> fb_addrs c = fb_addrs b \<and> fb_shape c = fb_shape b"
  by (simp add: same_blocks_def fb_addrs_def block_at_def fb_shape_def image_def)

lemma block_inside:
  assumes "fb_shape b" "i < fb_block_count b"
  shows "fb_memory b \<le> block_at b i" "block_at b i + fb_block_size b \<le> fb_memory b + fb_bytes b"
proof -
  have "(i + 1) * fb_block_size b \<le> fb_block_count b * fb_block_size b" using assms(2) by (intro mult_le_mono1) simp
  then show "block_at b i + fb_block_size b \<le> fb_memory b + fb_bytes b"
    using assms(1) by (simp add: fb_shape_def block_at_def algebra_simps)
qed (simp add: block_at_def)

lemma addr_inside:
  assumes "fb_shape b" "a \<in> fb_addrs b"
  shows "fb_inside a 8 b" "fb_inside a (fb_block_size b) b" "a \<le> SIZE_MAX"
proof -
  from assms(2) obtain i where "a = block_at b i" "i < fb_block_count b" by (auto simp: fb_addrs_def)
  with block_inside [OF assms(1)] show "fb_inside a 8 b" "fb_inside a (fb_block_size b) b" "a \<le> SIZE_MAX"
    using assms(1) by (fastforce simp: fb_inside_def fb_shape_def)+
qed

lemma block_at_inj: "fb_shape b \<Longrightarrow> block_at b i = block_at b j \<longleftrightarrow> i = j"
  by (auto simp: block_at_def fb_shape_def)

lemma finite_addrs [simp]: "finite (fb_addrs b)"
  by (simp add: fb_addrs_def)

lemma card_addrs: "fb_shape b \<Longrightarrow> card (fb_addrs b) = fb_block_count b"
  by (simp add: fb_addrs_def card_image inj_on_def block_at_inj)

lemma fb_ok_count:
  assumes "fb_ok b live"
  shows "fb_free_count b = fb_block_count b - card live" "card live \<le> fb_block_count b"
proof -
  from assms obtain fl where fl: "distinct fl" "set fl = fb_addrs b - live" "fb_free_count b = length fl" "live \<subseteq> fb_addrs b"
    "fb_shape b" by (auto simp: fb_ok_def)
  have "finite live" using fl(4) finite_addrs finite_subset by blast
  then show "fb_free_count b = fb_block_count b - card live"
    using fl card_Diff_subset [of live "fb_addrs b"] card_addrs distinct_card [OF fl(1)] by simp
  show "card live \<le> fb_block_count b" using fl card_mono [OF finite_addrs fl(4)] card_addrs by simp
qed

lemma fb_pop_ok:
  assumes ok: "fb_ok b live" and "fb_free_count b \<noteq> 0"
  shows "\<exists>p b'. fb_pop b = Some (p, b') \<and> p \<in> fb_addrs b - live \<and> fb_ok b' (insert p live) \<and> same_blocks b b' \<and>
    fb_links b' p = None"
proof -
  from ok obtain fl where fl: "distinct fl" "chain (fb_links b) (fb_free_list b) fl" "set fl = fb_addrs b - live"
    "fb_free_count b = length fl" and s: "fb_shape b" "live \<subseteq> fb_addrs b" by (auto simp: fb_ok_def)
  from fl(4) assms(2) obtain p fl' where p: "fl = p # fl'" by (cases fl) auto
  define b' where "b' = b\<lparr>fb_free_list := fb_links b p, fb_free_count := szt_dec (fb_free_count b), fb_links := (fb_links b)(p := None)\<rparr>"
  have pin: "p \<in> fb_addrs b - live" using fl(3) p by auto
  then have "fb_pop b = Some (p, b')" using fl(2) p addr_inside [OF s(1), of p] by (simp add: fb_pop_def b'_def)
  moreover have sb: "same_blocks b b'" by (simp add: same_blocks_def b'_def)
  moreover have "fb_ok b' (insert p live)"
    unfolding fb_ok_def
  proof (intro conjI exI [of _ fl'])
    show "set fl' = fb_addrs b' - insert p live" using fl(1,3) p same_blocks_addrs [OF sb] by auto
    show "chain (fb_links b') (fb_free_list b') fl'" using fl(1,2) p by (simp add: b'_def)
    show "fb_free_count b' = length fl'" using fl(4) p by (simp add: b'_def)
  qed (use s pin p fl(1) same_blocks_addrs [OF sb] in auto)
  ultimately show ?thesis using pin by (intro exI [of _ p] exI [of _ b']) (simp add: b'_def)
qed

lemma push_test:
  assumes s: "fb_shape b" and "ptr \<le> SIZE_MAX"
  shows "(szt_sub ptr (fb_memory b) < szt (fb_block_size b * fb_block_count b) \<and> szt_sub ptr (fb_memory b) mod fb_block_size b = 0)
    \<longleftrightarrow> ptr \<in> fb_addrs b"
proof -
  have w: "szt (fb_block_size b * fb_block_count b) = fb_bytes b" using s by (simp add: fb_shape_def)
  show ?thesis
  proof (cases "fb_memory b \<le> ptr")
    case True
    then have o: "szt_sub ptr (fb_memory b) = ptr - fb_memory b" by simp
    have "(ptr - fb_memory b < fb_bytes b \<and> (ptr - fb_memory b) mod fb_block_size b = 0) \<longleftrightarrow>
        (\<exists>i<fb_block_count b. ptr - fb_memory b = i * fb_block_size b)"
      using s by (auto simp: fb_shape_def mult.commute mod_eq_0_iff_dvd elim!: dvdE)
    also have "\<dots> \<longleftrightarrow> ptr \<in> fb_addrs b"
    proof -
      have "ptr - fb_memory b = k \<longleftrightarrow> ptr = fb_memory b + k" for k using True by auto
      then show ?thesis by (auto simp: fb_addrs_def block_at_def image_iff)
    qed
    finally show ?thesis using o w by simp
  next
    case False
    then have "\<not> szt_sub ptr (fb_memory b) < fb_bytes b" using s by (auto simp: szt_sub_def fb_shape_def)
    moreover have "ptr \<notin> fb_addrs b" using False by (auto simp: fb_addrs_def block_at_def)
    ultimately show ?thesis using w by simp
  qed
qed

lemma fb_push_block:
  assumes "fb_shape b" "p \<in> fb_addrs b"
  shows "fb_push b p = Some (Some (b\<lparr>fb_links := (fb_links b)(p := fb_free_list b), fb_free_list := Some p,
    fb_free_count := szt (fb_free_count b + 1)\<rparr>))"
  using push_test [OF assms(1), of p] addr_inside [OF assms] assms(2)
  by (simp add: fb_push_def fb_store_def Let_def not_le)

lemma fb_push_ok:
  assumes ok: "fb_ok b live" and "p \<in> live"
  shows "\<exists>b'. fb_push b p = Some (Some b') \<and> fb_ok b' (live - {p}) \<and> same_blocks b b'"
proof -
  from ok obtain fl where fl: "distinct fl" "chain (fb_links b) (fb_free_list b) fl" "set fl = fb_addrs b - live"
    "fb_free_count b = length fl" and s: "fb_shape b" "live \<subseteq> fb_addrs b" by (auto simp: fb_ok_def)
  have pin: "p \<in> fb_addrs b" "p \<notin> set fl" using assms(2) s(2) fl(3) by auto
  have "length fl < 18446744073709551615"
  proof -
    have "fb_block_count b < fb_bytes b" using s(1) by (auto simp: fb_shape_def intro: le_less_trans)
    then have "fb_block_count b < SIZE_MAX" using s(1) unfolding fb_shape_def by linarith
    then show ?thesis using fb_ok_count(1) [OF ok] fl(4) by linarith
  qed
  define b' where "b' = b\<lparr>fb_links := (fb_links b)(p := fb_free_list b), fb_free_list := Some p, fb_free_count := Suc (length fl)\<rparr>"
  have "fb_push b p = Some (Some b')"
    using fb_push_block [OF s(1) pin(1)] fl(4) \<open>length fl < _\<close> by (simp add: b'_def)
  moreover have sb: "same_blocks b b'" by (simp add: same_blocks_def b'_def)
  moreover have "fb_ok b' (live - {p})"
    unfolding fb_ok_def
  proof (intro conjI exI [of _ "p # fl"])
    show "set (p # fl) = fb_addrs b' - (live - {p})" using fl(3) pin(1) same_blocks_addrs [OF sb] by auto
    show "chain (fb_links b') (fb_free_list b') (p # fl)" using fl(2) pin(2) by (simp add: b'_def)
  qed (use s pin fl(1) same_blocks_addrs [OF sb] in \<open>auto simp: b'_def\<close>)
  ultimately show ?thesis by blast
qed

lemma fb_push_foreign: "fb_shape b \<Longrightarrow> ptr \<le> SIZE_MAX \<Longrightarrow> ptr \<notin> fb_addrs b \<Longrightarrow> fb_push b ptr = Some None"
  using push_test [of b ptr] by (auto simp: fb_push_def Let_def)

lemma fb_ok_user: "fb_ok b live \<Longrightarrow> p \<notin> fb_addrs b - live \<Longrightarrow> fb_ok (b\<lparr>fb_links := (fb_links b)(p := v)\<rparr>) live"
proof -
  assume ok: "fb_ok b live" and p: "p \<notin> fb_addrs b - live"
  let ?b = "b\<lparr>fb_links := (fb_links b)(p := v)\<rparr>"
  have "same_blocks b ?b" by (simp add: same_blocks_def)
  from same_blocks_addrs [OF this] ok p show ?thesis unfolding fb_ok_def by fastforce
qed

lemma chain_loop_ok:
  assumes "fb_shape b" "i < fb_block_count b"
    and "\<And>j. j < i \<Longrightarrow> fb_links b (block_at b j) = Some (block_at b (Suc j))"
  shows "\<exists>l. fb_chain_loop i b = Some (b\<lparr>fb_links := l\<rparr>) \<and> l (block_at b (fb_block_count b - 1)) = None \<and>
    (\<forall>j<fb_block_count b - 1. l (block_at b j) = Some (block_at b (Suc j)))"
  using assms
proof (induction "fb_block_count b - i" arbitrary: i b)
  case 0
  then show ?case by simp
next
  case (Suc n)
  have ins: "fb_inside (block_at b j) 8 b" if "j < fb_block_count b" for j
    using addr_inside [OF Suc.prems(1)] that by (simp add: fb_addrs_def)
  show ?case
  proof (cases "i < fb_block_count b - 1")
    case True
    define b' where "b' = b\<lparr>fb_links := (fb_links b)(block_at b i := Some (block_at b (Suc i)))\<rparr>"
    have at: "block_at b' = block_at b" and cnt: "fb_block_count b' = fb_block_count b"
      by (simp_all add: b'_def block_at_def fun_eq_iff)
    have "fb_chain_loop i b = fb_chain_loop (Suc i) b'"
      using True ins [of i] by (subst fb_chain_loop.simps) (simp add: fb_store_def b'_def block_at_def)
    moreover have "\<exists>l. fb_chain_loop (Suc i) b' = Some (b'\<lparr>fb_links := l\<rparr>) \<and> l (block_at b' (fb_block_count b' - 1)) = None \<and>
      (\<forall>j<fb_block_count b' - 1. l (block_at b' j) = Some (block_at b' (Suc j)))"
    proof (rule Suc.hyps(1))
      show "fb_links b' (block_at b' j) = Some (block_at b' (Suc j))" if "j < Suc i" for j
        using that Suc.prems(3) block_at_inj [OF Suc.prems(1), of j i] by (auto simp: at, simp_all add: b'_def less_Suc_eq)
    qed (use Suc True cnt in \<open>simp_all add: b'_def fb_shape_def\<close>)
    ultimately show ?thesis by (simp add: at cnt) (simp add: b'_def)
  next
    case False
    then have i: "i = fb_block_count b - 1" using Suc.prems(2) by simp
    have "fb_chain_loop i b = Some (b\<lparr>fb_links := (fb_links b)(block_at b i := None)\<rparr>)"
      using False ins [of i] Suc.prems(2) i by (subst fb_chain_loop.simps) (simp add: fb_store_def block_at_def)
    then show ?thesis using Suc.prems(3) i block_at_inj [OF Suc.prems(1)] by auto
  qed
qed

lemma chain_upto:
  assumes "\<And>j. i \<le> j \<Longrightarrow> j < n \<Longrightarrow> l (f j) = (if Suc j < n then Some (f (Suc j)) else None)" "i < n"
  shows "chain l (Some (f i)) (map f [i..<n])"
  using assms
proof (induction "n - i" arbitrary: i)
  case (Suc m)
  have "chain l (l (f i)) (map f [Suc i..<n])"
  proof (cases "Suc i < n")
    case True
    then show ?thesis using Suc.hyps(1) [of "Suc i"] Suc.hyps(2) Suc.prems by auto
  qed (use Suc.prems in simp)
  then show ?case using Suc.prems(2) by (simp add: upt_rec)
qed simp

lemma fb_build_ok:
  assumes "8 \<le> bs" "0 < n" "m + bs * n \<le> SIZE_MAX"
  shows "\<exists>b. fb_build bs n m = Some b \<and> fb_ok b {} \<and> fb_memory b = m \<and> fb_block_size b = bs \<and> fb_block_count b = n"
proof -
  define b where "b = \<lparr>fb_block_size = bs, fb_block_count = n, fb_free_count = n,
       fb_memory = m, fb_bytes = szt (bs * n), fb_free_list = Some m, fb_links = (\<lambda>_. None)\<rparr>"
  have s: "fb_shape b" using assms by (simp add: b_def fb_shape_def)
  from chain_loop_ok [OF s, of 0] assms(2) obtain l where l: "fb_chain_loop 0 b = Some (b\<lparr>fb_links := l\<rparr>)"
    "l (block_at b (n - 1)) = None" "\<forall>j<n - 1. l (block_at b j) = Some (block_at b (Suc j))"
    by (auto simp: b_def)
  define c where "c = b\<lparr>fb_links := l\<rparr>"
  have sb: "same_blocks b c" by (simp add: same_blocks_def c_def)
  have "fb_ok c {}"
    unfolding fb_ok_def
  proof (intro conjI exI [of _ "map (block_at b) [0..<n]"])
    have "l (block_at b j) = (if Suc j < n then Some (block_at b (Suc j)) else None)" if "j < n" for j
    proof (cases "Suc j < n")
      case False
      then have "j = n - 1" using that by simp
      then show ?thesis using l(2) False by simp
    qed (use l(3) in simp)
    then show "chain (fb_links c) (fb_free_list c) (map (block_at b) [0..<n])"
      using chain_upto [of 0 n l "block_at b"] assms(2) by (simp add: c_def b_def block_at_def)
    show "distinct (map (block_at b) [0..<n])" using block_at_inj [OF s] by (simp add: distinct_map inj_on_def)
  qed (use s same_blocks_addrs [OF sb] in \<open>auto simp: c_def b_def fb_addrs_def block_at_def\<close>)
  then show ?thesis using l(1) by (simp add: fb_build_def flip: b_def) (simp add: c_def b_def)
qed

subsection \<open>Programs of allocations, releases and writes\<close>

text \<open>
  A client of a block allocator: it requests blocks, gives back one of the blocks it holds (by its
  position among them), and overwrites the first bytes of a block it holds with any value.
\<close>

datatype blk_op = BlkAlloc nat | BlkFree nat | BlkWrite nat "nat option"

fun blk_exec ::
    "('s \<Rightarrow> nat \<Rightarrow> (nat option \<times> 's) option) \<Rightarrow> ('s \<Rightarrow> nat option \<Rightarrow> 's option) \<Rightarrow> (nat \<Rightarrow> nat option \<Rightarrow> 's \<Rightarrow> 's) \<Rightarrow>
     blk_op list \<Rightarrow> 's \<Rightarrow> nat list \<Rightarrow> (nat list \<times> 's) option" where
  "blk_exec al fr us [] s held = Some (held, s)"
| "blk_exec al fr us (BlkAlloc n # ops) s held =
     (case al s n of
        None \<Rightarrow> None
      | Some (None, s') \<Rightarrow> blk_exec al fr us ops s' held
      | Some (Some p, s') \<Rightarrow> blk_exec al fr us ops s' (p # held))"
| "blk_exec al fr us (BlkFree i # ops) s held =
     (if i < length held
      then case fr s (Some (held ! i)) of
             None \<Rightarrow> None
           | Some s' \<Rightarrow> blk_exec al fr us ops s' (take i held @ drop (Suc i) held)
      else blk_exec al fr us ops s held)"
| "blk_exec al fr us (BlkWrite i v # ops) s held =
     (if i < length held then blk_exec al fr us ops (us (held ! i) v s) held else blk_exec al fr us ops s held)"

lemma remove_nth:
  assumes "distinct xs" "i < length xs"
  shows "set (take i xs @ drop (Suc i) xs) = set xs - {xs ! i}" "distinct (take i xs @ drop (Suc i) xs)"
proof -
  define ys zs x where "ys = take i xs" and "zs = drop (Suc i) xs" and "x = xs ! i"
  have "xs = ys @ x # zs" using id_take_nth_drop [OF assms(2)] by (simp add: ys_def zs_def x_def)
  with assms(1) show "set (take i xs @ drop (Suc i) xs) = set xs - {xs ! i}" "distinct (take i xs @ drop (Suc i) xs)"
    unfolding ys_def [symmetric] zs_def [symmetric] x_def [symmetric] by auto
qed

locale block_allocator =
  fixes al :: "'s \<Rightarrow> nat \<Rightarrow> (nat option \<times> 's) option"
    and fr :: "'s \<Rightarrow> nat option \<Rightarrow> 's option"
    and us :: "nat \<Rightarrow> nat option \<Rightarrow> 's \<Rightarrow> 's"
    and holds :: "'s \<Rightarrow> nat set \<Rightarrow> bool"
  assumes al_ok: "holds s live \<Longrightarrow> \<exists>r s'. al s n = Some (r, s') \<and>
      (case r of None \<Rightarrow> holds s' live | Some p \<Rightarrow> p \<notin> live \<and> holds s' (insert p live))"
    and fr_ok: "holds s live \<Longrightarrow> p \<in> live \<Longrightarrow> \<exists>s'. fr s (Some p) = Some s' \<and> holds s' (live - {p})"
    and us_ok: "holds s live \<Longrightarrow> p \<in> live \<Longrightarrow> holds (us p v s) live"
begin

lemma blk_exec_safe:
  "holds s (set held) \<Longrightarrow> distinct held \<Longrightarrow>
    \<exists>held' s'. blk_exec al fr us ops s held = Some (held', s') \<and> holds s' (set held') \<and> distinct held'"
proof (induction ops arbitrary: s held)
  case (Cons op ops)
  show ?case
  proof (cases op)
    case (BlkAlloc n)
    from al_ok [OF Cons.prems(1), of n] obtain r s' where r: "al s n = Some (r, s')"
      "case r of None \<Rightarrow> holds s' (set held) | Some p \<Rightarrow> p \<notin> set held \<and> holds s' (insert p (set held))" by blast
    show ?thesis
    proof (cases r)
      case None
      with r BlkAlloc Cons show ?thesis by simp
    next
      case (Some p)
      with r BlkAlloc Cons.IH [of s' "p # held"] Cons.prems show ?thesis by simp
    qed
  next
    case (BlkFree i)
    show ?thesis
    proof (cases "i < length held")
      case True
      from fr_ok [OF Cons.prems(1), of "held ! i"] True obtain s' where
        s': "fr s (Some (held ! i)) = Some s'" "holds s' (set held - {held ! i})" by auto
      note rm = remove_nth [OF Cons.prems(2) True]
      with s' Cons.IH [of s' "take i held @ drop (Suc i) held"] rm BlkFree True show ?thesis by simp
    qed (use BlkFree Cons in simp)
  next
    case (BlkWrite i v)
    show ?thesis
    proof (cases "i < length held")
      case True
      with us_ok [OF Cons.prems(1), of "held ! i" v] Cons.IH [of "us (held ! i) v s" held] BlkWrite Cons.prems
      show ?thesis by simp
    qed (use BlkWrite Cons in simp)
  qed
qed simp

end

definition pool_request :: "cobalt_pool option \<Rightarrow> nat \<Rightarrow> (nat option \<times> cobalt_pool option) option" where
  "pool_request pl n = cobalt_pool_alloc pl"

definition fb_user_write :: "nat \<Rightarrow> nat option \<Rightarrow> fixed_blocks \<Rightarrow> fixed_blocks" where
  "fb_user_write p v b = b\<lparr>fb_links := (fb_links b)(p := v)\<rparr>"

definition pool_user_write :: "nat \<Rightarrow> nat option \<Rightarrow> cobalt_pool option \<Rightarrow> cobalt_pool option" where
  "pool_user_write p v = map_option (fb_user_write p v)"

definition pool_holds :: "nat \<Rightarrow> nat \<Rightarrow> nat \<Rightarrow> cobalt_pool option \<Rightarrow> nat set \<Rightarrow> bool" where
  "pool_holds m bs n pl live \<longleftrightarrow> (\<exists>b. pl = Some b \<and> fb_ok b live \<and> fb_memory b = m \<and> fb_block_size b = bs \<and> fb_block_count b = n)"

interpretation pool: block_allocator pool_request cobalt_pool_free pool_user_write "pool_holds m bs n" for m bs n
proof
  show "\<exists>r s'. pool_request s k = Some (r, s') \<and>
      (case r of None \<Rightarrow> pool_holds m bs n s' live | Some p \<Rightarrow> p \<notin> live \<and> pool_holds m bs n s' (insert p live))"
    if h: "pool_holds m bs n s live" for s live k
  proof -
    from h obtain b where b: "s = Some b" "fb_ok b live" "fb_memory b = m" "fb_block_size b = bs" "fb_block_count b = n"
      by (auto simp: pool_holds_def)
    show ?thesis
    proof (cases "fb_free_count b = 0")
      case True
      then show ?thesis using b h by (simp add: pool_request_def cobalt_pool_alloc_def)
    next
      case False
      from fb_pop_ok [OF b(2) this] obtain p b' where "fb_pop b = Some (p, b')" "p \<in> fb_addrs b - live"
        "fb_ok b' (insert p live)" "same_blocks b b'" by blast
      then show ?thesis using b False by (simp add: pool_request_def cobalt_pool_alloc_def pool_holds_def same_blocks_def)
    qed
  qed
  show "\<exists>s'. cobalt_pool_free s (Some p) = Some s' \<and> pool_holds m bs n s' (live - {p})"
    if h: "pool_holds m bs n s live" "p \<in> live" for s live p
  proof -
    from h(1) obtain b where b: "s = Some b" "fb_ok b live" "fb_memory b = m" "fb_block_size b = bs" "fb_block_count b = n"
      by (auto simp: pool_holds_def)
    from fb_push_ok [OF b(2) h(2)] b show ?thesis by (auto simp: cobalt_pool_free_def pool_holds_def same_blocks_def)
  qed
  show "pool_holds m bs n (pool_user_write p v s) live" if "pool_holds m bs n s live" "p \<in> live" for s live p v
    using that fb_ok_user [of _ live p v] by (auto simp: pool_holds_def pool_user_write_def fb_user_write_def)
qed

definition slab_user_write :: "nat \<Rightarrow> nat option \<Rightarrow> cobalt_slab option \<Rightarrow> cobalt_slab option" where
  "slab_user_write p v = map_option (\<lambda>s. s\<lparr>sl_classes := map (fb_user_write p v) (sl_classes s)\<rparr>)"

definition regions_apart :: "fixed_blocks \<Rightarrow> fixed_blocks \<Rightarrow> bool" where
  "regions_apart b c \<longleftrightarrow> fb_memory b + fb_bytes b \<le> fb_memory c \<or> fb_memory c + fb_bytes c \<le> fb_memory b"

definition slab_holds :: "fixed_blocks list \<Rightarrow> cobalt_slab option \<Rightarrow> nat set \<Rightarrow> bool" where
  "slab_holds cs0 sl live \<longleftrightarrow> (\<exists>s. sl = Some s \<and> list_all2 same_blocks cs0 (sl_classes s) \<and>
     sorted_wrt regions_apart (sl_classes s) \<and> live \<subseteq> (\<Union>c\<in>set (sl_classes s). fb_addrs c) \<and>
     (\<forall>c\<in>set (sl_classes s). fb_ok c (live \<inter> fb_addrs c)))"

lemma regions_apart_addrs: "regions_apart b c \<Longrightarrow> fb_shape b \<Longrightarrow> fb_shape c \<Longrightarrow> fb_addrs b \<inter> fb_addrs c = {}"
proof -
  assume r: "regions_apart b c" and s: "fb_shape b" "fb_shape c"
  have "p \<notin> fb_addrs c" if "p \<in> fb_addrs b" for p
  proof
    assume "p \<in> fb_addrs c"
    with addr_inside(1) [OF s(1) that] addr_inside(1) [OF s(2)] r show False
      by (fastforce simp: fb_inside_def regions_apart_def)
  qed
  then show ?thesis by blast
qed

lemma same_blocks_refl: "same_blocks b b"
  by (simp add: same_blocks_def)

lemma same_blocks_trans: "same_blocks a b \<Longrightarrow> same_blocks b c \<Longrightarrow> same_blocks a c"
  by (simp add: same_blocks_def)

lemma same_blocks_apart: "same_blocks b b' \<Longrightarrow> regions_apart b' c = regions_apart b c \<and> regions_apart c b' = regions_apart c b"
  by (simp add: same_blocks_def regions_apart_def)

lemma slab_disjoint:
  assumes "sorted_wrt regions_apart cs" "\<And>c. c \<in> set cs \<Longrightarrow> fb_shape c" "i < length cs" "j < length cs" "i \<noteq> j"
  shows "fb_addrs (cs ! i) \<inter> fb_addrs (cs ! j) = {}"
proof -
  have ap: "fb_addrs (cs ! i) \<inter> fb_addrs (cs ! j) = {}" if "i < j" "j < length cs" for i j
    using sorted_wrt_nth_less [OF assms(1) that] that assms(2) by (intro regions_apart_addrs) auto
  show ?thesis
  proof (cases "i < j")
    case True
    then show ?thesis using ap assms(4) by simp
  next
    case False
    then show ?thesis using ap [of j i] assms(3,5) by auto
  qed
qed

lemma slab_holds_upd:
  assumes h: "slab_holds cs0 (Some s) live" and k: "k < length (sl_classes s)"
    and c: "fb_ok c' L" "same_blocks (sl_classes s ! k) c'"
    and L: "L = live' \<inter> fb_addrs c'" "live' \<subseteq> live \<union> fb_addrs c'" "live - fb_addrs c' \<subseteq> live'"
  shows "slab_holds cs0 (Some (s\<lparr>sl_classes := (sl_classes s)[k := c']\<rparr>)) live'"
proof -
  define cs where "cs = sl_classes s"
  note c = c [folded cs_def] and k = k [folded cs_def]
  from h have h: "list_all2 same_blocks cs0 cs" "sorted_wrt regions_apart cs"
    "live \<subseteq> (\<Union>c\<in>set cs. fb_addrs c)" "\<And>c. c \<in> set cs \<Longrightarrow> fb_ok c (live \<inter> fb_addrs c)"
    by (auto simp: slab_holds_def cs_def)
  have shape: "\<And>c. c \<in> set cs \<Longrightarrow> fb_shape c" using h(4) by (simp add: fb_ok_def)
  have addrs: "fb_addrs c' = fb_addrs (cs ! k)" using same_blocks_addrs [OF c(2)] by simp
  have nth: "same_blocks (cs ! i) (cs[k := c'] ! i)" if "i < length cs" for i
    using that c(2) same_blocks_refl by (cases "i = k") auto
  have "list_all2 same_blocks cs0 (cs[k := c'])"
    using h(1) nth same_blocks_trans unfolding list_all2_conv_all_nth by fastforce
  moreover have "sorted_wrt regions_apart (cs[k := c'])"
    unfolding sorted_wrt_iff_nth_less
  proof (intro allI impI)
    fix i j assume "i < j" "j < length (cs[k := c'])"
    then show "regions_apart (cs[k := c'] ! i) (cs[k := c'] ! j)"
      using nth same_blocks_apart h(2) by (metis length_list_update less_trans sorted_wrt_nth_less)
  qed
  moreover have "live' \<subseteq> (\<Union>c\<in>set (cs[k := c']). fb_addrs c)"
  proof
    fix p assume "p \<in> live'"
    with L(2) h(3) have "p \<in> fb_addrs c' \<or> (\<exists>i<length cs. p \<in> fb_addrs (cs ! i))" by (fastforce simp: in_set_conv_nth)
    then obtain i where "i < length cs" "p \<in> fb_addrs (cs ! i)" using addrs k by auto
    then have "p \<in> fb_addrs (cs[k := c'] ! i)" using same_blocks_addrs [OF nth] by simp
    then show "p \<in> (\<Union>c\<in>set (cs[k := c']). fb_addrs c)" using \<open>i < length cs\<close>
      by (metis UN_I length_list_update nth_mem)
  qed
  moreover have "fb_ok x (live' \<inter> fb_addrs x)" if x: "x \<in> set (cs[k := c'])" for x
  proof -
    from x obtain i where i: "i < length cs" "x = cs[k := c'] ! i" by (auto simp: in_set_conv_nth)
    show ?thesis
    proof (cases "i = k")
      case True
      then show ?thesis using i c(1) L(1) by simp
    next
      case False
      then have "fb_addrs (cs ! i) \<inter> fb_addrs c' = {}" using slab_disjoint [OF h(2) shape i(1) k] addrs by simp
      then have "live' \<inter> fb_addrs (cs ! i) = live \<inter> fb_addrs (cs ! i)" using L(2,3) by blast
      then show ?thesis using i False h(4) [of "cs ! i"] by simp
    qed
  qed
  ultimately show ?thesis by (simp add: slab_holds_def cs_def)
qed

lemma find_class_loop_bound: "find_class_loop sz i cs < int (i + length cs)"
  by (induction sz i cs rule: find_class_loop.induct) auto

lemma find_class_loop_first:
  "0 \<le> find_class_loop sz i cs \<Longrightarrow> int i \<le> find_class_loop sz i cs \<and> sz \<le> fb_block_size (cs ! nat (find_class_loop sz i cs - int i)) \<and>
     (\<forall>j<nat (find_class_loop sz i cs - int i). fb_block_size (cs ! j) < sz)"
proof (induction sz i cs rule: find_class_loop.induct)
  case (2 sz i c cs)
  show ?case
  proof (cases "sz \<le> fb_block_size c")
    case False
    then have IH: "int (i + 1) \<le> find_class_loop sz (i + 1) cs"
      "sz \<le> fb_block_size (cs ! nat (find_class_loop sz (i + 1) cs - int (i + 1)))"
      "\<forall>j<nat (find_class_loop sz (i + 1) cs - int (i + 1)). fb_block_size (cs ! j) < sz" using 2 by auto
    define k where "k = nat (find_class_loop sz (i + 1) cs - int (i + 1))"
    have "nat (find_class_loop sz (i + 1) cs - int i) = Suc k" using IH(1) by (simp add: k_def)
    moreover have "sz \<le> fb_block_size (cs ! k)" "\<forall>j<k. fb_block_size (cs ! j) < sz" using IH(2,3) unfolding k_def by blast+
    ultimately show ?thesis using IH(1) False by (auto simp: less_Suc_eq_0_disj)
  qed simp
qed simp

lemma slab_alloc_ok:
  assumes h: "slab_holds cs0 sl live"
  shows "\<exists>r sl'. cobalt_slab_alloc sl n = Some (r, sl') \<and>
    (case r of None \<Rightarrow> slab_holds cs0 sl' live | Some p \<Rightarrow> p \<notin> live \<and> slab_holds cs0 sl' (insert p live))"
proof -
  from h obtain s where s: "sl = Some s" by (auto simp: slab_holds_def)
  define i where "i = slab_find_class s n"
  define c where "c = sl_classes s ! nat i"
  consider "n = 0 \<or> i < 0 \<or> fb_free_count c = 0" | "n \<noteq> 0" "0 \<le> i" "fb_free_count c \<noteq> 0" by linarith
  then show ?thesis
  proof cases
    case 1
    then have "cobalt_slab_alloc sl n = Some (None, sl)"
      using s by (auto simp: cobalt_slab_alloc_def Let_def i_def c_def)
    then show ?thesis using h by simp
  next
    case 2
    have k: "nat i < length (sl_classes s)"
      using find_class_loop_bound [of n 0 "sl_classes s"] 2(2) by (simp add: i_def slab_find_class_def)
    then have ok: "fb_ok c (live \<inter> fb_addrs c)" using h s by (auto simp: slab_holds_def c_def)
    from fb_pop_ok [OF ok 2(3)] obtain p c' where p: "fb_pop c = Some (p, c')" "p \<in> fb_addrs c" "p \<notin> live"
      "fb_ok c' (insert p (live \<inter> fb_addrs c))" "same_blocks c c'" by auto
    have "slab_holds cs0 (Some (s\<lparr>sl_classes := (sl_classes s)[nat i := c']\<rparr>)) (insert p live)"
      by (rule slab_holds_upd [OF h [unfolded s] k p(4)]) (use p same_blocks_addrs [OF p(5)] in \<open>auto simp: c_def\<close>)
    moreover have "cobalt_slab_alloc sl n = Some (Some p, Some (s\<lparr>sl_classes := (sl_classes s)[nat i := c']\<rparr>))"
      using 2 p(1) s by (simp add: cobalt_slab_alloc_def Let_def flip: i_def c_def)
    ultimately show ?thesis using p(3) by simp
  qed
qed

lemma slab_free_loop_ok:
  assumes "k < length cs" "fb_push (cs ! k) p = Some (Some c')" "\<And>i. i < k \<Longrightarrow> fb_push (cs ! i) p = Some None"
  shows "slab_free_loop p cs = Some (cs[k := c'])"
  using assms
proof (induction cs arbitrary: k)
  case (Cons c cs)
  then show ?case by (cases k) (use Cons.prems(3) [of 0] Cons.IH Cons.prems in \<open>fastforce+\<close>)
qed simp

lemma slab_free_ok:
  assumes h: "slab_holds cs0 sl live" and p: "p \<in> live"
  shows "\<exists>sl'. cobalt_slab_free sl (Some p) = Some sl' \<and> slab_holds cs0 sl' (live - {p})"
proof -
  from h obtain s where s: "sl = Some s" by (auto simp: slab_holds_def)
  define cs where "cs = sl_classes s"
  from h s have hc: "sorted_wrt regions_apart cs" "live \<subseteq> (\<Union>c\<in>set cs. fb_addrs c)"
    "\<And>c. c \<in> set cs \<Longrightarrow> fb_ok c (live \<inter> fb_addrs c)" by (auto simp: slab_holds_def cs_def)
  have shape: "\<And>c. c \<in> set cs \<Longrightarrow> fb_shape c" using hc(3) by (simp add: fb_ok_def)
  from hc(2) p obtain k where k: "k < length cs" "p \<in> fb_addrs (cs ! k)" by (fastforce simp: in_set_conv_nth)
  have ok: "fb_ok (cs ! k) (live \<inter> fb_addrs (cs ! k))" using hc(3) k(1) by simp
  from fb_push_ok [OF ok, of p] k(2) p obtain c' where c': "fb_push (cs ! k) p = Some (Some c')"
    "fb_ok c' (live \<inter> fb_addrs (cs ! k) - {p})" "same_blocks (cs ! k) c'" by auto
  have "fb_push (cs ! i) p = Some None" if "i < k" for i
  proof (rule fb_push_foreign)
    show "p \<notin> fb_addrs (cs ! i)" using slab_disjoint [OF hc(1) shape, of i k] k that by auto
    show "p \<le> SIZE_MAX" using addr_inside(3) [OF shape k(2)] k(1) by simp
  qed (use that k(1) shape in simp)
  from slab_free_loop_ok [OF k(1) c'(1) this]
  have "cobalt_slab_free sl (Some p) = Some (Some (s\<lparr>sl_classes := cs[k := c']\<rparr>))"
    using s by (simp add: cobalt_slab_free_def cs_def)
  moreover have "slab_holds cs0 (Some (s\<lparr>sl_classes := cs[k := c']\<rparr>)) (live - {p})"
    unfolding cs_def
    by (rule slab_holds_upd [OF h [unfolded s] _ c'(2)])
      (use k c' p same_blocks_addrs [OF c'(3)] in \<open>auto simp: cs_def\<close>)
  ultimately show ?thesis by blast
qed

lemma slab_user_ok: "slab_holds cs0 sl live \<Longrightarrow> slab_holds cs0 (slab_user_write p v sl) live" if "p \<in> live"
proof -
  assume h: "slab_holds cs0 sl live"
  then obtain s where s: "sl = Some s" by (auto simp: slab_holds_def)
  have sb: "same_blocks c (fb_user_write p v c)" for c by (simp add: same_blocks_def fb_user_write_def)
  have "fb_addrs (fb_user_write p v c) = fb_addrs c" for c using same_blocks_addrs [OF sb] by simp
  moreover have "regions_apart (fb_user_write p v b) (fb_user_write p v c) = regions_apart b c" for b c
    using same_blocks_apart [OF sb] by metis
  moreover have "fb_ok (fb_user_write p v c) (live \<inter> fb_addrs c)" if "fb_ok c (live \<inter> fb_addrs c)" for c
    using fb_ok_user [OF that, of p v] \<open>p \<in> live\<close> by (simp add: fb_user_write_def)
  moreover have "list_all2 same_blocks cs0 (map (fb_user_write p v) cs)" if "list_all2 same_blocks cs0 cs" for cs
    using that same_blocks_trans [OF _ sb] by (simp add: list_all2_map2 list_all2_mono)
  ultimately show ?thesis using h s by (auto simp: slab_holds_def slab_user_write_def sorted_wrt_map)
qed

interpretation slab: block_allocator cobalt_slab_alloc cobalt_slab_free slab_user_write "slab_holds cs0" for cs0
  by unfold_locales (use slab_alloc_ok slab_free_ok slab_user_ok in auto)

lemma blocks_apart:
  assumes "fb_shape b" "p \<in> fb_addrs b" "q \<in> fb_addrs b" "p \<noteq> q"
  shows "p + fb_block_size b \<le> q \<or> q + fb_block_size b \<le> p"
proof -
  have less: "block_at b i + fb_block_size b \<le> block_at b j" if "i < j" for i j
  proof -
    have "(i + 1) * fb_block_size b \<le> j * fb_block_size b" using that by (intro mult_le_mono1) simp
    then show ?thesis by (simp add: block_at_def algebra_simps)
  qed
  from assms obtain i j where "p = block_at b i" "q = block_at b j" "i \<noteq> j" by (auto simp: fb_addrs_def)
  then show ?thesis using less [of i j] less [of j i] by (cases "i < j") auto
qed

lemma slab_blocks_apart:
  assumes "sorted_wrt regions_apart cs" "\<And>c. c \<in> set cs \<Longrightarrow> fb_shape c" "c \<in> set cs" "d \<in> set cs"
    "p \<in> fb_addrs c" "q \<in> fb_addrs d" "p \<noteq> q"
  shows "p + fb_block_size c \<le> q \<or> q + fb_block_size d \<le> p"
proof (cases "c = d")
  case True
  then show ?thesis using blocks_apart assms by blast
next
  case False
  have "regions_apart c d \<or> regions_apart d c"
    using assms(1,3,4) False by (metis in_set_conv_nth linorder_neqE_nat sorted_wrt_nth_less)
  then have "fb_memory c + fb_bytes c \<le> fb_memory d \<or> fb_memory d + fb_bytes d \<le> fb_memory c"
    by (auto simp: regions_apart_def)
  moreover have "fb_inside p (fb_block_size c) c" "fb_inside q (fb_block_size d) d" using assms addr_inside(2) by blast+
  ultimately show ?thesis by (auto simp: fb_inside_def)
qed

definition class_config :: "nat \<times> nat \<Rightarrow> nat \<times> nat" where
  "class_config = (\<lambda>(sz, ct). (if sz < 8 then 8 else sz, if ct = 0 then 16 else ct))"

definition class_bytes :: "nat \<times> nat \<Rightarrow> nat" where
  "class_bytes cfg = fst (class_config cfg) * snd (class_config cfg)"

lemma slab_init_loop_ok:
  assumes "\<And>k. k < length cfg \<Longrightarrow> \<exists>m. mem (i + k) = Some m \<and> m + class_bytes (cfg ! k) \<le> SIZE_MAX"
  shows "\<exists>cs. slab_init_loop mem i cfg = Some (Some cs) \<and> length cs = length cfg \<and>
    (\<forall>k<length cfg. fb_ok (cs ! k) {} \<and> mem (i + k) = Some (fb_memory (cs ! k)) \<and>
      fb_block_size (cs ! k) = fst (class_config (cfg ! k)) \<and> fb_block_count (cs ! k) = snd (class_config (cfg ! k)))"
  using assms
proof (induction cfg arbitrary: i)
  case (Cons c cfg)
  obtain sz ct where c: "c = (sz, ct)" by fastforce
  define bs n where "bs = (if sz < 8 then 8 else sz)" and "n = (if ct = 0 then 16 else ct)"
  from Cons.prems [of 0] c obtain m where m: "mem i = Some m" "m + bs * n \<le> SIZE_MAX"
    by (auto simp: class_bytes_def class_config_def bs_def n_def split: if_splits)
  have "8 \<le> bs" "0 < n" by (simp_all add: bs_def n_def)
  from fb_build_ok [OF this m(2)] obtain b where b: "fb_build bs n m = Some b" "fb_ok b {}" "fb_memory b = m"
    "fb_block_size b = bs" "fb_block_count b = n" by blast
  have "\<And>k. k < length cfg \<Longrightarrow> \<exists>m. mem (Suc i + k) = Some m \<and> m + class_bytes (cfg ! k) \<le> SIZE_MAX"
    using Cons.prems [of "Suc _"] by auto
  from Cons.IH [of "Suc i", OF this] obtain cs where cs: "slab_init_loop mem (Suc i) cfg = Some (Some cs)" "length cs = length cfg"
    "\<And>k. k < length cfg \<Longrightarrow> fb_ok (cs ! k) {} \<and> mem (Suc i + k) = Some (fb_memory (cs ! k)) \<and>
      fb_block_size (cs ! k) = fst (class_config (cfg ! k)) \<and> fb_block_count (cs ! k) = snd (class_config (cfg ! k))" by blast
  have "slab_init_loop mem i (c # cfg) = Some (Some (b # cs))"
    using c m(1) b(1) cs(1) by (simp add: Let_def flip: bs_def n_def)
  moreover have "fb_ok ((b # cs) ! k) {} \<and> mem (i + k) = Some (fb_memory ((b # cs) ! k)) \<and>
      fb_block_size ((b # cs) ! k) = fst (class_config ((c # cfg) ! k)) \<and>
      fb_block_count ((b # cs) ! k) = snd (class_config ((c # cfg) ! k))" if "k < length (c # cfg)" for k
    using that m(1) b c cs(3) by (cases k) (auto simp: class_config_def bs_def n_def)
  ultimately show ?case using cs(2) by (intro exI [of _ "b # cs"]) auto
qed simp

text \<open>
  C8: on a new slab whose classes were given disjoint regions, every program of requests, releases
  and writes into held blocks runs without a fault (no link is read from or written to a place
  outside a region, whatever the client wrote into its blocks). Blocks held at the same time never
  overlap, and a request is served from a class whose blocks are large enough.
\<close>

theorem slab_programs_safe:
  assumes "0 < length cfg" "length cfg \<le> 16"
    and mem: "\<And>k. k < length cfg \<Longrightarrow> \<exists>m. mem k = Some m \<and> m + class_bytes (cfg ! k) \<le> SIZE_MAX"
    and apart: "\<And>j k. j < k \<Longrightarrow> k < length cfg \<Longrightarrow>
      the (mem j) + class_bytes (cfg ! j) \<le> the (mem k) \<or> the (mem k) + class_bytes (cfg ! k) \<le> the (mem j)"
  shows "\<exists>slab held s.
    cobalt_slab_create True mem (Some (map fst cfg)) (Some (map snd cfg)) (length cfg) = Some (Some slab) \<and>
    blk_exec cobalt_slab_alloc cobalt_slab_free slab_user_write ops (Some slab) [] = Some (held, Some s) \<and>
    distinct held \<and> (\<forall>p\<in>set held. \<exists>c\<in>set (sl_classes s). p \<in> fb_addrs c) \<and>
    (\<forall>p\<in>set held. \<forall>q\<in>set held. \<forall>c\<in>set (sl_classes s). \<forall>d\<in>set (sl_classes s).
       p \<noteq> q \<and> p \<in> fb_addrs c \<and> q \<in> fb_addrs d \<longrightarrow> p + fb_block_size c \<le> q \<or> q + fb_block_size d \<le> p) \<and>
    (\<forall>n p s'. cobalt_slab_alloc (Some s) n = Some (Some p, s') \<longrightarrow>
       (\<exists>c\<in>set (sl_classes s). p \<in> fb_addrs c \<and> n \<le> fb_block_size c \<and> p \<notin> set held))"
proof -
  from slab_init_loop_ok [of cfg mem 0] mem obtain cs where cs: "slab_init_loop mem 0 cfg = Some (Some cs)" "length cs = length cfg"
    "\<And>k. k < length cfg \<Longrightarrow> fb_ok (cs ! k) {} \<and> mem k = Some (fb_memory (cs ! k)) \<and>
      fb_block_size (cs ! k) = fst (class_config (cfg ! k)) \<and> fb_block_count (cs ! k) = snd (class_config (cfg ! k))" by auto
  have "fb_bytes (cs ! k) = class_bytes (cfg ! k)" if "k < length cfg" for k
    using cs(3) [OF that] by (simp add: fb_ok_def fb_shape_def class_bytes_def)
  then have "sorted_wrt regions_apart cs"
    unfolding sorted_wrt_iff_nth_less using cs(2,3) apart by (fastforce simp: regions_apart_def)
  moreover have "fb_ok c {}" if "c \<in> set cs" for c using that cs(2,3) by (auto simp: in_set_conv_nth)
  ultimately have "slab_holds cs (Some \<lparr>sl_classes = cs, sl_alloc = True\<rparr>) (set [])"
    by (simp add: slab_holds_def list_all2_same same_blocks_refl)
  from slab.blk_exec_safe [OF this, of ops] obtain held sl where
    ex: "blk_exec cobalt_slab_alloc cobalt_slab_free slab_user_write ops (Some \<lparr>sl_classes = cs, sl_alloc = True\<rparr>) [] = Some (held, sl)"
    "slab_holds cs sl (set held)" "distinct held" by auto
  from ex(2) obtain s where s: "sl = Some s" "sorted_wrt regions_apart (sl_classes s)"
    "set held \<subseteq> (\<Union>c\<in>set (sl_classes s). fb_addrs c)" "\<And>c. c \<in> set (sl_classes s) \<Longrightarrow> fb_ok c (set held \<inter> fb_addrs c)"
    by (auto simp: slab_holds_def)
  have shape: "\<And>c. c \<in> set (sl_classes s) \<Longrightarrow> fb_shape c" using s(4) by (simp add: fb_ok_def)
  have serve: "\<exists>c\<in>set (sl_classes s). p \<in> fb_addrs c \<and> n \<le> fb_block_size c \<and> p \<notin> set held"
    if al: "cobalt_slab_alloc (Some s) n = Some (Some p, s')" for n p s'
  proof -
    define i where "i = slab_find_class s n"
    define c where "c = sl_classes s ! nat i"
    from al obtain c' where i: "0 \<le> i" "fb_free_count c \<noteq> 0" "fb_pop c = Some (p, c')"
      by (auto simp: cobalt_slab_alloc_def Let_def simp flip: i_def c_def split: if_splits)
    have "nat i < length (sl_classes s)" "n \<le> fb_block_size c"
      using find_class_loop_bound [of n 0 "sl_classes s"] find_class_loop_first [of n 0 "sl_classes s"] i(1)
      by (simp_all add: i_def c_def slab_find_class_def)
    then have c: "c \<in> set (sl_classes s)" "n \<le> fb_block_size c" by (simp_all add: c_def)
    from fb_pop_ok [OF s(4) [OF c(1)] i(2)] i(3) c show ?thesis by auto
  qed
  have create: "cobalt_slab_create True mem (Some (map fst cfg)) (Some (map snd cfg)) (length cfg) =
      Some (Some \<lparr>sl_classes = cs, sl_alloc = True\<rparr>)"
    using assms(1,2) cs(1) by (simp add: cobalt_slab_create_def cobalt_slab_create_with_allocator_def zip_map_fst_snd)
  have inside: "\<forall>p\<in>set held. \<exists>c\<in>set (sl_classes s). p \<in> fb_addrs c" using s(3) by auto
  have disj: "\<forall>p\<in>set held. \<forall>q\<in>set held. \<forall>c\<in>set (sl_classes s). \<forall>d\<in>set (sl_classes s).
       p \<noteq> q \<and> p \<in> fb_addrs c \<and> q \<in> fb_addrs d \<longrightarrow> p + fb_block_size c \<le> q \<or> q + fb_block_size d \<le> p"
    using slab_blocks_apart [OF s(2) shape] by blast
  have srv: "\<forall>n p s'. cobalt_slab_alloc (Some s) n = Some (Some p, s') \<longrightarrow>
       (\<exists>c\<in>set (sl_classes s). p \<in> fb_addrs c \<and> n \<le> fb_block_size c \<and> p \<notin> set held)" using serve by blast
  show ?thesis by (rule exI, rule exI, rule exI, intro conjI) (rule create ex(1) [unfolded s(1)] ex(3) inside disj srv)+
qed

theorem slab_programs_safe_witness:
  "\<exists>slab held s. cobalt_slab_create True (\<lambda>i. if i = 0 then Some 64 else Some 256) (Some [4, 32]) (Some [2, 3]) 2 = Some (Some slab) \<and>
    blk_exec cobalt_slab_alloc cobalt_slab_free slab_user_write [BlkAlloc 8, BlkWrite 0 (Some 1), BlkAlloc 20, BlkFree 1] (Some slab) [] =
      Some (held, Some s) \<and> distinct held"
proof -
  let ?mem = "\<lambda>i::nat. if i = 0 then Some 64 else Some (256::nat)"
  let ?cfg = "[(4, 2), (32::nat, 3::nat)]"
  have b: "class_bytes (?cfg ! 0) = 16" "class_bytes (?cfg ! 1) = 96" by (simp_all add: class_bytes_def class_config_def)
  have k: "k = 0 \<or> k = 1" if "k < length ?cfg" for k using that by auto
  have jk: "j = 0 \<and> k = 1" if "j < k" "k < length ?cfg" for j k using that by auto
  have "\<exists>m. ?mem k = Some m \<and> m + class_bytes (?cfg ! k) \<le> SIZE_MAX" if "k < length ?cfg" for k
    using k [OF that] b by auto
  moreover have "the (?mem j) + class_bytes (?cfg ! j) \<le> the (?mem k) \<or> the (?mem k) + class_bytes (?cfg ! k) \<le> the (?mem j)"
    if "j < k" "k < length ?cfg" for j k
    using jk [OF that] b by auto
  ultimately have "\<exists>slab held s. cobalt_slab_create True ?mem (Some (map fst ?cfg)) (Some (map snd ?cfg)) (length ?cfg) = Some (Some slab) \<and>
    blk_exec cobalt_slab_alloc cobalt_slab_free slab_user_write [BlkAlloc 8, BlkWrite 0 (Some 1), BlkAlloc 20, BlkFree 1] (Some slab) [] =
      Some (held, Some s) \<and> distinct held"
    using slab_programs_safe [of ?cfg ?mem "[BlkAlloc 8, BlkWrite 0 (Some 1), BlkAlloc 20, BlkFree 1]"] by fastforce
  then show ?thesis by (simp add: numeral_2_eq_2)
qed

lemma pool_alloc_answer:
  assumes "pool_holds memory bs n pl (set held)" "distinct held"
  shows "if length held = n then cobalt_pool_alloc pl = Some (None, pl)
     else \<exists>p pl'. cobalt_pool_alloc pl = Some (Some p, pl') \<and> p \<notin> set held \<and> (\<exists>i<n. p = memory + i * bs)"
proof -
  from assms(1) obtain b where b: "pl = Some b" "fb_ok b (set held)" "fb_memory b = memory" "fb_block_size b = bs" "fb_block_count b = n"
    by (auto simp: pool_holds_def)
  have n: "fb_free_count b = n - length held" "length held \<le> n"
    using fb_ok_count [OF b(2)] b(5) distinct_card [OF assms(2)] by simp_all
  show ?thesis
  proof (cases "length held = n")
    case True
    then show ?thesis using n b(1) by (simp add: cobalt_pool_alloc_def)
  next
    case False
    then have "fb_free_count b \<noteq> 0" using n by simp
    from fb_pop_ok [OF b(2) this] obtain p b' where p: "fb_pop b = Some (p, b')" "p \<in> fb_addrs b" "p \<notin> set held" by blast
    from p(2) obtain i where "i < n" "p = memory + i * bs" using b(3-5) by (auto simp: fb_addrs_def block_at_def)
    then show ?thesis using False p(1,3) b(1) \<open>fb_free_count b \<noteq> 0\<close> by (auto simp: cobalt_pool_alloc_def)
  qed
qed

text \<open>
  C19: on a new pool, every program of requests, releases and writes into held blocks runs without a
  fault; the blocks held are distinct blocks of the pool, the free count is exact, and the pool is
  full exactly when all its blocks are held. A further request then answers NULL and changes nothing; as long as a block is not held
  the request is served, with a block that is not held.
\<close>

theorem pool_programs_safe:
  assumes "0 < block_size" "0 < block_count" "memory + max 8 block_size * block_count \<le> SIZE_MAX"
  shows "\<exists>pool held pl. cobalt_pool_create True (Some memory) block_size block_count = Some (Some pool) \<and>
    blk_exec pool_request cobalt_pool_free pool_user_write ops (Some pool) [] = Some (held, pl) \<and>
    distinct held \<and> (\<forall>p\<in>set held. \<exists>i<block_count. p = memory + i * max 8 block_size) \<and>
    cobalt_pool_free_count pl = block_count - length held \<and> (cobalt_pool_is_full pl \<longleftrightarrow> length held = block_count) \<and>
    (if length held = block_count then cobalt_pool_alloc pl = Some (None, pl)
     else \<exists>p pl'. cobalt_pool_alloc pl = Some (Some p, pl') \<and> p \<notin> set held \<and> (\<exists>i<block_count. p = memory + i * max 8 block_size))"
proof -
  define bs where "bs = (if block_size < 8 then 8 else block_size)"
  have bs: "max 8 block_size = bs" "8 \<le> bs" by (auto simp: bs_def)
  from fb_build_ok [OF bs(2) assms(2)] assms(3) obtain b where b: "fb_build bs block_count memory = Some b" "fb_ok b {}"
    "fb_memory b = memory" "fb_block_size b = bs" "fb_block_count b = block_count" unfolding bs(1) by blast
  have create: "cobalt_pool_create True (Some memory) block_size block_count = Some (Some b)"
    using assms(1,2) b(1) by (simp add: cobalt_pool_create_def cobalt_pool_create_with_allocator_def flip: bs_def)
  have "pool_holds memory bs block_count (Some b) (set [])" using b by (simp add: pool_holds_def)
  from pool.blk_exec_safe [OF this, of ops] obtain held pl where ex:
    "blk_exec pool_request cobalt_pool_free pool_user_write ops (Some b) [] = Some (held, pl)"
    "pool_holds memory bs block_count pl (set held)" "distinct held" by auto
  from ex(2) obtain c where c: "pl = Some c" "fb_ok c (set held)" "fb_memory c = memory" "fb_block_size c = bs"
    "fb_block_count c = block_count" by (auto simp: pool_holds_def)
  have "set held \<subseteq> fb_addrs c" using c(2) by (simp add: fb_ok_def)
  then have inside: "\<forall>p\<in>set held. \<exists>i<block_count. p = memory + i * max 8 block_size"
    using c(3-5) bs(1) by (auto simp: fb_addrs_def block_at_def)
  have n: "fb_free_count c = block_count - length held" "length held \<le> block_count"
    using fb_ok_count [OF c(2)] c(5) distinct_card [OF ex(3)] by simp_all
  then have "cobalt_pool_free_count pl = block_count - length held \<and> (cobalt_pool_is_full pl \<longleftrightarrow> length held = block_count)"
    using c(1) by (auto simp: cobalt_pool_free_count_def cobalt_pool_is_full_def)
  moreover have "if length held = block_count then cobalt_pool_alloc pl = Some (None, pl)
     else \<exists>p pl'. cobalt_pool_alloc pl = Some (Some p, pl') \<and> p \<notin> set held \<and> (\<exists>i<block_count. p = memory + i * max 8 block_size)"
    using pool_alloc_answer [OF ex(2,3)] unfolding bs(1) .
  ultimately show ?thesis using create ex(1,3) inside by blast
qed

theorem pool_programs_safe_witness:
  "\<exists>pool held pl. cobalt_pool_create True (Some 64) 24 2 = Some (Some pool) \<and>
    blk_exec pool_request cobalt_pool_free pool_user_write [BlkAlloc 0, BlkWrite 0 (Some 7), BlkAlloc 0, BlkFree 0, BlkAlloc 0] (Some pool) [] =
      Some (held, pl) \<and> distinct held \<and> cobalt_pool_free_count pl = 2 - length held"
  using pool_programs_safe [of 24 2 64 "[BlkAlloc 0, BlkWrite 0 (Some 7), BlkAlloc 0, BlkFree 0, BlkAlloc 0]"]
  by (fastforce simp del: blk_exec.simps)

text \<open>
  Three consequences of checks that are missing. A release is not recognised as a second one: the
  block is then handed out twice. The product of block size and count is not checked for
  overflow, so the links are written outside the region. When the region of a class cannot be
  allocated, the constructor of the slab destroys a slab whose \<open>alloc\<close> field is still NULL.
\<close>

theorem pool_double_free:
  assumes "fb_ok b live" "p \<in> live"
  shows "\<exists>b1 b2 b3 b4. cobalt_pool_free (Some b) (Some p) = Some (Some b1) \<and> cobalt_pool_free (Some b1) (Some p) = Some (Some b2) \<and>
    cobalt_pool_alloc (Some b2) = Some (Some p, Some b3) \<and> cobalt_pool_alloc (Some b3) = Some (Some p, Some b4)"
proof -
  have s: "fb_shape b" "p \<in> fb_addrs b" using assms by (auto simp: fb_ok_def)
  have cnt: "fb_free_count b + 2 \<le> SIZE_MAX"
  proof -
    have "8 * fb_block_count b \<le> fb_bytes b" "0 < fb_block_count b" using s(1) by (auto simp: fb_shape_def)
    then show ?thesis using fb_ok_count(1) [OF assms(1)] s(1) unfolding fb_shape_def by linarith
  qed
  define b1 where "b1 = b\<lparr>fb_links := (fb_links b)(p := fb_free_list b), fb_free_list := Some p, fb_free_count := fb_free_count b + 1\<rparr>"
  define b2 where "b2 = b\<lparr>fb_links := (fb_links b)(p := Some p), fb_free_list := Some p, fb_free_count := fb_free_count b + 2\<rparr>"
  define b3 where "b3 = b\<lparr>fb_links := (fb_links b)(p := None), fb_free_list := Some p, fb_free_count := fb_free_count b + 1\<rparr>"
  have same: "same_blocks b b1" "same_blocks b b2" "same_blocks b b3" by (simp_all add: same_blocks_def b1_def b2_def b3_def)
  note sh = same_blocks_addrs [OF same(1)] same_blocks_addrs [OF same(2)] same_blocks_addrs [OF same(3)]
  have "fb_push b p = Some (Some b1)"
    using fb_push_block [OF s] cnt by (simp add: b1_def)
  moreover have "fb_push b1 p = Some (Some b2)"
    using fb_push_block [of b1 p] s sh cnt by (simp add: b1_def b2_def)
  moreover have "fb_pop b2 = Some (p, b3)"
    using addr_inside [of b2 p] s sh by (simp add: fb_pop_def, simp add: b2_def b3_def szt_dec_def)
  moreover have "\<exists>b4. fb_pop b3 = Some (p, b4)"
    using addr_inside [of b3 p] s sh by (simp add: fb_pop_def, simp add: b3_def)
  moreover have "fb_free_count b2 \<noteq> 0" "fb_free_count b3 \<noteq> 0" by (simp_all add: b2_def b3_def)
  ultimately show ?thesis by (auto simp: cobalt_pool_free_def cobalt_pool_alloc_def)
qed

theorem pool_size_overflow:
  "cobalt_pool_create True (Some m) 9223372036854775808 2 = None"
  by (simp add: cobalt_pool_create_def cobalt_pool_create_with_allocator_def fb_build_def Let_def szt_def
      fb_chain_loop.simps [of 0] fb_store_def fb_inside_def)

theorem slab_create_failure:
  assumes "mem 0 = None"
  shows "cobalt_slab_create True mem (Some (sz # szs)) (Some (ct # cts)) 1 = None"
  using assms by (simp add: cobalt_slab_create_def cobalt_slab_create_with_allocator_def cobalt_slab_destroy_def)

end
