(* ===== verification/Cobalt_MPMC.thy ===== *)
theory Cobalt_MPMC
  imports Cobalt_Heap
begin

section \<open>Bounded multi-producer multi-consumer queue\<close>

text \<open>
  The algorithm that \<open>src/container/lfqueue.c\<close> and the MPMC ring of \<open>src/container/shm_ring.c\<close> share. A cell
  has a sequence number and data; a producer claims the position \<open>tail\<close> with a compare-and-swap once the
  sequence number of its cell equals the position, writes the data and publishes it by storing
  the position plus one; a consumer claims \<open>head\<close> once the sequence number is the position plus one,
  reads the data and releases the cell for the next lap.

  Each access to shared memory is one atomic step of a thread, so a call is a sequence of steps and
  the calls of several threads interleave arbitrarily. The local state of a thread is a program
  counter with the values it holds. \<open>enq_step\<close> and \<open>deq_step\<close> give the effect of the next step; their
  first argument tells whether a weak compare-and-swap fails spuriously. Memory is sequentially
  consistent; the acquire and release orderings of the code are not weakened.
\<close>

record 'd vring =
  vr_capacity :: nat
  vr_mask :: nat
  vr_tail :: nat
  vr_head :: nat
  vr_seq :: "nat list"
  vr_data :: "'d list"

datatype 'd vpc =
    Idle
  | EnqStart 'd | EnqLoop 'd nat | EnqCas 'd nat | EnqReload 'd | EnqWrite 'd nat | EnqPublish nat | EnqDone bool
  | DeqStart | DeqLoop nat | DeqCas nat | DeqReload | DeqRead nat | DeqRelease 'd nat | DeqDone "'d option"

text \<open>\<open>(intptr_t)seq - (intptr_t)pos\<close>\<close>

definition seq_diff :: "nat \<Rightarrow> nat \<Rightarrow> int" where
  "seq_diff sq pos = sint ((of_nat sq :: u64) - of_nat pos)"

definition vr_index :: "'d vring \<Rightarrow> nat \<Rightarrow> nat" where
  "vr_index s pos = pos AND vr_mask s"

fun enq_step :: "bool \<Rightarrow> 'd vpc \<Rightarrow> 'd vring \<Rightarrow> 'd vpc \<times> 'd vring" where
  "enq_step spurious (EnqStart d) s = (EnqLoop d (vr_tail s), s)"
| "enq_step spurious (EnqLoop d pos) s =
     (let diff = seq_diff (vr_seq s ! vr_index s pos) pos in
      if diff = 0 then (EnqCas d pos, s)
      else if diff < 0 then (EnqDone False, s)
      else (EnqReload d, s))"
| "enq_step spurious (EnqReload d) s = (EnqLoop d (vr_tail s), s)"
| "enq_step spurious (EnqCas d pos) s =
     (if \<not> spurious \<and> vr_tail s = pos then (EnqWrite d pos, s\<lparr>vr_tail := szt (pos + 1)\<rparr>)
      else (EnqLoop d (vr_tail s), s))"
| "enq_step spurious (EnqWrite d pos) s = (EnqPublish pos, s\<lparr>vr_data := (vr_data s)[vr_index s pos := d]\<rparr>)"
| "enq_step spurious (EnqPublish pos) s = (EnqDone True, s\<lparr>vr_seq := (vr_seq s)[vr_index s pos := szt (pos + 1)]\<rparr>)"
| "enq_step spurious pc s = (pc, s)"

text \<open>\<open>rel pos\<close> is the sequence number that releases the cell of position \<open>pos\<close>.\<close>

fun deq_step :: "(nat \<Rightarrow> nat) \<Rightarrow> bool \<Rightarrow> 'd vpc \<Rightarrow> 'd vring \<Rightarrow> 'd vpc \<times> 'd vring" where
  "deq_step rel spurious DeqStart s = (DeqLoop (vr_head s), s)"
| "deq_step rel spurious (DeqLoop pos) s =
     (let diff = seq_diff (vr_seq s ! vr_index s pos) (szt (pos + 1)) in
      if diff = 0 then (DeqCas pos, s)
      else if diff < 0 then (DeqDone None, s)
      else (DeqReload, s))"
| "deq_step rel spurious DeqReload s = (DeqLoop (vr_head s), s)"
| "deq_step rel spurious (DeqCas pos) s =
     (if \<not> spurious \<and> vr_head s = pos then (DeqRead pos, s\<lparr>vr_head := szt (pos + 1)\<rparr>)
      else (DeqLoop (vr_head s), s))"
| "deq_step rel spurious (DeqRead pos) s = (DeqRelease (vr_data s ! vr_index s pos) pos, s)"
| "deq_step rel spurious (DeqRelease d pos) s = (DeqDone (Some d), s\<lparr>vr_seq := (vr_seq s)[vr_index s pos := rel pos]\<rparr>)"
| "deq_step rel spurious pc s = (pc, s)"

subsection \<open>Runs of any number of threads\<close>

text \<open>
  \<open>vs_enqs\<close> and \<open>vs_deqs\<close> are histories: the values in the order in which their positions were claimed,
  and each value that was read with the position it was read from. The runs considered are those
  in which the cursors stay below \<open>2 ^ 63\<close>, where the signed difference does not wrap around.
\<close>

record 'd vsys =
  vs_ring :: "'d vring"
  vs_pc :: "nat \<Rightarrow> 'd vpc"
  vs_enqs :: "'d list"
  vs_deqs :: "(nat \<times> 'd) list"

definition enq_log :: "'d vpc \<Rightarrow> 'd list \<Rightarrow> 'd list" where
  "enq_log pc l = (case pc of EnqWrite d pos \<Rightarrow> l @ [d] | _ \<Rightarrow> l)"

definition deq_log :: "'d vpc \<Rightarrow> (nat \<times> 'd) list \<Rightarrow> (nat \<times> 'd) list" where
  "deq_log pc l = (case pc of DeqRelease d pos \<Rightarrow> l @ [(pos, d)] | _ \<Rightarrow> l)"

abbreviation (input) CURSOR_LIMIT :: nat where
  "CURSOR_LIMIT \<equiv> 9223372036854775808"

inductive vrun :: "(nat \<Rightarrow> nat) \<Rightarrow> 'd vring \<Rightarrow> 'd vsys \<Rightarrow> bool" for rel s0 where
  start: "vrun rel s0 \<lparr>vs_ring = s0, vs_pc = (\<lambda>_. Idle), vs_enqs = [], vs_deqs = []\<rparr>"
| call_enq: "vrun rel s0 s \<Longrightarrow> vs_pc s t = Idle \<Longrightarrow> vrun rel s0 (s\<lparr>vs_pc := (vs_pc s)(t := EnqStart d)\<rparr>)"
| call_deq: "vrun rel s0 s \<Longrightarrow> vs_pc s t = Idle \<Longrightarrow> vrun rel s0 (s\<lparr>vs_pc := (vs_pc s)(t := DeqStart)\<rparr>)"
| step_enq: "vrun rel s0 s \<Longrightarrow> enq_step spurious (vs_pc s t) (vs_ring s) = (pc, r) \<Longrightarrow> pc \<noteq> vs_pc s t \<Longrightarrow>
    vr_tail r + vr_capacity r < CURSOR_LIMIT \<Longrightarrow>
    vrun rel s0 (s\<lparr>vs_ring := r, vs_pc := (vs_pc s)(t := pc), vs_enqs := enq_log pc (vs_enqs s)\<rparr>)"
| step_deq: "vrun rel s0 s \<Longrightarrow> deq_step rel spurious (vs_pc s t) (vs_ring s) = (pc, r) \<Longrightarrow> pc \<noteq> vs_pc s t \<Longrightarrow>
    vrun rel s0 (s\<lparr>vs_ring := r, vs_pc := (vs_pc s)(t := pc), vs_deqs := deq_log pc (vs_deqs s)\<rparr>)"
| return_enq: "vrun rel s0 s \<Longrightarrow> vs_pc s t = EnqDone b \<Longrightarrow> vrun rel s0 (s\<lparr>vs_pc := (vs_pc s)(t := Idle)\<rparr>)"
| return_deq: "vrun rel s0 s \<Longrightarrow> vs_pc s t = DeqDone r \<Longrightarrow> vrun rel s0 (s\<lparr>vs_pc := (vs_pc s)(t := Idle)\<rparr>)"

subsection \<open>The invariant\<close>

text \<open>The position a thread is writing to or reading from.\<close>

fun writes :: "'d vpc \<Rightarrow> nat option" where
  "writes (EnqWrite d p) = Some p"
| "writes (EnqPublish p) = Some p"
| "writes _ = None"

fun reads :: "'d vpc \<Rightarrow> nat option" where
  "reads (DeqRead p) = Some p"
| "reads (DeqRelease d p) = Some p"
| "reads _ = None"

definition writing :: "(nat \<Rightarrow> 'd vpc) \<Rightarrow> nat set" where
  "writing pcs = {p. \<exists>t. writes (pcs t) = Some p}"

definition reading :: "(nat \<Rightarrow> 'd vpc) \<Rightarrow> nat set" where
  "reading pcs = {p. \<exists>t. reads (pcs t) = Some p}"

text \<open>
  At any time the \<open>C\<close> positions from \<open>head\<close> on correspond to the \<open>C\<close> cells. The cell of a claimed position is
  being written or holds its value; the cell of a later position is still being read for the
  position one lap before, or is free.
\<close>

definition slot_ok :: "nat \<Rightarrow> 'd vring \<Rightarrow> nat set \<Rightarrow> nat set \<Rightarrow> 'd list \<Rightarrow> nat \<Rightarrow> bool" where
  "slot_ok C r W R l p \<longleftrightarrow>
     (if p < vr_tail r then
        if p \<in> W then vr_seq r ! (p mod C) = p
        else vr_seq r ! (p mod C) = p + 1 \<and> vr_data r ! (p mod C) = l ! p
      else
        if C \<le> p \<and> p - C \<in> R then vr_seq r ! (p mod C) = p - C + 1 \<and> vr_data r ! (p mod C) = l ! (p - C)
        else vr_seq r ! (p mod C) = p)"

fun pc_ok :: "nat \<Rightarrow> 'd vring \<Rightarrow> nat set \<Rightarrow> 'd list \<Rightarrow> 'd vpc \<Rightarrow> bool" where
  "pc_ok C r W l (EnqLoop d p) \<longleftrightarrow> p \<le> vr_tail r"
| "pc_ok C r W l (EnqCas d p) \<longleftrightarrow> p \<le> vr_tail r \<and> (p = vr_tail r \<longrightarrow> p < vr_head r + C \<and> vr_seq r ! (p mod C) = p)"
| "pc_ok C r W l (EnqWrite d p) \<longleftrightarrow> l ! p = d"
| "pc_ok C r W l (EnqPublish p) \<longleftrightarrow> vr_data r ! (p mod C) = l ! p"
| "pc_ok C r W l (DeqLoop p) \<longleftrightarrow> p \<le> vr_head r"
| "pc_ok C r W l (DeqCas p) \<longleftrightarrow> p \<le> vr_head r \<and> (p = vr_head r \<longrightarrow> p < vr_tail r \<and> p \<notin> W)"
| "pc_ok C r W l (DeqRelease d p) \<longleftrightarrow> d = l ! p"
| "pc_ok C r W l pc \<longleftrightarrow> True"

definition ring_ok :: "nat \<Rightarrow> 'd vring \<Rightarrow> bool" where
  "ring_ok C r \<longleftrightarrow> vr_capacity r = C \<and> vr_mask r = C - 1 \<and> length (vr_seq r) = C \<and> length (vr_data r) = C \<and>
     vr_head r \<le> vr_tail r \<and> vr_tail r \<le> vr_head r + C \<and> vr_tail r + C < CURSOR_LIMIT"

definition owners_ok :: "nat \<Rightarrow> 'd vring \<Rightarrow> (nat \<Rightarrow> 'd vpc) \<Rightarrow> bool" where
  "owners_ok C r pcs \<longleftrightarrow>
     (\<forall>t p. writes (pcs t) = Some p \<longrightarrow> vr_head r \<le> p \<and> p < vr_tail r) \<and>
     (\<forall>t p. reads (pcs t) = Some p \<longrightarrow> p < vr_head r \<and> vr_tail r \<le> p + C) \<and>
     (\<forall>t u p. writes (pcs t) = Some p \<and> writes (pcs u) = Some p \<longrightarrow> t = u) \<and>
     (\<forall>t u p. reads (pcs t) = Some p \<and> reads (pcs u) = Some p \<longrightarrow> t = u)"

definition deqs_ok :: "'d vring \<Rightarrow> (nat \<Rightarrow> 'd vpc) \<Rightarrow> 'd list \<Rightarrow> (nat \<times> 'd) list \<Rightarrow> bool" where
  "deqs_ok r pcs l ds \<longleftrightarrow> (\<forall>(p, d)\<in>set ds. p < vr_head r \<and> d = l ! p) \<and> distinct (map fst ds) \<and>
     (\<forall>t p. pcs t = DeqRead p \<longrightarrow> p \<notin> fst ` set ds) \<and>
     (\<forall>p<vr_head r. p \<in> fst ` set ds \<or> (\<exists>t. pcs t = DeqRead p))"

definition vinv :: "nat \<Rightarrow> 'd vsys \<Rightarrow> bool" where
  "vinv C s \<longleftrightarrow> ring_ok C (vs_ring s) \<and> length (vs_enqs s) = vr_tail (vs_ring s) \<and> owners_ok C (vs_ring s) (vs_pc s) \<and>
     (\<forall>p. vr_head (vs_ring s) \<le> p \<and> p < vr_head (vs_ring s) + C \<longrightarrow>
        slot_ok C (vs_ring s) (writing (vs_pc s)) (reading (vs_pc s)) (vs_enqs s) p) \<and>
     (\<forall>t. pc_ok C (vs_ring s) (writing (vs_pc s)) (vs_enqs s) (vs_pc s t)) \<and>
     deqs_ok (vs_ring s) (vs_pc s) (vs_enqs s) (vs_deqs s)"

lemma window_inj:
  fixes p q h C :: nat
  assumes "h \<le> p" "p < h + C" "h \<le> q" "q < h + C" "p mod C = q mod C"
  shows "p = q"
proof -
  have less: False if "p < q" "h \<le> p" "q < h + C" "p mod C = q mod C" for p q
  proof -
    have "C dvd q - p" using mod_eq_dvd_iff_nat [of p q C] that(1,4) by (metis less_imp_le)
    then have "C \<le> q - p" using that(1) by (simp add: dvd_imp_le)
    then show False using that by linarith
  qed
  show ?thesis using less [of p q] less [of q p] assms by (metis linorder_neqE_nat)
qed

lemma owner_gain:
  "writes (pcs t) = None \<Longrightarrow> writes pc = Some p \<Longrightarrow> writing (pcs(t := pc)) = insert p (writing pcs)"
  "reads (pcs t) = None \<Longrightarrow> reads pc = Some p \<Longrightarrow> reading (pcs(t := pc)) = insert p (reading pcs)"
  unfolding writing_def reading_def by (simp_all add: set_eq_iff) (metis option.distinct(1) option.inject)+

lemma owner_drop:
  "owners_ok C r pcs \<Longrightarrow> writes (pcs t) = Some p \<Longrightarrow> writes pc = None \<Longrightarrow> writing (pcs(t := pc)) = writing pcs - {p}"
  "owners_ok C r pcs \<Longrightarrow> reads (pcs t) = Some p \<Longrightarrow> reads pc = None \<Longrightarrow> reading (pcs(t := pc)) = reading pcs - {p}"
  unfolding writing_def reading_def owners_ok_def by (simp_all add: set_eq_iff) (metis option.distinct(1) option.inject)+

lemma writing_same: "writes pc = writes (pcs t) \<Longrightarrow> writing (pcs(t := pc)) = writing pcs"
  by (auto simp: writing_def)

lemma reading_same: "reads pc = reads (pcs t) \<Longrightarrow> reading (pcs(t := pc)) = reading pcs"
  by (auto simp: reading_def)

lemma seq_diff_small: "a < CURSOR_LIMIT \<Longrightarrow> b < CURSOR_LIMIT \<Longrightarrow> seq_diff a b = int a - int b"
proof -
  assume "a < CURSOR_LIMIT" "b < CURSOR_LIMIT"
  have "(of_nat a :: u64) - of_nat b = word_of_int (int a - int b)" by simp
  moreover have "sint (word_of_int (int a - int b) :: u64) = signed_take_bit (LENGTH(64) - 1) (int a - int b)"
    by (rule sint_sbintrunc')
  moreover have "signed_take_bit 63 (int a - int b) = int a - int b"
    using \<open>a < _\<close> \<open>b < _\<close> by (intro signed_take_bit_int_eq_self) auto
  ultimately show ?thesis unfolding seq_diff_def by simp
qed

lemma owners_cong:
  "(\<And>u. writes (pcs' u) = writes (pcs u)) \<Longrightarrow> (\<And>u. reads (pcs' u) = reads (pcs u)) \<Longrightarrow>
     owners_ok C r pcs' = owners_ok C r pcs \<and> writing pcs' = writing pcs \<and> reading pcs' = reading pcs"
  by (simp add: owners_ok_def writing_def reading_def)

lemma deqs_cong: "(\<And>u p. pcs' u = DeqRead p \<longleftrightarrow> pcs u = DeqRead p) \<Longrightarrow> deqs_ok r pcs' l ds = deqs_ok r pcs l ds"
  by (simp add: deqs_ok_def)

lemma vinvD:
  assumes "vinv C s"
  shows "ring_ok C (vs_ring s)" "length (vs_enqs s) = vr_tail (vs_ring s)" "owners_ok C (vs_ring s) (vs_pc s)"
    "vr_head (vs_ring s) \<le> p \<Longrightarrow> p < vr_head (vs_ring s) + C \<Longrightarrow>
       slot_ok C (vs_ring s) (writing (vs_pc s)) (reading (vs_pc s)) (vs_enqs s) p"
    "pc_ok C (vs_ring s) (writing (vs_pc s)) (vs_enqs s) (vs_pc s t)"
    "deqs_ok (vs_ring s) (vs_pc s) (vs_enqs s) (vs_deqs s)"
  using assms unfolding vinv_def by blast+

lemma vinvI:
  assumes "vs_ring s = r" "vs_pc s = pcs" "vs_enqs s = l" "vs_deqs s = ds" "writing pcs = W" "reading pcs = R"
    "ring_ok C r" "length l = vr_tail r" "owners_ok C r pcs"
    "\<And>p. vr_head r \<le> p \<Longrightarrow> p < vr_head r + C \<Longrightarrow> slot_ok C r W R l p" "\<And>u. pc_ok C r W l (pcs u)" "deqs_ok r pcs l ds"
  shows "vinv C s"
  using assms unfolding vinv_def by blast

text \<open>Steps that change only the program counter of one thread, and nothing that others rely on.\<close>

lemma vinv_local:
  assumes inv: "vinv C s" and same: "writes pc = writes (vs_pc s t)" "reads pc = reads (vs_pc s t)"
    and "\<And>p. vs_pc s t \<noteq> DeqRead p" "\<And>p. pc \<noteq> DeqRead p"
    and ok: "pc_ok C (vs_ring s) (writing (vs_pc s)) (vs_enqs s) pc"
  shows "vinv C (s\<lparr>vs_pc := (vs_pc s)(t := pc)\<rparr>)"
proof -
  let ?pcs = "(vs_pc s)(t := pc)"
  have c: "owners_ok C (vs_ring s) ?pcs = owners_ok C (vs_ring s) (vs_pc s) \<and> writing ?pcs = writing (vs_pc s) \<and>
      reading ?pcs = reading (vs_pc s)"
    by (rule owners_cong) (use same in simp_all)
  have d: "deqs_ok (vs_ring s) ?pcs (vs_enqs s) (vs_deqs s) = deqs_ok (vs_ring s) (vs_pc s) (vs_enqs s) (vs_deqs s)"
    by (rule deqs_cong) (use assms(4,5) in simp)
  show ?thesis using inv ok c d unfolding vinv_def by simp
qed

subsection \<open>Each step keeps the invariant\<close>

lemma slot_index: "ring_ok C r \<Longrightarrow> C = 2 ^ k \<Longrightarrow> vr_index r p = p mod C"
  using and_mask_nat [of p k] by (simp add: ring_ok_def vr_index_def)

lemma owners_upd:
  assumes own: "owners_ok C r pcs"
    and others: "\<And>u q. u \<noteq> t \<Longrightarrow> writes (pcs u) = Some q \<Longrightarrow> vr_head r' \<le> q \<and> q < vr_tail r'"
      "\<And>u q. u \<noteq> t \<Longrightarrow> reads (pcs u) = Some q \<Longrightarrow> q < vr_head r' \<and> vr_tail r' \<le> q + C"
    and me: "\<And>q. writes pc = Some q \<Longrightarrow> vr_head r' \<le> q \<and> q < vr_tail r' \<and> (\<forall>u. u \<noteq> t \<longrightarrow> writes (pcs u) \<noteq> Some q)"
      "\<And>q. reads pc = Some q \<Longrightarrow> q < vr_head r' \<and> vr_tail r' \<le> q + C \<and> (\<forall>u. u \<noteq> t \<longrightarrow> reads (pcs u) \<noteq> Some q)"
  shows "owners_ok C r' (pcs(t := pc))"
proof -
  have uniq: "writes (pcs u) = Some q \<and> writes (pcs v) = Some q \<longrightarrow> u = v" "reads (pcs u) = Some q \<and> reads (pcs v) = Some q \<longrightarrow> u = v"
    for u v q using own by (auto simp: owners_ok_def)
  show ?thesis
    unfolding owners_ok_def
  proof (intro conjI allI)
    show "writes ((pcs(t := pc)) u) = Some q \<and> writes ((pcs(t := pc)) v) = Some q \<longrightarrow> u = v" for u v q
      using uniq(1) [of u q v] me(1) [of q] by (cases "u = t"; cases "v = t") auto
    show "reads ((pcs(t := pc)) u) = Some q \<and> reads ((pcs(t := pc)) v) = Some q \<longrightarrow> u = v" for u v q
      using uniq(2) [of u q v] me(2) [of q] by (cases "u = t"; cases "v = t") auto
    show "writes ((pcs(t := pc)) u) = Some q \<longrightarrow> vr_head r' \<le> q \<and> q < vr_tail r'" for u q
      using others(1) [of u q] me(1) [of q] by (cases "u = t") auto
    show "reads ((pcs(t := pc)) u) = Some q \<longrightarrow> q < vr_head r' \<and> vr_tail r' \<le> q + C" for u q
      using others(2) [of u q] me(2) [of q] by (cases "u = t") auto
  qed
qed

lemma ownersD:
  assumes "owners_ok C r pcs"
  shows "writes (pcs u) = Some q \<Longrightarrow> vr_head r \<le> q \<and> q < vr_tail r" "reads (pcs u) = Some q \<Longrightarrow> q < vr_head r \<and> vr_tail r \<le> q + C"
    "writes (pcs u) = Some q \<Longrightarrow> writes (pcs v) = Some q \<Longrightarrow> u = v" "reads (pcs u) = Some q \<Longrightarrow> reads (pcs v) = Some q \<Longrightarrow> u = v"
    "writes (pcs u) = Some q \<Longrightarrow> q \<in> writing pcs" "reads (pcs u) = Some q \<Longrightarrow> q \<in> reading pcs"
  using assms by (auto simp: owners_ok_def writing_def reading_def)

lemma enq_seen_free:
  assumes "vinv C s" "2 \<le> C" "vr_seq (vs_ring s) ! (p mod C) = p" "p = vr_tail (vs_ring s)"
  shows "p < vr_head (vs_ring s) + C \<and> \<not> (C \<le> p \<and> p - C \<in> reading (vs_pc s))"
proof -
  let ?r = "vs_ring s"
  have r: "vr_head ?r \<le> p" "p \<le> vr_head ?r + C" using vinvD(1) [OF assms(1)] assms(4) by (auto simp: ring_ok_def)
  have "p \<noteq> vr_head ?r + C"
  proof
    assume p: "p = vr_head ?r + C"
    then have "slot_ok C ?r (writing (vs_pc s)) (reading (vs_pc s)) (vs_enqs s) (vr_head ?r)"
      using vinvD(4) [OF assms(1)] assms(2) by simp
    then show False using p assms by (auto simp: slot_ok_def split: if_splits)
  qed
  with r have w: "p < vr_head ?r + C" by simp
  then have "slot_ok C ?r (writing (vs_pc s)) (reading (vs_pc s)) (vs_enqs s) p" using vinvD(4) [OF assms(1)] r by simp
  then show ?thesis using w assms(2-4) by (auto simp: slot_ok_def split: if_splits)
qed

lemma claim_enq:
  assumes inv: "vinv C s" and C: "2 \<le> C" and pc: "vs_pc s t = EnqCas d p" "vr_tail (vs_ring s) = p"
    and lim: "p + 1 + C < CURSOR_LIMIT"
  shows "vinv C (s\<lparr>vs_ring := (vs_ring s)\<lparr>vr_tail := p + 1\<rparr>, vs_pc := (vs_pc s)(t := EnqWrite d p), vs_enqs := vs_enqs s @ [d]\<rparr>)"
proof -
  let ?r = "vs_ring s" and ?W = "writing (vs_pc s)" and ?R = "reading (vs_pc s)" and ?l = "vs_enqs s"
  let ?pcs = "(vs_pc s)(t := EnqWrite d p)" and ?r' = "(vs_ring s)\<lparr>vr_tail := p + 1\<rparr>"
  note ring = vinvD(1) [OF inv] and len = vinvD(2) [OF inv] and own = vinvD(3) [OF inv]
  have pok: "p < vr_head ?r + C" "vr_seq ?r ! (p mod C) = p" using vinvD(5) [OF inv, of t] pc by auto
  have free: "\<not> (C \<le> p \<and> p - C \<in> ?R)" using enq_seen_free [OF inv C pok(2)] pc(2) by simp
  have W': "writing ?pcs = insert p ?W" by (rule owner_gain) (simp_all add: pc)
  have R': "reading ?pcs = ?R" by (rule reading_same) (simp add: pc)
  have ring': "ring_ok C ?r'" using ring pc(2) pok(1) lim by (auto simp: ring_ok_def)
  have own': "owners_ok C ?r' ?pcs"
  proof -
    have "p + 1 \<le> q + C" if "reads (vs_pc s u) = Some q" for u q
    proof -
      have "p \<le> q + C" "q \<in> ?R" using own that pc(2) by (auto simp: owners_ok_def reading_def)
      with free show ?thesis by (cases "p = q + C") auto
    qed
    moreover have "vr_head ?r \<le> p" using ring pc(2) by (simp add: ring_ok_def)
    ultimately show ?thesis using ownersD(1,2) [OF own] pc(2)
      by (intro owners_upd [OF own]) (fastforce simp: less_Suc_eq)+
  qed
  have slots': "slot_ok C ?r' (insert p ?W) ?R (?l @ [d]) q" if q: "vr_head ?r \<le> q" "q < vr_head ?r + C" for q
  proof -
    have ok: "slot_ok C ?r ?W ?R ?l q" using vinvD(4) [OF inv] q by simp
    have lt: "(?l @ [d]) ! i = ?l ! i" if "i < p" for i using that len pc(2) by (simp add: nth_append)
    have low: "q - C < p" if "C \<le> q" using that q pc(2) ring by (auto simp: ring_ok_def)
    show ?thesis
    proof (cases "q < p")
      case True
      then show ?thesis using ok lt pc(2) by (simp add: slot_ok_def)
    next
      case False
      then show ?thesis using ok lt low pok(2) pc(2) by (cases "q = p") (auto simp: slot_ok_def)
    qed
  qed
  have pcs': "pc_ok C ?r' (insert p ?W) (?l @ [d]) (?pcs u)" for u
  proof (cases "u = t")
    case True
    then show ?thesis using len pc(2) by (simp add: nth_append)
  next
    case False
    have w: "writes (vs_pc s u) = Some q \<Longrightarrow> q < p" "reads (vs_pc s u) = Some q \<Longrightarrow> q < p" for q
      using own ring pc(2) by (fastforce simp: owners_ok_def ring_ok_def)+
    show ?thesis using vinvD(5) [OF inv, of u] w False len pc(2) by (cases "vs_pc s u") (auto simp: nth_append)
  qed
  have deqs': "deqs_ok ?r' ?pcs (?l @ [d]) (vs_deqs s)"
  proof -
    have "vr_head ?r \<le> p" using ring pc(2) by (simp add: ring_ok_def)
    then have "(?l @ [d]) ! q = ?l ! q" if "q < vr_head ?r" for q using that len pc(2) by (simp add: nth_append)
    moreover have "deqs_ok ?r ?pcs ?l (vs_deqs s) = deqs_ok ?r (vs_pc s) ?l (vs_deqs s)"
      by (rule deqs_cong) (simp add: pc)
    ultimately show ?thesis using vinvD(6) [OF inv] unfolding deqs_ok_def by (simp, fastforce)
  qed
  show ?thesis
    by (rule vinvI [where r = ?r' and pcs = ?pcs, OF _ _ _ _ W' R' ring' _ own' _ pcs' deqs']) (use len pc(2) slots' in simp_all)
qed

lemma mod_window:
  assumes "vr_head r \<le> p" "p < vr_head r + C" "vr_head r \<le> q" "q < vr_head r + C" "p \<noteq> q"
  shows "p mod C \<noteq> q mod C"
  using window_inj assms by blast

text \<open>Writing the data of a claimed position.\<close>

lemma write_data:
  assumes inv: "vinv C s" and pc: "vs_pc s t = EnqWrite d p"
  shows "vinv C (s\<lparr>vs_ring := (vs_ring s)\<lparr>vr_data := (vr_data (vs_ring s))[p mod C := d]\<rparr>, vs_pc := (vs_pc s)(t := EnqPublish p)\<rparr>)"
proof -
  let ?r = "vs_ring s" and ?W = "writing (vs_pc s)" and ?R = "reading (vs_pc s)" and ?l = "vs_enqs s"
  let ?pcs = "(vs_pc s)(t := EnqPublish p)" and ?r' = "?r\<lparr>vr_data := (vr_data ?r)[p mod C := d]\<rparr>"
  note ring = vinvD(1) [OF inv] and own = vinvD(3) [OF inv]
  have p: "vr_head ?r \<le> p" "p < vr_tail ?r" "p \<in> ?W" using ownersD [OF own, of t] pc by auto
  have d: "?l ! p = d" using vinvD(5) [OF inv, of t] pc by simp
  have tw: "vr_tail ?r \<le> vr_head ?r + C" "0 < C" "p mod C < length (vr_data ?r)" using ring p by (auto simp: ring_ok_def)
  have other: "q mod C \<noteq> p mod C" if "vr_head ?r \<le> q" "q < vr_head ?r + C" "q \<noteq> p" for q
    using that p tw by (intro mod_window [where r = ?r]) auto
  have W': "writing ?pcs = ?W" and R': "reading ?pcs = ?R"
    by (rule writing_same, simp add: pc) (rule reading_same, simp add: pc)
  have own': "owners_ok C ?r' ?pcs"
    by (rule owners_upd [OF own]) (use ownersD(1-3) [OF own] p(1,2) pc in \<open>auto dest: ownersD(3) [OF own, of t]\<close>)
  have slots': "slot_ok C ?r' ?W ?R ?l q" if q: "vr_head ?r \<le> q" "q < vr_head ?r + C" for q
  proof -
    have ok: "slot_ok C ?r ?W ?R ?l q" using vinvD(4) [OF inv] q by simp
    show ?thesis
    proof (cases "q = p")
      case True
      then show ?thesis using ok p by (simp add: slot_ok_def)
    next
      case False
      with other [OF q False] ok show ?thesis by (simp add: slot_ok_def)
    qed
  qed
  have pcs': "pc_ok C ?r' ?W ?l (?pcs u)" for u
  proof (cases "u = t")
    case True
    then show ?thesis using d tw by simp
  next
    case False
    have "q mod C \<noteq> p mod C" if "writes (vs_pc s u) = Some q" for q
    proof (rule other)
      show "q \<noteq> p" using ownersD(3) [OF own that] pc False by auto
    qed (use ownersD(1) [OF own that] tw in auto)
    then show ?thesis using vinvD(5) [OF inv, of u] False by (cases "vs_pc s u") auto
  qed
  have deqs': "deqs_ok ?r' ?pcs ?l (vs_deqs s)"
  proof -
    have "deqs_ok ?r ?pcs ?l (vs_deqs s) = deqs_ok ?r (vs_pc s) ?l (vs_deqs s)" by (rule deqs_cong) (simp add: pc)
    then show ?thesis using vinvD(6) [OF inv] by (simp add: deqs_ok_def)
  qed
  have ring': "ring_ok C ?r'" using ring by (simp add: ring_ok_def)
  show ?thesis
    by (rule vinvI [where r = ?r' and pcs = ?pcs, OF _ _ _ _ W' R' ring' _ own' _ pcs' deqs']) (use vinvD(2) [OF inv] slots' pc in simp_all)
qed

text \<open>Publishing a position: its cell gets the sequence number the consumers wait for.\<close>

lemma publish:
  assumes inv: "vinv C s" and pc: "vs_pc s t = EnqPublish p"
  shows "vinv C (s\<lparr>vs_ring := (vs_ring s)\<lparr>vr_seq := (vr_seq (vs_ring s))[p mod C := p + 1]\<rparr>, vs_pc := (vs_pc s)(t := EnqDone True)\<rparr>)"
proof -
  let ?r = "vs_ring s" and ?W = "writing (vs_pc s)" and ?R = "reading (vs_pc s)" and ?l = "vs_enqs s"
  let ?pcs = "(vs_pc s)(t := EnqDone True)" and ?r' = "?r\<lparr>vr_seq := (vr_seq ?r)[p mod C := p + 1]\<rparr>"
  note ring = vinvD(1) [OF inv] and own = vinvD(3) [OF inv]
  have p: "vr_head ?r \<le> p" "p < vr_tail ?r" "p \<in> ?W" using ownersD [OF own, of t] pc by auto
  have d: "vr_data ?r ! (p mod C) = ?l ! p" using vinvD(5) [OF inv, of t] pc by simp
  have tw: "vr_tail ?r \<le> vr_head ?r + C" "0 < C" "p mod C < length (vr_seq ?r)" using ring p by (auto simp: ring_ok_def)
  have other: "q mod C \<noteq> p mod C" if "vr_head ?r \<le> q" "q < vr_head ?r + C" "q \<noteq> p" for q
    using that p tw by (intro mod_window [where r = ?r]) auto
  have W': "writing ?pcs = ?W - {p}" and R': "reading ?pcs = ?R"
    by (rule owner_drop [OF own], simp_all add: pc) (rule reading_same, simp add: pc)
  have own': "owners_ok C ?r' ?pcs"
    by (rule owners_upd [OF own]) (use ownersD(1-3) [OF own] p(1,2) pc in \<open>auto dest: ownersD(3) [OF own, of t]\<close>)
  have slots': "slot_ok C ?r' (?W - {p}) ?R ?l q" if q: "vr_head ?r \<le> q" "q < vr_head ?r + C" for q
  proof -
    have ok: "slot_ok C ?r ?W ?R ?l q" using vinvD(4) [OF inv] q by simp
    show ?thesis
    proof (cases "q = p")
      case True
      then show ?thesis using p d tw by (simp add: slot_ok_def)
    next
      case False
      with other [OF q False] ok show ?thesis by (simp add: slot_ok_def)
    qed
  qed
  have pcs': "pc_ok C ?r' (?W - {p}) ?l (?pcs u)" for u
  proof (cases "u = t")
    case True
    then show ?thesis by simp
  next
    case False
    have "vr_head ?r \<le> vr_tail ?r" using ring by (simp add: ring_ok_def)
    then have "vr_tail ?r < vr_head ?r + C \<Longrightarrow> vr_tail ?r mod C \<noteq> p mod C" using other p by simp
    then show ?thesis using vinvD(5) [OF inv, of u] False by (cases "vs_pc s u") auto
  qed
  have deqs': "deqs_ok ?r' ?pcs ?l (vs_deqs s)"
  proof -
    have "deqs_ok ?r ?pcs ?l (vs_deqs s) = deqs_ok ?r (vs_pc s) ?l (vs_deqs s)" by (rule deqs_cong) (simp add: pc)
    then show ?thesis using vinvD(6) [OF inv] by (simp add: deqs_ok_def)
  qed
  have ring': "ring_ok C ?r'" using ring by (simp add: ring_ok_def)
  show ?thesis
    by (rule vinvI [where r = ?r' and pcs = ?pcs, OF _ _ _ _ W' R' ring' _ own' _ pcs' deqs']) (use vinvD(2) [OF inv] slots' pc in simp_all)
qed

text \<open>Claiming the head position for reading.\<close>

lemma claim_deq:
  assumes inv: "vinv C s" and C: "0 < C" and pc: "vs_pc s t = DeqCas p" "vr_head (vs_ring s) = p"
  shows "vinv C (s\<lparr>vs_ring := (vs_ring s)\<lparr>vr_head := p + 1\<rparr>, vs_pc := (vs_pc s)(t := DeqRead p)\<rparr>)"
proof -
  let ?r = "vs_ring s" and ?W = "writing (vs_pc s)" and ?R = "reading (vs_pc s)" and ?l = "vs_enqs s"
  let ?pcs = "(vs_pc s)(t := DeqRead p)" and ?r' = "?r\<lparr>vr_head := p + 1\<rparr>"
  note ring = vinvD(1) [OF inv] and own = vinvD(3) [OF inv] and deqs = vinvD(6) [OF inv]
  have p: "p < vr_tail ?r" "p \<notin> ?W" using vinvD(5) [OF inv, of t] pc by auto
  have tw: "vr_tail ?r \<le> p + C" using ring pc(2) by (auto simp: ring_ok_def)
  have new: "vr_seq ?r ! (p mod C) = p + 1" "vr_data ?r ! (p mod C) = ?l ! p"
    using vinvD(4) [OF inv, of p] p pc(2) C by (simp_all add: slot_ok_def)
  have W': "writing ?pcs = ?W" and R': "reading ?pcs = insert p ?R"
    by (rule writing_same, simp add: pc) (rule owner_gain, simp_all add: pc)
  have own': "owners_ok C ?r' ?pcs"
  proof (rule owners_upd [OF own])
    show "vr_head ?r' \<le> q \<and> q < vr_tail ?r'" if "writes (vs_pc s u) = Some q" for u q
      using ownersD(1,5) [OF own that] p(2) pc(2) by (cases "q = p") auto
    show "q < vr_head ?r' \<and> vr_tail ?r' \<le> q + C" if "reads (vs_pc s u) = Some q" for u q
      using ownersD(2) [OF own that] pc(2) by auto
    show "q < vr_head ?r' \<and> vr_tail ?r' \<le> q + C \<and> (\<forall>u. u \<noteq> t \<longrightarrow> reads (vs_pc s u) \<noteq> Some q)" if "reads (DeqRead p) = Some q" for q
      using that tw ownersD(2) [OF own] pc(2) by auto
  qed simp
  have slots': "slot_ok C ?r' ?W (insert p ?R) ?l q" if q: "p + 1 \<le> q" "q < p + 1 + C" for q
  proof (cases "q = p + C")
    case True
    then show ?thesis using new tw by (simp add: slot_ok_def)
  next
    case False
    then have "slot_ok C ?r ?W ?R ?l q" using vinvD(4) [OF inv, of q] q pc(2) by simp
    moreover have "q - C \<noteq> p" if "C \<le> q" using False that by auto
    ultimately show ?thesis by (auto simp: slot_ok_def)
  qed
  have pcs': "pc_ok C ?r' ?W ?l (?pcs u)" for u
    using vinvD(5) [OF inv, of u] pc(2) by (cases "vs_pc s u") auto
  have deqs': "deqs_ok ?r' ?pcs ?l (vs_deqs s)"
  proof -
    have lt: "q < p" if "q \<in> fst ` set (vs_deqs s)" for q using that deqs pc(2) by (auto simp: deqs_ok_def)
    have "p \<notin> fst ` set (vs_deqs s)" using lt by blast
    moreover have "q \<in> fst ` set (vs_deqs s) \<or> (\<exists>u. ?pcs u = DeqRead q)" if "q < p + 1" for q
    proof (cases "q = p")
      case True
      then show ?thesis by (intro disjI2 exI [of _ t]) simp
    next
      case False
      then have "q \<in> fst ` set (vs_deqs s) \<or> (\<exists>u. vs_pc s u = DeqRead q)" using deqs that pc(2) by (simp add: deqs_ok_def)
      moreover have "?pcs u = DeqRead q" if "vs_pc s u = DeqRead q" for u using that pc(1) by auto
      ultimately show ?thesis by blast
    qed
    ultimately show ?thesis using deqs pc(2) unfolding deqs_ok_def by (auto split: if_splits)
  qed
  have ring': "ring_ok C ?r'" using ring p(1) pc(2) by (auto simp: ring_ok_def)
  show ?thesis
    by (rule vinvI [where r = ?r' and pcs = ?pcs, OF _ _ _ _ W' R' ring' _ own' _ pcs' deqs']) (use vinvD(2) [OF inv] slots' pc in simp_all)
qed

text \<open>Reading the data of a claimed position.\<close>

lemma reading_slot:
  assumes inv: "vinv C s" and p: "reads (vs_pc s t) = Some p"
  shows "vr_head (vs_ring s) \<le> p + C" "p + C < vr_head (vs_ring s) + C" "p < vr_head (vs_ring s)" "vr_tail (vs_ring s) \<le> p + C"
    "vr_seq (vs_ring s) ! (p mod C) = p + 1" "vr_data (vs_ring s) ! (p mod C) = vs_enqs s ! p"
proof -
  note own = vinvD(3) [OF inv]
  have R: "p < vr_head (vs_ring s)" "vr_tail (vs_ring s) \<le> p + C" "p \<in> reading (vs_pc s)" using ownersD(2,6) [OF own p] by auto
  moreover have "vr_head (vs_ring s) \<le> vr_tail (vs_ring s)" using vinvD(1) [OF inv] by (simp add: ring_ok_def)
  ultimately have w: "vr_head (vs_ring s) \<le> p + C" "p + C < vr_head (vs_ring s) + C" by auto
  with R show "vr_head (vs_ring s) \<le> p + C" "p + C < vr_head (vs_ring s) + C" "p < vr_head (vs_ring s)" "vr_tail (vs_ring s) \<le> p + C"
    by auto
  show "vr_seq (vs_ring s) ! (p mod C) = p + 1" "vr_data (vs_ring s) ! (p mod C) = vs_enqs s ! p"
    using vinvD(4) [OF inv w] R by (simp_all add: slot_ok_def)
qed

lemma read_data:
  assumes inv: "vinv C s" and pc: "vs_pc s t = DeqRead p"
  shows "vinv C (s\<lparr>vs_pc := (vs_pc s)(t := DeqRelease (vr_data (vs_ring s) ! (p mod C)) p),
    vs_deqs := vs_deqs s @ [(p, vr_data (vs_ring s) ! (p mod C))]\<rparr>)"
proof -
  let ?r = "vs_ring s" and ?l = "vs_enqs s" and ?d = "vr_data (vs_ring s) ! (p mod C)"
  let ?pcs = "(vs_pc s)(t := DeqRelease ?d p)"
  note own = vinvD(3) [OF inv] and deqs = vinvD(6) [OF inv]
  have p: "p < vr_head ?r" "?d = ?l ! p" using reading_slot [OF inv, of t p] pc by auto
  have c: "owners_ok C ?r ?pcs = owners_ok C ?r (vs_pc s) \<and> writing ?pcs = writing (vs_pc s) \<and> reading ?pcs = reading (vs_pc s)"
    by (rule owners_cong) (simp_all add: pc)
  have uniq: "u = t" if "vs_pc s u = DeqRead p" for u using ownersD(4) [OF own, of u p t] that pc by simp
  have "deqs_ok ?r ?pcs ?l (vs_deqs s @ [(p, ?d)])"
    unfolding deqs_ok_def
  proof (intro conjI allI impI)
    show "\<forall>(q, d)\<in>set (vs_deqs s @ [(p, ?d)]). q < vr_head ?r \<and> d = ?l ! q" using deqs p by (auto simp: deqs_ok_def)
    show "distinct (map fst (vs_deqs s @ [(p, ?d)]))" using deqs pc by (auto simp: deqs_ok_def)
    show "q \<notin> fst ` set (vs_deqs s @ [(p, ?d)])" if "?pcs u = DeqRead q" for u q
    proof -
      have "u \<noteq> t" "vs_pc s u = DeqRead q" using that by (auto split: if_splits)
      with uniq deqs show ?thesis by (auto simp: deqs_ok_def)
    qed
    show "q \<in> fst ` set (vs_deqs s @ [(p, ?d)]) \<or> (\<exists>u. ?pcs u = DeqRead q)" if "q < vr_head ?r" for q
    proof -
      have "q \<in> fst ` set (vs_deqs s) \<or> (\<exists>u. vs_pc s u = DeqRead q)" using deqs that by (simp add: deqs_ok_def)
      then show ?thesis
      proof
        assume "\<exists>u. vs_pc s u = DeqRead q"
        then obtain u where u: "vs_pc s u = DeqRead q" by blast
        show ?thesis
        proof (cases "u = t")
          case True
          then show ?thesis using u pc by simp
        next
          case False
          then have "?pcs u = DeqRead q" using u by simp
          then show ?thesis by blast
        qed
      qed simp
    qed
  qed
  moreover have "pc_ok C ?r (writing (vs_pc s)) ?l (?pcs u)" for u
    using vinvD(5) [OF inv, of u] p(2) by (cases "u = t") simp_all
  ultimately show ?thesis using inv c unfolding vinv_def by simp
qed

text \<open>Releasing the cell for the next lap.\<close>

lemma release:
  assumes inv: "vinv C s" and C: "0 < C" and pc: "vs_pc s t = DeqRelease d p"
  shows "vinv C (s\<lparr>vs_ring := (vs_ring s)\<lparr>vr_seq := (vr_seq (vs_ring s))[p mod C := p + C]\<rparr>, vs_pc := (vs_pc s)(t := DeqDone (Some d))\<rparr>)"
proof -
  let ?r = "vs_ring s" and ?W = "writing (vs_pc s)" and ?R = "reading (vs_pc s)" and ?l = "vs_enqs s"
  let ?pcs = "(vs_pc s)(t := DeqDone (Some d))" and ?r' = "?r\<lparr>vr_seq := (vr_seq ?r)[p mod C := p + C]\<rparr>"
  note ring = vinvD(1) [OF inv] and own = vinvD(3) [OF inv]
  have p: "vr_head ?r \<le> p + C" "p + C < vr_head ?r + C" "p < vr_head ?r" "vr_tail ?r \<le> p + C" "vr_seq ?r ! (p mod C) = p + 1"
    using reading_slot [OF inv, of t p] pc by auto
  have len: "p mod C < length (vr_seq ?r)" using ring C by (simp add: ring_ok_def)
  have other: "q mod C \<noteq> p mod C" if "vr_head ?r \<le> q" "q < vr_head ?r + C" "q \<noteq> p + C" for q
    using mod_window [of ?r q C "p + C"] that p by simp
  have W': "writing ?pcs = ?W" and R': "reading ?pcs = ?R - {p}"
    by (rule writing_same, simp add: pc) (rule owner_drop [OF own], simp_all add: pc)
  have own': "owners_ok C ?r' ?pcs"
    by (rule owners_upd [OF own]) (use ownersD(1,2) [OF own] pc in auto)
  have slots': "slot_ok C ?r' ?W (?R - {p}) ?l q" if q: "vr_head ?r \<le> q" "q < vr_head ?r + C" for q
  proof (cases "q = p + C")
    case True
    then show ?thesis using p len by (simp add: slot_ok_def)
  next
    case False
    moreover have "slot_ok C ?r ?W ?R ?l q" using vinvD(4) [OF inv] q by simp
    moreover have "q - C \<noteq> p" if "C \<le> q" using False that by auto
    ultimately show ?thesis using other [OF q False] by (auto simp: slot_ok_def)
  qed
  have pcs': "pc_ok C ?r' ?W ?l (?pcs u)" for u
  proof (cases "u = t")
    case False
    have "vr_head ?r \<le> vr_tail ?r" using ring by (simp add: ring_ok_def)
    then have "vr_seq ?r' ! (vr_tail ?r mod C) = vr_tail ?r"
      if "vr_tail ?r < vr_head ?r + C" "vr_seq ?r ! (vr_tail ?r mod C) = vr_tail ?r"
      using that other [of "vr_tail ?r"] len by (cases "vr_tail ?r = p + C") (simp_all add: nth_list_update)
    then show ?thesis using vinvD(5) [OF inv, of u] False by (cases "vs_pc s u") auto
  qed simp
  have deqs': "deqs_ok ?r' ?pcs ?l (vs_deqs s)"
  proof -
    have "deqs_ok ?r ?pcs ?l (vs_deqs s) = deqs_ok ?r (vs_pc s) ?l (vs_deqs s)" by (rule deqs_cong) (simp add: pc)
    then show ?thesis using vinvD(6) [OF inv] by (simp add: deqs_ok_def)
  qed
  have ring': "ring_ok C ?r'" using ring by (simp add: ring_ok_def)
  show ?thesis
    by (rule vinvI [where r = ?r' and pcs = ?pcs, OF _ _ _ _ W' R' ring' _ own' _ pcs' deqs']) (use vinvD(2) [OF inv] slots' in simp_all)
qed

subsection \<open>The contract of the two queues\<close>

text \<open>
  \<open>C\<close> is the number of cells, a power of two; \<open>rel\<close> is the sequence number with which the queue releases a
  cell. Both queues instantiate the contract below.
\<close>

locale vyukov_queue =
  fixes C k :: nat and rel :: "nat \<Rightarrow> nat"
  assumes C_pow: "C = 2 ^ Suc k"
    and rel_next: "p + C < CURSOR_LIMIT \<Longrightarrow> rel p = p + C"
begin

lemma C_ge: "2 \<le> C" "0 < C"
  using C_pow by simp_all

lemma seq_bound:
  assumes "vinv C s"
  shows "vr_seq (vs_ring s) ! (p mod C) < CURSOR_LIMIT"
proof -
  let ?r = "vs_ring s"
  have ring: "vr_head ?r \<le> vr_tail ?r" "vr_tail ?r + C < CURSOR_LIMIT" using vinvD(1) [OF assms] by (auto simp: ring_ok_def)
  define q where "q = vr_head ?r + (p + C - vr_head ?r mod C) mod C"
  have "q mod C = p mod C"
  proof -
    have "vr_head ?r mod C \<le> C" using C_ge by (simp add: less_imp_le)
    have "q mod C = (vr_head ?r mod C + (p + C - vr_head ?r mod C)) mod C" unfolding q_def by (simp add: mod_simps)
    also have "vr_head ?r mod C + (p + C - vr_head ?r mod C) = p + C" using \<open>vr_head ?r mod C \<le> C\<close> by simp
    finally show ?thesis by simp
  qed
  moreover have q: "vr_head ?r \<le> q" "q < vr_head ?r + C" using C_ge by (auto simp: q_def)
  moreover have "slot_ok C ?r (writing (vs_pc s)) (reading (vs_pc s)) (vs_enqs s) q" using vinvD(4) [OF assms] q by simp
  ultimately show ?thesis using ring C_ge by (auto simp: slot_ok_def split: if_splits)
qed

end

text \<open>A new queue: position \<open>i\<close> is free in cell \<open>i\<close>.\<close>

definition vr_new :: "nat \<Rightarrow> 'd \<Rightarrow> 'd vring" where
  "vr_new cap d0 = \<lparr>vr_capacity = cap, vr_mask = cap - 1, vr_tail = 0, vr_head = 0, vr_seq = [0..<cap], vr_data = replicate cap d0\<rparr>"

lemma vinv_new: "C < CURSOR_LIMIT \<Longrightarrow> vinv C \<lparr>vs_ring = vr_new C d0, vs_pc = (\<lambda>_. Idle), vs_enqs = [], vs_deqs = []\<rparr>"
  by (simp add: vinv_def vr_new_def ring_ok_def owners_ok_def slot_ok_def writing_def reading_def deqs_ok_def)

lemma writing_position_tail:
  assumes inv: "vinv C s" and "writes (vs_pc s t) = Some p"
  shows "p < CURSOR_LIMIT" 
  using ownersD(1) [OF vinvD(3) [OF inv] assms(2)] vinvD(1) [OF inv] by (auto simp: ring_ok_def)

context vyukov_queue
begin

lemma index: "vinv C s \<Longrightarrow> vr_index (vs_ring s) p = p mod C"
  using slot_index [OF vinvD(1) C_pow] by blast

lemma enq_keeps_inv:
  assumes inv: "vinv C s" and st: "enq_step sp (vs_pc s t) (vs_ring s) = (pc, r)" "pc \<noteq> vs_pc s t"
    and lim: "vr_tail r + vr_capacity r < CURSOR_LIMIT"
  shows "vinv C (s\<lparr>vs_ring := r, vs_pc := (vs_pc s)(t := pc), vs_enqs := enq_log pc (vs_enqs s)\<rparr>)"
proof -
  note ok = vinvD(5) [OF inv, of t] and ring = vinvD(1) [OF inv]
  have keep: "s\<lparr>vs_ring := vs_ring s, vs_pc := x, vs_enqs := vs_enqs s\<rparr> = s\<lparr>vs_pc := x\<rparr>" for x by simp
  show ?thesis
  proof (cases "vs_pc s t")
    case (EnqStart d)
    then show ?thesis using st vinv_local [OF inv, of pc t] by (auto simp: enq_log_def keep)
  next
    case (EnqReload d)
    then show ?thesis using st vinv_local [OF inv, of pc t] by (auto simp: enq_log_def keep)
  next
    case (EnqLoop d p)
    have small: "p < CURSOR_LIMIT" using ok EnqLoop ring by (auto simp: ring_ok_def)
    have diff: "seq_diff (vr_seq (vs_ring s) ! (p mod C)) p = int (vr_seq (vs_ring s) ! (p mod C)) - int p"
      by (rule seq_diff_small [OF seq_bound [OF inv] small])
    have "pc_ok C (vs_ring s) (writing (vs_pc s)) (vs_enqs s) (EnqCas d p)" if "vr_seq (vs_ring s) ! (p mod C) = p"
      using ok EnqLoop that enq_seen_free [OF inv C_ge(1) that] by auto
    then show ?thesis using EnqLoop st vinv_local [OF inv, of pc t] diff
      by (auto simp: enq_log_def keep index [OF inv] Let_def split: if_splits)
  next
    case (EnqCas d p)
    show ?thesis
    proof (cases "\<not> sp \<and> vr_tail (vs_ring s) = p")
      case True
      then have "szt (p + 1) = p + 1" using ring by (simp add: ring_ok_def)
      then have r: "pc = EnqWrite d p" "r = (vs_ring s)\<lparr>vr_tail := p + 1\<rparr>" using EnqCas st(1) True by auto
      then have "p + 1 + C < CURSOR_LIMIT" using lim ring by (simp add: ring_ok_def)
      from claim_enq [OF inv C_ge(1) EnqCas _ this] r True show ?thesis by (simp add: enq_log_def)
    next
      case False
      then have r: "pc = EnqLoop d (vr_tail (vs_ring s))" "r = vs_ring s" using EnqCas st(1) by auto
      then show ?thesis using EnqCas vinv_local [OF inv, of pc t] by (simp add: enq_log_def keep)
    qed
  next
    case (EnqWrite d p)
    then show ?thesis using st write_data [OF inv EnqWrite] by (auto simp: enq_log_def index [OF inv])
  next
    case (EnqPublish p)
    have "szt (p + 1) = p + 1" using writing_position_tail [OF inv, of t p] EnqPublish by simp
    then show ?thesis using EnqPublish st publish [OF inv EnqPublish] by (auto simp: enq_log_def index [OF inv])
  qed (use st in auto)
qed

lemma deq_keeps_inv:
  assumes inv: "vinv C s" and st: "deq_step rel sp (vs_pc s t) (vs_ring s) = (pc, r)" "pc \<noteq> vs_pc s t"
  shows "vinv C (s\<lparr>vs_ring := r, vs_pc := (vs_pc s)(t := pc), vs_deqs := deq_log pc (vs_deqs s)\<rparr>)"
proof -
  let ?r = "vs_ring s"
  note ok = vinvD(5) [OF inv, of t] and ring = vinvD(1) [OF inv]
  have keep: "s\<lparr>vs_ring := vs_ring s, vs_pc := x, vs_deqs := vs_deqs s\<rparr> = s\<lparr>vs_pc := x\<rparr>" for x by simp
  have lim: "vr_head ?r \<le> vr_tail ?r" "vr_tail ?r + C < CURSOR_LIMIT" using ring by (auto simp: ring_ok_def)
  show ?thesis
  proof (cases "vs_pc s t")
    case DeqStart
    then show ?thesis using st vinv_local [OF inv, of pc t] by (auto simp: deq_log_def keep)
  next
    case DeqReload
    then show ?thesis using st vinv_local [OF inv, of pc t] by (auto simp: deq_log_def keep)
  next
    case (DeqLoop p)
    have p: "p \<le> vr_head ?r" using ok DeqLoop by simp
    have small: "szt (Suc p) = Suc p" "p + 1 < CURSOR_LIMIT" using p lim C_ge by auto
    have diff: "seq_diff (vr_seq ?r ! (p mod C)) (p + 1) = int (vr_seq ?r ! (p mod C)) - int (p + 1)"
      by (rule seq_diff_small [OF seq_bound [OF inv] small(2)])
    have "pc_ok C ?r (writing (vs_pc s)) (vs_enqs s) (DeqCas p)" if q: "vr_seq ?r ! (p mod C) = p + 1"
    proof -
      have "p < vr_tail ?r \<and> p \<notin> writing (vs_pc s)" if "p = vr_head ?r"
        using vinvD(4) [OF inv, of p] that q C_ge by (auto simp: slot_ok_def split: if_splits)
      then show ?thesis using p by simp
    qed
    then show ?thesis using DeqLoop st vinv_local [OF inv, of pc t] diff
      by (auto simp: deq_log_def keep index [OF inv] Let_def small split: if_splits)
  next
    case (DeqCas p)
    show ?thesis
    proof (cases "\<not> sp \<and> vr_head ?r = p")
      case True
      then have "szt (p + 1) = p + 1" using lim by simp
      then have "pc = DeqRead p" "r = ?r\<lparr>vr_head := p + 1\<rparr>" using DeqCas st(1) True by auto
      then show ?thesis using claim_deq [OF inv C_ge(2) DeqCas] True by (simp add: deq_log_def)
    next
      case False
      then have "pc = DeqLoop (vr_head ?r)" "r = ?r" using DeqCas st(1) by auto
      then show ?thesis using DeqCas vinv_local [OF inv, of pc t] by (simp add: deq_log_def keep)
    qed
  next
    case (DeqRead p)
    then show ?thesis using st read_data [OF inv DeqRead] by (auto simp: deq_log_def index [OF inv])
  next
    case (DeqRelease d p)
    have "p < vr_head ?r" using reading_slot(3) [OF inv, of t p] DeqRelease by simp
    then have "rel p = p + C" using lim by (intro rel_next) simp
    then show ?thesis using DeqRelease st release [OF inv C_ge(2) DeqRelease] by (auto simp: deq_log_def index [OF inv])
  qed (use st in auto)
qed

lemma run_inv: "vrun rel (vr_new C d0) s \<Longrightarrow> C < CURSOR_LIMIT \<Longrightarrow> vinv C s"
proof (induction rule: vrun.induct)
  case start
  then show ?case by (rule vinv_new)
next
  case (step_enq s sp t pc r)
  then show ?case using enq_keeps_inv by blast
next
  case (step_deq s sp t pc r)
  then show ?case using deq_keeps_inv by blast
qed (auto intro!: vinv_local)

text \<open>Every value that was read is the value that was claimed for its position, and no position is read twice.\<close>

lemma fifo:
  assumes "vrun rel (vr_new C d0) s" "C < CURSOR_LIMIT"
  shows "(\<forall>(p, d)\<in>set (vs_deqs s). p < vr_head (vs_ring s) \<and> d = vs_enqs s ! p)" "distinct (map fst (vs_deqs s))"
    "vr_head (vs_ring s) \<le> length (vs_enqs s)" "length (vs_enqs s) \<le> vr_head (vs_ring s) + C"
    "(\<And>t. vs_pc s t = Idle) \<Longrightarrow> mset (map snd (vs_deqs s)) = mset (take (vr_head (vs_ring s)) (vs_enqs s))"
proof -
  let ?h = "vr_head (vs_ring s)"
  note inv = run_inv [OF assms]
  note d = vinvD(6) [OF inv]
  show "\<forall>(p, d)\<in>set (vs_deqs s). p < ?h \<and> d = vs_enqs s ! p" "distinct (map fst (vs_deqs s))"
    using d by (auto simp: deqs_ok_def)
  show h: "?h \<le> length (vs_enqs s)" and "length (vs_enqs s) \<le> ?h + C"
    using vinvD(1,2) [OF inv] by (auto simp: ring_ok_def)
  show "mset (map snd (vs_deqs s)) = mset (take ?h (vs_enqs s))" if idle: "\<And>t. vs_pc s t = Idle"
  proof -
    have "set (map fst (vs_deqs s)) = {..<?h}" using d idle by (force simp: deqs_ok_def)
    then have "mset (map fst (vs_deqs s)) = mset [0..<?h]"
      using d by (intro set_eq_iff_mset_eq_distinct [THEN iffD1]) (auto simp: deqs_ok_def)
    moreover have "map snd (vs_deqs s) = map (\<lambda>p. vs_enqs s ! p) (map fst (vs_deqs s))"
      using d by (auto simp: deqs_ok_def)
    ultimately have "mset (map snd (vs_deqs s)) = mset (map (\<lambda>p. vs_enqs s ! p) [0..<?h])" by (metis mset_map)
    also have "map (\<lambda>p. vs_enqs s ! p) [0..<?h] = take ?h (vs_enqs s)" using h by (intro nth_equalityI) simp_all
    finally show ?thesis .
  qed
qed

end

subsection \<open>A thread that runs alone finishes its call\<close>

fun enq_result :: "'d vpc \<Rightarrow> bool option" where
  "enq_result (EnqDone b) = Some b"
| "enq_result _ = None"

fun deq_result :: "'d vpc \<Rightarrow> 'd option option" where
  "deq_result (DeqDone r) = Some r"
| "deq_result _ = None"

partial_function (option) enq_run :: "'d vpc \<Rightarrow> 'd vring \<Rightarrow> (bool \<times> 'd vring) option" where
  "enq_run pc r =
     (case enq_result pc of
        Some b \<Rightarrow> Some (b, r)
      | None \<Rightarrow> (case enq_step False pc r of (pc', r') \<Rightarrow> enq_run pc' r'))"

partial_function (option) deq_run :: "(nat \<Rightarrow> nat) \<Rightarrow> 'd vpc \<Rightarrow> 'd vring \<Rightarrow> ('d option \<times> 'd vring) option" where
  "deq_run rel pc r =
     (case deq_result pc of
        Some d \<Rightarrow> Some (d, r)
      | None \<Rightarrow> (case deq_step rel False pc r of (pc', r') \<Rightarrow> deq_run rel pc' r'))"

declare enq_run.simps [code] deq_run.simps [code]

lemma enq_run_done [simp]: "enq_run (EnqDone b) r = Some (b, r)"
  by (simp add: enq_run.simps)

lemma deq_run_done [simp]: "deq_run rel (DeqDone d) r = Some (d, r)"
  by (simp add: deq_run.simps)

lemma enq_run_step: "enq_result pc = None \<Longrightarrow> enq_step False pc r = (pc', r') \<Longrightarrow> enq_run pc r = enq_run pc' r'"
  by (simp add: enq_run.simps [of pc])

lemma deq_run_step: "deq_result pc = None \<Longrightarrow> deq_step rel False pc r = (pc', r') \<Longrightarrow> deq_run rel pc r = deq_run rel pc' r'"
  by (simp add: deq_run.simps [of rel pc])

fun enq_pc :: "'d vpc \<Rightarrow> bool" where
  "enq_pc (EnqStart d) = True" | "enq_pc (EnqLoop d p) = True" | "enq_pc (EnqCas d p) = True" | "enq_pc (EnqReload d) = True"
| "enq_pc (EnqWrite d p) = True" | "enq_pc (EnqPublish p) = True" | "enq_pc (EnqDone b) = True" | "enq_pc _ = False"

fun deq_pc :: "'d vpc \<Rightarrow> bool" where
  "deq_pc DeqStart = True" | "deq_pc (DeqLoop p) = True" | "deq_pc (DeqCas p) = True" | "deq_pc DeqReload = True"
| "deq_pc (DeqRead p) = True" | "deq_pc (DeqRelease d p) = True" | "deq_pc (DeqDone r) = True" | "deq_pc _ = False"

text \<open>The two questions a call answers: is the next cell free, is the first value published?\<close>

definition enq_free :: "nat \<Rightarrow> 'd vsys \<Rightarrow> bool" where
  "enq_free C s \<longleftrightarrow> vr_tail (vs_ring s) < vr_head (vs_ring s) + C \<and>
     \<not> (C \<le> vr_tail (vs_ring s) \<and> vr_tail (vs_ring s) - C \<in> reading (vs_pc s))"

definition deq_avail :: "'d vsys \<Rightarrow> bool" where
  "deq_avail s \<longleftrightarrow> vr_head (vs_ring s) < vr_tail (vs_ring s) \<and> vr_head (vs_ring s) \<notin> writing (vs_pc s)"

context vyukov_queue
begin

lemma tail_seq:
  assumes inv: "vinv C s"
  defines "T \<equiv> vr_tail (vs_ring s)"
  shows "seq_diff (vr_seq (vs_ring s) ! (T mod C)) T = 0 \<longleftrightarrow> enq_free C s"
    "seq_diff (vr_seq (vs_ring s) ! (T mod C)) T \<noteq> 0 \<Longrightarrow> seq_diff (vr_seq (vs_ring s) ! (T mod C)) T < 0"
proof -
  let ?r = "vs_ring s"
  have ring: "vr_head ?r \<le> T" "T \<le> vr_head ?r + C" "T + C < CURSOR_LIMIT" using vinvD(1) [OF inv] by (auto simp: ring_ok_def T_def)
  have d: "seq_diff (vr_seq ?r ! (T mod C)) T = int (vr_seq ?r ! (T mod C)) - int T"
    by (rule seq_diff_small [OF seq_bound [OF inv]]) (use ring in simp)
  have "vr_seq ?r ! (T mod C) \<le> T \<and> (vr_seq ?r ! (T mod C) = T \<longleftrightarrow> enq_free C s)"
  proof (cases "T < vr_head ?r + C")
    case True
    then show ?thesis using vinvD(4) [OF inv, of T] ring C_ge by (auto simp: slot_ok_def enq_free_def T_def split: if_splits)
  next
    case False
    then have T: "T = vr_head ?r + C" using ring by simp
    have "slot_ok C ?r (writing (vs_pc s)) (reading (vs_pc s)) (vs_enqs s) (vr_head ?r)" using vinvD(4) [OF inv] C_ge by simp
    then show ?thesis using T C_ge by (auto simp: slot_ok_def enq_free_def simp flip: T_def split: if_splits)
  qed
  then show "seq_diff (vr_seq ?r ! (T mod C)) T = 0 \<longleftrightarrow> enq_free C s"
    "seq_diff (vr_seq ?r ! (T mod C)) T \<noteq> 0 \<Longrightarrow> seq_diff (vr_seq ?r ! (T mod C)) T < 0" using d by auto
qed

lemma head_seq:
  assumes inv: "vinv C s"
  defines "H \<equiv> vr_head (vs_ring s)"
  shows "seq_diff (vr_seq (vs_ring s) ! (H mod C)) (szt (Suc H)) = 0 \<longleftrightarrow> deq_avail s"
    "seq_diff (vr_seq (vs_ring s) ! (H mod C)) (szt (Suc H)) \<noteq> 0 \<Longrightarrow> seq_diff (vr_seq (vs_ring s) ! (H mod C)) (szt (Suc H)) < 0"
    "deq_avail s \<Longrightarrow> vr_data (vs_ring s) ! (H mod C) = vs_enqs s ! H"
proof -
  let ?r = "vs_ring s"
  have ring: "H \<le> vr_tail ?r" "vr_tail ?r + C < CURSOR_LIMIT" using vinvD(1) [OF inv] by (auto simp: ring_ok_def H_def)
  have sm: "szt (Suc H) = Suc H" "Suc H < CURSOR_LIMIT" using ring C_ge by auto
  have d: "seq_diff (vr_seq ?r ! (H mod C)) (szt (Suc H)) = int (vr_seq ?r ! (H mod C)) - int (Suc H)"
    unfolding sm(1) by (rule seq_diff_small [OF seq_bound [OF inv] sm(2)])
  have s: "slot_ok C ?r (writing (vs_pc s)) (reading (vs_pc s)) (vs_enqs s) H" using vinvD(4) [OF inv, of H] C_ge by (simp add: H_def)
  then have "vr_seq ?r ! (H mod C) \<le> Suc H \<and> (vr_seq ?r ! (H mod C) = Suc H \<longleftrightarrow> deq_avail s)"
    using C_ge by (auto simp: slot_ok_def deq_avail_def simp flip: H_def split: if_splits)
  then show "seq_diff (vr_seq ?r ! (H mod C)) (szt (Suc H)) = 0 \<longleftrightarrow> deq_avail s"
    "seq_diff (vr_seq ?r ! (H mod C)) (szt (Suc H)) \<noteq> 0 \<Longrightarrow> seq_diff (vr_seq ?r ! (H mod C)) (szt (Suc H)) < 0" using d by auto
  show "deq_avail s \<Longrightarrow> vr_data ?r ! (H mod C) = vs_enqs s ! H"
    using s by (auto simp: slot_ok_def deq_avail_def simp flip: H_def)
qed

lemma enq_run_loop:
  assumes inv: "vinv C s"
  shows "\<exists>r'. enq_run (EnqLoop d (vr_tail (vs_ring s))) (vs_ring s) = Some (enq_free C s, r')"
proof (cases "enq_free C s")
  case True
  let ?T = "vr_tail (vs_ring s)"
  have "enq_step False (EnqLoop d ?T) (vs_ring s) = (EnqCas d ?T, vs_ring s)"
    using tail_seq(1) [OF inv] True by (simp add: index [OF inv])
  then show ?thesis using True by (simp add: enq_run_step)
next
  case False
  then have "enq_step False (EnqLoop d (vr_tail (vs_ring s))) (vs_ring s) = (EnqDone False, vs_ring s)"
    using tail_seq [OF inv] by (simp add: index [OF inv] Let_def)
  then show ?thesis using False by (simp add: enq_run_step)
qed

lemma deq_run_loop:
  assumes inv: "vinv C s"
  shows "\<exists>r'. deq_run rel (DeqLoop (vr_head (vs_ring s))) (vs_ring s) =
    Some (if deq_avail s then Some (vs_enqs s ! vr_head (vs_ring s)) else None, r')"
proof (cases "deq_avail s")
  case True
  let ?H = "vr_head (vs_ring s)"
  have "deq_step rel False (DeqLoop ?H) (vs_ring s) = (DeqCas ?H, vs_ring s)"
    using head_seq(1) [OF inv] True by (simp add: index [OF inv])
  moreover have "vr_index (vs_ring s\<lparr>vr_head := x\<rparr>) ?H = ?H mod C" for x using index [OF inv] by (simp add: vr_index_def)
  ultimately show ?thesis using True head_seq(3) [OF inv True] by (simp add: deq_run_step)
next
  case False
  then have "deq_step rel False (DeqLoop (vr_head (vs_ring s))) (vs_ring s) = (DeqDone None, vs_ring s)"
    using head_seq [OF inv] by (simp add: index [OF inv] Let_def)
  then show ?thesis using False by (simp add: deq_run_step)
qed

lemma enq_completes:
  assumes inv: "vinv C s" and "enq_pc pc"
  shows "enq_run pc (vs_ring s) \<noteq> None"
proof (cases pc)
  case (EnqStart d)
  then show ?thesis using enq_run_loop [OF inv, of d] by (force simp: enq_run_step)
next
  case (EnqReload d)
  then show ?thesis using enq_run_loop [OF inv, of d] by (force simp: enq_run_step)
next
  case cas: (EnqCas d p)
  show ?thesis
  proof (cases "vr_tail (vs_ring s) = p")
    case True
    then show ?thesis using cas by (force simp: enq_run_step)
  next
    case False
    then have "enq_step False pc (vs_ring s) = (EnqLoop d (vr_tail (vs_ring s)), vs_ring s)" using cas by simp
    then show ?thesis using cas enq_run_loop [OF inv, of d] by (force simp: enq_run_step)
  qed
next
  case lp: (EnqLoop d p)
  have cas: "enq_run (EnqCas d p) (vs_ring s) \<noteq> None"
  proof (cases "vr_tail (vs_ring s) = p")
    case False
    then have "enq_step False (EnqCas d p) (vs_ring s) = (EnqLoop d (vr_tail (vs_ring s)), vs_ring s)" by simp
    then show ?thesis using enq_run_loop [OF inv, of d] by (force simp: enq_run_step)
  qed (simp add: enq_run_step)
  have rel: "enq_run (EnqReload d) (vs_ring s) \<noteq> None"
    using enq_run_loop [OF inv, of d] by (force simp: enq_run_step)
  have "enq_step False pc (vs_ring s) = (EnqCas d p, vs_ring s) \<or> enq_step False pc (vs_ring s) = (EnqDone False, vs_ring s) \<or>
      enq_step False pc (vs_ring s) = (EnqReload d, vs_ring s)"
    using lp by (simp add: Let_def)
  then show ?thesis using cas rel enq_run_step [of pc "vs_ring s"] lp by (auto simp del: enq_step.simps)
next
  case (EnqWrite d p)
  then show ?thesis by (simp add: enq_run_step)
next
  case (EnqPublish p)
  then show ?thesis by (simp add: enq_run_step)
qed (use assms(2) in simp_all)

lemma deq_completes:
  assumes inv: "vinv C s" and "deq_pc pc"
  shows "deq_run rel pc (vs_ring s) \<noteq> None"
proof (cases pc)
  case DeqStart
  then show ?thesis using deq_run_loop [OF inv] by (force simp: deq_run_step)
next
  case DeqReload
  then show ?thesis using deq_run_loop [OF inv] by (force simp: deq_run_step)
next
  case cas: (DeqCas p)
  show ?thesis
  proof (cases "vr_head (vs_ring s) = p")
    case True
    then show ?thesis using cas by (simp add: deq_run_step)
  next
    case False
    then have "deq_step rel False pc (vs_ring s) = (DeqLoop (vr_head (vs_ring s)), vs_ring s)" using cas by simp
    then show ?thesis using cas deq_run_loop [OF inv] by (force simp: deq_run_step)
  qed
next
  case lp: (DeqLoop p)
  have cas: "deq_run rel (DeqCas p) (vs_ring s) \<noteq> None"
  proof (cases "vr_head (vs_ring s) = p")
    case False
    then have "deq_step rel False (DeqCas p) (vs_ring s) = (DeqLoop (vr_head (vs_ring s)), vs_ring s)" by simp
    then show ?thesis using deq_run_loop [OF inv] by (force simp: deq_run_step)
  qed (simp add: deq_run_step)
  have rl: "deq_run rel DeqReload (vs_ring s) \<noteq> None"
    using deq_run_loop [OF inv] by (force simp: deq_run_step)
  have "deq_step rel False pc (vs_ring s) = (DeqCas p, vs_ring s) \<or> deq_step rel False pc (vs_ring s) = (DeqDone None, vs_ring s) \<or>
      deq_step rel False pc (vs_ring s) = (DeqReload, vs_ring s)"
    using lp by (simp add: Let_def)
  then show ?thesis using cas rl deq_run_step [of pc rel "vs_ring s"] lp by (auto simp del: deq_step.simps)
next
  case (DeqRead p)
  then show ?thesis by (simp add: deq_run_step)
next
  case (DeqRelease d p)
  then show ?thesis by (simp add: deq_run_step)
qed (use assms(2) in simp_all)

lemma idle_questions:
  assumes "\<And>t. vs_pc s t = Idle"
  shows "enq_free C s \<longleftrightarrow> vr_tail (vs_ring s) < vr_head (vs_ring s) + C" "deq_avail s \<longleftrightarrow> vr_head (vs_ring s) < vr_tail (vs_ring s)"
  using assms by (simp_all add: enq_free_def deq_avail_def reading_def writing_def)

end

end
