(* ===== verification/Cobalt_LFQueue.thy ===== *)
theory Cobalt_LFQueue
  imports Cobalt_MPMC Cobalt_RobinHood
begin

section \<open>Lock-free queue\<close>

text \<open>
  \<open>src/container/lfqueue.c\<close>: the queue of pointers over \<open>enq_step\<close> and \<open>deq_step\<close>. The values are pointers, \<open>None\<close>
  is NULL. A call without contention is the run of its steps with no other thread in between
  (\<open>enq_run\<close>, \<open>deq_run\<close>); calls of several threads are the steps of \<open>vrun\<close>. The outer \<open>option\<close> of the
  constructor is a fault: the initialisation loop writes past a buffer whose size wrapped around.
\<close>

type_synonym 'a cobalt_lfqueue = "'a option vring"

definition lfqueue_next_pow2 :: "u64 \<Rightarrow> u64" where
  "lfqueue_next_pow2 v =
     (let v = v - 1;
          v = v OR drop_bit 1 v;
          v = v OR drop_bit 2 v;
          v = v OR drop_bit 4 v;
          v = v OR drop_bit 8 v;
          v = v OR drop_bit 16 v;
          v = v OR drop_bit 32 v;
          v = v + 1
      in if v < 2 then 2 else v)"

definition cobalt_lfqueue_create_with_allocator ::
    "bool \<Rightarrow> bool \<Rightarrow> bool \<Rightarrow> nat \<Rightarrow> (cobalt_error option \<times> 'a cobalt_lfqueue option) option" where
  "cobalt_lfqueue_create_with_allocator alloc_null alloc_queue alloc_buffer capacity =
     (if alloc_null then Some (Some COBALT_ERROR_INVALID_ARGUMENT, None)
      else
        let cap = unat (lfqueue_next_pow2 (of_nat (if capacity < 2 then 2 else capacity))) in
        if \<not> alloc_queue then Some (Some COBALT_ERROR_OUT_OF_MEMORY, None)
        else if \<not> alloc_buffer then Some (Some COBALT_ERROR_OUT_OF_MEMORY, None)
        else if szt (16 * cap) < 16 * cap then None
        else Some (None, Some (vr_new cap None)))"

definition cobalt_lfqueue_create ::
    "bool \<Rightarrow> bool \<Rightarrow> nat \<Rightarrow> (cobalt_error option \<times> 'a cobalt_lfqueue option) option" where
  "cobalt_lfqueue_create alloc_queue alloc_buffer capacity =
     cobalt_lfqueue_create_with_allocator False alloc_queue alloc_buffer capacity"

definition lfqueue_release :: "'a cobalt_lfqueue \<Rightarrow> nat \<Rightarrow> nat" where
  "lfqueue_release queue pos = szt (pos + vr_mask queue + 1)"

definition cobalt_lfqueue_enqueue ::
    "'a cobalt_lfqueue option \<Rightarrow> 'a option \<Rightarrow> (int \<times> cobalt_error option \<times> 'a cobalt_lfqueue option) option" where
  "cobalt_lfqueue_enqueue q d =
     (case q of
        None \<Rightarrow> Some (-1, Some COBALT_ERROR_INVALID_ARGUMENT, q)
      | Some queue \<Rightarrow> map_option (\<lambda>(ok, queue'). (if ok then 0 else -1, None, Some queue')) (enq_run (EnqStart d) queue))"

definition cobalt_lfqueue_dequeue ::
    "'a cobalt_lfqueue option \<Rightarrow> bool \<Rightarrow> (int \<times> 'a option option \<times> cobalt_error option \<times> 'a cobalt_lfqueue option) option" where
  "cobalt_lfqueue_dequeue q out_null =
     (case q of
        None \<Rightarrow> Some (-1, None, Some COBALT_ERROR_INVALID_ARGUMENT, q)
      | Some queue \<Rightarrow>
          if out_null then Some (-1, None, Some COBALT_ERROR_INVALID_ARGUMENT, q)
          else map_option (\<lambda>(out, queue'). (if out = None then -1 else 0, out, None, Some queue'))
                 (deq_run (lfqueue_release queue) DeqStart queue))"

definition cobalt_lfqueue_size :: "'a cobalt_lfqueue option \<Rightarrow> nat" where
  "cobalt_lfqueue_size q =
     (case q of None \<Rightarrow> 0 | Some queue \<Rightarrow> if vr_head queue \<le> vr_tail queue then vr_tail queue - vr_head queue else 0)"

definition cobalt_lfqueue_is_empty :: "'a cobalt_lfqueue option \<Rightarrow> bool" where
  "cobalt_lfqueue_is_empty q = (case q of None \<Rightarrow> True | Some queue \<Rightarrow> vr_tail queue \<le> vr_head queue)"

definition cobalt_lfqueue_is_full :: "'a cobalt_lfqueue option \<Rightarrow> bool" where
  "cobalt_lfqueue_is_full q =
     (case q of None \<Rightarrow> False | Some queue \<Rightarrow> vr_capacity queue \<le> szt_sub (vr_tail queue) (vr_head queue))"

definition cobalt_lfqueue_capacity :: "'a cobalt_lfqueue option \<Rightarrow> nat" where
  "cobalt_lfqueue_capacity q = (case q of None \<Rightarrow> 0 | Some queue \<Rightarrow> vr_capacity queue)"

interpretation lfq: vyukov_queue "2 ^ Suc k" k "\<lambda>pos. szt (pos + (2 ^ Suc k - 1) + 1)" for k
  by unfold_locales simp_all

lemma lfqueue_create_pow2:
  assumes "n \<le> 2 ^ 59"
  shows "\<exists>k. cobalt_lfqueue_create True True n = Some (None, Some (vr_new (2 ^ Suc k) None)) \<and> n \<le> 2 ^ Suc k \<and> 2 ^ Suc k \<le> (2::nat) ^ 59"
proof -
  define m where "m = (if n < 2 then 2 else n)"
  have "2 \<le> m" by (simp add: m_def)
  then obtain j where j: "2 ^ j < m" "m \<le> 2 ^ Suc j" using ex_power_ivl2 [of 2 m] by auto
  have "m \<le> 2 ^ 59" using assms by (simp add: m_def)
  then have "(2::nat) ^ j < 2 ^ 59" using j(1) by linarith
  then have "j < 59" using power_less_imp_less_exp [of 2 j 59] by simp
  then have c: "2 ^ Suc j \<le> (2::nat) ^ 59" by (intro power_increasing) simp_all
  have "lfqueue_next_pow2 = hashmap_next_pow2" by (simp add: lfqueue_next_pow2_def hashmap_next_pow2_def fun_eq_iff)
  then have "unat (lfqueue_next_pow2 (of_nat m)) = 2 ^ Suc j" using hashmap_next_pow2_eq [OF j] \<open>j < 59\<close> by simp
  moreover have "szt (16 * 2 ^ Suc j) = 16 * 2 ^ Suc j" using c by (intro szt_small) simp
  ultimately have "cobalt_lfqueue_create True True n = Some (None, Some (vr_new (2 ^ Suc j) None))"
    unfolding cobalt_lfqueue_create_def cobalt_lfqueue_create_with_allocator_def by (simp add: Let_def flip: m_def)
  moreover have "n \<le> m" by (simp add: m_def)
  then have "n \<le> 2 ^ Suc j" using j(2) by linarith
  ultimately show ?thesis using c by blast
qed

lemma lfqueue_run_inv:
  fixes q :: "'a cobalt_lfqueue"
  assumes "n \<le> 2 ^ 59" "cobalt_lfqueue_create True True n = Some (None, Some q)" "vrun (lfqueue_release q) q s"
  obtains k where "q = vr_new (2 ^ Suc k) None" "2 ^ Suc k < CURSOR_LIMIT" "n \<le> 2 ^ Suc k" "vinv (2 ^ Suc k) s"
    "vrun (\<lambda>pos. szt (pos + (2 ^ Suc k - 1) + 1)) (vr_new (2 ^ Suc k) None) s"
    "lfqueue_release (vs_ring s) = (\<lambda>pos. szt (pos + (2 ^ Suc k - 1) + 1))"
proof -
  from lfqueue_create_pow2 [OF assms(1)] obtain k where
    c: "cobalt_lfqueue_create True True n = Some (None, Some (vr_new (2 ^ Suc k) (None :: 'a option)))" and
    k: "n \<le> 2 ^ Suc k" "2 ^ Suc k \<le> (2::nat) ^ 59" by blast
  have q: "q = vr_new (2 ^ Suc k) None" using c assms(2) by simp
  have lim: "2 ^ Suc k < CURSOR_LIMIT" using k(2) by simp
  have rel: "lfqueue_release q = (\<lambda>pos. szt (pos + (2 ^ Suc k - 1) + 1))"
    by (rule ext) (simp only: lfqueue_release_def q vr_new_def vring.simps)
  with assms(3) have run: "vrun (\<lambda>pos. szt (pos + (2 ^ Suc k - 1) + 1)) (vr_new (2 ^ Suc k) None) s" using q by metis
  have inv: "vinv (2 ^ Suc k) s" by (rule lfq.run_inv [OF run lim])
  have "vr_mask (vs_ring s) = 2 ^ Suc k - 1" using vinvD(1) [OF inv] by (simp add: ring_ok_def)
  then have "lfqueue_release (vs_ring s) = (\<lambda>pos. szt (pos + (2 ^ Suc k - 1) + 1))"
    by (intro ext) (simp only: lfqueue_release_def)
  with that q k lim inv run show thesis by blast
qed

text \<open>
  C4: in every interleaving of any number of producers and consumers on a new lock-free queue, each
  value a consumer reads is the value that was claimed for its position by a producer, no position
  is read twice, and no more than the capacity of positions is in use; when all calls have
  returned, the values read are exactly the first \<open>head\<close> values in the order of their claims. So nothing
  is lost, duplicated or reordered.
\<close>

theorem lfqueue_fifo:
  assumes "n \<le> 2 ^ 59" "cobalt_lfqueue_create True True n = Some (None, Some q)" "vrun (lfqueue_release q) q s"
  shows "(\<forall>(p, d)\<in>set (vs_deqs s). p < vr_head (vs_ring s) \<and> d = vs_enqs s ! p) \<and> distinct (map fst (vs_deqs s)) \<and>
    vr_head (vs_ring s) \<le> length (vs_enqs s) \<and>
    length (vs_enqs s) - vr_head (vs_ring s) \<le> cobalt_lfqueue_capacity (Some q) \<and> n \<le> cobalt_lfqueue_capacity (Some q) \<and>
    ((\<forall>t. vs_pc s t = Idle) \<longrightarrow> mset (map snd (vs_deqs s)) = mset (take (vr_head (vs_ring s)) (vs_enqs s)))"
proof -
  from lfqueue_run_inv [OF assms] obtain k where k: "q = vr_new (2 ^ Suc k) None" "2 ^ Suc k < CURSOR_LIMIT" "n \<le> 2 ^ Suc k"
    "vrun (\<lambda>pos. szt (pos + (2 ^ Suc k - 1) + 1)) (vr_new (2 ^ Suc k) None) s" .
  have "cobalt_lfqueue_capacity (Some q) = 2 ^ Suc k" using k(1) by (simp add: cobalt_lfqueue_capacity_def vr_new_def)
  with lfq.fifo [OF k(4,2)] k(3) show ?thesis by auto
qed

text \<open>
  C9: whatever state the other threads are in, even stopped in the middle of their calls, a thread
  that runs alone finishes its call. A new enqueue succeeds exactly if the cell of the next position
  has been released, a new dequeue exactly if the first value has been published, and then it
  returns that value. If no other call is in progress these are the tests for a full and
  for an empty queue.
\<close>

theorem lfqueue_progress:
  assumes "n \<le> 2 ^ 59" "cobalt_lfqueue_create True True n = Some (None, Some q)" "vrun (lfqueue_release q) q s"
  shows "(enq_pc (vs_pc s t) \<longrightarrow> enq_run (vs_pc s t) (vs_ring s) \<noteq> None) \<and>
    (deq_pc (vs_pc s t) \<longrightarrow> deq_run (lfqueue_release q) (vs_pc s t) (vs_ring s) \<noteq> None) \<and>
    (\<exists>q'. cobalt_lfqueue_enqueue (Some (vs_ring s)) d = Some (if enq_free (vr_capacity q) s then 0 else -1, None, Some q')) \<and>
    (\<exists>q'. cobalt_lfqueue_dequeue (Some (vs_ring s)) False =
       Some (if deq_avail s then 0 else -1, if deq_avail s then Some (vs_enqs s ! vr_head (vs_ring s)) else None, None, Some q')) \<and>
    ((\<forall>u. vs_pc s u = Idle) \<longrightarrow> (enq_free (vr_capacity q) s \<longleftrightarrow> \<not> cobalt_lfqueue_is_full (Some (vs_ring s))) \<and>
       (deq_avail s \<longleftrightarrow> \<not> cobalt_lfqueue_is_empty (Some (vs_ring s))))"
proof -
  from lfqueue_run_inv [OF assms] obtain k where k: "q = vr_new (2 ^ Suc k) None" "vinv (2 ^ Suc k) s"
    "lfqueue_release (vs_ring s) = (\<lambda>pos. szt (pos + (2 ^ Suc k - 1) + 1))" .
  have q: "vr_capacity q = 2 ^ Suc k" "lfqueue_release q = (\<lambda>pos. szt (pos + (2 ^ Suc k - 1) + 1))"
    by (simp only: k(1) vr_new_def vring.simps) (rule ext, simp only: k(1) vr_new_def vring.simps lfqueue_release_def)
  from lfq.enq_run_loop [OF k(2), of d] obtain r1 where
    "enq_run (EnqLoop d (vr_tail (vs_ring s))) (vs_ring s) = Some (enq_free (2 ^ Suc k) s, r1)" by blast
  then have e: "cobalt_lfqueue_enqueue (Some (vs_ring s)) d = Some (if enq_free (vr_capacity q) s then 0 else -1, None, Some r1)"
    using q(1) by (simp add: cobalt_lfqueue_enqueue_def enq_run_step)
  from lfq.deq_run_loop [OF k(2)] obtain r2 where
    "deq_run (lfqueue_release (vs_ring s)) (DeqLoop (vr_head (vs_ring s))) (vs_ring s) =
       Some (if deq_avail s then Some (vs_enqs s ! vr_head (vs_ring s)) else None, r2)" unfolding k(3) by blast
  then have d: "cobalt_lfqueue_dequeue (Some (vs_ring s)) False =
       Some (if deq_avail s then 0 else -1, if deq_avail s then Some (vs_enqs s ! vr_head (vs_ring s)) else None, None, Some r2)"
    by (simp add: cobalt_lfqueue_dequeue_def deq_run_step)
  have r: "vr_capacity (vs_ring s) = 2 ^ Suc k" "vr_head (vs_ring s) \<le> vr_tail (vs_ring s)"
    using vinvD(1) [OF k(2)] by (auto simp: ring_ok_def)
  have "(enq_free (vr_capacity q) s \<longleftrightarrow> \<not> cobalt_lfqueue_is_full (Some (vs_ring s))) \<and>
       (deq_avail s \<longleftrightarrow> \<not> cobalt_lfqueue_is_empty (Some (vs_ring s)))" if "\<forall>u. vs_pc s u = Idle"
    using that r q(1) lfq.idle_questions [where s = s] by (auto simp: cobalt_lfqueue_is_full_def cobalt_lfqueue_is_empty_def)
  then show ?thesis using e d lfq.enq_completes [OF k(2)] lfq.deq_completes [OF k(2)] unfolding q(2) by blast
qed

text \<open>A run in which one thread enqueues a value and another one is about to release its cell.\<close>

definition sample_state ::
    "nat \<Rightarrow> nat \<Rightarrow> nat list \<Rightarrow> nat option list \<Rightarrow> nat option vpc \<Rightarrow> nat option vpc \<Rightarrow> nat option list \<Rightarrow> (nat \<times> nat option) list \<Rightarrow>
     nat option vsys" where
  "sample_state T H sq dt a b es ds =
     \<lparr>vs_ring = \<lparr>vr_capacity = 2, vr_mask = 1, vr_tail = T, vr_head = H, vr_seq = sq, vr_data = dt\<rparr>,
      vs_pc = (\<lambda>t. if t = 0 then a else if t = 1 then b else Idle), vs_enqs = es, vs_deqs = ds\<rparr>"

lemma sample_step:
  assumes "vrun rel r0 (sample_state T H sq dt a b es ds)"
  shows "a = Idle \<Longrightarrow> vrun rel r0 (sample_state T H sq dt (EnqStart d) b es ds)"
    "b = Idle \<Longrightarrow> vrun rel r0 (sample_state T H sq dt a DeqStart es ds)"
    "enq_step False a (vs_ring (sample_state T H sq dt a b es ds)) = (a', vs_ring (sample_state T' H sq' dt' a b es ds)) \<Longrightarrow> a' \<noteq> a \<Longrightarrow>
      T' < 100 \<Longrightarrow> vrun rel r0 (sample_state T' H sq' dt' a' b (enq_log a' es) ds)"
    "deq_step rel False b (vs_ring (sample_state T H sq dt a b es ds)) = (b', vs_ring (sample_state T H' sq' dt a b es ds)) \<Longrightarrow> b' \<noteq> b \<Longrightarrow>
      vrun rel r0 (sample_state T H' sq' dt a b' es (deq_log b' ds))"
proof -
  show "vrun rel r0 (sample_state T H sq dt (EnqStart d) b es ds)" if "a = Idle"
  proof -
    have "(\<lambda>t::nat. if t = 0 then x else if t = 1 then b else Idle)(0 := EnqStart d) = (\<lambda>t. if t = 0 then EnqStart d else if t = 1 then b else Idle)"
      for x by auto
    then show ?thesis using vrun.call_enq [OF assms, of 0 d] that by (simp add: sample_state_def)
  qed
  show "vrun rel r0 (sample_state T H sq dt a DeqStart es ds)" if "b = Idle"
  proof -
    have "(\<lambda>t::nat. if t = 0 then a else if t = 1 then x else Idle)(1 := DeqStart) = (\<lambda>t. if t = 0 then a else if t = 1 then DeqStart else Idle)"
      for x by auto
    then show ?thesis using vrun.call_deq [OF assms, of 1] that by (simp add: sample_state_def)
  qed
  show "vrun rel r0 (sample_state T' H sq' dt' a' b (enq_log a' es) ds)"
    if "enq_step False a (vs_ring (sample_state T H sq dt a b es ds)) = (a', vs_ring (sample_state T' H sq' dt' a b es ds))" "a' \<noteq> a" "T' < 100"
  proof -
    have "(\<lambda>t::nat. if t = 0 then a else if t = 1 then b else Idle)(0 := a') = (\<lambda>t. if t = 0 then a' else if t = 1 then b else Idle)"
      by auto
    then show ?thesis using vrun.step_enq [OF assms, of False 0 a' "vs_ring (sample_state T' H sq' dt' a b es ds)"] that
      by (simp add: sample_state_def)
  qed
  show "vrun rel r0 (sample_state T H' sq' dt a b' es (deq_log b' ds))"
    if "deq_step rel False b (vs_ring (sample_state T H sq dt a b es ds)) = (b', vs_ring (sample_state T H' sq' dt a b es ds))" "b' \<noteq> b"
  proof -
    have "(\<lambda>t::nat. if t = 0 then a else if t = 1 then b else Idle)(1 := b') = (\<lambda>t. if t = 0 then a else if t = 1 then b' else Idle)"
      by auto
    then show ?thesis using vrun.step_deq [OF assms, of False 1 b' "vs_ring (sample_state T H' sq' dt a b es ds)"] that
      by (simp add: sample_state_def)
  qed
qed

lemma sample_diff: "seq_diff 0 0 = 0" "seq_diff 1 1 = 0" "seq_diff (Suc 0) (Suc 0) = 0"
  by (simp_all add: seq_diff_def)

lemma sample_run:
  "cobalt_lfqueue_create True True 2 = Some (None, Some (vr_new 2 (None :: nat option)))"
  "vrun (lfqueue_release (vr_new 2 (None :: nat option))) (vr_new 2 None)
     (sample_state 1 1 [1, 1] [Some 7, None] (EnqDone True) (DeqRelease (Some 7) 0) [Some 7] [(0, Some 7)])"
proof -
  show "cobalt_lfqueue_create True True 2 = Some (None, Some (vr_new 2 (None :: nat option)))"
    by (simp add: cobalt_lfqueue_create_def cobalt_lfqueue_create_with_allocator_def lfqueue_next_pow2_def)
  let ?run = "vrun (lfqueue_release (vr_new 2 (None :: nat option))) (vr_new 2 (None :: nat option))"
  note d = sample_state_def vr_index_def sample_diff enq_log_def deq_log_def
  have "?run (sample_state 0 0 [0, 1] [None, None] Idle Idle [] [])"
    using vrun.start [of _ "vr_new 2 None"] by (simp add: sample_state_def vr_new_def numeral_2_eq_2 cong: if_cong)
  from sample_step(1) [OF this, of "Some 7"] have "?run (sample_state 0 0 [0, 1] [None, None] (EnqStart (Some 7)) Idle [] [])" by simp
  from sample_step(3) [OF this, of "EnqLoop (Some 7) 0" 0 "[0, 1]" "[None, None]"]
  have "?run (sample_state 0 0 [0, 1] [None, None] (EnqLoop (Some 7) 0) Idle [] [])" by (simp add: d)
  from sample_step(3) [OF this, of "EnqCas (Some 7) 0" 0 "[0, 1]" "[None, None]"]
  have "?run (sample_state 0 0 [0, 1] [None, None] (EnqCas (Some 7) 0) Idle [] [])" by (simp add: d)
  from sample_step(3) [OF this, of "EnqWrite (Some 7) 0" 1 "[0, 1]" "[None, None]"]
  have "?run (sample_state 1 0 [0, 1] [None, None] (EnqWrite (Some 7) 0) Idle [Some 7] [])" by (simp add: d)
  from sample_step(3) [OF this, of "EnqPublish 0" 1 "[0, 1]" "[Some 7, None]"]
  have "?run (sample_state 1 0 [0, 1] [Some 7, None] (EnqPublish 0) Idle [Some 7] [])" by (simp add: d)
  from sample_step(3) [OF this, of "EnqDone True" 1 "[1, 1]" "[Some 7, None]"]
  have "?run (sample_state 1 0 [1, 1] [Some 7, None] (EnqDone True) Idle [Some 7] [])" by (simp add: d)
  from sample_step(2) [OF this] have "?run (sample_state 1 0 [1, 1] [Some 7, None] (EnqDone True) DeqStart [Some 7] [])" by simp
  from sample_step(4) [OF this, of "DeqLoop 0" 0 "[1, 1]"]
  have "?run (sample_state 1 0 [1, 1] [Some 7, None] (EnqDone True) (DeqLoop 0) [Some 7] [])" by (simp add: d)
  from sample_step(4) [OF this, of "DeqCas 0" 0 "[1, 1]"]
  have "?run (sample_state 1 0 [1, 1] [Some 7, None] (EnqDone True) (DeqCas 0) [Some 7] [])" by (simp add: d)
  from sample_step(4) [OF this, of "DeqRead 0" 1 "[1, 1]"]
  have "?run (sample_state 1 1 [1, 1] [Some 7, None] (EnqDone True) (DeqRead 0) [Some 7] [])" by (simp add: d)
  from sample_step(4) [OF this, of "DeqRelease (Some 7) 0" 1 "[1, 1]"]
  show "?run (sample_state 1 1 [1, 1] [Some 7, None] (EnqDone True) (DeqRelease (Some 7) 0) [Some 7] [(0, Some 7)])" by (simp add: d)
qed

theorem lfqueue_fifo_witness:
  "vrun (lfqueue_release (vr_new 2 (None :: nat option))) (vr_new 2 None)
     (sample_state 1 1 [1, 1] [Some 7, None] (EnqDone True) (DeqRelease (Some 7) 0) [Some 7] [(0, Some 7)]) \<and>
   Some (7 :: nat) = vs_enqs (sample_state 1 1 [1, 1] [Some 7, None] (EnqDone True) (DeqRelease (Some 7) 0) [Some 7] [(0, Some 7)]) ! 0"
  using lfqueue_fifo [OF _ sample_run] sample_run(2) by (simp add: sample_state_def)

theorem lfqueue_progress_witness:
  "\<exists>q'. cobalt_lfqueue_enqueue
     (Some (vs_ring (sample_state 1 1 [1, 1] [Some 7, None] (EnqDone True) (DeqRelease (Some 7) 0) [Some 7] [(0, Some 7)]))) (Some 8) =
     Some (0, None, Some q')"
proof -
  let ?s = "sample_state 1 1 [1, 1] [Some 7, None] (EnqDone True) (DeqRelease (Some 7) 0) [Some 7] [(0, Some 7)]"
  have "enq_free 2 ?s" by (simp add: enq_free_def sample_state_def)
  moreover have "vr_capacity (vr_new 2 (None :: nat option)) = 2" by (simp add: vr_new_def)
  ultimately show ?thesis using lfqueue_progress [OF _ sample_run, of 0 "Some 8"] by simp
qed

end
