(* ===== verification/Cobalt_SHM_Ring.thy ===== *)
theory Cobalt_SHM_Ring
  imports Cobalt_MPMC
begin

section \<open>Shared memory rings\<close>

text \<open>
  \<open>src/container/shm_ring.c\<close>. A shared memory region is a header and a buffer of bytes that follows it; the
  header has 320 bytes, a frame header 8 bytes and the header of an MPMC slot 16 bytes. A pointer into
  the buffer is an offset. Frame headers are stored little-endian in the buffer itself, so a
  wrong offset or an overlap would show. A read or write outside the buffer is the fault \<open>None\<close>.

  In the single-producer single-consumer ring the producer and the consumer each have a handle and
  their calls interleave; each call performs one load or store of the cursor the other side
  changes, and is one step of the model.
\<close>

type_synonym shm_byte = "8 word"

record cobalt_shm_header =
  sh_magic :: nat
  sh_version :: nat
  sh_mode :: nat
  sh_total_shm_size :: nat
  sh_capacity :: nat
  sh_slot_size :: nat
  sh_creator_pid :: nat
  sh_heartbeat :: nat
  sh_write_cursor :: nat
  sh_read_cursor :: nat
  sh_channel_state :: nat
  sh_waiting_readers :: nat
  sh_waiting_writers :: nat

abbreviation (input) COBALT_SHM_MAGIC :: nat where
  "COBALT_SHM_MAGIC \<equiv> 0x434F425F53484D31"

abbreviation (input) COBALT_SHM_VERSION :: nat where
  "COBALT_SHM_VERSION \<equiv> 1"

abbreviation (input) COBALT_SHM_MODE_SPSC :: nat where
  "COBALT_SHM_MODE_SPSC \<equiv> 1"

abbreviation (input) COBALT_SHM_MODE_MPMC :: nat where
  "COBALT_SHM_MODE_MPMC \<equiv> 2"

abbreviation (input) COBALT_SHM_FRAME_NORMAL :: nat where
  "COBALT_SHM_FRAME_NORMAL \<equiv> 0"

abbreviation (input) COBALT_SHM_FRAME_WRAP :: nat where
  "COBALT_SHM_FRAME_WRAP \<equiv> 1"

abbreviation (input) COBALT_SHM_ALIGN :: nat where
  "COBALT_SHM_ALIGN \<equiv> 8"

abbreviation (input) SIZEOF_SHM_HEADER :: nat where
  "SIZEOF_SHM_HEADER \<equiv> 320"

abbreviation (input) SIZEOF_SHM_FRAME :: nat where
  "SIZEOF_SHM_FRAME \<equiv> 8"

abbreviation (input) SIZEOF_MPMC_SLOT :: nat where
  "SIZEOF_MPMC_SLOT \<equiv> 16"

definition shm_init_header :: "nat \<Rightarrow> nat \<Rightarrow> nat \<Rightarrow> nat \<Rightarrow> nat \<Rightarrow> cobalt_shm_header" where
  "shm_init_header mode total_size capacity slot_size pid =
     \<lparr>sh_magic = COBALT_SHM_MAGIC, sh_version = COBALT_SHM_VERSION, sh_mode = mode, sh_total_shm_size = total_size,
      sh_capacity = capacity, sh_slot_size = slot_size, sh_creator_pid = pid, sh_heartbeat = 0, sh_write_cursor = 0,
      sh_read_cursor = 0, sh_channel_state = 0, sh_waiting_readers = 0, sh_waiting_writers = 0\<rparr>"

subsection \<open>Bytes and frame headers\<close>

fun le_bytes :: "nat \<Rightarrow> nat \<Rightarrow> shm_byte list" where
  "le_bytes 0 n = []"
| "le_bytes (Suc k) n = of_nat n # le_bytes k (n div 256)"

fun le_nat :: "shm_byte list \<Rightarrow> nat" where
  "le_nat [] = 0"
| "le_nat (b # bs) = unat b + 256 * le_nat bs"

definition mem_read :: "nat \<Rightarrow> nat \<Rightarrow> shm_byte list \<Rightarrow> shm_byte list option" where
  "mem_read off n buf = (if off + n \<le> length buf then Some (take n (drop off buf)) else None)"

definition mem_write :: "nat \<Rightarrow> shm_byte list \<Rightarrow> shm_byte list \<Rightarrow> shm_byte list option" where
  "mem_write off bs buf =
     (if off + length bs \<le> length buf then Some (take off buf @ bs @ drop (off + length bs) buf) else None)"

record cobalt_shm_frame =
  fr_length :: nat
  fr_type :: nat
  fr_flags :: nat

definition frame_store :: "nat \<Rightarrow> cobalt_shm_frame \<Rightarrow> shm_byte list \<Rightarrow> shm_byte list option" where
  "frame_store off f = mem_write off (le_bytes 4 (fr_length f) @ le_bytes 2 (fr_type f) @ le_bytes 2 (fr_flags f))"

definition frame_load :: "nat \<Rightarrow> shm_byte list \<Rightarrow> cobalt_shm_frame option" where
  "frame_load off buf = map_option (\<lambda>bs. \<lparr>fr_length = le_nat (take 4 bs), fr_type = le_nat (take 2 (drop 4 bs)),
     fr_flags = le_nat (drop 6 bs)\<rparr>) (mem_read off SIZEOF_SHM_FRAME buf)"

subsection \<open>Single producer, single consumer\<close>

record shm_region =
  rg_header :: cobalt_shm_header
  rg_buffer :: "shm_byte list"

record cobalt_shm_spsc =
  sp_capacity :: nat
  sp_mask :: nat
  sp_reserved_len :: nat
  sp_reserved_write_pos :: nat
  sp_is_reserved :: bool
  sp_peeked_frame_len :: nat
  sp_is_peeked :: bool

definition spsc_handle :: "nat \<Rightarrow> cobalt_shm_spsc" where
  "spsc_handle capacity =
     \<lparr>sp_capacity = capacity, sp_mask = capacity - 1, sp_reserved_len = 0, sp_reserved_write_pos = 0,
      sp_is_reserved = False, sp_peeked_frame_len = 0, sp_is_peeked = False\<rparr>"

text \<open>\<open>addr\<close> is the address of the region (\<open>None\<close> for NULL), \<open>mem\<close> the bytes behind the header.\<close>

definition cobalt_shm_spsc_init ::
    "bool \<Rightarrow> nat \<Rightarrow> nat option \<Rightarrow> bool \<Rightarrow> nat \<Rightarrow> nat \<Rightarrow> shm_region \<Rightarrow> cobalt_error \<times> cobalt_shm_spsc option \<times> shm_region" where
  "cobalt_shm_spsc_init alloc pid addr out_null total_size capacity rg =
     (case addr of
        None \<Rightarrow> (COBALT_ERROR_INVALID_ARGUMENT, None, rg)
      | Some a \<Rightarrow>
          if out_null \<or> capacity = 0 \<or> capacity AND (capacity - 1) \<noteq> 0 \<or> a mod 64 \<noteq> 0
          then (COBALT_ERROR_INVALID_ARGUMENT, None, rg)
          else if total_size < szt (SIZEOF_SHM_HEADER + capacity) then (COBALT_ERROR_INVALID_ARGUMENT, None, rg)
          else if \<not> alloc then (COBALT_ERROR_OUT_OF_MEMORY, None, rg)
          else (COBALT_SUCCESS, Some (spsc_handle capacity),
                rg\<lparr>rg_header := shm_init_header COBALT_SHM_MODE_SPSC total_size capacity 0 pid\<rparr>))"

definition cobalt_shm_spsc_attach ::
    "bool \<Rightarrow> nat option \<Rightarrow> bool \<Rightarrow> nat \<Rightarrow> shm_region \<Rightarrow> cobalt_error \<times> cobalt_shm_spsc option" where
  "cobalt_shm_spsc_attach alloc addr out_null total_size rg =
     (case addr of
        None \<Rightarrow> (COBALT_ERROR_INVALID_ARGUMENT, None)
      | Some a \<Rightarrow>
          let hdr = rg_header rg in
          if out_null \<or> total_size < SIZEOF_SHM_HEADER \<or> a mod 64 \<noteq> 0 then (COBALT_ERROR_INVALID_ARGUMENT, None)
          else if sh_magic hdr \<noteq> COBALT_SHM_MAGIC \<or> sh_version hdr \<noteq> COBALT_SHM_VERSION \<or> sh_mode hdr \<noteq> COBALT_SHM_MODE_SPSC
          then (COBALT_ERROR_INVALID_ARGUMENT, None)
          else if sh_capacity hdr = 0 \<or> sh_capacity hdr AND (sh_capacity hdr - 1) \<noteq> 0 then (COBALT_ERROR_INVALID_ARGUMENT, None)
          else if total_size < szt (SIZEOF_SHM_HEADER + sh_capacity hdr) then (COBALT_ERROR_INVALID_ARGUMENT, None)
          else if \<not> alloc then (COBALT_ERROR_OUT_OF_MEMORY, None)
          else (COBALT_SUCCESS, Some (spsc_handle (sh_capacity hdr))))"

text \<open>The end of a reservation: \<open>frame_size\<close> bytes at \<open>write_pos\<close>, if they are free.\<close>

definition spsc_take ::
    "cobalt_shm_spsc \<Rightarrow> nat \<Rightarrow> nat \<Rightarrow> nat \<Rightarrow> nat \<Rightarrow> shm_region \<Rightarrow>
     (cobalt_error \<times> nat option \<times> cobalt_shm_spsc option \<times> shm_region) option" where
  "spsc_take spsc len frame_size write_pos offset rg =
     (let used = szt_sub write_pos (sh_read_cursor (rg_header rg)) in
      if sp_capacity spsc < used \<or> sp_capacity spsc - used < frame_size
      then Some (COBALT_ERROR_QUEUE_FULL, None, Some spsc, rg)
      else Some (COBALT_SUCCESS, Some (offset + SIZEOF_SHM_FRAME),
             Some (spsc\<lparr>sp_reserved_len := len, sp_reserved_write_pos := write_pos, sp_is_reserved := True\<rparr>), rg))"

definition cobalt_shm_spsc_reserve ::
    "cobalt_shm_spsc option \<Rightarrow> nat \<Rightarrow> bool \<Rightarrow> shm_region \<Rightarrow>
     (cobalt_error \<times> nat option \<times> cobalt_shm_spsc option \<times> shm_region) option" where
  "cobalt_shm_spsc_reserve sp len out_null rg =
     (case sp of
        None \<Rightarrow> Some (COBALT_ERROR_INVALID_ARGUMENT, None, sp, rg)
      | Some spsc \<Rightarrow>
          if out_null \<or> sp_is_reserved spsc then Some (COBALT_ERROR_INVALID_ARGUMENT, None, sp, rg)
          else if 4294967295 - SIZEOF_SHM_FRAME < len then Some (COBALT_ERROR_INVALID_ARGUMENT, None, sp, rg)
          else
            let frame_size = ALIGN_UP (SIZEOF_SHM_FRAME + len) COBALT_SHM_ALIGN in
            if szt_sub (sp_capacity spsc) SIZEOF_SHM_FRAME < frame_size then Some (COBALT_ERROR_INVALID_ARGUMENT, None, sp, rg)
            else
              let write_pos = sh_write_cursor (rg_header rg);
                  read_pos = sh_read_cursor (rg_header rg);
                  offset = write_pos AND sp_mask spsc;
                  tail_space = sp_capacity spsc - offset in
              if tail_space < frame_size then
                let wrapped_write_pos = szt (write_pos + tail_space);
                    used = szt_sub wrapped_write_pos read_pos in
                if sp_capacity spsc < used then Some (COBALT_ERROR_QUEUE_FULL, None, sp, rg)
                else if sp_capacity spsc - used < frame_size then Some (COBALT_ERROR_QUEUE_FULL, None, sp, rg)
                else if SIZEOF_SHM_FRAME \<le> tail_space then
                  (case frame_store offset \<lparr>fr_length = tail_space - SIZEOF_SHM_FRAME, fr_type = 0, fr_flags = COBALT_SHM_FRAME_WRAP\<rparr>
                          (rg_buffer rg) of
                     None \<Rightarrow> None
                   | Some buf \<Rightarrow> spsc_take spsc len frame_size wrapped_write_pos 0 (rg\<lparr>rg_buffer := buf\<rparr>))
                else spsc_take spsc len frame_size wrapped_write_pos 0 rg
              else spsc_take spsc len frame_size write_pos offset rg)"

definition cobalt_shm_spsc_commit ::
    "cobalt_shm_spsc option \<Rightarrow> nat \<Rightarrow> nat \<Rightarrow> shm_region \<Rightarrow> (cobalt_error \<times> cobalt_shm_spsc option \<times> shm_region) option" where
  "cobalt_shm_spsc_commit sp msg_type len rg =
     (case sp of
        None \<Rightarrow> Some (COBALT_ERROR_INVALID_ARGUMENT, sp, rg)
      | Some spsc \<Rightarrow>
          if \<not> sp_is_reserved spsc \<or> sp_reserved_len spsc < len then Some (COBALT_ERROR_INVALID_ARGUMENT, sp, rg)
          else
            let offset = sp_reserved_write_pos spsc AND sp_mask spsc in
            case frame_store offset \<lparr>fr_length = len, fr_type = msg_type, fr_flags = COBALT_SHM_FRAME_NORMAL\<rparr> (rg_buffer rg) of
              None \<Rightarrow> None
            | Some buf \<Rightarrow>
                let frame_size = ALIGN_UP (SIZEOF_SHM_FRAME + len) COBALT_SHM_ALIGN in
                Some (COBALT_SUCCESS, Some (spsc\<lparr>sp_is_reserved := False\<rparr>),
                  rg\<lparr>rg_buffer := buf,
                     rg_header := (rg_header rg)\<lparr>sh_write_cursor := szt (sp_reserved_write_pos spsc + frame_size)\<rparr>\<rparr>))"

function spsc_peek_loop ::
    "nat \<Rightarrow> cobalt_shm_spsc \<Rightarrow> shm_region \<Rightarrow>
     (cobalt_error \<times> (nat \<times> nat \<times> nat) option \<times> cobalt_shm_spsc \<times> shm_region) option" where
  "spsc_peek_loop wrap_count spsc rg =
     (let read_pos = sh_read_cursor (rg_header rg); write_pos = sh_write_cursor (rg_header rg) in
      if read_pos = write_pos then Some (COBALT_ERROR_EMPTY_CONTAINER, None, spsc, rg)
      else if write_pos < read_pos then Some (COBALT_ERROR_GENERAL, None, spsc, rg)
      else
        let offset = read_pos AND sp_mask spsc in
        case frame_load offset (rg_buffer rg) of
          None \<Rightarrow> None
        | Some frame \<Rightarrow>
            if fr_flags frame AND COBALT_SHM_FRAME_WRAP \<noteq> 0 then
              if offset = 0 \<or> 1 < wrap_count + 1 then Some (COBALT_ERROR_GENERAL, None, spsc, rg)
              else spsc_peek_loop (wrap_count + 1) spsc
                     (rg\<lparr>rg_header := (rg_header rg)\<lparr>sh_read_cursor := szt (read_pos + (sp_capacity spsc - offset))\<rparr>\<rparr>)
            else
              let unread = write_pos - read_pos;
                  frame_size = ALIGN_UP (SIZEOF_SHM_FRAME + fr_length frame) COBALT_SHM_ALIGN in
              if unread < frame_size \<or> sp_capacity spsc < offset + frame_size
              then Some (COBALT_ERROR_GENERAL, None, spsc, rg)
              else Some (COBALT_SUCCESS, Some (fr_type frame, offset + SIZEOF_SHM_FRAME, fr_length frame),
                     spsc\<lparr>sp_peeked_frame_len := frame_size, sp_is_peeked := True\<rparr>, rg))"
  by pat_completeness auto
termination
  by (relation "measure (\<lambda>(wrap_count, _). 1 - wrap_count)") auto

declare spsc_peek_loop.simps [simp del]

text \<open>The result of a successful peek: the type, the offset of the payload and its length.\<close>

definition cobalt_shm_spsc_peek ::
    "cobalt_shm_spsc option \<Rightarrow> bool \<Rightarrow> shm_region \<Rightarrow>
     (cobalt_error \<times> (nat \<times> nat \<times> nat) option \<times> cobalt_shm_spsc option \<times> shm_region) option" where
  "cobalt_shm_spsc_peek sp out_null rg =
     (case sp of
        None \<Rightarrow> Some (COBALT_ERROR_INVALID_ARGUMENT, None, sp, rg)
      | Some spsc \<Rightarrow>
          if out_null then Some (COBALT_ERROR_INVALID_ARGUMENT, None, sp, rg)
          else map_option (\<lambda>(e, out, spsc', rg'). (e, out, Some spsc', rg')) (spsc_peek_loop 0 spsc rg))"

definition cobalt_shm_spsc_consume ::
    "cobalt_shm_spsc option \<Rightarrow> shm_region \<Rightarrow> cobalt_error \<times> cobalt_shm_spsc option \<times> shm_region" where
  "cobalt_shm_spsc_consume sp rg =
     (case sp of
        None \<Rightarrow> (COBALT_ERROR_INVALID_ARGUMENT, sp, rg)
      | Some spsc \<Rightarrow>
          if \<not> sp_is_peeked spsc then (COBALT_ERROR_INVALID_ARGUMENT, sp, rg)
          else (COBALT_SUCCESS, Some (spsc\<lparr>sp_is_peeked := False\<rparr>),
            rg\<lparr>rg_header := (rg_header rg)\<lparr>sh_read_cursor := szt (sh_read_cursor (rg_header rg) + sp_peeked_frame_len spsc)\<rparr>\<rparr>))"

definition cobalt_shm_spsc_cancel :: "cobalt_shm_spsc option \<Rightarrow> cobalt_error \<times> cobalt_shm_spsc option" where
  "cobalt_shm_spsc_cancel sp =
     (case sp of
        None \<Rightarrow> (COBALT_ERROR_INVALID_ARGUMENT, sp)
      | Some spsc \<Rightarrow>
          if \<not> sp_is_reserved spsc then (COBALT_ERROR_INVALID_ARGUMENT, sp)
          else (COBALT_SUCCESS, Some (spsc\<lparr>sp_is_reserved := False\<rparr>)))"

definition cobalt_shm_spsc_get_header :: "cobalt_shm_spsc option \<Rightarrow> shm_region \<Rightarrow> cobalt_shm_header option" where
  "cobalt_shm_spsc_get_header sp rg = (case sp of None \<Rightarrow> None | Some spsc \<Rightarrow> Some (rg_header rg))"

subsection \<open>Lemmas on bytes and frames\<close>

lemma length_le_bytes [simp]: "length (le_bytes k n) = k"
  by (induction k arbitrary: n) auto

lemma le_nat_le_bytes [simp]: "le_nat (le_bytes k n) = n mod 256 ^ k"
proof (induction k arbitrary: n)
  case (Suc k)
  have "unat (of_nat n :: 8 word) = n mod 256" by (simp add: unat_of_nat)
  then show ?case using Suc by (simp add: mod_mult2_eq add.commute)
qed simp

lemma frame_load_store:
  assumes "off + 8 \<le> length buf"
  shows "\<exists>buf'. frame_store off f buf = Some buf' \<and> length buf' = length buf \<and>
    frame_load off buf' = Some \<lparr>fr_length = fr_length f mod 2 ^ 32, fr_type = fr_type f mod 2 ^ 16, fr_flags = fr_flags f mod 2 ^ 16\<rparr> \<and>
    (\<forall>i < length buf. i < off \<or> off + 8 \<le> i \<longrightarrow> buf' ! i = buf ! i)"
  using assms by (auto simp: frame_store_def frame_load_def mem_write_def mem_read_def nth_append)

lemma mem_write_ok:
  assumes "off + length bs \<le> length buf"
  shows "\<exists>buf'. mem_write off bs buf = Some buf' \<and> length buf' = length buf \<and>
    (\<forall>i < length buf. i < off \<or> off + length bs \<le> i \<longrightarrow> buf' ! i = buf ! i)"
  using assms by (auto simp: mem_write_def nth_append)

lemma mem_read_cong:
  assumes "length buf' = length buf" "\<forall>i. off \<le> i \<and> i < off + n \<longrightarrow> buf' ! i = buf ! i"
  shows "mem_read off n buf' = mem_read off n buf"
  using assms by (auto simp: mem_read_def intro!: nth_equalityI)

lemma frame_load_cong:
  assumes "length buf' = length buf" "\<forall>i. off \<le> i \<and> i < off + 8 \<longrightarrow> buf' ! i = buf ! i"
  shows "frame_load off buf' = frame_load off buf"
  using mem_read_cong [OF assms] by (simp add: frame_load_def)

lemma frame_load_bound: "frame_load off buf = Some f \<Longrightarrow> off + 8 \<le> length buf"
  by (auto simp: frame_load_def mem_read_def split: if_splits)

subsection \<open>Chains of frames\<close>

type_synonym shm_msg = "nat \<times> shm_byte list"

definition frame_size :: "nat \<Rightarrow> nat" where
  "frame_size len = ALIGN_UP (8 + len) 8"

lemma frame_size_bounds:
  assumes "len < 2 ^ 32"
  shows "8 + len \<le> frame_size len" "frame_size len < 16 + len" "8 dvd frame_size len"
  using ALIGN_UP_bounds [of 8 3 "8 + len"] assms by (simp_all add: frame_size_def)

lemma frame_size_mono: "a \<le> b \<Longrightarrow> b < 2 ^ 32 \<Longrightarrow> frame_size a \<le> frame_size b"
  using ALIGN_UP_eq [of 8 3 "8 + a"] ALIGN_UP_eq [of 8 3 "8 + b"] by (simp add: frame_size_def div_le_mono)

text \<open>A message at logical position \<open>r\<close>, a wrap marker at \<open>r\<close>, and the messages between two positions.\<close>

definition msg_at :: "shm_byte list \<Rightarrow> nat \<Rightarrow> nat \<Rightarrow> shm_msg \<Rightarrow> bool" where
  "msg_at buf cap r m \<longleftrightarrow> r mod cap + frame_size (length (snd m)) \<le> cap \<and> length (snd m) < 2 ^ 32 - 8 \<and>
     frame_load (r mod cap) buf = Some \<lparr>fr_length = length (snd m), fr_type = fst m, fr_flags = 0\<rparr> \<and>
     mem_read (r mod cap + 8) (length (snd m)) buf = Some (snd m)"

definition wrap_at :: "shm_byte list \<Rightarrow> nat \<Rightarrow> nat \<Rightarrow> bool" where
  "wrap_at buf cap r \<longleftrightarrow> r mod cap \<noteq> 0 \<and> (\<exists>f. frame_load (r mod cap) buf = Some f \<and> fr_flags f = 1)"

fun msgs_between :: "shm_byte list \<Rightarrow> nat \<Rightarrow> nat \<Rightarrow> nat \<Rightarrow> shm_msg list \<Rightarrow> bool" where
  "msgs_between buf cap r w [] \<longleftrightarrow> r = w"
| "msgs_between buf cap r w (m # ms) \<longleftrightarrow>
     (let e = r + frame_size (length (snd m)) in msg_at buf cap r m \<and> msgs_between buf cap e w ms) \<or>
     (let s = r + (cap - r mod cap); e = s + frame_size (length (snd m)) in
      wrap_at buf cap r \<and> msg_at buf cap s m \<and> msgs_between buf cap e w ms)"

definition agree :: "nat \<Rightarrow> nat \<Rightarrow> nat \<Rightarrow> shm_byte list \<Rightarrow> shm_byte list \<Rightarrow> bool" where
  "agree cap r w buf buf' \<longleftrightarrow> length buf' = length buf \<and> (\<forall>x. r \<le> x \<and> x < w \<longrightarrow> buf' ! (x mod cap) = buf ! (x mod cap))"

lemma msgs_between_le: "msgs_between buf cap r w ms \<Longrightarrow> r \<le> w"
  by (induction ms arbitrary: r) (fastforce simp: Let_def dest: add_leD1)+

lemma agree_sub: "agree cap r w buf buf' \<Longrightarrow> r \<le> r' \<Longrightarrow> w' \<le> w \<Longrightarrow> agree cap r' w' buf buf'"
  by (simp add: agree_def)

lemma agree_range:
  assumes "agree cap r w buf buf'" "r + n \<le> w" "r mod cap + n \<le> cap" "r mod cap \<le> i" "i < r mod cap + n"
  shows "buf' ! i = buf ! i"
proof -
  let ?x = "r + (i - r mod cap)"
  have "?x mod cap = (r mod cap + (i - r mod cap)) mod cap" by (simp add: mod_simps)
  then have "?x mod cap = i" using assms(3,4,5) by simp
  moreover have "r \<le> ?x \<and> ?x < w" using assms(2,4,5) by auto
  ultimately show ?thesis using assms(1) unfolding agree_def by metis
qed

lemma msg_at_agree:
  assumes "agree cap r w buf buf'" "r + frame_size (length (snd m)) \<le> w" "msg_at buf cap r m"
  shows "msg_at buf' cap r m"
proof -
  let ?n = "length (snd m)"
  have b: "8 + ?n \<le> frame_size ?n" using assms(3) frame_size_bounds(1) [of ?n] by (simp add: msg_at_def)
  have len: "length buf' = length buf" using assms(1) by (simp add: agree_def)
  have eq: "buf' ! i = buf ! i" if "r mod cap \<le> i" "i < r mod cap + (8 + ?n)" for i
    using agree_range [OF assms(1), of "8 + ?n" i] that b assms(2,3) by (simp add: msg_at_def)
  have "frame_load (r mod cap) buf' = frame_load (r mod cap) buf" using eq by (intro frame_load_cong len) simp
  moreover have "mem_read (r mod cap + 8) ?n buf' = mem_read (r mod cap + 8) ?n buf"
    using eq by (intro mem_read_cong len) simp
  ultimately show ?thesis using assms(3) by (simp add: msg_at_def)
qed

lemma wrap_at_agree:
  assumes "agree cap r w buf buf'" "r + (cap - r mod cap) \<le> w" "wrap_at buf cap r" "length buf = cap"
  shows "wrap_at buf' cap r"
proof -
  have b: "r mod cap + 8 \<le> cap" using assms(3,4) frame_load_bound [of "r mod cap" buf] by (auto simp: wrap_at_def)
  have len: "length buf' = length buf" using assms(1) by (simp add: agree_def)
  have "r + 8 \<le> w" using b assms(2) by linarith
  then have "buf' ! i = buf ! i" if "r mod cap \<le> i" "i < r mod cap + 8" for i
    using agree_range [OF assms(1) _ b that] by blast
  then have "frame_load (r mod cap) buf' = frame_load (r mod cap) buf" by (intro frame_load_cong len) simp
  then show ?thesis using assms(3) by (simp add: wrap_at_def)
qed

lemma msgs_between_agree:
  assumes "agree cap r w buf buf'" "msgs_between buf cap r w ms" "length buf = cap"
  shows "msgs_between buf' cap r w ms"
  using assms(1,2)
proof (induction ms arbitrary: r)
  case (Cons m ms)
  let ?n = "frame_size (length (snd m))" and ?s = "r + (cap - r mod cap)"
  from Cons.prems(2) consider "msg_at buf cap r m" "msgs_between buf cap (r + ?n) w ms"
    | "wrap_at buf cap r" "msg_at buf cap ?s m" "msgs_between buf cap (?s + ?n) w ms" by (auto simp: Let_def)
  then show ?case
  proof cases
    case 1
    have "r + ?n \<le> w" by (rule msgs_between_le [OF 1(2)])
    then have "msg_at buf' cap r m" "msgs_between buf' cap (r + ?n) w ms"
      using msg_at_agree [OF Cons.prems(1) _ 1(1)] Cons.IH [OF agree_sub [OF Cons.prems(1)] 1(2)] by simp_all
    then show ?thesis by (simp add: Let_def)
  next
    case 2
    have le: "?s + ?n \<le> w" by (rule msgs_between_le [OF 2(3)])
    have "agree cap ?s w buf buf'" by (rule agree_sub [OF Cons.prems(1)]) simp_all
    then have "msg_at buf' cap ?s m" by (rule msg_at_agree [OF _ le 2(2)])
    moreover have "wrap_at buf' cap r" using le by (intro wrap_at_agree [OF Cons.prems(1) _ 2(1) assms(3)]) simp
    moreover have "msgs_between buf' cap (?s + ?n) w ms" by (rule Cons.IH [OF agree_sub [OF Cons.prems(1)] 2(3)]) simp_all
    ultimately show ?thesis by (simp add: Let_def)
  qed
qed simp

lemma msgs_between_snoc:
  assumes "msgs_between buf cap r w ms"
  shows "msg_at buf cap w m \<Longrightarrow> msgs_between buf cap r (w + frame_size (length (snd m))) (ms @ [m])"
    and "wrap_at buf cap w \<Longrightarrow> msg_at buf cap (w + (cap - w mod cap)) m \<Longrightarrow>
      msgs_between buf cap r (w + (cap - w mod cap) + frame_size (length (snd m))) (ms @ [m])"
  using assms by (induction ms arbitrary: r) (auto simp: Let_def)

text \<open>A write to the free part of the ring leaves the occupied part alone.\<close>

lemma agree_free:
  assumes cap: "0 < cap" "length buf = cap" and p: "w \<le> p" "p + n \<le> r + cap" "p mod cap + n \<le> cap"
    and buf': "length buf' = length buf" "\<forall>i < length buf. i < p mod cap \<or> p mod cap + n \<le> i \<longrightarrow> buf' ! i = buf ! i"
  shows "agree cap r w buf buf'"
  unfolding agree_def
proof (intro conjI allI impI buf'(1))
  fix x
  assume x: "r \<le> x \<and> x < w"
  have "x mod cap < p mod cap \<or> p mod cap + n \<le> x mod cap"
  proof (rule ccontr)
    let ?y = "p + (x mod cap - p mod cap)"
    assume "\<not> ?thesis"
    then have y: "p mod cap \<le> x mod cap" "x mod cap - p mod cap < n" by auto
    have "?y mod cap = (p mod cap + (x mod cap - p mod cap)) mod cap" by (simp add: mod_simps)
    then have eq: "?y mod cap = x mod cap" using y(1) by simp
    have lt: "x < ?y" "?y - x < cap" using x p y(2) by linarith+
    have "cap dvd ?y - x" using eq lt(1) by (metis less_imp_le mod_eq_dvd_iff_nat)
    then show False using lt by (simp add: nat_dvd_not_less)
  qed
  moreover have "x mod cap < length buf" using cap by simp
  ultimately show "buf' ! (x mod cap) = buf ! (x mod cap)" using buf'(2) by blast
qed

subsection \<open>A producer and a consumer\<close>

text \<open>
  A producer writes the payload of its reservation through the pointer it was given; a consumer reads a
  payload through the pointer of its last peek until it consumes the frame. \<open>ss_sent\<close> records the
  messages as they are committed and \<open>ss_received\<close> the bytes behind the pointer at the
  time of each consume.
\<close>

datatype spsc_op =
    Reserve nat
  | Fill nat "shm_byte list"
  | Commit nat nat
  | Cancel
  | Peek
  | Consume

record spsc_sys =
  ss_region :: shm_region
  ss_producer :: cobalt_shm_spsc
  ss_consumer :: cobalt_shm_spsc
  ss_out_ptr :: nat
  ss_view :: "nat \<times> nat \<times> nat"
  ss_sent :: "shm_msg list"
  ss_received :: "shm_msg list"

definition sys_reserve :: "nat \<Rightarrow> spsc_sys \<Rightarrow> spsc_sys option" where
  "sys_reserve len s =
     (case cobalt_shm_spsc_reserve (Some (ss_producer s)) len False (ss_region s) of
        Some (e, out, Some p, rg) \<Rightarrow>
          Some (s\<lparr>ss_region := rg, ss_producer := p, ss_out_ptr := (case out of None \<Rightarrow> ss_out_ptr s | Some q \<Rightarrow> q)\<rparr>)
      | _ \<Rightarrow> None)"

definition sys_fill :: "nat \<Rightarrow> shm_byte list \<Rightarrow> spsc_sys \<Rightarrow> spsc_sys option" where
  "sys_fill i bs s =
     (if sp_is_reserved (ss_producer s) \<and> i + length bs \<le> sp_reserved_len (ss_producer s)
      then map_option (\<lambda>buf. s\<lparr>ss_region := (ss_region s)\<lparr>rg_buffer := buf\<rparr>\<rparr>)
             (mem_write (ss_out_ptr s + i) bs (rg_buffer (ss_region s)))
      else Some s)"

definition sys_commit :: "nat \<Rightarrow> nat \<Rightarrow> spsc_sys \<Rightarrow> spsc_sys option" where
  "sys_commit ty len s =
     (case cobalt_shm_spsc_commit (Some (ss_producer s)) ty len (ss_region s) of
        Some (e, Some p, rg) \<Rightarrow>
          if e = COBALT_SUCCESS
          then map_option (\<lambda>bs. s\<lparr>ss_region := rg, ss_producer := p, ss_sent := ss_sent s @ [(ty, bs)]\<rparr>)
                 (mem_read (ss_out_ptr s) len (rg_buffer (ss_region s)))
          else Some (s\<lparr>ss_region := rg, ss_producer := p\<rparr>)
      | _ \<Rightarrow> None)"

definition sys_cancel :: "spsc_sys \<Rightarrow> spsc_sys option" where
  "sys_cancel s = (case cobalt_shm_spsc_cancel (Some (ss_producer s)) of (e, Some p) \<Rightarrow> Some (s\<lparr>ss_producer := p\<rparr>) | _ \<Rightarrow> None)"

definition sys_peek :: "spsc_sys \<Rightarrow> spsc_sys option" where
  "sys_peek s =
     (case cobalt_shm_spsc_peek (Some (ss_consumer s)) False (ss_region s) of
        Some (e, out, Some c, rg) \<Rightarrow>
          Some (s\<lparr>ss_region := rg, ss_consumer := c, ss_view := (case out of None \<Rightarrow> ss_view s | Some v \<Rightarrow> v)\<rparr>)
      | _ \<Rightarrow> None)"

definition sys_consume :: "spsc_sys \<Rightarrow> spsc_sys option" where
  "sys_consume s =
     (case cobalt_shm_spsc_consume (Some (ss_consumer s)) (ss_region s) of
        (e, Some c, rg) \<Rightarrow>
          if e = COBALT_SUCCESS
          then (case ss_view s of (ty, ptr, len) \<Rightarrow>
                 map_option (\<lambda>bs. s\<lparr>ss_region := rg, ss_consumer := c, ss_received := ss_received s @ [(ty, bs)]\<rparr>)
                   (mem_read ptr len (rg_buffer (ss_region s))))
          else Some s
      | _ \<Rightarrow> None)"

fun spsc_step :: "spsc_op \<Rightarrow> spsc_sys \<Rightarrow> spsc_sys option" where
  "spsc_step (Reserve len) = sys_reserve len"
| "spsc_step (Fill i bs) = sys_fill i bs"
| "spsc_step (Commit ty len) = sys_commit ty len"
| "spsc_step Cancel = sys_cancel"
| "spsc_step Peek = sys_peek"
| "spsc_step Consume = sys_consume"

fun spsc_exec :: "spsc_op list \<Rightarrow> spsc_sys \<Rightarrow> spsc_sys option" where
  "spsc_exec [] s = Some s"
| "spsc_exec (oper # ops) s = (case spsc_step oper s of None \<Rightarrow> None | Some s' \<Rightarrow> spsc_exec ops s')"

text \<open>Message types have 16 bits.\<close>

fun op_typed :: "spsc_op \<Rightarrow> bool" where
  "op_typed (Commit ty len) \<longleftrightarrow> ty < 2 ^ 16"
| "op_typed oper \<longleftrightarrow> True"

definition spsc_start :: "shm_region \<Rightarrow> cobalt_shm_spsc \<Rightarrow> cobalt_shm_spsc \<Rightarrow> spsc_sys" where
  "spsc_start rg p c = \<lparr>ss_region = rg, ss_producer = p, ss_consumer = c, ss_out_ptr = 0, ss_view = (0, 0, 0), ss_sent = [], ss_received = []\<rparr>"

subsection \<open>The invariant\<close>

abbreviation "ring_w s \<equiv> sh_write_cursor (rg_header (ss_region s))"
abbreviation "ring_r s \<equiv> sh_read_cursor (rg_header (ss_region s))"
abbreviation "ring_buf s \<equiv> rg_buffer (ss_region s)"

definition ring_inv :: "nat \<Rightarrow> shm_region \<Rightarrow> shm_msg list \<Rightarrow> bool" where
  "ring_inv cap rg ms \<longleftrightarrow>
     length (rg_buffer rg) = cap \<and> 8 dvd sh_write_cursor (rg_header rg) \<and>
     sh_write_cursor (rg_header rg) \<le> sh_read_cursor (rg_header rg) + cap \<and>
     msgs_between (rg_buffer rg) cap (sh_read_cursor (rg_header rg)) (sh_write_cursor (rg_header rg)) ms"

definition reserved_inv :: "nat \<Rightarrow> shm_region \<Rightarrow> cobalt_shm_spsc \<Rightarrow> nat \<Rightarrow> bool" where
  "reserved_inv cap rg p out \<longleftrightarrow>
     sp_capacity p = cap \<and> sp_mask p = cap - 1 \<and>
     (sp_is_reserved p \<longrightarrow>
        (let w = sh_write_cursor (rg_header rg); q = sp_reserved_write_pos p; n = frame_size (sp_reserved_len p) in
         (q = w \<or> q = w + (cap - w mod cap) \<and> wrap_at (rg_buffer rg) cap w) \<and> out = q mod cap + 8 \<and>
         sp_reserved_len p < 2 ^ 32 - 8 \<and> q mod cap + n \<le> cap \<and> q + n \<le> sh_read_cursor (rg_header rg) + cap))"

definition peeked_inv :: "nat \<Rightarrow> shm_region \<Rightarrow> cobalt_shm_spsc \<Rightarrow> nat \<times> nat \<times> nat \<Rightarrow> shm_msg list \<Rightarrow> bool" where
  "peeked_inv cap rg c v ms \<longleftrightarrow>
     sp_capacity c = cap \<and> sp_mask c = cap - 1 \<and>
     (sp_is_peeked c \<longrightarrow> (\<exists>m ms'. ms = m # ms' \<and> msg_at (rg_buffer rg) cap (sh_read_cursor (rg_header rg)) m \<and>
        v = (fst m, sh_read_cursor (rg_header rg) mod cap + 8, length (snd m)) \<and>
        msgs_between (rg_buffer rg) cap (sh_read_cursor (rg_header rg) + sp_peeked_frame_len c) (sh_write_cursor (rg_header rg)) ms' \<and>
        sp_peeked_frame_len c = frame_size (length (snd m))))"

definition spsc_inv :: "nat \<Rightarrow> shm_msg list \<Rightarrow> spsc_sys \<Rightarrow> bool" where
  "spsc_inv cap ms s \<longleftrightarrow>
     ring_inv cap (ss_region s) ms \<and> reserved_inv cap (ss_region s) (ss_producer s) (ss_out_ptr s) \<and>
     peeked_inv cap (ss_region s) (ss_consumer s) (ss_view s) ms \<and> ss_sent s = ss_received s @ ms"

lemma spsc_invI:
  assumes "ring_inv cap (ss_region s) ms" "reserved_inv cap (ss_region s) (ss_producer s) (ss_out_ptr s)"
    "peeked_inv cap (ss_region s) (ss_consumer s) (ss_view s) ms" "ss_sent s = ss_received s @ ms"
  shows "spsc_inv cap ms s"
  using assms by (simp add: spsc_inv_def)

lemma spsc_invD:
  assumes "spsc_inv cap ms s"
  shows "ring_inv cap (ss_region s) ms" "reserved_inv cap (ss_region s) (ss_producer s) (ss_out_ptr s)"
    "peeked_inv cap (ss_region s) (ss_consumer s) (ss_view s) ms" "ss_sent s = ss_received s @ ms"
  using assms by (simp_all add: spsc_inv_def)

text \<open>A change of bytes in the free part keeps the ring and the peeked frame.\<close>

lemma ring_inv_agree:
  assumes "ring_inv cap rg ms" "agree cap (sh_read_cursor (rg_header rg)) (sh_write_cursor (rg_header rg)) (rg_buffer rg) buf"
  shows "ring_inv cap (rg\<lparr>rg_buffer := buf\<rparr>) ms"
  using assms msgs_between_agree [OF assms(2), of ms] by (simp add: ring_inv_def) (simp add: agree_def)

lemma peeked_inv_agree:
  assumes "peeked_inv cap rg c v ms" "agree cap (sh_read_cursor (rg_header rg)) (sh_write_cursor (rg_header rg)) (rg_buffer rg) buf"
    "length (rg_buffer rg) = cap"
  shows "peeked_inv cap (rg\<lparr>rg_buffer := buf\<rparr>) c v ms"
proof (cases "sp_is_peeked c")
  case True
  let ?r = "sh_read_cursor (rg_header rg)"
  from assms(1) True obtain m ms' where m: "ms = m # ms'" "msg_at (rg_buffer rg) cap ?r m"
      "v = (fst m, ?r mod cap + 8, length (snd m))" "sp_peeked_frame_len c = frame_size (length (snd m))"
      "msgs_between (rg_buffer rg) cap (?r + frame_size (length (snd m))) (sh_write_cursor (rg_header rg)) ms'"
    unfolding peeked_inv_def by auto
  have "msg_at buf cap ?r m" by (rule msg_at_agree [OF assms(2) msgs_between_le [OF m(5)] m(2)])
  moreover have "msgs_between buf cap (?r + frame_size (length (snd m))) (sh_write_cursor (rg_header rg)) ms'"
    by (rule msgs_between_agree [OF agree_sub [OF assms(2)] m(5) assms(3)]) simp_all
  ultimately show ?thesis using assms(1) m(1,3,4) by (simp add: peeked_inv_def)
next
  case False
  then show ?thesis using assms(1) by (simp add: peeked_inv_def)
qed

lemma spsc_take_inv:
  assumes p: "sp_capacity p = cap" "sp_mask p = cap - 1" "\<not> sp_is_reserved p" and len: "len < 2 ^ 32 - 8"
    and q: "q = sh_write_cursor (rg_header rg) \<or>
      q = sh_write_cursor (rg_header rg) + (cap - sh_write_cursor (rg_header rg) mod cap) \<and>
      wrap_at (rg_buffer rg) cap (sh_write_cursor (rg_header rg))"
    and le: "sh_read_cursor (rg_header rg) \<le> q" "q mod cap + frame_size len \<le> cap" and off: "off = q mod cap"
  shows "\<exists>e out p'. spsc_take p len (frame_size len) q off rg = Some (e, out, Some p', rg) \<and>
    reserved_inv cap rg p' (case out of None \<Rightarrow> out0 | Some x \<Rightarrow> x)"
proof (cases "cap < q - sh_read_cursor (rg_header rg) \<or> cap - (q - sh_read_cursor (rg_header rg)) < frame_size len")
  case True
  then have "spsc_take p len (frame_size len) q off rg = Some (COBALT_ERROR_QUEUE_FULL, None, Some p, rg)"
    using p le(1) by (simp add: spsc_take_def)
  moreover have "reserved_inv cap rg p out0" using p by (simp add: reserved_inv_def)
  ultimately show ?thesis by force
next
  case False
  let ?p = "p\<lparr>sp_reserved_len := len, sp_reserved_write_pos := q, sp_is_reserved := True\<rparr>"
  have "spsc_take p len (frame_size len) q off rg = Some (COBALT_SUCCESS, Some (off + 8), Some ?p, rg)"
    using False p le(1) by (simp add: spsc_take_def)
  moreover have "reserved_inv cap rg ?p (off + 8)"
    using p q le len off False by (simp add: reserved_inv_def Let_def) linarith
  ultimately show ?thesis by force
qed

lemma wrap_mod: "(w + (cap - w mod cap)) mod cap = 0" if "0 < cap" for w cap :: nat
proof -
  have "w mod cap \<le> cap" using that by (simp add: less_imp_le)
  then have "w + (cap - w mod cap) = w - w mod cap + cap" by (simp add: mod_less_eq_dividend)
  then show ?thesis by (simp add: minus_mod_eq_mult_div)
qed

text \<open>The bytes between the write cursor and the end of the buffer, when they are passed over.\<close>

lemma wrap_store:
  assumes ring: "ring_inv cap rg ms" and cap: "8 dvd cap" "0 < cap" "cap < 2 ^ 64"
    and w: "w = sh_write_cursor (rg_header rg)" "w mod cap \<noteq> 0" and room: "w + (cap - w mod cap) \<le> sh_read_cursor (rg_header rg) + cap"
  shows "8 \<le> cap - w mod cap"
    and "\<exists>buf. frame_store (w mod cap) \<lparr>fr_length = cap - w mod cap - 8, fr_type = 0, fr_flags = 1\<rparr> (rg_buffer rg) = Some buf \<and>
      agree cap (sh_read_cursor (rg_header rg)) w (rg_buffer rg) buf \<and> wrap_at buf cap w"
proof -
  have "8 dvd w mod cap" using ring cap(1) w(1) by (simp add: ring_inv_def dvd_mod)
  then have "8 dvd cap - w mod cap" using cap(1) by (simp add: dvd_diff_nat)
  moreover have "0 < cap - w mod cap" using cap(2) by simp
  ultimately show tail: "8 \<le> cap - w mod cap" by (rule dvd_imp_le)
  let ?f = "\<lparr>fr_length = cap - w mod cap - 8, fr_type = 0, fr_flags = 1\<rparr>"
  have len: "length (rg_buffer rg) = cap" using ring by (simp add: ring_inv_def)
  from tail len have "w mod cap + 8 \<le> length (rg_buffer rg)" by linarith
  from frame_load_store [OF this, of ?f] obtain buf where buf: "frame_store (w mod cap) ?f (rg_buffer rg) = Some buf"
      "length buf = length (rg_buffer rg)" "\<exists>f. frame_load (w mod cap) buf = Some f \<and> fr_flags f = 1"
      "\<forall>i < length (rg_buffer rg). i < w mod cap \<or> w mod cap + 8 \<le> i \<longrightarrow> buf ! i = rg_buffer rg ! i" by auto
  have "agree cap (sh_read_cursor (rg_header rg)) w (rg_buffer rg) buf"
    by (rule agree_free [OF cap(2) len _ _ _ buf(2,4)]) (use tail room in linarith)+
  then show "\<exists>buf. frame_store (w mod cap) ?f (rg_buffer rg) = Some buf \<and>
      agree cap (sh_read_cursor (rg_header rg)) w (rg_buffer rg) buf \<and> wrap_at buf cap w"
    using buf(1,3) w(2) by (auto simp: wrap_at_def)
qed

lemma reserve_inv:
  assumes ring: "ring_inv cap rg ms" and p: "reserved_inv cap rg p out0" and peek: "peeked_inv cap rg c v ms"
    and cap: "cap = 2 ^ n" "3 \<le> n" and W: "sh_write_cursor (rg_header rg) + 2 * cap < 2 ^ 64"
  shows "\<exists>e out p' buf. cobalt_shm_spsc_reserve (Some p) len False rg = Some (e, out, Some p', rg\<lparr>rg_buffer := buf\<rparr>) \<and>
    ring_inv cap (rg\<lparr>rg_buffer := buf\<rparr>) ms \<and> peeked_inv cap (rg\<lparr>rg_buffer := buf\<rparr>) c v ms \<and>
    reserved_inv cap (rg\<lparr>rg_buffer := buf\<rparr>) p' (case out of None \<Rightarrow> out0 | Some x \<Rightarrow> x)" (is "\<exists>e out p' buf. ?P e out p' buf")
proof -
  let ?w = "sh_write_cursor (rg_header rg)" and ?r = "sh_read_cursor (rg_header rg)"
  let ?t = "cap - ?w mod cap" and ?fs = "ALIGN_UP (8 + len) 8"
  have hp: "sp_capacity p = cap" "sp_mask p = cap - 1" using p by (simp_all add: reserved_inv_def)
  have off: "?w AND (cap - Suc 0) = ?w mod cap" using and_mask_nat [of ?w n] cap(1) by simp
  have c8: "8 dvd cap" using cap by (simp add: le_imp_power_dvd [of 3 n "2::nat", simplified])
  have c0: "0 < cap" "cap < 2 ^ 64" using cap W by simp_all
  have rw: "?r \<le> ?w" using ring msgs_between_le by (auto simp: ring_inv_def)
  have len: "length (rg_buffer rg) = cap" using ring by (simp add: ring_inv_def)
  have same: "?P e None p (rg_buffer rg)" if "cobalt_shm_spsc_reserve (Some p) len False rg = Some (e, None, Some p, rg)" for e
    using that ring p peek by simp
  have szw: "szt (?w + ?t) = ?w + ?t" "szt_sub (?w + ?t) ?r = ?w + ?t - ?r" using W rw by simp_all
  note E = cobalt_shm_spsc_reserve_def hp off Let_def szw option.case if_False de_Morgan_disj
  show ?thesis
  proof (cases "sp_is_reserved p \<or> 4294967287 < len \<or> szt_sub cap 8 < ?fs \<or>
      ?t < ?fs \<and> (cap < ?w + ?t - ?r \<or> cap - (?w + ?t - ?r) < ?fs)")
    case True
    then have "\<exists>e. cobalt_shm_spsc_reserve (Some p) len False rg = Some (e, None, Some p, rg)"
      by (elim disjE conjE) (simp_all add: E)
    then show ?thesis using same by blast
  next
    case False
    then have np: "\<not> sp_is_reserved p" and l: "len < 2 ^ 32 - 8" and room: "?fs \<le> cap - 8" 
      and wr: "?t < ?fs \<Longrightarrow> ?w + ?t \<le> ?r + cap" using c8 c0(1) rw by (auto simp: dvd_imp_le)
    have c8': "8 \<le> cap" using c8 c0(1) by (rule dvd_imp_le)
    have fs: "?fs = frame_size len" by (simp add: frame_size_def)
    show ?thesis
    proof (cases "?t < ?fs")
      case True
      then have w0: "?w mod cap \<noteq> 0" using room c8' by linarith
      from wrap_store [OF ring c8 c0 refl w0 wr [OF True]] obtain buf where t8: "8 \<le> ?t"
        and buf: "frame_store (?w mod cap) \<lparr>fr_length = ?t - 8, fr_type = 0, fr_flags = 1\<rparr> (rg_buffer rg) = Some buf"
          "agree cap ?r ?w (rg_buffer rg) buf" "wrap_at buf cap ?w" by blast
      have eq: "cobalt_shm_spsc_reserve (Some p) len False rg = spsc_take p len (frame_size len) (?w + ?t) 0 (rg\<lparr>rg_buffer := buf\<rparr>)"
        using False True t8 buf(1) by (simp add: E fs del: Nat.add_diff_assoc Nat.add_diff_assoc2)
      have "\<exists>e out p'. spsc_take p len (frame_size len) (?w + ?t) 0 (rg\<lparr>rg_buffer := buf\<rparr>) =
          Some (e, out, Some p', rg\<lparr>rg_buffer := buf\<rparr>) \<and>
          reserved_inv cap (rg\<lparr>rg_buffer := buf\<rparr>) p' (case out of None \<Rightarrow> out0 | Some x \<Rightarrow> x)"
        by (rule spsc_take_inv [OF hp np l]) (use buf(3) rw room fs wrap_mod [OF c0(1), of ?w] in auto)
      then show ?thesis using eq ring_inv_agree [OF ring buf(2)] peeked_inv_agree [OF peek buf(2) len] by auto
    next
      case False': False
      have eq: "cobalt_shm_spsc_reserve (Some p) len False rg = spsc_take p len (frame_size len) ?w (?w mod cap) rg"
        using False False' by (simp add: E fs)
      have "?w mod cap < cap" using c0(1) by simp
      then have "?w mod cap + frame_size len \<le> cap" using False' fs by linarith
      then have "\<exists>e out p'. spsc_take p len (frame_size len) ?w (?w mod cap) rg = Some (e, out, Some p', rg) \<and>
          reserved_inv cap rg p' (case out of None \<Rightarrow> out0 | Some x \<Rightarrow> x)"
        by (intro spsc_take_inv [OF hp np l]) (use rw in auto)
      then obtain e out p' where "?P e out p' (rg_buffer rg)" using eq ring peek by auto
      then show ?thesis by blast
    qed
  qed
qed

text \<open>What a producer with a reservation may change: bytes of the reserved frame only.\<close>

lemma reserved_agree:
  assumes p: "reserved_inv cap rg p out" "sp_is_reserved p" and len: "length (rg_buffer rg) = cap" "0 < cap"
    and buf: "length buf = length (rg_buffer rg)" "a = sp_reserved_write_pos p mod cap" 
      "\<forall>i < length (rg_buffer rg). i < a \<or> a + frame_size (sp_reserved_len p) \<le> i \<longrightarrow> buf ! i = rg_buffer rg ! i"
  shows "agree cap (sh_read_cursor (rg_header rg)) (sp_reserved_write_pos p) (rg_buffer rg) buf"
  using p by (intro agree_free [OF len(2,1) _ _ _ buf(1,3) [unfolded buf(2)]]) (simp_all add: reserved_inv_def Let_def)

lemma reserved_pos:
  assumes "reserved_inv cap rg p out" "sp_is_reserved p"
    and "agree cap (sh_read_cursor (rg_header rg)) (sp_reserved_write_pos p) (rg_buffer rg) buf"
    and "length (rg_buffer rg) = cap" "sh_read_cursor (rg_header rg) \<le> sh_write_cursor (rg_header rg)"
  shows "sp_reserved_write_pos p = sh_write_cursor (rg_header rg) \<or>
    sp_reserved_write_pos p = sh_write_cursor (rg_header rg) + (cap - sh_write_cursor (rg_header rg) mod cap) \<and>
    wrap_at buf cap (sh_write_cursor (rg_header rg))"
    and "sh_write_cursor (rg_header rg) \<le> sp_reserved_write_pos p"
proof -
  let ?w = "sh_write_cursor (rg_header rg)" and ?q = "sp_reserved_write_pos p"
  let ?t = "cap - ?w mod cap"
  have q: "?q = ?w \<or> ?q = ?w + ?t \<and> wrap_at (rg_buffer rg) cap ?w"
    using assms(1,2) by (simp add: reserved_inv_def Let_def)
  then show le: "?w \<le> ?q" by auto
  have "wrap_at buf cap ?w" if "?q = ?w + ?t" "wrap_at (rg_buffer rg) cap ?w"
    using wrap_at_agree [OF agree_sub [OF assms(3,5) order_refl] _ that(2) assms(4)] that(1) by simp
  then show "?q = ?w \<or> ?q = ?w + ?t \<and> wrap_at buf cap ?w" using q by blast
qed

lemma ring_inv_le: "ring_inv cap rg ms \<Longrightarrow> sh_read_cursor (rg_header rg) \<le> sh_write_cursor (rg_header rg)"
  using msgs_between_le by (auto simp: ring_inv_def)

lemma fill_inv:
  assumes inv: "spsc_inv cap ms s" and cap: "0 < cap"
  shows "\<exists>s'. sys_fill i bs s = Some s' \<and> spsc_inv cap ms s' \<and> ring_w s' = ring_w s"
proof (cases "sp_is_reserved (ss_producer s) \<and> i + length bs \<le> sp_reserved_len (ss_producer s)")
  case True
  note I = spsc_invD [OF inv]
  let ?p = "ss_producer s" and ?buf = "ring_buf s"
  let ?q = "sp_reserved_write_pos ?p" and ?n = "frame_size (sp_reserved_len ?p)"
  have len: "length ?buf = cap" using I(1) by (simp add: ring_inv_def)
  have q: "ss_out_ptr s = ?q mod cap + 8" "?q mod cap + ?n \<le> cap" "sp_reserved_len ?p < 2 ^ 32 - 8"
    using I(2) True by (simp_all add: reserved_inv_def Let_def)
  have n: "8 + sp_reserved_len ?p \<le> ?n" using frame_size_bounds(1) q(3) by simp
  have "ss_out_ptr s + i + length bs \<le> length ?buf" using q(1,2) n True len by linarith
  from mem_write_ok [OF this] obtain buf where buf: "mem_write (ss_out_ptr s + i) bs ?buf = Some buf" "length buf = length ?buf"
      "\<forall>j < length ?buf. j < ss_out_ptr s + i \<or> ss_out_ptr s + i + length bs \<le> j \<longrightarrow> buf ! j = ?buf ! j" by blast
  have out: "\<forall>j < length ?buf. j < ?q mod cap \<or> ?q mod cap + ?n \<le> j \<longrightarrow> buf ! j = ?buf ! j"
  proof (intro allI impI)
    fix j
    assume "j < length ?buf" "j < ?q mod cap \<or> ?q mod cap + ?n \<le> j"
    moreover have "j < ss_out_ptr s + i \<or> ss_out_ptr s + i + length bs \<le> j"
      using calculation(2) q(1) n True by linarith
    ultimately show "buf ! j = ?buf ! j" using buf(3) by blast
  qed
  have ag: "agree cap (ring_r s) ?q ?buf buf"
    by (rule reserved_agree [OF I(2) _ len cap buf(2) refl out]) (use True in blast)
  note pos = reserved_pos [OF I(2) _ ag len ring_inv_le [OF I(1)]]
  have ag': "agree cap (ring_r s) (ring_w s) ?buf buf" using pos(2) True by (intro agree_sub [OF ag]) simp_all
  have "spsc_inv cap ms (s\<lparr>ss_region := (ss_region s)\<lparr>rg_buffer := buf\<rparr>\<rparr>)"
  proof (rule spsc_invI)
    show "reserved_inv cap (ss_region (s\<lparr>ss_region := (ss_region s)\<lparr>rg_buffer := buf\<rparr>\<rparr>)) (ss_producer (s\<lparr>ss_region := (ss_region s)\<lparr>rg_buffer := buf\<rparr>\<rparr>))
      (ss_out_ptr (s\<lparr>ss_region := (ss_region s)\<lparr>rg_buffer := buf\<rparr>\<rparr>))" using I(2) pos(1) True by (simp add: reserved_inv_def Let_def)
  qed (use ring_inv_agree [OF I(1) ag'] peeked_inv_agree [OF I(3) ag' len] I(4) in simp_all)
  then show ?thesis using True buf(1) by (simp add: sys_fill_def)
next
  case False
  then show ?thesis using inv by (auto simp: sys_fill_def)
qed

lemma cancel_inv: "spsc_inv cap ms s \<Longrightarrow> \<exists>s'. sys_cancel s = Some s' \<and> spsc_inv cap ms s' \<and> ring_w s' = ring_w s"
  by (auto simp: sys_cancel_def cobalt_shm_spsc_cancel_def spsc_inv_def reserved_inv_def)

lemma msgs_between_extend:
  assumes ms: "msgs_between buf cap r w ms" and len: "length buf = cap"
    and ag: "agree cap r w buf buf'" and q: "q = w \<or> q = w + (cap - w mod cap) \<and> wrap_at buf' cap w" and m: "msg_at buf' cap q m"
  shows "msgs_between buf' cap r (q + frame_size (length (snd m))) (ms @ [m])"
  using msgs_between_snoc [OF msgs_between_agree [OF ag ms len]] q m by metis

lemma peeked_inv_extend:
  assumes inv: "peeked_inv cap rg c v ms" and ag: "agree cap (sh_read_cursor (rg_header rg)) (sh_write_cursor (rg_header rg)) (rg_buffer rg) buf"
    and ext: "\<And>r ms'. msgs_between (rg_buffer rg) cap r (sh_write_cursor (rg_header rg)) ms' \<Longrightarrow> sh_read_cursor (rg_header rg) \<le> r \<Longrightarrow>
      msgs_between buf cap r W (ms' @ [m])"
  shows "peeked_inv cap (rg\<lparr>rg_buffer := buf, rg_header := (rg_header rg)\<lparr>sh_write_cursor := W\<rparr>\<rparr>) c v (ms @ [m])"
proof (cases "sp_is_peeked c")
  case True
  let ?r = "sh_read_cursor (rg_header rg)"
  from inv True obtain m' ms' where m': "ms = m' # ms'" "msg_at (rg_buffer rg) cap ?r m'"
      "v = (fst m', ?r mod cap + 8, length (snd m'))" "sp_peeked_frame_len c = frame_size (length (snd m'))"
      "msgs_between (rg_buffer rg) cap (?r + frame_size (length (snd m'))) (sh_write_cursor (rg_header rg)) ms'"
    unfolding peeked_inv_def by auto
  have "msg_at buf cap ?r m'" by (rule msg_at_agree [OF ag msgs_between_le [OF m'(5)] m'(2)])
  then show ?thesis using inv m'(1,3,4) ext [OF m'(5)] by (simp add: peeked_inv_def)
next
  case False
  then show ?thesis using inv by (simp add: peeked_inv_def)
qed

lemma commit_inv:
  assumes inv: "spsc_inv cap ms s" and cap: "cap = 2 ^ n" "3 \<le> n" and W: "ring_w s + 2 * cap < 2 ^ 64" and ty: "ty < 2 ^ 16"
  shows "\<exists>s' ms'. sys_commit ty len s = Some s' \<and> spsc_inv cap ms' s' \<and> ring_w s' \<le> ring_w s + 2 * cap"
proof (cases "sp_is_reserved (ss_producer s) \<and> len \<le> sp_reserved_len (ss_producer s)")
  case True
  note I = spsc_invD [OF inv]
  let ?p = "ss_producer s" and ?buf = "ring_buf s" and ?f = "\<lparr>fr_length = len, fr_type = ty, fr_flags = 0\<rparr>"
  let ?q = "sp_reserved_write_pos ?p" and ?n = "frame_size (sp_reserved_len ?p)"
  have len: "length ?buf = cap" using I(1) by (simp add: ring_inv_def)
  have c8: "8 dvd cap" using cap by (simp add: le_imp_power_dvd [of 3 n "2::nat", simplified])
  have c0: "0 < cap" using cap by simp
  have q: "sp_mask ?p = cap - 1" "ss_out_ptr s = ?q mod cap + 8" "?q mod cap + ?n \<le> cap" "sp_reserved_len ?p < 2 ^ 32 - 8"
      "?q + ?n \<le> ring_r s + cap" using I(2) True by (simp_all add: reserved_inv_def Let_def)
  have off: "?q AND (cap - Suc 0) = ?q mod cap" using and_mask_nat [of ?q n] cap(1) by simp
  have n: "8 + len \<le> frame_size len" "frame_size len \<le> ?n" "8 dvd frame_size len" "8 \<le> ?n"
    using frame_size_bounds [of len] frame_size_mono [of len "sp_reserved_len ?p"] frame_size_bounds(1) [of "sp_reserved_len ?p"] q(4) True by auto
  have "?q mod cap + 8 \<le> length ?buf" using q(3) n len by linarith
  from frame_load_store [OF this, of ?f] obtain buf where buf: "frame_store (?q mod cap) ?f ?buf = Some buf" "length buf = length ?buf"
      "frame_load (?q mod cap) buf = Some ?f" "\<forall>i < length ?buf. i < ?q mod cap \<or> ?q mod cap + 8 \<le> i \<longrightarrow> buf ! i = ?buf ! i"
    using q(4) True ty by auto
  have ag: "agree cap (ring_r s) ?q ?buf buf"
    by (rule reserved_agree [OF I(2) _ len c0 buf(2) refl]) (use True buf(4) n(4) in auto)
  note pos = reserved_pos [OF I(2) _ ag len ring_inv_le [OF I(1)]]
  have wq: "ring_w s \<le> ?q" "?q \<le> ring_w s + cap" using pos True by auto
  have "8 dvd ring_w s mod cap" using I(1) c8 by (simp add: ring_inv_def dvd_mod)
  then have q8: "8 dvd ?q" using pos(1) True I(1) c8 by (auto simp: ring_inv_def intro!: dvd_add dvd_diff_nat)
  obtain bs where bs: "mem_read (ss_out_ptr s) len ?buf = Some bs" "length bs = len"
    using q(2,3) n len by (auto simp: mem_read_def)
  have "mem_read (?q mod cap + 8) len buf = Some bs"
    using mem_read_cong [OF buf(2), of "?q mod cap + 8" len] buf(4) bs(1) q(2,3) n len by simp
  then have m: "msg_at buf cap ?q (ty, bs)" using buf(3) bs(2) q(3,4) n True by (simp add: msg_at_def)
  let ?W = "?q + frame_size len"
  have ext: "msgs_between buf cap r ?W (ms'' @ [(ty, bs)])" if "msgs_between ?buf cap r (ring_w s) ms''" "ring_r s \<le> r" for r ms''
    using msgs_between_extend [OF that(1) len _ pos(1) m] agree_sub [OF ag that(2) wq(1)] True bs(2) by simp
  have Wb: "?W \<le> ring_r s + cap" "?W \<le> ring_w s + 2 * cap" using n(2) q(3,5) wq by linarith+
  let ?rg = "(ss_region s)\<lparr>rg_buffer := buf, rg_header := (rg_header (ss_region s))\<lparr>sh_write_cursor := ?W\<rparr>\<rparr>"
  let ?s = "s\<lparr>ss_region := ?rg, ss_producer := ?p\<lparr>sp_is_reserved := False\<rparr>, ss_sent := ss_sent s @ [(ty, bs)]\<rparr>"
  have "szt ?W = ?W" using Wb W by simp
  then have st: "sys_commit ty len s = Some ?s"
    using True buf(1) bs(1) q(1) off by (simp add: sys_commit_def cobalt_shm_spsc_commit_def Let_def frame_size_def)
  have "spsc_inv cap (ms @ [(ty, bs)]) ?s"
  proof (rule spsc_invI)
    show "ring_inv cap (ss_region ?s) (ms @ [(ty, bs)])"
      using ext [of "ring_r s" ms] I(1) Wb buf(2) q8 n(3) by (simp add: ring_inv_def)
    show "reserved_inv cap (ss_region ?s) (ss_producer ?s) (ss_out_ptr ?s)" using I(2) by (simp add: reserved_inv_def)
    show "peeked_inv cap (ss_region ?s) (ss_consumer ?s) (ss_view ?s) (ms @ [(ty, bs)])"
      using peeked_inv_extend [OF I(3) agree_sub [OF ag order_refl wq(1)] ext] by simp
  qed (use I(4) in simp)
  then show ?thesis using st Wb by auto
next
  case False
  then show ?thesis using inv by (auto simp: sys_commit_def cobalt_shm_spsc_commit_def)
qed

lemma and_pred_pow2: "n \<noteq> 0 \<Longrightarrow> n AND (n - 1) = 0 \<Longrightarrow> \<exists>k. n = 2 ^ k" for n :: nat
proof (induction n rule: less_induct)
  case (less n)
  show ?case
  proof (cases "even n")
    case True
    then obtain m where m: "n = 2 * m" by (elim evenE)
    then obtain j where j: "m = Suc j" using less.prems(1) by (cases m) auto
    have "n AND (n - 1) = 2 * (m AND (m - 1))" using and_nat_rec [of n "n - 1"] m j by simp
    then have "\<exists>k. m = 2 ^ k" using less.prems(2) less.IH [of m] m j by simp
    then obtain k where "m = 2 ^ k" by blast
    then have "n = 2 ^ Suc k" using m by simp
    then show ?thesis by blast
  next
    case False
    then obtain m where m: "n = 2 * m + 1" by (elim oddE)
    have "n AND (n - 1) = 2 * m" using and_nat_rec [of n "n - 1"] m by simp
    then have "n = 2 ^ 0" using less.prems(2) m by simp
    then show ?thesis by blast
  qed
qed

lemma reserve_keeps:
  assumes inv: "spsc_inv cap ms s" and cap: "cap = 2 ^ n" "3 \<le> n" and W: "ring_w s + 2 * cap < 2 ^ 64"
  shows "\<exists>s'. sys_reserve len s = Some s' \<and> spsc_inv cap ms s' \<and> ring_w s' = ring_w s"
proof -
  note I = spsc_invD [OF inv]
  from reserve_inv [OF I(1,2,3) cap W, of len] obtain e out p' buf where r:
      "cobalt_shm_spsc_reserve (Some (ss_producer s)) len False (ss_region s) = Some (e, out, Some p', (ss_region s)\<lparr>rg_buffer := buf\<rparr>)"
      "ring_inv cap ((ss_region s)\<lparr>rg_buffer := buf\<rparr>) ms" "peeked_inv cap ((ss_region s)\<lparr>rg_buffer := buf\<rparr>) (ss_consumer s) (ss_view s) ms"
      "reserved_inv cap ((ss_region s)\<lparr>rg_buffer := buf\<rparr>) p' (case out of None \<Rightarrow> ss_out_ptr s | Some x \<Rightarrow> x)" by blast
  show ?thesis unfolding sys_reserve_def r(1) using r(2,3,4) I(4) by (simp add: spsc_inv_def)
qed

text \<open>Peeking at a position that holds a message returns it.\<close>

lemma peek_loop_msg:
  assumes m: "msg_at (rg_buffer rg) cap r m" and r: "r = sh_read_cursor (rg_header rg)"
    and le: "r + frame_size (length (snd m)) \<le> sh_write_cursor (rg_header rg)"
    and c: "sp_capacity c = cap" "sp_mask c = cap - 1" and cap: "cap = 2 ^ n"
  shows "spsc_peek_loop k c rg = Some (COBALT_SUCCESS, Some (fst m, r mod cap + 8, length (snd m)),
    c\<lparr>sp_peeked_frame_len := frame_size (length (snd m)), sp_is_peeked := True\<rparr>, rg)"
proof -
  have off: "r AND (cap - Suc 0) = r mod cap" using and_mask_nat [of r n] cap by simp
  have fs: "8 + length (snd m) \<le> frame_size (length (snd m))" using m frame_size_bounds(1) by (simp add: msg_at_def)
  have lt: "r < sh_write_cursor (rg_header rg)" "frame_size (length (snd m)) \<le> sh_write_cursor (rg_header rg) - r" using fs le by linarith+
  have ld: "frame_load (r mod cap) (rg_buffer rg) = Some \<lparr>fr_length = length (snd m), fr_type = fst m, fr_flags = 0\<rparr>"
    and room: "r mod cap + frame_size (length (snd m)) \<le> cap" using m by (simp_all add: msg_at_def)
  show ?thesis using off ld room lt c r unfolding frame_size_def
    by (subst spsc_peek_loop.simps) (simp add: Let_def)
qed

lemma peek_loop_wrap:
  assumes wrap: "wrap_at (rg_buffer rg) cap r" and r: "r = sh_read_cursor (rg_header rg)"
    and le: "r + (cap - r mod cap) < sh_write_cursor (rg_header rg)" "sh_write_cursor (rg_header rg) < 2 ^ 64"
    and c: "sp_capacity c = cap" "sp_mask c = cap - 1" and cap: "cap = 2 ^ n"
  shows "spsc_peek_loop 0 c rg =
    spsc_peek_loop 1 c (rg\<lparr>rg_header := (rg_header rg)\<lparr>sh_read_cursor := r + (cap - r mod cap)\<rparr>\<rparr>)"
proof -
  have off: "r AND (cap - Suc 0) = r mod cap" using and_mask_nat [of r n] cap by simp
  obtain f where f: "frame_load (r mod cap) (rg_buffer rg) = Some f" "fr_flags f = 1" "r mod cap \<noteq> 0"
    using wrap by (auto simp: wrap_at_def)
  have sz: "szt (r + (cap - r mod cap)) = r + (cap - r mod cap)" using le by simp
  have lt: "r \<noteq> sh_write_cursor (rg_header rg)" "\<not> sh_write_cursor (rg_header rg) < r" using le(1) by linarith+
  show ?thesis using off f sz lt c r
    by (subst spsc_peek_loop.simps) (simp add: Let_def del: Nat.add_diff_assoc Nat.add_diff_assoc2)
qed

lemma peek_empty:
  assumes "ring_inv cap rg []"
  shows "spsc_peek_loop k c rg = Some (COBALT_ERROR_EMPTY_CONTAINER, None, c, rg)"
  using assms by (subst spsc_peek_loop.simps) (simp add: ring_inv_def)

text \<open>A peek returns the oldest message that was sent and not consumed; the read cursor may pass a wrap marker.\<close>

lemma peek_loop_inv:
  assumes ring: "ring_inv cap rg (m # ms)" and res: "reserved_inv cap rg p out" and c: "sp_capacity c = cap" "sp_mask c = cap - 1"
    and cap: "cap = 2 ^ n" and W: "sh_write_cursor (rg_header rg) < 2 ^ 64"
  shows "\<exists>r c'. spsc_peek_loop 0 c rg = Some (COBALT_SUCCESS, Some (fst m, r mod cap + 8, length (snd m)), c',
      rg\<lparr>rg_header := (rg_header rg)\<lparr>sh_read_cursor := r\<rparr>\<rparr>) \<and> msg_at (rg_buffer rg) cap r m \<and>
    ring_inv cap (rg\<lparr>rg_header := (rg_header rg)\<lparr>sh_read_cursor := r\<rparr>\<rparr>) (m # ms) \<and>
    reserved_inv cap (rg\<lparr>rg_header := (rg_header rg)\<lparr>sh_read_cursor := r\<rparr>\<rparr>) p out \<and>
    peeked_inv cap (rg\<lparr>rg_header := (rg_header rg)\<lparr>sh_read_cursor := r\<rparr>\<rparr>) c' (fst m, r mod cap + 8, length (snd m)) (m # ms)"
proof -
  let ?r = "sh_read_cursor (rg_header rg)" and ?w = "sh_write_cursor (rg_header rg)" and ?fs = "frame_size (length (snd m))"
  let ?c = "c\<lparr>sp_peeked_frame_len := ?fs, sp_is_peeked := True\<rparr>"
  have fs: "0 < ?fs" if "msg_at (rg_buffer rg) cap r m" for r using that frame_size_bounds(1) [of "length (snd m)"] by (simp add: msg_at_def)
  have mono: "reserved_inv cap (rg\<lparr>rg_header := (rg_header rg)\<lparr>sh_read_cursor := r\<rparr>\<rparr>) p out" if "?r \<le> r" for r
    using res that by (auto simp: reserved_inv_def Let_def)
  have inv: "ring_inv cap (rg\<lparr>rg_header := (rg_header rg)\<lparr>sh_read_cursor := r\<rparr>\<rparr>) (m # ms) \<and>
      peeked_inv cap (rg\<lparr>rg_header := (rg_header rg)\<lparr>sh_read_cursor := r\<rparr>\<rparr>) ?c (fst m, r mod cap + 8, length (snd m)) (m # ms)"
    if "msg_at (rg_buffer rg) cap r m" "msgs_between (rg_buffer rg) cap (r + ?fs) ?w ms" "?r \<le> r" for r
    using that ring c by (auto simp: ring_inv_def peeked_inv_def Let_def)
  have eq: "rg\<lparr>rg_header := (rg_header rg)\<lparr>sh_read_cursor := ?r\<rparr>\<rparr> = rg" by simp
  from ring consider "msg_at (rg_buffer rg) cap ?r m" "msgs_between (rg_buffer rg) cap (?r + ?fs) ?w ms"
    | "wrap_at (rg_buffer rg) cap ?r" "msg_at (rg_buffer rg) cap (?r + (cap - ?r mod cap)) m"
      "msgs_between (rg_buffer rg) cap (?r + (cap - ?r mod cap) + ?fs) ?w ms" by (auto simp: ring_inv_def Let_def)
  then show ?thesis
  proof cases
    case 1
    have "spsc_peek_loop 0 c rg = Some (COBALT_SUCCESS, Some (fst m, ?r mod cap + 8, length (snd m)), ?c, rg)"
      by (rule peek_loop_msg [OF 1(1) refl msgs_between_le [OF 1(2)] c cap])
    then show ?thesis using inv [OF 1 order_refl] mono [OF order_refl] 1(1) eq by metis
  next
    case 2
    let ?s = "?r + (cap - ?r mod cap)"
    let ?rg = "rg\<lparr>rg_header := (rg_header rg)\<lparr>sh_read_cursor := ?s\<rparr>\<rparr>"
    have "?s < ?w" using msgs_between_le [OF 2(3)] fs [OF 2(2)] by linarith
    then have "spsc_peek_loop 0 c rg = spsc_peek_loop 1 c ?rg" by (rule peek_loop_wrap [OF 2(1) refl _ W c cap])
    also have "\<dots> = Some (COBALT_SUCCESS, Some (fst m, ?s mod cap + 8, length (snd m)), ?c, ?rg)"
      by (rule peek_loop_msg [where r = ?s]) (use 2(2) msgs_between_le [OF 2(3)] c cap in simp_all)
    finally show ?thesis using inv [OF 2(2,3) le_add1] mono [OF le_add1] 2(2) by blast
  qed
qed

lemma peek_inv:
  assumes inv: "spsc_inv cap ms s" and cap: "cap = 2 ^ n" and W: "ring_w s < 2 ^ 64"
  shows "\<exists>s'. sys_peek s = Some s' \<and> spsc_inv cap ms s' \<and> ring_w s' = ring_w s"
proof -
  note I = spsc_invD [OF inv]
  have c: "sp_capacity (ss_consumer s) = cap" "sp_mask (ss_consumer s) = cap - 1" using I(3) by (simp_all add: peeked_inv_def)
  show ?thesis
  proof (cases ms)
    case Nil
    then have "sys_peek s = Some s" using peek_empty I(1) by (simp add: sys_peek_def cobalt_shm_spsc_peek_def)
    then show ?thesis using inv by simp
  next
    case (Cons m ms')
    from peek_loop_inv [OF I(1) [unfolded Cons] I(2) c cap W] obtain r c' where
      e: "spsc_peek_loop 0 (ss_consumer s) (ss_region s) = Some (COBALT_SUCCESS, Some (fst m, r mod cap + 8, length (snd m)), c',
        (ss_region s)\<lparr>rg_header := (rg_header (ss_region s))\<lparr>sh_read_cursor := r\<rparr>\<rparr>)" and
      i: "ring_inv cap ((ss_region s)\<lparr>rg_header := (rg_header (ss_region s))\<lparr>sh_read_cursor := r\<rparr>\<rparr>) ms"
        "reserved_inv cap ((ss_region s)\<lparr>rg_header := (rg_header (ss_region s))\<lparr>sh_read_cursor := r\<rparr>\<rparr>) (ss_producer s) (ss_out_ptr s)"
        "peeked_inv cap ((ss_region s)\<lparr>rg_header := (rg_header (ss_region s))\<lparr>sh_read_cursor := r\<rparr>\<rparr>) c'
          (fst m, r mod cap + 8, length (snd m)) ms" unfolding Cons by blast
    show ?thesis using i I(4) by (simp add: sys_peek_def cobalt_shm_spsc_peek_def e spsc_inv_def)
  qed
qed

lemma consume_inv:
  assumes inv: "spsc_inv cap ms s" and W: "ring_w s < 2 ^ 64"
  shows "\<exists>s' ms'. sys_consume s = Some s' \<and> spsc_inv cap ms' s' \<and> ring_w s' = ring_w s"
proof (cases "sp_is_peeked (ss_consumer s)")
  case True
  note I = spsc_invD [OF inv]
  let ?n = "sp_peeked_frame_len (ss_consumer s)"
  from I(3) True obtain m ms' where m: "ms = m # ms'" "msg_at (ring_buf s) cap (ring_r s) m"
      "ss_view s = (fst m, ring_r s mod cap + 8, length (snd m))" "msgs_between (ring_buf s) cap (ring_r s + ?n) (ring_w s) ms'"
    unfolding peeked_inv_def by blast
  let ?rg = "(ss_region s)\<lparr>rg_header := (rg_header (ss_region s))\<lparr>sh_read_cursor := ring_r s + ?n\<rparr>\<rparr>"
  let ?s = "s\<lparr>ss_region := ?rg, ss_consumer := (ss_consumer s)\<lparr>sp_is_peeked := False\<rparr>, ss_received := ss_received s @ [m]\<rparr>"
  have le: "ring_r s + ?n \<le> ring_w s" by (rule msgs_between_le [OF m(4)])
  have sz: "szt (ring_r s + ?n) = ring_r s + ?n" using le W by simp
  have rd: "mem_read (ring_r s mod cap + 8) (length (snd m)) (ring_buf s) = Some (snd m)" using m(2) by (simp add: msg_at_def)
  have "sys_consume s = Some ?s" using True sz m(3) rd by (simp add: sys_consume_def cobalt_shm_spsc_consume_def)
  moreover have "spsc_inv cap ms' ?s"
  proof (rule spsc_invI)
    show "ring_inv cap (ss_region ?s) ms'" using I(1) m(4) by (simp add: ring_inv_def)
    show "reserved_inv cap (ss_region ?s) (ss_producer ?s) (ss_out_ptr ?s)" using I(2) by (auto simp: reserved_inv_def Let_def)
    show "peeked_inv cap (ss_region ?s) (ss_consumer ?s) (ss_view ?s) ms'" using I(3) by (simp add: peeked_inv_def)
  qed (use I(4) m(1) in simp)
  ultimately show ?thesis by auto
next
  case False
  then show ?thesis using inv by (auto simp: sys_consume_def cobalt_shm_spsc_consume_def)
qed

lemma step_inv:
  assumes inv: "spsc_inv cap ms s" and cap: "cap = 2 ^ n" "3 \<le> n" and W: "ring_w s + 2 * cap < 2 ^ 64" and ty: "op_typed oper"
  shows "\<exists>s' ms'. spsc_step oper s = Some s' \<and> spsc_inv cap ms' s' \<and> ring_w s' \<le> ring_w s + 2 * cap"
proof (cases oper)
  case (Reserve len)
  then show ?thesis using reserve_keeps [OF inv cap W, of len] by force
next
  case (Fill i bs)
  then show ?thesis using fill_inv [OF inv, of i bs] cap by force
next
  case (Commit t len)
  then show ?thesis using commit_inv [OF inv cap W, of t len] ty by simp
next
  case Cancel
  then show ?thesis using cancel_inv [OF inv] by force
next
  case Peek
  have "ring_w s < 2 ^ 64" using W by linarith
  then show ?thesis using peek_inv [OF inv cap(1)] Peek by force
next
  case Consume
  have "ring_w s < 2 ^ 64" using W by linarith
  then show ?thesis using consume_inv [OF inv] Consume by force
qed

lemma exec_inv:
  assumes "spsc_inv cap ms s" "cap = 2 ^ n" "3 \<le> n" "ring_w s + 2 * cap * length ops < 2 ^ 64" "list_all op_typed ops"
  shows "\<exists>s' ms'. spsc_exec ops s = Some s' \<and> spsc_inv cap ms' s' \<and> ring_w s' < 2 ^ 64"
  using assms(1,4,5)
proof (induction ops arbitrary: s ms)
  case (Cons oper ops)
  have "ring_w s + 2 * cap < 2 ^ 64" using Cons.prems(2) by (simp add: algebra_simps)
  from step_inv [OF Cons.prems(1) assms(2,3) this, of oper] Cons.prems(3) obtain s' ms' where
    s': "spsc_step oper s = Some s'" "spsc_inv cap ms' s'" "ring_w s' \<le> ring_w s + 2 * cap" by auto
  have "ring_w s' + 2 * cap * length ops < 2 ^ 64" using s'(3) Cons.prems(2) by (simp add: algebra_simps)
  then show ?case using Cons.IH [OF s'(2)] Cons.prems(3) s'(1) by simp
qed auto

lemma start_inv:
  assumes "length (rg_buffer rg) = cap" "sh_write_cursor (rg_header rg) = 0" "sh_read_cursor (rg_header rg) = 0"
  shows "spsc_inv cap [] (spsc_start rg (spsc_handle cap) (spsc_handle cap))"
  using assms by (simp add: spsc_inv_def ring_inv_def reserved_inv_def peeked_inv_def spsc_start_def spsc_handle_def)

lemma init_success:
  assumes "cobalt_shm_spsc_init al pid addr out_null total_size capacity rg0 = (COBALT_SUCCESS, Some p, rg)"
  shows "p = spsc_handle capacity" "rg = rg0\<lparr>rg_header := shm_init_header 1 total_size capacity 0 pid\<rparr>"
    "\<exists>n. capacity = 2 ^ n"
  using assms and_pred_pow2 [of capacity]
  by (auto simp: cobalt_shm_spsc_init_def split: option.splits if_splits)

lemma attach_success:
  assumes "cobalt_shm_spsc_attach al addr out_null total_size rg = (COBALT_SUCCESS, Some c)"
  shows "c = spsc_handle (sh_capacity (rg_header rg))"
  using assms by (auto simp: cobalt_shm_spsc_attach_def Let_def split: option.splits if_splits)

text \<open>
  C5: The shared memory ring is a queue of messages between two processes. One process creates the ring
  in a region and the other attaches to it; then the producer's calls (reserve, writes to the payload it reserved,
  commit, cancel) and the consumer's calls (peek, consume) happen in any order, with any lengths
  and with calls that are refused. No call reads or writes outside the buffer, the messages the consumer has read
  in place when it consumes them are the first of those that were committed, in order and byte for byte, and the
  next peek finds the ring empty exactly when all were consumed and otherwise returns the type
  and the bytes of the next message, also when frames wrap around the end of the buffer.
\<close>

theorem shm_spsc_fifo:
  assumes init: "cobalt_shm_spsc_init True pid addr False total_size capacity rg0 = (COBALT_SUCCESS, Some p, rg)"
    and attach: "cobalt_shm_spsc_attach True addr' False total_size rg = (COBALT_SUCCESS, Some c)"
    and size: "length (rg_buffer rg0) = capacity" "8 \<le> capacity"
    and ops: "list_all op_typed ops" "2 * capacity * length ops < 2 ^ 64"
  shows "\<exists>s ms. spsc_exec ops (spsc_start rg p c) = Some s \<and> ss_sent s = ss_received s @ ms \<and>
    (\<exists>e out c' rg'. cobalt_shm_spsc_peek (Some (ss_consumer s)) False (ss_region s) = Some (e, out, c', rg') \<and>
       (case ms of
          [] \<Rightarrow> e = COBALT_ERROR_EMPTY_CONTAINER
        | m # _ \<Rightarrow> e = COBALT_SUCCESS \<and>
            (\<exists>ptr. out = Some (fst m, ptr, length (snd m)) \<and> mem_read ptr (length (snd m)) (rg_buffer rg') = Some (snd m))))"
proof -
  note i = init_success [OF init]
  from i(3) obtain n where cap: "capacity = 2 ^ n" by blast
  have n: "3 \<le> n" using size(2) power_le_imp_le_exp [of "2::nat" 3 n] by (simp add: cap)
  have c: "c = spsc_handle capacity" using attach_success [OF attach] i(2) by (simp add: shm_init_header_def)
  have "spsc_inv capacity [] (spsc_start rg p c)"
    unfolding i(1) c by (rule start_inv) (use i(2) size(1) in \<open>simp_all add: shm_init_header_def\<close>)
  from exec_inv [OF this cap n _ ops(1)] ops(2) i(2) obtain s ms where
    s: "spsc_exec ops (spsc_start rg p c) = Some s" "spsc_inv capacity ms s" "ring_w s < 2 ^ 64"
    by (auto simp: spsc_start_def shm_init_header_def)
  note I = spsc_invD [OF s(2)]
  have h: "sp_capacity (ss_consumer s) = capacity" "sp_mask (ss_consumer s) = capacity - 1" using I(3) by (simp_all add: peeked_inv_def)
  show ?thesis
  proof (cases ms)
    case Nil
    then show ?thesis using s(1) I(1,4) peek_empty by (auto simp: cobalt_shm_spsc_peek_def)
  next
    case (Cons m ms')
    from peek_loop_inv [OF I(1) [unfolded Cons] I(2) h cap s(3)] obtain r c' where
      e: "spsc_peek_loop 0 (ss_consumer s) (ss_region s) = Some (COBALT_SUCCESS, Some (fst m, r mod capacity + 8, length (snd m)), c',
        (ss_region s)\<lparr>rg_header := (rg_header (ss_region s))\<lparr>sh_read_cursor := r\<rparr>\<rparr>)" "msg_at (ring_buf s) capacity r m" by blast
    have "mem_read (r mod capacity + 8) (length (snd m)) (ring_buf s) = Some (snd m)" using e(2) by (simp add: msg_at_def)
    then show ?thesis using s(1) I(4) Cons e(1) by (auto simp: cobalt_shm_spsc_peek_def)
  qed
qed

abbreviation "sample_region \<equiv> \<lparr>rg_header = shm_init_header 0 0 0 0 0, rg_buffer = replicate 32 (0 :: shm_byte)\<rparr>"

theorem shm_spsc_fifo_witness:
  "\<exists>s ms. spsc_exec [Reserve 5, Fill 0 [1, 2, 3], Peek, Commit 7 3, Peek, Reserve 8, Consume, Commit 9 8, Reserve 1]
      (spsc_start (sample_region\<lparr>rg_header := shm_init_header 1 352 32 0 4\<rparr>) (spsc_handle 32) (spsc_handle 32)) = Some s \<and>
    ss_sent s = ss_received s @ ms"
  using shm_spsc_fifo [of 4 "Some 64" 352 32 sample_region "spsc_handle 32" "sample_region\<lparr>rg_header := shm_init_header 1 352 32 0 4\<rparr>"
      "Some 128" "spsc_handle 32" "[Reserve 5, Fill 0 [1, 2, 3], Peek, Commit 7 3, Peek, Reserve 8, Consume, Commit 9 8, Reserve 1]"]
  by (fastforce simp: cobalt_shm_spsc_init_def cobalt_shm_spsc_attach_def shm_init_header_def and_nat_rec [of 32 31])

subsection \<open>Multiple producers, multiple consumers\<close>

text \<open>
  The slots of a ring with \<open>capacity\<close> slots are the cells of the bounded queue of \<open>Cobalt_MPMC\<close>: the cursors of the header are
  \<open>vr_tail\<close> (\<open>write_cursor\<close>) and \<open>vr_head\<close> (\<open>read_cursor\<close>), and the data of a cell are the first
  \<open>actual_len\<close> bytes of the payload of the slot. A slot is released with \<open>pos + capacity\<close>.
\<close>

record cobalt_shm_mpmc =
  mp_capacity :: nat
  mp_mask :: nat
  mp_slot_size :: nat
  mp_slot_stride :: nat

type_synonym mpmc_slots = "shm_byte list vring"

definition mpmc_required :: "nat \<Rightarrow> nat \<Rightarrow> nat" where
  "mpmc_required capacity slot_stride = szt (SIZEOF_SHM_HEADER + szt (capacity * slot_stride))"

definition mpmc_too_big :: "nat \<Rightarrow> nat \<Rightarrow> bool" where
  "mpmc_too_big capacity slot_stride \<longleftrightarrow> slot_stride = 0 \<or> (SIZE_MAX - SIZEOF_SHM_HEADER) div slot_stride < capacity"

definition cobalt_shm_mpmc_init ::
    "bool \<Rightarrow> nat \<Rightarrow> nat option \<Rightarrow> bool \<Rightarrow> nat \<Rightarrow> nat \<Rightarrow> nat \<Rightarrow>
     cobalt_error \<times> (cobalt_shm_mpmc \<times> cobalt_shm_header \<times> mpmc_slots) option" where
  "cobalt_shm_mpmc_init alloc pid addr out_null total_size capacity slot_size =
     (case addr of
        None \<Rightarrow> (COBALT_ERROR_INVALID_ARGUMENT, None)
      | Some a \<Rightarrow>
          if out_null \<or> capacity < 2 \<or> capacity AND (capacity - 1) \<noteq> 0 \<or> slot_size = 0 \<or>
             4294967295 - SIZEOF_MPMC_SLOT < slot_size \<or> a mod 64 \<noteq> 0
          then (COBALT_ERROR_INVALID_ARGUMENT, None)
          else
            let slot_stride = ALIGN_UP (SIZEOF_MPMC_SLOT + slot_size) 64 in
            if mpmc_too_big capacity slot_stride then (COBALT_ERROR_INVALID_ARGUMENT, None)
            else if total_size < mpmc_required capacity slot_stride then (COBALT_ERROR_INVALID_ARGUMENT, None)
            else if \<not> alloc then (COBALT_ERROR_OUT_OF_MEMORY, None)
            else (COBALT_SUCCESS, Some (
                   \<lparr>mp_capacity = capacity, mp_mask = capacity - 1, mp_slot_size = slot_size, mp_slot_stride = slot_stride\<rparr>,
                   shm_init_header COBALT_SHM_MODE_MPMC total_size capacity slot_size pid, vr_new capacity [])))"

definition cobalt_shm_mpmc_attach ::
    "bool \<Rightarrow> nat option \<Rightarrow> bool \<Rightarrow> nat \<Rightarrow> cobalt_shm_header \<Rightarrow> cobalt_error \<times> cobalt_shm_mpmc option" where
  "cobalt_shm_mpmc_attach alloc addr out_null total_size hdr =
     (case addr of
        None \<Rightarrow> (COBALT_ERROR_INVALID_ARGUMENT, None)
      | Some a \<Rightarrow>
          if out_null \<or> total_size < SIZEOF_SHM_HEADER \<or> a mod 64 \<noteq> 0 then (COBALT_ERROR_INVALID_ARGUMENT, None)
          else if sh_magic hdr \<noteq> COBALT_SHM_MAGIC \<or> sh_version hdr \<noteq> COBALT_SHM_VERSION \<or> sh_mode hdr \<noteq> COBALT_SHM_MODE_MPMC
          then (COBALT_ERROR_INVALID_ARGUMENT, None)
          else if sh_capacity hdr < 2 \<or> sh_capacity hdr AND (sh_capacity hdr - 1) \<noteq> 0 \<or> sh_slot_size hdr = 0
          then (COBALT_ERROR_INVALID_ARGUMENT, None)
          else
            let slot_stride = ALIGN_UP (SIZEOF_MPMC_SLOT + sh_slot_size hdr) 64 in
            if mpmc_too_big (sh_capacity hdr) slot_stride then (COBALT_ERROR_INVALID_ARGUMENT, None)
            else if total_size < mpmc_required (sh_capacity hdr) slot_stride then (COBALT_ERROR_INVALID_ARGUMENT, None)
            else if \<not> alloc then (COBALT_ERROR_OUT_OF_MEMORY, None)
            else (COBALT_SUCCESS, Some
                   \<lparr>mp_capacity = sh_capacity hdr, mp_mask = sh_capacity hdr - 1, mp_slot_size = sh_slot_size hdr,
                    mp_slot_stride = slot_stride\<rparr>))"

definition mpmc_release :: "cobalt_shm_mpmc \<Rightarrow> nat \<Rightarrow> nat" where
  "mpmc_release mpmc pos = szt (pos + mp_capacity mpmc)"

definition cobalt_shm_mpmc_push ::
    "cobalt_shm_mpmc option \<Rightarrow> shm_byte list option \<Rightarrow> mpmc_slots \<Rightarrow> (cobalt_error \<times> mpmc_slots) option" where
  "cobalt_shm_mpmc_push mp data slots =
     (case (mp, data) of
        (Some mpmc, Some bs) \<Rightarrow>
          if mp_slot_size mpmc < length bs then Some (COBALT_ERROR_INVALID_ARGUMENT, slots)
          else map_option (\<lambda>(ok, slots'). (if ok then COBALT_SUCCESS else COBALT_ERROR_QUEUE_FULL, slots')) (enq_run (EnqStart bs) slots)
      | _ \<Rightarrow> Some (COBALT_ERROR_INVALID_ARGUMENT, slots))"

text \<open>The answer of a successful pop: \<open>out_len\<close> and the bytes copied to \<open>buf\<close>.\<close>

definition cobalt_shm_mpmc_pop ::
    "cobalt_shm_mpmc option \<Rightarrow> bool \<Rightarrow> nat \<Rightarrow> mpmc_slots \<Rightarrow> (cobalt_error \<times> (nat \<times> shm_byte list) option \<times> mpmc_slots) option" where
  "cobalt_shm_mpmc_pop mp buf_null buf_size slots =
     (case mp of
        None \<Rightarrow> Some (COBALT_ERROR_INVALID_ARGUMENT, None, slots)
      | Some mpmc \<Rightarrow>
          if buf_null \<and> 0 < buf_size then Some (COBALT_ERROR_INVALID_ARGUMENT, None, slots)
          else map_option (\<lambda>(out, slots').
                 case out of
                   None \<Rightarrow> (COBALT_ERROR_EMPTY_CONTAINER, None, slots')
                 | Some bs \<Rightarrow> (COBALT_SUCCESS, Some (length bs, take (if length bs < buf_size then length bs else buf_size) bs), slots'))
               (deq_run (mpmc_release mpmc) DeqStart slots))"

definition cobalt_shm_mpmc_capacity :: "cobalt_shm_mpmc option \<Rightarrow> nat" where
  "cobalt_shm_mpmc_capacity mp = (case mp of None \<Rightarrow> 0 | Some mpmc \<Rightarrow> mp_capacity mpmc)"

definition cobalt_shm_mpmc_slot_size :: "cobalt_shm_mpmc option \<Rightarrow> nat" where
  "cobalt_shm_mpmc_slot_size mp = (case mp of None \<Rightarrow> 0 | Some mpmc \<Rightarrow> mp_slot_size mpmc)"

definition cobalt_shm_mpmc_get_header :: "cobalt_shm_mpmc option \<Rightarrow> cobalt_shm_header \<Rightarrow> cobalt_shm_header option" where
  "cobalt_shm_mpmc_get_header mp hdr = (case mp of None \<Rightarrow> None | Some mpmc \<Rightarrow> Some hdr)"

interpretation shm: vyukov_queue "2 ^ Suc k" k "\<lambda>pos. szt (pos + 2 ^ Suc k)" for k
  by unfold_locales simp_all

lemma mpmc_init_success:
  assumes "cobalt_shm_mpmc_init al pid addr out_null total_size capacity slot_size = (COBALT_SUCCESS, Some (mp, hdr, slots))"
  shows "\<exists>k. capacity = 2 ^ Suc k" "slots = vr_new capacity []" "mp_capacity mp = capacity" "mp_slot_size mp = slot_size"
    "capacity * 64 \<le> SIZE_MAX" "i < capacity \<Longrightarrow> 320 + i * mp_slot_stride mp + (16 + slot_size) \<le> total_size"
proof -
  let ?st = "ALIGN_UP (16 + slot_size) 64"
  from assms have a: "2 \<le> capacity" "capacity AND (capacity - 1) = 0" "slot_size \<le> 4294967279" "\<not> mpmc_too_big capacity ?st"
      "mpmc_required capacity ?st \<le> total_size" "slots = vr_new capacity []" "mp_capacity mp = capacity" "mp_slot_size mp = slot_size"
      "mp_slot_stride mp = ?st"
    by (auto simp: cobalt_shm_mpmc_init_def Let_def split: option.splits if_splits)
  obtain j where j: "capacity = 2 ^ j" using and_pred_pow2 [OF _ a(2)] a(1) by auto
  then obtain k where "j = Suc k" using a(1) by (cases j) auto
  then show "\<exists>k. capacity = 2 ^ Suc k" using j by blast
  have st: "16 + slot_size \<le> ?st" "64 dvd ?st" using ALIGN_UP_bounds [of 64 6 "16 + slot_size"] a(3) by simp_all
  have "0 < ?st" using st(1) by linarith
  with st(2) have "64 \<le> ?st" by (rule dvd_imp_le)
  have "capacity \<le> (SIZE_MAX - 320) div ?st" using a(4) by (simp add: mpmc_too_big_def)
  then have le: "capacity * ?st \<le> SIZE_MAX - 320" using \<open>0 < ?st\<close> by (simp add: less_eq_div_iff_mult_less_eq)
  moreover have "capacity * 64 \<le> capacity * ?st" using \<open>64 \<le> ?st\<close> by (rule mult_le_mono2)
  ultimately show "capacity * 64 \<le> SIZE_MAX" by linarith
  show "320 + i * mp_slot_stride mp + (16 + slot_size) \<le> total_size" if "i < capacity"
  proof -
    have "Suc i * ?st \<le> capacity * ?st" using that by (intro mult_le_mono1) simp
    moreover have "320 + capacity * ?st \<le> total_size" using a(5) le by (simp add: mpmc_required_def)
    ultimately show ?thesis using st(1) a(9) by simp
  qed
qed (use assms in \<open>auto simp: cobalt_shm_mpmc_init_def Let_def split: option.splits if_splits\<close>)

lemma mpmc_attach_same:
  assumes "cobalt_shm_mpmc_init al pid addr out_null total_size capacity slot_size = (COBALT_SUCCESS, Some (mp, hdr, slots))"
    and "cobalt_shm_mpmc_attach al' addr' out_null' total_size' hdr = (COBALT_SUCCESS, Some mp')"
  shows "mp' = mp"
  using assms by (auto simp: cobalt_shm_mpmc_init_def cobalt_shm_mpmc_attach_def shm_init_header_def Let_def split: option.splits if_splits)

lemma mpmc_run_inv:
  assumes "cobalt_shm_mpmc_init al pid addr out_null total_size capacity slot_size = (COBALT_SUCCESS, Some (mp, hdr, slots))"
    and "vrun (mpmc_release mp) slots s"
  obtains k where "capacity = 2 ^ Suc k" "2 ^ Suc k < CURSOR_LIMIT" "vinv (2 ^ Suc k) s" "mpmc_release mp = (\<lambda>pos. szt (pos + 2 ^ Suc k))"
    "vrun (\<lambda>pos. szt (pos + 2 ^ Suc k)) (vr_new (2 ^ Suc k) []) s"
proof -
  note i = mpmc_init_success [OF assms(1)]
  from i(1) obtain k where k: "capacity = 2 ^ Suc k" by blast
  have lim: "2 ^ Suc k < CURSOR_LIMIT" using i(5) k by simp
  have rel: "mpmc_release mp = (\<lambda>pos. szt (pos + 2 ^ Suc k))" using i(3) k by (intro ext) (simp only: mpmc_release_def)
  have run: "vrun (\<lambda>pos. szt (pos + 2 ^ Suc k)) (vr_new (2 ^ Suc k) []) s" using assms(2) i(2) k rel by simp
  show thesis by (rule that [OF k lim shm.run_inv [OF run lim] rel run])
qed

lemma mpmc_push_result:
  assumes "vinv (2 ^ Suc k) s" "length bs \<le> mp_slot_size mp"
  shows "\<exists>slots'. cobalt_shm_mpmc_push (Some mp) (Some bs) (vs_ring s) =
    Some (if enq_free (2 ^ Suc k) s then COBALT_SUCCESS else COBALT_ERROR_QUEUE_FULL, slots')"
proof -
  from shm.enq_run_loop [OF assms(1), of bs] obtain r where
    "enq_run (EnqLoop bs (vr_tail (vs_ring s))) (vs_ring s) = Some (enq_free (2 ^ Suc k) s, r)" by blast
  then show ?thesis using assms(2) by (simp add: cobalt_shm_mpmc_push_def enq_run_step)
qed

lemma mpmc_pop_result:
  assumes "vinv (2 ^ Suc k) s" "mpmc_release mp = (\<lambda>pos. szt (pos + 2 ^ Suc k))"
  shows "\<exists>slots'. cobalt_shm_mpmc_pop (Some mp) False n (vs_ring s) =
    Some (if deq_avail s
          then (COBALT_SUCCESS, Some (length (vs_enqs s ! vr_head (vs_ring s)), take n (vs_enqs s ! vr_head (vs_ring s))), slots')
          else (COBALT_ERROR_EMPTY_CONTAINER, None, slots'))"
proof -
  from shm.deq_run_loop [OF assms(1)] obtain r where
    "deq_run (mpmc_release mp) (DeqLoop (vr_head (vs_ring s))) (vs_ring s) =
       Some (if deq_avail s then Some (vs_enqs s ! vr_head (vs_ring s)) else None, r)" unfolding assms(2) by blast
  then show ?thesis by (simp add: cobalt_shm_mpmc_pop_def deq_run_step Let_def)
qed

text \<open>
  C10: A shared memory ring with slots, created by one process and attached to by others. All handles agree, every slot
  lies inside the region, and in every interleaving of the atomic steps of pushes and pops each message
  that is read is the one claimed for its position, no position is read twice and at most \<open>capacity\<close> are in use.
  When no call is in progress a push of a message that fits succeeds exactly if fewer
  than \<open>capacity\<close> messages wait, and a pop returns the oldest one, truncated to the caller's buffer
  and with its full length reported, exactly if there is one.
\<close>

theorem shm_mpmc_fifo:
  assumes init: "cobalt_shm_mpmc_init True pid addr False total_size capacity slot_size = (COBALT_SUCCESS, Some (mp, hdr, slots))"
    and attach: "cobalt_shm_mpmc_attach True addr' False total_size hdr = (COBALT_SUCCESS, Some mp')"
    and run: "vrun (mpmc_release mp') slots s"
  shows "mp' = mp \<and> (\<forall>i < capacity. 320 + i * mp_slot_stride mp + (16 + slot_size) \<le> total_size) \<and>
    (\<forall>(p, d)\<in>set (vs_deqs s). p < vr_head (vs_ring s) \<and> d = vs_enqs s ! p) \<and> distinct (map fst (vs_deqs s)) \<and>
    vr_head (vs_ring s) \<le> length (vs_enqs s) \<and> length (vs_enqs s) \<le> vr_head (vs_ring s) + capacity \<and>
    ((\<forall>t. vs_pc s t = Idle) \<longrightarrow>
       (length bs \<le> slot_size \<longrightarrow>
          (\<exists>slots'. cobalt_shm_mpmc_push (Some mp) (Some bs) (vs_ring s) =
             Some (if vr_tail (vs_ring s) < vr_head (vs_ring s) + capacity then COBALT_SUCCESS else COBALT_ERROR_QUEUE_FULL, slots'))) \<and>
       (\<exists>slots'. cobalt_shm_mpmc_pop (Some mp) False n (vs_ring s) =
          Some (if vr_head (vs_ring s) < vr_tail (vs_ring s)
                then (COBALT_SUCCESS, Some (length (vs_enqs s ! vr_head (vs_ring s)), take n (vs_enqs s ! vr_head (vs_ring s))), slots')
                else (COBALT_ERROR_EMPTY_CONTAINER, None, slots'))))"
proof -
  have mp: "mp' = mp" by (rule mpmc_attach_same [OF init attach])
  note i = mpmc_init_success [OF init]
  from mpmc_run_inv [OF init run [unfolded mp]] obtain k where k: "capacity = 2 ^ Suc k" "2 ^ Suc k < CURSOR_LIMIT" "vinv (2 ^ Suc k) s"
    "mpmc_release mp = (\<lambda>pos. szt (pos + 2 ^ Suc k))" "vrun (\<lambda>pos. szt (pos + 2 ^ Suc k)) (vr_new (2 ^ Suc k) []) s" .
  have q: "(length bs \<le> slot_size \<longrightarrow> (\<exists>slots'. cobalt_shm_mpmc_push (Some mp) (Some bs) (vs_ring s) =
             Some (if vr_tail (vs_ring s) < vr_head (vs_ring s) + capacity then COBALT_SUCCESS else COBALT_ERROR_QUEUE_FULL, slots'))) \<and>
       (\<exists>slots'. cobalt_shm_mpmc_pop (Some mp) False n (vs_ring s) =
          Some (if vr_head (vs_ring s) < vr_tail (vs_ring s)
                then (COBALT_SUCCESS, Some (length (vs_enqs s ! vr_head (vs_ring s)), take n (vs_enqs s ! vr_head (vs_ring s))), slots')
                else (COBALT_ERROR_EMPTY_CONTAINER, None, slots')))" if "\<forall>t. vs_pc s t = Idle"
    using mpmc_push_result [OF k(3), of bs mp] mpmc_pop_result [OF k(3,4), of n] shm.idle_questions [where s = s] that i(4) k(1)
    by simp
  show ?thesis using mp i(6) shm.fifo(1-4) [OF k(5,2)] k(1) q by blast
qed

theorem shm_mpmc_fifo_witness:
  "cobalt_shm_mpmc_pop (Some \<lparr>mp_capacity = 4, mp_mask = 3, mp_slot_size = 40, mp_slot_stride = 64\<rparr>) False 9 (vr_new 4 []) \<noteq> None"
proof -
  let ?s = "\<lparr>vs_ring = vr_new 4 [], vs_pc = (\<lambda>_. Idle), vs_enqs = [], vs_deqs = []\<rparr> :: shm_byte list vsys"
  let ?mp = "\<lparr>mp_capacity = 4, mp_mask = 3, mp_slot_size = 40, mp_slot_stride = 64\<rparr>"
  have st: "ALIGN_UP 56 64 = 64" by (simp add: ALIGN_UP_def)
  have a: "(4::nat) AND 3 = 0" using and_nat_rec [of 4 3] by (simp add: and_nat_rec [of 2 1])
  have "cobalt_shm_mpmc_init True 7 (Some 128) False 1024 4 40 =
      (COBALT_SUCCESS, Some (?mp, shm_init_header 2 1024 4 40 7, vr_new 4 []))"
    using st a by (simp add: cobalt_shm_mpmc_init_def mpmc_too_big_def mpmc_required_def)
  moreover have "cobalt_shm_mpmc_attach True (Some 192) False 1024 (shm_init_header 2 1024 4 40 7) = (COBALT_SUCCESS, Some ?mp)"
    using st a by (simp add: cobalt_shm_mpmc_attach_def mpmc_too_big_def mpmc_required_def shm_init_header_def)
  moreover have "vrun (mpmc_release ?mp) (vr_new 4 []) ?s" by (rule vrun.start)
  ultimately show ?thesis using shm_mpmc_fifo [of 7 "Some 128" 1024 4 40 ?mp _ "vr_new 4 []" "Some 192" ?mp ?s "[]" 9] by force
qed

end
