(* ===== verification/Cobalt_TaskGraph.thy ===== *)
theory Cobalt_TaskGraph
  imports Cobalt_Heap "HOL-Library.Multiset"
begin

section \<open>Task graphs\<close>

text \<open>
  \<open>src/module/taskgraph.c\<close>. The vectors of the graph are lists; whether memory could be allocated is an argument
  of the operations that allocate. \<open>compile\<close> is the queue algorithm of the code over arrays
  whose accesses are checked (\<open>None\<close> is a read or write outside an array). An execution is a step relation over any
  number of threads, each with a stack of activations of \<open>taskgraph_node_worker\<close>: a task that the thread pool
  refuses is run in a nested activation. The pool may start a submitted task at any time on any idle
  thread. The decrement of \<open>remaining_in_degree\<close> is one atomic step.
\<close>

record 'f task_node =
  tn_fn :: 'f
  tn_static_in_degree :: nat
  tn_remaining_in_degree :: nat
  tn_successors :: "nat list"

record 'f cobalt_taskgraph =
  tg_nodes :: "'f task_node list"
  tg_root_nodes :: "nat list"
  tg_compiled :: bool

abbreviation (input) COBALT_INVALID_TASK_ID :: nat where
  "COBALT_INVALID_TASK_ID \<equiv> 18446744073709551615"

definition cobalt_taskgraph_create_with_alloc ::
    "bool \<Rightarrow> bool \<Rightarrow> bool \<Rightarrow> cobalt_error option \<times> 'f cobalt_taskgraph option" where
  "cobalt_taskgraph_create_with_alloc alloc_graph alloc_nodes alloc_roots =
     (if \<not> alloc_graph then (Some COBALT_ERROR_OUT_OF_MEMORY, None)
      else if \<not> alloc_nodes \<or> \<not> alloc_roots then (Some COBALT_ERROR_OUT_OF_MEMORY, None)
      else (None, Some \<lparr>tg_nodes = [], tg_root_nodes = [], tg_compiled = False\<rparr>))"

definition cobalt_taskgraph_create :: "bool \<Rightarrow> bool \<Rightarrow> bool \<Rightarrow> cobalt_error option \<times> 'f cobalt_taskgraph option" where
  "cobalt_taskgraph_create = cobalt_taskgraph_create_with_alloc"

definition cobalt_taskgraph_add_node ::
    "bool \<Rightarrow> bool \<Rightarrow> bool \<Rightarrow> 'f cobalt_taskgraph option \<Rightarrow> 'f option \<Rightarrow>
     nat \<times> cobalt_error option \<times> 'f cobalt_taskgraph option" where
  "cobalt_taskgraph_add_node alloc_node alloc_succ push_ok g f =
     (case (g, f) of
        (Some graph, Some fn) \<Rightarrow>
          if tg_compiled graph then (COBALT_INVALID_TASK_ID, Some COBALT_ERROR_INVALID_ARGUMENT, g)
          else if \<not> alloc_node then (COBALT_INVALID_TASK_ID, Some COBALT_ERROR_OUT_OF_MEMORY, g)
          else if \<not> alloc_succ \<or> \<not> push_ok then (COBALT_INVALID_TASK_ID, Some COBALT_ERROR_OUT_OF_MEMORY, g)
          else (length (tg_nodes graph), None,
                Some (graph\<lparr>tg_nodes := tg_nodes graph @
                  [\<lparr>tn_fn = fn, tn_static_in_degree = 0, tn_remaining_in_degree = 0, tn_successors = []\<rparr>]\<rparr>))
      | _ \<Rightarrow> (COBALT_INVALID_TASK_ID, Some COBALT_ERROR_INVALID_ARGUMENT, g))"

fun edge_exists :: "nat \<Rightarrow> nat list \<Rightarrow> bool" where
  "edge_exists to_id [] = False"
| "edge_exists to_id (s # ss) = (if s = to_id then True else edge_exists to_id ss)"

definition cobalt_taskgraph_add_edge ::
    "bool \<Rightarrow> 'f cobalt_taskgraph option \<Rightarrow> nat \<Rightarrow> nat \<Rightarrow> int \<times> cobalt_error option \<times> 'f cobalt_taskgraph option" where
  "cobalt_taskgraph_add_edge push_ok g from_id to_id =
     (case g of
        None \<Rightarrow> (-1, Some COBALT_ERROR_INVALID_ARGUMENT, g)
      | Some graph \<Rightarrow>
          if tg_compiled graph then (-1, Some COBALT_ERROR_INVALID_ARGUMENT, g)
          else if length (tg_nodes graph) \<le> from_id \<or> length (tg_nodes graph) \<le> to_id
          then (-1, Some COBALT_ERROR_INVALID_ARGUMENT, g)
          else if edge_exists to_id (tn_successors (tg_nodes graph ! from_id)) then (0, None, g)
          else if \<not> push_ok then (-1, Some COBALT_ERROR_OUT_OF_MEMORY, g)
          else
            let from_node = tg_nodes graph ! from_id;
                nodes = (tg_nodes graph)[from_id := from_node\<lparr>tn_successors := tn_successors from_node @ [to_id]\<rparr>];
                to_node = nodes ! to_id in
            (0, None, Some (graph\<lparr>tg_nodes :=
               nodes[to_id := to_node\<lparr>tn_static_in_degree := szt (tn_static_in_degree to_node + 1)\<rparr>]\<rparr>)))"

subsection \<open>Compilation\<close>

text \<open>The queue of the algorithm: an array of node numbers and the number of entries written.\<close>

definition q_put :: "nat \<Rightarrow> nat list \<times> nat \<Rightarrow> (nat list \<times> nat) option" where
  "q_put v q = (case q of (a, q_tail) \<Rightarrow> if q_tail < length a then Some (a[q_tail := v], q_tail + 1) else None)"

fun kahn_init :: "nat \<Rightarrow> 'f task_node list \<Rightarrow> nat list \<Rightarrow> nat list \<times> nat \<Rightarrow> (nat list \<times> nat list \<times> nat) option" where
  "kahn_init i [] in_degree q = Some (in_degree, q)"
| "kahn_init i (node # nodes) in_degree q =
     (if i < length in_degree then
        (if tn_static_in_degree node = 0
         then (case q_put i q of None \<Rightarrow> None | Some q' \<Rightarrow> kahn_init (i + 1) nodes (in_degree[i := tn_static_in_degree node]) q')
         else kahn_init (i + 1) nodes (in_degree[i := tn_static_in_degree node]) q)
      else None)"

fun kahn_relax :: "nat list \<Rightarrow> nat list \<Rightarrow> nat list \<times> nat \<Rightarrow> (nat list \<times> nat list \<times> nat) option" where
  "kahn_relax [] in_degree q = Some (in_degree, q)"
| "kahn_relax (v # vs) in_degree q =
     (if v < length in_degree then
        (let d = szt_dec (in_degree ! v); in_degree' = in_degree[v := d] in
         if d = 0 then (case q_put v q of None \<Rightarrow> None | Some q' \<Rightarrow> kahn_relax vs in_degree' q')
         else kahn_relax vs in_degree' q)
      else None)"

lemma kahn_relax_length: "kahn_relax vs d q = Some (d', q') \<Longrightarrow> length (fst q') = length (fst q)"
proof (induction vs arbitrary: d q)
  case (Cons v vs)
  then show ?case
    by (cases q) (fastforce simp: Let_def q_put_def split: if_splits option.splits)
qed auto

function kahn_loop :: "'f task_node list \<Rightarrow> nat \<Rightarrow> nat \<Rightarrow> nat list \<Rightarrow> nat list \<times> nat \<Rightarrow> (nat \<times> nat list) option" where
  "kahn_loop nodes q_head visited in_degree q =
     (if q_head < snd q then
        (if q_head < length (fst q) \<and> fst q ! q_head < length nodes then
           (case kahn_relax (tn_successors (nodes ! (fst q ! q_head))) in_degree q of
              None \<Rightarrow> None
            | Some (in_degree', q') \<Rightarrow> kahn_loop nodes (q_head + 1) (visited + 1) in_degree' q')
         else None)
      else Some (visited, take (snd q) (fst q)))"
  by pat_completeness auto
termination
  by (relation "measure (\<lambda>(nodes, q_head, visited, in_degree, q). length (fst q) - q_head)")
    (auto simp: dest: kahn_relax_length [of _ _ "(_, _)" _ "(_, _)"])

declare kahn_loop.simps [simp del]

text \<open>Caching the root nodes: \<open>roots_ok\<close> tells whether the new vector exists, \<open>push_ok i\<close> whether a push succeeds; failures are ignored.\<close>

fun cache_roots :: "(nat \<Rightarrow> bool) \<Rightarrow> nat \<Rightarrow> 'f task_node list \<Rightarrow> nat list" where
  "cache_roots push_ok i [] = []"
| "cache_roots push_ok i (node # nodes) =
     (if tn_static_in_degree node = 0 \<and> push_ok i then i # cache_roots push_ok (i + 1) nodes else cache_roots push_ok (i + 1) nodes)"

definition cobalt_taskgraph_compile ::
    "bool \<Rightarrow> bool \<Rightarrow> bool \<Rightarrow> (nat \<Rightarrow> bool) \<Rightarrow> 'f cobalt_taskgraph option \<Rightarrow>
     (int \<times> cobalt_error option \<times> 'f cobalt_taskgraph option) option" where
  "cobalt_taskgraph_compile alloc_degrees alloc_queue alloc_roots push_ok g =
     (case g of
        None \<Rightarrow> Some (-1, Some COBALT_ERROR_INVALID_ARGUMENT, g)
      | Some graph \<Rightarrow>
          if tg_compiled graph then Some (0, None, g)
          else
            let num_nodes = length (tg_nodes graph) in
            if num_nodes = 0 then Some (0, None, Some (graph\<lparr>tg_compiled := True\<rparr>))
            else if \<not> alloc_degrees \<or> \<not> alloc_queue then Some (-1, Some COBALT_ERROR_OUT_OF_MEMORY, g)
            else
              case kahn_init 0 (tg_nodes graph) (replicate num_nodes 0) (replicate num_nodes 0, 0) of
                None \<Rightarrow> None
              | Some (in_degree, q) \<Rightarrow>
                  (case kahn_loop (tg_nodes graph) 0 0 in_degree q of
                     None \<Rightarrow> None
                   | Some (visited, _) \<Rightarrow>
                       if visited \<noteq> num_nodes then Some (-1, Some COBALT_ERROR_INVALID_ARGUMENT, g)
                       else Some (0, None, Some (graph\<lparr>
                         tg_root_nodes := (if alloc_roots then cache_roots push_ok 0 (tg_nodes graph) else []),
                         tg_compiled := True\<rparr>))))"

definition cobalt_taskgraph_reset :: "'f cobalt_taskgraph option \<Rightarrow> 'f cobalt_taskgraph option" where
  "cobalt_taskgraph_reset = map_option (\<lambda>graph. graph\<lparr>tg_nodes :=
     map (\<lambda>node. node\<lparr>tn_remaining_in_degree := tn_static_in_degree node\<rparr>) (tg_nodes graph)\<rparr>)"

definition cobalt_taskgraph_node_count :: "'f cobalt_taskgraph option \<Rightarrow> nat" where
  "cobalt_taskgraph_node_count g = (case g of None \<Rightarrow> 0 | Some graph \<Rightarrow> length (tg_nodes graph))"

subsection \<open>The queue algorithm decides acyclicity\<close>

definition succs :: "'f task_node list \<Rightarrow> nat \<Rightarrow> nat list" where
  "succs nodes u = tn_successors (nodes ! u)"

definition edges :: "'f task_node list \<Rightarrow> (nat \<times> nat) set" where
  "edges nodes = {(u, v). u < length nodes \<and> v \<in> set (succs nodes u)}"

definition preds :: "'f task_node list \<Rightarrow> nat set \<Rightarrow> nat \<Rightarrow> nat set" where
  "preds nodes P v = {u. u < length nodes \<and> u \<notin> P \<and> v \<in> set (succs nodes u)}"

definition nodes_ok :: "'f task_node list \<Rightarrow> bool" where
  "nodes_ok nodes \<longleftrightarrow> length nodes < SIZE_MAX \<and> (\<forall>u < length nodes. distinct (succs nodes u) \<and> set (succs nodes u) \<subseteq> {..< length nodes} \<and>
     tn_static_in_degree (nodes ! u) = card (preds nodes {} u))"

lemma finite_preds [simp]: "finite (preds nodes P v)"
  by (rule finite_subset [of _ "{..< length nodes}"]) (auto simp: preds_def)

lemma preds_remove: "u \<notin> P \<Longrightarrow> u < length nodes \<Longrightarrow> v \<in> set (succs nodes u) \<Longrightarrow>
    u \<in> preds nodes P v \<and> preds nodes (insert u P) v = preds nodes P v - {u}"
  by (auto simp: preds_def)

lemma preds_keep: "v \<notin> set (succs nodes u) \<Longrightarrow> preds nodes (insert u P) v = preds nodes P v"
  by (auto simp: preds_def)

definition q_holds :: "nat \<Rightarrow> nat list \<times> nat \<Rightarrow> nat list \<Rightarrow> bool" where
  "q_holds n q L \<longleftrightarrow> length (fst q) = n \<and> snd q = length L \<and> take (length L) (fst q) = L"

lemma q_put_holds: "q_holds n q L \<Longrightarrow> length L < n \<Longrightarrow> \<exists>q'. q_put v q = Some q' \<and> q_holds n q' (L @ [v])"
  by (cases q) (auto simp: q_holds_def q_put_def take_Suc_conv_app_nth)

lemma kahn_init_holds:
  assumes "q_holds n q L" "length L + length nodes \<le> n" "length d = i + length nodes"
  shows "\<exists>q'. kahn_init i nodes d q = Some (take i d @ map tn_static_in_degree nodes, q') \<and>
    q_holds n q' (L @ map (\<lambda>j. i + j) (filter (\<lambda>j. tn_static_in_degree (nodes ! j) = 0) [0..<length nodes]))"
  using assms
proof (induction nodes arbitrary: i d q L)
  case (Cons node nodes)
  let ?d = "d[i := tn_static_in_degree node]"
  let ?F = "\<lambda>xs. filter (\<lambda>j. tn_static_in_degree (xs ! j) = 0) [0..<length xs]"
  have upt: "[0..<length (node # nodes)] = 0 # map Suc [0..<length nodes]"
    using upt_conv_Cons [of 0 "Suc (length nodes)"] map_Suc_upt [of 0 "length nodes"] by simp
  have shift: "map (\<lambda>j. i + j) (?F (node # nodes)) = (if tn_static_in_degree node = 0 then [i] else []) @ map (\<lambda>j. i + 1 + j) (?F nodes)"
    unfolding upt by (simp add: filter_map o_def)
  have take: "take (i + 1) ?d @ map tn_static_in_degree nodes = take i d @ map tn_static_in_degree (node # nodes)"
    using Cons.prems(3) by (simp add: take_Suc_conv_app_nth)
  have i: "i < length d" "length ?d = i + 1 + length nodes" using Cons.prems(3) by simp_all
  have "\<exists>q1. (if tn_static_in_degree node = 0 then q_put i q else Some q) = Some q1 \<and>
      q_holds n q1 (L @ (if tn_static_in_degree node = 0 then [i] else []))"
  proof (cases "tn_static_in_degree node = 0")
    case True
    then show ?thesis using q_put_holds [OF Cons.prems(1), of i] Cons.prems(2) by simp
  qed (use Cons.prems(1) in simp)
  then obtain q1 where q1: "(if tn_static_in_degree node = 0 then q_put i q else Some q) = Some q1"
      "q_holds n q1 (L @ (if tn_static_in_degree node = 0 then [i] else []))" by blast
  have "length (L @ (if tn_static_in_degree node = 0 then [i] else [])) + length nodes \<le> n" using Cons.prems(2) by simp
  from Cons.IH [OF q1(2) this i(2)] obtain q' where
    q': "kahn_init (i + 1) nodes ?d q1 = Some (take (i + 1) ?d @ map tn_static_in_degree nodes, q')"
      "q_holds n q' ((L @ (if tn_static_in_degree node = 0 then [i] else [])) @ map (\<lambda>j. i + 1 + j) (?F nodes))" by blast
  have "kahn_init i (node # nodes) d q = kahn_init (i + 1) nodes ?d q1" using q1(1) i(1) by (auto split: if_splits)
  then show ?case unfolding shift using q' take by (metis append.assoc)
qed simp

lemma kahn_relax_holds:
  assumes "q_holds n q L" "length L + length (filter (\<lambda>v. d ! v = 1) vs) \<le> n" "distinct vs" "\<forall>v \<in> set vs. v < length d \<and> 1 \<le> d ! v"
  shows "\<exists>d' q'. kahn_relax vs d q = Some (d', q') \<and> q_holds n q' (L @ filter (\<lambda>v. d ! v = 1) vs) \<and> length d' = length d \<and>
    (\<forall>v < length d. d' ! v = (if v \<in> set vs then d ! v - 1 else d ! v))"
  using assms
proof (induction vs arbitrary: d q L)
  case (Cons v vs)
  let ?d = "d[v := d ! v - 1]"
  have v: "v < length d" "1 \<le> d ! v" "v \<notin> set vs" using Cons.prems by simp_all
  have dec: "szt_dec (d ! v) = d ! v - 1" using v(2) by (simp add: szt_dec_def)
  have f: "filter (\<lambda>w. ?d ! w = 1) vs = filter (\<lambda>w. d ! w = 1) vs" by (rule filter_cong [OF refl]) (use v(3) in \<open>metis nth_list_update_neq\<close>)
  have pre: "\<forall>w \<in> set vs. w < length ?d \<and> 1 \<le> ?d ! w" using Cons.prems(4) v(3) by (metis length_list_update list.set_intros(2) nth_list_update_neq)
  have "\<exists>q1. (if d ! v - 1 = 0 then q_put v q else Some q) = Some q1 \<and> q_holds n q1 (L @ (if d ! v = 1 then [v] else []))"
  proof (cases "d ! v = 1")
    case True
    then show ?thesis using q_put_holds [OF Cons.prems(1), of v] Cons.prems(2) by simp
  next
    case False
    then have "d ! v - 1 \<noteq> 0" using v(2) by linarith
    then show ?thesis using False Cons.prems(1) by simp
  qed
  then obtain q1 where q1: "(if d ! v - 1 = 0 then q_put v q else Some q) = Some q1" "q_holds n q1 (L @ (if d ! v = 1 then [v] else []))" by blast
  have "\<exists>d' q'. kahn_relax vs ?d q1 = Some (d', q') \<and> q_holds n q' ((L @ (if d ! v = 1 then [v] else [])) @ filter (\<lambda>w. ?d ! w = 1) vs) \<and>
      length d' = length ?d \<and> (\<forall>w < length ?d. d' ! w = (if w \<in> set vs then ?d ! w - 1 else ?d ! w))"
    using Cons.IH [OF q1(2) _ _ pre] Cons.prems(2,3) unfolding f by auto
  then obtain d' q' where r: "kahn_relax vs ?d q1 = Some (d', q')" "q_holds n q' ((L @ (if d ! v = 1 then [v] else [])) @ filter (\<lambda>w. ?d ! w = 1) vs)"
      "length d' = length ?d" "\<forall>w < length ?d. d' ! w = (if w \<in> set vs then ?d ! w - 1 else ?d ! w)" by blast
  have "kahn_relax (v # vs) d q = Some (d', q')" using q1(1) r(1) v(1) by (simp add: Let_def dec split: if_splits)
  moreover have "q_holds n q' (L @ filter (\<lambda>w. d ! w = 1) (v # vs))" using r(2) unfolding f by (auto split: if_splits)
  moreover have "\<forall>w < length d. d' ! w = (if w \<in> set (v # vs) then d ! w - 1 else d ! w)"
  proof (intro allI impI)
    fix w
    assume "w < length d"
    then show "d' ! w = (if w \<in> set (v # vs) then d ! w - 1 else d ! w)" using r(4) v(3) by (cases "w = v") simp_all
  qed
  ultimately show ?case using r(3) by auto
qed simp

text \<open>The first \<open>h\<close> nodes of the queue \<open>L\<close> have been processed; \<open>d\<close> counts the other predecessors of each node.\<close>

definition kahn_inv :: "'f task_node list \<Rightarrow> nat \<Rightarrow> nat list \<Rightarrow> nat list \<Rightarrow> bool" where
  "kahn_inv nodes h d L \<longleftrightarrow>
     length d = length nodes \<and> distinct L \<and> set L \<subseteq> {..< length nodes} \<and> h \<le> length L \<and>
     (\<forall>v < length nodes. d ! v = card (preds nodes (set (take h L)) v) \<and> (v \<in> set L \<longleftrightarrow> d ! v = 0)) \<and>
     (\<forall>j < length L. preds nodes (set (take j L)) (L ! j) = {})"

lemma kahn_inv_start:
  assumes ok: "nodes_ok nodes"
  shows "kahn_inv nodes 0 (map tn_static_in_degree nodes) (filter (\<lambda>j. tn_static_in_degree (nodes ! j) = 0) [0..<length nodes])"
proof -
  let ?L = "filter (\<lambda>j. tn_static_in_degree (nodes ! j) = 0) [0..<length nodes]"
  have "preds nodes (set (take j ?L)) (?L ! j) = {}" if "j < length ?L" for j
  proof -
    have "?L ! j \<in> set ?L" using that by (rule nth_mem)
    then have "card (preds nodes {} (?L ! j)) = 0" using ok by (auto simp: nodes_ok_def)
    then show ?thesis by (auto simp: preds_def)
  qed
  then show ?thesis using ok by (auto simp: kahn_inv_def nodes_ok_def)
qed

lemma kahn_inv_step:
  assumes ok: "nodes_ok nodes" and inv: "kahn_inv nodes h d L" and h: "h < length L"
    and d': "length d' = length d" "\<forall>v < length d. d' ! v = (if v \<in> set (succs nodes (L ! h)) then d ! v - 1 else d ! v)"
  shows "kahn_inv nodes (h + 1) d' (L @ filter (\<lambda>v. d ! v = 1) (succs nodes (L ! h)))" (is "kahn_inv _ _ _ ?L")
    and "\<forall>v \<in> set (succs nodes (L ! h)). v < length d \<and> 1 \<le> d ! v"
proof -
  let ?u = "L ! h" and ?P = "set (take h L)"
  note I = inv [unfolded kahn_inv_def]
  have "?u < length nodes" using I nth_mem [OF h] by auto
  moreover have "?u \<notin> ?P" using I h by (auto simp: distinct_conv_nth in_set_conv_nth)
  ultimately have u: "?u < length nodes" "?u \<notin> ?P" by blast+
  have P': "set (take (h + 1) L) = insert ?u ?P" "set (take (h + 1) ?L) = insert ?u ?P" using h by (simp_all add: take_Suc_conv_app_nth)
  have s: "distinct (succs nodes ?u)" "set (succs nodes ?u) \<subseteq> {..< length nodes}" using ok u(1) by (simp_all add: nodes_ok_def)
  have ge: "1 \<le> d ! v" if "v \<in> set (succs nodes ?u)" for v
  proof -
    have "?u \<in> preds nodes ?P v" using u that by (simp add: preds_def)
    then have "0 < card (preds nodes ?P v)" by (auto simp: card_gt_0_iff)
    then show ?thesis using I s(2) that by (auto simp: Suc_le_eq)
  qed
  then show "\<forall>v \<in> set (succs nodes ?u). v < length d \<and> 1 \<le> d ! v" using I s(2) by auto
  have cnt: "d' ! v = card (preds nodes (insert ?u ?P) v)" if "v < length nodes" for v
  proof (cases "v \<in> set (succs nodes ?u)")
    case True
    have "card (preds nodes (insert ?u ?P) v) = card (preds nodes ?P v) - 1"
      using preds_remove [OF u(2,1) True] by (simp add: card_Diff_singleton)
    then show ?thesis using d'(2) I True that by simp
  next
    case False
    then show ?thesis using d'(2) I that by (simp add: preds_keep)
  qed
  have mem: "v \<in> set ?L \<longleftrightarrow> d' ! v = 0" if "v < length nodes" for v
    using that d'(2) I ge [of v] by auto
  have "d ! v = 0" if "v \<in> set L" for v using I that by auto
  then have "set L \<inter> set (filter (\<lambda>v. d ! v = 1) (succs nodes ?u)) = {}" by auto
  then have dist: "distinct ?L" using I s(1) by simp
  have sub: "set ?L \<subseteq> {..< length nodes}" using I s(2) by auto
  have top: "preds nodes (set (take j ?L)) (?L ! j) = {}" if j: "j < length ?L" for j
  proof (cases "j < length L")
    case True
    then show ?thesis using I by (simp add: nth_append)
  next
    case False
    have "?L ! j \<in> set ?L" using j by (rule nth_mem)
    then have "preds nodes (insert ?u ?P) (?L ! j) = {}" using mem [of "?L ! j"] cnt [of "?L ! j"] sub by auto
    moreover have "insert ?u ?P \<subseteq> set (take j ?L)"
      unfolding P'(2) [symmetric] using False h by (intro set_take_subset_set_take) simp
    ultimately show ?thesis by (auto simp: preds_def)
  qed
  show "kahn_inv nodes (h + 1) d' ?L" unfolding kahn_inv_def P'(2) using I d'(1) dist sub cnt mem top h by simp
qed

lemma kahn_loop_holds:
  assumes ok: "nodes_ok nodes" and "kahn_inv nodes h d L" "q_holds (length nodes) q L"
  shows "\<exists>d' L'. kahn_loop nodes h h d q = Some (length L', L') \<and> kahn_inv nodes (length L') d' L'"
  using assms(2,3)
proof (induction "length nodes - h" arbitrary: h d q L rule: less_induct)
  case less
  show ?case
  proof (cases "h < length L")
    case True
    let ?s = "succs nodes (L ! h)"
    have q: "fst q ! h = L ! h" "h < length (fst q)" "snd q = length L"
    proof -
      have "length L \<le> length (fst q)" using less.prems(2) unfolding q_holds_def by (metis nat_le_linear take_all)
      then show "h < length (fst q)" "snd q = length L" using True less.prems(2) by (simp_all add: q_holds_def)
      show "fst q ! h = L ! h" using True less.prems(2) unfolding q_holds_def by (metis nth_take)
    qed
    have u: "L ! h < length nodes" using less.prems(1) nth_mem [OF True] by (auto simp: kahn_inv_def)
    have dd: "length (map (\<lambda>v. if v \<in> set ?s then d ! v - 1 else d ! v) [0..<length d]) = length d"
      "\<forall>v < length d. map (\<lambda>v. if v \<in> set ?s then d ! v - 1 else d ! v) [0..<length d] ! v = (if v \<in> set ?s then d ! v - 1 else d ! v)"
      by simp_all
    note st = kahn_inv_step [OF ok less.prems(1) True]
    let ?L = "L @ filter (\<lambda>v. d ! v = 1) ?s"
    have "distinct ?L" "set ?L \<subseteq> {..< length nodes}" using st(1) [OF dd] by (simp_all only: kahn_inv_def)
    then have "length ?L \<le> length nodes" by (metis card_lessThan card_mono distinct_card finite_lessThan)
    then have room: "length L + length (filter (\<lambda>v. d ! v = 1) ?s) \<le> length nodes" by simp
    have "distinct ?s" using ok u by (simp add: nodes_ok_def)
    from kahn_relax_holds [OF less.prems(2) room this st(2) [OF dd]] obtain d' q' where
      r: "kahn_relax ?s d q = Some (d', q')" "q_holds (length nodes) q' ?L" "length d' = length d"
        "\<forall>v < length d. d' ! v = (if v \<in> set ?s then d ! v - 1 else d ! v)" by blast
    have "kahn_loop nodes h h d q = kahn_loop nodes (h + 1) (h + 1) d' q'"
      by (subst kahn_loop.simps) (use True q u r(1) in \<open>simp add: succs_def\<close>)
    moreover have "length nodes - (h + 1) < length nodes - h" using q(2) less.prems(2) by (simp add: q_holds_def)
    ultimately show ?thesis using less.hyps [OF _ st(1) [OF r(3,4)] r(2)] by simp
  next
    case False
    then have "h = length L" using less.prems(1) by (simp add: kahn_inv_def)
    moreover have "kahn_loop nodes h h d q = Some (h, take (snd q) (fst q))"
      using False less.prems(2) by (subst kahn_loop.simps) (simp add: q_holds_def)
    ultimately show ?thesis using less.prems by (auto simp: q_holds_def)
  qed
qed

lemma kahn_all_acyclic:
  assumes inv: "kahn_inv nodes (length L) d L" and all: "length L = length nodes" and ok: "nodes_ok nodes"
  shows "acyclic (edges nodes)"
proof -
  note I = inv [unfolded kahn_inv_def]
  let ?idx = "inv_into {..< length L} (\<lambda>j. L ! j)"
  have idx: "?idx (L ! j) = j" if "j < length L" for j using that I by (intro inv_into_f_f inj_on_nth) auto
  have "card (set L) = length nodes" using I all by (simp add: distinct_card)
  then have set: "set L = {..< length nodes}" using I by (simp add: card_subset_eq)
  have "?idx u < ?idx v" if "(u, v) \<in> edges nodes" for u v
  proof -
    have "v \<in> set L" using that ok set by (auto simp: edges_def nodes_ok_def)
    then obtain j where j: "j < length L" "L ! j = v" by (auto simp: in_set_conv_nth)
    have "u \<in> set (take j L)" using that I j by (auto simp: preds_def edges_def)
    then obtain i where "i < j" "L ! i = u" using j(1) by (auto simp: in_set_conv_nth)
    then show ?thesis using idx [of i] idx [of j] j by auto
  qed
  then have "edges nodes \<subseteq> measure ?idx" by auto
  then show ?thesis by (intro wf_acyclic wf_subset [OF wf_measure])
qed

lemma finite_edges: "nodes_ok nodes \<Longrightarrow> finite (edges nodes)"
  by (rule finite_subset [of _ "{..< length nodes} \<times> {..< length nodes}"]) (auto simp: edges_def nodes_ok_def)

lemma kahn_acyclic_all:
  assumes inv: "kahn_inv nodes (length L) d L" and ac: "acyclic (edges nodes)" and ok: "nodes_ok nodes"
  shows "length L = length nodes"
proof (rule ccontr)
  note I = inv [unfolded kahn_inv_def]
  assume "length L \<noteq> length nodes"
  then have "set L \<noteq> {..< length nodes}" using I by (metis card_lessThan distinct_card)
  then obtain x where x: "x \<in> {..< length nodes} - set L" using I by blast
  have "wf (edges nodes)" using finite_acyclic_wf [OF finite_edges [OF ok] ac] .
  from wfE_min [OF this x] obtain v where v: "v \<in> {..< length nodes} - set L"
      "\<And>u. (u, v) \<in> edges nodes \<Longrightarrow> u \<notin> {..< length nodes} - set L" by blast
  have "d ! v \<noteq> 0" "d ! v = card (preds nodes (set L) v)" using I v(1) by auto
  then obtain u where "u \<in> preds nodes (set L) v" by fastforce
  then have "(u, v) \<in> edges nodes" "u \<in> {..< length nodes} - set L" by (auto simp: preds_def edges_def)
  then show False using v(2) by blast
qed

lemma kahn_decides:
  assumes ok: "nodes_ok nodes"
  shows "\<exists>d q visited L. kahn_init 0 nodes (replicate (length nodes) 0) (replicate (length nodes) 0, 0) = Some (d, q) \<and>
    kahn_loop nodes 0 0 d q = Some (visited, L) \<and> (visited = length nodes \<longleftrightarrow> acyclic (edges nodes))"
proof -
  let ?n = "length nodes" and ?L = "filter (\<lambda>j. tn_static_in_degree (nodes ! j) = 0) [0..<length nodes]"
  have "q_holds ?n (replicate ?n 0, 0) []" by (simp add: q_holds_def)
  from kahn_init_holds [OF this, of nodes "replicate ?n 0" 0] obtain q where
    q: "kahn_init 0 nodes (replicate ?n 0) (replicate ?n 0, 0) = Some (map tn_static_in_degree nodes, q)" "q_holds ?n q ?L" by auto
  from kahn_loop_holds [OF ok kahn_inv_start [OF ok] q(2)] obtain d' L' where
    l: "kahn_loop nodes 0 0 (map tn_static_in_degree nodes) q = Some (length L', L')" "kahn_inv nodes (length L') d' L'" by blast
  show ?thesis using q(1) l(1) kahn_all_acyclic [OF l(2) _ ok] kahn_acyclic_all [OF l(2) _ ok] by blast
qed

subsection \<open>Building a graph\<close>

datatype 'f tg_op = AddNode bool bool bool "'f option" | AddEdge bool nat nat

fun tg_apply :: "'f tg_op \<Rightarrow> 'f cobalt_taskgraph option \<Rightarrow> 'f cobalt_taskgraph option" where
  "tg_apply (AddNode a b c f) g = snd (snd (cobalt_taskgraph_add_node a b c g f))"
| "tg_apply (AddEdge p u v) g = snd (snd (cobalt_taskgraph_add_edge p g u v))"

lemma edge_exists_iff [simp]: "edge_exists v ss \<longleftrightarrow> v \<in> set ss"
  by (induction ss) auto

lemma preds_snoc:
  assumes "tn_successors node = []" "\<forall>u < length nodes. set (succs nodes u) \<subseteq> {..< length nodes}" "u \<le> length nodes"
  shows "preds (nodes @ [node]) {} u = (if u < length nodes then preds nodes {} u else {})"
  using assms by (auto simp: preds_def succs_def nth_append less_Suc_eq)

lemma add_node_ok:
  assumes ok: "nodes_ok nodes" and node: "tn_successors node = []" "tn_static_in_degree node = 0" and room: "Suc (length nodes) < SIZE_MAX"
  shows "nodes_ok (nodes @ [node])"
proof -
  have s: "succs (nodes @ [node]) u = (if u < length nodes then succs nodes u else [])" if "u \<le> length nodes" for u
    using that node(1) by (auto simp: succs_def nth_append)
  have p: "preds (nodes @ [node]) {} u = (if u < length nodes then preds nodes {} u else {})" if "u \<le> length nodes" for u
    using preds_snoc [OF node(1) _ that] ok by (simp add: nodes_ok_def)
  have sub: "set (succs nodes u) \<subseteq> {..< Suc (length nodes)}" if "u < length nodes" for u
    using ok that by (fastforce simp: nodes_ok_def)
  show ?thesis unfolding nodes_ok_def
  proof (intro conjI allI impI)
    fix u
    assume "u < length (nodes @ [node])"
    then have u: "u < length nodes \<or> u = length nodes" by auto
    show "distinct (succs (nodes @ [node]) u)" using u s ok by (auto simp: nodes_ok_def)
    show "set (succs (nodes @ [node]) u) \<subseteq> {..< length (nodes @ [node])}" using u s [of u] sub [of u] by (cases "u < length nodes") simp_all
    show "tn_static_in_degree ((nodes @ [node]) ! u) = card (preds (nodes @ [node]) {} u)"
    proof (cases "u < length nodes")
      case True
      then show ?thesis using p [of u] ok by (simp add: nodes_ok_def nth_append)
    next
      case False
      then show ?thesis using u p [of u] node(2) by (simp add: nth_append)
    qed
  qed (use room in simp)
qed

lemma add_edge_ok:
  assumes ok: "nodes_ok nodes" and u: "u < length nodes" and v: "v < length nodes" and new: "v \<notin> set (succs nodes u)"
    and n1: "nodes1 = nodes[u := (nodes ! u)\<lparr>tn_successors := succs nodes u @ [v]\<rparr>]"
    and n2: "nodes2 = nodes1[v := (nodes1 ! v)\<lparr>tn_static_in_degree := szt (tn_static_in_degree (nodes1 ! v) + 1)\<rparr>]"
  shows "nodes_ok nodes2" "edges nodes2 = insert (u, v) (edges nodes)"
proof -
  have len: "length nodes2 = length nodes" using n1 n2 by simp
  have s: "succs nodes2 w = (if w = u then succs nodes u @ [v] else succs nodes w)" if "w < length nodes" for w
    using that u v n1 n2 by (auto simp: succs_def nth_list_update)
  have "tn_static_in_degree (nodes1 ! w) = tn_static_in_degree (nodes ! w)" if "w < length nodes" for w
    using that n1 u by (auto simp: nth_list_update)
  then have st: "tn_static_in_degree (nodes2 ! w) = (if w = v then szt (tn_static_in_degree (nodes ! v) + 1) else tn_static_in_degree (nodes ! w))"
    if "w < length nodes" for w using that n1 n2 v by (auto simp: nth_list_update)
  have p: "preds nodes2 {} w = (if w = v then insert u (preds nodes {} v) else preds nodes {} w)" for w
    using u s by (auto simp: preds_def len split: if_splits)
  have "u \<notin> preds nodes {} v" using new by (simp add: preds_def)
  then have c: "card (insert u (preds nodes {} v)) = card (preds nodes {} v) + 1" by simp
  have "card (preds nodes {} v) \<le> card {..< length nodes}" by (rule card_mono) (auto simp: preds_def)
  then have "szt (card (preds nodes {} v) + 1) = card (preds nodes {} v) + 1" using ok by (simp add: nodes_ok_def)
  then have deg: "szt (tn_static_in_degree (nodes ! v) + 1) = card (insert u (preds nodes {} v))"
    using ok v c by (simp add: nodes_ok_def)
  show "nodes_ok nodes2" unfolding nodes_ok_def len
  proof (intro conjI allI impI)
    fix w
    assume w: "w < length nodes"
    have o: "distinct (succs nodes w)" "set (succs nodes w) \<subseteq> {..< length nodes}" using ok w by (simp_all add: nodes_ok_def)
    show "distinct (succs nodes2 w)" "set (succs nodes2 w) \<subseteq> {..< length nodes}" using s [OF w] o new v by auto
    show "tn_static_in_degree (nodes2 ! w) = card (preds nodes2 {} w)"
    proof (cases "w = v")
      case True
      then show ?thesis using st [OF w] p [of w] deg by simp
    next
      case False
      then show ?thesis using st [OF w] p [of w] ok w by (simp add: nodes_ok_def)
    qed
  qed (use ok in \<open>simp add: nodes_ok_def\<close>)
  show "edges nodes2 = insert (u, v) (edges nodes)" using u s by (auto simp: edges_def len split: if_splits)
qed

text \<open>The abstract graph: the number of nodes and the set of edges.\<close>

fun spec_apply :: "'f tg_op \<Rightarrow> nat \<times> (nat \<times> nat) set \<Rightarrow> nat \<times> (nat \<times> nat) set" where
  "spec_apply (AddNode a b c f) (n, E) = (if a \<and> b \<and> c \<and> f \<noteq> None then n + 1 else n, E)"
| "spec_apply (AddEdge p u v) (n, E) = (n, if u < n \<and> v < n \<and> p then insert (u, v) E else E)"

definition represents :: "'f cobalt_taskgraph option \<Rightarrow> nat \<times> (nat \<times> nat) set \<Rightarrow> bool" where
  "represents g G \<longleftrightarrow> (\<exists>graph. g = Some graph \<and> nodes_ok (tg_nodes graph) \<and> \<not> tg_compiled graph \<and> tg_root_nodes graph = [] \<and>
     length (tg_nodes graph) = fst G \<and> edges (tg_nodes graph) = snd G)"

lemma edges_snoc:
  "tn_successors node = [] \<Longrightarrow> edges (nodes @ [node]) = edges nodes"
  by (auto simp: edges_def succs_def nth_append less_Suc_eq split: if_splits)

lemma apply_represents:
  assumes "represents g G" "fst G + 1 < SIZE_MAX"
  shows "represents (tg_apply oper g) (spec_apply oper G) \<and> fst (spec_apply oper G) \<le> fst G + 1"
proof -
  obtain n E where G: "G = (n, E)" by force
  from assms(1) G obtain graph where g: "g = Some graph" "nodes_ok (tg_nodes graph)" "\<not> tg_compiled graph" "tg_root_nodes graph = []"
    "length (tg_nodes graph) = n" "edges (tg_nodes graph) = E" by (auto simp: represents_def)
  show ?thesis
  proof (cases oper)
    case (AddNode a b c f)
    have "nodes_ok (tg_nodes graph @ [\<lparr>tn_fn = fn, tn_static_in_degree = 0, tn_remaining_in_degree = 0, tn_successors = []\<rparr>])" for fn
      using assms(2) g G by (intro add_node_ok) simp_all
    then show ?thesis using AddNode g G by (auto simp: represents_def cobalt_taskgraph_add_node_def edges_snoc split: option.splits)
  next
    case (AddEdge p u v)
    show ?thesis
    proof (cases "u < n \<and> v < n \<and> p \<and> v \<notin> set (succs (tg_nodes graph) u)")
      case True
      then have uv: "u < length (tg_nodes graph)" "v < length (tg_nodes graph)" "v \<notin> set (succs (tg_nodes graph) u)" using g(5) by simp_all
      show ?thesis using add_edge_ok [OF g(2) uv refl refl] True AddEdge g G
        by (simp add: represents_def cobalt_taskgraph_add_edge_def Let_def succs_def)
    next
      case False
      have "insert (u, v) E = E" if "u < n" "v \<in> set (succs (tg_nodes graph) u)" using that g by (auto simp: edges_def)
      then show ?thesis using False AddEdge g G by (auto simp: represents_def cobalt_taskgraph_add_edge_def Let_def succs_def)
    qed
  qed
qed

lemma build_represents:
  assumes "represents g G" "fst G + length ops < SIZE_MAX"
  shows "represents (fold tg_apply ops g) (fold spec_apply ops G)"
  using assms
proof (induction ops arbitrary: g G)
  case (Cons oper ops)
  then show ?case using apply_represents [OF Cons.prems(1), of oper] by fastforce
qed simp

lemma cache_roots_all: "(\<And>i. push_ok i) \<Longrightarrow>
    cache_roots push_ok i nodes = map (\<lambda>j. i + j) (filter (\<lambda>j. tn_static_in_degree (nodes ! j) = 0) [0..<length nodes])"
proof (induction nodes arbitrary: i)
  case (Cons node nodes)
  have upt: "[0..<length (node # nodes)] = 0 # map Suc [0..<length nodes]"
    using upt_conv_Cons [of 0 "Suc (length nodes)"] map_Suc_upt [of 0 "length nodes"] by simp
  show ?case unfolding upt using Cons by (simp add: filter_map o_def)
qed simp

lemma degree_zero_iff:
  assumes "nodes_ok nodes" "v < length nodes"
  shows "tn_static_in_degree (nodes ! v) = 0 \<longleftrightarrow> (\<forall>u. (u, v) \<notin> edges nodes)"
  using assms by (auto simp: nodes_ok_def preds_def edges_def)

lemma built_graph:
  assumes "cobalt_taskgraph_create True True True = (None, g0)" "length ops < SIZE_MAX"
    and "fold tg_apply ops g0 = g" "fold spec_apply ops (0, {}) = (n, E)"
  shows "\<exists>graph. g = Some graph \<and> nodes_ok (tg_nodes graph) \<and> \<not> tg_compiled graph \<and> tg_root_nodes graph = [] \<and>
    length (tg_nodes graph) = n \<and> edges (tg_nodes graph) = E"
proof -
  have "represents g0 (0, {})"
    using assms(1) by (auto simp: represents_def cobalt_taskgraph_create_def cobalt_taskgraph_create_with_alloc_def nodes_ok_def edges_def)
  from build_represents [OF this, of ops] assms(2,3,4) show ?thesis by (auto simp: represents_def)
qed

lemma cached_roots:
  assumes ok: "nodes_ok nodes" and "\<forall>i. push_ok i"
  shows "cache_roots push_ok 0 nodes = filter (\<lambda>v. \<forall>u. (u, v) \<notin> edges nodes) [0..<length nodes]"
proof -
  have "filter (\<lambda>j. tn_static_in_degree (nodes ! j) = 0) [0..<length nodes] = filter (\<lambda>v. \<forall>u. (u, v) \<notin> edges nodes) [0..<length nodes]"
    by (rule filter_cong) (use degree_zero_iff [OF ok] in auto)
  then show ?thesis using assms(2) by (simp add: cache_roots_all)
qed

lemma compile_result:
  assumes ok: "nodes_ok (tg_nodes graph)" and new: "\<not> tg_compiled graph" "tg_root_nodes graph = []"
  shows "if acyclic (edges (tg_nodes graph))
     then \<exists>graph'. cobalt_taskgraph_compile True True alloc_roots push_ok (Some graph) = Some (0, None, Some graph') \<and>
       tg_nodes graph' = tg_nodes graph \<and> tg_compiled graph' \<and>
       (alloc_roots \<and> (\<forall>i. push_ok i) \<longrightarrow>
          tg_root_nodes graph' = filter (\<lambda>v. \<forall>u. (u, v) \<notin> edges (tg_nodes graph)) [0..<length (tg_nodes graph)])
     else cobalt_taskgraph_compile True True alloc_roots push_ok (Some graph) = Some (-1, Some COBALT_ERROR_INVALID_ARGUMENT, Some graph)"
proof (cases "tg_nodes graph = []")
  case True
  then have "acyclic (edges (tg_nodes graph))" by (simp add: edges_def acyclic_def)
  then show ?thesis using True new by (simp add: cobalt_taskgraph_compile_def)
next
  case False
  from kahn_decides [OF ok] obtain d q visited L where
    k: "kahn_init 0 (tg_nodes graph) (replicate (length (tg_nodes graph)) 0) (replicate (length (tg_nodes graph)) 0, 0) = Some (d, q)"
      "kahn_loop (tg_nodes graph) 0 0 d q = Some (visited, L)" "visited = length (tg_nodes graph) \<longleftrightarrow> acyclic (edges (tg_nodes graph))" by blast
  show ?thesis using False new k cached_roots [OF ok, of push_ok]
    by (cases "acyclic (edges (tg_nodes graph))") (simp_all add: cobalt_taskgraph_compile_def)
qed

text \<open>
  C11: whatever calls built a task graph, and whichever of them were refused or ran out of memory, compiling it
  ends without leaving its arrays and succeeds exactly if the relation of the accepted edges has no cycle. A
  cycle is reported and leaves the graph as it was; on success the nodes are unchanged and, if the
  vector of the root nodes could be filled, it holds the nodes without predecessor.
\<close>

theorem taskgraph_compile_acyclic:
  assumes "cobalt_taskgraph_create True True True = (None, g0)" "length ops < SIZE_MAX"
    and "fold tg_apply ops g0 = g" "fold spec_apply ops (0, {}) = (n, E)"
  shows "\<exists>graph. g = Some graph \<and> cobalt_taskgraph_node_count g = n \<and> edges (tg_nodes graph) = E \<and>
    (if acyclic E
     then \<exists>graph'. cobalt_taskgraph_compile True True alloc_roots push_ok g = Some (0, None, Some graph') \<and>
       tg_nodes graph' = tg_nodes graph \<and> tg_compiled graph' \<and>
       (alloc_roots \<and> (\<forall>i. push_ok i) \<longrightarrow> tg_root_nodes graph' = filter (\<lambda>v. \<forall>u. (u, v) \<notin> E) [0..<n])
     else cobalt_taskgraph_compile True True alloc_roots push_ok g = Some (-1, Some COBALT_ERROR_INVALID_ARGUMENT, g))"
proof -
  from built_graph [OF assms] obtain graph where g: "g = Some graph" "nodes_ok (tg_nodes graph)" "\<not> tg_compiled graph" "tg_root_nodes graph = []"
    "length (tg_nodes graph) = n" "edges (tg_nodes graph) = E" by blast
  show ?thesis unfolding g(1) using compile_result [OF g(2,3,4), of alloc_roots push_ok, unfolded g(5,6)] g(5,6)
    by (simp add: cobalt_taskgraph_node_count_def)
qed

theorem taskgraph_compile_acyclic_witness:
  "\<exists>graph. fold tg_apply [AddNode True True True (Some CHR ''a''), AddNode True True True (Some CHR ''b''), AddEdge True 0 1, AddEdge True 1 0]
     (snd (cobalt_taskgraph_create True True True)) = Some graph \<and> cobalt_taskgraph_node_count (Some graph) = 2 \<and>
     edges (tg_nodes graph) = {(0, 1), (1, 0)}"
  using taskgraph_compile_acyclic [of "snd (cobalt_taskgraph_create True True True)"
      "[AddNode True True True (Some CHR ''a''), AddNode True True True (Some CHR ''b''), AddEdge True 0 1, AddEdge True 1 0]",
      OF _ _ refl, of 2 "{(0, 1), (1, 0)}"]
  by (force simp: cobalt_taskgraph_create_def cobalt_taskgraph_create_with_alloc_def)

subsection \<open>Execution\<close>

text \<open>
  Activations: the loop of \<open>cobalt_taskgraph_run\<close> over the remaining root nodes, and \<open>taskgraph_node_worker\<close>
  before and during the callback and in its loop over the successors. The log records the
  beginning and the end of each callback.
\<close>

datatype frame = Roots "nat list" | Begin nat | Exec nat | Notify nat nat

datatype event = Started nat | Ended nat

record exec =
  ex_remaining :: "nat list"
  ex_submitted :: "nat multiset"
  ex_stacks :: "frame list list"
  ex_wg :: int
  ex_log :: "event list"

text \<open>\<open>accept\<close> is the answer of \<open>cobalt_threadpool_submit\<close>; a task that is refused runs in a nested activation.\<close>

definition submit :: "bool \<Rightarrow> nat \<Rightarrow> frame list \<Rightarrow> exec \<Rightarrow> frame list \<times> exec" where
  "submit accept v stack e = (if accept then (stack, e\<lparr>ex_submitted := add_mset v (ex_submitted e)\<rparr>) else (Begin v # stack, e))"

fun thread_step :: "'f task_node list \<Rightarrow> bool \<Rightarrow> frame list \<Rightarrow> exec \<Rightarrow> frame list \<times> exec" where
  "thread_step nodes accept [] e = ([], e)"
| "thread_step nodes accept (Roots [] # fs) e = (fs, e)"
| "thread_step nodes accept (Roots (r # rs) # fs) e = submit accept r (Roots rs # fs) e"
| "thread_step nodes accept (Begin v # fs) e = (Exec v # fs, e\<lparr>ex_log := ex_log e @ [Started v]\<rparr>)"
| "thread_step nodes accept (Exec v # fs) e = (Notify v 0 # fs, e\<lparr>ex_log := ex_log e @ [Ended v]\<rparr>)"
| "thread_step nodes accept (Notify v i # fs) e =
     (if i < length (tn_successors (nodes ! v)) then
        let succ_id = tn_successors (nodes ! v) ! i;
            prev = ex_remaining e ! succ_id;
            e' = e\<lparr>ex_remaining := (ex_remaining e)[succ_id := szt_dec prev]\<rparr> in
        if prev = 1 then submit accept succ_id (Notify v (i + 1) # fs) e'
        else (Notify v (i + 1) # fs, e')
      else (fs, e\<lparr>ex_wg := ex_wg e - 1\<rparr>))"

inductive tg_exec :: "'f task_node list \<Rightarrow> exec \<Rightarrow> nat \<Rightarrow> exec \<Rightarrow> bool" for nodes e0 where
  start: "tg_exec nodes e0 0 e0"
| thread: "tg_exec nodes e0 k e \<Longrightarrow> t < length (ex_stacks e) \<Longrightarrow> ex_stacks e ! t \<noteq> [] \<Longrightarrow>
    thread_step nodes accept (ex_stacks e ! t) e = (stack, e') \<Longrightarrow> tg_exec nodes e0 (Suc k) (e'\<lparr>ex_stacks := (ex_stacks e)[t := stack]\<rparr>)"
| dispatch: "tg_exec nodes e0 k e \<Longrightarrow> t < length (ex_stacks e) \<Longrightarrow> ex_stacks e ! t = [] \<Longrightarrow> v \<in># ex_submitted e \<Longrightarrow>
    tg_exec nodes e0 (Suc k) (e\<lparr>ex_submitted := ex_submitted e - {#v#}, ex_stacks := (ex_stacks e)[t := [Begin v]]\<rparr>)"

text \<open>
  The state in which \<open>cobalt_taskgraph_run\<close> starts to submit the root nodes, on thread 0 of \<open>threads + 1\<close> threads;
  \<open>None\<close> if there is nothing to execute.
\<close>

definition cobalt_taskgraph_run ::
    "bool \<Rightarrow> nat \<Rightarrow> 'f cobalt_taskgraph option \<Rightarrow> bool \<Rightarrow> int \<times> cobalt_error option \<times> 'f cobalt_taskgraph option \<times> exec option" where
  "cobalt_taskgraph_run alloc_wg threads g pool_null =
     (case g of
        None \<Rightarrow> (-1, Some COBALT_ERROR_INVALID_ARGUMENT, g, None)
      | Some graph \<Rightarrow>
          if pool_null \<or> \<not> tg_compiled graph then (-1, Some COBALT_ERROR_INVALID_ARGUMENT, g, None)
          else if length (tg_nodes graph) = 0 then (0, None, g, None)
          else
            let g' = cobalt_taskgraph_reset g in
            if \<not> alloc_wg then (-1, Some COBALT_ERROR_OUT_OF_MEMORY, g', None)
            else (0, None, g', Some
              \<lparr>ex_remaining = map tn_remaining_in_degree (tg_nodes (the g')), ex_submitted = {#},
               ex_stacks = [Roots (tg_root_nodes graph)] # replicate threads [],
               ex_wg = int (length (tg_nodes graph)), ex_log = []\<rparr>))"

text \<open>\<open>cobalt_taskgraph_run_and_wait\<close> returns in the states of the execution in which the wait group has counted all nodes.\<close>

definition cobalt_taskgraph_run_and_wait ::
    "bool \<Rightarrow> nat \<Rightarrow> 'f cobalt_taskgraph option \<Rightarrow> bool \<Rightarrow> exec \<Rightarrow> (int \<times> cobalt_error option) option" where
  "cobalt_taskgraph_run_and_wait alloc_wg threads g pool_null e =
     (case g of
        None \<Rightarrow> Some (-1, Some COBALT_ERROR_INVALID_ARGUMENT)
      | Some graph \<Rightarrow>
          if pool_null \<or> \<not> tg_compiled graph then Some (-1, Some COBALT_ERROR_INVALID_ARGUMENT)
          else if length (tg_nodes graph) = 0 then Some (0, None)
          else
            case cobalt_taskgraph_run alloc_wg threads g pool_null of
              (r, err, g', e0) \<Rightarrow>
                if r \<noteq> 0 then Some (-1, err)
                else if ex_wg e = 0 then Some (0, None) else None)"

subsection \<open>Stages of a task\<close>

datatype stage = Waiting | Rooted | Queued | Begun | Running | Notifying nat | Finished

definition active :: "stage \<Rightarrow> bool" where
  "active s \<longleftrightarrow> s \<noteq> Waiting \<and> s \<noteq> Finished"

fun frame_tokens :: "frame \<Rightarrow> (nat \<times> stage) multiset" where
  "frame_tokens (Roots rs) = image_mset (\<lambda>r. (r, Rooted)) (mset rs)"
| "frame_tokens (Begin v) = {#(v, Begun)#}"
| "frame_tokens (Exec v) = {#(v, Running)#}"
| "frame_tokens (Notify v i) = {#(v, Notifying i)#}"

definition stack_tokens :: "frame list \<Rightarrow> (nat \<times> stage) multiset" where
  "stack_tokens fs = \<Sum>\<^sub># (mset (map frame_tokens fs))"

definition tokens :: "exec \<Rightarrow> (nat \<times> stage) multiset" where
  "tokens e = image_mset (\<lambda>v. (v, Queued)) (ex_submitted e) + \<Sum>\<^sub># (mset (map stack_tokens (ex_stacks e)))"

definition toks :: "nat \<Rightarrow> (nat \<Rightarrow> stage) \<Rightarrow> (nat \<times> stage) multiset" where
  "toks n st = image_mset (\<lambda>v. (v, st v)) (mset_set {v. v < n \<and> active (st v)})"

lemma stack_tokens_simps [simp]: "stack_tokens [] = {#}" "stack_tokens (f # fs) = frame_tokens f + stack_tokens fs"
  by (simp_all add: stack_tokens_def)

lemma stacks_update:
  assumes "t < length ss"
  shows "\<Sum>\<^sub># (mset (map stack_tokens (ss[t := s]))) + stack_tokens (ss ! t) = \<Sum>\<^sub># (mset (map stack_tokens ss)) + stack_tokens s"
  using assms
proof (induction ss arbitrary: t)
  case (Cons x ss)
  then show ?case
  proof (cases t)
    case (Suc t')
    then show ?thesis using Cons by (simp add: add.assoc)
  qed (simp add: ac_simps)
qed simp

lemma toks_split:
  assumes "v < n"
  shows "toks n st = (if active (st v) then {#(v, st v)#} else {#}) + image_mset (\<lambda>w. (w, st w)) (mset_set {w. w < n \<and> active (st w) \<and> w \<noteq> v})"
proof -
  let ?A = "{w. w < n \<and> active (st w) \<and> w \<noteq> v}"
  have "{w. w < n \<and> active (st w)} = (if active (st v) then insert v ?A else ?A)" using assms by auto
  then show ?thesis by (simp add: toks_def)
qed

lemma toks_update:
  assumes "v < n"
  shows "toks n (st(v := s)) + (if active (st v) then {#(v, st v)#} else {#}) = toks n st + (if active s then {#(v, s)#} else {#})"
proof -
  let ?st = "st(v := s)"
  have "{w. w < n \<and> active (?st w) \<and> w \<noteq> v} = {w. w < n \<and> active (st w) \<and> w \<noteq> v}" by auto
  moreover have "image_mset (\<lambda>w. (w, ?st w)) (mset_set {w. w < n \<and> active (st w) \<and> w \<noteq> v}) =
      image_mset (\<lambda>w. (w, st w)) (mset_set {w. w < n \<and> active (st w) \<and> w \<noteq> v})" by (rule image_mset_cong) auto
  ultimately show ?thesis using toks_split [OF assms, of st] toks_split [OF assms, of ?st] by (simp add: ac_simps)
qed

lemma toks_elem: "(v, s) \<in># toks n st \<Longrightarrow> v < n \<and> st v = s \<and> active s"
  by (auto simp: toks_def)

fun sent :: "'f task_node list \<Rightarrow> stage \<Rightarrow> nat \<Rightarrow> nat \<Rightarrow> bool" where
  "sent nodes (Notifying i) u v \<longleftrightarrow> v \<in> set (take i (succs nodes u))"
| "sent nodes Finished u v \<longleftrightarrow> True"
| "sent nodes s u v \<longleftrightarrow> False"

definition unsent :: "'f task_node list \<Rightarrow> (nat \<Rightarrow> stage) \<Rightarrow> nat \<Rightarrow> nat set" where
  "unsent nodes st v = {u. u < length nodes \<and> v \<in> set (succs nodes u) \<and> \<not> sent nodes (st u) u v}"

fun begun :: "stage \<Rightarrow> bool" where
  "begun Running = True"
| "begun (Notifying i) = True"
| "begun Finished = True"
| "begun s = False"

fun ended :: "stage \<Rightarrow> bool" where
  "ended (Notifying i) = True"
| "ended Finished = True"
| "ended s = False"

definition log_ok :: "(nat \<times> nat) set \<Rightarrow> event list \<Rightarrow> bool" where
  "log_ok E log \<longleftrightarrow> distinct log \<and> (\<forall>a v b. log = a @ Started v # b \<longrightarrow> (\<forall>u. (u, v) \<in> E \<longrightarrow> Ended u \<in> set a))"

definition stages_ok :: "'f task_node list \<Rightarrow> (nat \<Rightarrow> stage) \<Rightarrow> nat list \<Rightarrow> bool" where
  "stages_ok nodes st rem \<longleftrightarrow> length rem = length nodes \<and>
     (\<forall>v < length nodes. rem ! v = card (unsent nodes st v) \<and> (st v = Waiting \<longleftrightarrow> rem ! v \<noteq> 0) \<and>
        (\<forall>i. st v = Notifying i \<longrightarrow> i \<le> length (succs nodes v)))"

definition history_ok :: "'f task_node list \<Rightarrow> (nat \<Rightarrow> stage) \<Rightarrow> event list \<Rightarrow> int \<Rightarrow> bool" where
  "history_ok nodes st log wg \<longleftrightarrow> log_ok (edges nodes) log \<and>
     (\<forall>v. (Started v \<in> set log \<longleftrightarrow> v < length nodes \<and> begun (st v)) \<and> (Ended v \<in> set log \<longleftrightarrow> v < length nodes \<and> ended (st v))) \<and>
     wg = int (length nodes) - int (card {v. v < length nodes \<and> st v = Finished})"

lemma finite_unsent [simp]: "finite (unsent nodes st v)"
  by (rule finite_subset [of _ "{..< length nodes}"]) (auto simp: unsent_def)

lemma unsent_upd: "(\<And>x. sent nodes s v x \<longleftrightarrow> sent nodes (st v) v x) \<Longrightarrow> unsent nodes (st(v := s)) w = unsent nodes st w"
  by (auto simp: unsent_def)

lemma stagesD:
  assumes "stages_ok nodes st rem"
  shows "length rem = length nodes"
    and "v < length nodes \<Longrightarrow> rem ! v = card (unsent nodes st v)"
    and "v < length nodes \<Longrightarrow> st v = Waiting \<longleftrightarrow> rem ! v \<noteq> 0"
    and "v < length nodes \<Longrightarrow> st v = Notifying i \<Longrightarrow> i \<le> length (succs nodes v)"
  using assms unfolding stages_ok_def by blast+

lemma stagesI:
  assumes "length rem = length nodes" "\<And>v. v < length nodes \<Longrightarrow> rem ! v = card (unsent nodes st v)"
    and "\<And>v. v < length nodes \<Longrightarrow> st v = Waiting \<longleftrightarrow> rem ! v \<noteq> 0"
    and "\<And>v i. v < length nodes \<Longrightarrow> st v = Notifying i \<Longrightarrow> i \<le> length (succs nodes v)"
  shows "stages_ok nodes st rem"
  using assms unfolding stages_ok_def by blast

lemma stages_upd:
  assumes st: "stages_ok nodes st rem" and un: "\<And>w. unsent nodes (st(v := s)) w = unsent nodes st w" and s: "s \<noteq> Waiting" "st v \<noteq> Waiting"
    "\<And>i. s = Notifying i \<Longrightarrow> i \<le> length (succs nodes v)"
  shows "stages_ok nodes (st(v := s)) rem"
proof (rule stagesI)
  show "rem ! w = card (unsent nodes (st(v := s)) w)" if "w < length nodes" for w unfolding un using stagesD(2) [OF st that] .
  show "(st(v := s)) w = Waiting \<longleftrightarrow> rem ! w \<noteq> 0" if "w < length nodes" for w
    using stagesD(3) [OF st that] s(1,2) by (cases "w = v") simp_all
  show "i \<le> length (succs nodes w)" if "w < length nodes" "(st(v := s)) w = Notifying i" for w i
    using stagesD(4) [OF st that(1), of i] s(3) that(2) by (cases "w = v") simp_all
qed (rule stagesD(1) [OF st])

lemma stages_move:
  assumes "stages_ok nodes st rem" "\<And>x. sent nodes s v x \<longleftrightarrow> sent nodes (st v) v x" "active s" "active (st v)"
    "\<And>i. s = Notifying i \<Longrightarrow> i \<le> length (succs nodes v)"
  shows "stages_ok nodes (st(v := s)) rem"
proof -
  have "unsent nodes (st(v := s)) w = unsent nodes st w" for w by (rule unsent_upd) (rule assms(2))
  then show ?thesis using assms(3,4) by (intro stages_upd [OF assms(1) _ _ _ assms(5)]) (simp_all add: active_def)
qed

lemma stages_finish:
  assumes "stages_ok nodes st rem" "st v = Notifying (length (succs nodes v))"
  shows "stages_ok nodes (st(v := Finished)) rem"
  by (rule stages_upd [OF assms(1)]) (use assms(2) in \<open>auto simp: unsent_def\<close>)

lemma history_same:
  assumes "history_ok nodes st log wg" "begun s = begun (st v)" "ended s = ended (st v)" "s \<noteq> Finished" "st v \<noteq> Finished"
  shows "history_ok nodes (st(v := s)) log wg"
proof -
  have "{u. u < length nodes \<and> (st(v := s)) u = Finished} = {u. u < length nodes \<and> st u = Finished}" using assms(4,5) by auto
  then show ?thesis using assms(1,2,3) by (simp add: history_ok_def)
qed

lemma log_ok_snoc:
  assumes "log_ok E log" "ev \<notin> set log" "\<And>v u. ev = Started v \<Longrightarrow> (u, v) \<in> E \<Longrightarrow> Ended u \<in> set log"
  shows "log_ok E (log @ [ev])"
  unfolding log_ok_def
proof (intro conjI allI impI)
  fix a v b u
  assume l: "log @ [ev] = a @ Started v # b" and E: "(u, v) \<in> E"
  show "Ended u \<in> set a"
  proof (cases b rule: rev_cases)
    case Nil
    then show ?thesis using l E assms(3) by auto
  next
    case (snoc b' x)
    then have "log = a @ Started v # b'" using l by simp
    then show ?thesis using assms(1) E unfolding log_ok_def by blast
  qed
qed (use assms(1,2) in \<open>simp add: log_ok_def\<close>)

text \<open>A task whose remaining in-degree is zero has only predecessors that have ended.\<close>

lemma ready_preds_ended:
  assumes "stages_ok nodes st rem" "v < length nodes" "st v \<noteq> Waiting" "(u, v) \<in> edges nodes"
  shows "u < length nodes \<and> ended (st u)"
proof -
  have "card (unsent nodes st v) = 0" using stagesD(2,3) [OF assms(1,2)] assms(3) by simp
  then have "unsent nodes st v = {}" by simp
  then have "u < length nodes" "sent nodes (st u) u v" using assms(4) by (auto simp: unsent_def edges_def)
  then show ?thesis by (cases "st u") auto
qed

lemma history_start:
  assumes h: "history_ok nodes st log wg" and st: "stages_ok nodes st rem" and v: "v < length nodes" "st v = Begun"
  shows "history_ok nodes (st(v := Running)) (log @ [Started v]) wg"
proof -
  have "{u. u < length nodes \<and> (st(v := Running)) u = Finished} = {u. u < length nodes \<and> st u = Finished}" using v(2) by auto
  moreover have "log_ok (edges nodes) (log @ [Started v])"
  proof (rule log_ok_snoc)
    show "Started v \<notin> set log" using h v by (simp add: history_ok_def)
    show "Ended u \<in> set log" if "Started v = Started v'" "(u, v') \<in> edges nodes" for v' u
      using ready_preds_ended [OF st v(1), of u] that h v(2) by (auto simp: history_ok_def)
  qed (use h in \<open>simp add: history_ok_def\<close>)
  ultimately show ?thesis using h v by (auto simp: history_ok_def)
qed

lemma history_end:
  assumes h: "history_ok nodes st log wg" and v: "v < length nodes" "st v = Running"
  shows "history_ok nodes (st(v := Notifying 0)) (log @ [Ended v]) wg"
proof -
  have "{u. u < length nodes \<and> (st(v := Notifying 0)) u = Finished} = {u. u < length nodes \<and> st u = Finished}" using v(2) by auto
  moreover have "log_ok (edges nodes) (log @ [Ended v])"
    by (rule log_ok_snoc) (use h v in \<open>simp_all add: history_ok_def\<close>)
  ultimately show ?thesis using h v by (auto simp: history_ok_def)
qed

lemma history_finish:
  assumes h: "history_ok nodes st log wg" and v: "v < length nodes" "st v = Notifying i"
  shows "history_ok nodes (st(v := Finished)) log (wg - 1)"
proof -
  have "{u. u < length nodes \<and> (st(v := Finished)) u = Finished} = insert v {u. u < length nodes \<and> st u = Finished}" using v(1) by auto
  moreover have "v \<notin> {u. u < length nodes \<and> st u = Finished}" using v(2) by simp
  ultimately show ?thesis using h v by (auto simp: history_ok_def)
qed

text \<open>The atomic decrement for the \<open>i\<close>-th successor \<open>w\<close> of \<open>v\<close>.\<close>

lemma stages_notify:
  assumes ok: "nodes_ok nodes" and st: "stages_ok nodes st rem" and v: "v < length nodes" "st v = Notifying i" "i < length (succs nodes v)"
    and w: "w = succs nodes v ! i"
  shows "w < length nodes" "rem ! w \<noteq> 0" "st w = Waiting" "w \<noteq> v"
    and "rem ! w \<noteq> 1 \<Longrightarrow> stages_ok nodes (st(v := Notifying (i + 1))) (rem[w := szt_dec (rem ! w)])"
    and "rem ! w = 1 \<Longrightarrow> s = Queued \<or> s = Begun \<Longrightarrow> stages_ok nodes (st(v := Notifying (i + 1), w := s)) (rem[w := szt_dec (rem ! w)])"
proof -
  let ?st = "st(v := Notifying (i + 1))"
  have s: "distinct (succs nodes v)" "set (succs nodes v) \<subseteq> {..< length nodes}" using ok v(1) by (simp_all add: nodes_ok_def)
  have mem: "w \<in> set (succs nodes v)" using v(3) w by simp
  then show wn: "w < length nodes" using s(2) by auto
  have tk: "take (i + 1) (succs nodes v) = take i (succs nodes v) @ [w]" using v(3) w by (simp add: take_Suc_conv_app_nth)
  have nt: "w \<notin> set (take i (succs nodes v))" using s(1) v(3) w by (auto simp: distinct_conv_nth in_set_conv_nth)
  have un: "v \<in> unsent nodes st w" using v mem nt by (simp add: unsent_def)
  then have "card (unsent nodes st w) \<noteq> 0" by auto
  then show nz: "rem ! w \<noteq> 0" using stagesD(2) [OF st wn] by argo
  show sw: "st w = Waiting" using stagesD(3) [OF st wn] nz by blast
  then show wv: "w \<noteq> v" using v(2) by auto
  have uw: "unsent nodes ?st w = unsent nodes st w - {v}" using v(2) tk by (auto simp: unsent_def)
  have ux: "unsent nodes ?st x = unsent nodes st x" if "x \<noteq> w" for x using v(2) tk that by (auto simp: unsent_def)
  have dec: "szt_dec (rem ! w) = rem ! w - 1" using nz by (simp add: szt_dec_def)
  let ?rem = "rem[w := rem ! w - 1]"
  have wlen: "w < length rem" using wn stagesD(1) [OF st] by simp
  have r: "?rem ! x = card (unsent nodes ?st x)" if "x < length nodes" for x
  proof (cases "x = w")
    case True
    then show ?thesis using stagesD(2) [OF st wn] un wlen unfolding True uw by (simp add: card_Diff_singleton)
  next
    case False
    then show ?thesis using stagesD(2) [OF st that] ux by simp
  qed
  have len: "length ?rem = length nodes" using stagesD(1) [OF st] by simp
  have wait: "st x = Waiting \<longleftrightarrow> ?rem ! x \<noteq> 0" if "x < length nodes" "x \<noteq> w" for x
    using that stagesD(3) [OF st that(1)] by simp
  have idx: "j \<le> length (succs nodes x)" if "x < length nodes" "?st x = Notifying j" for x j
    using that stagesD(4) [OF st that(1), of j] v(3) by (cases "x = v") auto
  show "stages_ok nodes ?st (rem[w := szt_dec (rem ! w)])" if "rem ! w \<noteq> 1"
    unfolding dec
  proof (rule stagesI [OF len r _ idx])
    fix x
    assume x: "x < length nodes"
    show "?st x = Waiting \<longleftrightarrow> ?rem ! x \<noteq> 0"
    proof (cases "x = w")
      case True
      then show ?thesis using that nz sw wv wlen by simp
    next
      case False
      then show ?thesis using wait [OF x False] v(2) by (cases "x = v") auto
    qed
  qed
  show "stages_ok nodes (?st(w := s)) (rem[w := szt_dec (rem ! w)])" if a: "rem ! w = 1" "s = Queued \<or> s = Begun"
    unfolding dec
  proof (rule stagesI [OF len])
    fix x
    assume x: "x < length nodes"
    have "unsent nodes (?st(w := s)) x = unsent nodes ?st x" by (rule unsent_upd) (use a(2) sw wv in auto)
    then show "?rem ! x = card (unsent nodes (?st(w := s)) x)" using r [OF x] by simp
    show "(?st(w := s)) x = Waiting \<longleftrightarrow> ?rem ! x \<noteq> 0"
    proof (cases "x = w")
      case True
      then show ?thesis using a wlen by auto
    next
      case False
      then show ?thesis using wait [OF x False] v(2) by (cases "x = v") auto
    qed
    show "j \<le> length (succs nodes x)" if "(?st(w := s)) x = Notifying j" for j
      using idx [OF x, of j] that a(2) by (cases "x = w") auto
  qed
qed

subsection \<open>The invariant of an execution\<close>

text \<open>The number of steps a task with \<open>d\<close> successors still causes.\<close>

fun cost :: "nat \<Rightarrow> stage \<Rightarrow> nat" where
  "cost d Waiting = d + 6"
| "cost d Rooted = d + 6"
| "cost d Queued = d + 5"
| "cost d Begun = d + 4"
| "cost d Running = d + 3"
| "cost d (Notifying i) = d - i + 1"
| "cost d Finished = 0"

definition total_cost :: "'f task_node list \<Rightarrow> (nat \<Rightarrow> stage) \<Rightarrow> nat" where
  "total_cost nodes st = (\<Sum>v < length nodes. cost (length (succs nodes v)) (st v))"

fun is_roots :: "frame \<Rightarrow> bool" where
  "is_roots (Roots rs) = True"
| "is_roots f = False"

definition root_frames :: "frame list list \<Rightarrow> nat" where
  "root_frames ss = sum_list (map (\<lambda>s. length (filter is_roots s)) ss)"

definition exec_inv :: "'f task_node list \<Rightarrow> nat \<Rightarrow> nat \<Rightarrow> exec \<Rightarrow> (nat \<Rightarrow> stage) \<Rightarrow> bool" where
  "exec_inv nodes K k e st \<longleftrightarrow> tokens e = toks (length nodes) st \<and> stages_ok nodes st (ex_remaining e) \<and>
     history_ok nodes st (ex_log e) (ex_wg e) \<and> k + total_cost nodes st + root_frames (ex_stacks e) \<le> K"

lemma root_frames_upd:
  "t < length ss \<Longrightarrow> root_frames (ss[t := s]) + length (filter is_roots (ss ! t)) = root_frames ss + length (filter is_roots s)"
proof (induction ss arbitrary: t)
  case (Cons x ss)
  then show ?case by (cases t) (simp_all add: root_frames_def)
qed simp

lemma total_cost_upd:
  assumes "v < length nodes"
  shows "total_cost nodes (st(v := s)) + cost (length (succs nodes v)) (st v) = total_cost nodes st + cost (length (succs nodes v)) s"
proof -
  have "total_cost nodes st' = cost (length (succs nodes v)) (st' v) + (\<Sum>u \<in> {..< length nodes} - {v}. cost (length (succs nodes u)) (st' u))" for st'
    using assms unfolding total_cost_def by (intro sum.remove) simp_all
  moreover have "(\<Sum>u \<in> {..< length nodes} - {v}. cost (length (succs nodes u)) ((st(v := s)) u)) =
      (\<Sum>u \<in> {..< length nodes} - {v}. cost (length (succs nodes u)) (st u))" by (rule sum.cong) auto
  ultimately show ?thesis by simp
qed

lemma tokens_upd:
  "t < length (ex_stacks e) \<Longrightarrow> tokens (e\<lparr>ex_stacks := (ex_stacks e)[t := s]\<rparr>) + stack_tokens (ex_stacks e ! t) = tokens e + stack_tokens s"
  using stacks_update [of t "ex_stacks e" s] by (simp add: tokens_def add.assoc)

lemma stack_token_in:
  assumes "t < length (ex_stacks e)" "x \<in># stack_tokens (ex_stacks e ! t)"
  shows "x \<in># tokens e"
proof -
  have "stack_tokens (ex_stacks e ! t) \<in> set (map stack_tokens (ex_stacks e))" using assms(1) by simp
  then show ?thesis using assms(2) by (auto simp: tokens_def)
qed

lemma inv_token:
  assumes "exec_inv nodes K k e st" "t < length (ex_stacks e)" "(v, s) \<in># stack_tokens (ex_stacks e ! t)"
  shows "v < length nodes" "st v = s"
  using stack_token_in [OF assms(2,3)] assms(1) toks_elem [of v s "length nodes" st] by (auto simp: exec_inv_def)

lemma inv_move:
  assumes inv: "exec_inv nodes K k e st" and v: "v < length nodes" "active (st v)"
    and tok: "tokens e2 + {#(v, st v)#} = tokens e + (if active s then {#(v, s)#} else {#})"
    and ok: "stages_ok nodes (st(v := s)) (ex_remaining e2)" "history_ok nodes (st(v := s)) (ex_log e2) (ex_wg e2)"
    and cost: "cost (length (succs nodes v)) s < cost (length (succs nodes v)) (st v)" "root_frames (ex_stacks e2) = root_frames (ex_stacks e)"
  shows "exec_inv nodes K (Suc k) e2 (st(v := s))"
proof -
  have "tokens e2 + {#(v, st v)#} = toks (length nodes) (st(v := s)) + {#(v, st v)#}"
    using tok toks_update [OF v(1), of st s] v(2) inv by (simp add: exec_inv_def)
  then have "tokens e2 = toks (length nodes) (st(v := s))" by simp
  moreover have "Suc k + total_cost nodes (st(v := s)) + root_frames (ex_stacks e2) \<le> K"
    using total_cost_upd [OF v(1), of st s] cost inv by (simp add: exec_inv_def)
  ultimately show ?thesis using ok by (simp add: exec_inv_def)
qed

lemma inv_move2:
  assumes inv: "exec_inv nodes K k e st" and v: "v < length nodes" "active (st v)" "active s"
    and w: "w < length nodes" "w \<noteq> v" "st w = Waiting" "active s'"
    and tok: "tokens e2 + {#(v, st v)#} = tokens e + {#(v, s), (w, s')#}"
    and ok: "stages_ok nodes (st(v := s, w := s')) (ex_remaining e2)" "history_ok nodes (st(v := s, w := s')) (ex_log e2) (ex_wg e2)"
    and cost: "cost (length (succs nodes v)) s < cost (length (succs nodes v)) (st v)"
      "cost (length (succs nodes w)) s' \<le> cost (length (succs nodes w)) Waiting" "root_frames (ex_stacks e2) = root_frames (ex_stacks e)"
  shows "exec_inv nodes K (Suc k) e2 (st(v := s, w := s'))"
proof -
  let ?st = "st(v := s)"
  have nw: "\<not> active (?st w)" using w(2,3) by (simp add: active_def)
  have "toks (length nodes) (?st(w := s')) = toks (length nodes) ?st + {#(w, s')#}" using toks_update [OF w(1), of ?st s'] nw w(4) by simp
  then have "tokens e2 + {#(v, st v)#} = toks (length nodes) (?st(w := s')) + {#(v, st v)#}"
    using tok toks_update [OF v(1), of st s] v(2,3) inv by (simp add: exec_inv_def)
  then have "tokens e2 = toks (length nodes) (?st(w := s'))" by simp
  moreover have "Suc k + total_cost nodes (?st(w := s')) + root_frames (ex_stacks e2) \<le> K"
    using total_cost_upd [OF v(1), of st s] total_cost_upd [OF w(1), of ?st s'] cost inv w(2,3) by (simp add: exec_inv_def)
  ultimately show ?thesis using ok by (simp add: exec_inv_def)
qed

lemma submit_tokens:
  assumes "submit accept v stack0 e = (stack, e')" "t < length ss" "ex_stacks e = ss"
  shows "tokens (e'\<lparr>ex_stacks := ss[t := stack]\<rparr>) + stack_tokens (ss ! t) =
      tokens e + stack_tokens stack0 + {#(v, if accept then Queued else Begun)#}"
    and "ex_remaining e' = ex_remaining e" "ex_log e' = ex_log e" "ex_wg e' = ex_wg e"
    and "root_frames (ss[t := stack]) + length (filter is_roots (ss ! t)) = root_frames ss + length (filter is_roots stack0)"
  using assms stacks_update [of t ss stack] root_frames_upd [of t ss stack]
  by (auto simp: submit_def tokens_def split: if_splits)

lemma roots_inv:
  assumes inv: "exec_inv nodes K k e st" and t: "t < length (ex_stacks e)" "ex_stacks e ! t = Roots rs # fs"
    and step: "thread_step nodes accept (ex_stacks e ! t) e = (stack, e')"
  shows "\<exists>st'. exec_inv nodes K (Suc k) (e'\<lparr>ex_stacks := (ex_stacks e)[t := stack]\<rparr>) st'"
proof (cases rs)
  case Nil
  let ?e = "e\<lparr>ex_stacks := (ex_stacks e)[t := fs]\<rparr>"
  have "e' = e" "stack = fs" using step t(2) Nil by simp_all
  moreover have "tokens ?e = tokens e" using tokens_upd [OF t(1), of fs] t(2) Nil by simp
  moreover have "root_frames (ex_stacks ?e) + 1 = root_frames (ex_stacks e)" using root_frames_upd [OF t(1), of fs] t(2) Nil by simp
  ultimately have "exec_inv nodes K (Suc k) (e'\<lparr>ex_stacks := (ex_stacks e)[t := stack]\<rparr>) st" using inv by (simp add: exec_inv_def)
  then show ?thesis by blast
next
  case (Cons r rs')
  let ?s = "if accept then Queued else Begun"
  have "submit accept r (Roots rs' # fs) e = (stack, e')" using step t(2) Cons by simp
  note sub = submit_tokens [OF this t(1) refl]
  have v: "r < length nodes" "st r = Rooted" using inv_token [OF inv t(1), of r Rooted] t(2) Cons by simp_all
  have "exec_inv nodes K (Suc k) (e'\<lparr>ex_stacks := (ex_stacks e)[t := stack]\<rparr>) (st(r := ?s))"
  proof (rule inv_move [OF inv v(1)])
    show "tokens (e'\<lparr>ex_stacks := (ex_stacks e)[t := stack]\<rparr>) + {#(r, st r)#} = tokens e + (if active ?s then {#(r, ?s)#} else {#})"
      using sub(1) t(2) Cons v(2) by (simp add: active_def)
    show "stages_ok nodes (st(r := ?s)) (ex_remaining (e'\<lparr>ex_stacks := (ex_stacks e)[t := stack]\<rparr>))"
      using stages_move [of nodes st "ex_remaining e" ?s r] inv v(2) sub(2) by (cases accept) (simp_all add: exec_inv_def active_def)
    show "history_ok nodes (st(r := ?s)) (ex_log (e'\<lparr>ex_stacks := (ex_stacks e)[t := stack]\<rparr>)) (ex_wg (e'\<lparr>ex_stacks := (ex_stacks e)[t := stack]\<rparr>))"
      using history_same [of nodes st "ex_log e" "ex_wg e" ?s r] inv v(2) sub(3,4) by (cases accept) (simp_all add: exec_inv_def)
  qed (use v(2) sub(5) t(2) in \<open>auto simp: active_def\<close>)
  then show ?thesis by blast
qed

lemma begin_exec_inv:
  assumes inv: "exec_inv nodes K k e st" and t: "t < length (ex_stacks e)"
    and step: "thread_step nodes accept (ex_stacks e ! t) e = (stack, e')"
  shows "ex_stacks e ! t = Begin v # fs \<Longrightarrow> \<exists>st'. exec_inv nodes K (Suc k) (e'\<lparr>ex_stacks := (ex_stacks e)[t := stack]\<rparr>) st'"
    and "ex_stacks e ! t = Exec v # fs \<Longrightarrow> \<exists>st'. exec_inv nodes K (Suc k) (e'\<lparr>ex_stacks := (ex_stacks e)[t := stack]\<rparr>) st'"
proof -
  note I = inv [unfolded exec_inv_def]
  assume f: "ex_stacks e ! t = Begin v # fs"
  then have r: "stack = Exec v # fs" "e' = e\<lparr>ex_log := ex_log e @ [Started v]\<rparr>" using step by simp_all
  have v: "v < length nodes" "st v = Begun" using inv_token [OF inv t, of v Begun] f by simp_all
  have "exec_inv nodes K (Suc k) (e'\<lparr>ex_stacks := (ex_stacks e)[t := stack]\<rparr>) (st(v := Running))"
  proof (rule inv_move [OF inv v(1)])
    show "stages_ok nodes (st(v := Running)) (ex_remaining (e'\<lparr>ex_stacks := (ex_stacks e)[t := stack]\<rparr>))"
      using stages_move [of nodes st "ex_remaining e" Running v] I v(2) r by (simp add: active_def)
  qed (use history_start [of nodes st "ex_log e" "ex_wg e" "ex_remaining e" v] I v r f tokens_upd [OF t, of stack] root_frames_upd [OF t, of stack]
    in \<open>simp_all add: active_def tokens_def\<close>)
  then show "\<exists>st'. exec_inv nodes K (Suc k) (e'\<lparr>ex_stacks := (ex_stacks e)[t := stack]\<rparr>) st'" by blast
next
  note I = inv [unfolded exec_inv_def]
  assume f: "ex_stacks e ! t = Exec v # fs"
  then have r: "stack = Notify v 0 # fs" "e' = e\<lparr>ex_log := ex_log e @ [Ended v]\<rparr>" using step by simp_all
  have v: "v < length nodes" "st v = Running" using inv_token [OF inv t, of v Running] f by simp_all
  have "exec_inv nodes K (Suc k) (e'\<lparr>ex_stacks := (ex_stacks e)[t := stack]\<rparr>) (st(v := Notifying 0))"
  proof (rule inv_move [OF inv v(1)])
    show "stages_ok nodes (st(v := Notifying 0)) (ex_remaining (e'\<lparr>ex_stacks := (ex_stacks e)[t := stack]\<rparr>))"
      using stages_move [of nodes st "ex_remaining e" "Notifying 0" v] I v(2) r by (simp add: active_def)
  qed (use history_end [of nodes st "ex_log e" "ex_wg e" v] I v r f tokens_upd [OF t, of stack] root_frames_upd [OF t, of stack]
    in \<open>simp_all add: active_def tokens_def\<close>)
  then show "\<exists>st'. exec_inv nodes K (Suc k) (e'\<lparr>ex_stacks := (ex_stacks e)[t := stack]\<rparr>) st'" by blast
qed

lemma notify_inv:
  assumes ok: "nodes_ok nodes" and inv: "exec_inv nodes K k e st" and t: "t < length (ex_stacks e)" "ex_stacks e ! t = Notify v i # fs"
    and step: "thread_step nodes accept (ex_stacks e ! t) e = (stack, e')" and i: "i < length (succs nodes v)"
  shows "\<exists>st'. exec_inv nodes K (Suc k) (e'\<lparr>ex_stacks := (ex_stacks e)[t := stack]\<rparr>) st'"
proof -
  note I = inv [unfolded exec_inv_def]
  have v: "v < length nodes" "st v = Notifying i" using inv_token [OF inv t(1), of v "Notifying i"] t(2) by simp_all
  define w where "w = succs nodes v ! i"
  define e1 where "e1 = e\<lparr>ex_remaining := (ex_remaining e)[w := szt_dec (ex_remaining e ! w)]\<rparr>"
  have "stages_ok nodes st (ex_remaining e)" using I by blast
  note n = stages_notify [OF ok this v i w_def]
  have i': "i < length (tn_successors (nodes ! v))" "tn_successors (nodes ! v) ! i = w" using i by (simp_all add: w_def succs_def)
  have h: "history_ok nodes (st(v := Notifying (i + 1))) (ex_log e) (ex_wg e)"
    using history_same [of nodes st "ex_log e" "ex_wg e" "Notifying (i + 1)" v] I v(2) by simp
  have c: "cost (length (succs nodes v)) (Notifying (i + 1)) < cost (length (succs nodes v)) (st v)" using v(2) i by simp
  show ?thesis
  proof (cases "ex_remaining e ! w = 1")
    case False
    then have r: "stack = Notify v (i + 1) # fs" "e' = e1" using step t(2) i' by (simp_all add: Let_def e1_def)
    have "exec_inv nodes K (Suc k) (e'\<lparr>ex_stacks := (ex_stacks e)[t := stack]\<rparr>) (st(v := Notifying (i + 1)))"
      by (rule inv_move [OF inv v(1)])
        (use n(5) False h c v(2) r t(2) tokens_upd [OF t(1), of stack] root_frames_upd [OF t(1), of stack]
          in \<open>simp_all add: active_def tokens_def e1_def\<close>)
    then show ?thesis by blast
  next
    case True
    let ?s = "if accept then Queued else Begun"
    have "submit accept w (Notify v (i + 1) # fs) e1 = (stack, e')" using step t(2) i' True by (simp add: Let_def e1_def)
    note sub = submit_tokens [OF this t(1)]
    have s: "?s = Queued \<or> ?s = Begun" by simp
    have hw: "history_ok nodes (st(v := Notifying (i + 1), w := ?s)) (ex_log e) (ex_wg e)"
      using history_same [OF h, of ?s w] n(3,4) by (cases accept) simp_all
    have "exec_inv nodes K (Suc k) (e'\<lparr>ex_stacks := (ex_stacks e)[t := stack]\<rparr>) (st(v := Notifying (i + 1), w := ?s))"
    proof (rule inv_move2 [OF inv v(1) _ _ n(1,4,3)])
      have "tokens e1 = tokens e" "ex_stacks e1 = ex_stacks e" by (simp_all add: e1_def tokens_def)
      then show "tokens (e'\<lparr>ex_stacks := (ex_stacks e)[t := stack]\<rparr>) + {#(v, st v)#} = tokens e + {#(v, Notifying (i + 1)), (w, ?s)#}"
        using sub(1) t(2) v(2) by simp
      show "stages_ok nodes (st(v := Notifying (i + 1), w := ?s)) (ex_remaining (e'\<lparr>ex_stacks := (ex_stacks e)[t := stack]\<rparr>))"
        using n(6) [OF True s] sub(2) by (simp add: e1_def)
    qed (use hw c v(2) sub(3,4,5) t(2) in \<open>auto simp: active_def e1_def\<close>)
    then show ?thesis by blast
  qed
qed

lemma finish_inv:
  assumes inv: "exec_inv nodes K k e st" and t: "t < length (ex_stacks e)" "ex_stacks e ! t = Notify v i # fs"
    and step: "thread_step nodes accept (ex_stacks e ! t) e = (stack, e')" and i: "\<not> i < length (succs nodes v)"
  shows "\<exists>st'. exec_inv nodes K (Suc k) (e'\<lparr>ex_stacks := (ex_stacks e)[t := stack]\<rparr>) st'"
proof -
  note I = inv [unfolded exec_inv_def]
  have v: "v < length nodes" "st v = Notifying i" using inv_token [OF inv t(1), of v "Notifying i"] t(2) by simp_all
  have "i \<le> length (succs nodes v)" using I stagesD(4) [of nodes st "ex_remaining e" v i] v by blast
  then have i': "i = length (succs nodes v)" using i by simp
  have r: "stack = fs" "e' = e\<lparr>ex_wg := ex_wg e - 1\<rparr>" using step t(2) i by (simp_all add: succs_def)
  have "exec_inv nodes K (Suc k) (e'\<lparr>ex_stacks := (ex_stacks e)[t := stack]\<rparr>) (st(v := Finished))"
    by (rule inv_move [OF inv v(1)])
      (use stages_finish [of nodes st "ex_remaining e" v] history_finish [of nodes st "ex_log e" "ex_wg e" v i] I i' v r t(2)
        tokens_upd [OF t(1), of stack] root_frames_upd [OF t(1), of stack] in \<open>simp_all add: active_def tokens_def\<close>)
  then show ?thesis by blast
qed

lemma dispatch_inv:
  assumes inv: "exec_inv nodes K k e st" and t: "t < length (ex_stacks e)" "ex_stacks e ! t = []" and v: "v \<in># ex_submitted e"
  shows "\<exists>st'. exec_inv nodes K (Suc k) (e\<lparr>ex_submitted := ex_submitted e - {#v#}, ex_stacks := (ex_stacks e)[t := [Begin v]]\<rparr>) st'"
proof -
  note I = inv [unfolded exec_inv_def]
  let ?e = "e\<lparr>ex_submitted := ex_submitted e - {#v#}, ex_stacks := (ex_stacks e)[t := [Begin v]]\<rparr>"
  have "(v, Queued) \<in># tokens e" using v by (auto simp: tokens_def)
  then have q: "v < length nodes" "st v = Queued" using I toks_elem [of v Queued "length nodes" st] by auto
  obtain M where M: "ex_submitted e = add_mset v M" using v by (meson multi_member_split)
  have "exec_inv nodes K (Suc k) ?e (st(v := Begun))"
  proof (rule inv_move [OF inv q(1)])
    show "stages_ok nodes (st(v := Begun)) (ex_remaining ?e)"
      using stages_move [of nodes st "ex_remaining e" Begun v] I q(2) by (simp add: active_def)
    show "history_ok nodes (st(v := Begun)) (ex_log ?e) (ex_wg ?e)"
      using history_same [of nodes st "ex_log e" "ex_wg e" Begun v] I q(2) by simp
  qed (use q M t(2) stacks_update [OF t(1), of "[Begin v]"] root_frames_upd [OF t(1), of "[Begin v]"] in \<open>simp_all add: active_def tokens_def\<close>)
  then show ?thesis by blast
qed

lemma exec_keeps_inv:
  assumes ok: "nodes_ok nodes" and inv: "exec_inv nodes K 0 e0 st0" and run: "tg_exec nodes e0 k e"
  shows "\<exists>st. exec_inv nodes K k e st"
  using run
proof induction
  case start
  then show ?case using inv by blast
next
  case (thread k e t accept stack e')
  from thread.IH obtain st where st: "exec_inv nodes K k e st" by blast
  from thread.hyps(3) obtain f fs where f: "ex_stacks e ! t = f # fs" by (cases "ex_stacks e ! t") auto
  show ?case
  proof (cases f)
    case (Roots rs)
    show ?thesis by (rule roots_inv [OF st thread.hyps(2) f [unfolded Roots] thread.hyps(4)])
  next
    case (Begin v)
    show ?thesis by (rule begin_exec_inv(1) [OF st thread.hyps(2,4) f [unfolded Begin]])
  next
    case (Exec v)
    show ?thesis by (rule begin_exec_inv(2) [OF st thread.hyps(2,4) f [unfolded Exec]])
  next
    case (Notify v i)
    show ?thesis
      using notify_inv [OF ok st thread.hyps(2) f [unfolded Notify] thread.hyps(4)] finish_inv [OF st thread.hyps(2) f [unfolded Notify] thread.hyps(4)]
      by blast
  qed
next
  case (dispatch k e t v)
  then show ?case using dispatch_inv by blast
qed

lemma card_edges:
  assumes "nodes_ok nodes"
  shows "card (edges nodes) = (\<Sum>u < length nodes. length (succs nodes u))"
proof -
  have "edges nodes = (SIGMA u : {..< length nodes}. set (succs nodes u))" by (auto simp: edges_def)
  moreover have "(\<Sum>u < length nodes. card (set (succs nodes u))) = (\<Sum>u < length nodes. length (succs nodes u))"
    by (rule sum.cong) (use assms in \<open>auto simp: nodes_ok_def distinct_card\<close>)
  ultimately show ?thesis by simp
qed

lemma start_exec_inv:
  assumes ok: "nodes_ok (tg_nodes graph)" and roots: "tg_root_nodes graph = filter (\<lambda>v. \<forall>u. (u, v) \<notin> edges (tg_nodes graph)) [0..<length (tg_nodes graph)]"
    and run: "cobalt_taskgraph_run True threads (Some graph) False = (0, None, g', Some e0)"
  shows "\<exists>st. exec_inv (tg_nodes graph) (6 * length (tg_nodes graph) + card (edges (tg_nodes graph)) + 1) 0 e0 st"
    and "length (ex_stacks e0) = threads + 1"
proof -
  let ?N = "tg_nodes graph" and ?R = "tg_root_nodes graph"
  let ?st = "\<lambda>v. if v \<in> set ?R then Rooted else Waiting"
  from run have e0: "e0 = \<lparr>ex_remaining = map tn_static_in_degree ?N, ex_submitted = {#}, ex_stacks = [Roots ?R] # replicate threads [],
      ex_wg = int (length ?N), ex_log = []\<rparr>"
    by (auto simp: cobalt_taskgraph_run_def cobalt_taskgraph_reset_def Let_def o_def split: if_splits)
  show "length (ex_stacks e0) = threads + 1" by (simp add: e0)
  have R: "v \<in> set ?R \<longleftrightarrow> v < length ?N \<and> tn_static_in_degree (?N ! v) = 0" for v
    using degree_zero_iff [OF ok] unfolding roots by auto
  have dist: "distinct ?R" unfolding roots by simp
  have "{v. v < length ?N \<and> active (?st v)} = set ?R" using R by (auto simp: active_def)
  then have "toks (length ?N) ?st = image_mset (\<lambda>v. (v, ?st v)) (mset ?R)" using dist by (simp add: toks_def mset_set_set)
  also have "\<dots> = image_mset (\<lambda>v. (v, Rooted)) (mset ?R)" by (rule image_mset_cong) simp
  finally have tok: "tokens e0 = toks (length ?N) ?st" by (simp add: e0 tokens_def)
  have un: "unsent ?N ?st v = preds ?N {} v" for v by (auto simp: unsent_def preds_def)
  have st: "stages_ok ?N ?st (ex_remaining e0)"
  proof (rule stagesI)
    show "ex_remaining e0 ! v = card (unsent ?N ?st v)" if "v < length ?N" for v
      using ok that unfolding un by (simp add: e0 nodes_ok_def)
    show "?st v = Waiting \<longleftrightarrow> ex_remaining e0 ! v \<noteq> 0" if "v < length ?N" for v using R that by (simp add: e0)
  qed (auto simp: e0 split: if_splits)
  have his: "history_ok ?N ?st (ex_log e0) (ex_wg e0)" by (simp add: history_ok_def e0 log_ok_def)
  have "total_cost ?N ?st = (\<Sum>v < length ?N. length (succs ?N v) + 6)" unfolding total_cost_def by (rule sum.cong) auto
  then have "total_cost ?N ?st = card (edges ?N) + 6 * length ?N" using card_edges [OF ok] by (simp add: sum.distrib)
  moreover have "root_frames (ex_stacks e0) = 1" by (simp add: e0 root_frames_def)
  ultimately have "exec_inv ?N (6 * length ?N + card (edges ?N) + 1) 0 e0 ?st" using tok st his by (simp add: exec_inv_def)
  then show "\<exists>st. exec_inv ?N (6 * length ?N + card (edges ?N) + 1) 0 e0 st" by blast
qed

lemma exec_threads: "tg_exec nodes e0 k e \<Longrightarrow> length (ex_stacks e) = length (ex_stacks e0)"
  by (induction rule: tg_exec.induct) auto

lemma no_tokens_finished:
  assumes ok: "nodes_ok nodes" and ac: "acyclic (edges nodes)" and inv: "exec_inv nodes K k e st" and empty: "tokens e = {#}" and v: "v < length nodes"
  shows "st v = Finished"
proof (rule ccontr)
  note I = inv [unfolded exec_inv_def]
  have "finite {u. u < length nodes \<and> active (st u)}" by simp
  moreover have "toks (length nodes) st = {#}" using I empty by simp
  ultimately have "{u. u < length nodes \<and> active (st u)} = {}" by (simp add: toks_def mset_set_empty_iff)
  then have na: "\<not> active (st u)" if "u < length nodes" for u using that by blast
  assume "st v \<noteq> Finished"
  then have v': "v \<in> {u. u < length nodes \<and> st u = Waiting}" using na [OF v] v by (simp add: active_def)
  have "wf (edges nodes)" using finite_acyclic_wf [OF finite_edges [OF ok] ac] .
  from wfE_min [OF this v'] obtain x where x: "x \<in> {u. u < length nodes \<and> st u = Waiting}"
    "\<And>u. (u, x) \<in> edges nodes \<Longrightarrow> u \<notin> {u. u < length nodes \<and> st u = Waiting}" by blast
  have st: "stages_ok nodes st (ex_remaining e)" using I by blast
  have xn: "x < length nodes" "st x = Waiting" using x(1) by auto
  have "card (unsent nodes st x) \<noteq> 0" using stagesD(2,3) [OF st xn(1)] xn(2) by metis
  then have "unsent nodes st x \<noteq> {}" by (metis card.empty)
  then obtain u where u: "u < length nodes" "x \<in> set (succs nodes u)" "\<not> sent nodes (st u) u x" by (auto simp: unsent_def)
  have "st u = Waiting" using na [OF u(1)] u(3) by (auto simp: active_def)
  then show False using x(2) u(1,2) by (auto simp: edges_def)
qed

lemma exec_progress:
  assumes "ex_stacks e \<noteq> []" "tokens e \<noteq> {#} \<or> (\<exists>t < length (ex_stacks e). ex_stacks e ! t \<noteq> [])" "tg_exec nodes e0 k e"
  shows "\<exists>e'. tg_exec nodes e0 (Suc k) e'"
proof (cases "\<exists>t < length (ex_stacks e). ex_stacks e ! t \<noteq> []")
  case True
  then obtain t where t: "t < length (ex_stacks e)" "ex_stacks e ! t \<noteq> []" by blast
  obtain stack e' where "thread_step nodes True (ex_stacks e ! t) e = (stack, e')" by force
  then show ?thesis using tg_exec.thread [OF assms(3) t] by blast
next
  case False
  then have all: "s = []" if "s \<in> set (ex_stacks e)" for s using that by (auto simp: in_set_conv_nth)
  have "stack_tokens s = {#}" if "s \<in> set (ex_stacks e)" for s using all [OF that] by simp
  then have "map stack_tokens (ex_stacks e) = map (\<lambda>_. {#}) (ex_stacks e)" by (rule map_cong [OF refl])
  then have "\<Sum>\<^sub># (mset (map stack_tokens (ex_stacks e))) = {#}" by (simp add: map_replicate_const)
  then have "ex_submitted e \<noteq> {#}" using assms(2) False by (auto simp: tokens_def)
  then obtain v where "v \<in># ex_submitted e" by blast
  moreover have "0 < length (ex_stacks e)" "ex_stacks e ! 0 = []" using assms(1) all by (simp_all add: hd_conv_nth [symmetric])
  ultimately show ?thesis using tg_exec.dispatch [OF assms(3)] by blast
qed

text \<open>
  C2: executions of a compiled graph, for any number of threads, any interleaving of the workers and any
  answers of the pool. Every execution ends: it has at most \<open>6 n + card E + 1\<close> steps. No callback is started twice, and
  none before the callbacks of all its predecessors have ended. As long as a callback has not ended some thread can
  make a step, so an execution that cannot go on has run every callback and counted the wait group down to
  zero; and \<open>cobalt_taskgraph_run_and_wait\<close> returns only when every callback has ended.
\<close>

theorem taskgraph_execution:
  assumes built: "cobalt_taskgraph_create True True True = (None, g0)" "length ops < SIZE_MAX"
      "fold tg_apply ops g0 = g" "fold spec_apply ops (0, {}) = (n, E)"
    and compiled: "cobalt_taskgraph_compile True True True (\<lambda>_. True) g = Some (0, None, Some graph)"
    and run: "cobalt_taskgraph_run True threads (Some graph) False = (0, None, g', Some e0)" "tg_exec (tg_nodes graph) e0 k e"
  shows "k \<le> 6 * n + card E + 1 \<and> distinct (ex_log e) \<and>
    (\<forall>a v b. ex_log e = a @ Started v # b \<longrightarrow> (\<forall>u. (u, v) \<in> E \<longrightarrow> Ended u \<in> set a)) \<and>
    ((\<exists>e'. tg_exec (tg_nodes graph) e0 (Suc k) e') \<or> (\<forall>v < n. Ended v \<in> set (ex_log e)) \<and> ex_wg e = 0) \<and>
    (cobalt_taskgraph_run_and_wait True threads (Some graph) False e = Some (0, None) \<longrightarrow> (\<forall>v < n. Ended v \<in> set (ex_log e)))"
proof -
  let ?N = "tg_nodes graph"
  from built_graph [OF built] obtain gr where g: "g = Some gr" "nodes_ok (tg_nodes gr)" "\<not> tg_compiled gr" "tg_root_nodes gr = []"
    "length (tg_nodes gr) = n" "edges (tg_nodes gr) = E" by blast
  note c = compile_result [OF g(2,3,4), of True "\<lambda>_. True", folded g(1)]
  from c compiled have ac: "acyclic E" and nodes: "?N = tg_nodes gr" and roots: "tg_root_nodes graph = filter (\<lambda>v. \<forall>u. (u, v) \<notin> E) [0..<n]"
    unfolding g(5,6) by (auto split: if_splits)
  have ok: "nodes_ok ?N" and ne: "length ?N = n" "edges ?N = E" using g nodes by simp_all
  note s = start_exec_inv [OF ok _ run(1), unfolded ne, OF roots]
  from exec_keeps_inv [OF ok _ run(2)] s(1) obtain st where inv: "exec_inv ?N (6 * n + card E + 1) k e st" by blast
  note I = inv [unfolded exec_inv_def]
  have h: "history_ok ?N st (ex_log e) (ex_wg e)" using I by blast
  have log: "log_ok E (ex_log e)" using h ne by (simp add: history_ok_def)
  have ended: "Ended v \<in> set (ex_log e)" if "st v = Finished" "v < n" for v using h that ne by (auto simp: history_ok_def)
  have wg0: "st v = Finished" if "ex_wg e = 0" "v < n" for v
  proof -
    have "card {v. v < n \<and> st v = Finished} = card {..< n}" using h that(1) ne by (simp add: history_ok_def)
    then have "{v. v < n \<and> st v = Finished} = {..< n}" by (intro card_subset_eq) auto
    then show ?thesis using that(2) by blast
  qed
  have wait: "\<forall>v < n. Ended v \<in> set (ex_log e)" if "cobalt_taskgraph_run_and_wait True threads (Some graph) False e = Some (0, None)"
  proof (cases "n = 0")
    case False
    then have "ex_wg e = 0" using that run(1) ne by (auto simp: cobalt_taskgraph_run_and_wait_def split: if_splits)
    then show ?thesis using wg0 ended by blast
  qed simp
  have prog: "(\<forall>v < n. Ended v \<in> set (ex_log e)) \<and> ex_wg e = 0" if "\<nexists>e'. tg_exec ?N e0 (Suc k) e'"
  proof -
    have "ex_stacks e \<noteq> []" using exec_threads [OF run(2)] s(2) by auto
    then have empty: "tokens e = {#}" using exec_progress [OF _ _ run(2)] that by blast
    have fin: "st v = Finished" if "v < n" for v using no_tokens_finished [OF ok _ inv empty] ac ne that by simp
    then have "{v. v < n \<and> st v = Finished} = {..< n}" by auto
    then have "ex_wg e = 0" using h ne by (simp add: history_ok_def)
    then show ?thesis using fin ended by blast
  qed
  show ?thesis using I log wait prog by (auto simp: log_ok_def)
qed

text \<open>Two tasks, the second after the first, on the calling thread alone.\<close>

abbreviation "sample_ops \<equiv>
  [AddNode True True True (Some CHR ''a''), AddNode True True True (Some CHR ''b''), AddEdge True 0 1]"

abbreviation "sample_graph \<equiv>
  \<lparr>tg_nodes = [\<lparr>tn_fn = CHR ''a'', tn_static_in_degree = 0, tn_remaining_in_degree = 0, tn_successors = [1]\<rparr>,
     \<lparr>tn_fn = CHR ''b'', tn_static_in_degree = 1, tn_remaining_in_degree = 0, tn_successors = []\<rparr>],
   tg_root_nodes = [0], tg_compiled = True\<rparr>"

abbreviation "sample_start \<equiv>
  \<lparr>ex_remaining = [0, 1], ex_submitted = {#}, ex_stacks = [[Roots [0]], []], ex_wg = 2, ex_log = []\<rparr>"

theorem taskgraph_execution_witness:
  "\<exists>e'. tg_exec (tg_nodes sample_graph) sample_start (Suc 0) e'"
proof -
  have k: "kahn_loop (tg_nodes sample_graph) 0 0 [0, 1] ([0, 0], Suc 0) = Some (2, [0, 1])"
    by (simp add: kahn_loop.simps [of _ 0] kahn_loop.simps [of _ 1] kahn_loop.simps [of _ "Suc 0"] kahn_loop.simps [of _ 2]
        kahn_loop.simps [of _ "Suc (Suc 0)"] q_put_def szt_dec_def numeral_2_eq_2)
  have c: "cobalt_taskgraph_compile True True True (\<lambda>_. True) (Some (sample_graph\<lparr>tg_root_nodes := [], tg_compiled := False\<rparr>)) =
      Some (0, None, Some sample_graph)"
    using k by (simp add: cobalt_taskgraph_compile_def q_put_def numeral_2_eq_2)
  have b: "fold tg_apply sample_ops (snd (cobalt_taskgraph_create True True True)) = Some (sample_graph\<lparr>tg_root_nodes := [], tg_compiled := False\<rparr>)"
    by (simp add: cobalt_taskgraph_create_def cobalt_taskgraph_create_with_alloc_def cobalt_taskgraph_add_node_def cobalt_taskgraph_add_edge_def)
  have r: "cobalt_taskgraph_run True 1 (Some sample_graph) False = (0, None, cobalt_taskgraph_reset (Some sample_graph), Some sample_start)"
    by (simp add: cobalt_taskgraph_run_def cobalt_taskgraph_reset_def)
  show ?thesis
    using taskgraph_execution [of "snd (cobalt_taskgraph_create True True True)" sample_ops, OF _ _ b _ c r tg_exec.start]
    by (auto simp: cobalt_taskgraph_create_def cobalt_taskgraph_create_with_alloc_def)
qed

text \<open>
  If the vector of the root nodes cannot grow, compiling reports success and the graph is run without its roots: the
  execution stops with the wait group at the number of nodes, so a caller that waits never returns.
\<close>

theorem taskgraph_lost_roots:
  "cobalt_taskgraph_compile True True True (\<lambda>_. False)
     (Some \<lparr>tg_nodes = [\<lparr>tn_fn = CHR ''a'', tn_static_in_degree = 0, tn_remaining_in_degree = 0, tn_successors = []\<rparr>],
       tg_root_nodes = [], tg_compiled = False\<rparr>) =
   Some (0, None, Some \<lparr>tg_nodes = [\<lparr>tn_fn = CHR ''a'', tn_static_in_degree = 0, tn_remaining_in_degree = 0, tn_successors = []\<rparr>],
       tg_root_nodes = [], tg_compiled = True\<rparr>)"
  by (simp add: cobalt_taskgraph_compile_def q_put_def kahn_loop.simps)

end
