(* ===== verification/Cobalt_JSON.thy ===== *)
theory Cobalt_JSON
  imports Cobalt_Heap "HOL-Library.Char_ord"
begin

section \<open>JSON documents\<close>

text \<open>
  \<open>src/module/json.c\<close>, \<open>json_parse.c\<close> and \<open>json_serialize.c\<close>. Nodes live in a heap and refer to each other by address.
  A C string is a list of characters, read up to its first NUL. The parser allocates from an arena, as all entry points
  do; \<open>am i\<close> is the answer of the \<open>i\<close>-th allocation. When that allocation replaces the buffer of a string,
  \<open>past i\<close> is the number of bytes behind the old buffer that may still be read. The conversions of numbers (\<open>strtod\<close> and
  \<open>snprintf\<close> with \<open>"%.17g"\<close>) are parameters. The mutually recursive parser and the serializer take
  fuel: \<open>None\<close> is a run that needs more, an access to a node that does not exist, or an access outside a string buffer.
\<close>

datatype json_type = JSON_NULL | JSON_TRUE | JSON_FALSE | JSON_NUMBER | JSON_STRING | JSON_ARRAY | JSON_OBJECT

record 'd json_node =
  jn_type :: json_type
  jn_number :: "'d option"
  jn_string :: "string option"
  jn_next :: "nat option"
  jn_child :: "nat option"
  jn_key :: "string option"
  jn_arena :: bool
  jn_owns_arena :: bool

abbreviation (input) COBALT_JSON_DOM_MAX_DEPTH :: nat where
  "COBALT_JSON_DOM_MAX_DEPTH \<equiv> 128"

definition cstr :: "string \<Rightarrow> string" where
  "cstr s = takeWhile (\<lambda>c. c \<noteq> CHR 0x00) s"

subsection \<open>Queries\<close>

definition json_get_number :: "'d \<Rightarrow> 'd json_node option \<Rightarrow> 'd" where
  "json_get_number zero node =
     (case node of
        None \<Rightarrow> zero
      | Some n \<Rightarrow> if jn_type n = JSON_NUMBER then (case jn_number n of None \<Rightarrow> zero | Some d \<Rightarrow> d) else zero)"

definition json_get_string :: "'d json_node option \<Rightarrow> string" where
  "json_get_string node =
     (case node of
        None \<Rightarrow> []
      | Some n \<Rightarrow> if jn_type n = JSON_STRING then (case jn_string n of None \<Rightarrow> [] | Some s \<Rightarrow> s) else [])"

definition json_is_null :: "'d json_node option \<Rightarrow> bool" where
  "json_is_null node = (case node of None \<Rightarrow> False | Some n \<Rightarrow> jn_type n = JSON_NULL)"

definition json_is_object :: "'d json_node option \<Rightarrow> bool" where
  "json_is_object node = (case node of None \<Rightarrow> False | Some n \<Rightarrow> jn_type n = JSON_OBJECT)"

definition json_is_array :: "'d json_node option \<Rightarrow> bool" where
  "json_is_array node = (case node of None \<Rightarrow> False | Some n \<Rightarrow> jn_type n = JSON_ARRAY)"

text \<open>The two loops of \<open>json_tree_get_child\<close>; the outer \<open>option\<close> is a fault or a loop that does not end.\<close>

definition key_matches :: "'d json_node \<Rightarrow> string \<Rightarrow> bool" where
  "key_matches n key = (case jn_key n of None \<Rightarrow> False | Some k \<Rightarrow> cstr k = cstr key)"

partial_function (option) find_linked :: "'d json_node heap \<Rightarrow> string \<Rightarrow> nat option \<Rightarrow> nat option option" where
  "find_linked h key kv =
     (case kv of
        None \<Rightarrow> Some None
      | Some a \<Rightarrow>
          (case heap_read h a of
             None \<Rightarrow> None
           | Some n \<Rightarrow>
               if key_matches n key then Some (if jn_child n \<noteq> None then jn_child n else jn_next n)
               else find_linked h key (jn_next n)))"

partial_function (option) find_alternating :: "'d json_node heap \<Rightarrow> string \<Rightarrow> nat option \<Rightarrow> nat option option" where
  "find_alternating h key kv =
     (case kv of
        None \<Rightarrow> Some None
      | Some a \<Rightarrow>
          (case heap_read h a of
             None \<Rightarrow> None
           | Some n \<Rightarrow>
               if key_matches n key then Some (jn_next n)
               else (case jn_next n of
                       None \<Rightarrow> Some None
                     | Some b \<Rightarrow> (case heap_read h b of None \<Rightarrow> None | Some m \<Rightarrow> find_alternating h key (jn_next m)))))"

definition json_tree_get_child :: "'d json_node heap \<Rightarrow> nat option \<Rightarrow> string option \<Rightarrow> nat option option" where
  "json_tree_get_child h parent key =
     (case (parent, key) of
        (Some p, Some k) \<Rightarrow>
          (case heap_read h p of
             None \<Rightarrow> None
           | Some n \<Rightarrow>
               if jn_type n \<noteq> JSON_OBJECT then Some None
               else if jn_child n \<noteq> None then find_linked h k (jn_child n)
               else find_alternating h k (jn_next n))
      | _ \<Rightarrow> Some None)"

subsection \<open>Scanning\<close>

record 'd json_ctx =
  cx_pos :: nat
  cx_depth :: nat
  cx_exceeded :: bool
  cx_heap :: "'d json_node heap"
  cx_allocs :: nat

definition is_space :: "char \<Rightarrow> bool" where
  "is_space c \<longleftrightarrow> c = CHR '' '' \<or> c = CHR 0x09 \<or> c = CHR 0x0A \<or> c = CHR 0x0D"

definition is_digit :: "char \<Rightarrow> bool" where
  "is_digit c \<longleftrightarrow> c \<in> set ''0123456789''"

function scan_chars :: "(char \<Rightarrow> bool) \<Rightarrow> string \<Rightarrow> nat \<Rightarrow> nat" where
  "scan_chars P str pos = (if pos < length str \<and> P (str ! pos) then scan_chars P str (pos + 1) else pos)"
  by pat_completeness auto
termination
  by (relation "measure (\<lambda>(P, str, pos). length str - pos)") auto

declare scan_chars.simps [simp del]

definition json_skip_whitespace :: "string \<Rightarrow> 'd json_ctx \<Rightarrow> 'd json_ctx" where
  "json_skip_whitespace str ctx = ctx\<lparr>cx_pos := scan_chars is_space str (cx_pos ctx)\<rparr>"

definition at :: "string \<Rightarrow> nat \<Rightarrow> char \<Rightarrow> bool" where
  "at str pos c \<longleftrightarrow> pos < length str \<and> str ! pos = c"

definition scan_number :: "string \<Rightarrow> nat \<Rightarrow> nat" where
  "scan_number str start =
     (let pos = (if at str start (CHR ''-'') then start + 1 else start);
          pos = scan_chars is_digit str pos;
          pos = (if at str pos (CHR ''.'') then scan_chars is_digit str (pos + 1) else pos) in
      if at str pos (CHR ''e'') \<or> at str pos (CHR ''E'') then
        (let pos = pos + 1;
             pos = (if at str pos (CHR ''+'') \<or> at str pos (CHR ''-'') then pos + 1 else pos) in
         scan_chars is_digit str pos)
      else pos)"

subsection \<open>Nodes and strings\<close>

definition jalloc :: "(nat \<Rightarrow> bool) \<Rightarrow> 'd json_ctx \<Rightarrow> bool \<times> 'd json_ctx" where
  "jalloc am ctx = (am (cx_allocs ctx), ctx\<lparr>cx_allocs := cx_allocs ctx + 1\<rparr>)"

definition json_node_create :: "(nat \<Rightarrow> bool) \<Rightarrow> json_type \<Rightarrow> 'd json_ctx \<Rightarrow> nat option \<times> 'd json_ctx" where
  "json_node_create am ty ctx =
     (case jalloc am ctx of
        (ok, ctx') \<Rightarrow>
          (case heap_new ok \<lparr>jn_type = ty, jn_number = None, jn_string = None, jn_next = None, jn_child = None, jn_key = None,
                             jn_arena = False, jn_owns_arena = False\<rparr> (cx_heap ctx') of
             None \<Rightarrow> (None, ctx')
           | Some (a, h) \<Rightarrow> (Some a, ctx'\<lparr>cx_heap := h\<rparr>)))"

text \<open>
  \<open>strtol(s, NULL, 16)\<close>: white space, a sign, an optional prefix \<open>0x\<close> before a digit, and the
  longest run of hexadecimal digits.
\<close>

definition hex_digit :: "char \<Rightarrow> nat option" where
  "hex_digit c =
     (let n = of_char c in
      if 48 \<le> n \<and> n \<le> 57 then Some (n - 48)
      else if 97 \<le> n \<and> n \<le> 102 then Some (n - 87)
      else if 65 \<le> n \<and> n \<le> 70 then Some (n - 55)
      else None)"

fun hex_value :: "nat \<Rightarrow> string \<Rightarrow> nat" where
  "hex_value acc [] = acc"
| "hex_value acc (c # cs) = (case hex_digit c of None \<Rightarrow> acc | Some d \<Rightarrow> hex_value (16 * acc + d) cs)"

definition hex_prefix :: "string \<Rightarrow> string" where
  "hex_prefix s =
     (case s of
        z # x # d # r \<Rightarrow> if z = CHR ''0'' \<and> (x = CHR ''x'' \<or> x = CHR ''X'') \<and> hex_digit d \<noteq> None then d # r else s
      | _ \<Rightarrow> s)"

definition isspace :: "char \<Rightarrow> bool" where
  "isspace c \<longleftrightarrow> c = CHR '' '' \<or> (of_char c :: nat) \<in> {9, 10, 11, 12, 13}"

definition strtol16 :: "string \<Rightarrow> int" where
  "strtol16 s =
     (let s = dropWhile isspace s in
      case s of
        c # r \<Rightarrow>
          if c = CHR ''-'' then - int (hex_value 0 (hex_prefix r))
          else if c = CHR ''+'' then int (hex_value 0 (hex_prefix r))
          else int (hex_value 0 (hex_prefix s))
      | [] \<Rightarrow> 0)"

definition hex_unit :: "string \<Rightarrow> nat \<Rightarrow> nat" where
  "hex_unit str pos = nat (strtol16 (take 4 (drop pos str)) mod 2 ^ 32)"

definition utf8_encode :: "nat \<Rightarrow> string" where
  "utf8_encode unicode =
     (if unicode < 0x80 then [char_of unicode]
      else if unicode < 0x800 then [char_of (0xC0 OR drop_bit 6 unicode), char_of (0x80 OR (unicode AND 0x3F))]
      else if unicode < 0x10000
      then [char_of (0xE0 OR drop_bit 12 unicode), char_of (0x80 OR (drop_bit 6 unicode AND 0x3F)), char_of (0x80 OR (unicode AND 0x3F))]
      else [char_of (0xF0 OR drop_bit 18 unicode), char_of (0x80 OR (drop_bit 12 unicode AND 0x3F)),
            char_of (0x80 OR (drop_bit 6 unicode AND 0x3F)), char_of (0x80 OR (unicode AND 0x3F))])"

text \<open>The characters of the escape whose letter is at \<open>pos\<close>, and the position of its last character.\<close>

definition unicode_escape :: "string \<Rightarrow> nat \<Rightarrow> (string \<times> nat) option" where
  "unicode_escape str pos =
     (if length str \<le> pos + 4 then None
      else
        let cp = hex_unit str (pos + 1) in
        if 0xD800 \<le> cp \<and> cp \<le> 0xDBFF then
          if pos + 10 < length str \<and> str ! (pos + 5) = CHR 0x5C \<and> str ! (pos + 6) = CHR ''u'' then
            let low_cp = hex_unit str (pos + 7) in
            if 0xDC00 \<le> low_cp \<and> low_cp \<le> 0xDFFF
            then Some (utf8_encode (0x10000 + (push_bit 10 (cp - 0xD800) OR (low_cp - 0xDC00))), pos + 10)
            else None
          else None
        else if 0xDC00 \<le> cp \<and> cp \<le> 0xDFFF then None
        else Some (utf8_encode cp, pos + 4))"

definition json_escape :: "string \<Rightarrow> nat \<Rightarrow> (string \<times> nat) option" where
  "json_escape str pos =
     (let c = str ! pos in
      if c = CHR ''b'' then Some ([CHR 0x08], pos)
      else if c = CHR ''f'' then Some ([CHR 0x0C], pos)
      else if c = CHR ''n'' then Some ([CHR 0x0A], pos)
      else if c = CHR ''r'' then Some ([CHR 0x0D], pos)
      else if c = CHR ''t'' then Some ([CHR 0x09], pos)
      else if c = CHR ''u'' then unicode_escape str pos
      else Some ([c], pos))"

lemma json_escape_pos: "json_escape str pos = Some (e, pos') \<Longrightarrow> pos \<le> pos' \<and> (pos < length str \<longrightarrow> pos' < length str)"
  by (auto simp: json_escape_def unicode_escape_def Let_def split: if_splits)

text \<open>
  \<open>json_parse_string\<close>. The buffer is the list of the characters stored so far and its capacity. Every store is
  checked against the capacity; the outer \<open>None\<close> is an access outside the buffer. Growing it allocates a new block and
  copies half the new size from the old one (\<open>jrealloc\<close> with an arena), whatever the old capacity was.
\<close>

definition grow_escape :: "nat \<Rightarrow> nat \<Rightarrow> nat" where
  "grow_escape len elen =
     (let need = (if SIZE_MAX - elen - 1 < len then SIZE_MAX else len + elen + 1) in
      if SIZE_MAX div 2 < need then SIZE_MAX else need * 2)"

definition grow_plain :: "nat \<Rightarrow> nat" where
  "grow_plain cap = (if SIZE_MAX div 2 < cap then SIZE_MAX else cap * 2)"

definition ensure_room ::
    "(nat \<Rightarrow> bool) \<Rightarrow> (nat \<Rightarrow> nat) \<Rightarrow> bool \<Rightarrow> nat \<Rightarrow> nat \<Rightarrow> 'd json_ctx \<Rightarrow> (nat option \<times> 'd json_ctx) option" where
  "ensure_room am past full cap new_cap ctx =
     (if full then
        (case jalloc am ctx of
           (ok, ctx') \<Rightarrow>
             if \<not> ok then Some (None, ctx')
             else if cap + past (cx_allocs ctx) < new_cap div 2 then None
             else Some (Some new_cap, ctx'))
      else Some (Some cap, ctx))"

lemma ensure_room_pos: "ensure_room am past full cap new_cap ctx = Some (c, ctx') \<Longrightarrow> cx_pos ctx' = cx_pos ctx"
  by (auto simp: ensure_room_def jalloc_def split: if_splits)

function string_loop ::
    "(nat \<Rightarrow> bool) \<Rightarrow> (nat \<Rightarrow> nat) \<Rightarrow> string \<Rightarrow> nat \<Rightarrow> string \<Rightarrow> 'd json_ctx \<Rightarrow> (string option \<times> 'd json_ctx) option" where
  "string_loop am past str cap res ctx =
     (let pos = cx_pos ctx in
      if pos < length str \<and> str ! pos \<noteq> CHR 0x22 then
        if str ! pos = CHR 0x5C then
          if length str \<le> pos + 1 then Some (None, ctx\<lparr>cx_pos := pos + 1\<rparr>)
          else
            (case json_escape str (pos + 1) of
               None \<Rightarrow> Some (None, ctx\<lparr>cx_pos := pos + 1\<rparr>)
             | Some (e, p) \<Rightarrow>
                 (case ensure_room am past (cap < szt (length res + length e + 1)) cap (grow_escape (length res) (length e)) (ctx\<lparr>cx_pos := p + 1\<rparr>) of
                    None \<Rightarrow> None
                  | Some (None, ctx') \<Rightarrow> Some (None, ctx'\<lparr>cx_pos := p\<rparr>)
                  | Some (Some cap', ctx') \<Rightarrow>
                      if cap' < length res + length e then None else string_loop am past str cap' (res @ e) ctx'))
        else
          (case ensure_room am past (cap < szt (length res + 2)) cap (grow_plain cap) (ctx\<lparr>cx_pos := pos + 1\<rparr>) of
             None \<Rightarrow> None
           | Some (None, ctx') \<Rightarrow> Some (None, ctx'\<lparr>cx_pos := pos\<rparr>)
           | Some (Some cap', ctx') \<Rightarrow>
               if cap' \<le> length res then None else string_loop am past str cap' (res @ [str ! pos]) ctx')
      else if length str \<le> pos then Some (None, ctx)
      else if cap \<le> length res then None
      else Some (Some res, ctx\<lparr>cx_pos := pos + 1\<rparr>))"
  by pat_completeness auto
termination
  by (relation "measure (\<lambda>(am, past, str, cap, res, ctx). length str - cx_pos ctx)")
    (auto dest!: ensure_room_pos ensure_room_pos [OF sym] json_escape_pos json_escape_pos [OF sym])

declare string_loop.simps [simp del]

definition json_parse_string ::
    "(nat \<Rightarrow> bool) \<Rightarrow> (nat \<Rightarrow> nat) \<Rightarrow> string \<Rightarrow> 'd json_ctx \<Rightarrow> (string option \<times> 'd json_ctx) option" where
  "json_parse_string am past str ctx =
     (if \<not> at str (cx_pos ctx) (CHR 0x22) then Some (None, ctx)
      else
        (case jalloc am (ctx\<lparr>cx_pos := cx_pos ctx + 1\<rparr>) of
           (ok, ctx') \<Rightarrow> if ok then string_loop am past str 64 [] ctx' else Some (None, ctx')))"

subsection \<open>Values\<close>

definition set_node :: "nat \<Rightarrow> ('d json_node \<Rightarrow> 'd json_node) \<Rightarrow> 'd json_ctx \<Rightarrow> 'd json_ctx option" where
  "set_node a f ctx = map_option (\<lambda>h. ctx\<lparr>cx_heap := h\<rparr>) (heap_upd a f (cx_heap ctx))"

text \<open>A string, number or literal at the current position.\<close>

definition parse_string_value :: "(nat \<Rightarrow> bool) \<Rightarrow> (nat \<Rightarrow> nat) \<Rightarrow> string \<Rightarrow> 'd json_ctx \<Rightarrow> (nat option \<times> 'd json_ctx) option" where
  "parse_string_value am past str ctx =
     (case json_parse_string am past str ctx of
        None \<Rightarrow> None
      | Some (None, ctx) \<Rightarrow> Some (None, ctx)
      | Some (Some s, ctx) \<Rightarrow>
          (case json_node_create am JSON_STRING ctx of
             (None, ctx) \<Rightarrow> Some (None, ctx)
           | (Some a, ctx) \<Rightarrow> map_option (Pair (Some a)) (set_node a (\<lambda>n. n\<lparr>jn_string := Some s\<rparr>) ctx)))"

definition parse_number_value ::
    "(nat \<Rightarrow> bool) \<Rightarrow> (string \<Rightarrow> 'd) \<Rightarrow> string \<Rightarrow> 'd json_ctx \<Rightarrow> (nat option \<times> 'd json_ctx) option" where
  "parse_number_value am strtod str ctx =
     (let start = cx_pos ctx; pos = scan_number str start in
      case jalloc am (ctx\<lparr>cx_pos := pos\<rparr>) of
        (ok, ctx) \<Rightarrow>
          if \<not> ok then Some (None, ctx)
          else
            let val = strtod (take (pos - start) (drop start str)) in
            case json_node_create am JSON_NUMBER ctx of
              (None, ctx) \<Rightarrow> Some (None, ctx)
            | (Some a, ctx) \<Rightarrow> map_option (Pair (Some a)) (set_node a (\<lambda>n. n\<lparr>jn_number := Some val\<rparr>) ctx))"

definition parse_literal :: "(nat \<Rightarrow> bool) \<Rightarrow> string \<Rightarrow> 'd json_ctx \<Rightarrow> (nat option \<times> 'd json_ctx) option" where
  "parse_literal am str ctx =
     (let pos = cx_pos ctx in
      if take 4 (drop pos str) = ''true'' then Some (json_node_create am JSON_TRUE (ctx\<lparr>cx_pos := pos + 4\<rparr>))
      else if take 5 (drop pos str) = ''false'' then Some (json_node_create am JSON_FALSE (ctx\<lparr>cx_pos := pos + 5\<rparr>))
      else if take 4 (drop pos str) = ''null'' then Some (json_node_create am JSON_NULL (ctx\<lparr>cx_pos := pos + 4\<rparr>))
      else Some (None, ctx))"

text \<open>Appending a node to the chain of a container.\<close>

definition append_child :: "nat \<Rightarrow> nat option \<Rightarrow> nat \<Rightarrow> 'd json_ctx \<Rightarrow> 'd json_ctx option" where
  "append_child root tail a ctx =
     (case tail of
        None \<Rightarrow> set_node root (\<lambda>n. n\<lparr>jn_child := Some a, jn_next := Some a\<rparr>) ctx
      | Some t \<Rightarrow> set_node t (\<lambda>n. n\<lparr>jn_next := Some a\<rparr>) ctx)"

definition bump :: "'d json_ctx \<Rightarrow> 'd json_ctx" where
  "bump ctx = ctx\<lparr>cx_pos := cx_pos ctx + 1\<rparr>"

definition close_with :: "char \<Rightarrow> string \<Rightarrow> 'd json_ctx \<Rightarrow> 'd json_ctx" where
  "close_with c str ctx = (let ctx = json_skip_whitespace str ctx in if at str (cx_pos ctx) c then bump ctx else ctx)"

fun json_parse_value ::
    "(nat \<Rightarrow> bool) \<Rightarrow> (nat \<Rightarrow> nat) \<Rightarrow> (string \<Rightarrow> 'd) \<Rightarrow> string \<Rightarrow> nat \<Rightarrow> 'd json_ctx \<Rightarrow> (nat option \<times> 'd json_ctx) option"
  and json_parse_object ::
    "(nat \<Rightarrow> bool) \<Rightarrow> (nat \<Rightarrow> nat) \<Rightarrow> (string \<Rightarrow> 'd) \<Rightarrow> string \<Rightarrow> nat \<Rightarrow> 'd json_ctx \<Rightarrow> (nat option \<times> 'd json_ctx) option"
  and object_loop ::
    "(nat \<Rightarrow> bool) \<Rightarrow> (nat \<Rightarrow> nat) \<Rightarrow> (string \<Rightarrow> 'd) \<Rightarrow> string \<Rightarrow> nat \<Rightarrow> nat \<Rightarrow> nat option \<Rightarrow> 'd json_ctx \<Rightarrow> 'd json_ctx option"
  and json_parse_array ::
    "(nat \<Rightarrow> bool) \<Rightarrow> (nat \<Rightarrow> nat) \<Rightarrow> (string \<Rightarrow> 'd) \<Rightarrow> string \<Rightarrow> nat \<Rightarrow> 'd json_ctx \<Rightarrow> (nat option \<times> 'd json_ctx) option"
  and array_loop ::
    "(nat \<Rightarrow> bool) \<Rightarrow> (nat \<Rightarrow> nat) \<Rightarrow> (string \<Rightarrow> 'd) \<Rightarrow> string \<Rightarrow> nat \<Rightarrow> nat \<Rightarrow> nat option \<Rightarrow> 'd json_ctx \<Rightarrow> 'd json_ctx option" where
  "json_parse_value am past strtod str 0 ctx = None"
| "json_parse_value am past strtod str (Suc fuel) ctx =
     (let ctx = json_skip_whitespace str ctx; pos = cx_pos ctx in
      if length str \<le> pos then Some (None, ctx)
      else
        let c = str ! pos in
        if c = CHR 0x7B then json_parse_object am past strtod str fuel ctx
        else if c = CHR 0x5B then json_parse_array am past strtod str fuel ctx
        else if c = CHR 0x22 then parse_string_value am past str ctx
        else if c = CHR ''-'' \<or> is_digit c then parse_number_value am strtod str ctx
        else parse_literal am str ctx)"
| "json_parse_object am past strtod str 0 ctx = None"
| "json_parse_object am past strtod str (Suc fuel) ctx =
     (if COBALT_JSON_DOM_MAX_DEPTH \<le> cx_depth ctx then Some (None, ctx\<lparr>cx_exceeded := True\<rparr>)
      else
        let ctx = json_skip_whitespace str (ctx\<lparr>cx_depth := cx_depth ctx + 1\<rparr>) in
        if \<not> at str (cx_pos ctx) (CHR 0x7B) then Some (None, ctx)
        else
          case json_node_create am JSON_OBJECT (bump ctx) of
            (None, ctx) \<Rightarrow> Some (None, ctx\<lparr>cx_depth := cx_depth ctx - 1\<rparr>)
          | (Some root, ctx) \<Rightarrow>
              let ctx = json_skip_whitespace str ctx in
              if at str (cx_pos ctx) (CHR 0x7D) then Some (Some root, (bump ctx)\<lparr>cx_depth := cx_depth ctx - 1\<rparr>)
              else
                case object_loop am past strtod str fuel root None ctx of
                  None \<Rightarrow> None
                | Some ctx \<Rightarrow>
                    let ctx = close_with (CHR 0x7D) str ctx in
                    Some (Some root, ctx\<lparr>cx_depth := cx_depth ctx - 1\<rparr>))"
| "object_loop am past strtod str 0 root tail ctx = None"
| "object_loop am past strtod str (Suc fuel) root tail ctx =
     (let ctx = json_skip_whitespace str ctx in
      if \<not> at str (cx_pos ctx) (CHR 0x22) then Some ctx
      else
        case json_parse_string am past str ctx of
          None \<Rightarrow> None
        | Some (None, ctx) \<Rightarrow> Some ctx
        | Some (Some key, ctx) \<Rightarrow>
            let ctx = json_skip_whitespace str ctx in
            if \<not> at str (cx_pos ctx) (CHR '':'') then Some ctx
            else
              case json_parse_value am past strtod str fuel (bump ctx) of
                None \<Rightarrow> None
              | Some (None, ctx) \<Rightarrow> Some ctx
              | Some (Some value, ctx) \<Rightarrow>
                  (case json_node_create am JSON_OBJECT ctx of
                     (None, ctx) \<Rightarrow> Some ctx
                   | (Some kv, ctx) \<Rightarrow>
                       (case set_node kv (\<lambda>n. n\<lparr>jn_key := Some key, jn_child := Some value, jn_next := None\<rparr>) ctx of
                          None \<Rightarrow> None
                        | Some ctx \<Rightarrow>
                            (case append_child root tail kv ctx of
                               None \<Rightarrow> None
                             | Some ctx \<Rightarrow>
                                 let ctx = json_skip_whitespace str ctx in
                                 if at str (cx_pos ctx) (CHR '','') then object_loop am past strtod str fuel root (Some kv) (bump ctx)
                                 else if at str (cx_pos ctx) (CHR 0x7D) then Some (bump ctx)
                                 else Some ctx))))"
| "json_parse_array am past strtod str 0 ctx = None"
| "json_parse_array am past strtod str (Suc fuel) ctx =
     (if COBALT_JSON_DOM_MAX_DEPTH \<le> cx_depth ctx then Some (None, ctx\<lparr>cx_exceeded := True\<rparr>)
      else
        let ctx = json_skip_whitespace str (ctx\<lparr>cx_depth := cx_depth ctx + 1\<rparr>) in
        if \<not> at str (cx_pos ctx) (CHR 0x5B) then Some (None, ctx)
        else
          case json_node_create am JSON_ARRAY (bump ctx) of
            (None, ctx) \<Rightarrow> Some (None, ctx\<lparr>cx_depth := cx_depth ctx - 1\<rparr>)
          | (Some root, ctx) \<Rightarrow>
              let ctx = json_skip_whitespace str ctx in
              if at str (cx_pos ctx) (CHR 0x5D) then Some (Some root, (bump ctx)\<lparr>cx_depth := cx_depth ctx - 1\<rparr>)
              else
                case array_loop am past strtod str fuel root None ctx of
                  None \<Rightarrow> None
                | Some ctx \<Rightarrow>
                    let ctx = close_with (CHR 0x5D) str ctx in
                    Some (Some root, ctx\<lparr>cx_depth := cx_depth ctx - 1\<rparr>))"
| "array_loop am past strtod str 0 root tail ctx = None"
| "array_loop am past strtod str (Suc fuel) root tail ctx =
     (case json_parse_value am past strtod str fuel ctx of
        None \<Rightarrow> None
      | Some (None, ctx) \<Rightarrow> Some ctx
      | Some (Some elem, ctx) \<Rightarrow>
          (case set_node elem (\<lambda>n. n\<lparr>jn_next := None\<rparr>) ctx of
             None \<Rightarrow> None
           | Some ctx \<Rightarrow>
               (case append_child root tail elem ctx of
                  None \<Rightarrow> None
                | Some ctx \<Rightarrow>
                    let ctx = json_skip_whitespace str ctx in
                    if at str (cx_pos ctx) (CHR '','') then array_loop am past strtod str fuel root (Some elem) (bump ctx)
                    else Some ctx)))"

definition json_fuel :: "string \<Rightarrow> nat" where
  "json_fuel str = 3 * length str + 3"

definition start_ctx :: "'d json_node heap \<Rightarrow> 'd json_ctx" where
  "start_ctx h = \<lparr>cx_pos = 0, cx_depth = 0, cx_exceeded = False, cx_heap = h, cx_allocs = 0\<rparr>"

text \<open>\<open>text\<close> is \<open>None\<close> for NULL; \<open>arena_ok\<close> tells whether the caller gave an arena, or one could be created.\<close>

definition json_parse_with_arena ::
    "(nat \<Rightarrow> bool) \<Rightarrow> (nat \<Rightarrow> nat) \<Rightarrow> (string \<Rightarrow> 'd) \<Rightarrow> bool \<Rightarrow> string option \<Rightarrow> 'd json_node heap \<Rightarrow> (nat option \<times> 'd json_node heap) option" where
  "json_parse_with_arena am past strtod arena txt h =
     (case txt of
        None \<Rightarrow> Some (None, h)
      | Some t \<Rightarrow>
          let str = cstr t; ctx = json_skip_whitespace str (start_ctx h) in
          if \<not> arena \<or> length str = 0 then Some (None, h)
          else if length str \<le> cx_pos ctx then Some (None, h)
          else
            case json_parse_value am past strtod str (json_fuel str) ctx of
              None \<Rightarrow> None
            | Some (root, ctx) \<Rightarrow>
                if cx_exceeded ctx then Some (None, cx_heap ctx)
                else
                  (case root of
                     None \<Rightarrow> Some (None, cx_heap ctx)
                   | Some a \<Rightarrow>
                       map_option (Pair (Some a))
                         (heap_upd a (\<lambda>n. n\<lparr>jn_arena := True, jn_owns_arena := False\<rparr>) (cx_heap ctx))))"

definition json_parse_with_alloc ::
    "(nat \<Rightarrow> bool) \<Rightarrow> (nat \<Rightarrow> nat) \<Rightarrow> (string \<Rightarrow> 'd) \<Rightarrow> bool \<Rightarrow> string option \<Rightarrow> 'd json_node heap \<Rightarrow> (nat option \<times> 'd json_node heap) option" where
  "json_parse_with_alloc am past strtod arena_ok txt h =
     (case txt of
        None \<Rightarrow> Some (None, h)
      | Some t \<Rightarrow>
          let str = cstr t; ctx = json_skip_whitespace str (start_ctx h) in
          if length str = 0 \<or> \<not> arena_ok then Some (None, h)
          else if length str \<le> cx_pos ctx then Some (None, h)
          else
            case json_parse_value am past strtod str (json_fuel str) ctx of
              None \<Rightarrow> None
            | Some (root, ctx) \<Rightarrow>
                (case root of
                   None \<Rightarrow> Some (None, h)
                 | Some a \<Rightarrow>
                     if cx_exceeded ctx then Some (None, h)
                     else map_option (Pair (Some a))
                            (heap_upd a (\<lambda>n. n\<lparr>jn_arena := True, jn_owns_arena := True\<rparr>) (cx_heap ctx))))"

definition json_parse ::
    "(nat \<Rightarrow> bool) \<Rightarrow> (nat \<Rightarrow> nat) \<Rightarrow> (string \<Rightarrow> 'd) \<Rightarrow> bool \<Rightarrow> string option \<Rightarrow> 'd json_node heap \<Rightarrow> (nat option \<times> 'd json_node heap) option" where
  "json_parse = json_parse_with_alloc"

subsection \<open>The output buffer\<close>

text \<open>\<open>jb_data\<close> holds the \<open>len\<close> bytes written so far. A write past the capacity is a fault.\<close>

record json_buf =
  jb_data :: string
  jb_cap :: nat
  jb_oom :: bool
  jb_allocs :: nat

definition buf_ensure :: "(nat \<Rightarrow> bool) \<Rightarrow> nat \<Rightarrow> json_buf \<Rightarrow> bool \<times> json_buf" where
  "buf_ensure am needed b =
     (if jb_oom b then (False, b)
      else if jb_cap b < szt (length (jb_data b) + needed + 1) then
        let new_cap = szt (szt (jb_cap b + needed + 1) * 2);
            new_cap = (if new_cap < 512 then 512 else new_cap);
            b' = b\<lparr>jb_allocs := jb_allocs b + 1\<rparr> in
        if am (jb_allocs b) then (True, b'\<lparr>jb_cap := new_cap\<rparr>) else (False, b'\<lparr>jb_oom := True\<rparr>)
      else (True, b))"

definition buf_store :: "string \<Rightarrow> json_buf \<Rightarrow> json_buf option" where
  "buf_store s b =
     (if length (jb_data b) + length s \<le> jb_cap b then Some (b\<lparr>jb_data := jb_data b @ s\<rparr>) else None)"

definition buf_append_char :: "(nat \<Rightarrow> bool) \<Rightarrow> char \<Rightarrow> json_buf \<Rightarrow> json_buf option" where
  "buf_append_char am c b = (case buf_ensure am 1 b of (ok, b') \<Rightarrow> if ok then buf_store [c] b' else Some b')"

definition buf_append_str :: "(nat \<Rightarrow> bool) \<Rightarrow> string \<Rightarrow> json_buf \<Rightarrow> json_buf option" where
  "buf_append_str am s b =
     (if length s = 0 then Some b
      else (case buf_ensure am (length s) b of (ok, b') \<Rightarrow> if ok then buf_store s b' else Some b'))"

text \<open>\<open>fmt\<close> is the text of \<open>snprintf\<close> with \<open>"%.17g"\<close>; it must fit into the 64 bytes of \<open>tmp\<close>.\<close>

definition buf_append_number :: "(nat \<Rightarrow> bool) \<Rightarrow> ('d \<Rightarrow> string) \<Rightarrow> 'd option \<Rightarrow> json_buf \<Rightarrow> json_buf option" where
  "buf_append_number am fmt d b =
     (case d of
        None \<Rightarrow> None
      | Some val \<Rightarrow> if 64 \<le> length (fmt val) then None else buf_append_str am (fmt val) b)"

definition hex_char :: "nat \<Rightarrow> char" where
  "hex_char n = ''0123456789abcdef'' ! n"

definition needs_escape :: "char \<Rightarrow> bool" where
  "needs_escape c \<longleftrightarrow> c = CHR 0x22 \<or> c = CHR 0x5C \<or> (of_char c :: nat) < 0x20"

definition escape_char :: "char \<Rightarrow> string" where
  "escape_char c =
     (if c = CHR 0x22 then [CHR 0x5C, CHR 0x22]
      else if c = CHR 0x5C then [CHR 0x5C, CHR 0x5C]
      else if c = CHR 0x0A then [CHR 0x5C, CHR ''n'']
      else if c = CHR 0x0D then [CHR 0x5C, CHR ''r'']
      else if c = CHR 0x09 then [CHR 0x5C, CHR ''t'']
      else if c = CHR 0x08 then [CHR 0x5C, CHR ''b'']
      else if c = CHR 0x0C then [CHR 0x5C, CHR ''f'']
      else if (of_char c :: nat) < 0x20
      then [CHR 0x5C, CHR ''u'', CHR ''0'', CHR ''0'', hex_char (of_char c div 16), hex_char (of_char c mod 16)]
      else [c])"

fun escape_loop :: "(nat \<Rightarrow> bool) \<Rightarrow> string \<Rightarrow> json_buf \<Rightarrow> json_buf option" where
  "escape_loop am [] b = buf_append_char am (CHR 0x22) b"
| "escape_loop am (c # cs) b =
     (case buf_append_str am (escape_char c) b of
        None \<Rightarrow> None
      | Some b' \<Rightarrow> if jb_oom b' then Some b' else escape_loop am cs b')"

definition buf_append_escaped_string :: "(nat \<Rightarrow> bool) \<Rightarrow> string \<Rightarrow> json_buf \<Rightarrow> json_buf option" where
  "buf_append_escaped_string am s b =
     (case buf_append_char am (CHR 0x22) b of
        None \<Rightarrow> None
      | Some b \<Rightarrow>
          if list_ex needs_escape s then escape_loop am s b
          else (case buf_append_str am s b of None \<Rightarrow> None | Some b \<Rightarrow> buf_append_char am (CHR 0x22) b))"

subsection \<open>Serialization\<close>

definition append_comma :: "(nat \<Rightarrow> bool) \<Rightarrow> bool \<Rightarrow> json_buf \<Rightarrow> json_buf option" where
  "append_comma am first b = (if first then Some b else buf_append_char am (CHR '','') b)"

fun serialize_node ::
    "(nat \<Rightarrow> bool) \<Rightarrow> ('d \<Rightarrow> string) \<Rightarrow> 'd json_node heap \<Rightarrow> nat \<Rightarrow> nat option \<Rightarrow> json_buf \<Rightarrow> json_buf option"
  and serialize_elements ::
    "(nat \<Rightarrow> bool) \<Rightarrow> ('d \<Rightarrow> string) \<Rightarrow> 'd json_node heap \<Rightarrow> nat \<Rightarrow> nat option \<Rightarrow> bool \<Rightarrow> json_buf \<Rightarrow> json_buf option"
  and serialize_members ::
    "(nat \<Rightarrow> bool) \<Rightarrow> ('d \<Rightarrow> string) \<Rightarrow> 'd json_node heap \<Rightarrow> nat \<Rightarrow> nat option \<Rightarrow> bool \<Rightarrow> json_buf \<Rightarrow> json_buf option" where
  "serialize_node am fmt h 0 node b = None"
| "serialize_node am fmt h (Suc fuel) node b =
     (if jb_oom b then Some b
      else
        case node of
          None \<Rightarrow> buf_append_str am ''null'' b
        | Some a \<Rightarrow>
            (case heap_read h a of
               None \<Rightarrow> None
             | Some n \<Rightarrow>
                 (case jn_type n of
                    JSON_NULL \<Rightarrow> buf_append_str am ''null'' b
                  | JSON_TRUE \<Rightarrow> buf_append_str am ''true'' b
                  | JSON_FALSE \<Rightarrow> buf_append_str am ''false'' b
                  | JSON_NUMBER \<Rightarrow> buf_append_number am fmt (jn_number n) b
                  | JSON_STRING \<Rightarrow>
                      (case jn_string n of
                         None \<Rightarrow> buf_append_str am [CHR 0x22, CHR 0x22] b
                       | Some s \<Rightarrow> buf_append_escaped_string am (cstr s) b)
                  | JSON_ARRAY \<Rightarrow>
                      (case buf_append_char am (CHR 0x5B) b of
                         None \<Rightarrow> None
                       | Some b \<Rightarrow>
                           (case serialize_elements am fmt h fuel (if jn_child n \<noteq> None then jn_child n else jn_next n) True b of
                              None \<Rightarrow> None
                            | Some b \<Rightarrow> buf_append_char am (CHR 0x5D) b))
                  | JSON_OBJECT \<Rightarrow>
                      (case buf_append_char am (CHR 0x7B) b of
                         None \<Rightarrow> None
                       | Some b \<Rightarrow>
                           (case serialize_members am fmt h fuel (if jn_child n \<noteq> None then jn_child n else jn_next n) True b of
                              None \<Rightarrow> None
                            | Some b \<Rightarrow> buf_append_char am (CHR 0x7D) b)))))"
| "serialize_elements am fmt h 0 elem first b = None"
| "serialize_elements am fmt h (Suc fuel) elem first b =
     (case elem of
        None \<Rightarrow> Some b
      | Some a \<Rightarrow>
          if jb_oom b then Some b
          else
            case append_comma am first b of
              None \<Rightarrow> None
            | Some b \<Rightarrow>
                (case serialize_node am fmt h fuel (Some a) b of
                   None \<Rightarrow> None
                 | Some b \<Rightarrow>
                     (case heap_read h a of None \<Rightarrow> None | Some n \<Rightarrow> serialize_elements am fmt h fuel (jn_next n) False b)))"
| "serialize_members am fmt h 0 kv first b = None"
| "serialize_members am fmt h (Suc fuel) kv first b =
     (case kv of
        None \<Rightarrow> Some b
      | Some a \<Rightarrow>
          if jb_oom b then Some b
          else
            case append_comma am first b of
              None \<Rightarrow> None
            | Some b \<Rightarrow>
                (case heap_read h a of
                   None \<Rightarrow> None
                 | Some n \<Rightarrow>
                     (case buf_append_escaped_string am (case jn_key n of None \<Rightarrow> [] | Some k \<Rightarrow> cstr k) b of
                        None \<Rightarrow> None
                      | Some b \<Rightarrow>
                          (case buf_append_char am (CHR '':'') b of
                             None \<Rightarrow> None
                           | Some b \<Rightarrow>
                               (case serialize_node am fmt h fuel (if jn_child n \<noteq> None then jn_child n else jn_next n) b of
                                  None \<Rightarrow> None
                                | Some b \<Rightarrow>
                                    if jn_child n \<noteq> None then serialize_members am fmt h fuel (jn_next n) False b
                                    else
                                      (case jn_next n of
                                         None \<Rightarrow> serialize_members am fmt h fuel None False b
                                       | Some c \<Rightarrow>
                                           (case heap_read h c of
                                              None \<Rightarrow> None
                                            | Some m \<Rightarrow> serialize_members am fmt h fuel (jn_next m) False b)))))))"

text \<open>The answer is the allocated string, \<open>None\<close> for NULL.\<close>

definition jstrdup :: "bool \<Rightarrow> string \<Rightarrow> string option" where
  "jstrdup ok s = (if ok then Some s else None)"

definition json_serialize_with_alloc ::
    "(nat \<Rightarrow> bool) \<Rightarrow> ('d \<Rightarrow> string) \<Rightarrow> 'd json_node heap \<Rightarrow> nat \<Rightarrow> nat option \<Rightarrow> string option option" where
  "json_serialize_with_alloc am fmt h fuel node =
     (case node of
        None \<Rightarrow> Some (jstrdup (am 0) ''null'')
      | Some a \<Rightarrow>
          (case buf_ensure am 256 \<lparr>jb_data = [], jb_cap = 0, jb_oom = False, jb_allocs = 0\<rparr> of
             (ok, b) \<Rightarrow>
               if \<not> ok then Some (jstrdup (am (jb_allocs b)) ''{}'')
               else
                 case serialize_node am fmt h fuel (Some a) b of
                   None \<Rightarrow> None
                 | Some b \<Rightarrow>
                     if jb_oom b then Some (jstrdup (am (jb_allocs b)) ''{}'')
                     else if length (jb_data b) < jb_cap b then Some (Some (jb_data b))
                     else None))"

definition json_serialize ::
    "(nat \<Rightarrow> bool) \<Rightarrow> ('d \<Rightarrow> string) \<Rightarrow> 'd json_node heap \<Rightarrow> nat \<Rightarrow> nat option \<Rightarrow> string option option" where
  "json_serialize = json_serialize_with_alloc"

end
