(* ===== verification/Cobalt_JSON_Text.thy ===== *)
theory Cobalt_JSON_Text
  imports Cobalt_JSON
begin

section \<open>JSON: parsing and printing\<close>

text \<open>
  JSON values as a datatype, their compact text, and the relation between a value and the nodes that represent it. The parser
  allocates nodes at increasing addresses, so the nodes of a value fill an interval of addresses that starts
  with its own node.
\<close>

datatype 'd json =
    JNull | JTrue | JFalse | JNum 'd | JStr string | JArr "'d json list" | JObj "'d member list"
and 'd member = Member string "'d json"

definition jstring :: "string \<Rightarrow> string" where
  "jstring s = CHR 0x22 # concat (map escape_char s) @ [CHR 0x22]"

fun commas :: "string list \<Rightarrow> string" where
  "commas [] = []"
| "commas [s] = s"
| "commas (s # ss) = s @ CHR '','' # commas ss"

primrec jprint :: "('d \<Rightarrow> string) \<Rightarrow> 'd json \<Rightarrow> string" and jprint_member :: "('d \<Rightarrow> string) \<Rightarrow> 'd member \<Rightarrow> string" where
  "jprint fmt JNull = ''null''"
| "jprint fmt JTrue = ''true''"
| "jprint fmt JFalse = ''false''"
| "jprint fmt (JNum d) = fmt d"
| "jprint fmt (JStr s) = jstring s"
| "jprint fmt (JArr vs) = CHR 0x5B # commas (map (jprint fmt) vs) @ [CHR 0x5D]"
| "jprint fmt (JObj ms) = CHR 0x7B # commas (map (jprint_member fmt) ms) @ [CHR 0x7D]"
| "jprint_member fmt (Member k v) = jstring k @ CHR '':'' # jprint fmt v"

text \<open>What the parser and the serializer rely on: the text of a number has the form of a number and reads back as the number.\<close>

definition number_text :: "string \<Rightarrow> bool" where
  "number_text s \<longleftrightarrow> (\<exists>sg ds fr ex. s = sg @ ds @ fr @ ex \<and> sg \<in> {[], ''-''} \<and> ds \<noteq> [] \<and> list_all is_digit ds \<and>
     (fr = [] \<or> (\<exists>d. fr = CHR ''.'' # d \<and> list_all is_digit d)) \<and>
     (ex = [] \<or> (\<exists>sg d. (ex = CHR ''e'' # sg @ d \<or> ex = CHR ''E'' # sg @ d) \<and> sg \<in> {[], ''+'', ''-''} \<and> list_all is_digit d)))"

definition number_conversion :: "(string \<Rightarrow> 'd) \<Rightarrow> ('d \<Rightarrow> string) \<Rightarrow> 'd \<Rightarrow> bool" where
  "number_conversion strtod fmt d \<longleftrightarrow> number_text (fmt d) \<and> length (fmt d) < 64 \<and> strtod (fmt d) = d"

definition empty_container :: "'d json \<Rightarrow> bool" where
  "empty_container v \<longleftrightarrow> v = JArr [] \<or> v = JObj []"

definition full_object :: "'d json \<Rightarrow> bool" where
  "full_object v \<longleftrightarrow> (\<exists>m ms. v = JObj (m # ms))"

subsection \<open>Scanning a suffix\<close>

lemma scan_chars_eq: "pos \<le> length str \<Longrightarrow> scan_chars P str pos = pos + length (takeWhile P (drop pos str))"
proof (induction P str pos rule: scan_chars.induct)
  case (1 P str pos)
  show ?case
  proof (cases "pos < length str")
    case True
    then have "drop pos str = str ! pos # drop (Suc pos) str" by (simp add: Cons_nth_drop_Suc)
    then show ?thesis using 1 True by (subst scan_chars.simps) simp
  next
    case False
    then show ?thesis using 1(2) by (subst scan_chars.simps) simp
  qed
qed

lemma drop_pos: "drop pos str = xs @ ys \<Longrightarrow> xs \<noteq> [] \<Longrightarrow> pos < length str"
  by (metis append_is_Nil_conv drop_all not_le)

lemma drop_nth: "drop pos str = x # xs \<Longrightarrow> pos < length str \<and> str ! pos = x \<and> drop (Suc pos) str = xs"
  by (metis Cons_nth_drop_Suc drop_all list.discI list.sel(1,3) not_le drop_Suc hd_drop_conv_nth tl_drop)

lemma drop_add: "drop pos str = xs @ ys \<Longrightarrow> drop (pos + length xs) str = ys"
  by (metis add.commute append_eq_conv_conj drop_drop)

lemma at_drop: "drop pos str = x # xs \<Longrightarrow> at str pos c \<longleftrightarrow> x = c"
  using drop_nth by (fastforce simp: at_def)

lemma at_drop_Nil: "drop pos str = [] \<Longrightarrow> \<not> at str pos c"
  by (simp add: at_def)

lemma skip_none:
  assumes "drop (cx_pos ctx) str = x # xs" "\<not> is_space x"
  shows "json_skip_whitespace str ctx = ctx"
  using assms drop_nth [OF assms(1)] by (simp add: json_skip_whitespace_def scan_chars.simps)

lemma skip_end: "cx_pos ctx = length str \<Longrightarrow> json_skip_whitespace str ctx = ctx"
  by (simp add: json_skip_whitespace_def scan_chars.simps)

text \<open>Texts after which a value ends: nothing, or one of the characters that follow a value.\<close>

definition follows :: "string \<Rightarrow> bool" where
  "follows post \<longleftrightarrow> (case post of [] \<Rightarrow> True | c # _ \<Rightarrow> c = CHR '','' \<or> c = CHR 0x5D \<or> c = CHR 0x7D)"

lemma skip_follows:
  assumes "drop (cx_pos ctx) str = post" "follows post" "cx_pos ctx \<le> length str"
  shows "json_skip_whitespace str ctx = ctx"
proof (cases post)
  case Nil
  then show ?thesis using assms by (intro skip_end) simp
next
  case (Cons c cs)
  then show ?thesis using assms(1,2) by (intro skip_none [of _ _ c cs]) (auto simp: follows_def is_space_def)
qed

lemma takeWhile_digits: "list_all is_digit ds \<Longrightarrow> (ys = [] \<or> \<not> is_digit (hd ys)) \<Longrightarrow> takeWhile is_digit (ds @ ys) = ds"
  by (induction ds) (auto simp: takeWhile_eq_Nil_iff)

lemma scan_digits:
  assumes "drop pos str = ds @ ys" "list_all is_digit ds" "ys = [] \<or> \<not> is_digit (hd ys)" "pos \<le> length str"
  shows "scan_chars is_digit str pos = pos + length ds"
  using assms by (simp add: scan_chars_eq takeWhile_digits)

lemma at_head: "drop pos str = ys \<Longrightarrow> at str pos c \<longleftrightarrow> (ys \<noteq> [] \<and> hd ys = c)"
  by (cases ys) (simp_all add: at_drop at_drop_Nil)

lemma digit_chars: "is_digit c \<Longrightarrow> c \<noteq> CHR ''-'' \<and> c \<noteq> CHR ''+'' \<and> c \<noteq> CHR ''.'' \<and> c \<noteq> CHR ''e'' \<and> c \<noteq> CHR ''E'' \<and> c \<noteq> CHR '','' \<and>
    c \<noteq> CHR 0x5D \<and> c \<noteq> CHR 0x7D \<and> c \<noteq> CHR 0x22 \<and> c \<noteq> CHR 0x5B \<and> c \<noteq> CHR 0x7B \<and> \<not> is_space c"
  by (auto simp: is_digit_def is_space_def)

lemma follows_head:
  assumes "follows post" "post \<noteq> []"
  shows "\<not> is_digit (hd post) \<and> hd post \<noteq> CHR ''.'' \<and> hd post \<noteq> CHR ''e'' \<and> hd post \<noteq> CHR ''E'' \<and> hd post \<noteq> CHR ''+'' \<and> hd post \<noteq> CHR ''-''"
  using assms by (cases post) (auto simp: follows_def is_digit_def)

lemma scan_exponent:
  assumes "drop pos str = ex @ post" "follows post" "pos \<le> length str"
    and ex: "ex = [] \<or> (\<exists>sg d. (ex = CHR ''e'' # sg @ d \<or> ex = CHR ''E'' # sg @ d) \<and> sg \<in> {[], ''+'', ''-''} \<and> list_all is_digit d)"
  shows "(if at str pos (CHR ''e'') \<or> at str pos (CHR ''E'') then
        (let pos = pos + 1; pos = (if at str pos (CHR ''+'') \<or> at str pos (CHR ''-'') then pos + 1 else pos) in scan_chars is_digit str pos)
      else pos) = pos + length ex"
proof (cases "ex = []")
  case True
  then have "\<not> at str pos (CHR ''e'')" "\<not> at str pos (CHR ''E'')" using at_head [OF assms(1)] follows_head [OF assms(2)] by auto
  then show ?thesis using True by simp
next
  case False
  then obtain e sg d where e: "ex = e # sg @ d" "e = CHR ''e'' \<or> e = CHR ''E''" "sg \<in> {[], ''+'', ''-''}" "list_all is_digit d" using ex by auto
  have "drop pos str = e # sg @ d @ post" using assms(1) e(1) by simp
  note d1 = drop_nth [OF this]
  then have at: "at str pos (CHR ''e'') \<or> at str pos (CHR ''E'')" using e(2) by (auto simp: at_def)
  have s1: "drop (pos + 1) str = sg @ d @ post" using d1 by simp
  have nd: "d @ post = [] \<or> hd (d @ post) \<noteq> CHR ''+'' \<and> hd (d @ post) \<noteq> CHR ''-''"
    using e(4) follows_head [OF assms(2)] digit_chars by (cases d) auto
  have p2: "(if at str (pos + 1) (CHR ''+'') \<or> at str (pos + 1) (CHR ''-'') then pos + 1 + 1 else pos + 1) = pos + 1 + length sg"
  proof (cases "sg = []")
    case True
    then have "\<not> at str (pos + 1) (CHR ''+'')" "\<not> at str (pos + 1) (CHR ''-'')" using at_head [OF s1] nd by auto
    then show ?thesis using True by simp
  next
    case False
    then have "sg = ''+'' \<or> sg = ''-''" using e(3) by blast
    then show ?thesis using at_head [OF s1] by (elim disjE) simp_all
  qed
  have s2: "drop (pos + 1 + length sg) str = d @ post" by (rule drop_add [OF s1])
  have "pos + 1 + length sg \<le> length str" using arg_cong [OF s1, of length] conjunct1 [OF d1] by simp
  then have "scan_chars is_digit str (pos + 1 + length sg) = pos + 1 + length sg + length d"
    using scan_digits [OF s2 e(4)] follows_head [OF assms(2)] by auto
  then show ?thesis using at e(1) unfolding Let_def p2 by simp
qed

lemma scan_number_text:
  assumes "drop pos str = s @ post" "number_text s" "follows post"
  shows "scan_number str pos = pos + length s"
proof -
  from assms(2) obtain sg ds fr ex where s: "s = sg @ ds @ fr @ ex" "sg \<in> {[], ''-''}" "ds \<noteq> []" "list_all is_digit ds"
    "fr = [] \<or> (\<exists>d. fr = CHR ''.'' # d \<and> list_all is_digit d)"
    "ex = [] \<or> (\<exists>sg d. (ex = CHR ''e'' # sg @ d \<or> ex = CHR ''E'' # sg @ d) \<and> sg \<in> {[], ''+'', ''-''} \<and> list_all is_digit d)"
    unfolding number_text_def by blast
  have d0: "drop pos str = sg @ ds @ fr @ ex @ post" using assms(1) s(1) by simp
  have le: "pos + length (sg @ ds @ fr @ ex @ post) = length str" using arg_cong [OF d0, of length] s(3) by (cases ds) simp_all
  have d1: "drop (pos + length sg) str = ds @ fr @ ex @ post" by (rule drop_add [OF d0])
  have d2: "drop (pos + length sg + length ds) str = fr @ ex @ post" by (rule drop_add [OF d1])
  have "is_digit (hd ds)" using s(3,4) by (cases ds) auto
  then have p1: "(if at str pos (CHR ''-'') then pos + 1 else pos) = pos + length sg"
  proof (cases "sg = []")
    case True
    then show ?thesis using at_head [OF d0, of "CHR ''-''"] s(3) digit_chars [of "hd ds"] \<open>is_digit (hd ds)\<close> by simp
  next
    case False
    then have "sg = ''-''" using s(2) by blast
    then show ?thesis using at_head [OF d0, of "CHR ''-''"] by simp
  qed
  have hx: "ex @ post = [] \<or> \<not> is_digit (hd (ex @ post)) \<and> hd (ex @ post) \<noteq> CHR ''.''"
    using s(6) follows_head [OF assms(3)] by (cases "ex = []") (auto simp: is_digit_def)
  have hf: "fr @ ex @ post = [] \<or> \<not> is_digit (hd (fr @ ex @ post))" using s(5) hx by (cases "fr = []") (auto simp: is_digit_def)
  have p2: "scan_chars is_digit str (pos + length sg) = pos + length sg + length ds" using scan_digits [OF d1 s(4) hf] le by simp
  let ?p2 = "pos + length sg + length ds"
  have p3: "(if at str ?p2 (CHR ''.'') then scan_chars is_digit str (?p2 + 1) else ?p2) = ?p2 + length fr"
  proof (cases "fr = []")
    case True
    then show ?thesis using at_head [OF d2] hx by auto
  next
    case False
    then obtain d where d: "fr = CHR ''.'' # d" "list_all is_digit d" using s(5) by auto
    have "drop ?p2 str = CHR ''.'' # d @ ex @ post" using d2 d(1) by simp
    note dn = drop_nth [OF this]
    have dd: "drop (?p2 + 1) str = d @ ex @ post" using dn by simp
    have "scan_chars is_digit str (?p2 + 1) = ?p2 + 1 + length d" using scan_digits [OF dd d(2)] hx dn by auto
    then show ?thesis using dn d(1) by (simp add: at_def)
  qed
  have d3: "drop (?p2 + length fr) str = ex @ post" by (rule drop_add [OF d2])
  have "?p2 + length fr \<le> length str" using le by simp
  from scan_exponent [OF d3 assms(3) this s(6)] show ?thesis
    unfolding scan_number_def Let_def p1 p2 p3 using s(1) by (simp add: Let_def)
qed

subsection \<open>Strings\<close>

lemma hex_values: "list_all (\<lambda>n. strtol16 [CHR ''0'', CHR ''0'', hex_char (n div 16), hex_char (n mod 16)] = int n) [0..<32]"
  by code_simp

lemma hex_value_char:
  assumes "n < 32"
  shows "strtol16 [CHR ''0'', CHR ''0'', hex_char (n div 16), hex_char (n mod 16)] = int n"
  using hex_values assms by (simp add: list_all_iff)

lemma unicode_escape_small:
  assumes "drop pos str = CHR ''u'' # CHR ''0'' # CHR ''0'' # hex_char (n div 16) # hex_char (n mod 16) # rest" "n < 32"
  shows "unicode_escape str pos = Some ([char_of n], pos + 4) "
proof -
  have len: "length str = pos + 5 + length rest" using arg_cong [OF assms(1), of length] by simp
  have "drop (pos + 1) str = CHR ''0'' # CHR ''0'' # hex_char (n div 16) # hex_char (n mod 16) # rest" using drop_nth [OF assms(1)] by simp
  then have "hex_unit str (pos + 1) = n" using hex_value_char [OF assms(2)] assms(2) by (simp add: hex_unit_def)
  then show ?thesis using len assms(2) by (simp add: unicode_escape_def utf8_encode_def)
qed

abbreviation (input) always :: "nat \<Rightarrow> bool" where
  "always \<equiv> \<lambda>_. True"

text \<open>
  Growing the buffer for an escape copies up to four bytes more than the old buffer holds. This is harmless when these
  bytes may be read, and it does not happen without an escape, or in a text shorter than the first buffer. The bound on the
  length of the text keeps the sizes from wrapping.
\<close>

definition growth_safe :: "(nat \<Rightarrow> nat) \<Rightarrow> string \<Rightarrow> bool" where
  "growth_safe past str \<longleftrightarrow> length str < 2 ^ 62 \<and> ((\<forall>i. 4 \<le> past i) \<or> CHR 0x5C \<notin> set str \<or> length str < 64)"

definition buf_inv :: "string \<Rightarrow> nat \<Rightarrow> string \<Rightarrow> 'd json_ctx \<Rightarrow> bool" where
  "buf_inv str cap res ctx \<longleftrightarrow> 64 \<le> cap \<and> cap \<le> 2 * length str + 64 \<and> length res < cap \<and> length res < cx_pos ctx"

lemma utf8_encode_length: "length (utf8_encode u) \<le> (if u < 0x10000 then 3 else 4)"
  by (simp add: utf8_encode_def)

lemma unicode_escape_length:
  assumes "unicode_escape str pos = Some (e, p)"
  shows "length e \<le> 4 \<and> pos + length e \<le> p + 1"
proof -
  consider (pair) u where "e = utf8_encode u" "p = pos + 10" | (unit) u where "e = utf8_encode u" "p = pos + 4"
    using assms by (auto simp: unicode_escape_def Let_def split: if_splits)
  then show ?thesis
  proof cases
    case (pair u)
    then show ?thesis using utf8_encode_length [of u] by (simp split: if_splits)
  next
    case (unit u)
    then show ?thesis using utf8_encode_length [of u] by (simp split: if_splits)
  qed
qed

lemma json_escape_length: "json_escape str pos = Some (e, p) \<Longrightarrow> length e \<le> 4 \<and> pos + length e \<le> p + 1"
  using unicode_escape_length by (fastforce simp: json_escape_def Let_def split: if_splits)

lemma grow_escape_small: "len + elen + 1 < 2 ^ 63 \<Longrightarrow> elen \<le> 4 \<Longrightarrow> grow_escape len elen = 2 * (len + elen + 1)"
  by (simp add: grow_escape_def Let_def)

lemma grow_plain_small: "cap < 2 ^ 63 \<Longrightarrow> grow_plain cap = 2 * cap"
  by (simp add: grow_plain_def)

lemma escape_room:
  assumes g: "growth_safe past str" and inv: "buf_inv str cap res ctx"
    and c: "cx_pos ctx + 1 < length str" "str ! cx_pos ctx = CHR 0x5C" "json_escape str (cx_pos ctx + 1) = Some (e, p)"
  shows "\<exists>r al. ensure_room am past (cap < szt (length res + length e + 1)) cap (grow_escape (length res) (length e)) (ctx\<lparr>cx_pos := p + 1\<rparr>)
      = Some (r, ctx\<lparr>cx_pos := p + 1, cx_allocs := al\<rparr>) \<and> ((\<forall>i. am i) \<longrightarrow> r \<noteq> None) \<and>
    (\<forall>cap'. r = Some cap' \<longrightarrow> length res + length e \<le> cap' \<and> buf_inv str cap' (res @ e) (ctx\<lparr>cx_pos := p + 1, cx_allocs := al\<rparr>))"
proof -
  have e: "length e \<le> 4" "cx_pos ctx + length e \<le> p" "p < length str"
    using json_escape_length [OF c(3)] json_escape_pos [OF c(3)] c(1) by auto
  have i: "64 \<le> cap" "cap \<le> 2 * length str + 64" "length res < cap" "length res < cx_pos ctx" "length str < 2 ^ 62"
    using inv g by (auto simp: buf_inv_def growth_safe_def)
  have need: "length res + length e + 1 \<le> p" using e i by linarith
  have sz: "szt (length res + length e + 1) = length res + length e + 1" using need e i by simp
  have gr: "grow_escape (length res) (length e) = 2 * (length res + length e + 1)" using need e i by (intro grow_escape_small) simp_all
  have "CHR 0x5C \<in> set str" using c(1,2) by (metis Suc_eq_plus1 Suc_lessD nth_mem)
  then have past: "cap + past k \<ge> length res + length e + 1" if "cap < length res + length e + 1" for k
    using g that i e need by (auto simp: growth_safe_def intro: order_trans [of _ "cap + 4"])
  show ?thesis
  proof (cases "cap < length res + length e + 1")
    case True
    then show ?thesis unfolding sz gr using past [OF True, of "cx_allocs ctx"] need e i
      by (cases "am (cx_allocs ctx)") (auto simp: ensure_room_def jalloc_def buf_inv_def)
  next
    case False
    then show ?thesis unfolding sz using need e i
      by (intro exI [of _ "Some cap"] exI [of _ "cx_allocs ctx"]) (simp add: ensure_room_def buf_inv_def)
  qed
qed

lemma plain_room:
  assumes g: "growth_safe past str" and inv: "buf_inv str cap res ctx" and c: "cx_pos ctx < length str"
  shows "\<exists>r al. ensure_room am past (cap < szt (length res + 2)) cap (grow_plain cap) (ctx\<lparr>cx_pos := cx_pos ctx + 1\<rparr>)
      = Some (r, ctx\<lparr>cx_pos := cx_pos ctx + 1, cx_allocs := al\<rparr>) \<and> ((\<forall>i. am i) \<longrightarrow> r \<noteq> None) \<and>
    (\<forall>cap'. r = Some cap' \<longrightarrow> length res < cap' \<and> buf_inv str cap' (res @ [x]) (ctx\<lparr>cx_pos := cx_pos ctx + 1, cx_allocs := al\<rparr>))"
proof -
  have i: "64 \<le> cap" "cap \<le> 2 * length str + 64" "length res < cap" "length res < cx_pos ctx" "length str < 2 ^ 62"
    using inv g by (auto simp: buf_inv_def growth_safe_def)
  have sz: "szt (length res + 2) = length res + 2" using c i by simp
  show ?thesis
  proof (cases "cap < length res + 2")
    case True
    have "cap < 2 ^ 63" using i c True by simp
    then have gr: "grow_plain cap = 2 * cap" by (rule grow_plain_small)
    show ?thesis unfolding sz gr using True c i
      by (cases "am (cx_allocs ctx)") (auto simp: ensure_room_def jalloc_def buf_inv_def)
  next
    case False
    then show ?thesis unfolding sz using c i
      by (intro exI [of _ "Some cap"] exI [of _ "cx_allocs ctx"]) (simp add: ensure_room_def buf_inv_def)
  qed
qed

lemma escape_char_cases:
  obtains (raw) "escape_char c = [c]" "c \<noteq> CHR 0x22" "c \<noteq> CHR 0x5C"
  | (short) l where "escape_char c = [CHR 0x5C, l]" "\<And>str pos. str ! pos = l \<Longrightarrow> json_escape str pos = Some ([c], pos)"
  | (long) n where "escape_char c = [CHR 0x5C, CHR ''u'', CHR ''0'', CHR ''0'', hex_char (n div 16), hex_char (n mod 16)]" "n < 32" "c = char_of n"
proof -
  consider "c \<in> {CHR 0x22, CHR 0x5C, CHR 0x0A, CHR 0x0D, CHR 0x09, CHR 0x08, CHR 0x0C}"
    | "c \<notin> {CHR 0x22, CHR 0x5C, CHR 0x0A, CHR 0x0D, CHR 0x09, CHR 0x08, CHR 0x0C}" "(of_char c :: nat) < 32"
    | "c \<notin> {CHR 0x22, CHR 0x5C, CHR 0x0A, CHR 0x0D, CHR 0x09, CHR 0x08, CHR 0x0C}" "\<not> (of_char c :: nat) < 32" by blast
  then show thesis
  proof cases
    case 1
    show thesis
      by (rule short [of "if c = CHR 0x0A then CHR ''n'' else if c = CHR 0x0D then CHR ''r'' else if c = CHR 0x09 then CHR ''t''
            else if c = CHR 0x08 then CHR ''b'' else if c = CHR 0x0C then CHR ''f'' else c"])
        (use 1 in \<open>auto simp: escape_char_def json_escape_def\<close>)
  next
    case 2
    show thesis by (rule long [of "of_char c"]) (use 2 in \<open>simp_all add: escape_char_def\<close>)
  next
    case 3
    show thesis by (rule raw) (use 3 in \<open>simp_all add: escape_char_def\<close>)
  qed
qed

text \<open>One escape sequence of the text, and one plain character.\<close>

lemma string_loop_escape:
  assumes g: "growth_safe past str" and inv: "buf_inv str cap res ctx"
    and c: "cx_pos ctx + 1 < length str" "str ! cx_pos ctx = CHR 0x5C" "json_escape str (cx_pos ctx + 1) = Some (e, p)"
  shows "\<exists>cap' al. buf_inv str cap' (res @ e) (ctx\<lparr>cx_pos := p + 1, cx_allocs := al\<rparr>) \<and>
    string_loop always past str cap res ctx = string_loop always past str cap' (res @ e) (ctx\<lparr>cx_pos := p + 1, cx_allocs := al\<rparr>)"
proof -
  obtain r al where r: "ensure_room always past (cap < szt (length res + length e + 1)) cap (grow_escape (length res) (length e)) (ctx\<lparr>cx_pos := p + 1\<rparr>)
      = Some (r, ctx\<lparr>cx_pos := p + 1, cx_allocs := al\<rparr>)" "r \<noteq> None"
    "\<And>cap'. r = Some cap' \<Longrightarrow> length res + length e \<le> cap' \<and> buf_inv str cap' (res @ e) (ctx\<lparr>cx_pos := p + 1, cx_allocs := al\<rparr>)"
    using escape_room [OF g inv c, of always] by auto
  then obtain cap' where c': "r = Some cap'" by blast
  have "string_loop always past str cap res ctx = string_loop always past str cap' (res @ e) (ctx\<lparr>cx_pos := p + 1, cx_allocs := al\<rparr>)"
    using c r(1) r(3) [OF c'] c' by (subst string_loop.simps) (simp add: Let_def)
  then show ?thesis using r(3) [OF c'] by blast
qed

lemma string_loop_plain:
  assumes g: "growth_safe past str" and inv: "buf_inv str cap res ctx"
    and c: "cx_pos ctx < length str" "str ! cx_pos ctx \<noteq> CHR 0x5C" "str ! cx_pos ctx \<noteq> CHR 0x22"
  shows "\<exists>cap' al. buf_inv str cap' (res @ [str ! cx_pos ctx]) (ctx\<lparr>cx_pos := cx_pos ctx + 1, cx_allocs := al\<rparr>) \<and>
    string_loop always past str cap res ctx =
      string_loop always past str cap' (res @ [str ! cx_pos ctx]) (ctx\<lparr>cx_pos := cx_pos ctx + 1, cx_allocs := al\<rparr>)"
proof -
  let ?x = "str ! cx_pos ctx"
  obtain r al where r: "ensure_room always past (cap < szt (length res + 2)) cap (grow_plain cap) (ctx\<lparr>cx_pos := cx_pos ctx + 1\<rparr>)
      = Some (r, ctx\<lparr>cx_pos := cx_pos ctx + 1, cx_allocs := al\<rparr>)" "r \<noteq> None"
    "\<And>cap'. r = Some cap' \<Longrightarrow> length res < cap' \<and> buf_inv str cap' (res @ [?x]) (ctx\<lparr>cx_pos := cx_pos ctx + 1, cx_allocs := al\<rparr>)"
    using plain_room [OF g inv c(1), of always ?x] by auto
  then obtain cap' where c': "r = Some cap'" by blast
  have "string_loop always past str cap res ctx = string_loop always past str cap' (res @ [?x]) (ctx\<lparr>cx_pos := cx_pos ctx + 1, cx_allocs := al\<rparr>)"
    using c r(1) r(3) [OF c'] c' by (subst string_loop.simps) (simp add: Let_def)
  then show ?thesis using r(3) [OF c'] by blast
qed

lemma string_loop_char:
  assumes g: "growth_safe past str" and inv: "buf_inv str cap res ctx" and d: "drop (cx_pos ctx) str = escape_char c @ rest"
  shows "\<exists>cap' al. buf_inv str cap' (res @ [c]) (ctx\<lparr>cx_pos := cx_pos ctx + length (escape_char c), cx_allocs := al\<rparr>) \<and>
    string_loop always past str cap res ctx =
      string_loop always past str cap' (res @ [c]) (ctx\<lparr>cx_pos := cx_pos ctx + length (escape_char c), cx_allocs := al\<rparr>)"
proof (cases c rule: escape_char_cases)
  case raw
  have "drop (cx_pos ctx) str = c # rest" using d raw(1) by simp
  note dn = drop_nth [OF this]
  then show ?thesis using string_loop_plain [OF g inv] raw by simp
next
  case (short l)
  have "drop (cx_pos ctx) str = CHR 0x5C # l # rest" using d short(1) by simp
  note d1 = drop_nth [OF this]
  then have d2: "cx_pos ctx + 1 < length str" "str ! (cx_pos ctx + 1) = l" using drop_nth [of "cx_pos ctx + 1" str l rest] by simp_all
  have "length (escape_char c) = 2" using short(1) by simp
  then show ?thesis using string_loop_escape [OF g inv d2(1) _ short(2) [OF d2(2)]] d1 by simp
next
  case (long n)
  let ?p = "cx_pos ctx + 1"
  let ?h = "CHR ''0'' # CHR ''0'' # hex_char (n div 16) # hex_char (n mod 16) # rest"
  have "drop (cx_pos ctx) str = CHR 0x5C # CHR ''u'' # ?h" using d long(1) by simp
  note d1 = drop_nth [OF this]
  then have d2: "drop ?p str = CHR ''u'' # ?h" by simp
  then have d3: "?p < length str" "str ! ?p = CHR ''u''" using drop_nth [OF d2] by simp_all
  have esc: "json_escape str ?p = Some ([c], ?p + 4)"
    using unicode_escape_small [OF d2 long(2)] d3 long(3) by (simp add: json_escape_def)
  have l: "length (escape_char c) = 6" using long(1) by simp
  have "?p + 4 + 1 = cx_pos ctx + 6" by simp
  then show ?thesis using string_loop_escape [OF g inv d3(1) _ esc] d1 unfolding l by metis
qed

lemma string_loop_text:
  assumes "growth_safe past str" "buf_inv str cap res ctx" and d: "drop (cx_pos ctx) str = concat (map escape_char s) @ CHR 0x22 # post"
  shows "\<exists>al. string_loop always past str cap res ctx =
    Some (Some (res @ s), ctx\<lparr>cx_pos := cx_pos ctx + length (concat (map escape_char s)) + 1, cx_allocs := al\<rparr>)"
  using assms
proof (induction s arbitrary: cap res ctx)
  case Nil
  then have "drop (cx_pos ctx) str = CHR 0x22 # post" by simp
  note dn = drop_nth [OF this]
  have "length res < cap" using Nil.prems(2) by (simp add: buf_inv_def)
  then have "string_loop always past str cap res ctx = Some (Some res, ctx\<lparr>cx_pos := cx_pos ctx + 1, cx_allocs := cx_allocs ctx\<rparr>)"
    using dn by (subst string_loop.simps) (simp add: Let_def)
  then show ?case by (intro exI [of _ "cx_allocs ctx"]) simp
next
  case (Cons c s)
  have d: "drop (cx_pos ctx) str = escape_char c @ concat (map escape_char s) @ CHR 0x22 # post" using Cons.prems by simp
  from string_loop_char [OF Cons.prems(1,2) d] obtain cap' al where
    c: "buf_inv str cap' (res @ [c]) (ctx\<lparr>cx_pos := cx_pos ctx + length (escape_char c), cx_allocs := al\<rparr>)"
      "string_loop always past str cap res ctx =
        string_loop always past str cap' (res @ [c]) (ctx\<lparr>cx_pos := cx_pos ctx + length (escape_char c), cx_allocs := al\<rparr>)" by blast
  have "drop (cx_pos (ctx\<lparr>cx_pos := cx_pos ctx + length (escape_char c), cx_allocs := al\<rparr>)) str = concat (map escape_char s) @ CHR 0x22 # post"
    using drop_add [OF d] by simp
  from Cons.IH [OF Cons.prems(1) c(1) this] show ?case using c(2) by (auto simp: add.assoc)
qed

lemma parse_string_text:
  assumes g: "growth_safe past str" and d: "drop (cx_pos ctx) str = jstring s @ post"
  shows "\<exists>al. json_parse_string always past str ctx = Some (Some s, ctx\<lparr>cx_pos := cx_pos ctx + length (jstring s), cx_allocs := al\<rparr>)"
proof -
  have "drop (cx_pos ctx) str = CHR 0x22 # concat (map escape_char s) @ CHR 0x22 # post" using d by (simp add: jstring_def)
  note dn = drop_nth [OF this]
  let ?ctx = "ctx\<lparr>cx_pos := cx_pos ctx + 1, cx_allocs := cx_allocs ctx + 1\<rparr>"
  have dr: "drop (cx_pos ?ctx) str = concat (map escape_char s) @ CHR 0x22 # post" using dn by simp
  have inv: "buf_inv str 64 [] ?ctx" by (simp add: buf_inv_def)
  from string_loop_text [OF g inv dr] obtain al where
    "string_loop always past str 64 [] ?ctx = Some (Some s, ?ctx\<lparr>cx_pos := cx_pos ?ctx + length (concat (map escape_char s)) + 1, cx_allocs := al\<rparr>)" by auto
  then show ?thesis using dn by (intro exI [of _ al]) (simp add: json_parse_string_def at_def jalloc_def jstring_def)
qed

subsection \<open>Representation\<close>

text \<open>The fields of a node other than its sibling pointer and its arena.\<close>

definition node_is :: "'d json_node heap \<Rightarrow> nat \<Rightarrow> json_type \<Rightarrow> 'd option \<Rightarrow> string option \<Rightarrow> nat option \<Rightarrow> bool" where
  "node_is h a ty d s ch \<longleftrightarrow> (\<exists>n. hp_map h a = Some n \<and> jn_type n = ty \<and> jn_number n = d \<and> jn_string n = s \<and> jn_child n = ch)"

definition next_is :: "'d json_node heap \<Rightarrow> nat \<Rightarrow> nat option \<Rightarrow> bool" where
  "next_is h a q \<longleftrightarrow> (\<exists>n. hp_map h a = Some n \<and> jn_next n = q)"

definition member_is :: "'d json_node heap \<Rightarrow> nat \<Rightarrow> string \<Rightarrow> nat \<Rightarrow> bool" where
  "member_is h a k ch \<longleftrightarrow> (\<exists>n. hp_map h a = Some n \<and> jn_key n = Some k \<and> jn_child n = Some ch)"

text \<open>
  The nodes of a value fill the addresses from \<open>lo\<close> to \<open>hi\<close>; its own node is at \<open>lo\<close>. Elements are chained in the order of their addresses;
  the node of a member follows the nodes of its value.
\<close>

fun repr :: "'d json_node heap \<Rightarrow> nat \<Rightarrow> nat \<Rightarrow> 'd json \<Rightarrow> bool"
  and repr_elems :: "'d json_node heap \<Rightarrow> nat \<Rightarrow> nat \<Rightarrow> nat option \<Rightarrow> 'd json list \<Rightarrow> bool"
  and repr_members :: "'d json_node heap \<Rightarrow> nat \<Rightarrow> nat \<Rightarrow> nat option \<Rightarrow> nat option \<Rightarrow> 'd member list \<Rightarrow> bool" where
  "repr h lo hi JNull \<longleftrightarrow> hi = Suc lo \<and> node_is h lo JSON_NULL None None None"
| "repr h lo hi JTrue \<longleftrightarrow> hi = Suc lo \<and> node_is h lo JSON_TRUE None None None"
| "repr h lo hi JFalse \<longleftrightarrow> hi = Suc lo \<and> node_is h lo JSON_FALSE None None None"
| "repr h lo hi (JNum d) \<longleftrightarrow> hi = Suc lo \<and> node_is h lo JSON_NUMBER (Some d) None None"
| "repr h lo hi (JStr s) \<longleftrightarrow> hi = Suc lo \<and> node_is h lo JSON_STRING None (Some s) None"
| "repr h lo hi (JArr vs) \<longleftrightarrow> lo < hi \<and> node_is h lo JSON_ARRAY None None (if vs = [] then None else Some (Suc lo)) \<and> repr_elems h (Suc lo) hi None vs"
| "repr h lo hi (JObj ms) \<longleftrightarrow> lo < hi \<and> (\<exists>p. node_is h lo JSON_OBJECT None None p \<and> repr_members h (Suc lo) hi p None ms)"
| "repr_elems h lo hi q [] \<longleftrightarrow> lo = hi"
| "repr_elems h lo hi q (v # vs) \<longleftrightarrow> (\<exists>mid. mid \<le> hi \<and> repr h lo mid v \<and> next_is h lo (if vs = [] then q else Some mid) \<and> repr_elems h mid hi q vs)"
| "repr_members h lo hi p q [] \<longleftrightarrow> p = q \<and> lo = hi"
| "repr_members h lo hi p q (Member k v # ms) \<longleftrightarrow>
     (\<exists>a p'. a < hi \<and> p = Some a \<and> repr h lo a v \<and> (empty_container v \<longrightarrow> next_is h lo None) \<and>
        member_is h a k lo \<and> next_is h a p' \<and> repr_members h (Suc a) hi p' q ms)"

lemma repr_lt: "repr h lo hi v \<Longrightarrow> lo < hi"
  by (cases v) auto

lemma node_is_upd: "hp_map h' a = hp_map h a \<Longrightarrow> node_is h' a ty d s ch = node_is h a ty d s ch"
  by (simp add: node_is_def)

text \<open>The representation depends on the nodes of the interval, and not on the sibling pointer of the first.\<close>

definition same_on :: "nat set \<Rightarrow> 'd json_node heap \<Rightarrow> 'd json_node heap \<Rightarrow> bool" where
  "same_on A h h' \<longleftrightarrow> (\<forall>a\<in>A. hp_map h' a = hp_map h a)"

definition same_node :: "nat \<Rightarrow> 'd json_node heap \<Rightarrow> 'd json_node heap \<Rightarrow> bool" where
  "same_node a h h' \<longleftrightarrow> (\<forall>ty d s ch. node_is h a ty d s ch \<longrightarrow> node_is h' a ty d s ch)"

lemma same_on_sub: "same_on A h h' \<Longrightarrow> B \<subseteq> A \<Longrightarrow> same_on B h h'"
  by (auto simp: same_on_def)

lemma same_node_on: "same_on A h h' \<Longrightarrow> a \<in> A \<Longrightarrow> same_node a h h'"
  by (simp add: same_on_def same_node_def node_is_def)

lemma next_is_on: "same_on A h h' \<Longrightarrow> a \<in> A \<Longrightarrow> next_is h' a q = next_is h a q"
  by (simp add: same_on_def next_is_def)

lemma member_is_on: "same_on A h h' \<Longrightarrow> a \<in> A \<Longrightarrow> member_is h' a k ch = member_is h a k ch"
  by (simp add: same_on_def member_is_def)

lemma repr_frame:
  "repr h lo hi v \<Longrightarrow> same_on {Suc lo..<hi} h h' \<Longrightarrow> same_node lo h h' \<Longrightarrow> repr h' lo hi v"
  "repr_elems h lo hi q vs \<Longrightarrow> same_on {lo..<hi} h h' \<Longrightarrow> repr_elems h' lo hi q vs"
  "repr_members h lo hi p q ms \<Longrightarrow> same_on {lo..<hi} h h' \<Longrightarrow> repr_members h' lo hi p q ms"
proof (induction h lo hi v and h lo hi q vs and h lo hi p q ms rule: repr_repr_elems_repr_members.induct)
  case (6 h lo hi vs)
  then show ?case by (auto simp: same_node_def)
next
  case (7 h lo hi ms)
  then show ?case unfolding same_node_def by simp blast
next
  case (9 h lo hi q v vs)
  from 9(3) obtain mid where m: "mid \<le> hi" "repr h lo mid v" "next_is h lo (if vs = [] then q else Some mid)" "repr_elems h mid hi q vs" by auto
  have lt: "lo < mid" by (rule repr_lt [OF m(2)])
  have "repr h' lo mid v" by (rule 9(1) [OF m(2) same_on_sub [OF 9(4)] same_node_on [OF 9(4)]]) (use lt m(1) in auto)
  moreover have "next_is h' lo (if vs = [] then q else Some mid)" using next_is_on [OF 9(4), of lo] lt m(1,3) by simp
  moreover have "repr_elems h' mid hi q vs" by (rule 9(2) [OF m(4) same_on_sub [OF 9(4)]]) (use lt in auto)
  ultimately show ?case using m(1) by auto
next
  case (11 h lo hi p q k v ms)
  from 11(3) obtain a p' where m: "a < hi" "p = Some a" "repr h lo a v" "empty_container v \<longrightarrow> next_is h lo None"
    "member_is h a k lo" "next_is h a p'" "repr_members h (Suc a) hi p' q ms" by auto
  have lt: "lo < a" by (rule repr_lt [OF m(3)])
  have "repr h' lo a v" by (rule 11(1) [OF m(3) same_on_sub [OF 11(4)] same_node_on [OF 11(4)]]) (use lt m(1) in auto)
  moreover have "empty_container v \<longrightarrow> next_is h' lo None" using next_is_on [OF 11(4), of lo] lt m(1,4) by simp
  moreover have "member_is h' a k lo" "next_is h' a p'" using next_is_on [OF 11(4), of a] member_is_on [OF 11(4), of a] lt m(1,5,6) by simp_all
  moreover have "repr_members h' (Suc a) hi p' q ms" by (rule 11(2) [OF m(7) same_on_sub [OF 11(4)]]) (use lt in auto)
  ultimately show ?case using m(1,2) by auto
qed (auto simp: same_node_def)

lemma repr_elems_le: "repr_elems h lo hi q vs \<Longrightarrow> lo \<le> hi"
proof (cases vs)
  case (Cons v vs')
  assume "repr_elems h lo hi q vs"
  then obtain mid where "mid \<le> hi" "repr h lo mid v" unfolding Cons by auto
  then show ?thesis using repr_lt [of h lo mid v] by simp
qed simp

lemma repr_elems_snoc:
  "repr_elems h lo hi q (vs @ [v]) \<longleftrightarrow> (\<exists>mid. repr_elems h lo mid (Some mid) vs \<and> repr h mid hi v \<and> next_is h mid q)"
proof (induction vs arbitrary: lo)
  case Nil
  then show ?case by (auto dest: repr_lt)
next
  case (Cons w vs)
  show ?case
  proof
    assume "repr_elems h lo hi q ((w # vs) @ [v])"
    then obtain m where m: "repr h lo m w" "next_is h lo (Some m)" "repr_elems h m hi q (vs @ [v])" by auto
    from m(3) Cons.IH obtain mid where r: "repr_elems h m mid (Some mid) vs" "repr h mid hi v" "next_is h mid q" by blast
    have "next_is h lo (if vs = [] then Some mid else Some m)" using m(2) r(1) by auto
    then have "repr_elems h lo mid (Some mid) (w # vs)" using m(1) r(1) repr_elems_le [OF r(1)] by (simp only: repr_elems.simps) blast
    then show "\<exists>mid. repr_elems h lo mid (Some mid) (w # vs) \<and> repr h mid hi v \<and> next_is h mid q" using r(2,3) by blast
  next
    assume "\<exists>mid. repr_elems h lo mid (Some mid) (w # vs) \<and> repr h mid hi v \<and> next_is h mid q"
    then obtain mid m where r: "m \<le> mid" "repr h lo m w" "next_is h lo (if vs = [] then Some mid else Some m)" "repr_elems h m mid (Some mid) vs"
      "repr h mid hi v" "next_is h mid q" by auto
    have "repr_elems h m hi q (vs @ [v])" using Cons.IH r(4,5,6) by blast
    moreover have "next_is h lo (Some m)" using r(3,4) by (cases vs) auto
    ultimately show "repr_elems h lo hi q ((w # vs) @ [v])" using r(1,2) repr_lt [OF r(5)] by (auto intro!: exI [of _ m])
  qed
qed

lemma repr_members_le: "repr_members h lo hi p q ms \<Longrightarrow> lo \<le> hi"
proof (induction ms arbitrary: lo p)
  case (Cons m ms)
  then show ?case by (cases m) (fastforce dest!: repr_lt)
qed simp

lemma repr_members_snoc:
  assumes "repr_members h lo mid p (Some a) ms" "repr h mid a v" "empty_container v \<longrightarrow> next_is h mid None" "member_is h a k mid" "next_is h a q"
  shows "repr_members h lo (Suc a) p q (ms @ [Member k v])"
  using assms
proof (induction ms arbitrary: lo p)
  case (Cons m ms)
  obtain k' v' where m: "m = Member k' v'" by (cases m)
  from Cons.prems(1) obtain b p' where b: "b < mid" "p = Some b" "repr h lo b v'" "empty_container v' \<longrightarrow> next_is h lo None" "member_is h b k' lo" "next_is h b p'"
    "repr_members h (Suc b) mid p' (Some a) ms" unfolding m by auto
  have "repr_members h (Suc b) (Suc a) p' q (ms @ [Member k v])" by (rule Cons.IH [OF b(7) Cons.prems(2-5)])
  then show ?case using b repr_lt [OF Cons.prems(2)] unfolding m by auto
qed auto

end
