(* ===== verification/Cobalt_JSON_Parse.thy ===== *)
theory Cobalt_JSON_Parse
  imports Cobalt_JSON_Text
begin

section \<open>JSON: the parser reads printed values\<close>

text \<open>
  The compact text of a document is parsed into nodes that represent the document: scalars, then the loops over elements and members with the
  state of the container under construction as their invariant, then documents by induction.
\<close>

subsection \<open>Parsing a printed value\<close>

text \<open>
  Documents the parser reads back from their compact text. An object swallows a closing brace that follows its own, so the last
  member of an object must not be a non-empty object. The serializer takes the sibling of an empty container for its
  content, so an array holds an empty container only at its end.
\<close>

definition no_inner_empty :: "'d json list \<Rightarrow> bool" where
  "no_inner_empty vs \<longleftrightarrow> (\<forall>v \<in> set (butlast vs). \<not> empty_container v)"

fun member_value :: "'d member \<Rightarrow> 'd json" where
  "member_value (Member k v) = v"

primrec regular :: "('d \<Rightarrow> bool) \<Rightarrow> 'd json \<Rightarrow> bool" and regular_member :: "('d \<Rightarrow> bool) \<Rightarrow> 'd member \<Rightarrow> bool" where
  "regular num JNull \<longleftrightarrow> True"
| "regular num JTrue \<longleftrightarrow> True"
| "regular num JFalse \<longleftrightarrow> True"
| "regular num (JNum d) \<longleftrightarrow> num d"
| "regular num (JStr s) \<longleftrightarrow> CHR 0x00 \<notin> set s"
| "regular num (JArr vs) \<longleftrightarrow> list_all id (map (regular num) vs) \<and> no_inner_empty vs"
| "regular num (JObj ms) \<longleftrightarrow> list_all id (map (regular_member num) ms) \<and> (ms \<noteq> [] \<longrightarrow> \<not> full_object (member_value (last ms)))"
| "regular_member num (Member k v) \<longleftrightarrow> CHR 0x00 \<notin> set k \<and> regular num v"

primrec jdepth :: "'d json \<Rightarrow> nat" and jdepth_member :: "'d member \<Rightarrow> nat" where
  "jdepth JNull = 0"
| "jdepth JTrue = 0"
| "jdepth JFalse = 0"
| "jdepth (JNum d) = 0"
| "jdepth (JStr s) = 0"
| "jdepth (JArr vs) = Suc (foldr max (map jdepth vs) 0)"
| "jdepth (JObj ms) = Suc (foldr max (map jdepth_member ms) 0)"
| "jdepth_member (Member k v) = jdepth v"

text \<open>The context after a value has been read: position and heap have changed, the rest is as before.\<close>

definition moves :: "'d json_ctx \<Rightarrow> nat \<Rightarrow> 'd json_node heap \<Rightarrow> 'd json_ctx \<Rightarrow> bool" where
  "moves ctx pos h ctx' \<longleftrightarrow> (\<exists>al. ctx' = ctx\<lparr>cx_pos := pos, cx_heap := h, cx_allocs := al\<rparr>)"

lemma movesD: "moves ctx pos h ctx' \<Longrightarrow> cx_pos ctx' = pos \<and> cx_heap ctx' = h \<and> cx_depth ctx' = cx_depth ctx \<and> cx_exceeded ctx' = cx_exceeded ctx"
  by (auto simp: moves_def)

definition extends :: "'d json_node heap \<Rightarrow> 'd json_node heap \<Rightarrow> bool" where
  "extends h h' \<longleftrightarrow> heap_ok h' \<and> hp_next h \<le> hp_next h' \<and> same_on {..<hp_next h} h h'"

lemma movesI: "ctx' = ctx\<lparr>cx_pos := pos, cx_heap := h, cx_allocs := al\<rparr> \<Longrightarrow> moves ctx pos h ctx'"
  by (auto simp: moves_def)

lemma moves_trans: "moves ctx p h ctx' \<Longrightarrow> moves ctx' p' h' ctx'' \<Longrightarrow> moves ctx p' h' ctx''"
  by (auto simp: moves_def)

lemma extends_trans: "extends h h' \<Longrightarrow> extends h' h'' \<Longrightarrow> extends h h''"
  by (auto simp: extends_def same_on_def)

lemma node_create_ok:
  assumes "heap_ok (cx_heap ctx)"
  shows "\<exists>h ctx'. json_node_create always ty ctx = (Some (hp_next (cx_heap ctx)), ctx') \<and> moves ctx (cx_pos ctx) h ctx' \<and>
    extends (cx_heap ctx) h \<and> hp_next h = Suc (hp_next (cx_heap ctx)) \<and> node_is h (hp_next (cx_heap ctx)) ty None None None \<and>
    next_is h (hp_next (cx_heap ctx)) None"
proof -
  let ?h = "\<lparr>hp_next = Suc (hp_next (cx_heap ctx)), hp_map = (hp_map (cx_heap ctx))(hp_next (cx_heap ctx) \<mapsto>
     \<lparr>jn_type = ty, jn_number = None, jn_string = None, jn_next = None, jn_child = None, jn_key = None, jn_arena = False, jn_owns_arena = False\<rparr>)\<rparr>"
  show ?thesis
    by (intro exI [of _ "ctx\<lparr>cx_allocs := cx_allocs ctx + 1, cx_heap := ?h\<rparr>"] exI [of _ ?h])
      (use assms in \<open>auto simp: json_node_create_def jalloc_def heap_new_def extends_def same_on_def heap_ok_def node_is_def next_is_def
         intro!: movesI [where al = "Suc (cx_allocs ctx)"]\<close>)
qed

lemma set_node_ok:
  assumes "hp_map (cx_heap ctx) a = Some n" "heap_ok (cx_heap ctx)"
  shows "\<exists>h ctx'. set_node a f ctx = Some ctx' \<and> moves ctx (cx_pos ctx) h ctx' \<and> heap_ok h \<and> hp_next h = hp_next (cx_heap ctx) \<and>
    hp_map h = (hp_map (cx_heap ctx))(a \<mapsto> f n)"
proof -
  let ?h = "(cx_heap ctx)\<lparr>hp_map := (hp_map (cx_heap ctx))(a \<mapsto> f n)\<rparr>"
  have "a < hp_next (cx_heap ctx)" using heap_bound [OF assms(2,1)] .
  then show ?thesis
    by (intro exI [of _ "ctx\<lparr>cx_heap := ?h\<rparr>"] exI [of _ ?h])
      (use assms in \<open>auto simp: set_node_def heap_upd_def heap_ok_def intro!: movesI [where al = "cx_allocs ctx"]\<close>)
qed

lemma create_set_ok:
  assumes ok: "heap_ok (cx_heap ctx)" and a: "a = hp_next (cx_heap ctx)"
  shows "\<exists>h n ctx1 ctx'. json_node_create always ty ctx = (Some a, ctx1) \<and> set_node a f ctx1 = Some ctx' \<and> moves ctx (cx_pos ctx) h ctx' \<and>
    extends (cx_heap ctx) h \<and> hp_next h = Suc a \<and> hp_map h a = Some (f n) \<and>
    jn_type n = ty \<and> jn_number n = None \<and> jn_string n = None \<and> jn_child n = None \<and> jn_next n = None"
proof -
  from node_create_ok [OF ok, of ty] obtain h2 c2 where c2: "json_node_create always ty ctx = (Some a, c2)" "moves ctx (cx_pos ctx) h2 c2"
    "extends (cx_heap ctx) h2" "hp_next h2 = Suc a" "node_is h2 a ty None None None" "next_is h2 a None" unfolding a by blast
  from c2(5,6) obtain n where n: "hp_map h2 a = Some n" "jn_type n = ty" "jn_number n = None" "jn_string n = None" "jn_child n = None" "jn_next n = None"
    by (auto simp: node_is_def next_is_def)
  have "hp_map (cx_heap c2) a = Some n" "heap_ok (cx_heap c2)" using n(1) c2(3) movesD [OF c2(2)] by (simp_all add: extends_def)
  from set_node_ok [OF this, of f] obtain h3 c3 where c3: "set_node a f c2 = Some c3" "moves c2 (cx_pos c2) h3 c3" "heap_ok h3"
    "hp_next h3 = hp_next (cx_heap c2)" "hp_map h3 = (hp_map (cx_heap c2))(a \<mapsto> f n)" by blast
  have "moves ctx (cx_pos ctx) h3 c3" using moves_trans [OF c2(2) c3(2)] movesD [OF c2(2)] by simp
  moreover have "extends (cx_heap ctx) h3" using c2(3) c3(3,4,5) movesD [OF c2(2)] c2(4) a by (auto simp: extends_def same_on_def)
  moreover have "hp_map h3 a = Some (f n)" "hp_next h3 = Suc a" using c2(4) c3(4,5) movesD [OF c2(2)] by simp_all
  ultimately show ?thesis using c2(1) c3(1) n by blast
qed

text \<open>The result of parsing \<open>v\<close> at the position of \<open>ctx\<close>: \<open>n\<close> characters are read, and the new nodes represent \<open>v\<close>.\<close>

definition parsed :: "'d json_ctx \<Rightarrow> nat \<Rightarrow> 'd json \<Rightarrow> (nat option \<times> 'd json_ctx) option \<Rightarrow> bool" where
  "parsed ctx n v res \<longleftrightarrow> (\<exists>h ctx'. res = Some (Some (hp_next (cx_heap ctx)), ctx') \<and> moves ctx (cx_pos ctx + n) h ctx' \<and>
     extends (cx_heap ctx) h \<and> repr h (hp_next (cx_heap ctx)) (hp_next h) v \<and> (empty_container v \<longrightarrow> next_is h (hp_next (cx_heap ctx)) None))"

lemma parsedI:
  assumes "heap_ok (cx_heap c1)" "c1 = ctx\<lparr>cx_pos := cx_pos ctx + n, cx_allocs := al\<rparr>"
    and "\<And>n. jn_type n = ty \<and> jn_number n = None \<and> jn_string n = None \<and> jn_child n = None \<Longrightarrow>
      jn_type (f n) = ty \<and> jn_number (f n) = d \<and> jn_string (f n) = s \<and> jn_child (f n) = None"
    and v: "\<And>h a. repr h a (Suc a) v \<longleftrightarrow> node_is h a ty d s None" "\<not> empty_container v"
  shows "parsed ctx n v (case json_node_create always ty c1 of (None, c2) \<Rightarrow> Some (None, c2) | (Some a, c2) \<Rightarrow> map_option (Pair (Some a)) (set_node a f c2))"
proof -
  let ?a = "hp_next (cx_heap ctx)"
  have "?a = hp_next (cx_heap c1)" using assms(2) by simp
  from create_set_ok [OF assms(1) this, of ty f] obtain h n' c2 c3 where c: "json_node_create always ty c1 = (Some ?a, c2)" "set_node ?a f c2 = Some c3"
    "moves c1 (cx_pos c1) h c3" "extends (cx_heap c1) h" "hp_next h = Suc ?a" "hp_map h ?a = Some (f n')"
    "jn_type n' = ty" "jn_number n' = None" "jn_string n' = None" "jn_child n' = None" by blast
  have "moves ctx (cx_pos ctx + n) h c3" "extends (cx_heap ctx) h" using c(3,4) assms(2) by (auto simp: moves_def)
  moreover have "repr h ?a (hp_next h) v" unfolding c(5) v(1) using assms(3) [of n'] c(6-10) by (simp add: node_is_def)
  ultimately show ?thesis using c(1,2) v(2) by (auto simp: parsed_def)
qed

lemma parse_string_parsed:
  assumes "growth_safe past str" "drop (cx_pos ctx) str = jstring s @ post" "heap_ok (cx_heap ctx)"
  shows "parsed ctx (length (jstring s)) (JStr s) (parse_string_value always past str ctx)"
proof -
  from parse_string_text [OF assms(1,2)] obtain al where
    p: "json_parse_string always past str ctx = Some (Some s, ctx\<lparr>cx_pos := cx_pos ctx + length (jstring s), cx_allocs := al\<rparr>)" by blast
  show ?thesis unfolding parse_string_value_def p prod.case option.case
    by (rule parsedI [where al = al and d = None and s = "Some s"]) (use assms(3) in \<open>simp_all add: empty_container_def\<close>)
qed

lemma parse_number_parsed:
  assumes d: "drop (cx_pos ctx) str = fmt d @ post" and f: "follows post" and c: "number_conversion strtod fmt d" and ok: "heap_ok (cx_heap ctx)"
  shows "parsed ctx (length (fmt d)) (JNum d) (parse_number_value always strtod str ctx)"
proof -
  have "number_text (fmt d)" using c by (simp add: number_conversion_def)
  from scan_number_text [OF d this f] have sc: "scan_number str (cx_pos ctx) = cx_pos ctx + length (fmt d)" .
  let ?c1 = "ctx\<lparr>cx_pos := cx_pos ctx + length (fmt d), cx_allocs := cx_allocs ctx + 1\<rparr>"
  have v: "strtod (take (cx_pos ctx + length (fmt d) - cx_pos ctx) (drop (cx_pos ctx) str)) = d" using d c by (simp add: number_conversion_def)
  have "parse_number_value always strtod str ctx =
    (case json_node_create always JSON_NUMBER ?c1 of (None, c2) \<Rightarrow> Some (None, c2) | (Some a, c2) \<Rightarrow> map_option (Pair (Some a)) (set_node a (\<lambda>n. n\<lparr>jn_number := Some d\<rparr>) c2))"
    unfolding parse_number_value_def Let_def sc jalloc_def v by simp
  then show ?thesis
    by (simp only:) (rule parsedI [where al = "cx_allocs ctx + 1" and d = "Some d" and s = None], use ok in \<open>simp_all add: empty_container_def\<close>)
qed

lemma parse_literal_parsed:
  assumes d: "drop (cx_pos ctx) str = jprint fmt v @ post" and ok: "heap_ok (cx_heap ctx)" and v: "v = JNull \<or> v = JTrue \<or> v = JFalse"
  shows "parsed ctx (length (jprint fmt v)) v (parse_literal always str ctx)"
proof -
  let ?ty = "case v of JNull \<Rightarrow> JSON_NULL | JTrue \<Rightarrow> JSON_TRUE | _ \<Rightarrow> JSON_FALSE" and ?c1 = "ctx\<lparr>cx_pos := cx_pos ctx + length (jprint fmt v)\<rparr>"
  have p: "parse_literal always str ctx = Some (json_node_create always ?ty ?c1)" using d v by (elim disjE) (simp_all add: parse_literal_def Let_def eval_nat_numeral)
  have "heap_ok (cx_heap ?c1)" using ok by simp
  from node_create_ok [OF this, of ?ty] obtain h2 c2 where c2: "json_node_create always ?ty ?c1 = (Some (hp_next (cx_heap ctx)), c2)"
    "moves ?c1 (cx_pos ?c1) h2 c2" "extends (cx_heap ctx) h2" "hp_next h2 = Suc (hp_next (cx_heap ctx))"
    "node_is h2 (hp_next (cx_heap ctx)) ?ty None None None" by auto
  have "moves ctx (cx_pos ctx + length (jprint fmt v)) h2 c2" using c2(2) by (auto simp: moves_def)
  moreover have "repr h2 (hp_next (cx_heap ctx)) (hp_next h2) v" using c2(4,5) v by auto
  ultimately show ?thesis using p c2(1,3) v by (auto simp: parsed_def empty_container_def)
qed

subsection \<open>Building a container\<close>

text \<open>An array at \<open>root\<close> after some elements, with its last element at \<open>tail\<close>; all later addresses are free.\<close>

definition arr_state :: "'d json_node heap \<Rightarrow> nat \<Rightarrow> nat option \<Rightarrow> 'd json list \<Rightarrow> bool" where
  "arr_state h root tail ds \<longleftrightarrow> heap_ok h \<and>
     (case tail of
        None \<Rightarrow> ds = [] \<and> node_is h root JSON_ARRAY None None None \<and> hp_next h = Suc root
      | Some t \<Rightarrow> root < t \<and> node_is h root JSON_ARRAY None None (Some (Suc root)) \<and>
          (\<exists>ds' d. ds = ds' @ [d] \<and> repr_elems h (Suc root) t (Some t) ds' \<and> repr h t (hp_next h) d \<and> next_is h t None))"

definition obj_state :: "'d json_node heap \<Rightarrow> nat \<Rightarrow> nat option \<Rightarrow> 'd member list \<Rightarrow> bool" where
  "obj_state h root tail ms \<longleftrightarrow> heap_ok h \<and>
     (case tail of
        None \<Rightarrow> ms = [] \<and> node_is h root JSON_OBJECT None None None \<and> hp_next h = Suc root
      | Some t \<Rightarrow> root < t \<and> hp_next h = Suc t \<and>
          (\<exists>p ms' k v mid. ms = ms' @ [Member k v] \<and> node_is h root JSON_OBJECT None None p \<and> root < mid \<and>
             repr_members h (Suc root) mid p (Some t) ms' \<and> repr h mid t v \<and> (empty_container v \<longrightarrow> next_is h mid None) \<and>
             member_is h t k mid \<and> next_is h t None))"

lemma arr_state_done: "arr_state h root tail ds \<Longrightarrow> ds \<noteq> [] \<Longrightarrow> repr h root (hp_next h) (JArr ds)"
  by (cases tail) (auto simp: arr_state_def repr_elems_snoc dest: repr_lt)

lemma obj_state_done: "obj_state h root tail ms \<Longrightarrow> ms \<noteq> [] \<Longrightarrow> repr h root (hp_next h) (JObj ms)"
  by (cases tail) (auto simp: obj_state_def intro: repr_members_snoc)

lemma node_isD: "node_is h a ty d s ch \<Longrightarrow> \<exists>n. hp_map h a = Some n"
  by (auto simp: node_is_def)

lemma append_child_ok:
  assumes "heap_ok (cx_heap ctx)" "b = (case tail of None \<Rightarrow> root | Some t \<Rightarrow> t)" "hp_map (cx_heap ctx) b = Some n"
    "m = (case tail of None \<Rightarrow> n\<lparr>jn_child := Some a, jn_next := Some a\<rparr> | Some t \<Rightarrow> n\<lparr>jn_next := Some a\<rparr>)"
  shows "\<exists>h ctx'. append_child root tail a ctx = Some ctx' \<and> moves ctx (cx_pos ctx) h ctx' \<and> heap_ok h \<and>
    hp_next h = hp_next (cx_heap ctx) \<and> hp_map h = (hp_map (cx_heap ctx))(b \<mapsto> m)"
  using set_node_ok [of ctx b n "case tail of None \<Rightarrow> \<lambda>n. n\<lparr>jn_child := Some a, jn_next := Some a\<rparr> | Some t \<Rightarrow> \<lambda>n. n\<lparr>jn_next := Some a\<rparr>"] assms
  by (cases tail) (simp_all add: append_child_def)

lemma same_nodeI: "hp_map h a = Some n \<Longrightarrow> hp_map h' a = Some (n\<lparr>jn_next := q\<rparr>) \<Longrightarrow> same_node a h h'"
  by (auto simp: same_node_def node_is_def)

lemma arr_state_append:
  assumes st: "arr_state h root tail ds" and ext: "extends h h1" and r: "repr h1 e (hp_next h1) v" and e: "e = hp_next h"
    and n1: "hp_map h1 e = Some n1" and b: "b = (case tail of None \<Rightarrow> root | Some t \<Rightarrow> t)" and n: "hp_map h1 b = Some n"
    and m: "m = (case tail of None \<Rightarrow> n\<lparr>jn_child := Some e, jn_next := Some e\<rparr> | Some t \<Rightarrow> n\<lparr>jn_next := Some e\<rparr>)"
    and h2: "hp_map h2 = (hp_map h1)(e \<mapsto> n1\<lparr>jn_next := None\<rparr>, b \<mapsto> m)" "hp_next h2 = hp_next h1" "heap_ok h2"
  shows "arr_state h2 root (Some e) (ds @ [v]) \<and> same_on {..<root} h h2"
proof -
  have b_lt: "b < e" using st b e by (cases tail) (auto simp: arr_state_def dest: repr_lt)
  have re: "repr h2 e (hp_next h2) v" unfolding h2(2)
    by (rule repr_frame(1) [OF r]) (use b_lt n1 h2 in \<open>auto simp: same_on_def intro!: same_nodeI\<close>)
  have ne: "next_is h2 e None" using h2 b_lt by (simp add: next_is_def)
  have same: "same_on ({..<e} - {b}) h h2" using ext h2 b_lt e by (auto simp: extends_def same_on_def)
  have nb: "hp_map h b = Some n" using ext n b_lt e by (auto simp: extends_def same_on_def)
  show ?thesis
  proof (cases tail)
    case None
    then have "node_is h root JSON_ARRAY None None None" "e = Suc root" "ds = []" "b = root" using st b e by (simp_all add: arr_state_def)
    then show ?thesis using None re ne same nb h2 m by (auto simp: arr_state_def node_is_def same_on_def)
  next
    case (Some t)
    then have bt: "b = t" using b by simp
    from st Some obtain ds' d where s: "root < t" "node_is h root JSON_ARRAY None None (Some (Suc root))" "ds = ds' @ [d]"
      "repr_elems h (Suc root) t (Some t) ds'" "repr h t e d" "next_is h t None" unfolding e by (auto simp: arr_state_def)
    have "repr_elems h2 (Suc root) t (Some t) ds'" by (rule repr_frame(2) [OF s(4) same_on_sub [OF same]]) (use bt b_lt in auto)
    moreover have "repr h2 t e d"
      by (rule repr_frame(1) [OF s(5) same_on_sub [OF same] same_nodeI]) (use bt b_lt nb h2 m Some in auto)
    moreover have "next_is h2 t (Some e)" using bt h2 m Some by (simp add: next_is_def)
    ultimately have "repr_elems h2 (Suc root) e (Some e) (ds' @ [d])" unfolding repr_elems_snoc by blast
    moreover have "node_is h2 root JSON_ARRAY None None (Some (Suc root))" using same_node_on [OF same, of root] s(1,2) bt b_lt by (simp add: same_node_def)
    ultimately show ?thesis using re ne h2(3) s(1,3) bt b_lt same by (auto simp: arr_state_def same_on_def)
  qed
qed

lemma obj_state_append:
  assumes st: "obj_state h root tail ms" and ext: "extends h h1" and r: "repr h1 mid a v" "empty_container v \<longrightarrow> next_is h1 mid None" and mid: "mid = hp_next h"
    and a: "hp_next h1 = Suc a" and mem: "member_is h1 a k mid" "next_is h1 a None"
    and b: "b = (case tail of None \<Rightarrow> root | Some t \<Rightarrow> t)" and n: "hp_map h1 b = Some n"
    and m: "m = (case tail of None \<Rightarrow> n\<lparr>jn_child := Some a, jn_next := Some a\<rparr> | Some t \<Rightarrow> n\<lparr>jn_next := Some a\<rparr>)"
    and h2: "hp_map h2 = (hp_map h1)(b \<mapsto> m)" "hp_next h2 = hp_next h1" "heap_ok h2"
  shows "obj_state h2 root (Some a) (ms @ [Member k v]) \<and> same_on {..<root} h h2"
proof -
  have b_lt: "b < mid" using st b mid by (cases tail) (auto simp: obj_state_def)
  have ma: "mid < a" by (rule repr_lt [OF r(1)])
  have s12: "same_on {mid..a} h1 h2" using h2 b_lt by (auto simp: same_on_def)
  have rv: "repr h2 mid a v" by (rule repr_frame(1) [OF r(1) same_on_sub [OF s12] same_node_on [OF s12]]) (use ma in auto)
  have av: "empty_container v \<longrightarrow> next_is h2 mid None" "member_is h2 a k mid" "next_is h2 a None"
    using r(2) mem ma next_is_on [OF s12] member_is_on [OF s12] by simp_all
  have same: "same_on ({..<mid} - {b}) h h2" using ext h2 b_lt mid by (auto simp: extends_def same_on_def)
  have nb: "hp_map h b = Some n" using ext n b_lt mid by (auto simp: extends_def same_on_def)
  show ?thesis
  proof (cases tail)
    case None
    then have "node_is h root JSON_OBJECT None None None" "mid = Suc root" "ms = []" "b = root" using st b mid by (simp_all add: obj_state_def)
    then show ?thesis using None rv av same nb h2 m ma a by (auto simp: obj_state_def node_is_def same_on_def)
  next
    case (Some t)
    then have bt: "b = t" using b by simp
    from st Some obtain p ms' k' v' mi where s: "root < t" "mid = Suc t" "ms = ms' @ [Member k' v']" "node_is h root JSON_OBJECT None None p" "root < mi"
      "repr_members h (Suc root) mi p (Some t) ms'" "repr h mi t v'" "empty_container v' \<longrightarrow> next_is h mi None" "member_is h t k' mi"
      unfolding mid by (auto simp: obj_state_def)
    have mt: "mi < t" by (rule repr_lt [OF s(7)])
    have "repr_members h2 (Suc root) mi p (Some t) ms'" by (rule repr_frame(3) [OF s(6) same_on_sub [OF same]]) (use bt b_lt mt in auto)
    moreover have "repr h2 mi t v'" by (rule repr_frame(1) [OF s(7) same_on_sub [OF same] same_node_on [OF same]]) (use bt b_lt mt in auto)
    moreover have "empty_container v' \<longrightarrow> next_is h2 mi None" using s(8) next_is_on [OF same, of mi] mt bt b_lt by simp
    moreover have "member_is h2 t k' mi" "next_is h2 t (Some a)" using s(9) bt h2 m Some nb by (auto simp: member_is_def next_is_def)
    ultimately have "repr_members h2 (Suc root) mid p (Some a) (ms' @ [Member k' v'])" unfolding s(2) by (rule repr_members_snoc)
    moreover have "node_is h2 root JSON_OBJECT None None p" using same_node_on [OF same, of root] s(1,4) bt b_lt by (simp add: same_node_def)
    moreover have "same_on {..<root} h h2" by (rule same_on_sub [OF same]) (use s(1,2) bt in auto)
    moreover have "root < mid" "root < a" "hp_next h2 = Suc a" using s(1,2) ma a h2(2) by auto
    ultimately show ?thesis using rv av h2(3) s(3) by (simp add: obj_state_def) blast
  qed
qed

text \<open>The value \<open>v\<close> is read back wherever its text stands, given fuel for three calls per character.\<close>

definition parses :: "(nat \<Rightarrow> nat) \<Rightarrow> (string \<Rightarrow> 'd) \<Rightarrow> ('d \<Rightarrow> string) \<Rightarrow> string \<Rightarrow> 'd json \<Rightarrow> bool" where
  "parses past strtod fmt str v \<longleftrightarrow> (\<forall>ctx post fuel.
     drop (cx_pos ctx) str = jprint fmt v @ post \<longrightarrow> follows post \<longrightarrow> (full_object v \<longrightarrow> post = [] \<or> hd post \<noteq> CHR 0x7D) \<longrightarrow>
     cx_depth ctx + jdepth v \<le> COBALT_JSON_DOM_MAX_DEPTH \<longrightarrow> heap_ok (cx_heap ctx) \<longrightarrow> 3 * length (jprint fmt v) \<le> fuel \<longrightarrow>
     parsed ctx (length (jprint fmt v)) v (json_parse_value always past strtod str fuel ctx))"

lemma parsesD:
  assumes "parses past strtod fmt str v" "drop (cx_pos ctx) str = jprint fmt v @ post" "follows post" "full_object v \<Longrightarrow> post = [] \<or> hd post \<noteq> CHR 0x7D"
    "cx_depth ctx + jdepth v \<le> COBALT_JSON_DOM_MAX_DEPTH" "heap_ok (cx_heap ctx)" "3 * length (jprint fmt v) \<le> fuel"
  obtains h ctx' where "json_parse_value always past strtod str fuel ctx = Some (Some (hp_next (cx_heap ctx)), ctx')"
    "moves ctx (cx_pos ctx + length (jprint fmt v)) h ctx'" "extends (cx_heap ctx) h" "repr h (hp_next (cx_heap ctx)) (hp_next h) v"
    "empty_container v \<longrightarrow> next_is h (hp_next (cx_heap ctx)) None"
  using assms unfolding parses_def parsed_def by blast

lemma commas_Cons: "commas (s # ss) = s @ (if ss = [] then [] else CHR '','' # commas ss)"
  by (cases ss) simp_all

lemma skip_char:
  assumes "drop (cx_pos ctx) str = x # xs" "x \<in> {CHR '','', CHR '':'', CHR 0x5B, CHR 0x5D, CHR 0x7B, CHR 0x7D, CHR 0x22}"
  shows "json_skip_whitespace str ctx = ctx"
  by (rule skip_none [OF assms(1)]) (use assms(2) in \<open>auto simp: is_space_def\<close>)

lemma repr_node: "repr h a hi v \<Longrightarrow> \<exists>n. hp_map h a = Some n"
  by (cases v) (auto simp: node_is_def)

lemma state_tail:
  "arr_state h root tail ds \<Longrightarrow> \<exists>n. hp_map h (case tail of None \<Rightarrow> root | Some t \<Rightarrow> t) = Some n"
  "obj_state h root tail ms \<Longrightarrow> \<exists>n. hp_map h (case tail of None \<Rightarrow> root | Some t \<Rightarrow> t) = Some n"
  by (cases tail; auto simp: arr_state_def obj_state_def node_is_def next_is_def)+

lemma moves_bump: "moves ctx p h c1 \<Longrightarrow> moves (bump c1) p' h' c2 \<Longrightarrow> moves ctx p' h' c2"
  by (auto simp: moves_def bump_def)

text \<open>Linking a value that has been read into its container.\<close>

lemma array_link:
  assumes st: "arr_state (cx_heap ctx) root tail ds" and ext: "extends (cx_heap ctx) (cx_heap c1)"
    and r: "repr (cx_heap c1) e (hp_next (cx_heap c1)) v" and e: "e = hp_next (cx_heap ctx)"
  shows "\<exists>h c2 c3. set_node e (\<lambda>n. n\<lparr>jn_next := None\<rparr>) c1 = Some c2 \<and> append_child root tail e c2 = Some c3 \<and> moves c1 (cx_pos c1) h c3 \<and>
    arr_state h root (Some e) (ds @ [v]) \<and> same_on {..<root} (cx_heap ctx) h"
proof -
  have ok: "heap_ok (cx_heap ctx)" using st by (simp add: arr_state_def)
  obtain n1 where n1: "hp_map (cx_heap c1) e = Some n1" using repr_node [OF r] by blast
  have "heap_ok (cx_heap c1)" using ext by (simp add: extends_def)
  from set_node_ok [OF n1 this, of "\<lambda>n. n\<lparr>jn_next := None\<rparr>"] obtain h2 c2 where c2: "set_node e (\<lambda>n. n\<lparr>jn_next := None\<rparr>) c1 = Some c2"
    "moves c1 (cx_pos c1) h2 c2" "heap_ok h2" "hp_next h2 = hp_next (cx_heap c1)" "hp_map h2 = (hp_map (cx_heap c1))(e \<mapsto> n1\<lparr>jn_next := None\<rparr>)" by blast
  define b where "b = (case tail of None \<Rightarrow> root | Some t \<Rightarrow> t)"
  obtain n where n: "hp_map (cx_heap ctx) b = Some n" using state_tail(1) [OF st] b_def by blast
  have be: "b < e" unfolding e by (rule heap_bound [OF ok n])
  then have n': "hp_map (cx_heap c1) b = Some n" using ext n e by (auto simp: extends_def same_on_def)
  define m where "m = (case tail of None \<Rightarrow> n\<lparr>jn_child := Some e, jn_next := Some e\<rparr> | Some t \<Rightarrow> n\<lparr>jn_next := Some e\<rparr>)"
  have h2: "cx_heap c2 = h2" "cx_pos c2 = cx_pos c1" using movesD [OF c2(2)] by simp_all
  have "heap_ok (cx_heap c2)" "hp_map (cx_heap c2) b = Some n" using c2(3,5) n' be h2 by auto
  from append_child_ok [OF this(1) b_def this(2) m_def] obtain h3 c3 where c3: "append_child root tail e c2 = Some c3" "moves c2 (cx_pos c2) h3 c3"
    "heap_ok h3" "hp_next h3 = hp_next (cx_heap c2)" "hp_map h3 = (hp_map (cx_heap c2))(b \<mapsto> m)" by blast
  have "moves c1 (cx_pos c1) h3 c3" using moves_trans [OF c2(2) c3(2)] h2 by simp
  moreover have "arr_state h3 root (Some e) (ds @ [v]) \<and> same_on {..<root} (cx_heap ctx) h3"
    by (rule arr_state_append [OF st ext r e n1 b_def n' m_def]) (use c2 c3 h2 in simp_all)
  ultimately show ?thesis using c2(1) c3(1) by blast
qed

lemma array_step:
  assumes p: "parses past strtod fmt str v" and d: "drop (cx_pos ctx) str = jprint fmt v @ c # post" and c: "c = CHR '','' \<or> c = CHR 0x5D"
    and dp: "cx_depth ctx + jdepth v \<le> COBALT_JSON_DOM_MAX_DEPTH" and fuel: "3 * length (jprint fmt v) \<le> fuel"
    and st: "arr_state (cx_heap ctx) root tail ds"
  shows "\<exists>h ctx'. array_loop always past strtod str (Suc fuel) root tail ctx =
      (if c = CHR '','' then array_loop always past strtod str fuel root (Some (hp_next (cx_heap ctx))) (bump ctx') else Some ctx') \<and>
    moves ctx (cx_pos ctx + length (jprint fmt v)) h ctx' \<and> arr_state h root (Some (hp_next (cx_heap ctx))) (ds @ [v]) \<and> same_on {..<root} (cx_heap ctx) h"
proof -
  let ?e = "hp_next (cx_heap ctx)"
  have ok: "heap_ok (cx_heap ctx)" using st by (simp add: arr_state_def)
  have fl: "follows (c # post)" "full_object v \<Longrightarrow> c # post = [] \<or> hd (c # post) \<noteq> CHR 0x7D" using c by (auto simp: follows_def)
  obtain h1 c1 where v1: "json_parse_value always past strtod str fuel ctx = Some (Some ?e, c1)" "moves ctx (cx_pos ctx + length (jprint fmt v)) h1 c1"
    "extends (cx_heap ctx) h1" "repr h1 ?e (hp_next h1) v" using parsesD [OF p d fl dp ok fuel] by metis
  have h1: "cx_heap c1 = h1" "cx_pos c1 = cx_pos ctx + length (jprint fmt v)" using movesD [OF v1(2)] by simp_all
  from array_link [OF st v1(3,4) [folded h1(1)] refl] obtain h3 c2 c3 where c3: "set_node ?e (\<lambda>n. n\<lparr>jn_next := None\<rparr>) c1 = Some c2"
    "append_child root tail ?e c2 = Some c3" "moves c1 (cx_pos c1) h3 c3" "arr_state h3 root (Some ?e) (ds @ [v])" "same_on {..<root} (cx_heap ctx) h3" by blast
  have mv: "moves ctx (cx_pos ctx + length (jprint fmt v)) h3 c3" using moves_trans [OF v1(2) c3(3)] h1(2) by simp
  have "drop (cx_pos c3) str = c # post" using drop_add [OF d] movesD [OF mv] by simp
  from skip_char [OF this] at_drop [OF this] have "json_skip_whitespace str c3 = c3" "at str (cx_pos c3) (CHR '','') = (c = CHR '','')" using c by auto
  then have "array_loop always past strtod str (Suc fuel) root tail ctx = (if c = CHR '','' then array_loop always past strtod str fuel root (Some ?e) (bump c3) else Some c3)"
    using v1(1) c3(1,2) by simp
  then show ?thesis using mv c3(4,5) by blast
qed

lemma array_loop_ok:
  assumes "\<forall>v \<in> set vs. parses past strtod fmt str v" "vs \<noteq> []" "drop (cx_pos ctx) str = commas (map (jprint fmt) vs) @ CHR 0x5D # post"
    "\<forall>v \<in> set vs. cx_depth ctx + jdepth v \<le> COBALT_JSON_DOM_MAX_DEPTH" "3 * length (commas (map (jprint fmt) vs)) + 1 \<le> fuel"
    "arr_state (cx_heap ctx) root tail ds"
  shows "\<exists>h ctx' t. array_loop always past strtod str fuel root tail ctx = Some ctx' \<and>
    moves ctx (cx_pos ctx + length (commas (map (jprint fmt) vs))) h ctx' \<and> arr_state h root t (ds @ vs) \<and> same_on {..<root} (cx_heap ctx) h"
  using assms
proof (induction vs arbitrary: ctx tail ds fuel)
  case (Cons v vs)
  obtain f where f: "fuel = Suc f" "3 * length (jprint fmt v) \<le> f" using Cons.prems(5) by (cases fuel) (auto simp: commas_Cons split: if_splits)
  show ?case
  proof (cases "vs = []")
    case True
    have "drop (cx_pos ctx) str = jprint fmt v @ CHR 0x5D # post" using Cons.prems(3) True by simp
    from array_step [OF _ this _ _ f(2) Cons.prems(6), of past strtod] Cons.prems(1,4) show ?thesis unfolding f(1) True by auto
  next
    case False
    have "drop (cx_pos ctx) str = jprint fmt v @ CHR '','' # commas (map (jprint fmt) vs) @ CHR 0x5D # post" using Cons.prems(3) False by (simp add: commas_Cons)
    from array_step [OF _ this _ _ f(2) Cons.prems(6), of past strtod] Cons.prems(1,4) obtain h c1 where
      c1: "array_loop always past strtod str (Suc f) root tail ctx = array_loop always past strtod str f root (Some (hp_next (cx_heap ctx))) (bump c1)"
      "moves ctx (cx_pos ctx + length (jprint fmt v)) h c1" "arr_state h root (Some (hp_next (cx_heap ctx))) (ds @ [v])" "same_on {..<root} (cx_heap ctx) h" by auto
    have b: "cx_pos (bump c1) = cx_pos ctx + length (jprint fmt v @ '','')" "cx_heap (bump c1) = h" "cx_depth (bump c1) = cx_depth ctx"
      using movesD [OF c1(2)] by (simp_all add: bump_def)
    have "drop (cx_pos (bump c1)) str = commas (map (jprint fmt) vs) @ CHR 0x5D # post" unfolding b
      by (rule drop_add) (use Cons.prems(3) False in \<open>simp add: commas_Cons\<close>)
    from Cons.IH [OF _ False this, of f "Some (hp_next (cx_heap ctx))" "ds @ [v]"] Cons.prems(1,4,5) c1(3) b f(1) False obtain h' c2 t where
      c2: "array_loop always past strtod str f root (Some (hp_next (cx_heap ctx))) (bump c1) = Some c2"
      "moves (bump c1) (cx_pos (bump c1) + length (commas (map (jprint fmt) vs))) h' c2" "arr_state h' root t ((ds @ [v]) @ vs)" "same_on {..<root} h h'"
      by (auto simp: commas_Cons)
    have e: "cx_pos (bump c1) + length (commas (map (jprint fmt) vs)) = cx_pos ctx + length (commas (map (jprint fmt) (v # vs)))"
      using b False by (simp add: commas_Cons)
    have "moves ctx (cx_pos ctx + length (commas (map (jprint fmt) (v # vs)))) h' c2" by (rule moves_bump [OF c1(2) c2(2) [unfolded e]])
    moreover have "same_on {..<root} (cx_heap ctx) h'" using c1(4) c2(4) by (simp add: same_on_def)
    ultimately show ?thesis using c1(1) c2(1,3) f(1) by auto
  qed
qed simp

lemma member_node:
  assumes ok: "heap_ok (cx_heap ctx)" and a: "a = hp_next (cx_heap ctx)"
  shows "\<exists>h ctx1 ctx'. json_node_create always JSON_OBJECT ctx = (Some a, ctx1) \<and>
    set_node a (\<lambda>n. n\<lparr>jn_key := Some k, jn_child := Some ch, jn_next := None\<rparr>) ctx1 = Some ctx' \<and> moves ctx (cx_pos ctx) h ctx' \<and>
    extends (cx_heap ctx) h \<and> hp_next h = Suc a \<and> member_is h a k ch \<and> next_is h a None"
  using create_set_ok [OF assms, of JSON_OBJECT "\<lambda>n. n\<lparr>jn_key := Some k, jn_child := Some ch, jn_next := None\<rparr>"]
  by (fastforce simp: member_is_def next_is_def)

lemma object_link:
  assumes st: "obj_state (cx_heap ctx) root tail ms" and ext: "extends (cx_heap ctx) (cx_heap c1)" and mid: "mid = hp_next (cx_heap ctx)" and a: "a = hp_next (cx_heap c1)"
    and r: "repr (cx_heap c1) mid a v" "empty_container v \<longrightarrow> next_is (cx_heap c1) mid None"
  shows "\<exists>h c2' c2 c3. json_node_create always JSON_OBJECT c1 = (Some a, c2') \<and>
    set_node a (\<lambda>n. n\<lparr>jn_key := Some k, jn_child := Some mid, jn_next := None\<rparr>) c2' = Some c2 \<and> append_child root tail a c2 = Some c3 \<and>
    moves c1 (cx_pos c1) h c3 \<and> obj_state h root (Some a) (ms @ [Member k v]) \<and> same_on {..<root} (cx_heap ctx) h"
proof -
  have ok: "heap_ok (cx_heap ctx)" "heap_ok (cx_heap c1)" using st ext by (simp_all add: obj_state_def extends_def)
  from member_node [OF ok(2) a, where k = k and ch = mid] obtain h2 c2 c2' where c2: "json_node_create always JSON_OBJECT c1 = (Some a, c2')"
    "set_node a (\<lambda>n. n\<lparr>jn_key := Some k, jn_child := Some mid, jn_next := None\<rparr>) c2' = Some c2" "moves c1 (cx_pos c1) h2 c2" "extends (cx_heap c1) h2"
    "hp_next h2 = Suc a" "member_is h2 a k mid" "next_is h2 a None" by auto
  define b where "b = (case tail of None \<Rightarrow> root | Some t \<Rightarrow> t)"
  obtain n where n: "hp_map (cx_heap ctx) b = Some n" using state_tail(2) [OF st] b_def by blast
  have ex: "extends (cx_heap ctx) h2" by (rule extends_trans [OF ext c2(4)])
  have n': "hp_map h2 b = Some n" using heap_bound [OF ok(1) n] ex n by (auto simp: extends_def same_on_def)
  define m where "m = (case tail of None \<Rightarrow> n\<lparr>jn_child := Some a, jn_next := Some a\<rparr> | Some t \<Rightarrow> n\<lparr>jn_next := Some a\<rparr>)"
  have h2: "cx_heap c2 = h2" "cx_pos c2 = cx_pos c1" "heap_ok h2" using movesD [OF c2(3)] ex by (simp_all add: extends_def)
  from append_child_ok [OF h2(3) [folded h2(1)] b_def n' [folded h2(1)] m_def] obtain h3 c3 where c3: "append_child root tail a c2 = Some c3"
    "moves c2 (cx_pos c2) h3 c3" "heap_ok h3" "hp_next h3 = hp_next h2" "hp_map h3 = (hp_map h2)(b \<mapsto> m)" unfolding h2(1) by blast
  have s12: "same_on {mid..<a} (cx_heap c1) h2" by (rule same_on_sub) (use c2(4) a in \<open>auto simp: extends_def\<close>)
  have lt: "mid < a" by (rule repr_lt [OF r(1)])
  have r2: "repr h2 mid a v" by (rule repr_frame(1) [OF r(1) same_on_sub [OF s12] same_node_on [OF s12]]) (use lt in auto)
  have e2: "empty_container v \<longrightarrow> next_is h2 mid None" using r(2) next_is_on [OF s12, of mid] lt by simp
  have "obj_state h3 root (Some a) (ms @ [Member k v]) \<and> same_on {..<root} (cx_heap ctx) h3"
    by (rule obj_state_append [OF st ex r2 e2 mid c2(5,6,7) b_def n' m_def c3(5,4,3)])
  moreover have "moves c1 (cx_pos c1) h3 c3" using moves_trans [OF c2(3) c3(2)] h2(2) by simp
  ultimately show ?thesis using c2(1,2) c3(1) by blast
qed

lemma object_step:
  assumes g: "growth_safe past str" and p: "parses past strtod fmt str v" and d: "drop (cx_pos ctx) str = jprint_member fmt (Member k v) @ c # post" and c: "c = CHR '','' \<or> c = CHR 0x7D \<and> \<not> full_object v"
    and dp: "cx_depth ctx + jdepth v \<le> COBALT_JSON_DOM_MAX_DEPTH" and fuel: "3 * length (jprint fmt v) \<le> fuel"
    and st: "obj_state (cx_heap ctx) root tail ms"
  shows "\<exists>h ctx' a. object_loop always past strtod str (Suc fuel) root tail ctx =
      (if c = CHR '','' then object_loop always past strtod str fuel root (Some a) (bump ctx') else Some (bump ctx')) \<and>
    moves ctx (cx_pos ctx + length (jprint_member fmt (Member k v))) h ctx' \<and> obj_state h root (Some a) (ms @ [Member k v]) \<and> same_on {..<root} (cx_heap ctx) h"
proof -
  have ok: "heap_ok (cx_heap ctx)" using st by (simp add: obj_state_def)
  have dk: "drop (cx_pos ctx) str = jstring k @ (CHR '':'' # jprint fmt v @ c # post)" using d by simp
  then have "drop (cx_pos ctx) str = CHR 0x22 # concat (map escape_char k) @ CHR 0x22 # CHR '':'' # jprint fmt v @ c # post" by (simp add: jstring_def)
  from skip_char [OF this] at_drop [OF this] have s0: "json_skip_whitespace str ctx = ctx" "at str (cx_pos ctx) (CHR 0x22)" by simp_all
  from parse_string_text [OF g dk] obtain al where
    ps: "json_parse_string always past str ctx = Some (Some k, ctx\<lparr>cx_pos := cx_pos ctx + length (jstring k), cx_allocs := al\<rparr>)" by blast
  define c0 where "c0 = ctx\<lparr>cx_pos := cx_pos ctx + length (jstring k), cx_allocs := al\<rparr>"
  have d0: "drop (cx_pos c0) str = CHR '':'' # jprint fmt v @ c # post" using drop_add [OF dk] by (simp add: c0_def)
  have s1: "json_skip_whitespace str c0 = c0" "at str (cx_pos c0) (CHR '':'')" using skip_char [OF d0] at_drop [OF d0] by simp_all
  have b0: "drop (cx_pos (bump c0)) str = jprint fmt v @ c # post" "cx_depth (bump c0) = cx_depth ctx" "cx_heap (bump c0) = cx_heap ctx"
    using drop_nth [OF d0] by (simp_all add: bump_def c0_def)
  define mid where "mid = hp_next (cx_heap ctx)"
  have fl: "follows (c # post)" "full_object v \<Longrightarrow> c # post = [] \<or> hd (c # post) \<noteq> CHR 0x7D" using c by (auto simp: follows_def)
  obtain h1 c1 where v1: "json_parse_value always past strtod str fuel (bump c0) = Some (Some mid, c1)" "moves (bump c0) (cx_pos (bump c0) + length (jprint fmt v)) h1 c1"
    "extends (cx_heap ctx) h1" "repr h1 mid (hp_next h1) v" "empty_container v \<longrightarrow> next_is h1 mid None"
    using parsesD [OF p b0(1) fl dp [folded b0(2)] ok [folded b0(3)] fuel] unfolding b0 mid_def by metis
  have h1: "cx_heap c1 = h1" "cx_pos c1 = cx_pos ctx + length (jprint_member fmt (Member k v))" using movesD [OF v1(2)] by (simp_all add: bump_def c0_def)
  from object_link [OF st v1(3) [folded h1(1)] mid_def refl v1(4,5) [folded h1(1)], of k] obtain h3 c2' c2 c3 where
    c3: "json_node_create always JSON_OBJECT c1 = (Some (hp_next h1), c2')"
    "set_node (hp_next h1) (\<lambda>n. n\<lparr>jn_key := Some k, jn_child := Some mid, jn_next := None\<rparr>) c2' = Some c2" "append_child root tail (hp_next h1) c2 = Some c3"
    "moves c1 (cx_pos c1) h3 c3" "obj_state h3 root (Some (hp_next h1)) (ms @ [Member k v])" "same_on {..<root} (cx_heap ctx) h3" unfolding h1(1) by blast
  have "moves ctx (cx_pos c0) (cx_heap ctx) c0" by (auto simp: moves_def c0_def)
  then have mv: "moves ctx (cx_pos ctx + length (jprint_member fmt (Member k v))) h3 c3"
    using moves_bump [OF _ moves_trans [OF v1(2) c3(4)]] h1(2) by simp
  have "drop (cx_pos c3) str = c # post" using drop_add [OF d] movesD [OF mv] by simp
  from skip_char [OF this] at_drop [OF this] have "json_skip_whitespace str c3 = c3" "at str (cx_pos c3) (CHR '','') = (c = CHR '','')"
    "at str (cx_pos c3) (CHR 0x7D) = (c = CHR 0x7D)" using c by auto
  then have "object_loop always past strtod str (Suc fuel) root tail ctx =
      (if c = CHR '','' then object_loop always past strtod str fuel root (Some (hp_next h1)) (bump c3) else Some (bump c3))"
    using s0 s1 ps [folded c0_def] v1(1) c3(1-3) c by auto
  then show ?thesis using mv c3(5,6) by blast
qed

lemma moves_bump1: "moves ctx p h c \<Longrightarrow> moves ctx (p + 1) h (bump c)"
  by (cases ctx) (auto simp: moves_def bump_def)

definition parses_member :: "(nat \<Rightarrow> nat) \<Rightarrow> (string \<Rightarrow> 'd) \<Rightarrow> ('d \<Rightarrow> string) \<Rightarrow> string \<Rightarrow> 'd member \<Rightarrow> bool" where
  "parses_member past strtod fmt str m = parses past strtod fmt str (member_value m)"

lemma object_loop_ok:
  assumes g: "growth_safe past str" and "\<forall>m \<in> set ms. parses_member past strtod fmt str m" "ms \<noteq> []" "drop (cx_pos ctx) str = commas (map (jprint_member fmt) ms) @ CHR 0x7D # post"
    "\<forall>m \<in> set ms. cx_depth ctx + jdepth_member m \<le> COBALT_JSON_DOM_MAX_DEPTH" "3 * length (commas (map (jprint_member fmt) ms)) + 1 \<le> fuel"
    "\<not> full_object (member_value (last ms))" "obj_state (cx_heap ctx) root tail ds"
  shows "\<exists>h ctx' t. object_loop always past strtod str fuel root tail ctx = Some ctx' \<and>
    moves ctx (cx_pos ctx + length (commas (map (jprint_member fmt) ms)) + 1) h ctx' \<and> obj_state h root t (ds @ ms) \<and> same_on {..<root} (cx_heap ctx) h"
  using assms(2-)
proof (induction ms arbitrary: ctx tail ds fuel)
  case (Cons m ms)
  obtain k v where m: "m = Member k v" by (cases m)
  obtain f where f: "fuel = Suc f" "3 * length (jprint fmt v) \<le> f" using Cons.prems(5) by (cases fuel) (auto simp: m commas_Cons split: if_splits)
  have pv: "parses past strtod fmt str v" "cx_depth ctx + jdepth v \<le> COBALT_JSON_DOM_MAX_DEPTH" using Cons.prems(1,4) by (simp_all add: m parses_member_def)
  show ?case
  proof (cases "ms = []")
    case True
    have "drop (cx_pos ctx) str = jprint_member fmt (Member k v) @ CHR 0x7D # post" "\<not> full_object v" using Cons.prems(3,6) True m by simp_all
    from object_step [OF g pv(1) this(1) _ pv(2) f(2) Cons.prems(7)] this(2) obtain h c1 a where
      c1: "object_loop always past strtod str (Suc f) root tail ctx = Some (bump c1)" "moves ctx (cx_pos ctx + length (jprint_member fmt (Member k v))) h c1"
      "obj_state h root (Some a) (ds @ [Member k v])" "same_on {..<root} (cx_heap ctx) h" by auto
    have "moves ctx (cx_pos ctx + length (jprint_member fmt (Member k v)) + 1) h (bump c1)" by (rule moves_bump1 [OF c1(2)])
    then show ?thesis using c1(1,3,4) unfolding f(1) True m by auto
  next
    case False
    have "drop (cx_pos ctx) str = jprint_member fmt (Member k v) @ CHR '','' # commas (map (jprint_member fmt) ms) @ CHR 0x7D # post"
      using Cons.prems(3) False m by (simp add: commas_Cons)
    from object_step [OF g pv(1) this _ pv(2) f(2) Cons.prems(7)] obtain h c1 a where
      c1: "object_loop always past strtod str (Suc f) root tail ctx = object_loop always past strtod str f root (Some a) (bump c1)"
      "moves ctx (cx_pos ctx + length (jprint_member fmt m)) h c1" "obj_state h root (Some a) (ds @ [m])" "same_on {..<root} (cx_heap ctx) h"
      unfolding m by auto
    have b: "cx_pos (bump c1) = cx_pos ctx + length (jprint_member fmt m @ '','')" "cx_heap (bump c1) = h" "cx_depth (bump c1) = cx_depth ctx"
      using movesD [OF c1(2)] by (simp_all add: bump_def)
    have "drop (cx_pos (bump c1)) str = commas (map (jprint_member fmt) ms) @ CHR 0x7D # post" unfolding b
      by (rule drop_add) (use Cons.prems(3) False in \<open>simp add: commas_Cons\<close>)
    from Cons.IH [OF _ False this, of f "Some a" "ds @ [m]"] Cons.prems(1,4,5,6) c1(3) b f(1) False obtain h' c2 t where
      c2: "object_loop always past strtod str f root (Some a) (bump c1) = Some c2"
      "moves (bump c1) (cx_pos (bump c1) + length (commas (map (jprint_member fmt) ms)) + 1) h' c2" "obj_state h' root t ((ds @ [m]) @ ms)" "same_on {..<root} h h'"
      by (auto simp: commas_Cons)
    have e: "cx_pos (bump c1) + length (commas (map (jprint_member fmt) ms)) + 1 = cx_pos ctx + length (commas (map (jprint_member fmt) (m # ms))) + 1"
      using b False by (simp add: commas_Cons)
    have "moves ctx (cx_pos ctx + length (commas (map (jprint_member fmt) (m # ms))) + 1) h' c2" by (rule moves_bump [OF c1(2) c2(2) [unfolded e]])
    moreover have "same_on {..<root} (cx_heap ctx) h'" using c1(4) c2(4) by (simp add: same_on_def)
    ultimately show ?thesis using c1(1) c2(1,3) f(1) by auto
  qed
qed simp

lemma max_le: "x \<in> set xs \<Longrightarrow> x \<le> foldr max xs (0 :: nat)"
  by (induction xs) auto

text \<open>Opening a container.\<close>

lemma open_container:
  assumes d: "drop (cx_pos ctx) str = c # rest" and ok: "heap_ok (cx_heap ctx)" and a: "a = hp_next (cx_heap ctx)" and c: "c \<in> {CHR 0x5B, CHR 0x7B}"
  shows "\<exists>h ctx'. json_skip_whitespace str (ctx\<lparr>cx_depth := dp\<rparr>) = ctx\<lparr>cx_depth := dp\<rparr> \<and> at str (cx_pos ctx) c \<and>
    json_node_create always ty (bump (ctx\<lparr>cx_depth := dp\<rparr>)) = (Some a, ctx') \<and>
    moves (ctx\<lparr>cx_depth := dp\<rparr>) (cx_pos ctx + 1) h ctx' \<and> extends (cx_heap ctx) h \<and> hp_next h = Suc a \<and> node_is h a ty None None None \<and>
    next_is h a None \<and> drop (cx_pos ctx') str = rest"
proof -
  let ?c = "ctx\<lparr>cx_depth := dp\<rparr>"
  have d1: "drop (cx_pos ?c) str = c # rest" using d by simp
  have s: "json_skip_whitespace str ?c = ?c" "at str (cx_pos ctx) c" using skip_char [OF d1] at_drop [OF d] c by auto
  have "heap_ok (cx_heap (bump ?c))" using ok by (simp add: bump_def)
  from node_create_ok [OF this, of ty] obtain h c2 where c2: "json_node_create always ty (bump ?c) = (Some a, c2)" "moves (bump ?c) (cx_pos (bump ?c)) h c2"
    "extends (cx_heap ctx) h" "hp_next h = Suc a" "node_is h a ty None None None" "next_is h a None" unfolding a by (auto simp: bump_def)
  have "moves ?c (cx_pos ctx) (cx_heap ctx) ?c" unfolding moves_def by (rule exI [of _ "cx_allocs ctx"]) (cases ctx, simp)
  from moves_bump [OF this c2(2)] have "moves ?c (cx_pos ctx + 1) h c2" by (simp add: bump_def)
  moreover have "drop (cx_pos c2) str = rest" using movesD [OF c2(2)] drop_nth [OF d] by (simp add: bump_def)
  ultimately show ?thesis using s c2 by blast
qed

lemma moves_depth: "moves (ctx\<lparr>cx_depth := dp\<rparr>) p h c \<Longrightarrow> moves ctx p h (c\<lparr>cx_depth := cx_depth ctx\<rparr>)"
  by (cases ctx) (auto simp: moves_def)

lemma jprint_head:
  "number_text s \<Longrightarrow> s \<noteq> [] \<and> (hd s = CHR ''-'' \<or> is_digit (hd s))"
  unfolding number_text_def by (auto simp: neq_Nil_conv)

lemma value_head:
  assumes "regular (number_conversion strtod fmt) v"
  shows "jprint fmt v \<noteq> [] \<and> hd (jprint fmt v) \<noteq> CHR 0x5D \<and> \<not> is_space (hd (jprint fmt v))"
proof (cases v)
  case (JNum d)
  then have "number_text (fmt d)" using assms by (simp add: number_conversion_def)
  from jprint_head [OF this] show ?thesis using JNum digit_chars [of "hd (fmt d)"] by (auto simp: is_space_def)
qed (simp_all add: jstring_def is_space_def)

lemma array_parses:
  fixes strtod :: "string \<Rightarrow> 'd"
  assumes vs: "\<forall>v \<in> set vs. parses past strtod fmt str v" "\<forall>v \<in> set vs. regular (number_conversion strtod fmt) v"
  shows "parses past strtod fmt str (JArr vs)"
  unfolding parses_def
proof (intro allI impI)
  fix ctx :: "'d json_ctx" and post fuel
  assume d: "drop (cx_pos ctx) str = jprint fmt (JArr vs) @ post" and dp: "cx_depth ctx + jdepth (JArr vs) \<le> COBALT_JSON_DOM_MAX_DEPTH"
    and ok: "heap_ok (cx_heap ctx)" and fu: "3 * length (jprint fmt (JArr vs)) \<le> fuel"
  let ?cs = "commas (map (jprint fmt) vs)" and ?a = "hp_next (cx_heap ctx)"
  have d1: "drop (cx_pos ctx) str = CHR 0x5B # ?cs @ CHR 0x5D # post" using d by simp
  obtain f where f: "fuel = Suc (Suc f)" "3 * length ?cs + 1 \<le> f" using fu by (cases fuel; cases "fuel - 1") auto
  from open_container [OF d1 ok refl, where dp = "cx_depth ctx + 1" and ty = JSON_ARRAY] obtain h c1 where
    o: "json_skip_whitespace str (ctx\<lparr>cx_depth := cx_depth ctx + 1\<rparr>) = ctx\<lparr>cx_depth := cx_depth ctx + 1\<rparr>" "at str (cx_pos ctx) (CHR 0x5B)"
    "json_node_create always JSON_ARRAY (bump (ctx\<lparr>cx_depth := cx_depth ctx + 1\<rparr>)) = (Some ?a, c1)"
    "moves (ctx\<lparr>cx_depth := cx_depth ctx + 1\<rparr>) (cx_pos ctx + 1) h c1" "extends (cx_heap ctx) h" "hp_next h = Suc ?a" "node_is h ?a JSON_ARRAY None None None"
    "next_is h ?a None" "drop (cx_pos c1) str = ?cs @ CHR 0x5D # post" by auto
  have pv: "json_parse_value always past strtod str fuel ctx = json_parse_array always past strtod str (Suc f) ctx"
    using skip_char [OF d1] drop_nth [OF d1] unfolding f(1) by (simp add: Let_def)
  have c1: "cx_heap c1 = h" "cx_depth c1 = cx_depth ctx + 1" "cx_pos c1 = cx_pos ctx + 1" using movesD [OF o(4)] by simp_all
  show "parsed ctx (length (jprint fmt (JArr vs))) (JArr vs) (json_parse_value always past strtod str fuel ctx)"
  proof (cases "vs = []")
    case True
    have d2: "drop (cx_pos c1) str = CHR 0x5D # post" using o(9) True by simp
    have "json_parse_array always past strtod str (Suc f) ctx = Some (Some ?a, (bump c1)\<lparr>cx_depth := cx_depth ctx\<rparr>)"
      using o(1,2,3) dp skip_char [OF d2] at_drop [OF d2, of "CHR 0x5D"] c1 by (simp add: Let_def)
    moreover have "moves ctx (cx_pos ctx + 2) h ((bump c1)\<lparr>cx_depth := cx_depth ctx\<rparr>)" using moves_depth [OF moves_bump1 [OF o(4)]] by simp
    moreover have "repr h ?a (hp_next h) (JArr vs)" using True o(6,7) by simp
    ultimately show ?thesis unfolding pv parsed_def using o(5,8) True by auto
  next
    case False
    then have hd: "hd (?cs @ CHR 0x5D # post) \<noteq> CHR 0x5D" "?cs @ CHR 0x5D # post \<noteq> []" "\<not> is_space (hd (?cs @ CHR 0x5D # post))"
      using value_head [of strtod fmt "hd vs"] vs(2) by (cases vs; simp add: commas_Cons)+
    then have s1: "json_skip_whitespace str c1 = c1" "\<not> at str (cx_pos c1) (CHR 0x5D)"
      using skip_none [of c1 str "hd (?cs @ CHR 0x5D # post)" "tl (?cs @ CHR 0x5D # post)"] o(9) at_head [OF o(9), of "CHR 0x5D"] by simp_all
    have st: "arr_state (cx_heap c1) ?a None []" using o(5,6,7) c1 by (simp add: arr_state_def extends_def)
    have "\<forall>v\<in>set vs. cx_depth c1 + jdepth v \<le> COBALT_JSON_DOM_MAX_DEPTH" using dp c1 max_le [of _ "map jdepth vs"] by fastforce
    from array_loop_ok [OF vs(1) False o(9) this f(2) st] obtain h2 c2 t where
      l: "array_loop always past strtod str f ?a None c1 = Some c2" "moves c1 (cx_pos c1 + length ?cs) h2 c2" "arr_state h2 ?a t vs" "same_on {..<?a} h h2"
      unfolding c1(1) by auto
    have c2: "cx_pos c2 = cx_pos c1 + length ?cs" "cx_depth c2 = cx_depth ctx + 1" using movesD [OF l(2)] c1 by simp_all
    have d2: "drop (cx_pos c2) str = CHR 0x5D # post" unfolding c2 by (rule drop_add [OF o(9)])
    have "close_with (CHR 0x5D) str c2 = bump c2" using skip_char [OF d2] at_drop [OF d2] by (simp add: close_with_def)
    then have "json_parse_array always past strtod str (Suc f) ctx = Some (Some ?a, (bump c2)\<lparr>cx_depth := cx_depth ctx\<rparr>)"
      using o(1,2,3) dp s1 l(1) c2(2) by (simp add: Let_def bump_def)
    moreover have "moves ctx (cx_pos ctx + length (jprint fmt (JArr vs))) h2 ((bump c2)\<lparr>cx_depth := cx_depth ctx\<rparr>)"
      using moves_depth [OF moves_bump1 [OF moves_trans [OF o(4) l(2)]]] c1 by (simp add: algebra_simps)
    moreover have "repr h2 ?a (hp_next h2) (JArr vs)" by (rule arr_state_done [OF l(3) False])
    moreover have "extends (cx_heap ctx) h2" using o(5) l(3,4) repr_lt [OF arr_state_done [OF l(3) False]] by (auto simp: extends_def same_on_def arr_state_def)
    ultimately show ?thesis unfolding pv parsed_def using False by (auto simp: empty_container_def)
  qed
qed

lemma object_parses:
  fixes strtod :: "string \<Rightarrow> 'd"
  assumes g: "growth_safe past str" and ms: "\<forall>m \<in> set ms. parses_member past strtod fmt str m" "ms \<noteq> [] \<longrightarrow> \<not> full_object (member_value (last ms))"
  shows "parses past strtod fmt str (JObj ms)"
  unfolding parses_def
proof (intro allI impI)
  fix ctx :: "'d json_ctx" and post fuel
  assume d: "drop (cx_pos ctx) str = jprint fmt (JObj ms) @ post" and fl: "follows post" and fo: "full_object (JObj ms) \<longrightarrow> post = [] \<or> hd post \<noteq> CHR 0x7D"
    and dp: "cx_depth ctx + jdepth (JObj ms) \<le> COBALT_JSON_DOM_MAX_DEPTH" and ok: "heap_ok (cx_heap ctx)" and fu: "3 * length (jprint fmt (JObj ms)) \<le> fuel"
  let ?cs = "commas (map (jprint_member fmt) ms)" and ?a = "hp_next (cx_heap ctx)"
  have d1: "drop (cx_pos ctx) str = CHR 0x7B # ?cs @ CHR 0x7D # post" using d by simp
  obtain f where f: "fuel = Suc (Suc f)" "3 * length ?cs + 1 \<le> f" using fu by (cases fuel; cases "fuel - 1") auto
  from open_container [OF d1 ok refl, where dp = "cx_depth ctx + 1" and ty = JSON_OBJECT] obtain h c1 where
    o: "json_skip_whitespace str (ctx\<lparr>cx_depth := cx_depth ctx + 1\<rparr>) = ctx\<lparr>cx_depth := cx_depth ctx + 1\<rparr>" "at str (cx_pos ctx) (CHR 0x7B)"
    "json_node_create always JSON_OBJECT (bump (ctx\<lparr>cx_depth := cx_depth ctx + 1\<rparr>)) = (Some ?a, c1)"
    "moves (ctx\<lparr>cx_depth := cx_depth ctx + 1\<rparr>) (cx_pos ctx + 1) h c1" "extends (cx_heap ctx) h" "hp_next h = Suc ?a" "node_is h ?a JSON_OBJECT None None None"
    "next_is h ?a None" "drop (cx_pos c1) str = ?cs @ CHR 0x7D # post" by auto
  have pv: "json_parse_value always past strtod str fuel ctx = json_parse_object always past strtod str (Suc f) ctx"
    using skip_char [OF d1] drop_nth [OF d1] unfolding f(1) by (simp add: Let_def)
  have c1: "cx_heap c1 = h" "cx_depth c1 = cx_depth ctx + 1" "cx_pos c1 = cx_pos ctx + 1" using movesD [OF o(4)] by simp_all
  show "parsed ctx (length (jprint fmt (JObj ms))) (JObj ms) (json_parse_value always past strtod str fuel ctx)"
  proof (cases "ms = []")
    case True
    have d2: "drop (cx_pos c1) str = CHR 0x7D # post" using o(9) True by simp
    have "json_parse_object always past strtod str (Suc f) ctx = Some (Some ?a, (bump c1)\<lparr>cx_depth := cx_depth ctx\<rparr>)"
      using o(1,2,3) dp skip_char [OF d2] at_drop [OF d2, of "CHR 0x7D"] c1 by (simp add: Let_def)
    moreover have "moves ctx (cx_pos ctx + 2) h ((bump c1)\<lparr>cx_depth := cx_depth ctx\<rparr>)" using moves_depth [OF moves_bump1 [OF o(4)]] by simp
    moreover have "repr h ?a (hp_next h) (JObj ms)" using True o(6,7) by simp
    ultimately show ?thesis unfolding pv parsed_def using o(5,8) True by auto
  next
    case False
    obtain cs' where hd: "?cs @ CHR 0x7D # post = CHR 0x22 # cs'" using False
      by (cases ms; cases "hd ms") (simp_all add: commas_Cons jstring_def)
    have s1: "json_skip_whitespace str c1 = c1" "\<not> at str (cx_pos c1) (CHR 0x7D)"
      using skip_char [of c1 str "CHR 0x22" cs'] o(9) hd at_drop [OF o(9) [unfolded hd], of "CHR 0x7D"] by simp_all
    have st: "obj_state (cx_heap c1) ?a None []" using o(5,6,7) c1 by (simp add: obj_state_def extends_def)
    have "\<forall>m\<in>set ms. cx_depth c1 + jdepth_member m \<le> COBALT_JSON_DOM_MAX_DEPTH" using dp c1 max_le [of _ "map jdepth_member ms"] by fastforce
    from object_loop_ok [OF g ms(1) False o(9) this f(2) mp [OF ms(2) False] st] obtain h2 c2 t where
      l: "object_loop always past strtod str f ?a None c1 = Some c2" "moves c1 (cx_pos c1 + length ?cs + 1) h2 c2" "obj_state h2 ?a t ms" "same_on {..<?a} h h2"
      unfolding c1(1) by auto
    have c2: "cx_pos c2 = cx_pos ctx + length (jprint fmt (JObj ms))" "cx_depth c2 = cx_depth ctx + 1" using movesD [OF l(2)] c1 by simp_all
    have d2: "drop (cx_pos c2) str = post" unfolding c2 by (rule drop_add [OF d])
    have "cx_pos c2 \<le> length str" using arg_cong [OF d1, of length] unfolding c2 by simp
    moreover have "\<not> at str (cx_pos c2) (CHR 0x7D)" using at_head [OF d2] fo False by (auto simp: full_object_def neq_Nil_conv)
    ultimately have "close_with (CHR 0x7D) str c2 = c2" using skip_follows [OF d2 fl] by (simp add: close_with_def)
    then have "json_parse_object always past strtod str (Suc f) ctx = Some (Some ?a, c2\<lparr>cx_depth := cx_depth ctx\<rparr>)"
      using o(1,2,3) dp s1 l(1) c2(2) by (simp add: Let_def)
    moreover have "moves ctx (cx_pos ctx + length (jprint fmt (JObj ms))) h2 (c2\<lparr>cx_depth := cx_depth ctx\<rparr>)"
      using moves_depth [OF moves_trans [OF o(4) l(2)]] c1 by (simp add: algebra_simps)
    moreover have "repr h2 ?a (hp_next h2) (JObj ms)" by (rule obj_state_done [OF l(3) False])
    moreover have "extends (cx_heap ctx) h2" using o(5) l(3,4) repr_lt [OF obj_state_done [OF l(3) False]] by (auto simp: extends_def same_on_def obj_state_def)
    ultimately show ?thesis unfolding pv parsed_def using False by (auto simp: empty_container_def)
  qed
qed

lemma scalar_parses:
  fixes strtod :: "string \<Rightarrow> 'd"
  assumes "\<And>ctx post fuel. drop (cx_pos ctx) str = jprint fmt v @ post \<Longrightarrow> follows post \<Longrightarrow> heap_ok (cx_heap ctx) \<Longrightarrow>
      parsed ctx (length (jprint fmt v)) v (json_parse_value always past strtod str (Suc fuel) ctx)" "jprint fmt v \<noteq> []"
  shows "parses past strtod fmt str v"
  unfolding parses_def
proof (intro allI impI)
  fix ctx :: "'d json_ctx" and post fuel
  assume a: "drop (cx_pos ctx) str = jprint fmt v @ post" "follows post" "heap_ok (cx_heap ctx)" "3 * length (jprint fmt v) \<le> fuel"
  from a(4) assms(2) obtain f where "fuel = Suc f" by (cases fuel) auto
  then show "parsed ctx (length (jprint fmt v)) v (json_parse_value always past strtod str fuel ctx)" using assms(1) [OF a(1-3), of f] by simp
qed

lemma literal_parses:
  fixes strtod :: "string \<Rightarrow> 'd"
  assumes "v = JNull \<or> v = JTrue \<or> v = JFalse"
  shows "parses past strtod fmt str v"
proof (rule scalar_parses)
  fix ctx :: "'d json_ctx" and post fuel
  assume d: "drop (cx_pos ctx) str = jprint fmt v @ post" and ok: "heap_ok (cx_heap ctx)"
  obtain c cs where c: "drop (cx_pos ctx) str = c # cs" "c \<in> {CHR ''n'', CHR ''t'', CHR ''f''}" using d assms by (elim disjE) simp_all
  have "json_parse_value always past strtod str (Suc fuel) ctx = parse_literal always str ctx"
    using skip_none [OF c(1)] drop_nth [OF c(1)] c(2) by (auto simp: Let_def is_space_def is_digit_def)
  then show "parsed ctx (length (jprint fmt v)) v (json_parse_value always past strtod str (Suc fuel) ctx)" using parse_literal_parsed [OF d ok assms] by simp
qed (use assms in auto)

lemma string_parses:
  fixes strtod :: "string \<Rightarrow> 'd"
  assumes g: "growth_safe past str"
  shows "parses past strtod fmt str (JStr s)"
proof (rule scalar_parses)
  fix ctx :: "'d json_ctx" and post fuel
  assume d: "drop (cx_pos ctx) str = jprint fmt (JStr s) @ post" and ok: "heap_ok (cx_heap ctx)"
  then have c: "drop (cx_pos ctx) str = CHR 0x22 # concat (map escape_char s) @ CHR 0x22 # post" by (simp add: jstring_def)
  have "json_parse_value always past strtod str (Suc fuel) ctx = parse_string_value always past str ctx"
    using skip_char [OF c] drop_nth [OF c] by (simp add: Let_def)
  then show "parsed ctx (length (jprint fmt (JStr s))) (JStr s) (json_parse_value always past strtod str (Suc fuel) ctx)"
    using parse_string_parsed [OF g, of ctx s post] d ok by simp
qed (simp add: jstring_def)

lemma number_parses:
  fixes strtod :: "string \<Rightarrow> 'd"
  assumes n: "number_conversion strtod fmt d"
  shows "parses past strtod fmt str (JNum d)"
proof -
  have nt: "number_text (fmt d)" using n by (simp add: number_conversion_def)
  note h = jprint_head [OF nt]
  show ?thesis
  proof (rule scalar_parses)
    fix ctx :: "'d json_ctx" and post fuel
    assume d: "drop (cx_pos ctx) str = jprint fmt (JNum d) @ post" and fl: "follows post" and ok: "heap_ok (cx_heap ctx)"
    then have c: "drop (cx_pos ctx) str = hd (fmt d) # tl (fmt d) @ post" using h by simp
    have "json_parse_value always past strtod str (Suc fuel) ctx = parse_number_value always strtod str ctx"
      using skip_none [OF c] drop_nth [OF c] h digit_chars [of "hd (fmt d)"] by (auto simp: Let_def is_space_def)
    then show "parsed ctx (length (jprint fmt (JNum d))) (JNum d) (json_parse_value always past strtod str (Suc fuel) ctx)"
      using parse_number_parsed [of ctx str fmt d post strtod] d fl n ok by simp
  qed (use h in simp)
qed

lemma regular_parses:
  fixes strtod :: "string \<Rightarrow> 'd"
  assumes g: "growth_safe past str"
  shows "regular (number_conversion strtod fmt) v \<Longrightarrow> parses past strtod fmt str v"
    and "regular_member (number_conversion strtod fmt) m \<Longrightarrow> parses_member past strtod fmt str m"
proof (induction v and m rule: json.induct member.induct)
  case (JArr vs)
  then show ?case by (intro array_parses) (simp_all add: list_all_iff)
next
  case (JObj ms)
  then show ?case by (intro object_parses [OF g]) (simp_all add: list_all_iff)
qed (simp_all add: literal_parses string_parses [OF g] number_parses parses_member_def)

end
