(* ===== verification/Cobalt_JSON_Spec.thy ===== *)
theory Cobalt_JSON_Spec
  imports Cobalt_JSON_Parse
begin

section \<open>JSON: round trip\<close>

text \<open>
  The serializer prints represented values, so what the parser has read is written as it was.
\<close>

subsection \<open>Serializing a represented value\<close>

definition buf_ok :: "json_buf \<Rightarrow> bool" where
  "buf_ok b \<longleftrightarrow> \<not> jb_oom b \<and> length (jb_data b) < jb_cap b \<and> jb_cap b \<le> 4 * (length (jb_data b) + 1) + 514"

text \<open>The operation has appended \<open>s\<close> to the buffer.\<close>

definition grown :: "json_buf \<Rightarrow> string \<Rightarrow> json_buf option \<Rightarrow> bool" where
  "grown b s res \<longleftrightarrow> (\<exists>b'. res = Some b' \<and> jb_data b' = jb_data b @ s \<and> buf_ok b')"

abbreviation room :: "json_buf \<Rightarrow> string \<Rightarrow> bool" where
  "room b s \<equiv> length (jb_data b) + length s < 2 ^ 60"

lemma grown_seq:
  assumes "grown b s r" "\<And>b'. buf_ok b' \<Longrightarrow> jb_data b' = jb_data b @ s \<Longrightarrow> grown b' t (f b')" "u = s @ t"
  shows "grown b u (case r of None \<Rightarrow> None | Some b' \<Rightarrow> f b')"
  using assms by (auto simp: grown_def)

lemma buf_ensure_ok:
  assumes "buf_ok b" "length (jb_data b) + n < 2 ^ 60"
  obtains b' where "buf_ensure always n b = (True, b')" "jb_data b' = jb_data b" "\<not> jb_oom b'" "length (jb_data b) + n < jb_cap b'"
    "jb_cap b' \<le> 4 * (length (jb_data b) + n + 1) + 514"
proof -
  have s: "szt (length (jb_data b) + n + 1) = length (jb_data b) + n + 1" using assms(2) by (simp add: szt_def)
  show thesis
  proof (cases "jb_cap b < length (jb_data b) + n + 1")
    case True
    then have sz: "szt (szt (jb_cap b + n + 1) * 2) = (jb_cap b + n + 1) * 2" using assms(2) by (simp add: szt_def)
    let ?nc = "if (jb_cap b + n + 1) * 2 < 512 then 512 else (jb_cap b + n + 1) * 2"
    have "buf_ensure always n b = (True, b\<lparr>jb_allocs := jb_allocs b + 1, jb_cap := ?nc\<rparr>)"
      using assms(1) True sz unfolding buf_ensure_def s by (simp add: buf_ok_def Let_def)
    then show ?thesis by (rule that) (use assms True in \<open>auto simp: buf_ok_def\<close>)
  next
    case False
    then show ?thesis using assms s by (intro that) (auto simp: buf_ensure_def buf_ok_def)
  qed
qed

lemma buf_append_str_ok:
  assumes "buf_ok b" "room b s"
  shows "grown b s (buf_append_str always s b)"
proof (cases "s = []")
  case True
  then show ?thesis using assms by (simp add: buf_append_str_def grown_def)
next
  case False
  obtain b' where "buf_ensure always (length s) b = (True, b')" "jb_data b' = jb_data b" "\<not> jb_oom b'" "length (jb_data b) + length s < jb_cap b'"
    "jb_cap b' \<le> 4 * (length (jb_data b) + length s + 1) + 514" by (rule buf_ensure_ok [OF assms])
  then show ?thesis using False by (simp add: buf_append_str_def buf_store_def grown_def buf_ok_def)
qed

lemma buf_append_char_ok:
  assumes "buf_ok b" "room b [c]"
  shows "grown b [c] (buf_append_char always c b)"
  using buf_append_str_ok [OF assms] by (simp add: buf_append_str_def buf_append_char_def)

lemma escape_loop_ok:
  assumes "buf_ok b" "room b (concat (map escape_char s) @ [CHR 0x22])"
  shows "grown b (concat (map escape_char s) @ [CHR 0x22]) (escape_loop always s b)"
  using assms
proof (induction s arbitrary: b)
  case Nil
  then show ?case by (simp add: buf_append_char_ok)
next
  case (Cons c s)
  from buf_append_str_ok [OF Cons.prems(1), of "escape_char c"] Cons.prems(2) obtain b' where
    b: "buf_append_str always (escape_char c) b = Some b'" "jb_data b' = jb_data b @ escape_char c" "buf_ok b'" by (auto simp: grown_def)
  have "grown b' (concat (map escape_char s) @ [CHR 0x22]) (escape_loop always s b')" using Cons.prems(2) b by (intro Cons.IH) simp_all
  moreover have "\<not> jb_oom b'" using b(3) by (simp add: buf_ok_def)
  ultimately show ?case using b by (simp add: grown_def)
qed

lemma escape_none: "\<not> list_ex needs_escape s \<Longrightarrow> concat (map escape_char s) = s"
  by (induction s) (auto simp: needs_escape_def escape_char_def)

lemma buf_append_escaped_ok:
  assumes "buf_ok b" "room b (jstring s)"
  shows "grown b (jstring s) (buf_append_escaped_string always s b)"
  unfolding buf_append_escaped_string_def
proof (rule grown_seq [OF buf_append_char_ok])
  fix b' assume b': "buf_ok b'" "jb_data b' = jb_data b @ [CHR 0x22]"
  then have r: "room b' (concat (map escape_char s) @ [CHR 0x22])" using assms(2) by (simp add: jstring_def)
  show "grown b' (concat (map escape_char s) @ [CHR 0x22])
    (if list_ex needs_escape s then escape_loop always s b'
     else case buf_append_str always s b' of None \<Rightarrow> None | Some b \<Rightarrow> buf_append_char always (CHR 0x22) b)"
  proof (cases "list_ex needs_escape s")
    case False
    have "grown b' (s @ [CHR 0x22]) (case buf_append_str always s b' of None \<Rightarrow> None | Some b \<Rightarrow> buf_append_char always (CHR 0x22) b)"
      by (rule grown_seq [OF buf_append_str_ok [OF b'(1)] buf_append_char_ok refl]) (use r escape_none [OF False] in simp_all)
    then show ?thesis using False by (simp add: escape_none)
  qed (use escape_loop_ok [OF b'(1) r] in simp)
qed (use assms in \<open>simp_all add: jstring_def\<close>)

lemma cstr_id: "CHR 0x00 \<notin> set s \<Longrightarrow> cstr s = s"
  unfolding cstr_def by (rule takeWhile_eq_all_conv [THEN iffD2]) auto

lemma append_comma_ok: "buf_ok b \<Longrightarrow> room b (if first then [] else '','') \<Longrightarrow> grown b (if first then [] else '','') (append_comma always first b)"
  by (cases first) (simp_all add: append_comma_def buf_append_char_ok, simp add: grown_def)

lemma no_inner_empty_Cons: "no_inner_empty (v # vs) \<longleftrightarrow> (vs \<noteq> [] \<longrightarrow> \<not> empty_container v) \<and> no_inner_empty vs"
  by (auto simp: no_inner_empty_def)

lemma serialize_scalar:
  assumes "hp_map h a = Some n" "buf_ok b"
  shows "serialize_node always fmt h (Suc fuel) (Some a) b =
    (case jn_type n of JSON_NULL \<Rightarrow> buf_append_str always ''null'' b | JSON_TRUE \<Rightarrow> buf_append_str always ''true'' b
     | JSON_FALSE \<Rightarrow> buf_append_str always ''false'' b | JSON_NUMBER \<Rightarrow> buf_append_number always fmt (jn_number n) b
     | JSON_STRING \<Rightarrow> (case jn_string n of None \<Rightarrow> buf_append_str always [CHR 0x22, CHR 0x22] b | Some s \<Rightarrow> buf_append_escaped_string always (cstr s) b)
     | _ \<Rightarrow> serialize_node always fmt h (Suc fuel) (Some a) b)"
  using assms by (cases "jn_type n") (simp_all add: heap_read_def buf_ok_def)

lemma serialize_ok:
  "repr h lo hi v \<Longrightarrow> (empty_container v \<longrightarrow> next_is h lo None) \<Longrightarrow> regular (number_conversion strtod fmt) v \<Longrightarrow> 2 * (hi - lo) \<le> fuel \<Longrightarrow>
     buf_ok b \<Longrightarrow> room b (jprint fmt v) \<Longrightarrow> grown b (jprint fmt v) (serialize_node always fmt h fuel (Some lo) b)"
  "repr_elems h lo hi q vs \<Longrightarrow> q = None \<Longrightarrow> (\<forall>v \<in> set vs. regular (number_conversion strtod fmt) v) \<Longrightarrow> no_inner_empty vs \<Longrightarrow> 2 * (hi - lo) + 1 \<le> fuel \<Longrightarrow>
     buf_ok b \<Longrightarrow> room b (if vs = [] \<or> first then commas (map (jprint fmt) vs) else CHR '','' # commas (map (jprint fmt) vs)) \<Longrightarrow>
     grown b (if vs = [] \<or> first then commas (map (jprint fmt) vs) else CHR '','' # commas (map (jprint fmt) vs))
       (serialize_elements always fmt h fuel (if vs = [] then None else Some lo) first b)"
  "repr_members h lo hi p q ms \<Longrightarrow> q = None \<Longrightarrow> (\<forall>m \<in> set ms. regular_member (number_conversion strtod fmt) m) \<Longrightarrow> 2 * (hi - lo) + 1 \<le> fuel \<Longrightarrow>
     buf_ok b \<Longrightarrow> room b (if ms = [] \<or> first then commas (map (jprint_member fmt) ms) else CHR '','' # commas (map (jprint_member fmt) ms)) \<Longrightarrow>
     grown b (if ms = [] \<or> first then commas (map (jprint_member fmt) ms) else CHR '','' # commas (map (jprint_member fmt) ms))
       (serialize_members always fmt h fuel p first b)"
proof (induction h lo hi v and h lo hi q vs and h lo hi p q ms arbitrary: fuel b and fuel b first and fuel b first rule: repr_repr_elems_repr_members.induct)
  case (6 h lo hi vs)
  then obtain f n where f: "fuel = Suc f" "2 * (hi - Suc lo) + 1 \<le> f" and n: "hp_map h lo = Some n" "jn_type n = JSON_ARRAY"
    "jn_child n = (if vs = [] then None else Some (Suc lo))" "vs = [] \<longrightarrow> jn_next n = None"
    by (cases fuel) (auto simp: node_is_def next_is_def empty_container_def)
  have "grown b (jprint fmt (JArr vs)) (case buf_append_char always (CHR 0x5B) b of None \<Rightarrow> None
    | Some b \<Rightarrow> (case serialize_elements always fmt h f (if vs = [] then None else Some (Suc lo)) True b of None \<Rightarrow> None | Some b \<Rightarrow> buf_append_char always (CHR 0x5D) b))"
    by (rule grown_seq [OF buf_append_char_ok grown_seq [OF "6.IH" [where first = True, simplified] buf_append_char_ok refl]])
      (use 6 f in \<open>auto simp: list_all_iff\<close>)
  then show ?case unfolding f(1) using n "6.prems"(5) by (cases "vs = []") (simp_all add: heap_read_def buf_ok_def cong: option.case_cong)
next
  case (7 h lo hi ms)
  then obtain f n where f: "fuel = Suc f" "2 * (hi - Suc lo) + 1 \<le> f" and n: "hp_map h lo = Some n" "jn_type n = JSON_OBJECT"
    "repr_members h (Suc lo) hi (jn_child n) None ms" "ms = [] \<longrightarrow> jn_next n = None" "ms \<noteq> [] \<longrightarrow> jn_child n \<noteq> None"
    by (cases fuel; cases ms; cases "hd ms") (auto simp: node_is_def next_is_def empty_container_def)
  have el: "(if jn_child n \<noteq> None then jn_child n else jn_next n) = jn_child n" using n by (cases ms) auto
  have "grown b (jprint fmt (JObj ms)) (case buf_append_char always (CHR 0x7B) b of None \<Rightarrow> None
    | Some b \<Rightarrow> (case serialize_members always fmt h f (jn_child n) True b of None \<Rightarrow> None | Some b \<Rightarrow> buf_append_char always (CHR 0x7D) b))"
    by (rule grown_seq [OF buf_append_char_ok grown_seq [OF "7.IH" [OF n(3), where first = True, simplified] buf_append_char_ok refl]])
      (use 7 f in \<open>auto simp: list_all_iff\<close>)
  then show ?case unfolding f(1) using n(1,2) el "7.prems"(5) by (cases "jn_child n") (simp_all add: heap_read_def buf_ok_def cong: option.case_cong)
next
  case (9 h lo hi q v vs)
  let ?pre = "if first then [] else '',''" and ?t = "if vs = [] then commas (map (jprint fmt) vs) else CHR '','' # commas (map (jprint fmt) vs)"
  from 9(3) obtain mid where m: "mid \<le> hi" "repr h lo mid v" "next_is h lo (if vs = [] then None else Some mid)" "repr_elems h mid hi None vs"
    unfolding 9(4) by auto
  from m(3) obtain n where n: "hp_map h lo = Some n" "jn_next n = (if vs = [] then None else Some mid)" by (auto simp: next_is_def)
  obtain f where f: "fuel = Suc f" "2 * (mid - lo) \<le> f" "2 * (hi - mid) + 1 \<le> f" using 9(7) repr_lt [OF m(2)] m(1) by (cases fuel) auto
  have em: "empty_container v \<longrightarrow> next_is h lo None" using 9(6) m(3) by (auto simp: no_inner_empty_Cons)
  have rv: "regular (number_conversion strtod fmt) v" "\<forall>v\<in>set vs. regular (number_conversion strtod fmt) v" "no_inner_empty vs"
    using 9(5,6) by (simp_all add: no_inner_empty_Cons)
  have t: "(if v # vs = [] \<or> first then commas (map (jprint fmt) (v # vs)) else CHR '','' # commas (map (jprint fmt) (v # vs))) = ?pre @ jprint fmt v @ ?t"
    by (simp add: commas_Cons)
  have rm: "room b (?pre @ jprint fmt v @ ?t)" using 9(9) unfolding t .
  have "grown b (?pre @ jprint fmt v @ ?t) (case append_comma always first b of None \<Rightarrow> None
    | Some b \<Rightarrow> (case serialize_node always fmt h f (Some lo) b of None \<Rightarrow> None
        | Some b \<Rightarrow> serialize_elements always fmt h f (if vs = [] then None else Some mid) False b))"
    by (rule grown_seq [OF append_comma_ok [OF 9(8)] grown_seq [OF 9(1) [OF m(2) em rv(1) f(2)] 9(2) [OF m(4) [folded 9(4)] 9(4) rv(2,3) f(3), where first = False, simplified] refl] refl])
      (use rm in auto)
  then show ?case unfolding t f(1) using n 9(8) by (simp add: heap_read_def buf_ok_def cong: option.case_cong)
next
  case (11 h lo hi p q k v ms)
  let ?pre = "if first then [] else '',''" and ?t = "if ms = [] then commas (map (jprint_member fmt) ms) else CHR '','' # commas (map (jprint_member fmt) ms)"
  from 11(3) obtain a p' where m: "a < hi" "p = Some a" "repr h lo a v" "empty_container v \<longrightarrow> next_is h lo None" "member_is h a k lo" "next_is h a p'"
    "repr_members h (Suc a) hi p' None ms" unfolding 11(4) by auto
  from m(5,6) obtain n where n: "hp_map h a = Some n" "jn_next n = p'" "jn_child n = Some lo" "jn_key n = Some k" by (auto simp: next_is_def member_is_def)
  obtain f where f: "fuel = Suc f" "2 * (a - lo) \<le> f" "2 * (hi - Suc a) + 1 \<le> f" using 11(6) repr_lt [OF m(3)] m(1) by (cases fuel) auto
  have rv: "regular (number_conversion strtod fmt) v" "cstr k = k" "\<forall>m\<in>set ms. regular_member (number_conversion strtod fmt) m" using 11(5) by (simp_all add: cstr_id)
  have t: "(if Member k v # ms = [] \<or> first then commas (map (jprint_member fmt) (Member k v # ms)) else CHR '','' # commas (map (jprint_member fmt) (Member k v # ms))) =
      ?pre @ jstring k @ '':'' @ jprint fmt v @ ?t"
    by (simp add: commas_Cons)
  have rm: "room b (?pre @ jstring k @ '':'' @ jprint fmt v @ ?t)" using 11(8) unfolding t .
  have "grown b (?pre @ jstring k @ '':'' @ jprint fmt v @ ?t) (case append_comma always first b of None \<Rightarrow> None
    | Some b \<Rightarrow> (case buf_append_escaped_string always k b of None \<Rightarrow> None
        | Some b \<Rightarrow> (case buf_append_char always (CHR '':'') b of None \<Rightarrow> None
           | Some b \<Rightarrow> (case serialize_node always fmt h f (Some lo) b of None \<Rightarrow> None
               | Some b \<Rightarrow> serialize_members always fmt h f p' False b))))"
    by (rule grown_seq [OF append_comma_ok [OF 11(7)] grown_seq [OF buf_append_escaped_ok grown_seq [OF buf_append_char_ok
          grown_seq [OF 11(1) [OF m(3,4) rv(1) f(2)] 11(2) [OF m(7) [folded 11(4)] 11(4) rv(3) f(3), where first = False, simplified] refl] refl] refl] refl])
      (use rm in auto)
  then show ?case unfolding t f(1) m(2) using n rv(2) 11(7) by (simp add: heap_read_def buf_ok_def cong: option.case_cong)
next
  case (1 h lo hi)
  then show ?case by (cases fuel) (auto simp: serialize_scalar node_is_def simp del: serialize_node.simps(2) intro!: buf_append_str_ok)
next
  case (2 h lo hi)
  then show ?case by (cases fuel) (auto simp: serialize_scalar node_is_def simp del: serialize_node.simps(2) intro!: buf_append_str_ok)
next
  case (3 h lo hi)
  then show ?case by (cases fuel) (auto simp: serialize_scalar node_is_def simp del: serialize_node.simps(2) intro!: buf_append_str_ok)
next
  case (4 h lo hi d)
  then show ?case by (cases fuel) (auto simp: serialize_scalar node_is_def simp del: serialize_node.simps(2) simp: buf_append_number_def number_conversion_def intro!: buf_append_str_ok)
next
  case (5 h lo hi s)
  then show ?case by (cases fuel) (auto simp: serialize_scalar node_is_def simp del: serialize_node.simps(2) simp: cstr_id intro!: buf_append_escaped_ok)
next
  case (8 h lo hi q)
  then show ?case by (cases fuel) (auto simp: grown_def)
next
  case (10 h lo hi p q)
  then show ?case by (cases fuel) (auto simp: grown_def)
qed

subsection \<open>Reading back what was written\<close>

lemma commas_set: "set (commas ss) \<subseteq> {CHR '',''} \<union> \<Union> (set ` set ss)"
  by (induction ss rule: commas.induct) auto

lemma escape_no_NUL: "c \<noteq> CHR 0x00 \<Longrightarrow> CHR 0x00 \<notin> set (escape_char c)"
proof -
  have "list_all (\<lambda>n. CHR 0x00 \<noteq> hex_char (n div 16) \<and> CHR 0x00 \<noteq> hex_char (n mod 16)) [0..<32]" by code_simp
  then have "(of_char c :: nat) < 32 \<Longrightarrow> CHR 0x00 \<noteq> hex_char (of_char c div 16) \<and> CHR 0x00 \<noteq> hex_char (of_char c mod 16)" by (simp add: list_all_iff)
  then show "c \<noteq> CHR 0x00 \<Longrightarrow> ?thesis" by (simp add: escape_char_def)
qed

lemma jstring_no_NUL:
  assumes "CHR 0x00 \<notin> set s"
  shows "CHR 0x00 \<notin> set (jstring s)"
proof -
  have "\<forall>c \<in> set s. CHR 0x00 \<notin> set (escape_char c)"
  proof
    fix c assume "c \<in> set s"
    with assms have "c \<noteq> CHR 0x00" by metis
    then show "CHR 0x00 \<notin> set (escape_char c)" by (rule escape_no_NUL)
  qed
  then show ?thesis unfolding jstring_def by simp
qed

lemma number_no_NUL:
  assumes "number_text s"
  shows "CHR 0x00 \<notin> set s"
proof -
  have "\<not> is_digit (CHR 0x00)" by (simp add: is_digit_def)
  then have dg: "list_all is_digit ds \<Longrightarrow> CHR 0x00 \<notin> set ds" for ds unfolding list_all_iff by metis
  from assms obtain sg ds fr ex where s: "s = sg @ ds @ fr @ ex" "sg \<in> {[], ''-''}" "list_all is_digit ds"
    "fr = [] \<or> (\<exists>d. fr = CHR ''.'' # d \<and> list_all is_digit d)"
    "ex = [] \<or> (\<exists>sg d. (ex = CHR ''e'' # sg @ d \<or> ex = CHR ''E'' # sg @ d) \<and> sg \<in> {[], ''+'', ''-''} \<and> list_all is_digit d)"
    unfolding number_text_def by blast
  have "CHR 0x00 \<notin> set ex"
  proof (cases "ex = []")
    case False
    then obtain e sg d where e: "ex = e # sg @ d" "e \<noteq> CHR 0x00" "sg \<in> {[], ''+'', ''-''}" "list_all is_digit d" using s(5) by (elim disjE exE conjE) simp_all
    have "CHR 0x00 \<notin> set sg" using e(3) by (elim insertE) simp_all
    then show ?thesis using e(1,2) dg [OF e(4)] by simp
  qed simp
  moreover have "CHR 0x00 \<notin> set fr" using s(4) by (elim disjE exE conjE) (simp_all add: dg)
  moreover have "CHR 0x00 \<notin> set sg" using s(2) by (elim insertE) simp_all
  ultimately show ?thesis using s(1) dg [OF s(3)] by simp
qed

lemma jprint_no_NUL:
  "regular (number_conversion strtod fmt) v \<Longrightarrow> CHR 0x00 \<notin> set (jprint fmt v)"
  "regular_member (number_conversion strtod fmt) m \<Longrightarrow> CHR 0x00 \<notin> set (jprint_member fmt m)"
proof (induction v and m rule: json.induct member.induct)
  case (JArr vs)
  then show ?case using commas_set [of "map (jprint fmt) vs"] by (auto simp: list_all_iff)
next
  case (JObj ms)
  then show ?case using commas_set [of "map (jprint_member fmt) ms"] by (auto simp: list_all_iff)
qed (auto simp: number_conversion_def jstring_no_NUL number_no_NUL)

text \<open>The arena of the root does not belong to the value.\<close>

lemma repr_arena:
  assumes r: "repr h lo hi v" "empty_container v \<longrightarrow> next_is h lo None" and n: "hp_map h lo = Some n"
    and h': "hp_map h' = (hp_map h)(lo \<mapsto> n\<lparr>jn_arena := x, jn_owns_arena := y\<rparr>)"
  shows "repr h' lo hi v \<and> (empty_container v \<longrightarrow> next_is h' lo None)"
proof -
  have "same_on {Suc lo..<hi} h h'" "same_node lo h h'" using n h' by (auto simp: same_on_def same_node_def node_is_def)
  from repr_frame(1) [OF r(1) this] show ?thesis using r(2) n h' by (simp add: next_is_def)
qed

lemma json_parse_text:
  assumes reg: "regular (number_conversion strtod fmt) v" and dp: "jdepth v \<le> COBALT_JSON_DOM_MAX_DEPTH" and ok: "heap_ok h"
    and g: "growth_safe past (jprint fmt v)"
  shows "\<exists>h'. json_parse always past strtod True (Some (jprint fmt v)) h = Some (Some (hp_next h), h') \<and>
    repr h' (hp_next h) (hp_next h') v \<and> (empty_container v \<longrightarrow> next_is h' (hp_next h) None) \<and> heap_ok h' \<and> same_on {..<hp_next h} h h'"
proof -
  let ?str = "jprint fmt v"
  have c: "cstr ?str = ?str" by (rule cstr_id [OF jprint_no_NUL(1) [OF reg]])
  have hd: "?str \<noteq> []" "\<not> is_space (hd ?str)" using value_head [OF reg] by simp_all
  have d: "drop (cx_pos (start_ctx h)) ?str = ?str @ []" by (simp add: start_ctx_def)
  have s: "json_skip_whitespace ?str (start_ctx h) = start_ctx h" using hd by (cases ?str) (auto simp: start_ctx_def intro!: skip_none)
  have ps: "parses past strtod fmt ?str v" by (rule regular_parses(1) [OF g reg])
  have "parsed (start_ctx h) (length ?str) v (json_parse_value always past strtod ?str (json_fuel ?str) (start_ctx h))"
    by (rule ps [unfolded parses_def, rule_format, OF d]) (use dp ok in \<open>simp_all add: follows_def start_ctx_def json_fuel_def\<close>)
  then obtain h1 c1 where p: "json_parse_value always past strtod ?str (json_fuel ?str) (start_ctx h) = Some (Some (hp_next h), c1)"
    "moves (start_ctx h) (cx_pos (start_ctx h) + length ?str) h1 c1" "extends h h1" "repr h1 (hp_next h) (hp_next h1) v"
    "empty_container v \<longrightarrow> next_is h1 (hp_next h) None"
    by (auto simp: parsed_def start_ctx_def)
  obtain n where n: "hp_map h1 (hp_next h) = Some n" using repr_node [OF p(4)] by blast
  let ?h' = "h1\<lparr>hp_map := (hp_map h1)(hp_next h \<mapsto> n\<lparr>jn_arena := True, jn_owns_arena := True\<rparr>)\<rparr>"
  have "\<not> cx_exceeded c1" "cx_heap c1 = h1" using movesD [OF p(2)] by (simp_all add: start_ctx_def)
  then have "json_parse always past strtod True (Some ?str) h = Some (Some (hp_next h), ?h')"
    using c s p(1) hd n by (simp add: json_parse_def json_parse_with_alloc_def heap_upd_def Let_def) (simp add: start_ctx_def)
  moreover have "repr ?h' (hp_next h) (hp_next ?h') v \<and> (empty_container v \<longrightarrow> next_is ?h' (hp_next h) None)"
    using repr_arena [OF p(4,5) n, of ?h' True True] by simp
  moreover have "heap_ok ?h'" "same_on {..<hp_next h} h ?h'" using p(3) repr_lt [OF p(4)] by (auto simp: extends_def same_on_def heap_ok_def)
  ultimately show ?thesis by blast
qed

lemma json_serialize_repr:
  assumes r: "repr h lo hi v" "empty_container v \<longrightarrow> next_is h lo None" and reg: "regular (number_conversion strtod fmt) v"
    and len: "length (jprint fmt v) < 2 ^ 60" and fuel: "2 * (hi - lo) \<le> fuel"
  shows "json_serialize always fmt h fuel (Some lo) = Some (Some (jprint fmt v))"
proof -
  let ?b = "\<lparr>jb_data = [], jb_cap = 514, jb_oom = False, jb_allocs = 1\<rparr>"
  have e: "buf_ensure always 256 \<lparr>jb_data = [], jb_cap = 0, jb_oom = False, jb_allocs = 0\<rparr> = (True, ?b)" by (simp add: buf_ensure_def szt_def)
  have "grown ?b (jprint fmt v) (serialize_node always fmt h fuel (Some lo) ?b)"
    by (rule serialize_ok(1) [OF r reg fuel]) (use len in \<open>simp_all add: buf_ok_def\<close>)
  then obtain b' where b: "serialize_node always fmt h fuel (Some lo) ?b = Some b'" "jb_data b' = jprint fmt v" "\<not> jb_oom b'" "length (jb_data b') < jb_cap b'"
    by (simp only: grown_def buf_ok_def) auto
  show ?thesis unfolding json_serialize_def json_serialize_with_alloc_def option.case e prod.case b(1) using b(2-4) by simp
qed

text \<open>
  C3: A document in compact form that the parser accepts is represented by the nodes the parser builds, and serializing these
  nodes gives the text again. This holds for the documents the module handles rightly: at most 128 containers are nested, an object does not end
  in a non-empty object, an array holds an empty container only at its end, strings and names have no NUL, and the text of a number
  reads back as the number. The allocator grants every request, the text has less than \<open>2 ^ 60\<close> bytes, and where an escape makes a string
  buffer grow, the four bytes behind the old buffer may be read. The lemmas \<open>object_swallows_brace\<close>, \<open>empty_takes_sibling\<close> and
  \<open>json_string_overread\<close> below show that the conditions on objects, arrays and buffers are needed.
\<close>

theorem json_roundtrip:
  assumes reg: "regular (number_conversion strtod fmt) v" and dp: "jdepth v \<le> COBALT_JSON_DOM_MAX_DEPTH" and ok: "heap_ok h" and len: "length (jprint fmt v) < 2 ^ 60"
    and g: "growth_safe past (jprint fmt v)"
  shows "\<exists>h'. json_parse always past strtod True (Some (jprint fmt v)) h = Some (Some (hp_next h), h') \<and> repr h' (hp_next h) (hp_next h') v \<and>
    heap_ok h' \<and> same_on {..<hp_next h} h h' \<and>
    (\<forall>fuel \<ge> 2 * hp_next h'. json_serialize always fmt h' fuel (Some (hp_next h)) = Some (Some (jprint fmt v)))"
proof -
  from json_parse_text [OF reg dp ok g] obtain h' where p: "json_parse always past strtod True (Some (jprint fmt v)) h = Some (Some (hp_next h), h')"
    "repr h' (hp_next h) (hp_next h') v" "empty_container v \<longrightarrow> next_is h' (hp_next h) None" "heap_ok h'" "same_on {..<hp_next h} h h'" by blast
  then show ?thesis using json_serialize_repr [OF p(2,3) reg len] by (intro exI [of _ h']) simp
qed

lemma digit_conversion: "number_conversion (\<lambda>s. s = ''1'') (\<lambda>b. if b then ''1'' else ''-0.5e+3'') b"
proof -
  have "number_text ''1''" unfolding number_text_def
    by (rule exI [of _ "[]"], rule exI [of _ "''1''"], rule exI [of _ "[]"], rule exI [of _ "[]"]) (simp add: is_digit_def)
  moreover have "number_text ''-0.5e+3''" unfolding number_text_def
    by (rule exI [of _ "''-''"], rule exI [of _ "''0''"], rule exI [of _ "''.5''"], rule exI [of _ "''e+3''"])
      (simp add: is_digit_def, rule exI [of _ "''+''"], simp add: is_digit_def)
  ultimately show ?thesis by (simp add: number_conversion_def)
qed

theorem json_roundtrip_witness:
  "\<exists>h' :: bool json_node heap.
     json_parse always (\<lambda>_. 0) (\<lambda>s. s = ''1'') True (Some ''{\"a\":[1,-0.5e+3,{}],\"b\":\"x\"}'') \<lparr>hp_next = 0, hp_map = \<lambda>_. None\<rparr> = Some (Some 0, h') \<and>
     json_serialize always (\<lambda>b. if b then ''1'' else ''-0.5e+3'') h' (2 * hp_next h') (Some 0) = Some (Some ''{\"a\":[1,-0.5e+3,{}],\"b\":\"x\"}'')"
proof -
  let ?v = "JObj [Member ''a'' (JArr [JNum True, JNum False, JObj []]), Member ''b'' (JStr ''x'')]" and ?st = "\<lambda>s. s = ''1''" and ?fmt = "\<lambda>b. if b then ''1'' else ''-0.5e+3''"
  have t: "jprint ?fmt ?v = ''{\"a\":[1,-0.5e+3,{}],\"b\":\"x\"}''" by (simp add: jstring_def escape_char_def)
  have r: "regular (number_conversion ?st ?fmt) ?v" by (simp add: digit_conversion no_inner_empty_def empty_container_def full_object_def)
  have p: "jdepth ?v \<le> 128" "heap_ok \<lparr>hp_next = 0, hp_map = \<lambda>_. None\<rparr>" "length (jprint ?fmt ?v) < 2 ^ 60" "growth_safe (\<lambda>_. 0) (jprint ?fmt ?v)"
    unfolding t by (simp_all add: heap_ok_def growth_safe_def)
  show ?thesis using json_roundtrip [OF r p] unfolding t heap.simps by (elim exE conjE) (intro exI conjI, assumption, simp only: order.refl)
qed

end
