(* ===== verification/Cobalt_JSON_Total.thy ===== *)
theory Cobalt_JSON_Total
  imports Cobalt_JSON_Spec
begin

section \<open>JSON: every text\<close>

text \<open>
  The parser ends without fault whatever the text and the answers of the allocator, as long as the growth of a string buffer stays in
  readable memory (\<open>growth_safe\<close>). It refuses texts that nest too deeply. Three examples show
  texts the module reads or writes wrongly.
\<close>

subsection \<open>Every text is parsed\<close>

text \<open>
  For arbitrary texts and answers of the allocator: the parser only moves forward, keeps all nodes and the mark of exceeded nesting, and writes only to nodes at addresses from \<open>base\<close> on, which it
  has created itself.
\<close>

definition live :: "'d json_ctx \<Rightarrow> nat \<Rightarrow> bool" where
  "live ctx a \<longleftrightarrow> hp_map (cx_heap ctx) a \<noteq> None"

definition pre :: "nat \<Rightarrow> 'd json_ctx \<Rightarrow> bool" where
  "pre base ctx \<longleftrightarrow> heap_ok (cx_heap ctx) \<and> base \<le> hp_next (cx_heap ctx)"

definition advance :: "nat \<Rightarrow> 'd json_ctx \<Rightarrow> 'd json_ctx \<Rightarrow> bool" where
  "advance base ctx ctx' \<longleftrightarrow> pre base ctx' \<and> cx_pos ctx \<le> cx_pos ctx' \<and> (\<forall>a. live ctx a \<longrightarrow> live ctx' a) \<and>
     (cx_exceeded ctx \<longrightarrow> cx_exceeded ctx') \<and> same_on {..<base} (cx_heap ctx) (cx_heap ctx')"

definition fine :: "nat \<Rightarrow> 'd json_ctx \<Rightarrow> (nat option \<times> 'd json_ctx) option \<Rightarrow> bool" where
  "fine base ctx res \<longleftrightarrow> (\<exists>r ctx'. res = Some (r, ctx') \<and> advance base ctx ctx' \<and>
     (\<forall>a. r = Some a \<longrightarrow> cx_pos ctx < cx_pos ctx' \<and> base \<le> a \<and> live ctx' a))"

definition fine_loop :: "nat \<Rightarrow> 'd json_ctx \<Rightarrow> 'd json_ctx option \<Rightarrow> bool" where
  "fine_loop base ctx res \<longleftrightarrow> (\<exists>ctx'. res = Some ctx' \<and> advance base ctx ctx')"

lemma advance_refl: "pre base ctx \<Longrightarrow> advance base ctx ctx"
  by (simp add: advance_def same_on_def)

lemma advance_trans: "advance base a b \<Longrightarrow> advance base b c \<Longrightarrow> advance base a c"
  unfolding advance_def same_on_def by (auto intro: order_trans)

lemma advanceD: "advance base ctx ctx' \<Longrightarrow> pre base ctx' \<and> cx_pos ctx \<le> cx_pos ctx' \<and> (cx_exceeded ctx \<longrightarrow> cx_exceeded ctx') \<and> (live ctx a \<longrightarrow> live ctx' a)"
  by (simp add: advance_def)

lemma advance_heap:
  "pre base ctx \<Longrightarrow> cx_heap ctx' = cx_heap ctx \<Longrightarrow> cx_exceeded ctx \<longrightarrow> cx_exceeded ctx' \<Longrightarrow> cx_pos ctx \<le> cx_pos ctx' \<Longrightarrow> advance base ctx ctx'"
  by (simp add: advance_def pre_def live_def same_on_def)

lemma scan_chars_ge: "pos \<le> scan_chars P str pos"
proof (induction P str pos rule: scan_chars.induct)
  case (1 P str pos)
  then show ?case by (subst scan_chars.simps) auto
qed

lemma skip_advance: "pre base ctx \<Longrightarrow> advance base ctx (json_skip_whitespace str ctx)"
  by (rule advance_heap) (simp_all add: json_skip_whitespace_def scan_chars_ge)

lemma bump_advance: "pre base ctx \<Longrightarrow> advance base ctx (bump ctx)"
  by (rule advance_heap) (simp_all add: bump_def)

lemma depth_advance: "advance base ctx ctx' \<Longrightarrow> advance base ctx (ctx'\<lparr>cx_depth := d\<rparr>)"
  by (simp add: advance_def pre_def live_def)

lemma close_advance: "pre base ctx \<Longrightarrow> advance base ctx (close_with c str ctx)"
  using skip_advance [of base ctx str] advance_trans [OF skip_advance bump_advance] by (auto simp: close_with_def Let_def advance_def)

lemma create_advance:
  assumes "pre base ctx" "json_node_create am ty ctx = (r, ctx')"
  shows "advance base ctx ctx' \<and> cx_pos ctx' = cx_pos ctx \<and> (\<forall>a. r = Some a \<longrightarrow> base \<le> a \<and> live ctx' a)"
  using assms by (cases "am (cx_allocs ctx)") (auto simp: json_node_create_def jalloc_def heap_new_def advance_def pre_def live_def same_on_def heap_ok_def)

lemma set_advance:
  assumes "pre base ctx" "base \<le> a" "live ctx a"
  shows "\<exists>ctx'. set_node a f ctx = Some ctx' \<and> advance base ctx ctx' \<and> cx_pos ctx' = cx_pos ctx"
proof -
  from assms(3) obtain n where n: "hp_map (cx_heap ctx) a = Some n" by (auto simp: live_def)
  from assms(1) have ok: "heap_ok (cx_heap ctx)" by (simp add: pre_def)
  from set_node_ok [OF n ok, of f] obtain h c where c: "set_node a f ctx = Some c" "moves ctx (cx_pos ctx) h c" "heap_ok h"
    "hp_next h = hp_next (cx_heap ctx)" "hp_map h = (hp_map (cx_heap ctx))(a \<mapsto> f n)" by blast
  then show ?thesis using movesD [OF c(2)] assms(1,2) by (auto simp: advance_def pre_def live_def same_on_def)
qed

lemma append_advance:
  assumes "pre base ctx" "base \<le> root" "live ctx root" "\<And>t. tail = Some t \<Longrightarrow> base \<le> t \<and> live ctx t"
  shows "\<exists>ctx'. append_child root tail a ctx = Some ctx' \<and> advance base ctx ctx' \<and> cx_pos ctx' = cx_pos ctx"
  using assms set_advance [OF assms(1), of _ "\<lambda>n. n\<lparr>jn_next := Some a\<rparr>"] set_advance [OF assms(1-3)]
  by (cases tail) (simp_all add: append_child_def)

lemma string_loop_total:
  "growth_safe past str \<Longrightarrow> buf_inv str cap res ctx \<Longrightarrow>
    \<exists>r ctx'. string_loop am past str cap res ctx = Some (r, ctx') \<and> cx_heap ctx' = cx_heap ctx \<and> cx_exceeded ctx' = cx_exceeded ctx \<and> cx_pos ctx \<le> cx_pos ctx'"
proof (induction am past str cap res ctx rule: string_loop.induct)
  case (1 am past str cap res ctx)
  let ?pos = "cx_pos ctx"
  note g = "1.prems"(1) and inv = "1.prems"(2) and eq = string_loop.simps [of am past str cap res ctx, unfolded Let_def]
  show ?case
  proof (cases "?pos < length str \<and> str ! ?pos \<noteq> CHR 0x22")
    case False
    then show ?thesis using inv by (subst eq) (auto simp: buf_inv_def)
  next
    case loop: True
    show ?thesis
    proof (cases "str ! ?pos = CHR 0x5C")
      case plain: False
      from plain_room [OF g inv, of am "str ! ?pos"] loop obtain c al where
        e: "ensure_room am past (cap < szt (length res + 2)) cap (grow_plain cap) (ctx\<lparr>cx_pos := ?pos + 1\<rparr>) = Some (c, ctx\<lparr>cx_pos := ?pos + 1, cx_allocs := al\<rparr>)"
        "\<And>cap'. c = Some cap' \<Longrightarrow> length res < cap' \<and> buf_inv str cap' (res @ [str ! ?pos]) (ctx\<lparr>cx_pos := ?pos + 1, cx_allocs := al\<rparr>)" by blast
      show ?thesis
      proof (cases c)
        case None
        then show ?thesis using loop plain e(1) by (subst eq) simp
      next
        case (Some cap')
        have s: "string_loop am past str cap res ctx = string_loop am past str cap' (res @ [str ! ?pos]) (ctx\<lparr>cx_pos := ?pos + 1, cx_allocs := al\<rparr>)"
          using loop plain e(1) e(2) [OF Some] Some by (subst eq) simp
        have "\<not> cap' \<le> length res" using e(2) [OF Some] by simp
        from "1.IH"(2) [OF refl loop plain e(1) refl Some this g] e(2) [OF Some] show ?thesis unfolding s by auto
      qed
    next
      case esc: True
      show ?thesis
      proof (cases "length str \<le> ?pos + 1 \<or> json_escape str (?pos + 1) = None")
        case True
        then show ?thesis using loop esc by (subst eq) auto
      next
        case False
        then obtain w p where j: "\<not> length str \<le> ?pos + 1" "json_escape str (?pos + 1) = Some (w, p)" by auto
        have p: "?pos + 1 \<le> p" using json_escape_pos [OF j(2)] by simp
        from escape_room [OF g inv _ esc j(2), of am] j(1) obtain c al where
          e: "ensure_room am past (cap < szt (length res + length w + 1)) cap (grow_escape (length res) (length w)) (ctx\<lparr>cx_pos := p + 1\<rparr>)
            = Some (c, ctx\<lparr>cx_pos := p + 1, cx_allocs := al\<rparr>)"
          "\<And>cap'. c = Some cap' \<Longrightarrow> length res + length w \<le> cap' \<and> buf_inv str cap' (res @ w) (ctx\<lparr>cx_pos := p + 1, cx_allocs := al\<rparr>)"
          by (meson not_le_imp_less)
        show ?thesis
        proof (cases c)
          case None
          then show ?thesis using loop esc j e(1) p by (subst eq) simp
        next
          case (Some cap')
          have s: "string_loop am past str cap res ctx = string_loop am past str cap' (res @ w) (ctx\<lparr>cx_pos := p + 1, cx_allocs := al\<rparr>)"
            using loop esc j e(1) e(2) [OF Some] Some by (subst eq) simp
          have "\<not> cap' < length res + length w" using e(2) [OF Some] by simp
          from "1.IH"(1) [OF refl loop esc j(1,2) refl e(1) refl Some this g] e(2) [OF Some] p show ?thesis unfolding s by auto
        qed
      qed
    qed
  qed
qed

lemma string_advance:
  assumes g: "growth_safe past str" and p: "pre base ctx"
  obtains r ctx' where "json_parse_string am past str ctx = Some (r, ctx')" "advance base ctx ctx'" "r \<noteq> None \<longrightarrow> cx_pos ctx < cx_pos ctx'"
proof (cases "at str (cx_pos ctx) (CHR 0x22) \<and> am (cx_allocs ctx)")
  case True
  let ?c = "ctx\<lparr>cx_pos := cx_pos ctx + 1, cx_allocs := cx_allocs ctx + 1\<rparr>"
  have "buf_inv str 64 [] ?c" by (simp add: buf_inv_def)
  from string_loop_total [OF g this, of am] obtain r c where
    "string_loop am past str 64 [] ?c = Some (r, c)" "cx_heap c = cx_heap ctx" "cx_exceeded c = cx_exceeded ctx" "cx_pos ctx + 1 \<le> cx_pos c" by auto
  then show ?thesis using True p by (intro that [of r c]) (auto simp: json_parse_string_def jalloc_def intro: advance_heap)
next
  case False
  have a: "advance base ctx ctx" "advance base ctx (ctx\<lparr>cx_pos := cx_pos ctx + 1, cx_allocs := cx_allocs ctx + 1\<rparr>)"
    using p by (auto intro: advance_heap)
  show ?thesis using False that [OF _ a(1)] that [OF _ a(2)] by (cases "at str (cx_pos ctx) (CHR 0x22)") (auto simp: json_parse_string_def jalloc_def)
qed

lemma created_fine:
  assumes "pre base ctx" "cx_pos ctx < cx_pos c1" "advance base ctx c1"
  shows "fine base ctx (case json_node_create am ty c1 of (None, c2) \<Rightarrow> Some (None, c2) | (Some a, c2) \<Rightarrow> map_option (Pair (Some a)) (set_node a f c2))"
    and "fine base ctx (Some (json_node_create am ty c1))"
proof -
  obtain r c2 where c2: "json_node_create am ty c1 = (r, c2)" by (cases "json_node_create am ty c1")
  from assms(3) have p1: "pre base c1" by (simp add: advance_def)
  note ca = create_advance [OF p1 c2]
  have ad: "advance base ctx c2" using advance_trans [OF assms(3)] ca by blast
  show "fine base ctx (Some (json_node_create am ty c1))" using ca ad assms(2) unfolding c2 fine_def by auto
  show "fine base ctx (case json_node_create am ty c1 of (None, c2) \<Rightarrow> Some (None, c2) | (Some a, c2) \<Rightarrow> map_option (Pair (Some a)) (set_node a f c2))"
  proof (cases r)
    case None
    then show ?thesis using c2 ad by (simp add: fine_def)
  next
    case (Some a)
    from ad have "pre base c2" by (simp add: advance_def)
    from set_advance [OF this, of a f] ca Some obtain c3 where c3: "set_node a f c2 = Some c3" "advance base c2 c3" "cx_pos c3 = cx_pos c2" by blast
    have "live c3 a" using advanceD [OF c3(2), of a] ca Some by blast
    then show ?thesis using c2 Some c3 ca assms(2) advance_trans [OF ad c3(2)] by (simp add: fine_def)
  qed
qed

lemma string_fine:
  assumes g: "growth_safe past str" and p: "pre base ctx"
  shows "fine base ctx (parse_string_value am past str ctx)"
proof -
  obtain r c1 where c1: "json_parse_string am past str ctx = Some (r, c1)" "advance base ctx c1" "r \<noteq> None \<longrightarrow> cx_pos ctx < cx_pos c1"
    by (rule string_advance [OF g p])
  then show ?thesis using created_fine(1) [OF p, of c1]
    by (cases r) (simp_all add: parse_string_value_def, simp add: fine_def)
qed

lemma scan_number_gt: "at str pos (CHR ''-'') \<or> pos < length str \<and> is_digit (str ! pos) \<Longrightarrow> pos < scan_number str pos"
proof -
  assume a: "at str pos (CHR ''-'') \<or> pos < length str \<and> is_digit (str ! pos)"
  let ?p1 = "scan_chars is_digit str (if at str pos (CHR ''-'') then pos + 1 else pos)"
  let ?p2 = "if at str ?p1 (CHR ''.'') then scan_chars is_digit str (?p1 + 1) else ?p1"
  have "pos < ?p1"
  proof (cases "at str pos (CHR ''-'')")
    case True
    then show ?thesis using scan_chars_ge [of "pos + 1" is_digit str] by simp
  next
    case False
    then have "scan_chars is_digit str pos = scan_chars is_digit str (pos + 1)" using a by (subst scan_chars.simps) simp
    then show ?thesis using False scan_chars_ge [of "pos + 1" is_digit str] by simp
  qed
  moreover have "?p1 \<le> ?p2" using scan_chars_ge [of "?p1 + 1" is_digit str] by simp
  moreover have "q \<le> (if A then scan_chars is_digit str (if B then q + 1 + 1 else q + 1) else q)" for q A B
    using scan_chars_ge [of "q + 1" is_digit str] scan_chars_ge [of "q + 1 + 1" is_digit str] by simp
  then have "?p2 \<le> scan_number str pos" unfolding scan_number_def Let_def .
  ultimately show ?thesis by linarith
qed

lemma number_fine:
  assumes p: "pre base ctx" and a: "at str (cx_pos ctx) (CHR ''-'') \<or> cx_pos ctx < length str \<and> is_digit (str ! cx_pos ctx)"
  shows "fine base ctx (parse_number_value am strtod str ctx)"
proof -
  let ?c1 = "ctx\<lparr>cx_pos := scan_number str (cx_pos ctx), cx_allocs := cx_allocs ctx + 1\<rparr>"
  have g: "cx_pos ctx < cx_pos ?c1" using scan_number_gt [OF a] by simp
  have ad: "advance base ctx ?c1" by (rule advance_heap [OF p]) (use g in simp_all)
  show ?thesis
  proof (cases "am (cx_allocs ctx)")
    case True
    then show ?thesis using created_fine(1) [OF p g ad] by (simp add: parse_number_value_def jalloc_def Let_def)
  next
    case False
    then show ?thesis using ad by (simp add: parse_number_value_def jalloc_def Let_def fine_def)
  qed
qed

lemma literal_fine: "pre base ctx \<Longrightarrow> fine base ctx (parse_literal am str ctx)"
  unfolding parse_literal_def Let_def
  by (auto intro!: created_fine(2) advance_heap) (simp add: fine_def advance_refl)

text \<open>Fuel: a value needs three calls per character and one more; a loop starts with one call for the element.\<close>

definition total_value :: "(nat \<Rightarrow> bool) \<Rightarrow> (nat \<Rightarrow> nat) \<Rightarrow> (string \<Rightarrow> 'd) \<Rightarrow> string \<Rightarrow> nat \<Rightarrow> nat \<Rightarrow> bool" where
  "total_value am past strtod str base fuel \<longleftrightarrow> (\<forall>ctx. pre base ctx \<longrightarrow> 3 * (length str - cx_pos ctx) + 1 \<le> fuel \<longrightarrow>
     fine base ctx (json_parse_value am past strtod str fuel ctx))"

definition total_container ::
    "(nat \<Rightarrow> 'd json_ctx \<Rightarrow> (nat option \<times> 'd json_ctx) option) \<Rightarrow> string \<Rightarrow> nat \<Rightarrow> nat \<Rightarrow> bool" where
  "total_container parse str base fuel \<longleftrightarrow> (\<forall>ctx. pre base ctx \<longrightarrow> cx_pos ctx < length str \<longrightarrow> 3 * (length str - cx_pos ctx) \<le> fuel \<longrightarrow>
     fine base ctx (parse fuel ctx))"

definition total_loop ::
    "(nat \<Rightarrow> nat \<Rightarrow> nat option \<Rightarrow> 'd json_ctx \<Rightarrow> 'd json_ctx option) \<Rightarrow> string \<Rightarrow> nat \<Rightarrow> nat \<Rightarrow> bool" where
  "total_loop loop str base fuel \<longleftrightarrow> (\<forall>ctx root tail. pre base ctx \<longrightarrow> base \<le> root \<longrightarrow> live ctx root \<longrightarrow>
     (\<forall>t. tail = Some t \<longrightarrow> base \<le> t \<and> live ctx t) \<longrightarrow> 3 * (length str - cx_pos ctx) + 2 \<le> fuel \<longrightarrow> fine_loop base ctx (loop fuel root tail ctx))"

lemma fine_loop_trans: "advance base ctx ctx' \<Longrightarrow> fine_loop base ctx' res \<Longrightarrow> fine_loop base ctx res"
  by (auto simp: fine_loop_def intro: advance_trans)

lemma fine_trans:
  assumes "advance base ctx ctx'" "fine base ctx' res"
  shows "fine base ctx res"
proof -
  from assms(2) obtain r c where c: "res = Some (r, c)" "advance base ctx' c" "\<And>a. r = Some a \<Longrightarrow> cx_pos ctx' < cx_pos c \<and> base \<le> a \<and> live c a"
    by (auto simp: fine_def)
  then show ?thesis using advance_trans [OF assms(1) c(2)] advanceD [OF assms(1)] by (auto simp: fine_def intro: order_le_less_trans)
qed

lemma at_bound: "at str pos c \<Longrightarrow> pos < length str"
  by (simp add: at_def)

lemma value_total:
  fixes strtod :: "string \<Rightarrow> 'd"
  assumes g: "growth_safe past str" and ob: "total_container (json_parse_object am past strtod str) str base fuel" and ar: "total_container (json_parse_array am past strtod str) str base fuel"
  shows "total_value am past strtod str base (Suc fuel)"
  unfolding total_value_def
proof (intro allI impI)
  fix ctx :: "'d json_ctx" assume p: "pre base ctx" and f: "3 * (length str - cx_pos ctx) + 1 \<le> Suc fuel"
  let ?c = "json_skip_whitespace str ctx"
  note ad = skip_advance [OF p, of str]
  from ad have p': "pre base ?c" and le: "cx_pos ctx \<le> cx_pos ?c" by (simp_all add: advance_def)
  show "fine base ctx (json_parse_value am past strtod str (Suc fuel) ctx)"
  proof (cases "length str \<le> cx_pos ?c")
    case True
    then show ?thesis using ad by (simp add: fine_def)
  next
    case False
    let ?ch = "str ! cx_pos ?c"
    have b: "cx_pos ?c < length str" "3 * (length str - cx_pos ?c) \<le> fuel" using False le f by simp_all
    have "fine base ?c (json_parse_value am past strtod str (Suc fuel) ctx)"
    proof (cases "?ch = CHR 0x7B \<or> ?ch = CHR 0x5B \<or> ?ch = CHR 0x22 \<or> ?ch = CHR ''-'' \<or> is_digit ?ch")
      case True
      then show ?thesis
        using b ob [unfolded total_container_def, rule_format, OF p' b] ar [unfolded total_container_def, rule_format, OF p' b]
          string_fine [OF g p', of am] number_fine [OF p', of str am strtod] by (auto simp: Let_def at_def)
    next
      case False
      then show ?thesis using b literal_fine [OF p', of am str] by (auto simp: Let_def)
    qed
    then show ?thesis by (rule fine_trans [OF ad])
  qed
qed

lemma array_loop_total:
  fixes strtod :: "string \<Rightarrow> 'd"
  assumes v: "total_value am past strtod str base fuel" and l: "total_loop (array_loop am past strtod str) str base fuel"
  shows "total_loop (array_loop am past strtod str) str base (Suc fuel)"
  unfolding total_loop_def
proof (intro allI impI)
  fix ctx :: "'d json_ctx" and root tail
  assume p: "pre base ctx" and r: "base \<le> root" "live ctx root" and t: "\<forall>t. tail = Some t \<longrightarrow> base \<le> t \<and> live ctx t"
    and f: "3 * (length str - cx_pos ctx) + 2 \<le> Suc fuel"
  from v p f obtain e c1 where c1: "json_parse_value am past strtod str fuel ctx = Some (e, c1)" "advance base ctx c1"
    "\<And>a. e = Some a \<Longrightarrow> cx_pos ctx < cx_pos c1 \<and> base \<le> a \<and> live c1 a" by (auto simp: total_value_def fine_def)
  show "fine_loop base ctx (array_loop am past strtod str (Suc fuel) root tail ctx)"
  proof (cases e)
    case None
    then show ?thesis using c1 by (simp add: fine_loop_def)
  next
    case (Some a)
    note a = c1(3) [OF Some]
    from c1(2) have "pre base c1" by (simp add: advance_def)
    from set_advance [OF this, of a "\<lambda>n. n\<lparr>jn_next := None\<rparr>"] a obtain c2 where c2: "set_node a (\<lambda>n. n\<lparr>jn_next := None\<rparr>) c1 = Some c2"
      "advance base c1 c2" "cx_pos c2 = cx_pos c1" by blast
    have a2: "advance base ctx c2" by (rule advance_trans [OF c1(2) c2(2)])
    have "\<exists>c3. append_child root tail a c2 = Some c3 \<and> advance base c2 c3 \<and> cx_pos c3 = cx_pos c2"
      by (rule append_advance) (use a2 r t advanceD [OF a2] in auto)
    then obtain c3 where c3: "append_child root tail a c2 = Some c3" "advance base c2 c3" "cx_pos c3 = cx_pos c2" by blast
    have a3: "advance base ctx c3" by (rule advance_trans [OF a2 c3(2)])
    let ?c = "json_skip_whitespace str c3"
    have ac: "advance base ctx ?c" "advance base c1 ?c"
      using advance_trans [OF a3 skip_advance] advance_trans [OF advance_trans [OF c2(2) c3(2)] skip_advance] advanceD [OF a3] by blast+
    show ?thesis
    proof (cases "at str (cx_pos ?c) (CHR '','')")
      case True
      have ab: "advance base ctx (bump ?c)" "advance base c1 (bump ?c)" using advance_trans [OF ac(1) bump_advance] advance_trans [OF ac(2) bump_advance] advanceD [OF ac(1)] by blast+
      have "cx_pos ctx < cx_pos ?c" using a advanceD [OF ac(2)] by (meson order_less_le_trans)
      then have "3 * (length str - cx_pos (bump ?c)) + 2 \<le> fuel" using at_bound [OF True] f by (simp add: bump_def)
      then have "fine_loop base (bump ?c) (array_loop am past strtod str fuel root (Some a) (bump ?c))"
        using l [unfolded total_loop_def, rule_format, of "bump ?c" root "Some a"] r(1) advanceD [OF ab(1), of root] advanceD [OF ab(2), of a] r(2) a by simp
      then show ?thesis using Some c1(1) c2(1) c3(1) True fine_loop_trans [OF ab(1)] by (simp add: Let_def)
    next
      case False
      then show ?thesis using Some c1(1) c2(1) c3(1) ac(1) by (simp add: Let_def fine_loop_def)
    qed
  qed
qed

lemma link_member:
  assumes p: "pre base ctx" and c1: "json_node_create am JSON_OBJECT ctx = (Some kv, c1)" and r: "base \<le> root" "live ctx root"
    and t: "\<And>t. tail = Some t \<Longrightarrow> base \<le> t \<and> live ctx t"
  shows "\<exists>c2 c3. set_node kv f c1 = Some c2 \<and> append_child root tail kv c2 = Some c3 \<and> advance base ctx c3 \<and> cx_pos c3 = cx_pos ctx \<and> base \<le> kv \<and> live c3 kv"
proof -
  from create_advance [OF p c1] have a1: "advance base ctx c1" "cx_pos c1 = cx_pos ctx" "base \<le> kv" "live c1 kv" by simp_all
  from set_advance [of base c1 kv f] a1 obtain c2 where c2: "set_node kv f c1 = Some c2" "advance base c1 c2" "cx_pos c2 = cx_pos c1" by (auto simp: advance_def)
  have a2: "advance base ctx c2" by (rule advance_trans [OF a1(1) c2(2)])
  have "\<exists>c3. append_child root tail kv c2 = Some c3 \<and> advance base c2 c3 \<and> cx_pos c3 = cx_pos c2"
    by (rule append_advance) (use a2 r t advanceD [OF a2] in auto)
  then obtain c3 where c3: "append_child root tail kv c2 = Some c3" "advance base c2 c3" "cx_pos c3 = cx_pos c2" by blast
  have "live c3 kv" using advanceD [OF advance_trans [OF c2(2) c3(2)], of kv] a1(4) by blast
  then show ?thesis using c2 c3 a1 advance_trans [OF a2 c3(2)] by auto
qed

lemma object_loop_total:
  fixes strtod :: "string \<Rightarrow> 'd"
  assumes g: "growth_safe past str" and v: "total_value am past strtod str base fuel" and l: "total_loop (object_loop am past strtod str) str base fuel"
  shows "total_loop (object_loop am past strtod str) str base (Suc fuel)"
  unfolding total_loop_def
proof (intro allI impI)
  fix ctx :: "'d json_ctx" and root tail
  assume p: "pre base ctx" and r: "base \<le> root" "live ctx root" and t: "\<forall>t. tail = Some t \<longrightarrow> base \<le> t \<and> live ctx t"
    and f: "3 * (length str - cx_pos ctx) + 2 \<le> Suc fuel"
  let ?loop = "object_loop am past strtod str (Suc fuel) root tail ctx" and ?c0 = "json_skip_whitespace str ctx"
  note a0 = skip_advance [OF p, of str]
  have "pre base ?c0" using a0 by (simp add: advance_def)
  from string_advance [OF g this, of am] obtain k c1 where c1: "json_parse_string am past str ?c0 = Some (k, c1)" and s1: "advance base ?c0 c1" by blast
  have a1: "advance base ctx c1" using advance_trans [OF a0] s1 by blast
  let ?c2 = "json_skip_whitespace str c1"
  have a2: "advance base ctx ?c2" using advance_trans [OF a1 skip_advance] advanceD [OF a1] by blast
  have a3: "advance base ctx (bump ?c2)" using advance_trans [OF a2 bump_advance] advanceD [OF a2] by blast
  have p3: "pre base (bump ?c2)" "cx_pos ctx \<le> cx_pos (bump ?c2)" using advanceD [OF a3] by simp_all
  have "fine base (bump ?c2) (json_parse_value am past strtod str fuel (bump ?c2))"
    by (rule v [unfolded total_value_def, rule_format, OF p3(1)]) (use f p3(2) in linarith)
  then obtain e c4 where c4: "json_parse_value am past strtod str fuel (bump ?c2) = Some (e, c4)" "advance base (bump ?c2) c4"
    "\<And>a. e = Some a \<Longrightarrow> cx_pos (bump ?c2) < cx_pos c4" by (auto simp: fine_def)
  have a4: "advance base ctx c4" by (rule advance_trans [OF a3 c4(2)])
  have p4: "pre base c4" using a4 by (simp add: advance_def)
  obtain kv c5 where c5: "json_node_create am JSON_OBJECT c4 = (kv, c5)" by (cases "json_node_create am JSON_OBJECT c4")
  have a5: "advance base ctx c5" using advance_trans [OF a4] create_advance [OF p4 c5] by blast
  show "fine_loop base ctx ?loop"
  proof (cases "at str (cx_pos ?c0) (CHR 0x22) \<and> k \<noteq> None \<and> at str (cx_pos ?c2) (CHR '':'') \<and> e \<noteq> None \<and> kv \<noteq> None")
    case False
    then have "?loop \<in> Some ` {?c0, c1, ?c2, c4, c5}" using c1 c4(1) c5 by (cases k; cases e; cases kv) (auto simp: Let_def)
    then show ?thesis using a0 a1 a2 a4 a5 by (auto simp: fine_loop_def)
  next
    case True
    then obtain key a kv' where s: "k = Some key" "e = Some a" "kv = Some kv'" by auto
    have t4: "\<And>t. tail = Some t \<Longrightarrow> base \<le> t \<and> live c4 t" "live c4 root" using t r(2) advanceD [OF a4] by auto
    from link_member [OF p4 c5 [unfolded s] r(1) t4(2,1), of tail "\<lambda>n. n\<lparr>jn_key := Some key, jn_child := Some a, jn_next := None\<rparr>"] obtain c6 c7 where
      c7: "set_node kv' (\<lambda>n. n\<lparr>jn_key := Some key, jn_child := Some a, jn_next := None\<rparr>) c5 = Some c6" "append_child root tail kv' c6 = Some c7"
      "advance base c4 c7" "cx_pos c7 = cx_pos c4" "base \<le> kv'" "live c7 kv'" by blast
    have p7: "pre base c7" using c7(3) by (simp add: advance_def)
    let ?c8 = "json_skip_whitespace str c7"
    note a8 = skip_advance [OF p7, of str]
    have a9: "advance base c7 (bump ?c8)" using advance_trans [OF a8 bump_advance] advanceD [OF a8] by blast
    have b: "advance base ctx ?c8" "advance base ctx (bump ?c8)" using advance_trans [OF advance_trans [OF a4 c7(3)]] a8 a9 by blast+
    have eq: "?loop = (if at str (cx_pos ?c8) (CHR '','') then object_loop am past strtod str fuel root (Some kv') (bump ?c8)
      else if at str (cx_pos ?c8) (CHR 0x7D) then Some (bump ?c8) else Some ?c8)" using True c1 c4(1) c5 c7(1,2) s by (simp add: Let_def)
    show ?thesis
    proof (cases "at str (cx_pos ?c8) (CHR '','')")
      case False
      then show ?thesis using eq b by (simp add: fine_loop_def)
    next
      case True
      have "cx_pos ctx < cx_pos ?c8" using c4(3) [OF s(2)] p3(2) a8 c7(4) by (simp add: advance_def)
      then have fu: "3 * (length str - cx_pos (bump ?c8)) + 2 \<le> fuel" using at_bound [OF True] f by (simp add: bump_def)
      have "fine_loop base (bump ?c8) (object_loop am past strtod str fuel root (Some kv') (bump ?c8))"
        using l [unfolded total_loop_def, rule_format, of "bump ?c8" root "Some kv'"] r c7(5,6) fu advanceD [OF b(2), of root] advanceD [OF a9, of kv'] by simp
      then show ?thesis using eq True fine_loop_trans [OF b(2)] by simp
    qed
  qed
qed

text \<open>Both containers open in the same way and differ in their loop.\<close>

lemma container_total:
  fixes loop :: "nat \<Rightarrow> nat \<Rightarrow> nat option \<Rightarrow> 'd json_ctx \<Rightarrow> 'd json_ctx option"
  assumes l: "total_loop loop str base fuel"
    and eq: "\<And>ctx. parse (Suc fuel) ctx =
     (if COBALT_JSON_DOM_MAX_DEPTH \<le> cx_depth ctx then Some (None, ctx\<lparr>cx_exceeded := True\<rparr>)
      else
        let ctx = json_skip_whitespace str (ctx\<lparr>cx_depth := cx_depth ctx + 1\<rparr>) in
        if \<not> at str (cx_pos ctx) c then Some (None, ctx)
        else
          case json_node_create am ty (bump ctx) of
            (None, ctx) \<Rightarrow> Some (None, ctx\<lparr>cx_depth := cx_depth ctx - 1\<rparr>)
          | (Some root, ctx) \<Rightarrow>
              let ctx = json_skip_whitespace str ctx in
              if at str (cx_pos ctx) d then Some (Some root, (bump ctx)\<lparr>cx_depth := cx_depth ctx - 1\<rparr>)
              else
                case loop fuel root None ctx of
                  None \<Rightarrow> None
                | Some ctx \<Rightarrow>
                    let ctx = close_with d str ctx in
                    Some (Some root, ctx\<lparr>cx_depth := cx_depth ctx - 1\<rparr>))"
  shows "total_container parse str base (Suc fuel)"
  unfolding total_container_def
proof (intro allI impI)
  fix ctx :: "'d json_ctx"
  assume p: "pre base ctx" and b: "cx_pos ctx < length str" and f: "3 * (length str - cx_pos ctx) \<le> Suc fuel"
  define c0 where "c0 = json_skip_whitespace str (ctx\<lparr>cx_depth := cx_depth ctx + 1\<rparr>)"
  have p': "pre base (ctx\<lparr>cx_depth := cx_depth ctx + 1\<rparr>)" using p by (simp add: pre_def)
  have a0: "advance base ctx c0" unfolding c0_def
    by (rule advance_trans [OF depth_advance [OF advance_refl [OF p]] skip_advance [OF p']])
  have ab: "advance base ctx (bump c0)" using advance_trans [OF a0 bump_advance] advanceD [OF a0] by blast
  obtain r c1 where c1: "json_node_create am ty (bump c0) = (r, c1)" by (cases "json_node_create am ty (bump c0)")
  have "pre base (bump c0)" using advanceD [OF ab] by blast
  note ca = create_advance [OF this c1]
  have a1: "advance base ctx c1" using advance_trans [OF ab] ca by blast
  have p1: "pre base c1" using advanceD [OF a1] by blast
  let ?c2 = "json_skip_whitespace str c1"
  have s2: "advance base c1 ?c2" by (rule skip_advance [OF p1])
  have a2: "advance base ctx ?c2" by (rule advance_trans [OF a1 s2])
  show "fine base ctx (parse (Suc fuel) ctx)"
  proof (cases "COBALT_JSON_DOM_MAX_DEPTH \<le> cx_depth ctx \<or> \<not> at str (cx_pos c0) c \<or> r = None")
    case True
    have "advance base ctx (ctx\<lparr>cx_exceeded := True\<rparr>)" by (rule advance_heap [OF p]) simp_all
    then show ?thesis using True a0 depth_advance [OF a1] c1 unfolding eq Let_def c0_def [symmetric] by (auto simp: fine_def)
  next
    case False
    then obtain root where r: "r = Some root" by auto
    have root: "base \<le> root" "live ?c2 root" using ca r advanceD [OF s2, of root] by auto
    have at: "at str (cx_pos c0) c" using False by simp
    have pos: "cx_pos ctx < cx_pos ?c2" "cx_pos c0 < cx_pos ?c2" using advanceD [OF a0] advanceD [OF s2] ca by (simp_all add: bump_def) (meson Suc_le_lessD order_le_less_trans)+
    have p2: "pre base ?c2" using advanceD [OF a2] by blast
    have "cx_pos ctx \<le> cx_pos c0" using a0 by (simp add: advance_def)
    then have "3 * (length str - cx_pos ?c2) + 2 \<le> fuel" using pos(2) at_bound [OF at] f by linarith
    then have "fine_loop base ?c2 (loop fuel root None ?c2)" using l [unfolded total_loop_def, rule_format, OF p2 root, of None] by simp
    then obtain c3 where c3: "loop fuel root None ?c2 = Some c3" "advance base ?c2 c3" by (auto simp: fine_loop_def)
    let ?c4 = "close_with d str c3"
    have "advance base c3 ?c4" using close_advance advanceD [OF c3(2)] by blast
    then have a4: "advance base ?c2 ?c4" by (rule advance_trans [OF c3(2)])
    have ok: "fine base ctx (Some (Some root, c'\<lparr>cx_depth := dd\<rparr>))" if "advance base ?c2 c'" for c' dd
      using depth_advance [OF advance_trans [OF a2 that]] advanceD [OF that, of root] root pos(1) by (auto simp: fine_def live_def)
    show ?thesis using False at r c1 c3(1) ok [OF a4] ok [OF bump_advance [OF p2]] unfolding eq Let_def c0_def [symmetric] by simp
  qed
qed

lemma parser_total:
  assumes g: "growth_safe past str"
  shows "total_value am past strtod str base fuel \<and> total_container (json_parse_object am past strtod str) str base fuel \<and>
   total_container (json_parse_array am past strtod str) str base fuel \<and> total_loop (object_loop am past strtod str) str base fuel \<and>
   total_loop (array_loop am past strtod str) str base fuel"
proof (induction fuel)
  case 0
  then show ?case by (simp add: total_value_def total_container_def total_loop_def)
next
  case (Suc fuel)
  have "total_container (json_parse_object am past strtod str) str base (Suc fuel)"
    by (rule container_total [where loop = "object_loop am past strtod str" and am = am and ty = JSON_OBJECT]) (use Suc in simp, simp only: json_parse_object.simps)
  moreover have "total_container (json_parse_array am past strtod str) str base (Suc fuel)"
    by (rule container_total [where loop = "array_loop am past strtod str" and am = am and ty = JSON_ARRAY]) (use Suc in simp, simp only: json_parse_array.simps)
  ultimately show ?case using Suc by (simp add: value_total [OF g] object_loop_total [OF g] array_loop_total)
qed

text \<open>
  C13: Parsing ends without fault, whatever the text and whatever the allocator answers, if the growth of a string buffer is safe: the text has
  less than \<open>2 ^ 62\<close> bytes, and it has no escape, or is shorter than the first buffer of 64 bytes, or the four bytes behind a string buffer may
  always be read. The answer is NULL or a node of the resulting heap, and the nodes that existed before are unchanged.
\<close>

theorem json_parse_total:
  assumes ok: "heap_ok h" and g: "\<And>t. doc = Some t \<Longrightarrow> growth_safe past (cstr t)"
  shows "\<exists>r h'. json_parse am past strtod arena_ok doc h = Some (r, h') \<and> heap_ok h' \<and> same_on {..<hp_next h} h h' \<and>
    (\<forall>a. r = Some a \<longrightarrow> hp_next h \<le> a \<and> (\<exists>n. hp_map h' a = Some n \<and> jn_arena n \<and> jn_owns_arena n))"
proof -
  have same: "same_on {..<hp_next h} h h" by (simp add: same_on_def)
  show ?thesis
  proof (cases doc)
    case None
    then show ?thesis using ok same by (simp add: json_parse_def json_parse_with_alloc_def)
  next
    case (Some t)
    let ?str = "cstr t"
    let ?c = "json_skip_whitespace ?str (start_ctx h)"
    have p0: "pre (hp_next h) (start_ctx h)" using ok by (simp add: pre_def start_ctx_def)
    have a0: "advance (hp_next h) (start_ctx h) ?c" by (rule skip_advance [OF p0])
    have p: "pre (hp_next h) ?c" using advanceD [OF a0] by blast
    have "fine (hp_next h) ?c (json_parse_value am past strtod ?str (json_fuel ?str) ?c)"
      using parser_total [OF g [OF Some], of am strtod "hp_next h" "json_fuel ?str"] p by (simp add: total_value_def json_fuel_def)
    then obtain r c1 where c1: "json_parse_value am past strtod ?str (json_fuel ?str) ?c = Some (r, c1)" "advance (hp_next h) ?c c1"
      "\<And>a. r = Some a \<Longrightarrow> hp_next h \<le> a \<and> live c1 a" by (auto simp: fine_def)
    have a1: "advance (hp_next h) (start_ctx h) c1" by (rule advance_trans [OF a0 c1(2)])
    show ?thesis
    proof (cases "length ?str = 0 \<or> \<not> arena_ok \<or> length ?str \<le> cx_pos ?c \<or> r = None \<or> cx_exceeded c1")
      case True
      then have "json_parse am past strtod arena_ok doc h = Some (None, h)" using Some c1(1) by (cases r) (auto simp: json_parse_def json_parse_with_alloc_def Let_def)
      then show ?thesis using ok same by simp
    next
      case False
      then obtain a n where a: "r = Some a" "hp_map (cx_heap c1) a = Some n" "hp_next h \<le> a" using c1(3) by (auto simp: live_def)
      let ?h' = "(cx_heap c1)\<lparr>hp_map := (hp_map (cx_heap c1))(a \<mapsto> n\<lparr>jn_arena := True, jn_owns_arena := True\<rparr>)\<rparr>"
      have "json_parse am past strtod arena_ok doc h = Some (Some a, ?h')" using False Some c1(1) a
        by (simp add: json_parse_def json_parse_with_alloc_def Let_def heap_upd_def)
      moreover have "heap_ok ?h'" "same_on {..<hp_next h} h ?h'"
        using a1 a heap_bound [OF _ a(2)] by (auto simp: advance_def pre_def heap_ok_def same_on_def start_ctx_def)
      ultimately show ?thesis using a by auto
    qed
  qed
qed

theorem json_parse_total_witness:
  "\<exists>r h' :: bool json_node heap. json_parse (\<lambda>i. i < 2) (\<lambda>_. 0) (\<lambda>s. s = ''1'') True (Some ''{\"a\":[1,-0.5e+3,{}'') \<lparr>hp_next = 0, hp_map = \<lambda>_. None\<rparr> = Some (r, h')"
proof -
  have "growth_safe (\<lambda>_. 0) (cstr ''{\"a\":[1,-0.5e+3,{}'')" by (simp add: growth_safe_def cstr_def)
  then show ?thesis using json_parse_total [of "\<lparr>hp_next = 0, hp_map = \<lambda>_. None\<rparr>" "Some ''{\"a\":[1,-0.5e+3,{}''" "\<lambda>_. 0" "\<lambda>i. i < 2" "\<lambda>s. s = ''1''" True]
    by (auto simp: heap_ok_def)
qed

subsection \<open>The nesting cap\<close>

text \<open>The bracket that exceeds the cap is not consumed, so every array around it ends there.\<close>

lemma array_loop_exceeds:
  assumes v: "json_parse_value am past strtod str fuel ctx = Some (e, c1)" "advance base ctx c1" "\<And>a. e = Some a \<Longrightarrow> base \<le> a \<and> live c1 a"
    and x: "cx_exceeded c1" and d: "drop (cx_pos c1) str = CHR 0x5B # post" and r: "base \<le> root" "live ctx root"
  shows "\<exists>c'. array_loop am past strtod str (Suc fuel) root None ctx = Some c' \<and> cx_exceeded c' \<and> cx_pos c' = cx_pos c1 \<and> advance base ctx c'"
proof (cases e)
  case None
  then show ?thesis using v(1,2) x by simp
next
  case (Some a)
  note a = v(3) [OF Some]
  have "pre base c1" using v(2) by (simp add: advance_def)
  from set_advance [OF this, of a "\<lambda>n. n\<lparr>jn_next := None\<rparr>"] a obtain c2 where c2: "set_node a (\<lambda>n. n\<lparr>jn_next := None\<rparr>) c1 = Some c2"
    "advance base c1 c2" "cx_pos c2 = cx_pos c1" by blast
  have a2: "advance base ctx c2" by (rule advance_trans [OF v(2) c2(2)])
  have "\<exists>c3. append_child root None a c2 = Some c3 \<and> advance base c2 c3 \<and> cx_pos c3 = cx_pos c2"
    by (rule append_advance) (use a2 r advanceD [OF a2] in auto)
  then obtain c3 where c3: "append_child root None a c2 = Some c3" "advance base c2 c3" "cx_pos c3 = cx_pos c2" by blast
  have d3: "drop (cx_pos c3) str = CHR 0x5B # post" using d c2(3) c3(3) by simp
  have s: "json_skip_whitespace str c3 = c3" "\<not> at str (cx_pos c3) (CHR '','')" using skip_char [OF d3] at_drop [OF d3] by simp_all
  have "cx_exceeded c3" using advanceD [OF advance_trans [OF c2(2) c3(2)]] x by blast
  then show ?thesis using Some v(1) c2 c3 s advance_trans [OF a2 c3(2)] by (simp add: Let_def)
qed

lemma deep_exceeds:
  fixes strtod :: "string \<Rightarrow> 'd"
  assumes "drop (cx_pos ctx) str = replicate (Suc k) (CHR 0x5B) @ rest" "cx_depth ctx + k = COBALT_JSON_DOM_MAX_DEPTH" "pre base ctx" "3 * Suc k \<le> fuel"
  shows "\<exists>r c'. json_parse_value always past strtod str fuel ctx = Some (r, c') \<and> cx_exceeded c' \<and> cx_pos c' = cx_pos ctx + k \<and> advance base ctx c' \<and>
    (\<forall>a. r = Some a \<longrightarrow> base \<le> a \<and> live c' a)"
  using assms
proof (induction k arbitrary: ctx fuel)
  case 0
  then have d: "drop (cx_pos ctx) str = CHR 0x5B # rest" by simp
  obtain f where f: "fuel = Suc (Suc f)" using "0.prems"(4) by (cases fuel; cases "fuel - 1") auto
  have "advance base ctx (ctx\<lparr>cx_exceeded := True\<rparr>)" by (rule advance_heap [OF 0(3)]) simp_all
  then show ?case using skip_char [OF d] drop_nth [OF d] 0(2) unfolding f by (simp add: Let_def)
next
  case (Suc k)
  let ?a = "hp_next (cx_heap ctx)" and ?ctx = "ctx\<lparr>cx_depth := cx_depth ctx + 1\<rparr>"
  have d: "drop (cx_pos ctx) str = CHR 0x5B # (CHR 0x5B # replicate k (CHR 0x5B) @ rest)" using Suc.prems(1) by simp
  obtain f where f: "fuel = Suc (Suc (Suc f))" "3 * Suc k \<le> f" using Suc.prems(4) by (cases fuel; cases "fuel - 1"; cases "fuel - 2") auto
  have ok: "heap_ok (cx_heap ctx)" using Suc.prems(3) by (simp add: pre_def)
  from open_container [OF d ok refl, where dp = "cx_depth ctx + 1" and ty = JSON_ARRAY] obtain h c1 where
    o: "json_skip_whitespace str ?ctx = ?ctx" "at str (cx_pos ctx) (CHR 0x5B)" "json_node_create always JSON_ARRAY (bump ?ctx) = (Some ?a, c1)"
    "moves ?ctx (cx_pos ctx + 1) h c1" "drop (cx_pos c1) str = CHR 0x5B # replicate k (CHR 0x5B) @ rest" by auto
  have c1: "cx_depth c1 = cx_depth ctx + 1" "cx_pos c1 = cx_pos ctx + 1" using movesD [OF o(4)] by simp_all
  have s1: "json_skip_whitespace str c1 = c1" "\<not> at str (cx_pos c1) (CHR 0x5D)" using skip_char [OF o(5)] at_drop [OF o(5)] by simp_all
  have p0: "pre base ?ctx" using Suc.prems(3) by (simp add: pre_def)
  have ab: "advance base ctx (bump ?ctx)" by (rule advance_trans [OF depth_advance [OF advance_refl [OF Suc.prems(3)]] bump_advance [OF p0]])
  then have pb: "pre base (bump ?ctx)" by (simp add: advance_def)
  note ca = create_advance [OF pb o(3)]
  have a1: "advance base ctx c1" "base \<le> ?a" "live c1 ?a" using advance_trans [OF ab] ca by blast+
  then have p1: "pre base c1" by (simp add: advance_def)
  have "\<exists>r c'. json_parse_value always past strtod str f c1 = Some (r, c') \<and> cx_exceeded c' \<and> cx_pos c' = cx_pos c1 + k \<and> advance base c1 c' \<and>
    (\<forall>a. r = Some a \<longrightarrow> base \<le> a \<and> live c' a)"
    by (rule Suc.IH [OF _ _ p1 f(2)]) (use o(5) c1 Suc.prems(2) in simp_all)
  then obtain r c2 where c2: "json_parse_value always past strtod str f c1 = Some (r, c2)" "cx_exceeded c2" "cx_pos c2 = cx_pos ctx + Suc k" "advance base c1 c2"
    "\<And>a. r = Some a \<Longrightarrow> base \<le> a \<and> live c2 a" unfolding c1 by auto
  have "replicate (Suc (Suc k)) (CHR 0x5B) @ rest = replicate (Suc k) (CHR 0x5B) @ CHR 0x5B # rest" by (simp add: replicate_app_Cons_same)
  with Suc.prems(1) have "drop (cx_pos ctx) str = replicate (Suc k) (CHR 0x5B) @ CHR 0x5B # rest" by simp
  from drop_add [OF this] have d2: "drop (cx_pos c2) str = CHR 0x5B # rest" unfolding c2(3) by simp
  from array_loop_exceeds [OF c2(1,4,5,2) d2 a1(2,3)] obtain c3 where
    c3: "array_loop always past strtod str (Suc f) ?a None c1 = Some c3" "cx_exceeded c3" "cx_pos c3 = cx_pos c2" "advance base c1 c3" by blast
  have d3: "drop (cx_pos c3) str = CHR 0x5B # rest" using d2 c3(3) by simp
  have cl: "close_with (CHR 0x5D) str c3 = c3" using skip_char [OF d3] at_drop [OF d3] by (simp add: close_with_def)
  have "json_parse_value always past strtod str fuel ctx = json_parse_array always past strtod str (Suc (Suc f)) ctx"
    using skip_char [OF d] drop_nth [OF d] unfolding f(1) by (simp add: Let_def)
  also have "\<dots> = Some (Some ?a, c3\<lparr>cx_depth := cx_depth c3 - 1\<rparr>)" using o(1,2,3) s1 c3(1) cl Suc.prems(2) by (simp add: Let_def)
  finally have eq: "json_parse_value always past strtod str fuel ctx = Some (Some ?a, c3\<lparr>cx_depth := cx_depth c3 - 1\<rparr>)" .
  have "advance base ctx (c3\<lparr>cx_depth := cx_depth c3 - 1\<rparr>)" by (rule depth_advance [OF advance_trans [OF a1(1) c3(4)]])
  moreover have "live (c3\<lparr>cx_depth := cx_depth c3 - 1\<rparr>) ?a" using advanceD [OF c3(4), of ?a] a1(3) by (simp add: live_def)
  ultimately show ?case using eq c3(2,3) c2(3) a1(2) by simp
qed

text \<open>C38: A text that opens more than 128 arrays is refused, whatever follows, and nothing of it remains, when all allocations succeed.\<close>

theorem json_depth_limit:
  assumes "COBALT_JSON_DOM_MAX_DEPTH < n" "heap_ok h"
  shows "json_parse always past strtod True (Some (replicate n (CHR 0x5B) @ rest)) h = Some (None, h)"
proof -
  define str where "str = cstr (replicate n (CHR 0x5B) @ rest)"
  have "cstr (replicate n (CHR 0x5B) @ rest) = replicate n (CHR 0x5B) @ cstr rest" by (induction n) (simp_all add: cstr_def)
  also have "\<dots> = replicate (Suc 128) (CHR 0x5B) @ (replicate (n - 129) (CHR 0x5B) @ cstr rest)"
    using assms(1) by (simp add: replicate_add [symmetric] del: replicate.simps flip: append_assoc)
  finally have d: "drop (cx_pos (start_ctx h)) str = replicate (Suc 128) (CHR 0x5B) @ (replicate (n - 129) (CHR 0x5B) @ cstr rest)"
    by (simp add: str_def start_ctx_def)
  then have d1: "drop (cx_pos (start_ctx h)) str = CHR 0x5B # replicate 128 (CHR 0x5B) @ (replicate (n - 129) (CHR 0x5B) @ cstr rest)"
    by (simp only: replicate_Suc append_Cons)
  have s: "json_skip_whitespace str (start_ctx h) = start_ctx h" using skip_char [OF d1] by simp
  have "3 * Suc 128 \<le> json_fuel str" using arg_cong [OF d, of length] by (simp add: json_fuel_def)
  from deep_exceeds [OF d _ _ this, of "hp_next h" past strtod] assms(2) obtain r c' where "json_parse_value always past strtod str (json_fuel str) (start_ctx h) = Some (r, c')" "cx_exceeded c'"
    by (auto simp: start_ctx_def pre_def)
  then show ?thesis using s drop_nth [OF d1] unfolding json_parse_def json_parse_with_alloc_def option.case str_def [symmetric] Let_def
    by (cases r) (simp_all add: start_ctx_def)
qed

theorem json_depth_limit_witness:
  "json_parse always (\<lambda>_. 0) (\<lambda>s. s = ''1'') True (Some (replicate 129 (CHR 0x5B) @ ''1'')) \<lparr>hp_next = 0, hp_map = \<lambda>_. None\<rparr> = Some (None, \<lparr>hp_next = 0, hp_map = \<lambda>_. None\<rparr>)"
  by (rule json_depth_limit) (simp_all add: heap_ok_def)

subsection \<open>Three texts the module reads or writes wrongly\<close>

abbreviation no_nodes :: "bool json_node heap" where
  "no_nodes \<equiv> \<lparr>hp_next = 0, hp_map = \<lambda>_. None\<rparr>"

text \<open>An object that closes swallows the closing brace of the object around it: a later member moves into the inner object.\<close>

lemma object_swallows_brace:
  "(case json_parse always (\<lambda>_. 0) (\<lambda>s. s = ''1'') True (Some ''{\"x\":{\"a\":{\"b\":1}},\"c\":1}'') no_nodes of
      Some (root, h) \<Rightarrow> json_serialize always (\<lambda>b. if b then ''1'' else ''0'') h 50 root | None \<Rightarrow> None) =
   Some (Some ''{\"x\":{\"a\":{\"b\":1},\"c\":1}}'')"
  by code_simp

text \<open>An empty container is printed with the content of its sibling.\<close>

lemma empty_takes_sibling:
  "(case json_parse always (\<lambda>_. 0) (\<lambda>s. s = ''1'') True (Some ''[[],1]'') no_nodes of
      Some (root, h) \<Rightarrow> json_serialize always (\<lambda>b. if b then ''1'' else ''0'') h 50 root | None \<Rightarrow> None) = Some (Some ''[[1],1]'')"
  by code_simp

text \<open>
  A string that has filled its buffer and goes on with an escape: the buffer grows to twice the need, and half of that is copied from the old
  buffer, which is shorter. When nothing readable follows the old buffer, this is a fault.
\<close>

lemma json_string_overread:
  "json_parse always (\<lambda>_. 0) (\<lambda>s. s = ''1'') True (Some (CHR 0x22 # replicate 63 (CHR ''x'') @ [CHR 0x5C, CHR ''n'', CHR 0x22])) no_nodes = None"
  by code_simp

end
