(* ===== verification/Cobalt_JSON_Tree.thy ===== *)
theory Cobalt_JSON_Tree
  imports Cobalt_JSON_Total
begin

section \<open>JSON: the tree of any text\<close>

text \<open>
  Whatever the text, a tree the parser returns represents a document: the nodes of each container are chained as the queries expect.
  Looking up a name in such a tree therefore finds the first member of that name.
\<close>

subsection \<open>Every tree represents a document\<close>

text \<open>A failed value leaves the heap as it was; a value read is represented by the nodes from the next free address on.\<close>

definition built :: "'d json_ctx \<Rightarrow> (nat option \<times> 'd json_ctx) option \<Rightarrow> bool" where
  "built ctx res \<longleftrightarrow> (\<forall>r c. res = Some (r, c) \<longrightarrow>
     (case r of
        None \<Rightarrow> cx_heap c = cx_heap ctx
      | Some a \<Rightarrow> a = hp_next (cx_heap ctx) \<and> extends (cx_heap ctx) (cx_heap c) \<and>
          (\<exists>v. repr (cx_heap c) a (hp_next (cx_heap c)) v \<and> (empty_container v \<longrightarrow> next_is (cx_heap c) a None))))"

text \<open>A loop adds nothing to its container, or leaves it with a last element.\<close>

definition built_loop :: "('d json_node heap \<Rightarrow> nat \<Rightarrow> nat option \<Rightarrow> 'e list \<Rightarrow> bool) \<Rightarrow> nat \<Rightarrow> 'd json_ctx \<Rightarrow> 'd json_ctx option \<Rightarrow> bool" where
  "built_loop state root ctx res \<longleftrightarrow> (\<forall>c. res = Some c \<longrightarrow> cx_heap c = cx_heap ctx \<or>
     (\<exists>t ds. state (cx_heap c) root (Some t) ds \<and> same_on {..<root} (cx_heap ctx) (cx_heap c)))"

lemma built_heap: "cx_heap c = cx_heap ctx \<Longrightarrow> built c res \<longleftrightarrow> built ctx res"
  by (simp add: built_def cong: option.case_cong)

lemma skip_heap [simp]: "cx_heap (json_skip_whitespace str ctx) = cx_heap ctx"
  by (simp add: json_skip_whitespace_def)

lemma bump_heap [simp]: "cx_heap (bump ctx) = cx_heap ctx"
  by (simp add: bump_def)

lemma close_heap [simp]: "cx_heap (close_with c str ctx) = cx_heap ctx"
  by (simp add: close_with_def Let_def)

lemma ensure_room_heap: "ensure_room am past full cap nc ctx = Some (r, ctx') \<Longrightarrow> cx_heap ctx' = cx_heap ctx"
  by (auto simp: ensure_room_def jalloc_def split: if_splits)

lemma string_loop_heap: "string_loop am past str cap res ctx = Some (r, ctx') \<Longrightarrow> cx_heap ctx' = cx_heap ctx"
proof (induction am past str cap res ctx arbitrary: r ctx' rule: string_loop.induct)
  case (1 am past str cap res ctx)
  let ?pos = "cx_pos ctx"
  note eq = "1.prems" [unfolded string_loop.simps [of am past str cap res ctx] Let_def]
  show ?case
  proof (cases "?pos < length str \<and> str ! ?pos \<noteq> CHR 0x22")
    case False
    then show ?thesis using eq by (auto split: if_splits)
  next
    case loop: True
    show ?thesis
    proof (cases "str ! ?pos = CHR 0x5C")
      case plain: False
      obtain c c1 where e: "ensure_room am past (cap < szt (length res + 2)) cap (grow_plain cap) (ctx\<lparr>cx_pos := ?pos + 1\<rparr>) = Some (c, c1)"
        using eq loop plain by (auto split: option.splits prod.splits)
      show ?thesis
      proof (cases c)
        case None
        then show ?thesis using eq loop plain e ensure_room_heap [OF e] by auto
      next
        case (Some cap')
        have s: "\<not> cap' \<le> length res" "string_loop am past str cap' (res @ [str ! ?pos]) c1 = Some (r, ctx')"
          using eq loop plain e Some by (simp_all split: if_splits)
        from "1.IH"(2) [OF refl loop plain e refl Some s] ensure_room_heap [OF e] show ?thesis by simp
      qed
    next
      case esc: True
      show ?thesis
      proof (cases "length str \<le> ?pos + 1 \<or> json_escape str (?pos + 1) = None")
        case True
        then show ?thesis using eq loop esc by (auto split: if_splits)
      next
        case False
        then obtain w p where j: "\<not> length str \<le> ?pos + 1" "json_escape str (?pos + 1) = Some (w, p)" by auto
        obtain c c1 where e: "ensure_room am past (cap < szt (length res + length w + 1)) cap (grow_escape (length res) (length w)) (ctx\<lparr>cx_pos := p + 1\<rparr>) = Some (c, c1)"
          using eq loop esc j by (auto split: option.splits prod.splits)
        show ?thesis
        proof (cases c)
          case None
          then show ?thesis using eq loop esc j e ensure_room_heap [OF e] by auto
        next
          case (Some cap')
          have s: "\<not> cap' < length res + length w" "string_loop am past str cap' (res @ w) c1 = Some (r, ctx')"
            using eq loop esc j e Some by (simp_all split: if_splits)
          from "1.IH"(1) [OF refl loop esc j(1,2) refl e refl Some s] ensure_room_heap [OF e] show ?thesis by simp
        qed
      qed
    qed
  qed
qed

lemma parse_string_heap: "json_parse_string am past str ctx = Some (r, ctx') \<Longrightarrow> cx_heap ctx' = cx_heap ctx"
  by (auto simp: json_parse_string_def jalloc_def split: if_splits dest!: string_loop_heap)

lemma built_scalar:
  fixes ctx :: "'d json_ctx" and v :: "'d json"
  assumes ok: "heap_ok (cx_heap ctx)" and c1: "cx_heap c1 = cx_heap ctx"
    and f: "\<And>n. jn_type n = ty \<and> jn_number n = None \<and> jn_string n = None \<and> jn_child n = None \<Longrightarrow>
      jn_type (f n) = ty \<and> jn_number (f n) = d \<and> jn_string (f n) = s \<and> jn_child (f n) = None"
    and v: "\<And>h a. repr h a (Suc a) v \<longleftrightarrow> node_is h a ty d s None" "\<not> empty_container v"
  shows "built ctx (case json_node_create always ty c1 of (None, c2) \<Rightarrow> Some (None, c2) | (Some a, c2) \<Rightarrow> map_option (Pair (Some a)) (set_node a f c2))"
proof -
  let ?a = "hp_next (cx_heap ctx)"
  have "heap_ok (cx_heap c1)" "?a = hp_next (cx_heap c1)" using ok c1 by simp_all
  from create_set_ok [OF this, of ty f] obtain h n c2 c3 where c: "json_node_create always ty c1 = (Some ?a, c2)" "set_node ?a f c2 = Some c3"
    "moves c1 (cx_pos c1) h c3" "extends (cx_heap c1) h" "hp_next h = Suc ?a" "hp_map h ?a = Some (f n)"
    "jn_type n = ty" "jn_number n = None" "jn_string n = None" "jn_child n = None" by blast
  have "repr h ?a (Suc ?a) v" unfolding v(1) using f [of n] c(6-10) by (simp add: node_is_def)
  then show ?thesis using c(1,2,4,5) c1 movesD [OF c(3)] v(2) by (auto simp: built_def)
qed

lemma built_literal:
  fixes ctx :: "'d json_ctx" and v :: "'d json"
  assumes ok: "heap_ok (cx_heap ctx)" and c1: "cx_heap c1 = cx_heap ctx"
    and v: "\<And>h a. repr h a (Suc a) v \<longleftrightarrow> node_is h a ty None None None" "\<not> empty_container v"
  shows "built ctx (Some (json_node_create always ty c1))"
proof -
  have "heap_ok (cx_heap c1)" using ok c1 by simp
  from node_create_ok [OF this, of ty] c1 obtain h c where c: "json_node_create always ty c1 = (Some (hp_next (cx_heap ctx)), c)" "moves c1 (cx_pos c1) h c"
    "extends (cx_heap ctx) h" "hp_next h = Suc (hp_next (cx_heap ctx))" "node_is h (hp_next (cx_heap ctx)) ty None None None" by auto
  have "repr h (hp_next (cx_heap ctx)) (hp_next h) v" unfolding c(4) v(1) by (rule c(5))
  then show ?thesis using c(1,3) movesD [OF c(2)] v(2) by (auto simp: built_def)
qed

lemma literal_built:
  assumes ok: "heap_ok (cx_heap ctx)"
  shows "built ctx (parse_literal always str ctx)"
proof -
  have "built ctx (Some (json_node_create always JSON_TRUE (ctx\<lparr>cx_pos := p\<rparr>)))"
    and "built ctx (Some (json_node_create always JSON_FALSE (ctx\<lparr>cx_pos := p\<rparr>)))"
    and "built ctx (Some (json_node_create always JSON_NULL (ctx\<lparr>cx_pos := p\<rparr>)))" for p
    by (rule built_literal [OF ok, where v = JTrue] built_literal [OF ok, where v = JFalse] built_literal [OF ok, where v = JNull]; simp add: empty_container_def)+
  moreover have "built ctx (Some (None, ctx))" by (simp add: built_def)
  ultimately show ?thesis by (simp only: parse_literal_def Let_def split: if_split) blast
qed

lemma number_built:
  assumes ok: "heap_ok (cx_heap ctx)"
  shows "built ctx (parse_number_value always strtod str ctx)"
  unfolding parse_number_value_def Let_def jalloc_def prod.case not_True_eq_False if_False
  by (rule built_scalar [OF ok, where v = "JNum (strtod x)" and d = "Some (strtod x)" and s = None for x]) (simp_all add: empty_container_def)

lemma string_built:
  assumes ok: "heap_ok (cx_heap ctx)"
  shows "built ctx (parse_string_value always past str ctx)"
proof (cases "json_parse_string always past str ctx")
  case None
  then show ?thesis by (simp add: parse_string_value_def built_def)
next
  case (Some rc)
  obtain r c where rc: "rc = (r, c)" by (cases rc)
  have h: "cx_heap c = cx_heap ctx" using parse_string_heap Some rc by blast
  show ?thesis
  proof (cases r)
    case None
    then show ?thesis using Some rc h by (simp add: parse_string_value_def built_def)
  next
    case (Some s)
    have "built ctx (case json_node_create always JSON_STRING c of (None, c2) \<Rightarrow> Some (None, c2)
      | (Some a, c2) \<Rightarrow> map_option (Pair (Some a)) (set_node a (\<lambda>n. n\<lparr>jn_string := Some s\<rparr>) c2))"
      by (rule built_scalar [OF ok h, where v = "JStr s" and d = None and s = "Some s"]) (simp_all add: empty_container_def)
    then show ?thesis using Some rc \<open>json_parse_string always past str ctx = Some rc\<close> by (simp add: parse_string_value_def)
  qed
qed

lemma built_value:
  fixes strtod :: "string \<Rightarrow> 'd"
  assumes ok: "heap_ok (cx_heap ctx)" and ob: "\<And>ctx :: 'd json_ctx. heap_ok (cx_heap ctx) \<Longrightarrow> built ctx (json_parse_object always past strtod str fuel ctx)"
    and ar: "\<And>ctx :: 'd json_ctx. heap_ok (cx_heap ctx) \<Longrightarrow> built ctx (json_parse_array always past strtod str fuel ctx)"
  shows "built ctx (json_parse_value always past strtod str (Suc fuel) ctx)"
proof -
  let ?c = "json_skip_whitespace str ctx"
  have ok': "heap_ok (cx_heap ?c)" using ok by simp
  have no: "built ?c (Some (None, ?c))" by (simp add: built_def)
  have "built ?c (json_parse_value always past strtod str (Suc fuel) ctx)"
    unfolding json_parse_value.simps Let_def
    by (intro if_split [where P = "built ?c", THEN iffD2] conjI impI no ob [OF ok'] ar [OF ok'] string_built [OF ok'] number_built [OF ok'] literal_built [OF ok'])
  then show ?thesis using built_heap [of ?c ctx] by simp
qed

lemma built_loop_trans:
  assumes "state h root (Some e) ds" "same_on {..<root} (cx_heap ctx) h" "cx_heap c1 = h" "built_loop state root c1 (Some c)"
  shows "\<exists>t ds. state (cx_heap c) root (Some t) ds \<and> same_on {..<root} (cx_heap ctx) (cx_heap c)"
proof (cases "cx_heap c = h")
  case True
  then show ?thesis using assms(1,2) by blast
next
  case False
  then obtain t ds where "state (cx_heap c) root (Some t) ds" "same_on {..<root} h (cx_heap c)" using assms(3,4) by (auto simp: built_loop_def)
  then show ?thesis using assms(2) by (auto simp: same_on_def)
qed

lemma built_array_loop:
  assumes v: "\<And>ctx. heap_ok (cx_heap ctx) \<Longrightarrow> built ctx (json_parse_value always past strtod str fuel ctx)"
    and l: "\<And>ctx tail ds. arr_state (cx_heap ctx) root tail ds \<Longrightarrow> built_loop arr_state root ctx (array_loop always past strtod str fuel root tail ctx)"
    and st: "arr_state (cx_heap ctx) root tail ds"
  shows "built_loop arr_state root ctx (array_loop always past strtod str (Suc fuel) root tail ctx)"
  unfolding built_loop_def
proof (intro allI impI)
  fix c assume c: "array_loop always past strtod str (Suc fuel) root tail ctx = Some c"
  have ok: "heap_ok (cx_heap ctx)" using st by (simp add: arr_state_def)
  from c obtain r c1 where c1: "json_parse_value always past strtod str fuel ctx = Some (r, c1)"
    by (cases "json_parse_value always past strtod str fuel ctx") auto
  note b = v [OF ok, unfolded built_def, rule_format, OF c1]
  show "cx_heap c = cx_heap ctx \<or> (\<exists>t ds. arr_state (cx_heap c) root (Some t) ds \<and> same_on {..<root} (cx_heap ctx) (cx_heap c))"
  proof (cases r)
    case None
    then show ?thesis using b c c1 by simp
  next
    case (Some e)
    from b Some obtain w where w: "e = hp_next (cx_heap ctx)" "extends (cx_heap ctx) (cx_heap c1)" "repr (cx_heap c1) e (hp_next (cx_heap c1)) w" by auto
    from array_link [OF st w(2,3,1)] obtain h c2 c3 where c3: "set_node e (\<lambda>n. n\<lparr>jn_next := None\<rparr>) c1 = Some c2" "append_child root tail e c2 = Some c3"
      "moves c1 (cx_pos c1) h c3" "arr_state h root (Some e) (ds @ [w])" "same_on {..<root} (cx_heap ctx) h" by blast
    let ?c = "json_skip_whitespace str c3"
    have h: "cx_heap (bump ?c) = h" "cx_heap ?c = h" using movesD [OF c3(3)] by simp_all
    from c c1 Some c3(1,2) have eq: "(if at str (cx_pos ?c) (CHR '','') then array_loop always past strtod str fuel root (Some e) (bump ?c) else Some ?c) = Some c"
      by (simp add: Let_def)
    have "built_loop arr_state root (bump ?c) (Some c)"
    proof (cases "at str (cx_pos ?c) (CHR '','')")
      case True
      then show ?thesis using eq l [of "bump ?c" "Some e" "ds @ [w]"] c3(4) h by simp
    next
      case False
      then show ?thesis using eq h by (auto simp: built_loop_def)
    qed
    from built_loop_trans [of arr_state, OF c3(4,5) h(1) this] show ?thesis by blast
  qed
qed

lemma built_object_loop:
  assumes v: "\<And>ctx. heap_ok (cx_heap ctx) \<Longrightarrow> built ctx (json_parse_value always past strtod str fuel ctx)"
    and l: "\<And>ctx tail ms. obj_state (cx_heap ctx) root tail ms \<Longrightarrow> built_loop obj_state root ctx (object_loop always past strtod str fuel root tail ctx)"
    and st: "obj_state (cx_heap ctx) root tail ms"
  shows "built_loop obj_state root ctx (object_loop always past strtod str (Suc fuel) root tail ctx)"
  unfolding built_loop_def
proof (intro allI impI)
  fix c assume c: "object_loop always past strtod str (Suc fuel) root tail ctx = Some c"
  let ?goal = "cx_heap c = cx_heap ctx \<or> (\<exists>t ms. obj_state (cx_heap c) root (Some t) ms \<and> same_on {..<root} (cx_heap ctx) (cx_heap c))"
  let ?c0 = "json_skip_whitespace str ctx"
  show ?goal
  proof (cases "at str (cx_pos ?c0) (CHR 0x22)")
    case False
    then show ?thesis using c by auto
  next
    case q: True
    from c q obtain k c1 where c1: "json_parse_string always past str ?c0 = Some (k, c1)" by (cases "json_parse_string always past str ?c0") (auto simp: Let_def)
    have h1: "cx_heap c1 = cx_heap ctx" using parse_string_heap [OF c1] by simp
    let ?c2 = "json_skip_whitespace str c1"
    show ?thesis
    proof (cases "k \<noteq> None \<and> at str (cx_pos ?c2) (CHR '':'')")
      case False
      then show ?thesis using c q c1 h1 by (cases k) (auto simp: Let_def)
    next
      case True
      then obtain key where k: "k = Some key" by auto
      have col: "at str (cx_pos ?c2) (CHR '':'')" using True by simp
      have h2: "cx_heap (bump ?c2) = cx_heap ctx" using h1 by simp
      have ok: "heap_ok (cx_heap (bump ?c2))" using st h2 by (simp add: obj_state_def)
      from c q c1 k col obtain e c4 where c4: "json_parse_value always past strtod str fuel (bump ?c2) = Some (e, c4)"
        by (cases "json_parse_value always past strtod str fuel (bump ?c2)") (auto simp: Let_def)
      note b = v [OF ok, unfolded built_def h2, rule_format, OF c4]
      show ?thesis
      proof (cases e)
        case None
        then show ?thesis using b c q c1 k col c4 by (simp add: Let_def)
      next
        case (Some mid)
        from b Some obtain w where w: "mid = hp_next (cx_heap ctx)" "extends (cx_heap ctx) (cx_heap c4)" "repr (cx_heap c4) mid (hp_next (cx_heap c4)) w"
          "empty_container w \<longrightarrow> next_is (cx_heap c4) mid None" by auto
        from object_link [OF st w(2,1) refl w(3,4), of key] obtain h a c5 c6 c7 where c7: "json_node_create always JSON_OBJECT c4 = (Some a, c5)"
          "set_node a (\<lambda>n. n\<lparr>jn_key := Some key, jn_child := Some mid, jn_next := None\<rparr>) c5 = Some c6" "append_child root tail a c6 = Some c7"
          "moves c4 (cx_pos c4) h c7" "obj_state h root (Some a) (ms @ [Member key w])" "same_on {..<root} (cx_heap ctx) h" by blast
        let ?c = "json_skip_whitespace str c7"
        have h: "cx_heap (bump ?c) = h" "cx_heap ?c = h" using movesD [OF c7(4)] by simp_all
        from c q c1 k col c4 Some c7(1-3) have eq: "(if at str (cx_pos ?c) (CHR '','') then object_loop always past strtod str fuel root (Some a) (bump ?c)
          else if at str (cx_pos ?c) (CHR 0x7D) then Some (bump ?c) else Some ?c) = Some c" by (simp add: Let_def)
        have "built_loop obj_state root (bump ?c) (Some c)"
        proof (cases "at str (cx_pos ?c) (CHR '','')")
          case True
          then show ?thesis using eq l [of "bump ?c" "Some a" "ms @ [Member key w]"] c7(5) h by simp
        next
          case False
          then have "c = bump ?c \<or> c = ?c" using eq by (auto split: if_splits)
          then show ?thesis using h by (auto simp: built_loop_def)
        qed
        from built_loop_trans [of obj_state, OF c7(5,6) h(1) this] show ?thesis by blast
      qed
    qed
  qed
qed

text \<open>Both containers open in the same way, with their own state and constructor.\<close>

lemma built_container:
  fixes con :: "'e list \<Rightarrow> 'd json"
  assumes l: "\<And>ctx root tail ds. state (cx_heap ctx) root tail ds \<Longrightarrow> built_loop state root ctx (loop fuel root tail ctx)"
    and new: "\<And>h a. heap_ok h \<Longrightarrow> node_is h a ty None None None \<Longrightarrow> hp_next h = Suc a \<Longrightarrow> state h a None [] \<and> repr h a (Suc a) (con [])"
    and full: "\<And>h a t ds. state h a (Some t) ds \<Longrightarrow> heap_ok h \<and> repr h a (hp_next h) (con ds) \<and> \<not> empty_container (con ds)"
    and ok: "heap_ok (cx_heap ctx)"
    and eq: "parse =
     (if COBALT_JSON_DOM_MAX_DEPTH \<le> cx_depth ctx then Some (None, ctx\<lparr>cx_exceeded := True\<rparr>)
      else
        let ctx = json_skip_whitespace str (ctx\<lparr>cx_depth := cx_depth ctx + 1\<rparr>) in
        if \<not> at str (cx_pos ctx) c then Some (None, ctx)
        else
          case json_node_create always ty (bump ctx) of
            (None, ctx) \<Rightarrow> Some (None, ctx\<lparr>cx_depth := cx_depth ctx - 1\<rparr>)
          | (Some root, ctx) \<Rightarrow>
              let ctx = json_skip_whitespace str ctx in
              if at str (cx_pos ctx) d then Some (Some root, (bump ctx)\<lparr>cx_depth := cx_depth ctx - 1\<rparr>)
              else
                case loop fuel root None ctx of
                  None \<Rightarrow> None
                | Some ctx \<Rightarrow>
                    let ctx = close_with d str ctx in
                    Some (Some root, ctx\<lparr>cx_depth := cx_depth ctx - 1\<rparr>))"
  shows "built ctx parse"
proof (cases "COBALT_JSON_DOM_MAX_DEPTH \<le> cx_depth ctx \<or> \<not> at str (cx_pos (json_skip_whitespace str (ctx\<lparr>cx_depth := cx_depth ctx + 1\<rparr>))) c")
  case True
  then show ?thesis unfolding eq by (auto simp: built_def Let_def)
next
  case False
  let ?c0 = "json_skip_whitespace str (ctx\<lparr>cx_depth := cx_depth ctx + 1\<rparr>)" and ?a = "hp_next (cx_heap ctx)"
  have "heap_ok (cx_heap (bump ?c0))" using ok by simp
  from node_create_ok [OF this, of ty] obtain h c1 where c1: "json_node_create always ty (bump ?c0) = (Some ?a, c1)" "moves (bump ?c0) (cx_pos (bump ?c0)) h c1"
    "extends (cx_heap ctx) h" "hp_next h = Suc ?a" "node_is h ?a ty None None None" "next_is h ?a None" by auto
  let ?c2 = "json_skip_whitespace str c1"
  have h: "cx_heap c1 = h" "cx_heap ?c2 = h" using movesD [OF c1(2)] by simp_all
  have "heap_ok h" using c1(3) by (simp add: extends_def)
  from new [OF this c1(5,4)] have n: "state h ?a None []" "repr h ?a (Suc ?a) (con [])" by simp_all
  have fin: "a = ?a \<and> extends (cx_heap ctx) h' \<and> (\<exists>v. repr h' a (hp_next h') v \<and> (empty_container v \<longrightarrow> next_is h' a None))"
    if "h' = h \<or> (\<exists>t ds. state h' ?a (Some t) ds \<and> same_on {..<?a} h h')" "a = ?a" for h' a
  proof (cases "h' = h")
    case True
    then show ?thesis using c1(3,4,6) n(2) that(2) by auto
  next
    case False
    with that(1) obtain t ds where s: "state h' ?a (Some t) ds" "same_on {..<?a} h h'" by blast
    note f = full [OF s(1)]
    have "extends (cx_heap ctx) h'" using c1(3) s(2) f repr_lt [of h' ?a "hp_next h'" "con ds"] by (auto simp: extends_def same_on_def)
    then show ?thesis using f that(2) by blast
  qed
  show ?thesis
  proof (cases "at str (cx_pos ?c2) d")
    case True
    then have "parse = Some (Some ?a, (bump ?c2)\<lparr>cx_depth := cx_depth ?c2 - 1\<rparr>)" unfolding eq using False c1(1) by (simp add: Let_def)
    then show ?thesis using fin [of h ?a] h by (simp add: built_def)
  next
    case nd: False
    have bl: "built_loop state ?a ?c2 (loop fuel ?a None ?c2)" by (rule l) (use n(1) h in simp)
    have "built ctx (case loop fuel ?a None ?c2 of None \<Rightarrow> None
      | Some ctx \<Rightarrow> Some (Some ?a, (close_with d str ctx)\<lparr>cx_depth := cx_depth (close_with d str ctx) - 1\<rparr>))"
    proof (cases "loop fuel ?a None ?c2")
      case (Some c3)
      have "cx_heap c3 = h \<or> (\<exists>t ds. state (cx_heap c3) ?a (Some t) ds \<and> same_on {..<?a} h (cx_heap c3))"
        using bl [unfolded built_loop_def, rule_format, OF Some] unfolding h .
      from fin [OF this refl] show ?thesis using Some by (simp add: built_def)
    qed (simp add: built_def)
    then show ?thesis unfolding eq using False c1(1) nd by (simp add: Let_def cong: option.case_cong)
  qed
qed

lemma obj_state_full: "obj_state h a (Some t) ms \<Longrightarrow> heap_ok h \<and> repr h a (hp_next h) (JObj ms) \<and> \<not> empty_container (JObj ms)"
proof -
  assume s: "obj_state h a (Some t) ms"
  then have "heap_ok h" "ms \<noteq> []" by (auto simp: obj_state_def)
  then show ?thesis using obj_state_done [OF s] by (simp add: empty_container_def)
qed

lemma arr_state_full: "arr_state h a (Some t) ds \<Longrightarrow> heap_ok h \<and> repr h a (hp_next h) (JArr ds) \<and> \<not> empty_container (JArr ds)"
proof -
  assume s: "arr_state h a (Some t) ds"
  then have "heap_ok h" "ds \<noteq> []" by (auto simp: arr_state_def)
  then show ?thesis using arr_state_done [OF s] by (simp add: empty_container_def)
qed

lemma obj_state_new: "heap_ok h \<Longrightarrow> node_is h a JSON_OBJECT None None None \<Longrightarrow> hp_next h = Suc a \<Longrightarrow> obj_state h a None [] \<and> repr h a (Suc a) (JObj [])"
  by (simp add: obj_state_def)

lemma arr_state_new: "heap_ok h \<Longrightarrow> node_is h a JSON_ARRAY None None None \<Longrightarrow> hp_next h = Suc a \<Longrightarrow> arr_state h a None [] \<and> repr h a (Suc a) (JArr [])"
  by (simp add: arr_state_def)

lemma parser_builds:
  fixes strtod :: "string \<Rightarrow> 'd"
  shows "(\<forall>ctx :: 'd json_ctx. heap_ok (cx_heap ctx) \<longrightarrow> built ctx (json_parse_value always past strtod str fuel ctx)) \<and>
   (\<forall>ctx :: 'd json_ctx. heap_ok (cx_heap ctx) \<longrightarrow> built ctx (json_parse_object always past strtod str fuel ctx)) \<and>
   (\<forall>ctx :: 'd json_ctx. heap_ok (cx_heap ctx) \<longrightarrow> built ctx (json_parse_array always past strtod str fuel ctx)) \<and>
   (\<forall>(ctx :: 'd json_ctx) root tail ms. obj_state (cx_heap ctx) root tail ms \<longrightarrow> built_loop obj_state root ctx (object_loop always past strtod str fuel root tail ctx)) \<and>
   (\<forall>(ctx :: 'd json_ctx) root tail ds. arr_state (cx_heap ctx) root tail ds \<longrightarrow> built_loop arr_state root ctx (array_loop always past strtod str fuel root tail ctx))"
proof (induction fuel)
  case 0
  show ?case by (simp add: built_def built_loop_def)
next
  case (Suc fuel)
  have v: "heap_ok (cx_heap ctx) \<Longrightarrow> built ctx (json_parse_value always past strtod str fuel ctx)" for ctx :: "'d json_ctx" using Suc by blast
  have ol: "obj_state (cx_heap ctx) root tail ms \<Longrightarrow> built_loop obj_state root ctx (object_loop always past strtod str fuel root tail ctx)"
    for ctx :: "'d json_ctx" and root tail ms using Suc by blast
  have al: "arr_state (cx_heap ctx) root tail ds \<Longrightarrow> built_loop arr_state root ctx (array_loop always past strtod str fuel root tail ctx)"
    for ctx :: "'d json_ctx" and root tail ds using Suc by blast
  have "built ctx (json_parse_value always past strtod str (Suc fuel) ctx)" if "heap_ok (cx_heap ctx)" for ctx :: "'d json_ctx"
    by (rule built_value [OF that]) (use Suc in blast)+
  moreover have "built ctx (json_parse_object always past strtod str (Suc fuel) ctx)" if "heap_ok (cx_heap ctx)" for ctx :: "'d json_ctx"
    by (rule built_container [where state = obj_state and con = JObj and loop = "object_loop always past strtod str", OF _ _ _ that json_parse_object.simps(2)])
      (erule ol | erule obj_state_full | erule (2) obj_state_new)+
  moreover have "built ctx (json_parse_array always past strtod str (Suc fuel) ctx)" if "heap_ok (cx_heap ctx)" for ctx :: "'d json_ctx"
    by (rule built_container [where state = arr_state and con = JArr and loop = "array_loop always past strtod str", OF _ _ _ that json_parse_array.simps(2)])
      (erule al | erule arr_state_full | erule (2) arr_state_new)+
  moreover have "built_loop obj_state root ctx (object_loop always past strtod str (Suc fuel) root tail ctx)"
    if "obj_state (cx_heap ctx) root tail ms" for ctx :: "'d json_ctx" and root tail ms
    by (rule built_object_loop [OF _ _ that]) (erule v | erule ol)+
  moreover have "built_loop arr_state root ctx (array_loop always past strtod str (Suc fuel) root tail ctx)"
    if "arr_state (cx_heap ctx) root tail ds" for ctx :: "'d json_ctx" and root tail ds
    by (rule built_array_loop [OF _ _ that]) (erule v | erule al)+
  ultimately show ?case by blast
qed

lemma parse_represents:
  assumes p: "json_parse always past strtod True (Some t) h = Some (Some root, h')" and ok: "heap_ok h"
  shows "\<exists>v. repr h' root (hp_next h') v \<and> (empty_container v \<longrightarrow> next_is h' root None)"
proof -
  let ?str = "cstr t" and ?c = "json_skip_whitespace (cstr t) (start_ctx h)"
  from p obtain c1 where c1: "json_parse_value always past strtod ?str (json_fuel ?str) ?c = Some (Some root, c1)"
    and u: "heap_upd root (\<lambda>n. n\<lparr>jn_arena := True, jn_owns_arena := True\<rparr>) (cx_heap c1) = Some h'"
    by (auto simp: json_parse_def json_parse_with_alloc_def Let_def split: if_splits option.splits)
  have "heap_ok (cx_heap ?c)" using ok by (simp add: start_ctx_def)
  with parser_builds have "built ?c (json_parse_value always past strtod ?str (json_fuel ?str) ?c)" by blast
  with c1 obtain v where v: "repr (cx_heap c1) root (hp_next (cx_heap c1)) v" "empty_container v \<longrightarrow> next_is (cx_heap c1) root None" by (auto simp: built_def)
  from repr_node [OF v(1)] obtain n where n: "hp_map (cx_heap c1) root = Some n" by blast
  with u have "hp_map h' = (hp_map (cx_heap c1))(root \<mapsto> n\<lparr>jn_arena := True, jn_owns_arena := True\<rparr>)" "hp_next h' = hp_next (cx_heap c1)"
    by (auto simp: heap_upd_def)
  then show ?thesis using repr_arena [OF v n] by metis
qed

subsection \<open>Members by name\<close>

fun member_key :: "'d member \<Rightarrow> string" where
  "member_key (Member k v) = k"

text \<open>The value of the first member of that name; names are compared as C strings.\<close>

fun jlookup :: "string \<Rightarrow> 'd json \<Rightarrow> 'd json option" where
  "jlookup key (JObj ms) = map_option member_value (find (\<lambda>m. cstr (member_key m) = cstr key) ms)"
| "jlookup key _ = None"

text \<open>The node the lookup returns stands for the value, and NULL for none.\<close>

definition leads_to :: "'d json_node heap \<Rightarrow> nat option option \<Rightarrow> 'd json option \<Rightarrow> bool" where
  "leads_to h res w \<longleftrightarrow> (case w of None \<Rightarrow> res = Some None | Some v \<Rightarrow> \<exists>a hi. res = Some (Some a) \<and> repr h a hi v)"

lemma find_linked_member:
  assumes "repr_members h lo hi p None ms"
  shows "leads_to h (find_linked h key p) (jlookup key (JObj ms))"
  using assms
proof (induction ms arbitrary: lo p)
  case Nil
  then show ?case by (simp add: find_linked.simps leads_to_def)
next
  case (Cons m ms)
  obtain k v where m: "m = Member k v" by (cases m)
  from Cons.prems obtain a p' where a: "p = Some a" "repr h lo a v" "member_is h a k lo" "next_is h a p'" "repr_members h (Suc a) hi p' None ms" unfolding m by auto
  from a(3,4) obtain n where n: "hp_map h a = Some n" "jn_key n = Some k" "jn_child n = Some lo" "jn_next n = p'" by (auto simp: member_is_def next_is_def)
  have "find_linked h key p = (if cstr k = cstr key then Some (Some lo) else find_linked h key p')"
    unfolding a(1) using n by (subst find_linked.simps) (simp add: heap_read_def key_matches_def)
  then show ?case using Cons.IH [OF a(5)] a(2) m by (auto simp: leads_to_def)
qed

lemma get_child_repr:
  assumes r: "repr h lo hi v" "empty_container v \<longrightarrow> next_is h lo None"
  shows "leads_to h (json_tree_get_child h (Some lo) (Some key)) (jlookup key v)"
proof (cases v)
  case (JObj ms)
  with r(1) obtain p n where n: "hp_map h lo = Some n" "jn_type n = JSON_OBJECT" "jn_child n = p" "repr_members h (Suc lo) hi p None ms" by (auto simp: node_is_def)
  show ?thesis
  proof (cases p)
    case None
    then have e: "ms = []" using n(4) by (cases ms; cases "hd ms") auto
    then have "jn_next n = None" using r(2) n(1) JObj by (simp add: empty_container_def next_is_def)
    then show ?thesis using n None e JObj by (simp add: json_tree_get_child_def heap_read_def find_alternating.simps leads_to_def)
  next
    case (Some a)
    then have "json_tree_get_child h (Some lo) (Some key) = find_linked h key p" using n by (simp add: json_tree_get_child_def heap_read_def)
    then show ?thesis using find_linked_member [OF n(4), of key] JObj by simp
  qed
qed (use r(1) in \<open>auto simp: json_tree_get_child_def heap_read_def node_is_def leads_to_def\<close>)

text \<open>
  C37: Whatever the text, when the parser returns a tree and was granted its allocations, the tree represents a document, and looking up a name at its root leads to the
  value of the first member of that name if the root is an object with such a member, and to NULL otherwise.
\<close>

theorem json_lookup:
  assumes "json_parse always past strtod True (Some t) h = Some (Some root, h')" "heap_ok h"
  shows "\<exists>v. repr h' root (hp_next h') v \<and> (\<forall>key. leads_to h' (json_tree_get_child h' (Some root) (Some key)) (jlookup key v))"
proof -
  from parse_represents [OF assms] obtain v where v: "repr h' root (hp_next h') v" "empty_container v \<longrightarrow> next_is h' root None" by blast
  then show ?thesis using get_child_repr [OF v] by blast
qed

theorem json_lookup_witness:
  "\<exists>root h' v. json_parse always (\<lambda>_. 0) (\<lambda>s. s = ''1'') True (Some ''{ \"a\" : {}, \"b\":1,\"b\":true '') no_nodes = Some (Some root, h') \<and>
    repr h' root (hp_next h') v \<and> leads_to h' (json_tree_get_child h' (Some root) (Some ''b'')) (jlookup ''b'' v)"
proof -
  let ?p = "json_parse always (\<lambda>_. 0) (\<lambda>s. s = ''1'') True (Some ''{ \"a\" : {}, \"b\":1,\"b\":true '') no_nodes"
  have "(case ?p of Some (Some a, h) \<Rightarrow> True | _ \<Rightarrow> False)" by code_simp
  then obtain root h' where p: "?p = Some (Some root, h')" by (auto split: option.splits)
  have "heap_ok no_nodes" by (simp add: heap_ok_def)
  from json_lookup [OF p this] show ?thesis using p by blast
qed

end
