(* ===== verification/Spec2Isabelle.thy ===== *)
theory Spec2Isabelle
  imports Cobalt_HashMap_Spec Cobalt_Set Cobalt_Vector Cobalt_Deque Cobalt_List Cobalt_Stack_Queue
    Cobalt_Functional Cobalt_Sort_Spec Cobalt_Buffer Cobalt_Arena Cobalt_Pool Cobalt_LFQueue Cobalt_SHM_Ring
    Cobalt_TaskGraph Cobalt_JSON_Tree
begin

section \<open>A verification development of the Cobalt library\<close>

text \<open>
  Cobalt is a C library of containers, algorithms, allocators and modules (\<open>src/src\<close>, \<open>src/include\<close>). This development models a
  large part of it as HOL functions over explicit states and proves the models correct. It is a shallow embedding: one definition per C
  function or loop, with the name of the C function wherever possible, translated from the code with its guards, its
  early returns and its error codes.

  \<^bold>\<open>Conventions.\<close> \<open>size_t\<close> is \<open>nat\<close> with the wrap-around written out (\<open>szt\<close>, \<open>szt_sub\<close>, \<open>szt_dec\<close>), hashes are \<open>32 word\<close>, pointers are
  \<open>option\<close> values with \<open>None\<close> for NULL. The answers of the allocator, of system calls and of the thread pool are arguments, so theorems
  that do not fix them hold for every answer. Callbacks (hash, equality, comparison, predicates) are parameters; what the code relies
  on is stated as a hypothesis or as the assumptions of a locale. An outer \<open>option\<close> whose value is \<open>None\<close> stands for a memory fault
  (a read or write outside a block, a dangling node) or for a loop that does not end; the theorems show that it does not
  occur, under the conditions they state. Loops that may not end are \<open>partial_function (option)\<close>, all others are total functions with a termination proof.

  \<^bold>\<open>Foundations.\<close>
  \<^item> \<open>Cobalt_Prelude\<close>: size arithmetic, index masks and generic lemmas.
  \<^item> \<open>Cobalt_Runtime\<close>: \<open>runtime/error.c\<close>, \<open>runtime/error_stack.c\<close> (error codes, the bounded stack of error frames).
  \<^item> \<open>Cobalt_Heap\<close>: heaps of nodes, blocks of cells with checked accesses, \<open>ALIGN_UP\<close>.
  \<^item> \<open>Cobalt_Order\<close>: comparators as a locale; \<open>Cobalt_Sequence\<close>, \<open>Cobalt_Map\<close>: the interfaces \<open>interface/sequence.c\<close>, \<open>interface/iterator.c\<close>,
    \<open>interface/map.c\<close> and the locales of their laws, interpreted on every container that implements them.

  \<^bold>\<open>Containers.\<close>
  \<^item> \<open>Cobalt_HashMap\<close>, \<open>Cobalt_RobinHood\<close>, \<open>Cobalt_HashMap_Spec\<close>: \<open>container/hashmap.c\<close>. Robin Hood probing with backward shift and growth; every
    program on a new map behaves as a finite map, the iterator visits each binding once.
  \<^item> \<open>Cobalt_Set\<close> (\<open>container/set.c\<close>) over the hash map.
  \<^item> \<open>Cobalt_Vector\<close>, \<open>Cobalt_DList\<close>, \<open>Cobalt_Deque\<close>, \<open>Cobalt_List\<close>, \<open>Cobalt_Stack_Queue\<close>, \<open>Cobalt_Array\<close>: the vector, deque, list (with its merge sort), stack
    and queue; operations refine operations on HOL lists, and no node is leaked or freed twice.
  \<^item> \<open>Cobalt_Buffer\<close> (\<open>container/buffer.c\<close>): a byte queue through every compaction and growth.
  \<^item> \<open>Cobalt_MPMC\<close>, \<open>Cobalt_LFQueue\<close> (\<open>container/lfqueue.c\<close>) and \<open>Cobalt_SHM_Ring\<close> (\<open>container/shm_ring.c\<close>): bounded queues whose calls are sequences of atomic
    steps, in every interleaving of any number of threads or processes; the locale \<open>vyukov_queue\<close> holds the shared argument and
    is interpreted for both queues. The frame ring stores its headers as bytes in the buffer itself.

  \<^bold>\<open>Memory.\<close> \<open>Cobalt_Arena\<close> (\<open>memory/arena.c\<close>): regions handed out are aligned, inside their chunk and disjoint. \<open>Cobalt_Pool\<close> (\<open>memory/pool.c\<close>,
  \<open>memory/slab.c\<close>): free lists threaded through the free blocks, with a locale of block allocators.

  \<^bold>\<open>Algorithms.\<close> \<open>Cobalt_Functional\<close> (\<open>algorithm/functional.c\<close>, \<open>algorithm/stream.c\<close>), \<open>Cobalt_Sort\<close>, \<open>Cobalt_Sort_Lemmas\<close>, \<open>Cobalt_Sort_Spec\<close> (\<open>algorithm/sort.c\<close>): quicksort,
  heap sort, insertion sort and the adaptive merge sort over arrays with checked accesses; the stable sorts equal the reference sort.

  \<^bold>\<open>Modules.\<close> \<open>Cobalt_TaskGraph\<close> (\<open>module/taskgraph.c\<close>): the cycle check decides acyclicity; every execution ends, runs each task once and after its
  predecessors, and never gets stuck.
  \<open>Cobalt_JSON\<close> (\<open>module/json.c\<close>, \<open>json_parse.c\<close>, \<open>json_serialize.c\<close>) holds the parser, the queries and the serializer of documents;
  \<open>Cobalt_JSON_Text\<close> the compact text of a document and the nodes that represent it, \<open>Cobalt_JSON_Parse\<close> that the parser reads such texts, \<open>Cobalt_JSON_Spec\<close> that
  the serializer writes them (round trip), \<open>Cobalt_JSON_Total\<close> that parsing ends for every text and the nesting cap, \<open>Cobalt_JSON_Tree\<close> that every tree returned represents a
  document, and the lookup of members. Two conditions limit these results. The round trip is for documents whose objects do not end in a non-empty object and whose arrays hold an empty
  container only at their end; \<open>object_swallows_brace\<close> and \<open>empty_takes_sibling\<close> show that others are read or written wrongly. Absence of faults and the round trip need
  \<open>growth_safe\<close>: when an escape makes a string buffer grow, \<open>jrealloc\<close> copies up to four bytes from behind the old buffer, so these bytes must be readable, unless the text has no
  escape or is shorter than 64 bytes; \<open>json_string_overread\<close> shows a text that faults otherwise. The stores into the string buffer itself are always in bounds.

  \<^bold>\<open>Bounds.\<close> Runs of the concurrent queues keep their cursors below \<open>2 ^ 63\<close>, where the signed difference of sequence numbers does not wrap
  around; a program of the frame ring is bounded so that its cursors stay below \<open>2 ^ 64\<close>, since the code compares them without regard to
  wrap-around. Interleavings are sequentially consistent; the C11 memory orders are not modelled. In the frame ring a peek is one
  step, although a peek that skips the padding at the end of the ring publishes its cursor and loads the other cursor a second time. In the task graph the thread that
  started the run may also take tasks from the pool; as a pool has at least one worker, this only adds interleavings. Texts given to the JSON parser have less than \<open>2 ^ 62\<close> bytes (\<open>2 ^ 60\<close> for the round trip), so no size wraps. The JSON parser takes
  fuel \<open>3 * length + 3\<close>: at most three calls nest per character read, as
  \<open>parser_total\<close> shows. The serializer needs two calls per node.

  \<^bold>\<open>Not modelled.\<close> Functions that only release memory; code that is input and output or a thin layer over the operating system
  (\<open>platform\<close>, \<open>runtime/logger.c\<close>, \<open>utils/benchmark.c\<close>, \<open>module/eventloop.c\<close>, \<open>module/shm_channel.c\<close>); the thread pool and the lock wrappers
  (\<open>module/threadpool.c\<close>, \<open>container/threadsafewrapper.c\<close>, \<open>module/parallel_sort.c\<close>), whose content is locking; epoch reclamation and the lock-free map
  and skip list (\<open>memory/ebr.c\<close>, \<open>container/lfhashmap.c\<close>, \<open>container/lfskiplist.c\<close>), which need a memory model with reclamation. The tree map (\<open>container/treemap.c\<close>), the regular
  expressions (\<open>algorithm/regex.c\<close>), the event parser \<open>module/json_sax.c\<close>, the string utilities and the object model (\<open>core\<close>) are left out.
\<close>

end
